(* ===== verification/Prelude.thy ===== *)
theory Prelude
  imports Main "HOL-Library.Word" "HOL-Library.Multiset" "HOL-Library.List_Lexorder" "HOL-Library.Product_Lexorder"
begin

unbundle bit_operations_syntax

text \<open>
  Shared vocabulary of the development: the machine types, Rust's \<^verbatim>\<open>Result\<close> with a
  third value for a panic, fixed-width little- and big-endian byte strings, and the
  generic list lemmas that the cursor-based decoders and the segment files use.

  A Rust \<^verbatim>\<open>&[u8]\<close>, \<^verbatim>\<open>Vec<u8>\<close> or \<^verbatim>\<open>[u8; N]\<close> is a \<open>bytes\<close>; a Rust \<^verbatim>\<open>String\<close> is the
  \<open>bytes\<close> of its UTF-8 form. Lengths and offsets are \<open>nat\<close>; the places where the 64-bit
  \<^verbatim>\<open>usize\<close> arithmetic of the code can wrap are written out where they occur.
\<close>

type_synonym u8 = "8 word"
type_synonym u16 = "16 word"
type_synonym u32 = "32 word"
type_synonym u64 = "64 word"
type_synonym bytes = "u8 list"

text \<open>\<open>codec\<close> collects the inversion and round-trip rules of the byte-level encoders;
  \<open>result_elims\<close> the rules that open a successful computation in \<open>result\<close>.\<close>

named_theorems codec
named_theorems result_elims

section \<open>Results and panics\<close>

datatype ('a, 'e) result = Ok 'a | Err 'e | Panic

primrec bind_res :: "('a, 'e) result \<Rightarrow> ('a \<Rightarrow> ('b, 'e) result) \<Rightarrow> ('b, 'e) result" where
  "bind_res (Ok x) f = f x"
| "bind_res (Err e) f = Err e"
| "bind_res Panic f = Panic"

primrec map_err :: "('e \<Rightarrow> 'f) \<Rightarrow> ('a, 'e) result \<Rightarrow> ('a, 'f) result" where
  "map_err g (Ok x) = Ok x"
| "map_err g (Err e) = Err (g e)"
| "map_err g Panic = Panic"

definition ok_or :: "'e \<Rightarrow> 'a option \<Rightarrow> ('a, 'e) result" where
  "ok_or e x = (case x of None \<Rightarrow> Err e | Some y \<Rightarrow> Ok y)"

definition or_panic :: "'a option \<Rightarrow> ('a, 'e) result" where
  "or_panic x = (case x of None \<Rightarrow> Panic | Some y \<Rightarrow> Ok y)"

lemma bind_res_Ok_iff [result_elims]:
  "bind_res r f = Ok y \<longleftrightarrow> (\<exists>x. r = Ok x \<and> f x = Ok y)"
  by (cases r) auto

lemma bind_res_Panic_iff:
  "bind_res r f = Panic \<longleftrightarrow> r = Panic \<or> (\<exists>x. r = Ok x \<and> f x = Panic)"
  by (cases r) auto

lemma bind_res_Err_iff:
  "bind_res r f = Err e \<longleftrightarrow> r = Err e \<or> (\<exists>x. r = Ok x \<and> f x = Err e)"
  by (cases r) auto

lemma map_err_Ok_iff [result_elims]: "map_err g r = Ok x \<longleftrightarrow> r = Ok x"
  by (cases r) auto

lemma ok_or_Ok_iff [result_elims]: "ok_or e x = Ok y \<longleftrightarrow> x = Some y"
  by (auto simp: ok_or_def split: option.splits)

lemma or_panic_Ok_iff [result_elims]: "or_panic x = Ok y \<longleftrightarrow> x = Some y"
  by (auto simp: or_panic_def split: option.splits)

lemma ok_or_simps [simp]: "ok_or e (Some x) = Ok x" "ok_or e None = Err e"
  by (simp_all add: ok_or_def)

lemma or_panic_simps [simp]: "or_panic (Some x) = Ok x" "or_panic None = Panic"
  by (simp_all add: or_panic_def)

text \<open>A loop that computes one result per element and stops at the first failure.\<close>

primrec map_res :: "('a \<Rightarrow> ('b, 'e) result) \<Rightarrow> 'a list \<Rightarrow> ('b list, 'e) result" where
  "map_res f [] = Ok []"
| "map_res f (x # xs) = bind_res (f x) (\<lambda>y. bind_res (map_res f xs) (\<lambda>ys. Ok (y # ys)))"

lemma map_res_cong [fundef_cong]:
  "xs = ys \<Longrightarrow> (\<And>x. x \<in> set ys \<Longrightarrow> f x = g x) \<Longrightarrow> map_res f xs = map_res g ys"
  by (induction ys arbitrary: xs) auto

lemma map_res_Ok: "(\<And>x. x \<in> set xs \<Longrightarrow> f x = Ok (g x)) \<Longrightarrow> map_res f xs = Ok (map g xs)"
  by (induction xs) auto

lemma bind_res_cong [fundef_cong]:
  "r = s \<Longrightarrow> (\<And>x. s = Ok x \<Longrightarrow> f x = g x) \<Longrightarrow> bind_res r f = bind_res s g"
  by (cases s) auto

text \<open>The same for computations that can only panic (\<open>None\<close>).\<close>

lemma those_map_Some: "(\<And>x. x \<in> set xs \<Longrightarrow> f x = Some (g x)) \<Longrightarrow> those (map f xs) = Some (map g xs)"
  by (induction xs) auto

section \<open>Sorting by a key\<close>

lemma insort_key_map: "insort_key f (g x) (map g xs) = map g (insort_key (\<lambda>y. f (g y)) x xs)"
  by (induction xs) auto

lemma sort_key_map: "sort_key f (map g xs) = map g (sort_key (\<lambda>y. f (g y)) xs)"
  by (induction xs) (auto simp: insort_key_map)

lemma sort_key_strict:
  assumes "distinct (map f xs)"
  shows "sorted_wrt (<) (map f (sort_key f xs))"
proof -
  have "mset (map f (sort_key f xs)) = mset (map f xs)" by simp
  then have "distinct (map f (sort_key f xs))" using assms by (metis mset_eq_imp_distinct_iff)
  then show ?thesis by (simp add: strict_sorted_iff)
qed

lemma sort_key_id: "sorted_wrt (<) (map f xs) \<Longrightarrow> sort_key f xs = xs"
  by (rule sort_key_id_if_sorted) (simp add: strict_sorted_iff)

section \<open>Slices\<close>

text \<open>\<open>slice xs a n\<close> is \<^verbatim>\<open>xs[a..a + n]\<close> for a range inside \<open>xs\<close>.\<close>

definition slice :: "'a list \<Rightarrow> nat \<Rightarrow> nat \<Rightarrow> 'a list" where
  "slice xs a n = take n (drop a xs)"

lemma length_slice [simp]: "length (slice xs a n) = min n (length xs - a)"
  by (simp add: slice_def)

lemma slice_append_here: "length xs = a \<Longrightarrow> length ys = n \<Longrightarrow> slice (xs @ ys @ zs) a n = ys"
  by (simp add: slice_def)

lemma slice_at:
  assumes "drop a xs = ys @ zs" and "length ys = n"
  shows "slice xs a n = ys"
  using assms by (simp add: slice_def)

lemma drop_after:
  assumes "drop a xs = ys @ zs"
  shows "drop (a + length ys) xs = zs"
  using assms by (metis add.commute append_eq_conv_conj drop_drop)

lemma drop_length_bound:
  assumes "drop a xs = ys @ zs" and "a \<le> length xs"
  shows "length xs = a + length ys + length zs"
  using assms by (metis add.assoc append_take_drop_id length_append length_take min.absorb2)

lemma nth_at:
  assumes "drop a xs = y # zs"
  shows "a < length xs" and "xs ! a = y"
proof -
  show "a < length xs"
    using assms by (metis drop_all list.distinct(1) not_less)
  then show "xs ! a = y"
    using assms by (metis Cons_nth_drop_Suc list.inject)
qed

lemma slice_drop_append:
  assumes "a + n \<le> length xs"
  shows "drop a xs = slice xs a n @ drop (a + n) xs"
  using assms by (metis add.commute append_take_drop_id drop_drop slice_def)

lemma slice_add: "slice xs a (m + n) = slice xs a m @ slice xs (a + m) n"
  by (simp add: slice_def take_add add.commute)

section \<open>Fixed-width integers as bytes\<close>

text \<open>\<open>le_bytes n v\<close> is \<^verbatim>\<open>v.to_le_bytes()\<close> of an \<open>n\<close>-byte integer, \<open>le_val\<close> is
  \<^verbatim>\<open>from_le_bytes\<close>; the big-endian forms are their mirror images.\<close>

primrec le_bytes :: "nat \<Rightarrow> nat \<Rightarrow> bytes" where
  "le_bytes 0 v = []"
| "le_bytes (Suc n) v = of_nat (v mod 256) # le_bytes n (v div 256)"

primrec le_val :: "bytes \<Rightarrow> nat" where
  "le_val [] = 0"
| "le_val (b # bs) = unat b + 256 * le_val bs"

definition be_bytes :: "nat \<Rightarrow> nat \<Rightarrow> bytes" where
  "be_bytes n v = rev (le_bytes n v)"

definition be_val :: "bytes \<Rightarrow> nat" where
  "be_val bs = le_val (rev bs)"

lemma length_le_bytes [simp]: "length (le_bytes n v) = n"
  by (induction n arbitrary: v) auto

lemma length_be_bytes [simp]: "length (be_bytes n v) = n"
  by (simp add: be_bytes_def)

lemma unat_u8_less [simp]: "unat (b :: u8) < 256"
  using unsigned_less [of b] by simp

lemma le_val_le_bytes [codec]: "v < 256 ^ n \<Longrightarrow> le_val (le_bytes n v) = v"
proof (induction n arbitrary: v)
  case (Suc n)
  then have "v div 256 < 256 ^ n" by (simp add: less_mult_imp_div_less mult.commute)
  with Suc.IH have "le_val (le_bytes n (v div 256)) = v div 256" by blast
  then show ?case by (simp add: unat_of_nat)
qed simp

lemma le_val_bound: "le_val bs < 256 ^ length bs"
proof (induction bs)
  case (Cons b bs)
  define P :: nat where "P = 256 ^ length bs"
  have "unat b < 256" by (rule unat_u8_less)
  moreover have "le_val bs < P" using Cons by (simp add: P_def)
  ultimately have "unat b + 256 * le_val bs < 256 * P" by linarith
  then show ?case by (simp add: P_def)
qed simp

lemma le_bytes_le_val [codec]: "length bs = n \<Longrightarrow> le_bytes n (le_val bs) = bs"
proof (induction bs arbitrary: n)
  case (Cons b bs)
  have "(unat b + 256 * le_val bs) mod 256 = unat b"
    using unat_u8_less [of b] by simp
  moreover have "(unat b + 256 * le_val bs) div 256 = le_val bs"
    using unat_u8_less [of b] by simp
  ultimately show ?case using Cons by auto
qed simp

lemma be_val_be_bytes [codec]: "v < 256 ^ n \<Longrightarrow> be_val (be_bytes n v) = v"
  by (simp add: be_val_def be_bytes_def le_val_le_bytes)

lemma be_val_bound: "be_val bs < 256 ^ length bs"
  using le_val_bound [of "rev bs"] by (simp add: be_val_def)

lemma be_bytes_be_val [codec]: "length bs = n \<Longrightarrow> be_bytes n (be_val bs) = bs"
  by (simp add: be_val_def be_bytes_def le_bytes_le_val)

lemma le_bytes_inject:
  "u < 256 ^ n \<Longrightarrow> v < 256 ^ n \<Longrightarrow> le_bytes n u = le_bytes n v \<longleftrightarrow> u = v"
  by (metis le_val_le_bytes)

section \<open>Association lists as finite maps\<close>

lemma map_of_map_snd:
  "map_of (map (\<lambda>(k, v). (k, f v)) xs) k = map_option f (map_of xs k)"
  by (induction xs) auto

end
