(* ===== verification/Text.thy ===== *)
theory Text
  imports Prelude
begin

text \<open>
  The parts of Rust's string library that the program uses, over the UTF-8 bytes of a
  string: \<^verbatim>\<open>str::from_utf8\<close>, slicing at character boundaries, decimal printing with zero
  padding, \<^verbatim>\<open>str::parse\<close> of integers (which accepts a leading \<^verbatim>\<open>+\<close>), and the program's
  own lowercase hex printer with the parsers that read hex back.
\<close>

section \<open>UTF-8\<close>

definition ascii :: "string \<Rightarrow> bytes" where
  "ascii s = map of_char s"

definition is_cont :: "u8 \<Rightarrow> bool" where
  "is_cont b \<longleftrightarrow> 128 \<le> b \<and> b < 192"

text \<open>Well-formed UTF-8 (Unicode table 3-7), which is what \<^verbatim>\<open>from_utf8\<close> accepts.\<close>

fun valid_utf8 :: "bytes \<Rightarrow> bool" where
  "valid_utf8 [] = True"
| "valid_utf8 (b # r) =
     (if b < 0x80 then valid_utf8 r
      else if 0xC2 \<le> b \<and> b \<le> 0xDF then
        (case r of c # r1 \<Rightarrow> is_cont c \<and> valid_utf8 r1 | [] \<Rightarrow> False)
      else if 0xE0 \<le> b \<and> b \<le> 0xEF then
        (case r of c # d # r2 \<Rightarrow>
           is_cont c \<and> is_cont d \<and> (b = 0xE0 \<longrightarrow> 0xA0 \<le> c) \<and> (b = 0xED \<longrightarrow> c \<le> 0x9F) \<and> valid_utf8 r2
         | _ \<Rightarrow> False)
      else if 0xF0 \<le> b \<and> b \<le> 0xF4 then
        (case r of c # d # e # r3 \<Rightarrow>
           is_cont c \<and> is_cont d \<and> is_cont e
           \<and> (b = 0xF0 \<longrightarrow> 0x90 \<le> c) \<and> (b = 0xF4 \<longrightarrow> c \<le> 0x8F) \<and> valid_utf8 r3
         | _ \<Rightarrow> False)
      else False)"

lemma valid_utf8_ascii: "(\<forall>b \<in> set s. b < 0x80) \<Longrightarrow> valid_utf8 s"
  by (induction s) auto

text \<open>\<^verbatim>\<open>str::is_char_boundary\<close> and the checked slice \<^verbatim>\<open>&s[a..b]\<close>, \<open>None\<close> where it panics.\<close>

definition is_char_boundary :: "bytes \<Rightarrow> nat \<Rightarrow> bool" where
  "is_char_boundary s i \<longleftrightarrow>
     i = 0 \<or> i = length s \<or> (i < length s \<and> \<not> is_cont (s ! i))"

definition str_slice :: "bytes \<Rightarrow> nat \<Rightarrow> nat \<Rightarrow> bytes option" where
  "str_slice s a b =
     (if a \<le> b \<and> b \<le> length s \<and> is_char_boundary s a \<and> is_char_boundary s b
      then Some (slice s a (b - a)) else None)"

text \<open>\<^verbatim>\<open>strip_prefix\<close> and \<^verbatim>\<open>strip_suffix\<close>.\<close>

definition strip_prefix :: "bytes \<Rightarrow> bytes \<Rightarrow> bytes option" where
  "strip_prefix p s =
     (if take (length p) s = p then Some (drop (length p) s) else None)"

definition strip_suffix :: "bytes \<Rightarrow> bytes \<Rightarrow> bytes option" where
  "strip_suffix p s =
     (if length p \<le> length s \<and> drop (length s - length p) s = p
      then Some (take (length s - length p) s) else None)"

lemma strip_prefix_append [simp]: "strip_prefix p (p @ s) = Some s"
  by (simp add: strip_prefix_def)

lemma strip_suffix_append [simp]: "strip_suffix p (s @ p) = Some s"
  by (simp add: strip_suffix_def)

lemma strip_prefix_Some: "strip_prefix p s = Some t \<longleftrightarrow> s = p @ t"
  by (auto simp: strip_prefix_def split: if_splits) (metis append_take_drop_id)

lemma strip_suffix_Some: "strip_suffix p s = Some t \<longleftrightarrow> s = t @ p"
proof
  assume "strip_suffix p s = Some t"
  then show "s = t @ p"
    by (auto simp: strip_suffix_def split: if_splits) (metis append_take_drop_id)
qed simp

section \<open>Decimal integers\<close>

definition digit_char :: "nat \<Rightarrow> u8" where
  "digit_char d = of_nat (48 + d)"

fun dec_digits :: "nat \<Rightarrow> bytes" where
  "dec_digits n =
     (if n < 10 then [digit_char n] else dec_digits (n div 10) @ [digit_char (n mod 10)])"

declare dec_digits.simps [simp del]

text \<open>\<^verbatim>\<open>format!("{n:0w$}")\<close>: at least \<open>w\<close> digits, padded with zeros on the left.\<close>

definition pad_dec :: "nat \<Rightarrow> nat \<Rightarrow> bytes" where
  "pad_dec w n = replicate (w - length (dec_digits n)) (digit_char 0) @ dec_digits n"

text \<open>\<^verbatim>\<open>char::to_digit(radix)\<close> on one byte.\<close>

definition to_digit :: "nat \<Rightarrow> u8 \<Rightarrow> nat option" where
  "to_digit r c =
     (let v = unat c;
          d = (if 48 \<le> v \<and> v \<le> 57 then v - 48
               else if 97 \<le> v \<and> v \<le> 122 then v - 87
               else if 65 \<le> v \<and> v \<le> 90 then v - 55 else 36)
      in if d < r then Some d else None)"

text \<open>The digit loop of \<^verbatim>\<open>from_str_radix\<close>, with its overflow checks against the type's maximum.\<close>

fun parse_digits :: "nat \<Rightarrow> nat \<Rightarrow> nat \<Rightarrow> bytes \<Rightarrow> nat option" where
  "parse_digits r m acc [] = Some acc"
| "parse_digits r m acc (c # cs) =
     (case to_digit r c of None \<Rightarrow> None
      | Some d \<Rightarrow> if acc * r + d \<le> m then parse_digits r m (acc * r + d) cs else None)"

text \<open>\<^verbatim>\<open>uN::from_str_radix\<close>: an optional \<^verbatim>\<open>+\<close>, then at least one digit.\<close>

definition parse_uint :: "nat \<Rightarrow> nat \<Rightarrow> bytes \<Rightarrow> nat option" where
  "parse_uint r m s =
     (case s of [] \<Rightarrow> None
      | c # cs \<Rightarrow> if c = 43 then (if cs = [] then None else parse_digits r m 0 cs)
                  else parse_digits r m 0 s)"

text \<open>\<^verbatim>\<open>str::parse::<i64>\<close>: also an optional \<^verbatim>\<open>-\<close>.\<close>

definition parse_i64 :: "bytes \<Rightarrow> int option" where
  "parse_i64 s =
     (case s of [] \<Rightarrow> None
      | c # cs \<Rightarrow>
          if c = 45 then
            (if cs = [] then None else map_option (\<lambda>n. - int n) (parse_digits 10 (2 ^ 63) 0 cs))
          else map_option int (parse_uint 10 (2 ^ 63 - 1) s))"

lemma unat_digit_char: "d < 10 \<Longrightarrow> unat (digit_char d) = 48 + d"
  by (simp add: digit_char_def unat_of_nat del: of_nat_add)

lemma to_digit_digit_char [codec]: "d < 10 \<Longrightarrow> 10 \<le> r \<Longrightarrow> to_digit r (digit_char d) = Some d"
  by (simp add: to_digit_def unat_digit_char)

lemma digit_char_not_sign: "d < 10 \<Longrightarrow> digit_char d \<noteq> 43" "d < 10 \<Longrightarrow> digit_char d \<noteq> 45"
  using unat_digit_char [of d] by (auto dest: arg_cong [of _ _ unat])

lemma parse_digits_append:
  "parse_digits r m a (xs @ ys) =
     (case parse_digits r m a xs of None \<Rightarrow> None | Some a' \<Rightarrow> parse_digits r m a' ys)"
  by (induction r m a xs rule: parse_digits.induct) (auto split: option.splits)

lemma parse_dec_digits: "n \<le> m \<Longrightarrow> parse_digits 10 m 0 (dec_digits n) = Some n"
proof (induction n rule: dec_digits.induct)
  case (1 n)
  show ?case
  proof (cases "n < 10")
    case True
    with "1.prems" show ?thesis
      by (simp add: dec_digits.simps [of n] to_digit_digit_char)
  next
    case False
    then have "parse_digits 10 m 0 (dec_digits (n div 10)) = Some (n div 10)"
      using "1" by simp
    with False "1.prems" show ?thesis
      by (simp add: dec_digits.simps [of n] parse_digits_append to_digit_digit_char)
  qed
qed

lemma parse_zeros: "parse_digits 10 m 0 (replicate k (digit_char 0) @ s) = parse_digits 10 m 0 s"
  by (induction k) (simp_all add: to_digit_digit_char)

lemma parse_pad_dec [codec]: "n \<le> m \<Longrightarrow> parse_digits 10 m 0 (pad_dec w n) = Some n"
  by (simp add: pad_dec_def parse_zeros parse_dec_digits)

lemma dec_digits_nonempty [simp]: "dec_digits n \<noteq> []"
  by (subst dec_digits.simps) simp

lemma set_dec_digits: "b \<in> set (dec_digits n) \<Longrightarrow> b \<in> digit_char ` {..<10}"
proof (induction n rule: dec_digits.induct)
  case (1 n)
  show ?case
  proof (cases "n < 10")
    case True
    with "1.prems" show ?thesis by (simp add: dec_digits.simps [of n])
  next
    case False
    with "1.prems" have "b \<in> set (dec_digits (n div 10)) \<or> b = digit_char (n mod 10)"
      by (auto simp: dec_digits.simps [of n])
    with "1.IH" False show ?thesis by auto
  qed
qed

lemma set_pad_dec: "b \<in> set (pad_dec w n) \<Longrightarrow> b \<in> digit_char ` {..<10}"
  by (auto simp: pad_dec_def dest: set_dec_digits)

lemma pad_dec_nonempty [simp]: "pad_dec w n \<noteq> []"
  by (simp add: pad_dec_def)

lemma length_dec_digits_le: "n < 10 ^ k \<Longrightarrow> 0 < k \<Longrightarrow> length (dec_digits n) \<le> k"
proof (induction k arbitrary: n)
  case (Suc k)
  show ?case
  proof (cases "n < 10")
    case False
    with Suc.prems have "0 < k" by (cases k) auto
    moreover have "n div 10 < 10 ^ k" using Suc.prems by (simp add: less_mult_imp_div_less mult.commute)
    ultimately show ?thesis using Suc.IH [of "n div 10"] False
      by (subst dec_digits.simps) simp
  qed (subst dec_digits.simps, simp)
qed simp

lemma length_dec_digits_ge: "10 ^ k \<le> n \<Longrightarrow> k < length (dec_digits n)"
proof (induction k arbitrary: n)
  case (Suc k)
  have "(1 :: nat) \<le> 10 ^ k" by simp
  with Suc.prems have "\<not> n < 10" unfolding power_Suc by linarith
  moreover from Suc.prems have "10 ^ k \<le> n div 10"
    by (simp add: less_eq_div_iff_mult_less_eq)
  ultimately show ?case using Suc.IH [of "n div 10"]
    by (simp add: dec_digits.simps [of n])
qed simp

lemma length_pad_dec: "n < 10 ^ w \<Longrightarrow> 0 < w \<Longrightarrow> length (pad_dec w n) = w"
  using length_dec_digits_le [of n w] by (simp add: pad_dec_def)

lemma length_pad_dec_ge: "10 ^ w \<le> n \<Longrightarrow> w < length (pad_dec w n)"
  using length_dec_digits_ge [of w n] by (simp add: pad_dec_def)

lemma pad_dec_inject: "pad_dec w m = pad_dec w n \<longleftrightarrow> m = n"
  by (metis parse_pad_dec max.cobounded1 max.cobounded2 option.inject)

section \<open>Lowercase hex\<close>

definition hex_digit :: "nat \<Rightarrow> u8" where
  "hex_digit d = (if d < 10 then digit_char d else of_nat (87 + d))"

definition hex :: "bytes \<Rightarrow> bytes" where
  "hex bs = concat (map (\<lambda>b. [hex_digit (unat (drop_bit 4 b)), hex_digit (unat (b AND 0x0f))]) bs)"

lemma length_hex [simp]: "length (hex bs) = 2 * length bs"
  by (induction bs) (auto simp: hex_def)

lemma nibbles:
  "unat (drop_bit 4 (b :: u8)) = unat b div 16" "unat (b AND 0x0f) = unat b mod 16"
proof -
  show "unat (drop_bit 4 b) = unat b div 16"
    by (subst unat_drop_bit_eq) (simp add: drop_bit_eq_div)
  have "b AND 0x0f = take_bit 4 b"
    by (simp add: take_bit_eq_mask mask_eq_exp_minus_1)
  then have "unat (b AND 0x0f) = take_bit 4 (unat b)"
    by (simp only: unsigned_take_bit_eq)
  then show "unat (b AND 0x0f) = unat b mod 16"
    by (simp add: take_bit_eq_mod)
qed

lemma hex_Nil [simp]: "hex [] = []"
  by (simp add: hex_def)

lemma hex_Cons:
  "hex (b # bs) = hex_digit (unat b div 16) # hex_digit (unat b mod 16) # hex bs"
  by (simp add: hex_def nibbles)

lemma unat_hex_digit: "d < 16 \<Longrightarrow> unat (hex_digit d) = (if d < 10 then 48 + d else 87 + d)"
  by (simp add: hex_digit_def unat_digit_char unat_of_nat del: of_nat_add)

lemma to_digit_hex_digit [codec]: "d < 16 \<Longrightarrow> to_digit 16 (hex_digit d) = Some d"
  by (auto simp: to_digit_def unat_hex_digit)

lemma set_hex: "b \<in> set (hex bs) \<Longrightarrow> b \<in> hex_digit ` {..<16}"
proof (induction bs)
  case (Cons x xs)
  have "unat x div 16 < 16" using unat_u8_less [of x] by linarith
  with Cons show ?case by (auto simp: hex_Cons)
qed simp

lemma hex_inject [simp]: "hex xs = hex ys \<longleftrightarrow> xs = ys"
proof
  have dig: "hex_digit c = hex_digit d \<longleftrightarrow> c = d" if "c < 16" "d < 16" for c d
    using that by (metis option.inject to_digit_hex_digit)
  show "hex xs = hex ys \<Longrightarrow> xs = ys"
  proof (induction xs arbitrary: ys)
    case Nil
    then show ?case by (cases ys) (auto simp: hex_Cons)
  next
    case (Cons x xs)
    then obtain y zs where ys: "ys = y # zs" by (cases ys) (auto simp: hex_Cons)
    have lt: "unat x div 16 < 16" "unat y div 16 < 16"
      using unat_u8_less [of x] unat_u8_less [of y] by linarith+
    from Cons.prems ys have "unat x div 16 = unat y div 16" "unat x mod 16 = unat y mod 16"
      and "hex xs = hex zs"
      by (simp_all add: hex_Cons dig lt)
    then have "unat x = unat y" by (metis div_mult_mod_eq)
    moreover have "xs = zs" using Cons.IH \<open>hex xs = hex zs\<close> by blast
    ultimately show ?case using ys by (simp add: word_unat_eq_iff)
  qed
qed simp

end
