(* ===== verification/Cbor.thy ===== *)
theory Cbor
  imports Text
begin

text \<open>
  The canonical CBOR codec of \<^verbatim>\<open>cbor.rs\<close>: the encoders (\<open>head\<close>, \<open>uint\<close>, \<open>nint\<close>, \<open>bstr\<close>,
  \<open>tstr\<close>, \<open>bool_cbor\<close>, \<open>array\<close>, \<open>map_int_keys\<close>, \<open>map_text_keys\<close>) and the decoder with its
  cursor, its depth limit and every error it reports. Error messages, which the code
  marks as for humans, are left out; offsets and counts are kept.

  A decoder result \<open>Panic\<close> is a Rust panic. The code adds a 64-bit length to the cursor
  without a check (\<^verbatim>\<open>ensure\<close>), so that sum is taken modulo \<open>2 ^ 64\<close> here, and the slice
  \<^verbatim>\<open>bytes[a..b]\<close> that follows panics when its range is not inside the input.
\<close>

section \<open>Encoder\<close>

text \<open>\<^verbatim>\<open>head\<close>: callers pass one of the constants 0 to 5 as the major type, so the
  assertion \<^verbatim>\<open>major < 8\<close> cannot fail.\<close>

definition head :: "u8 \<Rightarrow> u64 \<Rightarrow> bytes" where
  "head major value =
     (let base = push_bit 5 major in
      if value < 24 then [base OR ucast value]
      else if value < 2 ^ 8 then [base OR 24, ucast value]
      else if value < 2 ^ 16 then (base OR 25) # be_bytes 2 (unat value)
      else if value < 2 ^ 32 then (base OR 26) # be_bytes 4 (unat value)
      else (base OR 27) # be_bytes 8 (unat value))"

definition uint_cbor :: "u64 \<Rightarrow> bytes" where
  "uint_cbor value = head 0 value"

text \<open>\<^verbatim>\<open>nint\<close> asserts that its argument is negative; \<open>None\<close> is that panic.\<close>

definition nint :: "int \<Rightarrow> bytes option" where
  "nint value = (if value < 0 then Some (head 1 (word_of_int (- (value + 1)))) else None)"

definition bstr :: "bytes \<Rightarrow> bytes" where
  "bstr value = head 2 (of_nat (length value)) @ value"

definition tstr :: "bytes \<Rightarrow> bytes" where
  "tstr value = head 3 (of_nat (length value)) @ value"

definition bool_cbor :: "bool \<Rightarrow> bytes" where
  "bool_cbor value = [if value then 0xf5 else 0xf4]"

text \<open>The canonical sort of the two map encoders: by encoded-key length, then bytes; stable.\<close>

definition canonical_sort :: "(bytes \<times> bytes) list \<Rightarrow> (bytes \<times> bytes) list" where
  "canonical_sort = sort_key (\<lambda>e. (length (fst e), fst e))"

definition emit_map :: "(bytes \<times> bytes) list \<Rightarrow> bytes" where
  "emit_map encoded =
     head 5 (of_nat (length encoded)) @ concat (map (\<lambda>(k, v). k @ v) encoded)"

definition map_int_keys :: "(u64 \<times> bytes) list \<Rightarrow> bytes" where
  "map_int_keys items = emit_map (canonical_sort (map (\<lambda>(k, v). (uint_cbor k, v)) items))"

definition map_text_keys :: "(bytes \<times> bytes) list \<Rightarrow> bytes" where
  "map_text_keys items = emit_map (canonical_sort (map (\<lambda>(k, v). (tstr k, v)) items))"

definition array :: "bytes list \<Rightarrow> bytes" where
  "array items = head 4 (of_nat (length items)) @ concat items"

section \<open>Decoder\<close>

datatype cbor_value =
    VUint u64
  | VNint int
  | VBytes bytes
  | VText bytes
  | VArray "cbor_value list"
  | VMap "(cbor_value \<times> cbor_value) list"
  | VBool bool

datatype cbor_error =
    Truncated nat nat
  | NonCanonical nat
  | MapKeyOrder nat
  | Unsupported nat
  | TrailingBytes nat nat
  | InvalidUtf8 nat

definition MAX_CBOR_DEPTH :: nat where
  "MAX_CBOR_DEPTH = 16"

definition ensure :: "bytes \<Rightarrow> nat \<Rightarrow> nat \<Rightarrow> (unit, cbor_error) result" where
  "ensure bytes cursor needed =
     (if length bytes < (cursor + needed) mod 2 ^ 64
      then Err (Truncated cursor (needed - (length bytes - cursor)))
      else Ok ())"

text \<open>The slice \<^verbatim>\<open>bytes[a..b]\<close>.\<close>

definition index_range :: "bytes \<Rightarrow> nat \<Rightarrow> nat \<Rightarrow> (bytes, cbor_error) result" where
  "index_range bytes a b =
     (if a \<le> b \<and> b \<le> length bytes then Ok (slice bytes a (b - a)) else Panic)"

definition take_bytes :: "bytes \<Rightarrow> nat \<Rightarrow> nat \<Rightarrow> (bytes, cbor_error) result" where
  "take_bytes bytes cursor len =
     bind_res (ensure bytes cursor len)
       (\<lambda>_. index_range bytes cursor ((cursor + len) mod 2 ^ 64))"

definition key_order_canonical :: "bytes \<Rightarrow> bytes \<Rightarrow> bool" where
  "key_order_canonical prev nxt =
     (if length prev < length nxt then True
      else if length nxt < length prev then False
      else prev < nxt)"

text \<open>One of the four multi-byte forms of an argument: \<open>n\<close> big-endian bytes, rejected when
  the value is below \<open>lo\<close> and a shorter form exists.\<close>

definition decode_wide :: "bytes \<Rightarrow> nat \<Rightarrow> nat \<Rightarrow> nat \<Rightarrow> nat \<Rightarrow> (u64 \<times> nat, cbor_error) result" where
  "decode_wide bytes start cursor n lo =
     bind_res (ensure bytes cursor n)
       (\<lambda>_. let v = be_val (slice bytes cursor n) in
            if v < lo then Err (NonCanonical start) else Ok (of_nat v, cursor + n))"

definition decode_argument :: "bytes \<Rightarrow> nat \<Rightarrow> u8 \<Rightarrow> (u64 \<times> nat, cbor_error) result" where
  "decode_argument bytes cursor additional =
     (let start = cursor; cursor = cursor + 1 in
      if additional < 24 then Ok (ucast additional, cursor)
      else if additional = 24 then decode_wide bytes start cursor 1 24
      else if additional = 25 then decode_wide bytes start cursor 2 (2 ^ 8)
      else if additional = 26 then decode_wide bytes start cursor 4 (2 ^ 16)
      else if additional = 27 then decode_wide bytes start cursor 8 (2 ^ 32)
      else Err (Unsupported start))"

text \<open>
  \<open>decode_value_inner\<close> with its two item loops (the array loop and the map loop, which
  carries the encoding of the previous key). The loops take the number of items still to
  read; the nesting depth is what bounds the recursion.
\<close>

function decode_value_inner ::
    "bytes \<Rightarrow> nat \<Rightarrow> nat \<Rightarrow> (cbor_value \<times> nat, cbor_error) result"
  and decode_items ::
    "bytes \<Rightarrow> nat \<Rightarrow> nat \<Rightarrow> nat \<Rightarrow> (cbor_value list \<times> nat, cbor_error) result"
  and decode_pairs ::
    "bytes \<Rightarrow> nat \<Rightarrow> nat \<Rightarrow> nat \<Rightarrow> bytes option \<Rightarrow>
       ((cbor_value \<times> cbor_value) list \<times> nat, cbor_error) result"
where
  "decode_value_inner bytes cursor depth =
     (if MAX_CBOR_DEPTH \<le> depth then Err (Unsupported cursor)
      else if length bytes \<le> cursor then Err (Truncated cursor 1)
      else
        let initial = bytes ! cursor;
            major = drop_bit 5 initial;
            additional = initial AND 0x1f;
            start_offset = cursor
        in
          if major = 0 then
            bind_res (decode_argument bytes cursor additional) (\<lambda>(v, cursor). Ok (VUint v, cursor))
          else if major = 1 then
            bind_res (decode_argument bytes cursor additional) (\<lambda>(arg, cursor).
              let v = - uint arg - 1 in
              if v < - (2 ^ 63) then Err (Unsupported start_offset) else Ok (VNint v, cursor))
          else if major = 2 then
            bind_res (decode_argument bytes cursor additional) (\<lambda>(len, cursor).
              bind_res (take_bytes bytes cursor (unat len)) (\<lambda>out.
                Ok (VBytes out, cursor + unat len)))
          else if major = 3 then
            bind_res (decode_argument bytes cursor additional) (\<lambda>(len, cursor).
              bind_res (take_bytes bytes cursor (unat len)) (\<lambda>s.
                if valid_utf8 s then Ok (VText s, cursor + unat len) else Err (InvalidUtf8 cursor)))
          else if major = 4 then
            bind_res (decode_argument bytes cursor additional) (\<lambda>(len, cursor).
              bind_res (decode_items bytes cursor (depth + 1) (unat len)) (\<lambda>(items, cursor).
                Ok (VArray items, cursor)))
          else if major = 5 then
            bind_res (decode_argument bytes cursor additional) (\<lambda>(len, cursor).
              bind_res (decode_pairs bytes cursor (depth + 1) (unat len) None) (\<lambda>(items, cursor).
                Ok (VMap items, cursor)))
          else if major = 7 then
            (if additional = 20 then Ok (VBool False, cursor + 1)
             else if additional = 21 then Ok (VBool True, cursor + 1)
             else Err (Unsupported start_offset))
          else Err (Unsupported start_offset))"
| "decode_items bytes cursor depth n =
     (if n = 0 then Ok ([], cursor)
      else bind_res (decode_value_inner bytes cursor depth) (\<lambda>(item, cursor).
        bind_res (decode_items bytes cursor depth (n - 1)) (\<lambda>(items, cursor).
          Ok (item # items, cursor))))"
| "decode_pairs bytes cursor depth n prev =
     (if n = 0 then Ok ([], cursor)
      else
        let key_start = cursor in
        bind_res (decode_value_inner bytes cursor depth) (\<lambda>(key, cursor).
          let key_encoded = slice bytes key_start (cursor - key_start) in
          if (case prev of None \<Rightarrow> False | Some p \<Rightarrow> \<not> key_order_canonical p key_encoded)
          then Err (MapKeyOrder key_start)
          else bind_res (decode_value_inner bytes cursor depth) (\<lambda>(value, cursor).
            bind_res (decode_pairs bytes cursor depth (n - 1) (Some key_encoded)) (\<lambda>(items, cursor).
              Ok ((key, value) # items, cursor)))))"
  by pat_completeness auto
termination
  by (relation "inv_image (less_than <*lex*> less_than)
       (\<lambda>x. case x of
          Inl (bytes, cursor, depth) \<Rightarrow> (MAX_CBOR_DEPTH - depth, 0)
        | Inr (Inl (bytes, cursor, depth, n)) \<Rightarrow> (MAX_CBOR_DEPTH - depth, n)
        | Inr (Inr (bytes, cursor, depth, n, prev)) \<Rightarrow> (MAX_CBOR_DEPTH - depth, n))") auto

declare decode_value_inner.simps [simp del] decode_items.simps [simp del]
  decode_pairs.simps [simp del]

definition decode_value :: "bytes \<Rightarrow> nat \<Rightarrow> (cbor_value \<times> nat, cbor_error) result" where
  "decode_value bytes cursor = decode_value_inner bytes cursor 0"

definition decode :: "bytes \<Rightarrow> (cbor_value, cbor_error) result" where
  "decode bytes =
     bind_res (decode_value bytes 0) (\<lambda>(value, cursor).
       if cursor \<noteq> length bytes then Err (TrailingBytes cursor (length bytes - cursor))
       else Ok value)"

end
