(* ===== verification/Cbor_Codec.thy ===== *)
theory Cbor_Codec
  imports Cbor
begin

text \<open>
  The decoder and the encoding are inverse to each other. \<open>enc\<close> is the canonical encoding
  of a decoded value; \<open>wfv d v\<close> says which values have one at nesting depth \<open>d\<close>.
\<close>

section \<open>Initial bytes\<close>

lemma take_bit_below: "unat (w :: u8) < 2 ^ n \<Longrightarrow> take_bit n w = w"
  by (simp add: word_unat_eq_iff unsigned_take_bit_eq take_bit_nat_eq_self)

lemma initial_byte:
  assumes "m < 8" and "a < 32"
  shows "drop_bit 5 (push_bit 5 m OR a :: u8) = m" and "(push_bit 5 m OR a) AND 0x1f = a"
proof -
  have m: "take_bit 3 m = m" and a: "take_bit 5 a = a"
    using assms by (auto intro!: take_bit_below simp: word_less_nat_alt)
  have "drop_bit 5 a = 0"
    using a by (metis drop_bit_take_bit diff_self_eq_0 take_bit_0)
  moreover have "drop_bit 5 (push_bit 5 m) = m"
  proof -
    have "drop_bit 5 (push_bit 5 m :: u8) = take_bit 3 m"
      by (rule bit_word_eqI) (auto simp: bit_simps)
    then show ?thesis using m by simp
  qed
  ultimately show "drop_bit 5 (push_bit 5 m OR a) = m" by simp
  have mask: "(0x1f :: u8) = mask 5" by (simp add: mask_eq_exp_minus_1)
  have "take_bit 5 (push_bit 5 m :: u8) = 0"
    by (rule bit_word_eqI) (auto simp: bit_simps)
  then have "take_bit 5 (push_bit 5 m OR a) = a" using a by simp
  then show "(push_bit 5 m OR a) AND 0x1f = a" unfolding mask by (simp add: take_bit_eq_mask)
qed

lemma initial_byte_split: "(b :: u8) = push_bit 5 (drop_bit 5 b) OR (b AND 0x1f)"
proof -
  have mask: "(0x1f :: u8) = mask 5" by (simp add: mask_eq_exp_minus_1)
  show ?thesis unfolding mask
    by (rule bit_word_eqI) (auto simp: bit_simps)
qed

lemma major_bound: "drop_bit 5 (b :: u8) < 8"
proof -
  have "unat (drop_bit 5 b) = unat b div 32" by (subst unat_drop_bit_eq) (simp add: drop_bit_eq_div)
  moreover have "unat b div 32 < 8" using unat_u8_less [of b] by linarith
  ultimately show ?thesis by (simp add: word_less_nat_alt)
qed

lemma additional_bound: "(b :: u8) AND 0x1f < 32"
proof -
  have "b AND 0x1f \<le> 0x1f" by (rule word_and_le1)
  then show ?thesis by (simp add: word_le_nat_alt word_less_nat_alt)
qed

section \<open>Arguments\<close>

text \<open>\<open>head_width v\<close> is the number of argument bytes after the initial byte.\<close>

definition head_width :: "u64 \<Rightarrow> nat" where
  "head_width v = (if v < 24 then 0 else if v < 2 ^ 8 then 1 else if v < 2 ^ 16 then 2
                   else if v < 2 ^ 32 then 4 else 8)"

definition head_additional :: "u64 \<Rightarrow> u8" where
  "head_additional v = (if v < 24 then ucast v else if v < 2 ^ 8 then 24 else if v < 2 ^ 16 then 25
                        else if v < 2 ^ 32 then 26 else 27)"

lemma unat_u64_less [simp]: "unat (v :: u64) < 2 ^ 64"
  using unsigned_less [of v] by simp

lemma unat_u64_less_numeral [simp]: "unat (v :: u64) < 18446744073709551616"
  using unat_u64_less [of v] by simp

lemma head_alt:
  "head m v = (push_bit 5 m OR head_additional v) # be_bytes (head_width v) (unat v)"
proof -
  have "be_bytes 1 (unat v) = [ucast v]" if "v < 2 ^ 8"
    using that by (simp add: be_bytes_def word_less_nat_alt)
  then show ?thesis
    by (auto simp: head_def head_additional_def head_width_def Let_def be_bytes_def)
qed

lemma length_head: "length (head m v) = 1 + head_width v"
  by (simp add: head_alt)

lemma head_nonempty [simp]: "head m v \<noteq> []"
  by (simp add: head_alt)

lemma head_additional_bound: "head_additional v < 32"
  by (auto simp: head_additional_def word_less_nat_alt unsigned_ucast_eq take_bit_eq_mod)

lemma ensure_Ok [result_elims]:
  "length bs < 2 ^ 63 \<Longrightarrow> c \<le> length bs \<Longrightarrow> n \<le> 8 \<Longrightarrow>
   ensure bs c n = Ok u \<longleftrightarrow> c + n \<le> length bs"
  by (auto simp: ensure_def)

lemma decode_wide_be_bytes:
  assumes "drop c bs = be_bytes n (unat v) @ rest" and "length bs < 2 ^ 63" and "c \<le> length bs"
    and "n \<le> 8" and "lo \<le> unat v" and "unat v < 256 ^ n"
  shows "decode_wide bs s c n lo = Ok (v, c + n)"
proof -
  have "c + n \<le> length bs" using drop_length_bound [OF assms(1,3)] by simp
  then have "ensure bs c n = Ok ()" using assms by (simp add: ensure_def)
  moreover have "slice bs c n = be_bytes n (unat v)" using assms(1) by (rule slice_at) simp
  ultimately show ?thesis using assms
    by (simp add: decode_wide_def be_val_be_bytes Let_def not_less)
qed

lemma decode_wide_Ok:
  assumes "decode_wide bs s c n lo = Ok (v, c')" and "length bs < 2 ^ 63" and "c \<le> length bs"
    and "n \<le> 8"
  shows "c' = c + n" "c' \<le> length bs" "lo \<le> unat v" "unat v < 256 ^ n"
    "slice bs c n = be_bytes n (unat v)"
proof -
  let ?x = "be_val (slice bs c n)"
  from assms(1) have e: "ensure bs c n = Ok ()" and lo: "lo \<le> ?x"
    and v: "v = of_nat ?x" and c': "c' = c + n"
    by (auto simp: decode_wide_def Let_def result_elims split: if_splits)
  from e assms have len: "c + n \<le> length bs" by (simp add: ensure_Ok)
  then have "length (slice bs c n) = n" by simp
  then have lt: "?x < 256 ^ n" using be_val_bound [of "slice bs c n"] by simp
  moreover have "(256 :: nat) ^ n \<le> 256 ^ 8" using assms(4) by (rule power_increasing) simp
  ultimately have "unat v = ?x" unfolding v by (simp add: unat_of_nat)
  then show "c' = c + n" "c' \<le> length bs" "lo \<le> unat v" "unat v < 256 ^ n"
    "slice bs c n = be_bytes n (unat v)"
    using c' len lo lt \<open>length (slice bs c n) = n\<close> by (simp_all add: be_bytes_be_val)
qed

lemma decode_argument_head [codec]:
  assumes d: "drop c bs = head m v @ rest" and len: "length bs < 2 ^ 63"
  shows "decode_argument bs c (head_additional v) = Ok (v, c + length (head m v))"
proof -
  have "drop c bs = (push_bit 5 m OR head_additional v) # be_bytes (head_width v) (unat v) @ rest"
    using d by (simp add: head_alt)
  then have d1: "drop (c + 1) bs = be_bytes (head_width v) (unat v) @ rest" and c: "c + 1 \<le> length bs"
    using drop_after [of c bs "[push_bit 5 m OR head_additional v]"] nth_at(1) by force+
  consider "unat v < 24" | "24 \<le> unat v" "unat v < 2 ^ 8" | "2 ^ 8 \<le> unat v" "unat v < 2 ^ 16"
    | "2 ^ 16 \<le> unat v" "unat v < 2 ^ 32" | "2 ^ 32 \<le> unat v"
    by linarith
  then show ?thesis
  proof cases
    case 1
    then have "ucast (ucast v :: u8) = v" and "(ucast v :: u8) < 24"
      by (simp_all add: word_unat_eq_iff word_less_nat_alt unsigned_ucast_eq take_bit_eq_mod unat_mod)
    with 1 show ?thesis
      by (simp add: decode_argument_def head_additional_def length_head head_width_def word_less_nat_alt)
  next
    case 2
    then show ?thesis
      using decode_wide_be_bytes [OF d1 len c, of 24] by (simp add: decode_argument_def head_additional_def
          length_head head_width_def word_less_nat_alt)
  next
    case 3
    then show ?thesis
      using decode_wide_be_bytes [OF d1 len c, of "2 ^ 8"] by (simp add: decode_argument_def
          head_additional_def length_head head_width_def word_less_nat_alt)
  next
    case 4
    then show ?thesis
      using decode_wide_be_bytes [OF d1 len c, of "2 ^ 16"] by (simp add: decode_argument_def
          head_additional_def length_head head_width_def word_less_nat_alt)
  next
    case 5
    then show ?thesis
      using decode_wide_be_bytes [OF d1 len c, of "2 ^ 32"] unat_u64_less [of v]
      by (simp add: decode_argument_def head_additional_def length_head head_width_def
          word_less_nat_alt)
  qed
qed

lemma decode_argument_Ok:
  assumes ok: "decode_argument bs c a = Ok (v, c')" and len: "length bs < 2 ^ 63"
    and c: "c < length bs"
  shows "a = head_additional v" "c' = c + 1 + head_width v" "c' \<le> length bs"
    "slice bs (c + 1) (head_width v) = be_bytes (head_width v) (unat v)"
proof -
  have c1: "c + 1 \<le> length bs" using c by simp
  note wide = decode_wide_Ok [OF _ len c1]
  consider "a < 24" "v = ucast a" "c' = c + 1"
    | "a = 24" "decode_wide bs c (c + 1) 1 24 = Ok (v, c')"
    | "a = 25" "decode_wide bs c (c + 1) 2 (2 ^ 8) = Ok (v, c')"
    | "a = 26" "decode_wide bs c (c + 1) 4 (2 ^ 16) = Ok (v, c')"
    | "a = 27" "decode_wide bs c (c + 1) 8 (2 ^ 32) = Ok (v, c')"
    using ok by (auto simp: decode_argument_def Let_def split: if_splits)
  then have "a = head_additional v \<and> c' = c + 1 + head_width v \<and> c' \<le> length bs \<and>
    slice bs (c + 1) (head_width v) = be_bytes (head_width v) (unat v)"
  proof cases
    case 1
    have "unat a < 2 ^ 64" by (rule less_trans [OF unat_u8_less]) simp
    then have "unat v = unat a" using 1 by (simp add: unsigned_ucast_eq take_bit_eq_mod)
    moreover have "ucast v = a" unfolding word_unat_eq_iff unsigned_ucast_eq
      using \<open>unat v = unat a\<close> by (simp add: take_bit_eq_mod)
    ultimately show ?thesis using 1 c
      by (simp add: head_additional_def head_width_def word_less_nat_alt slice_def be_bytes_def)
  next
    case 2
    with wide [OF 2(2)] show ?thesis
      by (simp add: head_additional_def head_width_def word_less_nat_alt)
  next
    case 3
    with wide [OF 3(2)] show ?thesis
      by (simp add: head_additional_def head_width_def word_less_nat_alt)
  next
    case 4
    with wide [OF 4(2)] show ?thesis
      by (simp add: head_additional_def head_width_def word_less_nat_alt)
  next
    case 5
    with wide [OF 5(2)] show ?thesis
      by (simp add: head_additional_def head_width_def word_less_nat_alt)
  qed
  then show "a = head_additional v" "c' = c + 1 + head_width v" "c' \<le> length bs"
    "slice bs (c + 1) (head_width v) = be_bytes (head_width v) (unat v)" by blast+
qed

lemma decode_argument_inverse:
  assumes ok: "decode_argument bs c (bs ! c AND 0x1f) = Ok (v, c')" and len: "length bs < 2 ^ 63"
    and c: "c < length bs"
  shows "drop c bs = head (drop_bit 5 (bs ! c)) v @ drop c' bs"
    and "c' = c + length (head (drop_bit 5 (bs ! c)) v)" and "c' \<le> length bs"
proof -
  note a = decode_argument_Ok [OF ok len c]
  have "drop c bs = bs ! c # drop (c + 1) bs" using c by (simp add: Cons_nth_drop_Suc)
  also have "drop (c + 1) bs = be_bytes (head_width v) (unat v) @ drop c' bs"
    using slice_drop_append [of "c + 1" "head_width v" bs] a by simp
  also have "bs ! c # be_bytes (head_width v) (unat v) @ drop c' bs
      = head (drop_bit 5 (bs ! c)) v @ drop c' bs"
    using initial_byte_split [of "bs ! c"] a(1) by (simp add: head_alt)
  finally show "drop c bs = head (drop_bit 5 (bs ! c)) v @ drop c' bs" .
  show "c' = c + length (head (drop_bit 5 (bs ! c)) v)" using a by (simp add: length_head)
  show "c' \<le> length bs" by (rule a)
qed

section \<open>Values\<close>

fun enc :: "cbor_value \<Rightarrow> bytes" where
  "enc (VUint n) = uint_cbor n"
| "enc (VNint n) = head 1 (word_of_int (- (n + 1)))"
| "enc (VBytes b) = bstr b"
| "enc (VText s) = tstr s"
| "enc (VArray xs) = array (map enc xs)"
| "enc (VMap ps) = emit_map (map (\<lambda>(k, v). (enc k, enc v)) ps)"
| "enc (VBool b) = bool_cbor b"

fun wfv :: "nat \<Rightarrow> cbor_value \<Rightarrow> bool" where
  "wfv d (VUint n) \<longleftrightarrow> d < MAX_CBOR_DEPTH"
| "wfv d (VNint n) \<longleftrightarrow> d < MAX_CBOR_DEPTH \<and> - (2 ^ 63) \<le> n \<and> n < 0"
| "wfv d (VBytes b) \<longleftrightarrow> d < MAX_CBOR_DEPTH \<and> length b < 2 ^ 64"
| "wfv d (VText s) \<longleftrightarrow> d < MAX_CBOR_DEPTH \<and> length s < 2 ^ 64 \<and> valid_utf8 s"
| "wfv d (VArray xs) \<longleftrightarrow> d < MAX_CBOR_DEPTH \<and> length xs < 2 ^ 64 \<and> (\<forall>x \<in> set xs. wfv (d + 1) x)"
| "wfv d (VMap ps) \<longleftrightarrow>
     d < MAX_CBOR_DEPTH \<and> length ps < 2 ^ 64 \<and>
     (\<forall>p \<in> set ps. wfv (d + 1) (fst p) \<and> wfv (d + 1) (snd p)) \<and>
     sorted_wrt key_order_canonical (map (\<lambda>p. enc (fst p)) ps)"
| "wfv d (VBool b) \<longleftrightarrow> d < MAX_CBOR_DEPTH"

lemma wfv_depth: "wfv d v \<Longrightarrow> d < MAX_CBOR_DEPTH"
  by (cases v) auto

lemma enc_nonempty: "enc v \<noteq> []"
  by (cases v) (simp_all add: uint_cbor_def bstr_def tstr_def array_def emit_map_def bool_cbor_def)

lemma key_order_canonical_iff:
  "key_order_canonical p q \<longleftrightarrow> (length p, p) < (length q, q)"
  by (auto simp: key_order_canonical_def less_prod_def)

lemma key_order_canonical_trans:
  "key_order_canonical p q \<Longrightarrow> key_order_canonical q r \<Longrightarrow> key_order_canonical p r"
  by (auto simp: key_order_canonical_iff)

text \<open>What the initial byte of an encoded item makes the decoder do.\<close>

lemma decode_head:
  assumes "drop c bs = head m v @ rest" and "m < 8"
  shows "c < length bs" "drop_bit 5 (bs ! c) = m" "bs ! c AND 0x1f = head_additional v"
proof -
  have "drop c bs = (push_bit 5 m OR head_additional v) # be_bytes (head_width v) (unat v) @ rest"
    using assms by (simp add: head_alt)
  note b = nth_at [OF this]
  show "c < length bs" by (rule b)
  show "drop_bit 5 (bs ! c) = m" "bs ! c AND 0x1f = head_additional v"
    using initial_byte [OF assms(2) head_additional_bound] b by auto
qed

lemma take_bytes_here:
  assumes "drop c bs = s @ rest" and "length bs < 2 ^ 63" and "c \<le> length bs"
  shows "take_bytes bs c (length s) = Ok s"
proof -
  have "c + length s \<le> length bs" using drop_length_bound [OF assms(1,3)] by simp
  then have "(c + length s) mod 2 ^ 64 = c + length s" using assms(2) by simp
  with \<open>c + length s \<le> length bs\<close> show ?thesis
    using slice_at [OF assms(1) refl] by (simp add: take_bytes_def ensure_def index_range_def)
qed

lemma take_bytes_Ok:
  assumes "take_bytes bs c n = Ok s" and "length bs < 2 ^ 63" and "c \<le> length bs" and "n < 2 ^ 64"
  shows "c + n \<le> length bs" "length s = n" "drop c bs = s @ drop (c + n) bs"
proof -
  from assms(1) have r: "c \<le> (c + n) mod 2 ^ 64" "(c + n) mod 2 ^ 64 \<le> length bs"
    and s: "s = slice bs c ((c + n) mod 2 ^ 64 - c)"
    by (auto simp: take_bytes_def index_range_def result_elims split: if_splits)
  have "c + n < 2 ^ 64"
  proof (rule ccontr)
    assume "\<not> c + n < 2 ^ 64"
    moreover from this have "(c + n) mod 2 ^ 64 = c + n - 2 ^ 64"
      using assms by (subst mod_if) (simp add: le_mod_geq)
    ultimately show False using r assms(2-4) by linarith
  qed
  then have "(c + n) mod 2 ^ 64 = c + n" by simp
  with r s show "c + n \<le> length bs" "length s = n" "drop c bs = s @ drop (c + n) bs"
    by (simp_all add: slice_drop_append)
qed

section \<open>Encode, then decode\<close>

lemma decode_items_enc:
  assumes "\<And>x c rest. x \<in> set xs \<Longrightarrow> drop c bs = enc x @ rest \<Longrightarrow> c \<le> length bs \<Longrightarrow>
      decode_value_inner bs c d = Ok (x, c + length (enc x))"
    and "drop c bs = concat (map enc xs) @ rest" and "c \<le> length bs"
  shows "decode_items bs c d (length xs) = Ok (xs, c + length (concat (map enc xs)))"
  using assms
proof (induction xs arbitrary: c)
  case Nil
  then show ?case by (simp add: decode_items.simps)
next
  case (Cons x xs)
  have d: "drop c bs = enc x @ concat (map enc xs) @ rest" using Cons.prems(2) by simp
  have "decode_value_inner bs c d = Ok (x, c + length (enc x))"
    using Cons.prems(1) [OF _ d] Cons.prems(3) by simp
  moreover have "decode_items bs (c + length (enc x)) d (length xs)
      = Ok (xs, c + length (enc x) + length (concat (map enc xs)))"
    using Cons.prems(1) drop_after [OF d] drop_length_bound [OF d Cons.prems(3)]
    by (intro Cons.IH) auto
  ultimately show ?case by (simp add: decode_items.simps [of bs c d "Suc (length xs)"])
qed

lemma decode_pairs_enc:
  assumes "\<And>p x c rest. p \<in> set ps \<Longrightarrow> x \<in> {fst p, snd p} \<Longrightarrow> drop c bs = enc x @ rest \<Longrightarrow>
      c \<le> length bs \<Longrightarrow> decode_value_inner bs c d = Ok (x, c + length (enc x))"
    and "drop c bs = concat (map (\<lambda>p. enc (fst p) @ enc (snd p)) ps) @ rest" and "c \<le> length bs"
    and "sorted_wrt key_order_canonical (map (\<lambda>p. enc (fst p)) ps)"
    and "case prev of None \<Rightarrow> True | Some q \<Rightarrow> \<forall>p \<in> set ps. key_order_canonical q (enc (fst p))"
  shows "decode_pairs bs c d (length ps) prev
      = Ok (ps, c + length (concat (map (\<lambda>p. enc (fst p) @ enc (snd p)) ps)))"
  using assms
proof (induction ps arbitrary: c prev)
  case Nil
  then show ?case by (simp add: decode_pairs.simps)
next
  case (Cons p ps)
  let ?tail = "concat (map (\<lambda>p. enc (fst p) @ enc (snd p)) ps)"
  let ?c1 = "c + length (enc (fst p))" and ?c2 = "c + length (enc (fst p)) + length (enc (snd p))"
  have d: "drop c bs = enc (fst p) @ enc (snd p) @ ?tail @ rest" using Cons.prems(2) by simp
  note d1 = drop_after [OF d] and d2 = drop_after [OF drop_after [OF d]]
  have le: "?c1 \<le> length bs" "?c2 \<le> length bs"
    using drop_length_bound [OF d Cons.prems(3)] by auto
  have k: "decode_value_inner bs c d = Ok (fst p, ?c1)"
    by (rule Cons.prems(1) [of p, OF _ _ d Cons.prems(3)]) simp_all
  have v: "decode_value_inner bs ?c1 d = Ok (snd p, ?c2)"
    by (rule Cons.prems(1) [of p, OF _ _ d1 le(1)]) simp_all
  have r: "decode_pairs bs ?c2 d (length ps) (Some (enc (fst p))) = Ok (ps, ?c2 + length ?tail)"
  proof (rule Cons.IH)
    fix q x c rest
    assume "q \<in> set ps" "x \<in> {fst q, snd q}" "drop c bs = enc x @ rest" "c \<le> length bs"
    then show "decode_value_inner bs c d = Ok (x, c + length (enc x))"
      by (intro Cons.prems(1) [of q]) auto
  qed (use Cons.prems(4) d2 le in auto)
  have key: "slice bs c (length (enc (fst p))) = enc (fst p)" using d by (rule slice_at) simp
  have "\<not> (case prev of None \<Rightarrow> False | Some q \<Rightarrow> \<not> key_order_canonical q (enc (fst p)))"
    using Cons.prems(5) by (cases prev) auto
  then show ?case
    using k v r key
    by (cases prev) (simp_all add: decode_pairs.simps [of bs c d "Suc (length ps)"] Let_def)
qed

text \<open>\<open>arg\<close> rewrites a decoder step once the initial byte is known to come from \<open>head\<close>.\<close>

lemma decode_value_inner_enc:
  assumes "length bs < 2 ^ 63"
  shows "wfv d v \<Longrightarrow> drop c bs = enc v @ rest \<Longrightarrow> c \<le> length bs \<Longrightarrow>
    decode_value_inner bs c d = Ok (v, c + length (enc v))"
proof (induction d v arbitrary: c rest rule: wfv.induct)
  case (1 d n)
  then have h: "drop c bs = head 0 n @ rest" by (simp add: uint_cbor_def)
  note s = decode_head [OF h] decode_argument_head [OF h assms]
  show ?case using s 1 by (simp add: decode_value_inner.simps [of bs c d] uint_cbor_def Let_def not_le)
next
  case (2 d n)
  let ?a = "word_of_int (- (n + 1)) :: u64"
  have h: "drop c bs = head 1 ?a @ rest" using 2 by simp
  note s = decode_head [OF h] decode_argument_head [OF h assms]
  have "uint ?a = (- (n + 1)) mod 2 ^ 64" by (simp only: uint_word_of_int) simp
  also have "\<dots> = - (n + 1)" using 2 by (intro mod_pos_pos_trivial) auto
  finally have "uint ?a = - (n + 1)" .
  then show ?case using s 2
    by (simp add: decode_value_inner.simps [of bs c d] Let_def not_le)
next
  case (3 d b)
  have h: "drop c bs = head 2 (of_nat (length b)) @ b @ rest" using 3 by (simp add: bstr_def)
  note s = decode_head [OF h] decode_argument_head [OF h assms]
  have "take_bytes bs (c + length (head 2 (of_nat (length b)))) (length b) = Ok b"
    using drop_length_bound [OF h 3(3)] by (intro take_bytes_here [OF drop_after [OF h] assms]) simp
  moreover have "unat (of_nat (length b) :: u64) = length b" using 3 by (simp add: unat_of_nat)
  ultimately show ?case using s 3
    by (simp add: decode_value_inner.simps [of bs c d] Let_def not_le bstr_def)
next
  case (4 d b)
  have h: "drop c bs = head 3 (of_nat (length b)) @ b @ rest" using 4 by (simp add: tstr_def)
  note s = decode_head [OF h] decode_argument_head [OF h assms]
  have "take_bytes bs (c + length (head 3 (of_nat (length b)))) (length b) = Ok b"
    using drop_length_bound [OF h 4(3)] by (intro take_bytes_here [OF drop_after [OF h] assms]) simp
  moreover have "unat (of_nat (length b) :: u64) = length b" using 4 by (simp add: unat_of_nat)
  ultimately show ?case using s 4
    by (simp add: decode_value_inner.simps [of bs c d] Let_def not_le tstr_def)
next
  case (5 d xs)
  have h: "drop c bs = head 4 (of_nat (length xs)) @ concat (map enc xs) @ rest"
    using 5 by (simp add: array_def)
  note s = decode_head [OF h] decode_argument_head [OF h assms]
  have "decode_items bs (c + length (head 4 (of_nat (length xs)))) (d + 1) (length xs)
      = Ok (xs, c + length (head 4 (of_nat (length xs))) + length (concat (map enc xs)))"
    using 5 drop_length_bound [OF h] by (intro decode_items_enc [OF _ drop_after [OF h]]) auto
  moreover have "unat (of_nat (length xs) :: u64) = length xs" using 5 by (simp add: unat_of_nat)
  ultimately show ?case using s 5(2)
    by (simp add: decode_value_inner.simps [of bs c d] Let_def not_le array_def)
next
  case (6 d ps)
  let ?body = "concat (map (\<lambda>p. enc (fst p) @ enc (snd p)) ps)"
  have e: "enc (VMap ps) = head 5 (of_nat (length ps)) @ ?body"
    by (simp add: emit_map_def comp_def case_prod_unfold)
  have h: "drop c bs = head 5 (of_nat (length ps)) @ ?body @ rest" using 6 e by simp
  note s = decode_head [OF h] decode_argument_head [OF h assms]
  have "decode_pairs bs (c + length (head 5 (of_nat (length ps)))) (d + 1) (length ps) None
      = Ok (ps, c + length (head 5 (of_nat (length ps))) + length ?body)"
    using 6 drop_length_bound [OF h] by (intro decode_pairs_enc [OF _ drop_after [OF h]]) auto
  moreover have "unat (of_nat (length ps) :: u64) = length ps" using 6 by (simp add: unat_of_nat)
  ultimately show ?case using s 6(3) e
    by (simp add: decode_value_inner.simps [of bs c d] Let_def not_le del: enc.simps)
next
  case (7 d b)
  have "drop c bs = (if b then 0xf5 else 0xf4) # rest" using 7 by (simp add: bool_cbor_def)
  note s = nth_at [OF this]
  show ?case using s 7 by (cases b)
    (simp_all add: decode_value_inner.simps [of bs c d] Let_def not_le bool_cbor_def)
qed

section \<open>Decode, then encode\<close>

text \<open>\<open>reads bs c c' s\<close>: the cursor moved from \<open>c\<close> to \<open>c'\<close> over exactly the bytes \<open>s\<close>.\<close>

definition reads :: "bytes \<Rightarrow> nat \<Rightarrow> nat \<Rightarrow> bytes \<Rightarrow> bool" where
  "reads bs c c' s \<longleftrightarrow> c' = c + length s \<and> c' \<le> length bs \<and> drop c bs = s @ drop c' bs"

lemma reads_empty: "c \<le> length bs \<Longrightarrow> reads bs c c []"
  by (simp add: reads_def)

lemma reads_append: "reads bs a b s \<Longrightarrow> reads bs b c t \<Longrightarrow> reads bs a c (s @ t)"
  by (simp add: reads_def)

lemma reads_slice: "reads bs a b s \<Longrightarrow> slice bs a (b - a) = s"
  by (auto simp: reads_def intro: slice_at)

lemma reads_argument:
  assumes "decode_argument bs c (bs ! c AND 0x1f) = Ok (v, c')" and "length bs < 2 ^ 63" "c < length bs"
    and "drop_bit 5 (bs ! c) = m"
  shows "reads bs c c' (head m v)"
  using decode_argument_inverse [OF assms(1-3)] assms(4) by (simp add: reads_def)

lemma reads_take_bytes:
  assumes "take_bytes bs c (unat n) = Ok s" and "length bs < 2 ^ 63" and "c \<le> length bs"
  shows "reads bs c (c + unat n) s" "length s = unat (n :: u64)" "of_nat (length s) = n"
  using take_bytes_Ok [OF assms unat_u64_less] by (simp_all add: reads_def)

lemma decode_inverse:
  "length bs < 2 ^ 63 \<Longrightarrow> decode_value_inner bs c d = Ok (v, c') \<Longrightarrow> wfv d v \<and> reads bs c c' (enc v)"
  "length bs < 2 ^ 63 \<Longrightarrow> decode_items bs c d n = Ok (xs, c') \<Longrightarrow> c \<le> length bs \<Longrightarrow>
    length xs = n \<and> (\<forall>x \<in> set xs. wfv d x) \<and> reads bs c c' (concat (map enc xs))"
  "length bs < 2 ^ 63 \<Longrightarrow> decode_pairs bs c d n prev = Ok (ps, c') \<Longrightarrow> c \<le> length bs \<Longrightarrow>
    length ps = n \<and> (\<forall>p \<in> set ps. wfv d (fst p) \<and> wfv d (snd p)) \<and>
    sorted_wrt key_order_canonical (map (\<lambda>p. enc (fst p)) ps) \<and>
    (\<forall>q. prev = Some q \<longrightarrow> (\<forall>p \<in> set ps. key_order_canonical q (enc (fst p)))) \<and>
    reads bs c c' (concat (map (\<lambda>p. enc (fst p) @ enc (snd p)) ps))"
proof (induction bs c d and bs c d n and bs c d n prev
    arbitrary: v c' and xs c' and ps c'
    rule: decode_value_inner_decode_items_decode_pairs.induct)
  case (1 bs c d)
  let ?m = "drop_bit 5 (bs ! c)" and ?a = "bs ! c AND 0x1f"
  note step = decode_value_inner.simps [of bs c d]
  from "1.prems"(2) have d: "\<not> MAX_CBOR_DEPTH \<le> d" and c: "\<not> length bs \<le> c"
    by (auto simp: step split: if_splits)
  then have cl: "c < length bs" and dl: "d < MAX_CBOR_DEPTH" by auto
  consider "?m = 0" | "?m = 1" | "?m = 2" | "?m = 3" | "?m = 4" | "?m = 5" | "?m = 7"
    using "1.prems"(2) d c by (auto simp: step Let_def split: if_splits)
  then show ?case
  proof cases
    case 1
    then obtain w where w: "decode_argument bs c ?a = Ok (w, c')" "v = VUint w"
      using "1.prems"(2) d c by (auto simp: step Let_def result_elims)
    show ?thesis using reads_argument [OF w(1) "1.prems"(1) cl 1] w dl by (simp add: uint_cbor_def)
  next
    case 2
    then obtain w where w: "decode_argument bs c ?a = Ok (w, c')" "v = VNint (- uint w - 1)"
      and le: "\<not> - uint w - 1 < - (2 ^ 63)"
      using "1.prems"(2) d c by (auto simp: step Let_def result_elims split: if_splits)
    have "(word_of_int (- ((- uint w - 1) + 1)) :: u64) = w" by simp
    moreover have "- 1 < uint w" by (rule less_le_trans [of _ 0]) simp_all
    ultimately show ?thesis using reads_argument [OF w(1) "1.prems"(1) cl 2] w dl le
      by (simp add: not_less del: of_int_minus of_int_add of_int_diff)
  next
    case 3
    then obtain w e b where w: "decode_argument bs c ?a = Ok (w, e)"
      and t: "take_bytes bs e (unat w) = Ok b" and v: "v = VBytes b" "c' = e + unat w"
      using "1.prems"(2) d c by (auto simp: step Let_def result_elims)
    note h = reads_argument [OF w "1.prems"(1) cl 3]
    have "e \<le> length bs" using h by (simp add: reads_def)
    note b = reads_take_bytes [OF t "1.prems"(1) this]
    show ?thesis using reads_append [OF h b(1)] b v dl by (simp add: bstr_def)
  next
    case 4
    then obtain w e b where w: "decode_argument bs c ?a = Ok (w, e)"
      and t: "take_bytes bs e (unat w) = Ok b" and v: "v = VText b" "c' = e + unat w" "valid_utf8 b"
      using "1.prems"(2) d c by (auto simp: step Let_def result_elims split: if_splits)
    note h = reads_argument [OF w "1.prems"(1) cl 4]
    have "e \<le> length bs" using h by (simp add: reads_def)
    note b = reads_take_bytes [OF t "1.prems"(1) this]
    show ?thesis using reads_append [OF h b(1)] b v dl by (simp add: tstr_def)
  next
    case 5
    then obtain w e xs where w: "decode_argument bs c ?a = Ok (w, e)"
      and t: "decode_items bs e (d + 1) (unat w) = Ok (xs, c')" and v: "v = VArray xs"
      using "1.prems"(2) d c by (auto simp: step Let_def result_elims)
    note h = reads_argument [OF w "1.prems"(1) cl 5]
    have e: "e \<le> length bs" using h by (simp add: reads_def)
    have p: "length xs = unat w \<and> (\<forall>x \<in> set xs. wfv (d + 1) x) \<and> reads bs e c' (concat (map enc xs))"
      using "1.IH"(1) [OF d c refl refl refl refl] 5 w t e "1.prems"(1) by auto
    then have "(of_nat (length xs) :: u64) = w" by simp
    then show ?thesis using p reads_append [OF h] v dl by (simp add: array_def)
  next
    case 6
    then obtain w e ps where w: "decode_argument bs c ?a = Ok (w, e)"
      and t: "decode_pairs bs e (d + 1) (unat w) None = Ok (ps, c')" and v: "v = VMap ps"
      using "1.prems"(2) d c by (auto simp: step Let_def result_elims)
    note h = reads_argument [OF w "1.prems"(1) cl 6]
    have e: "e \<le> length bs" using h by (simp add: reads_def)
    have p: "length ps = unat w \<and> (\<forall>p \<in> set ps. wfv (d + 1) (fst p) \<and> wfv (d + 1) (snd p)) \<and>
        sorted_wrt key_order_canonical (map (\<lambda>p. enc (fst p)) ps) \<and>
        reads bs e c' (concat (map (\<lambda>p. enc (fst p) @ enc (snd p)) ps))"
      using "1.IH"(2) [OF d c refl refl refl refl] 6 w t e "1.prems"(1) by (auto simp: comp_def)
    then have "(of_nat (length ps) :: u64) = w" by simp
    then show ?thesis using p reads_append [OF h] v dl
      by (simp add: emit_map_def comp_def case_prod_unfold)
  next
    case 7
    then have a: "?a = 20 \<and> v = VBool False \<or> ?a = 21 \<and> v = VBool True" and c': "c' = c + 1"
      using "1.prems"(2) d c by (auto simp: step Let_def split: if_splits)
    then have "bs ! c = (case v of VBool b \<Rightarrow> if b then 0xf5 else 0xf4 | _ \<Rightarrow> 0)"
      using initial_byte_split [of "bs ! c"] 7 by auto
    moreover have "drop c bs = bs ! c # drop (Suc c) bs" using cl by (simp add: Cons_nth_drop_Suc)
    ultimately show ?thesis using a c' cl dl by (auto simp: reads_def bool_cbor_def)
  qed
next
  case (2 bs c d n)
  note step = decode_items.simps [of bs c d n]
  show ?case
  proof (cases "n = 0")
    case True
    then show ?thesis using "2.prems" reads_empty by (auto simp: decode_items.simps)
  next
    case False
    then obtain y e ys where y: "decode_value_inner bs c d = Ok (y, e)"
      and ys: "decode_items bs e d (n - 1) = Ok (ys, c')" and xs: "xs = y # ys"
      using "2.prems" by (auto simp: step result_elims)
    have w: "wfv d y" and r: "reads bs c e (enc y)"
      using "2.IH"(1) [OF False "2.prems"(1) y] by auto
    have "e \<le> length bs" using r by (simp add: reads_def)
    then have "length ys = n - 1 \<and> (\<forall>x \<in> set ys. wfv d x) \<and> reads bs e c' (concat (map enc ys))"
      using "2.IH"(2) [OF False y refl "2.prems"(1) ys] by simp
    then show ?thesis using xs w reads_append [OF r] False by auto
  qed
next
  case (3 bs c d n prev)
  note step = decode_pairs.simps [of bs c d n prev]
  show ?case
  proof (cases "n = 0")
    case True
    then show ?thesis using "3.prems" reads_empty by (auto simp: decode_pairs.simps)
  next
    case False
    let ?chk = "\<lambda>k. case prev of None \<Rightarrow> False | Some q \<Rightarrow> \<not> key_order_canonical q k"
    obtain k e where k: "decode_value_inner bs c d = Ok (k, e)"
      using "3.prems" False by (auto simp: step Let_def result_elims)
    have wk: "wfv d k" and rk: "reads bs c e (enc k)"
      using "3.IH"(1) [OF False refl "3.prems"(1) k] by auto
    have key: "slice bs c (e - c) = enc k" using rk by (rule reads_slice)
    obtain v g qs where chk': "\<not> ?chk (slice bs c (e - c))" and v: "decode_value_inner bs e d = Ok (v, g)"
      and qs: "decode_pairs bs g d (n - 1) (Some (enc k)) = Ok (qs, c')" and ps: "ps = (k, v) # qs"
      using "3.prems" False k key by (auto simp: step Let_def result_elims split: if_splits)
    have chk: "\<not> ?chk (enc k)" using chk' unfolding key .
    have wv: "wfv d v" and rv: "reads bs e g (enc v)"
      using "3.IH"(2) [OF False refl k refl refl chk' "3.prems"(1) v] by auto
    have "g \<le> length bs" using rv by (simp add: reads_def)
    then have rest: "length qs = n - 1 \<and> (\<forall>p \<in> set qs. wfv d (fst p) \<and> wfv d (snd p)) \<and>
      sorted_wrt key_order_canonical (map (\<lambda>p. enc (fst p)) qs) \<and>
      (\<forall>p \<in> set qs. key_order_canonical (enc k) (enc (fst p))) \<and>
      reads bs g c' (concat (map (\<lambda>p. enc (fst p) @ enc (snd p)) qs))"
      using "3.IH"(3) [OF False refl k refl refl chk' v refl "3.prems"(1)] key qs by (auto simp: comp_def)
    have "\<forall>q. prev = Some q \<longrightarrow> (\<forall>p \<in> set ps. key_order_canonical q (enc (fst p)))"
      using chk rest ps by (auto intro: key_order_canonical_trans split: option.splits)
    then show ?thesis using ps wk wv rest reads_append [OF reads_append [OF rk rv]] False by auto
  qed
qed

section \<open>Whole documents\<close>

lemma decode_enc:
  assumes "wfv 0 v" and "length (enc v) < 2 ^ 63"
  shows "decode (enc v) = Ok v"
proof -
  have "drop 0 (enc v) = enc v @ []" by simp
  then have "decode_value (enc v) 0 = Ok (v, 0 + length (enc v))"
    unfolding decode_value_def by (rule decode_value_inner_enc [OF assms(2,1)]) simp
  then show ?thesis by (simp add: decode_def)
qed

lemma decode_Ok_iff:
  assumes "length bs < 2 ^ 63"
  shows "decode bs = Ok v \<longleftrightarrow> wfv 0 v \<and> bs = enc v"
proof
  assume "decode bs = Ok v"
  then have "decode_value_inner bs 0 0 = Ok (v, length bs)"
    by (auto simp: decode_def decode_value_def result_elims split: if_splits)
  from decode_inverse(1) [OF assms this] show "wfv 0 v \<and> bs = enc v"
    by (simp add: reads_def)
qed (use decode_enc assms in auto)

end
