(* ===== verification/Ordered_Map.thy ===== *)
theory Ordered_Map
  imports Prelude
begin

text \<open>
  \<^verbatim>\<open>BTreeMap\<close>: an ordered map is the list of its entries in strictly increasing key order,
  which is also the order in which the program iterates over it. The locale
  \<open>ordered_map\<close> is the interface the other theories rely on (insert, lookup, iteration);
  it is interpreted on the entry lists.
\<close>

locale ordered_map =
  fixes empty :: 'm
    and insert_at :: "'k :: linorder \<Rightarrow> 'v \<Rightarrow> 'm \<Rightarrow> 'm"
    and look :: "'m \<Rightarrow> 'k \<Rightarrow> 'v option"
    and entries :: "'m \<Rightarrow> ('k \<times> 'v) list"
    and wf :: "'m \<Rightarrow> bool"
  assumes wf_empty: "wf empty"
    and look_empty: "look empty k = None"
    and wf_insert: "wf m \<Longrightarrow> wf (insert_at k v m)"
    and look_insert: "wf m \<Longrightarrow> look (insert_at k v m) = (look m)(k \<mapsto> v)"
    and entries_sorted: "wf m \<Longrightarrow> sorted_wrt (<) (map fst (entries m))"
    and look_entries: "wf m \<Longrightarrow> look m = map_of (entries m)"
begin

lemma distinct_entries: "wf m \<Longrightarrow> distinct (map fst (entries m))"
  using entries_sorted strict_sorted_iff by blast

text \<open>A map is determined by what it holds.\<close>

lemma entries_ext:
  assumes "wf m" "wf n" "look m = look n"
  shows "entries m = entries n"
proof -
  note d = distinct_entries [OF assms(1)] distinct_entries [OF assms(2)]
  have eq: "set (entries m) = set (entries n)"
    using assms look_entries map_of_inject_set [OF d] by metis
  show ?thesis
  proof (rule map_sorted_distinct_set_unique)
    show "inj_on fst (set (entries m) \<union> set (entries n))"
      using d eq by (simp add: distinct_map)
  qed (use d eq assms entries_sorted strict_sorted_iff in blast)+
qed

text \<open>Collecting a list of entries with distinct keys, in any order.\<close>

lemma collect:
  "distinct (map fst xs) \<Longrightarrow> wf m \<Longrightarrow>
   wf (fold (\<lambda>(k, v). insert_at k v) xs m) \<and>
   look (fold (\<lambda>(k, v). insert_at k v) xs m) = look m ++ map_of xs"
proof (induction xs arbitrary: m)
  case (Cons x xs)
  obtain k v where x: "x = (k, v)" by (cases x)
  let ?ins = "fold (\<lambda>(k, v). insert_at k v)"
  have IH: "wf (?ins xs (insert_at k v m)) \<and>
      look (?ins xs (insert_at k v m)) = look (insert_at k v m) ++ map_of xs"
    using Cons.prems by (intro Cons.IH) (auto simp: wf_insert)
  have "k \<notin> dom (map_of xs)" using Cons.prems x by (simp add: dom_map_of_conv_image_fst)
  then have "(look m)(k \<mapsto> v) ++ map_of xs = look m ++ (map_of xs)(k \<mapsto> v)"
    by (metis map_add_upd map_add_upd_left)
  with IH show ?case using Cons.prems x by (simp add: look_insert del: fun_upd_apply)
qed simp

lemma collect_entries:
  assumes "distinct (map fst xs)" and "wf m" and "map_of xs = look m"
  shows "entries (fold (\<lambda>(k, v). insert_at k v) xs empty) = entries m"
  using collect [OF assms(1) wf_empty] assms
  by (intro entries_ext) (auto simp: map_add_def look_empty fun_eq_iff split: option.splits)

end

type_synonym ('k, 'v) btree = "('k \<times> 'v) list"

definition bt_wf :: "('k :: linorder, 'v) btree \<Rightarrow> bool" where
  "bt_wf m \<longleftrightarrow> sorted_wrt (<) (map fst m)"

fun bt_insert :: "'k :: linorder \<Rightarrow> 'v \<Rightarrow> ('k, 'v) btree \<Rightarrow> ('k, 'v) btree" where
  "bt_insert k v [] = [(k, v)]"
| "bt_insert k v ((l, w) # m) =
     (if k < l then (k, v) # (l, w) # m
      else if k = l then (k, v) # m
      else (l, w) # bt_insert k v m)"

abbreviation bt_get :: "('k, 'v) btree \<Rightarrow> 'k \<Rightarrow> 'v option" where
  "bt_get \<equiv> map_of"

lemma set_bt_insert: "fst ` set (bt_insert k v m) = insert k (fst ` set m)"
  by (induction k v m rule: bt_insert.induct) auto

lemma bt_wf_Nil [simp]: "bt_wf []"
  by (simp add: bt_wf_def)

lemma bt_wf_Cons [simp]: "bt_wf ((k, v) # m) \<longleftrightarrow> (\<forall>l \<in> fst ` set m. k < l) \<and> bt_wf m"
  by (auto simp: bt_wf_def)

lemma bt_wf_insert: "bt_wf m \<Longrightarrow> bt_wf (bt_insert k v m)"
  by (induction k v m rule: bt_insert.induct) (auto simp: set_bt_insert)

lemma bt_get_insert: "bt_wf m \<Longrightarrow> bt_get (bt_insert k v m) = (bt_get m)(k \<mapsto> v)"
  by (induction k v m rule: bt_insert.induct) (auto simp: fun_eq_iff)

lemma bt_wf_distinct: "bt_wf m \<Longrightarrow> distinct (map fst m)"
  by (simp add: bt_wf_def strict_sorted_iff)

lemma bt_wf_map_snd [simp]: "bt_wf (map (\<lambda>(k, v). (k, f v)) m) = bt_wf m"
  by (simp add: bt_wf_def comp_def case_prod_unfold)

interpretation bt: ordered_map "[]" bt_insert bt_get "\<lambda>m. m" bt_wf
  by unfold_locales (auto simp: bt_wf_insert bt_get_insert, simp add: bt_wf_def)

end
