(* ===== verification/Payload.thy ===== *)
theory Payload
  imports Cbor_Codec Ordered_Map
begin

text \<open>
  Event payloads: the type \<^verbatim>\<open>PayloadValue\<close> of \<^verbatim>\<open>writer.rs\<close> with its encoder, and the
  reader's translation of a decoded CBOR value back into it (\<^verbatim>\<open>cbor_value_to_payload\<close>,
  \<^verbatim>\<open>expect_payload_map\<close> of \<^verbatim>\<open>reader.rs\<close>). A \<^verbatim>\<open>BTreeMap<String, _>\<close> is the sorted entry list of
  theory \<open>Ordered_Map\<close>. The encoder panics on \<^verbatim>\<open>Nint(v)\<close> with \<open>v \<ge> 0\<close>; \<open>None\<close> is that panic.
\<close>

datatype payload_value =
    PUint u64
  | PNint int
  | PText bytes
  | PBytes bytes
  | PBool bool
  | PMap "(bytes \<times> payload_value) list"
  | PList "payload_value list"

fun pv_encode :: "payload_value \<Rightarrow> bytes option" where
  "pv_encode (PUint v) = Some (uint_cbor v)"
| "pv_encode (PNint v) = nint v"
| "pv_encode (PText s) = Some (tstr s)"
| "pv_encode (PBytes b) = Some (bstr b)"
| "pv_encode (PBool b) = Some (bool_cbor b)"
| "pv_encode (PMap m) =
     map_option map_text_keys (those (map (\<lambda>(k, v). map_option (Pair k) (pv_encode v)) m))"
| "pv_encode (PList items) = map_option array (those (map pv_encode items))"

text \<open>The encoding of a whole \<^verbatim>\<open>BTreeMap<String, PayloadValue>\<close>, as \<^verbatim>\<open>encode_record_payload\<close>
  and \<^verbatim>\<open>encode_body\<close> build it.\<close>

definition encode_payload_map :: "(bytes \<times> payload_value) list \<Rightarrow> bytes option" where
  "encode_payload_map m =
     map_option map_text_keys (those (map (\<lambda>(k, v). map_option (Pair k) (pv_encode v)) m))"

text \<open>\<^verbatim>\<open>ReaderError\<close> without its messages; the only I/O failure is a file that is not there.\<close>

datatype reader_error =
    ReaderIo
  | InvalidHeader u16
  | Decode u16 nat
  | TornTail u16 nat
  | NotFound u16 u64

fun cbor_value_to_payload :: "u16 \<Rightarrow> nat \<Rightarrow> cbor_value \<Rightarrow> (payload_value, reader_error) result" where
  "cbor_value_to_payload si off (VUint n) = Ok (PUint n)"
| "cbor_value_to_payload si off (VNint n) = Ok (PNint n)"
| "cbor_value_to_payload si off (VBytes b) = Ok (PBytes b)"
| "cbor_value_to_payload si off (VText s) = Ok (PText s)"
| "cbor_value_to_payload si off (VBool b) = Ok (PBool b)"
| "cbor_value_to_payload si off (VArray items) =
     bind_res (map_res (cbor_value_to_payload si off) items) (\<lambda>out. Ok (PList out))"
| "cbor_value_to_payload si off (VMap pairs) =
     bind_res
       (map_res (\<lambda>(k, val). case k of
            VText key \<Rightarrow> bind_res (cbor_value_to_payload si off val) (\<lambda>v. Ok (key, v))
          | _ \<Rightarrow> Err (Decode si off)) pairs)
       (\<lambda>out. Ok (PMap (fold (\<lambda>(k, v). bt_insert k v) out [])))"

definition expect_payload_map ::
  "cbor_value \<Rightarrow> u16 \<Rightarrow> nat \<Rightarrow> ((bytes \<times> payload_value) list, reader_error) result" where
  "expect_payload_map v si off =
     (case v of
        VMap pairs \<Rightarrow>
          bind_res
            (map_res (\<lambda>(k, val). case k of
                 VText key \<Rightarrow> bind_res (cbor_value_to_payload si off val) (\<lambda>v. Ok (key, v))
               | _ \<Rightarrow> Err (Decode si off)) pairs)
            (\<lambda>out. Ok (fold (\<lambda>(k, v). bt_insert k v) out []))
      | _ \<Rightarrow> Err (Decode si off))"

section \<open>The value a payload decodes to\<close>

definition canon_key :: "bytes \<times> 'a \<Rightarrow> nat \<times> bytes" where
  "canon_key e = (length (tstr (fst e)), tstr (fst e))"

fun to_value :: "payload_value \<Rightarrow> cbor_value" where
  "to_value (PUint v) = VUint v"
| "to_value (PNint v) = VNint v"
| "to_value (PText s) = VText s"
| "to_value (PBytes b) = VBytes b"
| "to_value (PBool b) = VBool b"
| "to_value (PMap m) = VMap (sort_key (\<lambda>(k, v). (length (enc k), enc k)) (map (\<lambda>(k, v). (VText k, to_value v)) m))"
| "to_value (PList items) = VArray (map to_value items)"

definition small :: "'a list \<Rightarrow> bool" where
  "small xs \<longleftrightarrow> length xs < 2 ^ 32"

text \<open>\<open>pv_wf d v\<close>: a payload that the decoder accepts at depth \<open>d\<close>: integers in range, text that
  is UTF-8, ordered maps, nesting within the decoder's limit.\<close>

fun pv_wf :: "nat \<Rightarrow> payload_value \<Rightarrow> bool" where
  "pv_wf d (PUint v) \<longleftrightarrow> d < MAX_CBOR_DEPTH"
| "pv_wf d (PNint v) \<longleftrightarrow> d < MAX_CBOR_DEPTH \<and> - (2 ^ 63) \<le> v \<and> v < 0"
| "pv_wf d (PText s) \<longleftrightarrow> d < MAX_CBOR_DEPTH \<and> small s \<and> valid_utf8 s"
| "pv_wf d (PBytes b) \<longleftrightarrow> d < MAX_CBOR_DEPTH \<and> small b"
| "pv_wf d (PBool b) \<longleftrightarrow> d < MAX_CBOR_DEPTH"
| "pv_wf d (PMap m) \<longleftrightarrow> d < MAX_CBOR_DEPTH \<and> small m \<and> bt_wf m \<and>
     (\<forall>p \<in> set m. d + 1 < MAX_CBOR_DEPTH \<and> small (fst p) \<and> valid_utf8 (fst p) \<and> pv_wf (d + 1) (snd p))"
| "pv_wf d (PList items) \<longleftrightarrow> d < MAX_CBOR_DEPTH \<and> small items \<and> (\<forall>x \<in> set items. pv_wf (d + 1) x)"

lemma head_inject:
  assumes "head m v @ x = head m w @ y" and "length (head m v @ x) < 2 ^ 63" and "m < 8"
  shows "v = w" "x = y"
proof -
  let ?bs = "head m v @ x"
  have dv: "drop 0 ?bs = head m v @ x" and dw: "drop 0 ?bs = head m w @ y"
    using assms(1) by simp_all
  have add: "head_additional v = head_additional w"
    by (rule trans [OF sym [OF decode_head(3) [OF dv assms(3)]] decode_head(3) [OF dw assms(3)]])
  have "decode_argument ?bs 0 (head_additional v) = Ok (w, 0 + length (head m w))"
    unfolding add by (rule decode_argument_head [OF dw assms(2)])
  with decode_argument_head [OF dv assms(2)] have "Ok (v, 0 + length (head m v)) =
      (Ok (w, 0 + length (head m w)) :: (u64 \<times> nat, cbor_error) result)"
    by (rule trans [OF sym])
  then show eq: "v = w" by simp
  show "x = y" using assms(1) unfolding eq by simp
qed

lemma length_tstr: "length (tstr s) \<le> 9 + length s"
  by (simp add: tstr_def length_head head_width_def)

lemma tstr_inject:
  assumes "small s" "small t"
  shows "tstr s = tstr t \<longleftrightarrow> s = t"
proof
  assume "tstr s = tstr t"
  then show "s = t"
    using assms length_tstr [of s] head_inject(2) [of 3 "of_nat (length s)" s "of_nat (length t)" t]
    by (simp add: tstr_def small_def)
qed simp

lemma bt_wf_small_sort:
  assumes "bt_wf m" and "\<forall>p \<in> set m. small (fst p)"
  shows "distinct (map (\<lambda>p. tstr (fst p)) m)"
  using bt_wf_distinct [OF assms(1)] assms(2)
  by (auto simp: distinct_map inj_on_def tstr_inject)

text \<open>The encoder of a map emits the encoding of the sorted value.\<close>

lemma map_text_keys_enc:
  "map_text_keys (map (\<lambda>(k, v). (k, enc (f v))) m) =
   enc (VMap (sort_key (\<lambda>(k, v). (length (enc k), enc k)) (map (\<lambda>(k, v). (VText k, f v)) m)))"
  by (simp add: map_text_keys_def canonical_sort_def sort_key_map comp_def case_prod_unfold)

lemma pv_encode_enc: "pv_wf d v \<Longrightarrow> pv_encode v = Some (enc (to_value v))"
proof (induction d v rule: pv_wf.induct)
  case (6 d m)
  have "those (map (\<lambda>(k, v). map_option (Pair k) (pv_encode v)) m)
      = Some (map (\<lambda>(k, v). (k, enc (to_value v))) m)"
    using 6 by (intro those_map_Some) (force split: prod.splits)
  then show ?case using map_text_keys_enc [of to_value m] by simp
next
  case (7 d items)
  have "those (map pv_encode items) = Some (map (\<lambda>v. enc (to_value v)) items)"
    using 7 by (intro those_map_Some) auto
  then show ?case by (simp add: comp_def)
qed (auto simp: nint_def)

lemma map_value_sorted:
  fixes f :: "'v \<Rightarrow> cbor_value"
  assumes "bt_wf m" and "\<forall>p \<in> set m. small (fst p)"
  defines "ps \<equiv> sort_key (\<lambda>(k, v). (length (enc k), enc k)) (map (\<lambda>(k, v). (VText k, f v)) m)"
  shows "sorted_wrt key_order_canonical (map (\<lambda>p. enc (fst p)) ps)"
proof -
  let ?key = "\<lambda>(k, v :: cbor_value). (length (enc k), enc k)"
  let ?qs = "map (\<lambda>(k, v). (VText k, f v)) m"
  have "distinct (map (\<lambda>p. enc (fst p)) ?qs)"
    using bt_wf_small_sort [OF assms(1,2)] by (simp add: comp_def case_prod_unfold)
  then have "distinct (map ?key ?qs)"
    by (auto simp: distinct_map inj_on_def case_prod_unfold)
  then have "sorted_wrt (<) (map ?key ps)"
    unfolding ps_def by (rule sort_key_strict)
  then show ?thesis
    unfolding sorted_wrt_map by (rule sorted_wrt_mono_rel [rotated])
      (auto simp: key_order_canonical_iff case_prod_unfold)
qed

lemma pv_wf_wfv: "pv_wf d v \<Longrightarrow> wfv d (to_value v)"
proof (induction d v rule: pv_wf.induct)
  case (6 d m)
  have "\<forall>p \<in> set (map (\<lambda>(k, v). (VText k, to_value v)) m). wfv (d + 1) (fst p) \<and> wfv (d + 1) (snd p)"
    using 6 by (fastforce simp: small_def)
  moreover have "sorted_wrt key_order_canonical (map (\<lambda>p. enc (fst p))
      (sort_key (\<lambda>(k, v). (length (enc k), enc k)) (map (\<lambda>(k, v). (VText k, to_value v)) m)))"
    using 6 by (intro map_value_sorted) auto
  ultimately show ?case using 6(2) by (simp add: small_def)
next
  case (7 d items)
  then show ?case by (auto simp: small_def)
qed (auto simp: small_def)

section \<open>Payloads survive the round trip\<close>

lemma collect_sorted:
  assumes "bt_wf m"
  shows "fold (\<lambda>(k, v). bt_insert k v) (sort_key g m) [] = m"
proof -
  have "distinct (map fst (sort_key g m))"
    using bt_wf_distinct [OF assms]
    by (metis mset_eq_imp_distinct_iff mset_map mset_sort)
  moreover from this have "map_of (sort_key g m) = map_of m"
    using bt_wf_distinct [OF assms] by (simp add: map_of_inject_set)
  ultimately show ?thesis using bt.collect_entries assms by blast
qed

lemma text_pairs_to_payload:
  assumes "\<And>p. p \<in> set m \<Longrightarrow> cbor_value_to_payload si off (to_value (snd p)) = Ok (snd p)"
  shows "map_res (\<lambda>(k, val). case k of
      VText key \<Rightarrow> bind_res (cbor_value_to_payload si off val) (\<lambda>v. Ok (key, v))
    | _ \<Rightarrow> Err (Decode si off))
    (sort_key (\<lambda>(k, v). (length (enc k), enc k)) (map (\<lambda>(k, v). (VText k, to_value v)) m))
   = Ok (sort_key canon_key m)"
proof -
  let ?conv = "\<lambda>(k, val). case k of
      VText key \<Rightarrow> bind_res (cbor_value_to_payload si off val) (\<lambda>v. Ok (key, v))
    | _ \<Rightarrow> Err (Decode si off)"
  have "sort_key (\<lambda>(k, v). (length (enc k), enc k)) (map (\<lambda>(k, v). (VText k, to_value v)) m)
      = map (\<lambda>(k, v). (VText k, to_value v)) (sort_key canon_key m)"
    by (simp add: sort_key_map case_prod_unfold canon_key_def [abs_def])
  moreover have "map_res ?conv (map (\<lambda>(k, v). (VText k, to_value v)) xs) = Ok xs" if "set xs \<subseteq> set m" for xs
    using that
  proof (induction xs)
    case (Cons p xs)
    then have "cbor_value_to_payload si off (to_value (snd p)) = Ok (snd p)" using assms by auto
    then show ?case using Cons by (cases p) auto
  qed simp
  ultimately show ?thesis by simp
qed

lemma payload_back: "pv_wf d v \<Longrightarrow> cbor_value_to_payload si off (to_value v) = Ok v"
proof (induction d v rule: pv_wf.induct)
  case (6 d m)
  then show ?case
    using text_pairs_to_payload [of m si off] by (simp add: collect_sorted)
next
  case (7 d items)
  have "map_res (cbor_value_to_payload si off) (map to_value xs) = Ok xs" if "set xs \<subseteq> set items" for xs
    using that 7 by (induction xs) auto
  then have "map_res (cbor_value_to_payload si off) (map to_value items) = Ok items" by simp
  then show ?case by simp
qed auto

end
