(* ===== verification/Key.thy ===== *)
theory Key
  imports Text
begin

text \<open>
  Keys of the HMAC mode (\<^verbatim>\<open>key.rs\<close>). The trait \<^verbatim>\<open>KeyHandle\<close> becomes a type: a handle is a
  signing function and a key id whose results have the array lengths of the trait's
  signatures (\<^verbatim>\<open>HmacBytes([u8; 32])\<close>, \<^verbatim>\<open>KeyId([u8; 32])\<close>). HMAC-SHA256 and BLAKE3 come from
  other crates and are arguments of \<open>in_memory_key\<close>.
\<close>

definition HMAC_LEN :: nat where "HMAC_LEN = 32"

definition KEY_ID_LEN :: nat where "KEY_ID_LEN = 32"

text \<open>A value of type \<^verbatim>\<open>[u8; n]\<close> filled from \<open>xs\<close>; the identity on lists of that length.\<close>

definition fit :: "nat \<Rightarrow> bytes \<Rightarrow> bytes" where
  "fit n xs = take n (xs @ replicate n 0)"

lemma length_fit [simp]: "length (fit n xs) = n"
  by (simp add: fit_def)

lemma fit_id [simp]: "length xs = n \<Longrightarrow> fit n xs = xs"
  by (simp add: fit_def)

typedef key_handle =
  "{k :: (bytes \<Rightarrow> bytes) \<times> bytes.
     (\<forall>d. length (fst k d) = HMAC_LEN) \<and> length (snd k) = KEY_ID_LEN}"
  by (rule exI [of _ "(\<lambda>_. fit HMAC_LEN [], fit KEY_ID_LEN [])"]) simp

definition kh_sign :: "key_handle \<Rightarrow> bytes \<Rightarrow> bytes" where
  "kh_sign k = fst (Rep_key_handle k)"

definition kh_key_id :: "key_handle \<Rightarrow> bytes" where
  "kh_key_id k = snd (Rep_key_handle k)"

definition in_memory_key ::
  "(bytes \<Rightarrow> bytes \<Rightarrow> bytes) \<Rightarrow> (bytes \<Rightarrow> bytes) \<Rightarrow> bytes \<Rightarrow> key_handle" where
  "in_memory_key hmac_sha256 blake3 key =
     Abs_key_handle (\<lambda>d. fit HMAC_LEN (hmac_sha256 key d), fit KEY_ID_LEN (blake3 key))"

lemma length_kh_sign [simp]: "length (kh_sign k d) = 32"
  using Rep_key_handle [of k] by (simp add: kh_sign_def HMAC_LEN_def)

lemma length_kh_key_id [simp]: "length (kh_key_id k) = 32"
  using Rep_key_handle [of k] by (simp add: kh_key_id_def KEY_ID_LEN_def)

lemma kh_sign_in_memory [simp]:
  "kh_sign (in_memory_key hmac b3 key) d = fit HMAC_LEN (hmac key d)"
  by (simp add: kh_sign_def in_memory_key_def Abs_key_handle_inverse)

lemma kh_key_id_in_memory [simp]:
  "kh_key_id (in_memory_key hmac b3 key) = fit KEY_ID_LEN (b3 key)"
  by (simp add: kh_key_id_def in_memory_key_def Abs_key_handle_inverse)

text \<open>\<^verbatim>\<open>InMemoryKey::from_slice\<close> accepts exactly 32 bytes.\<close>

datatype key_error = InvalidLength nat nat

definition in_memory_key_from_slice ::
  "(bytes \<Rightarrow> bytes \<Rightarrow> bytes) \<Rightarrow> (bytes \<Rightarrow> bytes) \<Rightarrow> bytes \<Rightarrow> (key_handle, key_error) result" where
  "in_memory_key_from_slice hmac_sha256 blake3 bs =
     (if length bs = HMAC_LEN then Ok (in_memory_key hmac_sha256 blake3 bs)
      else Err (InvalidLength HMAC_LEN (length bs)))"

text \<open>The equality of \<^verbatim>\<open>HmacBytes\<close> and \<^verbatim>\<open>KeyId\<close>: \<^verbatim>\<open>subtle\<close>'s constant-time comparison of two
  arrays of the same length decides their equality.\<close>

definition ct_eq :: "bytes \<Rightarrow> bytes \<Rightarrow> bool" where
  "ct_eq a b \<longleftrightarrow> a = b"

end
