(* ===== verification/Segment.thy ===== *)
theory Segment
  imports Key
begin

text \<open>
  The byte layout of format \<^verbatim>\<open>0x0001\<close> (\<^verbatim>\<open>segment.rs\<close>): the 80-byte segment header with its
  CRC, and the record envelope. CRC32 is another crate's function and is the argument
  \<open>crc\<close> of the header functions.
\<close>

definition FORMAT_MAGIC :: bytes where "FORMAT_MAGIC = ascii ''OGAU''"

definition FORMAT_VERSION :: u16 where "FORMAT_VERSION = 1"

definition HEADER_BODY_LEN :: nat where "HEADER_BODY_LEN = 72"

definition HEADER_TOTAL_LEN :: nat where "HEADER_TOTAL_LEN = 80"

definition SESSION_ID_LEN :: nat where "SESSION_ID_LEN = 16"

record segment_header =
  hdr_version :: u16
  hdr_segment_index :: u16
  hdr_key_id :: bytes
  hdr_prev_final :: bytes

datatype header_parse_error =
    TooShort nat
  | BadMagic bytes
  | UnsupportedVersion u16
  | CrcMismatch u32 u32

definition header_genesis :: "bytes \<Rightarrow> segment_header" where
  "header_genesis key_id =
     \<lparr>hdr_version = FORMAT_VERSION, hdr_segment_index = 0, hdr_key_id = key_id,
      hdr_prev_final = replicate HMAC_LEN 0\<rparr>"

definition header_next :: "u16 \<Rightarrow> bytes \<Rightarrow> bytes \<Rightarrow> segment_header" where
  "header_next segment_index key_id prev_final =
     \<lparr>hdr_version = FORMAT_VERSION, hdr_segment_index = segment_index, hdr_key_id = key_id,
      hdr_prev_final = prev_final\<rparr>"

text \<open>\<^verbatim>\<open>u16::from_le_bytes\<close> and \<^verbatim>\<open>u32::from_le_bytes\<close> at an offset.\<close>

definition u16_at :: "bytes \<Rightarrow> nat \<Rightarrow> u16" where
  "u16_at bs i = of_nat (le_val (slice bs i 2))"

definition u32_at :: "bytes \<Rightarrow> nat \<Rightarrow> u32" where
  "u32_at bs i = of_nat (le_val (slice bs i 4))"

definition header_parse :: "(bytes \<Rightarrow> u32) \<Rightarrow> bytes \<Rightarrow> (segment_header, header_parse_error) result" where
  "header_parse crc bs =
     (if length bs < HEADER_TOTAL_LEN then Err (TooShort (length bs))
      else if slice bs 0 4 \<noteq> FORMAT_MAGIC then Err (BadMagic (slice bs 0 4))
      else
        let version = u16_at bs 4 in
        if version \<noteq> FORMAT_VERSION then Err (UnsupportedVersion version)
        else
          let segment_index = u16_at bs 6;
              key_id = slice bs 8 32;
              prev_final = slice bs 40 32;
              stored_crc = u32_at bs 72;
              recomputed_crc = crc (slice bs 0 HEADER_BODY_LEN)
          in
            if stored_crc \<noteq> recomputed_crc then Err (CrcMismatch recomputed_crc stored_crc)
            else Ok \<lparr>hdr_version = version, hdr_segment_index = segment_index,
                      hdr_key_id = key_id, hdr_prev_final = prev_final\<rparr>)"

text \<open>\<open>header_body\<close> is the 72-byte array \<^verbatim>\<open>body\<close> of \<^verbatim>\<open>to_bytes\<close>.\<close>

definition header_body :: "segment_header \<Rightarrow> bytes" where
  "header_body h =
     FORMAT_MAGIC @ le_bytes 2 (unat (hdr_version h)) @ le_bytes 2 (unat (hdr_segment_index h))
     @ hdr_key_id h @ hdr_prev_final h"

definition header_to_bytes :: "(bytes \<Rightarrow> u32) \<Rightarrow> segment_header \<Rightarrow> bytes" where
  "header_to_bytes crc h =
     header_body h @ le_bytes 4 (unat (crc (header_body h))) @ replicate 4 0"

definition RECORD_FRAMING_OVERHEAD :: nat where
  "RECORD_FRAMING_OVERHEAD = 4 + HMAC_LEN + 4"

definition frame_record :: "bytes \<Rightarrow> bytes \<Rightarrow> bytes" where
  "frame_record payload hmac =
     (let len = of_nat (length payload) :: u32 in
      le_bytes 4 (unat len) @ payload @ hmac @ le_bytes 4 (unat len))"

lemmas layout_consts = FORMAT_VERSION_def HEADER_BODY_LEN_def HEADER_TOTAL_LEN_def
  SESSION_ID_LEN_def HMAC_LEN_def KEY_ID_LEN_def RECORD_FRAMING_OVERHEAD_def

section \<open>Headers\<close>

text \<open>The array fields of a header have their types' lengths.\<close>

definition header_wf :: "segment_header \<Rightarrow> bool" where
  "header_wf h \<longleftrightarrow> length (hdr_key_id h) = 32 \<and> length (hdr_prev_final h) = 32"

lemma length_magic [simp]: "length FORMAT_MAGIC = 4"
  by (simp add: FORMAT_MAGIC_def ascii_def)

lemma length_header_body [simp]: "header_wf h \<Longrightarrow> length (header_body h) = 72"
  by (simp add: header_body_def header_wf_def)

lemma length_header_to_bytes [simp]: "header_wf h \<Longrightarrow> length (header_to_bytes crc h) = 80"
  by (simp add: header_to_bytes_def)

lemma header_wf_genesis [simp]: "length kid = 32 \<Longrightarrow> header_wf (header_genesis kid)"
  by (simp add: header_wf_def header_genesis_def HMAC_LEN_def)

lemma header_wf_next [simp]: "length kid = 32 \<Longrightarrow> length pf = 32 \<Longrightarrow> header_wf (header_next i kid pf)"
  by (simp add: header_wf_def header_next_def)

lemma unat_u16_less [simp]: "unat (w :: u16) < 65536"
  using unsigned_less [of w] by simp

lemma unat_u32_less [simp]: "unat (w :: u32) < 4294967296"
  using unsigned_less [of w] by simp

lemma u16_at_le [codec]: "slice bs i 2 = le_bytes 2 (unat w) \<Longrightarrow> u16_at bs i = w"
  using unat_u16_less [of w] by (simp add: u16_at_def le_val_le_bytes)

lemma u32_at_le [codec]: "slice bs i 4 = le_bytes 4 (unat w) \<Longrightarrow> u32_at bs i = w"
  using unat_u32_less [of w] by (simp add: u32_at_def le_val_le_bytes)

lemma le_u16_at: "i + 2 \<le> length bs \<Longrightarrow> le_bytes 2 (unat (u16_at bs i)) = slice bs i 2"
proof -
  assume "i + 2 \<le> length bs"
  then have l: "length (slice bs i 2) = 2" by simp
  then have "le_val (slice bs i 2) < 65536" using le_val_bound [of "slice bs i 2"] by simp
  then show ?thesis using l by (simp add: u16_at_def unat_of_nat le_bytes_le_val)
qed

lemma le_u32_at: "i + 4 \<le> length bs \<Longrightarrow> le_bytes 4 (unat (u32_at bs i)) = slice bs i 4"
proof -
  assume "i + 4 \<le> length bs"
  then have l: "length (slice bs i 4) = 4" by simp
  then have "le_val (slice bs i 4) < 4294967296" using le_val_bound [of "slice bs i 4"] by simp
  then show ?thesis using l by (simp add: u32_at_def unat_of_nat le_bytes_le_val)
qed

text \<open>The fields of a serialized header, read back at the offsets of the format.\<close>

lemma header_fields [codec]:
  fixes rest :: bytes and crc :: "bytes \<Rightarrow> u32"
  assumes "header_wf h"
  defines "bs \<equiv> header_to_bytes crc h @ rest"
  shows "slice bs 0 4 = FORMAT_MAGIC" "u16_at bs 4 = hdr_version h"
    "u16_at bs 6 = hdr_segment_index h" "slice bs 8 32 = hdr_key_id h"
    "slice bs 40 32 = hdr_prev_final h" "slice bs 0 72 = header_body h"
    "u32_at bs 72 = crc (header_body h)" "slice bs 76 4 = replicate 4 0"
proof -
  have len: "length (hdr_key_id h) = 32" "length (hdr_prev_final h) = 32" "length (header_body h) = 72"
    using assms by (simp_all add: header_wf_def)
  show "slice bs 0 72 = header_body h"
    using len unfolding bs_def header_to_bytes_def slice_def by simp
  show "slice bs 0 4 = FORMAT_MAGIC" "slice bs 8 32 = hdr_key_id h" "slice bs 40 32 = hdr_prev_final h"
    using len unfolding bs_def header_to_bytes_def header_body_def slice_def by simp_all
  show "u16_at bs 4 = hdr_version h" "u16_at bs 6 = hdr_segment_index h"
    using len unfolding bs_def header_to_bytes_def header_body_def
    by (simp_all add: slice_def u16_at_le)
  show "u32_at bs 72 = crc (header_body h)" "slice bs 76 4 = replicate 4 0"
    using len unfolding bs_def header_to_bytes_def by (simp_all add: slice_def u32_at_le)
qed

lemma header_parse_to_bytes:
  assumes "header_wf h" and "hdr_version h = FORMAT_VERSION"
  shows "header_parse crc (header_to_bytes crc h @ rest) = Ok h"
  using assms header_fields [OF assms(1), of crc rest]
  by (simp add: header_parse_def layout_consts Let_def)

lemma header_parse_Ok:
  assumes "header_parse crc bs = Ok h"
  shows "header_wf h" "hdr_version h = FORMAT_VERSION" "slice bs 0 72 = header_body h"
    "u32_at bs 72 = crc (header_body h)" "80 \<le> length bs"
proof -
  from assms have len: "80 \<le> length bs" and magic: "slice bs 0 4 = FORMAT_MAGIC"
    and v: "u16_at bs 4 = FORMAT_VERSION" and crc: "u32_at bs 72 = crc (slice bs 0 72)"
    and h: "h = \<lparr>hdr_version = u16_at bs 4, hdr_segment_index = u16_at bs 6,
      hdr_key_id = slice bs 8 32, hdr_prev_final = slice bs 40 32\<rparr>"
    by (auto simp: header_parse_def Let_def layout_consts split: if_splits)
  show "header_wf h" "hdr_version h = FORMAT_VERSION" "80 \<le> length bs"
    using h len v by (simp_all add: header_wf_def)
  have "slice bs 0 72 = slice bs 0 4 @ slice bs 4 2 @ slice bs 6 2 @ slice bs 8 32 @ slice bs 40 32"
    using slice_add [of bs 0 4 68] slice_add [of bs 4 2 66] slice_add [of bs 6 2 64]
      slice_add [of bs 8 32 32] by simp
  then show body: "slice bs 0 72 = header_body h"
    using h len magic by (simp add: header_body_def le_u16_at)
  show "u32_at bs 72 = crc (header_body h)" using crc body by simp
qed

end
