(* ===== verification/Records.thy ===== *)
theory Records
  imports Payload Segment
begin

text \<open>
  The v0.1 record: what the writer encodes (\<^verbatim>\<open>RecordInput\<close> and \<^verbatim>\<open>encode_record_payload\<close> of
  \<^verbatim>\<open>writer.rs\<close>) and the three decoders of the record map: the reader's strict one
  (\<^verbatim>\<open>decode_record_map\<close>), the verifier's lenient one (\<^verbatim>\<open>reader_decode_record_map\<close>) and the
  recovery scan's minimal one (\<^verbatim>\<open>parse_recovered_record\<close>).
\<close>

section \<open>Encoding\<close>

record record_input =
  in_ts_wall :: bytes
  in_ts_mono_delta :: u64
  in_actor :: bytes
  in_event :: bytes
  in_payload :: "(bytes \<times> payload_value) list"
  in_schema_version :: u8

definition encode_record_payload ::
  "record_input \<Rightarrow> bytes \<Rightarrow> bytes \<Rightarrow> bytes \<Rightarrow> u64 \<Rightarrow> bytes option" where
  "encode_record_payload input session_id key_id prev_hash record_id =
     map_option (\<lambda>payload_bytes. map_int_keys
       [(1, uint_cbor record_id),
        (2, bstr prev_hash),
        (3, tstr (in_ts_wall input)),
        (4, uint_cbor (in_ts_mono_delta input)),
        (5, bstr session_id),
        (6, tstr (in_actor input)),
        (7, tstr (in_event input)),
        (8, payload_bytes),
        (9, bstr key_id),
        (10, uint_cbor (ucast (in_schema_version input)))])
     (encode_payload_map (in_payload input))"

section \<open>Decoding\<close>

record audit_record =
  r_segment_index :: u16
  r_record_id :: u64
  r_prev_hash :: bytes
  r_ts_wall :: bytes
  r_ts_mono_delta :: u64
  r_session_id :: bytes
  r_actor :: bytes
  r_event :: bytes
  r_payload :: "(bytes \<times> payload_value) list"
  r_key_id :: bytes
  r_schema_version :: u8
  r_hmac :: bytes
  r_payload_bytes :: bytes
  r_file_offset :: nat

text \<open>The local variables of the decoders' field loop.\<close>

record fields =
  f_record_id :: "u64 option"
  f_prev_hash :: "bytes option"
  f_ts_wall :: "bytes option"
  f_ts_mono_delta :: "u64 option"
  f_session_id :: "bytes option"
  f_actor :: "bytes option"
  f_event :: "bytes option"
  f_payload :: "(bytes \<times> payload_value) list option"
  f_key_id :: "bytes option"
  f_schema_version :: "u8 option"

definition no_fields :: fields where
  "no_fields = \<lparr>f_record_id = None, f_prev_hash = None, f_ts_wall = None, f_ts_mono_delta = None,
     f_session_id = None, f_actor = None, f_event = None, f_payload = None, f_key_id = None,
     f_schema_version = None\<rparr>"

definition expect_u64 :: "cbor_value \<Rightarrow> u16 \<Rightarrow> nat \<Rightarrow> (u64, reader_error) result" where
  "expect_u64 v si off = (case v of VUint n \<Rightarrow> Ok n | _ \<Rightarrow> Err (Decode si off))"

definition expect_text :: "cbor_value \<Rightarrow> u16 \<Rightarrow> nat \<Rightarrow> (bytes, reader_error) result" where
  "expect_text v si off = (case v of VText s \<Rightarrow> Ok s | _ \<Rightarrow> Err (Decode si off))"

definition expect_fixed_bstr :: "cbor_value \<Rightarrow> nat \<Rightarrow> u16 \<Rightarrow> nat \<Rightarrow> (bytes, reader_error) result" where
  "expect_fixed_bstr v n si off =
     (case v of VBytes b \<Rightarrow> if length b \<noteq> n then Err (Decode si off) else Ok b
      | _ \<Rightarrow> Err (Decode si off))"

definition required :: "'a option \<Rightarrow> u16 \<Rightarrow> nat \<Rightarrow> ('a, reader_error) result" where
  "required x si off = ok_or (Decode si off) x"

text \<open>One iteration of the loop of \<^verbatim>\<open>decode_record_map\<close>.\<close>

definition decode_field ::
  "u16 \<Rightarrow> nat \<Rightarrow> cbor_value \<times> cbor_value \<Rightarrow> fields \<Rightarrow> (fields, reader_error) result" where
  "decode_field si off kv f =
     (case fst kv of
        VUint key \<Rightarrow>
          (let v = snd kv in
           if key = 1 then bind_res (expect_u64 v si off) (\<lambda>x. Ok (f\<lparr>f_record_id := Some x\<rparr>))
           else if key = 2 then
             bind_res (expect_fixed_bstr v HMAC_LEN si off) (\<lambda>x. Ok (f\<lparr>f_prev_hash := Some x\<rparr>))
           else if key = 3 then bind_res (expect_text v si off) (\<lambda>x. Ok (f\<lparr>f_ts_wall := Some x\<rparr>))
           else if key = 4 then bind_res (expect_u64 v si off) (\<lambda>x. Ok (f\<lparr>f_ts_mono_delta := Some x\<rparr>))
           else if key = 5 then
             bind_res (expect_fixed_bstr v SESSION_ID_LEN si off) (\<lambda>x. Ok (f\<lparr>f_session_id := Some x\<rparr>))
           else if key = 6 then bind_res (expect_text v si off) (\<lambda>x. Ok (f\<lparr>f_actor := Some x\<rparr>))
           else if key = 7 then bind_res (expect_text v si off) (\<lambda>x. Ok (f\<lparr>f_event := Some x\<rparr>))
           else if key = 8 then bind_res (expect_payload_map v si off) (\<lambda>x. Ok (f\<lparr>f_payload := Some x\<rparr>))
           else if key = 9 then
             bind_res (expect_fixed_bstr v HMAC_LEN si off) (\<lambda>x. Ok (f\<lparr>f_key_id := Some x\<rparr>))
           else if key = 10 then
             bind_res (expect_u64 v si off) (\<lambda>raw.
               if 255 < raw then Err (Decode si off) else Ok (f\<lparr>f_schema_version := Some (ucast raw)\<rparr>))
           else Err (Decode si off))
      | _ \<Rightarrow> Err (Decode si off))"

text \<open>A loop over the pairs with a mutable state that an error leaves.\<close>

fun fold_res :: "('a \<Rightarrow> 's \<Rightarrow> ('s, 'e) result) \<Rightarrow> 'a list \<Rightarrow> 's \<Rightarrow> ('s, 'e) result" where
  "fold_res f [] s = Ok s"
| "fold_res f (x # xs) s = bind_res (f x s) (fold_res f xs)"

definition decode_record_map ::
  "cbor_value \<Rightarrow> u16 \<Rightarrow> nat \<Rightarrow> bytes \<Rightarrow> bytes \<Rightarrow> (audit_record, reader_error) result" where
  "decode_record_map value si off payload_bytes hmac_bytes =
     (case value of
        VMap pairs \<Rightarrow>
          if length pairs \<noteq> 10 then Err (Decode si off)
          else
            bind_res (fold_res (decode_field si off) pairs no_fields) (\<lambda>f.
            bind_res (required (f_record_id f) si off) (\<lambda>record_id.
            bind_res (required (f_prev_hash f) si off) (\<lambda>prev_hash.
            bind_res (required (f_ts_wall f) si off) (\<lambda>ts_wall.
            bind_res (required (f_ts_mono_delta f) si off) (\<lambda>ts_mono_delta.
            bind_res (required (f_session_id f) si off) (\<lambda>session_id.
            bind_res (required (f_actor f) si off) (\<lambda>actor.
            bind_res (required (f_event f) si off) (\<lambda>event.
            bind_res (required (f_payload f) si off) (\<lambda>payload.
            bind_res (required (f_key_id f) si off) (\<lambda>key_id.
            bind_res (required (f_schema_version f) si off) (\<lambda>schema_version.
              Ok \<lparr>r_segment_index = si, r_record_id = record_id, r_prev_hash = prev_hash,
                  r_ts_wall = ts_wall, r_ts_mono_delta = ts_mono_delta, r_session_id = session_id,
                  r_actor = actor, r_event = event, r_payload = payload, r_key_id = key_id,
                  r_schema_version = schema_version, r_hmac = hmac_bytes,
                  r_payload_bytes = payload_bytes, r_file_offset = off\<rparr>)))))))))))
      | _ \<Rightarrow> Err (Decode si off))"

text \<open>The verifier's version: a field of the wrong type is skipped, a missing one defaulted.\<close>

definition decode_field_lenient ::
  "u16 \<Rightarrow> nat \<Rightarrow> cbor_value \<times> cbor_value \<Rightarrow> fields \<Rightarrow> (fields, reader_error) result" where
  "decode_field_lenient si off kv f =
     (case fst kv of
        VUint key \<Rightarrow>
          Ok (let v = snd kv in
              if key = 1 then (case v of VUint n \<Rightarrow> f\<lparr>f_record_id := Some n\<rparr> | _ \<Rightarrow> f)
              else if key = 2 then
                (case v of VBytes b \<Rightarrow> if length b = HMAC_LEN then f\<lparr>f_prev_hash := Some b\<rparr> else f | _ \<Rightarrow> f)
              else if key = 3 then (case v of VText s \<Rightarrow> f\<lparr>f_ts_wall := Some s\<rparr> | _ \<Rightarrow> f)
              else if key = 4 then (case v of VUint n \<Rightarrow> f\<lparr>f_ts_mono_delta := Some n\<rparr> | _ \<Rightarrow> f)
              else if key = 5 then
                (case v of VBytes b \<Rightarrow> if length b = SESSION_ID_LEN then f\<lparr>f_session_id := Some b\<rparr> else f | _ \<Rightarrow> f)
              else if key = 6 then (case v of VText s \<Rightarrow> f\<lparr>f_actor := Some s\<rparr> | _ \<Rightarrow> f)
              else if key = 7 then (case v of VText s \<Rightarrow> f\<lparr>f_event := Some s\<rparr> | _ \<Rightarrow> f)
              else if key = 8 then (case v of VMap m \<Rightarrow> f\<lparr>f_payload := Some []\<rparr> | _ \<Rightarrow> f)
              else if key = 9 then
                (case v of VBytes b \<Rightarrow> if length b = HMAC_LEN then f\<lparr>f_key_id := Some b\<rparr> else f | _ \<Rightarrow> f)
              else if key = 10 then
                (case v of VUint n \<Rightarrow> if n \<le> 255 then f\<lparr>f_schema_version := Some (ucast n)\<rparr> else f | _ \<Rightarrow> f)
              else f)
      | _ \<Rightarrow> Err (Decode si off))"

definition unwrap_or :: "'a \<Rightarrow> 'a option \<Rightarrow> 'a" where
  "unwrap_or d x = (case x of None \<Rightarrow> d | Some y \<Rightarrow> y)"

definition reader_decode_record_map ::
  "cbor_value \<Rightarrow> u16 \<Rightarrow> nat \<Rightarrow> bytes \<Rightarrow> bytes \<Rightarrow> (audit_record, reader_error) result" where
  "reader_decode_record_map value si off payload_bytes hmac_bytes =
     (case value of
        VMap pairs \<Rightarrow>
          if length pairs \<noteq> 10 then Err (Decode si off)
          else
            bind_res (fold_res (decode_field_lenient si off) pairs no_fields) (\<lambda>f.
              Ok \<lparr>r_segment_index = si,
                  r_record_id = unwrap_or 0 (f_record_id f),
                  r_prev_hash = unwrap_or (replicate HMAC_LEN 0) (f_prev_hash f),
                  r_ts_wall = unwrap_or [] (f_ts_wall f),
                  r_ts_mono_delta = unwrap_or 0 (f_ts_mono_delta f),
                  r_session_id = unwrap_or (replicate SESSION_ID_LEN 0) (f_session_id f),
                  r_actor = unwrap_or [] (f_actor f),
                  r_event = unwrap_or [] (f_event f),
                  r_payload = unwrap_or [] (f_payload f),
                  r_key_id = unwrap_or (replicate HMAC_LEN 0) (f_key_id f),
                  r_schema_version = unwrap_or 0 (f_schema_version f),
                  r_hmac = hmac_bytes, r_payload_bytes = payload_bytes, r_file_offset = off\<rparr>)
      | _ \<Rightarrow> Err (Decode si off))"

text \<open>The recovery scan's version; its errors carry only a message.\<close>

record recovered_record =
  rr_record_id :: u64
  rr_prev_hash :: bytes
  rr_ts_wall :: bytes
  rr_ts_mono_delta :: u64
  rr_event :: bytes

definition recover_field :: "cbor_value \<times> cbor_value \<Rightarrow> fields \<Rightarrow> (fields, unit) result" where
  "recover_field kv f =
     (case fst kv of
        VUint key \<Rightarrow>
          (case snd kv of
             VUint n \<Rightarrow> Ok (if key = 1 then f\<lparr>f_record_id := Some n\<rparr>
                           else if key = 4 then f\<lparr>f_ts_mono_delta := Some n\<rparr> else f)
           | VBytes b \<Rightarrow>
               if key = 2 then (if length b \<noteq> HMAC_LEN then Err () else Ok (f\<lparr>f_prev_hash := Some b\<rparr>))
               else Ok f
           | VText s \<Rightarrow> Ok (if key = 3 then f\<lparr>f_ts_wall := Some s\<rparr>
                           else if key = 7 then f\<lparr>f_event := Some s\<rparr> else f)
           | _ \<Rightarrow> Ok f)
      | _ \<Rightarrow> Err ())"

definition parse_recovered_record :: "cbor_value \<Rightarrow> (recovered_record, unit) result" where
  "parse_recovered_record value =
     (case value of
        VMap pairs \<Rightarrow>
          bind_res (fold_res recover_field pairs no_fields) (\<lambda>f.
          bind_res (ok_or () (f_record_id f)) (\<lambda>record_id.
          bind_res (ok_or () (f_prev_hash f)) (\<lambda>prev_hash.
          bind_res (ok_or () (f_ts_wall f)) (\<lambda>ts_wall.
          bind_res (ok_or () (f_ts_mono_delta f)) (\<lambda>ts_mono_delta.
          bind_res (ok_or () (f_event f)) (\<lambda>event.
            Ok \<lparr>rr_record_id = record_id, rr_prev_hash = prev_hash, rr_ts_wall = ts_wall,
                rr_ts_mono_delta = ts_mono_delta, rr_event = event\<rparr>))))))
      | _ \<Rightarrow> Err ())"

end
