(* ===== verification/Log_Dir.thy ===== *)
theory Log_Dir
  imports Text
begin

text \<open>
  The log directory: a list of named files, in the order a directory listing returns
  them, and the operations the program performs on it (\<^verbatim>\<open>read_dir\<close>, create with truncation,
  positioned writes, \<^verbatim>\<open>set_len\<close>). I/O errors other than a missing file are outside the
  model. The locale \<open>segment_store\<close> is what the writer and the verifier rely on; it is
  interpreted on the directory with the file names \<^verbatim>\<open>audit-NNNN.cbor\<close>.
\<close>

type_synonym dir = "(bytes \<times> bytes) list"

abbreviation dir_get :: "dir \<Rightarrow> bytes \<Rightarrow> bytes option" where
  "dir_get \<equiv> map_of"

fun dir_put :: "bytes \<Rightarrow> bytes \<Rightarrow> dir \<Rightarrow> dir" where
  "dir_put n c [] = [(n, c)]"
| "dir_put n c ((m, x) # d) = (if m = n then (n, c) # d else (m, x) # dir_put n c d)"

text \<open>\<^verbatim>\<open>write_all\<close> with the file position at \<open>pos\<close>.\<close>

definition write_at :: "nat \<Rightarrow> bytes \<Rightarrow> bytes \<Rightarrow> bytes" where
  "write_at pos data content = take pos content @ data @ drop (pos + length data) content"

definition segment_path :: "u16 \<Rightarrow> bytes" where
  "segment_path index = ascii ''audit-'' @ pad_dec 4 (unat index) @ ascii ''.cbor''"

definition parse_segment_filename :: "bytes \<Rightarrow> u16 option" where
  "parse_segment_filename name =
     (case strip_prefix (ascii ''audit-'') name of None \<Rightarrow> None
      | Some rest \<Rightarrow>
          (case strip_suffix (ascii ''.cbor'') rest of None \<Rightarrow> None
           | Some body \<Rightarrow>
               if length body \<noteq> 4 then None
               else map_option of_nat (parse_uint 10 65535 body)))"

definition list_segment_indices :: "dir \<Rightarrow> u16 list" where
  "list_segment_indices d =
     sort (List.map_filter (\<lambda>(name, content).
       if valid_utf8 name then parse_segment_filename name else None) d)"

lemma parse_segment_path [codec]:
  assumes "unat i < 10000"
  shows "parse_segment_filename (segment_path i) = Some i"
proof -
  obtain c cs where c: "pad_dec 4 (unat i) = c # cs" by (cases "pad_dec 4 (unat i)") auto
  then have "c \<noteq> 43" using set_pad_dec [of c 4 "unat i"] digit_char_not_sign by auto
  then have "parse_uint 10 65535 (pad_dec 4 (unat i)) = Some (unat i)"
    using c assms parse_pad_dec [of "unat i" 65535 4] by (simp add: parse_uint_def)
  moreover have "length (pad_dec 4 (unat i)) = 4" using assms by (simp add: length_pad_dec)
  ultimately show ?thesis
    by (simp add: parse_segment_filename_def segment_path_def)
qed

text \<open>The file name of a segment with five digits is not recognised.\<close>

lemma parse_segment_path_large:
  assumes "10000 \<le> unat i"
  shows "parse_segment_filename (segment_path i) = None"
  using length_pad_dec_ge [of 4 "unat i"] assms
  by (simp add: parse_segment_filename_def segment_path_def)

lemma segment_name_canonical: "parse_segment_filename (segment_path i) = Some j \<Longrightarrow> j = i"
  using parse_segment_path [of i] parse_segment_path_large [of i] by (cases "unat i < 10000") auto

lemma segment_path_inject [simp]: "segment_path i = segment_path j \<longleftrightarrow> i = j"
  by (simp add: segment_path_def pad_dec_inject word_unat_eq_iff)

lemma valid_utf8_segment_path [simp]: "valid_utf8 (segment_path i)"
proof (rule valid_utf8_ascii)
  have "b < 128" if "b \<in> digit_char ` {..<10}" for b
    using that by (auto simp: word_less_nat_alt unat_digit_char)
  then show "\<forall>b \<in> set (segment_path i). b < 128"
    using set_pad_dec by (auto simp: segment_path_def ascii_def)
qed

section \<open>The segment store\<close>

locale segment_store =
  fixes put :: "u16 \<Rightarrow> bytes \<Rightarrow> 'd \<Rightarrow> 'd"
    and get :: "'d \<Rightarrow> u16 \<Rightarrow> bytes option"
    and indices :: "'d \<Rightarrow> u16 list"
    and wf :: "'d \<Rightarrow> bool"
  assumes wf_put: "wf d \<Longrightarrow> wf (put i c d)"
    and get_put: "get (put i c d) = (get d)(i \<mapsto> c)"
    and indices_sorted: "wf d \<Longrightarrow> sorted_wrt (<) (indices d)"
    and set_indices: "wf d \<Longrightarrow> set (indices d) = {i. get d i \<noteq> None \<and> unat i < 10000}"
begin

text \<open>The listing is determined by which segments exist.\<close>

lemma indices_eq:
  assumes "wf d" and srt: "sorted_wrt (<) ns" and small: "\<And>n. n \<in> set ns \<Longrightarrow> n < 10000"
    and ex: "\<And>i. unat i < 10000 \<Longrightarrow> get d i \<noteq> None \<longleftrightarrow> unat i \<in> set ns"
  shows "indices d = map of_nat ns"
proof -
  let ?xs = "map of_nat ns :: u16 list"
  have unat: "unat (of_nat m :: u16) = m" if "m \<in> set ns" for m
    using small [OF that] by (simp add: unat_of_nat)
  have "sorted_wrt (<) ?xs"
    unfolding sorted_wrt_map using srt
    by (rule sorted_wrt_mono_rel [rotated]) (simp add: word_less_nat_alt unat)
  moreover have "set ?xs = {i. unat i \<in> set ns}"
  proof
    show "set ?xs \<subseteq> {i. unat i \<in> set ns}" using unat by auto
    show "{i. unat i \<in> set ns} \<subseteq> set ?xs"
    proof
      fix i :: u16 assume "i \<in> {i. unat i \<in> set ns}"
      then have "of_nat (unat i) = i" and "unat i \<in> set ns" by auto
      then show "i \<in> set ?xs" by (metis image_eqI set_map)
    qed
  qed
  moreover have "set (indices d) = {i. unat i \<in> set ns}"
    using set_indices [OF assms(1)] small ex by auto
  ultimately show ?thesis
    using indices_sorted [OF assms(1)] sorted_distinct_set_unique [of "indices d" ?xs]
    by (simp add: strict_sorted_iff)
qed

text \<open>A log whose segments are \<open>0..n\<close> is listed completely and in order.\<close>

lemma indices_contiguous:
  assumes "wf d" and "n < 10000" and "\<And>i. get d i \<noteq> None \<longleftrightarrow> unat i \<le> n"
  shows "indices d = map of_nat [0..<Suc n]"
proof (rule indices_eq)
  show "sorted_wrt (<) [0..<Suc n]" by (rule sorted_wrt_upt)
  show "m < 10000" if "m \<in> set [0..<Suc n]" for m using that assms(2) by (simp del: upt_Suc)
  show "get d i \<noteq> None \<longleftrightarrow> unat i \<in> set [0..<Suc n]" for i
    unfolding assms(3) by (simp add: less_Suc_eq_le del: upt_Suc)
qed (rule assms(1))

lemma put_other: "i \<noteq> j \<Longrightarrow> get (put i c d) j = get d j"
  by (simp add: get_put)

lemma put_same: "get (put i c d) i = Some c"
  by (simp add: get_put)

end

text \<open>A directory whose segment-like names are all of the form the writer uses.\<close>

definition dir_wf :: "dir \<Rightarrow> bool" where
  "dir_wf d \<longleftrightarrow> distinct (map fst d) \<and>
     (\<forall>(name, c) \<in> set d. \<forall>i. parse_segment_filename name = Some i \<longrightarrow> name = segment_path i)"

definition seg_put :: "u16 \<Rightarrow> bytes \<Rightarrow> dir \<Rightarrow> dir" where
  "seg_put i c d = dir_put (segment_path i) c d"

definition seg_get :: "dir \<Rightarrow> u16 \<Rightarrow> bytes option" where
  "seg_get d i = dir_get d (segment_path i)"

lemma dir_get_put: "dir_get (dir_put n c d) = (dir_get d)(n \<mapsto> c)"
  by (induction n c d rule: dir_put.induct) auto

lemma fst_set_dir_put: "fst ` set (dir_put n c d) = insert n (fst ` set d)"
  by (induction n c d rule: dir_put.induct) auto

lemma distinct_dir_put: "distinct (map fst d) \<Longrightarrow> distinct (map fst (dir_put n c d))"
  by (induction n c d rule: dir_put.induct) (auto simp: fst_set_dir_put)

lemma dir_wf_alt:
  "dir_wf d \<longleftrightarrow> distinct (map fst d) \<and>
     (\<forall>name \<in> fst ` set d. \<forall>i. parse_segment_filename name = Some i \<longrightarrow> name = segment_path i)"
  by (force simp: dir_wf_def)

lemma dir_wf_put:
  assumes "dir_wf d"
  shows "dir_wf (seg_put i c d)"
proof -
  have "parse_segment_filename (segment_path i) = Some j \<Longrightarrow> j = i" for j
    by (cases "unat i < 10000") (simp_all add: parse_segment_path parse_segment_path_large)
  then show ?thesis using assms
    by (auto simp: dir_wf_alt seg_put_def distinct_dir_put fst_set_dir_put)
qed

text \<open>The indices that a parser of file names finds, when every name it accepts is the one the writer
  uses.\<close>

definition listing :: "(bytes \<Rightarrow> u16 option) \<Rightarrow> dir \<Rightarrow> u16 list" where
  "listing f d = sort (List.map_filter (\<lambda>(name, content). f name) d)"

lemma listing_indices:
  assumes d: "distinct (map fst d)"
    and canon: "\<And>name c i. (name, c) \<in> set d \<Longrightarrow> f name = Some i \<Longrightarrow> name = segment_path i"
    and f: "\<And>i. f (segment_path i) = (if unat i < 10000 then Some i else None)"
  shows "sorted_wrt (<) (listing f d)"
    and "set (listing f d) = {i. seg_get d i \<noteq> None \<and> unat i < 10000}"
proof -
  let ?f = "\<lambda>(name, content). f name"
  have "distinct (List.map_filter ?f d)" using d canon
  proof (induction d)
    case (Cons x d)
    have "i \<notin> set (List.map_filter ?f d)" if "?f x = Some i" for i
    proof
      assume "i \<in> set (List.map_filter ?f d)"
      then obtain y where y: "y \<in> set d" "?f y = Some i"
        by (auto simp: List.map_filter_def)
      then have "fst y = segment_path i" "fst x = segment_path i"
        using Cons.prems(2) [of "fst y" "snd y"] Cons.prems(2) [of "fst x" "snd x"] that
        by (auto split: prod.splits)
      then show False using Cons.prems(1) y by (auto simp: image_iff)
    qed
    moreover have "distinct (List.map_filter ?f d)"
      using Cons.prems by (intro Cons.IH) auto
    ultimately show ?case by (cases "?f x") (auto simp: List.map_filter_simps)
  qed (simp add: List.map_filter_simps)
  then show "sorted_wrt (<) (listing f d)"
    by (simp add: listing_def strict_sorted_iff)
  have "i \<in> set (listing f d) \<longleftrightarrow> seg_get d i \<noteq> None \<and> unat i < 10000" for i
  proof
    assume "i \<in> set (listing f d)"
    then obtain name c where n: "(name, c) \<in> set d" "f name = Some i"
      by (auto simp: listing_def List.map_filter_def)
    then have "name = segment_path i" by (rule canon)
    moreover from this n have "unat i < 10000" using f [of i] by (cases "unat i < 10000") auto
    ultimately show "seg_get d i \<noteq> None \<and> unat i < 10000"
      using n weak_map_of_SomeI [of name c d] by (auto simp: seg_get_def)
  next
    assume r: "seg_get d i \<noteq> None \<and> unat i < 10000"
    then obtain c where "(segment_path i, c) \<in> set d"
      by (auto simp: seg_get_def dest: map_of_SomeD)
    then show "i \<in> set (listing f d)"
      using r f [of i] by (force simp: listing_def List.map_filter_def)
  qed
  then show "set (listing f d) = {i. seg_get d i \<noteq> None \<and> unat i < 10000}" by auto
qed

lemma dir_indices:
  assumes "dir_wf d"
  shows "sorted_wrt (<) (list_segment_indices d)"
    and "set (list_segment_indices d) = {i. seg_get d i \<noteq> None \<and> unat i < 10000}"
proof -
  let ?f = "\<lambda>name. if valid_utf8 name then parse_segment_filename name else None"
  have eq: "list_segment_indices d = listing ?f d" by (simp add: list_segment_indices_def listing_def)
  have wf: "distinct (map fst d)"
    "\<And>name c i. (name, c) \<in> set d \<Longrightarrow> ?f name = Some i \<Longrightarrow> name = segment_path i"
    using assms by (auto simp: dir_wf_def split: if_splits)
  have f: "?f (segment_path i) = (if unat i < 10000 then Some i else None)" for i
    by (simp add: parse_segment_path parse_segment_path_large)
  note li = listing_indices [of d ?f, OF wf(1)]
  show "sorted_wrt (<) (list_segment_indices d)" unfolding eq by (rule li(1)) (use wf(2) f in blast)+
  show "set (list_segment_indices d) = {i. seg_get d i \<noteq> None \<and> unat i < 10000}"
    unfolding eq by (rule li(2)) (use wf(2) f in blast)+
qed

interpretation store: segment_store seg_put seg_get list_segment_indices dir_wf
proof
  show "seg_get (seg_put i c d) = (seg_get d)(i \<mapsto> c)" for i c d
    by (rule ext) (simp add: seg_get_def seg_put_def dir_get_put)
qed (use dir_wf_put dir_indices in auto)

end
