(* ===== verification/Timestamps.thy ===== *)
theory Timestamps
  imports Text "HOL-Library.Signed_Division"
begin

text \<open>
  Timestamps: the verifier's \<^verbatim>\<open>parse_ts_ms\<close> and \<^verbatim>\<open>days_from_civil\<close> and the writer's
  \<^verbatim>\<open>bump_ts_ms\<close>. The \<^verbatim>\<open>u32\<close> arithmetic of \<^verbatim>\<open>days_from_civil\<close> wraps (release profile); the
  \<^verbatim>\<open>i64\<close> results are \<open>int\<close>, and \<open>parse_ts_ms_bound\<close> shows that no intermediate value leaves
  \<^verbatim>\<open>i64\<close>. \<open>civil_days\<close> is the Gregorian calendar counted year by year and month by month.
\<close>

definition days_from_civil :: "int \<Rightarrow> u32 \<Rightarrow> u32 \<Rightarrow> int" where
  "days_from_civil year month day =
     (let y = (if month \<le> 2 then year - 1 else year);
          era = (if 0 \<le> y then y else y - 399) sdiv 400;
          yoe = of_int (y - era * 400) :: u32;
          m = month;
          doy = (153 * (if 2 < m then m - 3 else m + 9) + 2) div 5 + day - 1;
          doe = yoe * 365 + yoe div 4 - yoe div 100 + doy
      in era * 146097 + int (unat doe) - 719468)"

text \<open>The closure \<^verbatim>\<open>parse\<close> of \<^verbatim>\<open>parse_ts_ms\<close>.\<close>

definition ts_field :: "bytes \<Rightarrow> nat \<Rightarrow> nat \<Rightarrow> int" where
  "ts_field b from len =
     (if valid_utf8 (slice b from len)
      then (case parse_i64 (slice b from len) of None \<Rightarrow> 0 | Some n \<Rightarrow> n) else 0)"

definition parse_ts_ms :: "bytes \<Rightarrow> int" where
  "parse_ts_ms s =
     (if length s \<noteq> 24 then 0
      else
        let year = ts_field s 0 4;
            month = of_int (ts_field s 5 2) :: u32;
            day = of_int (ts_field s 8 2) :: u32;
            hour = ts_field s 11 2;
            minute = ts_field s 14 2;
            second = ts_field s 17 2;
            ms = ts_field s 20 3
        in days_from_civil year month day * 86400000 + hour * 3600000 + minute * 60000
           + second * 1000 + ms)"

text \<open>\<open>None\<close> is the panic of slicing inside a character.\<close>

definition bump_ts_ms :: "bytes \<Rightarrow> bytes option" where
  "bump_ts_ms ts =
     (if length ts \<noteq> 24 then Some ts
      else
        let ms_str = (if valid_utf8 (slice ts 20 3) then slice ts 20 3 else ascii ''000'');
            ms = (case parse_uint 10 (2 ^ 32 - 1) ms_str of None \<Rightarrow> 0 | Some n \<Rightarrow> n)
        in if ms < 999
           then map_option (\<lambda>p. p @ pad_dec 3 (ms + 1) @ ascii ''Z'') (str_slice ts 0 20)
           else Some ts)"

section \<open>The Gregorian calendar\<close>

definition is_leap :: "nat \<Rightarrow> bool" where
  "is_leap y \<longleftrightarrow> (4 dvd y \<and> \<not> 100 dvd y) \<or> 400 dvd y"

primrec days_to_year :: "nat \<Rightarrow> int" where
  "days_to_year 0 = - 719528"
| "days_to_year (Suc y) = days_to_year y + (if is_leap y then 366 else 365)"

definition month_lengths :: "nat \<Rightarrow> int list" where
  "month_lengths y = [31, if is_leap y then 29 else 28, 31, 30, 31, 30, 31, 31, 30, 31, 30, 31]"

text \<open>Days between 1970-01-01 and the day \<open>d\<close> of month \<open>m\<close> of year \<open>y\<close>.\<close>

definition civil_days :: "nat \<Rightarrow> nat \<Rightarrow> nat \<Rightarrow> int" where
  "civil_days y m d = days_to_year y + sum_list (take (m - 1) (month_lengths y)) + int d - 1"

lemma ceil_div_step:
  assumes "0 < k"
  shows "(Suc y + (k - 1)) div k = (y + (k - 1)) div k + (if k dvd y then 1 else 0)"
proof -
  define q r where "q = y div k" and "r = y mod k"
  have y: "y = r + k * q" and r: "r < k" using assms by (simp_all add: q_def r_def)
  have "(Suc y + (k - 1)) div k = Suc q"
    using assms r y by (simp add: div_add_self2 [of k] flip: q_def)
  moreover have "(y + (k - 1)) div k = (r + (k - 1)) div k + q"
  proof -
    have "y + (k - 1) = (r + (k - 1)) + k * q" by (simp only: y add_ac)
    then show ?thesis using assms by (simp only: div_mult_self2)
  qed
  moreover have "(r + (k - 1)) div k = (if r = 0 then 0 else 1)"
  proof (cases r)
    case (Suc n)
    then have "r + (k - 1) = n + k" using assms by simp
    moreover have "(n + k) div k = Suc (n div k)" using assms by (simp add: div_add_self2)
    ultimately show ?thesis using Suc r by simp
  qed (use assms in simp)
  moreover have "k dvd y \<longleftrightarrow> r = 0" by (simp add: r_def dvd_eq_mod_eq_0)
  ultimately show ?thesis by simp
qed

lemma days_to_year_closed:
  "days_to_year y = 365 * int y + int ((y + 3) div 4) - int ((y + 99) div 100)
     + int ((y + 399) div 400) - 719528"
proof (induction y)
  case (Suc y)
  have step: "(Suc y + 3) div 4 = (y + 3) div 4 + (if 4 dvd y then 1 else 0)"
    "(Suc y + 99) div 100 = (y + 99) div 100 + (if 100 dvd y then 1 else 0)"
    "(Suc y + 399) div 400 = (y + 399) div 400 + (if 400 dvd y then 1 else 0)"
    using ceil_div_step [of 4 y] ceil_div_step [of 100 y] ceil_div_step [of 400 y] by simp_all
  have "400 dvd y \<Longrightarrow> 100 dvd y" by (rule dvd_trans [of 100 400]) simp_all
  moreover have "100 dvd y \<Longrightarrow> 4 dvd y" by (rule dvd_trans [of 4 100]) simp_all
  ultimately show ?case
    unfolding step days_to_year.simps Suc is_leap_def by (cases "4 dvd y"; cases "100 dvd y"; cases "400 dvd y") simp_all
qed simp

text \<open>The days of 400 years starting in March, as the code counts them.\<close>

lemma days_to_year_era:
  assumes "z = 400 * e + r" "r < 400"
  shows "365 * int z + int (z div 4) - int (z div 100) + int (z div 400)
    = int e * 146097 + (int r * 365 + int (r div 4) - int (r div 100))"
proof -
  have "z = r + (100 * e) * 4" "z = r + (4 * e) * 100" "z = r + e * 400" using assms by simp_all
  then have "z div 4 = 100 * e + r div 4" "z div 100 = 4 * e + r div 100" "z div 400 = e"
    using assms(2) by (simp_all only: div_mult_self1 div_mult_self3)
  then show ?thesis using assms by simp
qed

definition month_offset :: "nat \<Rightarrow> nat" where
  "month_offset m = (153 * (if 2 < m then m - 3 else m + 9) + 2) div 5"

lemma unat_of_nat32: "n < 4294967296 \<Longrightarrow> unat (of_nat n :: u32) = n"
  by (simp add: unat_of_nat)

lemma days_from_civil_nat:
  assumes "1 \<le> m" "m \<le> 12" "1 \<le> d" "d \<le> 31" and y: "y = (if m \<le> 2 then year - 1 else year)"
    and "m \<le> 2 \<longrightarrow> 1 \<le> year"
  shows "days_from_civil (int year) (of_nat m) (of_nat d) =
    int (y div 400) * 146097 + (int (y mod 400) * 365 + int (y mod 400 div 4) - int (y mod 400 div 100))
    + int (month_offset m) + int d - 1 - 719468"
proof -
  let ?yoe = "of_nat (y mod 400) :: u32"
  have m: "unat (of_nat m :: u32) = m" and d: "unat (of_nat d :: u32) = d"
    using assms by (simp_all add: unat_of_nat32)
  have le2: "(of_nat m :: u32) \<le> 2 \<longleftrightarrow> m \<le> 2" using m by (simp add: word_le_nat_alt)
  have lt2: "(2 :: u32) < of_nat m \<longleftrightarrow> 2 < m" using m by (simp add: word_less_nat_alt)
  have y': "(if (of_nat m :: u32) \<le> 2 then int year - 1 else int year) = int y"
    using assms by (simp add: le2 of_nat_diff)
  have era: "int y sdiv 400 = int (y div 400)"
    by (simp add: signed_divide_int_def zdiv_int sgn_if)
  have yoe: "of_int (int y - int (y div 400) * 400) = ?yoe"
    by (metis mult.commute minus_mult_div_eq_mod of_int_of_nat_eq of_nat_mod of_nat_numeral zdiv_int)
  have r: "y mod 400 < 400" by simp
  have ur: "unat ?yoe = y mod 400" using r by (simp add: unat_of_nat32)
  define q where "q = (if 2 < m then m - 3 else m + 9)"
  have q: "q \<le> 11" using assms by (auto simp: q_def)
  have mq: "(if (2 :: u32) < of_nat m then of_nat m - 3 else of_nat m + 9) = (of_nat q :: u32)"
    using assms by (simp add: lt2 q_def of_nat_diff)
  have e: "153 * of_nat q + 2 = (of_nat (153 * q + 2) :: u32)" by simp
  have "unat ((153 * of_nat q + 2) div 5 :: u32) = (153 * q + 2) div 5"
    using q unfolding e unat_div by (simp only: unat_of_nat32) (simp add: unat_of_nat32 del: of_nat_add of_nat_mult of_nat_Suc)
  then have "unat ((153 * of_nat q + 2) div 5 :: u32) = month_offset m"
    by (simp add: month_offset_def q_def)
  have bounds: "month_offset m \<le> 337" using q by (simp add: month_offset_def q_def)
  have doy: "(153 * of_nat q + 2) div 5 = (of_nat (month_offset m) :: u32)"
    using bounds \<open>unat _ = month_offset m\<close> by (simp add: word_unat_eq_iff unat_of_nat32)
  have dv: "?yoe div 4 = of_nat (y mod 400 div 4)" "?yoe div 100 = of_nat (y mod 400 div 100)"
    by (simp_all add: word_unat_eq_iff unat_div ur unat_of_nat32 less_imp_diff_less)
  have le: "y mod 400 div 100 \<le> y mod 400 * 365 + y mod 400 div 4" by simp
  have sum: "?yoe * 365 + ?yoe div 4 - ?yoe div 100 + (of_nat (month_offset m) + of_nat d - 1)
    = of_nat (y mod 400 * 365 + y mod 400 div 4 - y mod 400 div 100 + month_offset m + d - 1)"
    using assms(3,4) le by (simp add: dv of_nat_diff)
  have "y mod 400 * 365 + y mod 400 div 4 - y mod 400 div 100 + month_offset m + d - 1 < 4294967296"
    using r bounds assms by linarith
  then have "days_from_civil (int year) (of_nat m) (of_nat d) = int (y div 400) * 146097
      + int (y mod 400 * 365 + y mod 400 div 4 - y mod 400 div 100 + month_offset m + d - 1) - 719468"
    by (simp only: days_from_civil_def Let_def y' mq doy of_nat_0_le_iff if_True era yoe sum
        unat_of_nat32)
  then show ?thesis using le assms(3,4) by (simp add: of_nat_diff)
qed

text \<open>The code's date arithmetic is the calendar.\<close>

lemma month_offset_table:
  "month_offset (Suc 0) = 306" "month_offset 1 = 306" "month_offset 2 = 337" "month_offset 3 = 0" "month_offset 4 = 31"
  "month_offset 5 = 61" "month_offset 6 = 92" "month_offset 7 = 122" "month_offset 8 = 153"
  "month_offset 9 = 184" "month_offset 10 = 214" "month_offset 11 = 245" "month_offset 12 = 275"
  by (simp_all add: month_offset_def)

lemma leap_days:
  "days_to_year (Suc z) = 365 * int z + int (z div 4) - int (z div 100) + int (z div 400) - 719162"
proof -
  have "(Suc z + 3) div 4 = z div 4 + 1" "(Suc z + 99) div 100 = z div 100 + 1"
    "(Suc z + 399) div 400 = z div 400 + 1" by simp_all
  then show ?thesis by (simp only: days_to_year_closed) simp
qed

lemma days_from_civil_correct:
  assumes "1 \<le> m" "m \<le> 12" "1 \<le> d" "d \<le> 31" "m \<le> 2 \<longrightarrow> 1 \<le> year"
  shows "days_from_civil (int year) (of_nat m) (of_nat d) = civil_days year m d"
proof -
  define z where "z = (if m \<le> 2 then year - 1 else year)"
  have "z = 400 * (z div 400) + z mod 400" "z mod 400 < 400" by simp_all
  note era = days_to_year_era [OF this]
  have e: "days_from_civil (int year) (of_nat m) (of_nat d) =
    days_to_year (Suc z) + int (month_offset m) + int d - 307"
    using days_from_civil_nat [OF assms(1-4) z_def assms(5)] era leap_days [of z] by linarith
  show ?thesis
  proof (cases "m \<le> 2")
    case True
    then have "Suc z = year" using assms(5) by (simp add: z_def)
    moreover have "m = 1 \<or> m = 2" using True assms(1) by linarith
    ultimately show ?thesis unfolding e civil_days_def
      by (auto simp: month_offset_table month_lengths_def)
  next
    case False
    then have "z = year" by (simp add: z_def)
    moreover have "m \<in> {3, 4, 5, 6, 7, 8, 9, 10, 11, 12}" using False assms(2) by (simp, presburger)
    ultimately show ?thesis unfolding e civil_days_def
      by (auto simp: month_offset_table month_lengths_def)
  qed
qed

section \<open>Printed timestamps\<close>

text \<open>The RFC 3339 form \<^verbatim>\<open>YYYY-MM-DDTHH:MM:SS.mmmZ\<close>.\<close>

definition ts_text :: "nat \<Rightarrow> nat \<Rightarrow> nat \<Rightarrow> nat \<Rightarrow> nat \<Rightarrow> nat \<Rightarrow> nat \<Rightarrow> bytes" where
  "ts_text y mo d h mi s ms =
     pad_dec 4 y @ [45] @ pad_dec 2 mo @ [45] @ pad_dec 2 d @ [84] @ pad_dec 2 h @ [58]
     @ pad_dec 2 mi @ [58] @ pad_dec 2 s @ [46] @ pad_dec 3 ms @ [90]"

definition ts_ms :: "nat \<Rightarrow> nat \<Rightarrow> nat \<Rightarrow> nat \<Rightarrow> nat \<Rightarrow> nat \<Rightarrow> nat \<Rightarrow> int" where
  "ts_ms y mo d h mi s ms =
     civil_days y mo d * 86400000 + int h * 3600000 + int mi * 60000 + int s * 1000 + int ms"

definition ts_valid :: "nat \<Rightarrow> nat \<Rightarrow> nat \<Rightarrow> nat \<Rightarrow> nat \<Rightarrow> nat \<Rightarrow> nat \<Rightarrow> bool" where
  "ts_valid y mo d h mi s ms \<longleftrightarrow> y < 10000 \<and> 1 \<le> mo \<and> mo \<le> 12 \<and> 1 \<le> d \<and> d \<le> 31 \<and>
     h < 100 \<and> mi < 100 \<and> s < 100 \<and> ms < 1000 \<and> (mo \<le> 2 \<longrightarrow> 1 \<le> y)"

lemma pad_dec_ascii: "b \<in> set (pad_dec w n) \<Longrightarrow> b < 128"
  using set_pad_dec by (fastforce simp: word_less_nat_alt unat_digit_char)

lemma pad_dec_head: "\<exists>c cs. pad_dec w n = c # cs \<and> c \<noteq> 43 \<and> c \<noteq> 45"
proof -
  obtain c cs where c: "pad_dec w n = c # cs" by (cases "pad_dec w n") auto
  then show ?thesis using set_pad_dec [of c w n] digit_char_not_sign by auto
qed

lemma parse_uint_pad_dec [codec]: "n \<le> m \<Longrightarrow> parse_uint 10 m (pad_dec w n) = Some n"
  using pad_dec_head [of w n] parse_pad_dec [of n m w] by (auto simp: parse_uint_def)

lemma parse_i64_pad_dec [codec]: "n < 10000 \<Longrightarrow> parse_i64 (pad_dec w n) = Some (int n)"
  using pad_dec_head [of w n] parse_uint_pad_dec [of n "2 ^ 63 - 1" w]
  by (auto simp: parse_i64_def)

lemma ts_field_pad_dec:
  "slice b i k = pad_dec w n \<Longrightarrow> n < 10000 \<Longrightarrow> ts_field b i k = int n"
  using valid_utf8_ascii [of "pad_dec w n"] pad_dec_ascii by (simp add: ts_field_def parse_i64_pad_dec)

lemma length_ts_text [simp]: "ts_valid y mo d h mi s ms \<Longrightarrow> length (ts_text y mo d h mi s ms) = 24"
  by (simp add: ts_valid_def ts_text_def length_pad_dec)

lemma ts_text_slices:
  assumes "ts_valid y mo d h mi s ms"
  defines "t \<equiv> ts_text y mo d h mi s ms"
  shows "slice t 0 4 = pad_dec 4 y" "slice t 5 2 = pad_dec 2 mo" "slice t 8 2 = pad_dec 2 d"
    "slice t 11 2 = pad_dec 2 h" "slice t 14 2 = pad_dec 2 mi" "slice t 17 2 = pad_dec 2 s"
    "slice t 20 3 = pad_dec 3 ms"
  using assms(1) unfolding t_def ts_text_def slice_def ts_valid_def
  by (simp_all add: length_pad_dec)

lemma parse_ts_text:
  assumes "ts_valid y mo d h mi s ms"
  shows "parse_ts_ms (ts_text y mo d h mi s ms) = ts_ms y mo d h mi s ms"
proof -
  note sl = ts_text_slices [OF assms]
  have "y < 10000" "mo < 10000" "d < 10000" "h < 10000" "mi < 10000" "s < 10000" "ms < 10000"
    using assms by (simp_all add: ts_valid_def)
  note f = this [THEN ts_field_pad_dec [rotated]]
  have "days_from_civil (int y) (of_nat mo) (of_nat d) = civil_days y mo d"
    using assms by (intro days_from_civil_correct) (simp_all add: ts_valid_def)
  then show ?thesis using assms
    by (simp add: parse_ts_ms_def f(1) [OF sl(1)] f(2) [OF sl(2)] f(3) [OF sl(3)] f(4) [OF sl(4)] f(5) [OF sl(5)]
        f(6) [OF sl(6)] f(7) [OF sl(7)] ts_ms_def)
qed

lemma ts_text_ascii: "b \<in> set (ts_text y mo d h mi s ms) \<Longrightarrow> b < 128"
  by (auto simp: ts_text_def pad_dec_ascii)

lemma bump_ts_text:
  assumes "ts_valid y mo d h mi s ms"
  shows "bump_ts_ms (ts_text y mo d h mi s ms) =
    Some (if ms < 999 then ts_text y mo d h mi s (ms + 1) else ts_text y mo d h mi s ms)"
proof -
  let ?t = "ts_text y mo d h mi s ms"
  note sl = ts_text_slices [OF assms]
  have len: "length ?t = 24" using assms by simp
  have u: "valid_utf8 (pad_dec 3 ms)" by (rule valid_utf8_ascii) (use pad_dec_ascii in blast)
  have "ms \<le> 2 ^ 32 - 1" using assms by (simp add: ts_valid_def)
  then have p: "parse_uint 10 (2 ^ 32 - 1) (pad_dec 3 ms) = Some ms" by (rule parse_uint_pad_dec)
  have "?t ! 20 \<in> set ?t" using len by simp
  then have "?t ! 20 < 128" by (rule ts_text_ascii)
  then have "\<not> is_cont (?t ! 20)" by (auto simp: is_cont_def not_le)
  then have "str_slice ?t 0 20 = Some (slice ?t 0 20)"
    using len by (simp add: str_slice_def is_char_boundary_def)
  moreover have "slice ?t 0 20 = pad_dec 4 y @ [45] @ pad_dec 2 mo @ [45] @ pad_dec 2 d @ [84]
      @ pad_dec 2 h @ [58] @ pad_dec 2 mi @ [58] @ pad_dec 2 s @ [46]"
    using assms unfolding ts_text_def slice_def ts_valid_def by (simp add: length_pad_dec)
  ultimately show ?thesis
    using p u len by (simp add: bump_ts_ms_def sl(7)) (simp add: ts_text_def ascii_def)
qed

section \<open>No 64-bit overflow\<close>

lemma to_digit_less: "to_digit r c = Some d \<Longrightarrow> d < r"
  by (auto simp: to_digit_def Let_def split: if_splits)

lemma parse_digits_less:
  "parse_digits r m acc s = Some n \<Longrightarrow> n < (acc + 1) * r ^ length s"
proof (induction r m acc s arbitrary: n rule: parse_digits.induct)
  case (2 r m acc c cs)
  then obtain d where d: "to_digit r c = Some d" "parse_digits r m (acc * r + d) cs = Some n"
    "acc * r + d \<le> m"
    by (auto split: option.splits if_splits)
  then have "n < (acc * r + d + 1) * r ^ length cs" by (intro "2.IH") auto
  also have "\<dots> \<le> ((acc + 1) * r) * r ^ length cs"
    using to_digit_less [OF d(1)] by (intro mult_le_mono1) simp
  finally show ?case by (simp add: algebra_simps)
qed simp

lemma ts_field_bound:
  assumes "k \<le> 4"
  shows "\<bar>ts_field b i k\<bar> < 10000"
proof -
  have dig: "n < 10000" if "parse_digits 10 m 0 s = Some n" "length s \<le> 4" for m s n
  proof -
    have "n < 10 ^ length s" using parse_digits_less [OF that(1)] by simp
    also have "\<dots> \<le> (10 :: nat) ^ 4" using that(2) by (intro power_increasing) auto
    finally show ?thesis by simp
  qed
  have "n < 10000" if "parse_uint 10 m s = Some n" "length s \<le> 4" for m s n
    using that dig [of m s n] dig [of m "tl s" n]
    by (auto simp: parse_uint_def split: list.splits if_splits)
  then have "\<bar>v\<bar> < 10000" if "parse_i64 s = Some v" "length s \<le> 4" for s v
    using that dig [of "2 ^ 63" "tl s"]
    by (fastforce simp: parse_i64_def split: list.splits if_splits)
  moreover have "length (slice b i k) \<le> 4" using assms by simp
  ultimately show ?thesis by (auto simp: ts_field_def split: option.splits)
qed

lemma unat_u32_bound: "unat (w :: u32) < 4294967296"
  using unsigned_less [of w] by simp

lemma days_from_civil_bound:
  assumes "\<bar>year\<bar> < 10000"
  shows "\<bar>days_from_civil year m d\<bar> < 5000000000"
proof -
  define y where "y = (if m \<le> 2 then year - 1 else year)"
  define era where "era = (if 0 \<le> y then y else y - 399) sdiv 400"
  have y: "- 10001 < y" "y < 10000" using assms by (auto simp: y_def)
  have "\<bar>era\<bar> \<le> 26"
  proof (cases "0 \<le> y")
    case True
    then have "era = y div 400" by (simp add: era_def signed_divide_int_def sgn_if)
    then show ?thesis using True y by linarith
  next
    case False
    then have "era = - ((399 - y) div 400)" by (simp add: era_def signed_divide_int_def sgn_if)
    then show ?thesis using False y by linarith
  qed
  moreover have "int (unat (w :: u32)) < 4294967296" for w
    using unat_u32_bound [of w] by linarith
  moreover have "0 \<le> int (unat (w :: u32))" for w by simp
  ultimately have "\<bar>era * 146097 + int (unat (w :: u32)) - 719468\<bar> < 5000000000" for w
    by (smt (verit))
  then show ?thesis unfolding days_from_civil_def Let_def y_def [symmetric] era_def [symmetric] by blast
qed

lemma parse_ts_ms_bound: "\<bar>parse_ts_ms s\<bar> < 2 ^ 62"
proof -
  have "\<bar>days_from_civil (ts_field s 0 4) m d\<bar> < 5000000000" for m d
    by (rule days_from_civil_bound) (simp add: ts_field_bound)
  then have d: "\<bar>days_from_civil (ts_field s 0 4) (of_int (ts_field s 5 2)) (of_int (ts_field s 8 2))\<bar>
    < 5000000000" .
  have f: "\<bar>ts_field s 11 2\<bar> < 10000" "\<bar>ts_field s 14 2\<bar> < 10000" "\<bar>ts_field s 17 2\<bar> < 10000"
    "\<bar>ts_field s 20 3\<bar> < 10000" by (simp_all add: ts_field_bound)
  show ?thesis
  proof (cases "length s = 24")
    case True
    then show ?thesis using d f unfolding parse_ts_ms_def Let_def by simp
  qed (simp add: parse_ts_ms_def)
qed

end
