(* ===== verification/Writer.thy ===== *)
theory Writer
  imports Records Log_Dir Timestamps
begin

text \<open>
  The append-only writer (\<^verbatim>\<open>writer.rs\<close>): its state, the segment files it creates, and the
  operations \<^verbatim>\<open>append\<close>, \<^verbatim>\<open>append_framed\<close> and \<^verbatim>\<open>rollover\<close>. An operation maps the writer and
  the directory to the new writer, the new directory and a result; what was written
  before an error or a panic stays written. \<^verbatim>\<open>full_sync\<close> and \<^verbatim>\<open>flush\<close> change neither.
  Byte counts (\<^verbatim>\<open>u64\<close> in the code) are \<open>nat\<close>: a file has fewer than \<open>2 ^ 63\<close> bytes.
\<close>

record writer_config =
  cfg_segment_size_bytes :: nat
  cfg_finalize_on_rollover :: bool

definition DEFAULT_SEGMENT_SIZE_BYTES :: nat where
  "DEFAULT_SEGMENT_SIZE_BYTES = 64 * 1024 * 1024"

definition default_config :: writer_config where
  "default_config =
     \<lparr>cfg_segment_size_bytes = DEFAULT_SEGMENT_SIZE_BYTES, cfg_finalize_on_rollover = True\<rparr>"

datatype recovery_failure =
    RecHeaderCorrupt u16 header_parse_error
  | RecHmacMismatch u16 u64 nat
  | RecChainBreak u16 u64 nat
  | RecKeyIdMismatch u16 bytes bytes

text \<open>\<open>Io\<close> is a file that is not there.\<close>

datatype writer_error = Io | InvalidInput | Recovery recovery_failure

datatype recovery_action = Fresh | Resumed | Repaired | OpenedNextAfterFinalized

record recovery_report =
  rep_action :: recovery_action
  rep_current_segment_index :: u16
  rep_last_record_id :: "u64 option"
  rep_records_in_current_segment :: u64
  rep_truncated_bytes :: nat
  rep_segments_scanned :: u16
  rep_last_hmac :: bytes

text \<open>\<open>st_pos\<close> is the position of the file handle \<^verbatim>\<open>file\<close>.\<close>

record segment_state =
  st_index :: u16
  st_pos :: nat
  st_bytes_written :: nat
  st_last_hmac :: bytes
  st_next_record_id :: u64
  st_record_count :: u64
  st_last_ts_wall :: bytes
  st_last_ts_mono_delta :: u64

record writer =
  w_key :: key_handle
  w_session_id :: bytes
  w_config :: writer_config
  w_current :: segment_state
  w_recovery :: recovery_report

section \<open>Segment files\<close>

text \<open>\<^verbatim>\<open>write_all\<close> on the open handle; a file unlinked meanwhile is no longer in the directory.\<close>

definition handle_write :: "segment_state \<Rightarrow> bytes \<Rightarrow> dir \<Rightarrow> segment_state \<times> dir" where
  "handle_write st data d =
     (st\<lparr>st_pos := st_pos st + length data\<rparr>,
      case seg_get d (st_index st) of None \<Rightarrow> d
      | Some content \<Rightarrow> seg_put (st_index st) (write_at (st_pos st) data content) d)"

text \<open>A handle opened with \<^verbatim>\<open>create(true).truncate(true)\<close>, with the fields of a new segment.\<close>

definition open_truncated :: "u16 \<Rightarrow> bytes \<Rightarrow> dir \<Rightarrow> segment_state \<times> dir" where
  "open_truncated index last_hmac d =
     (\<lparr>st_index = index, st_pos = 0, st_bytes_written = HEADER_TOTAL_LEN, st_last_hmac = last_hmac,
       st_next_record_id = 0, st_record_count = 0, st_last_ts_wall = [], st_last_ts_mono_delta = 0\<rparr>,
      seg_put index [] d)"

definition segment_create :: "(bytes \<Rightarrow> u32) \<Rightarrow> u16 \<Rightarrow> bytes \<Rightarrow> dir \<Rightarrow> segment_state \<times> dir" where
  "segment_create crc index key_id d =
     (let (st, d1) = open_truncated index (replicate HMAC_LEN 0) d
      in handle_write st (header_to_bytes crc (header_genesis key_id)) d1)"

definition segment_create_next ::
  "(bytes \<Rightarrow> u32) \<Rightarrow> u16 \<Rightarrow> bytes \<Rightarrow> bytes \<Rightarrow> dir \<Rightarrow> segment_state \<times> dir" where
  "segment_create_next crc index key_id prev_final d =
     (let (st, d1) = open_truncated index prev_final d
      in handle_write st (header_to_bytes crc (header_next index key_id prev_final)) d1)"

section \<open>The records the writer synthesises\<close>

definition validate_input :: "record_input \<Rightarrow> (unit, writer_error) result" where
  "validate_input input =
     (if in_ts_wall input = [] \<or> last (in_ts_wall input) \<noteq> 90 then Err InvalidInput
      else if length (in_ts_wall input) \<noteq> 24 then Err InvalidInput
      else Ok ())"

definition SEGMENT_FINALIZED :: bytes where
  "SEGMENT_FINALIZED = ascii ''segment.finalized''"

definition saturating_add1 :: "u64 \<Rightarrow> u64" where
  "saturating_add1 n = (if n = - 1 then n else n + 1)"

definition assemble_finalize_input_from_last ::
  "bytes \<Rightarrow> u64 \<Rightarrow> u64 \<Rightarrow> bytes \<Rightarrow> record_input option" where
  "assemble_finalize_input_from_last last_ts_wall last_ts_mono_delta record_count last_hmac =
     map_option (\<lambda>ts.
       \<lparr>in_ts_wall = ts,
        in_ts_mono_delta = saturating_add1 last_ts_mono_delta,
        in_actor = ascii ''system:audit'',
        in_event = SEGMENT_FINALIZED,
        in_payload = [(ascii ''final_hash'', PBytes last_hmac), (ascii ''records'', PUint record_count)],
        in_schema_version = 1\<rparr>)
     (bump_ts_ms last_ts_wall)"

definition estimate_finalize_size :: "record_input \<Rightarrow> bytes \<Rightarrow> bytes \<Rightarrow> nat option" where
  "estimate_finalize_size anchor session_id key_id =
     Option.bind (assemble_finalize_input_from_last (in_ts_wall anchor) (in_ts_mono_delta anchor)
         (- 1) (replicate HMAC_LEN 0)) (\<lambda>finalize.
       map_option (\<lambda>payload_bytes. RECORD_FRAMING_OVERHEAD + length payload_bytes)
         (encode_record_payload finalize session_id key_id (replicate HMAC_LEN 0) (- 1)))"

section \<open>Operations\<close>

definition append_framed :: "bytes \<Rightarrow> bytes \<Rightarrow> u64 \<Rightarrow> writer \<times> dir \<Rightarrow> writer \<times> dir" where
  "append_framed payload ts_wall ts_mono_delta wd =
     (let w = fst wd;
          hmac = kh_sign (w_key w) payload;
          framed = frame_record payload hmac;
          (st, d) = handle_write (w_current w) framed (snd wd)
      in (w\<lparr>w_current := st\<lparr>st_bytes_written := st_bytes_written st + length framed,
              st_last_hmac := hmac,
              st_next_record_id := st_next_record_id st + 1,
              st_record_count := st_record_count st + 1,
              st_last_ts_wall := ts_wall,
              st_last_ts_mono_delta := ts_mono_delta\<rparr>\<rparr>, d))"

definition rollover ::
  "(bytes \<Rightarrow> u32) \<Rightarrow> writer \<times> dir \<Rightarrow> (writer \<times> dir) \<times> (unit, writer_error) result" where
  "rollover crc wd =
     (let w = fst wd; st = w_current w; key_id = kh_key_id (w_key w) in
      case assemble_finalize_input_from_last (st_last_ts_wall st) (st_last_ts_mono_delta st)
             (st_record_count st) (st_last_hmac st) of
        None \<Rightarrow> (wd, Panic)
      | Some finalize_input \<Rightarrow>
          (case encode_record_payload finalize_input (w_session_id w) key_id (st_last_hmac st)
                  (st_next_record_id st) of
             None \<Rightarrow> (wd, Panic)
           | Some finalize_payload \<Rightarrow>
               let (w1, d1) = append_framed finalize_payload (in_ts_wall finalize_input)
                     (in_ts_mono_delta finalize_input) wd;
                   prev_final = st_last_hmac (w_current w1);
                   index = st_index (w_current w1)
               in if index = - 1 then ((w1, d1), Err InvalidInput)
                  else
                    let (new_state, d2) = segment_create_next crc (index + 1) key_id prev_final d1
                    in ((w1\<lparr>w_current := new_state\<rparr>, d2), Ok ())))"

text \<open>The condition of the rollover in \<^verbatim>\<open>append\<close>; \<open>None\<close> where the estimate panics.\<close>

definition needs_rollover :: "writer \<Rightarrow> record_input \<Rightarrow> nat \<Rightarrow> bool option" where
  "needs_rollover w input estimated_framed_len =
     (if cfg_finalize_on_rollover (w_config w) \<and> 0 < st_record_count (w_current w)
      then map_option (\<lambda>finalize_size.
             cfg_segment_size_bytes (w_config w)
               < st_bytes_written (w_current w) + estimated_framed_len + finalize_size)
           (estimate_finalize_size input (w_session_id w) (kh_key_id (w_key w)))
      else Some False)"

definition append_after_rollover ::
  "record_input \<Rightarrow> writer \<times> dir \<Rightarrow> (writer \<times> dir) \<times> (u64, writer_error) result" where
  "append_after_rollover input wd =
     (let w = fst wd in
      case encode_record_payload input (w_session_id w) (kh_key_id (w_key w))
             (st_last_hmac (w_current w)) (st_next_record_id (w_current w)) of
        None \<Rightarrow> (wd, Panic)
      | Some payload_bytes \<Rightarrow>
          let wd' = append_framed payload_bytes (in_ts_wall input) (in_ts_mono_delta input) wd
          in (wd', Ok (st_next_record_id (w_current (fst wd')) - 1)))"

definition writer_append ::
  "(bytes \<Rightarrow> u32) \<Rightarrow> record_input \<Rightarrow> writer \<times> dir \<Rightarrow> (writer \<times> dir) \<times> (u64, writer_error) result" where
  "writer_append crc input wd =
     (let w = fst wd in
      case validate_input input of
        Err e \<Rightarrow> (wd, Err e)
      | Panic \<Rightarrow> (wd, Panic)
      | Ok u \<Rightarrow>
          (case encode_record_payload input (w_session_id w) (kh_key_id (w_key w))
                  (replicate HMAC_LEN 0) (- 1) of
             None \<Rightarrow> (wd, Panic)
           | Some estimated_payload \<Rightarrow>
               (case needs_rollover w input (RECORD_FRAMING_OVERHEAD + length estimated_payload) of
                  None \<Rightarrow> (wd, Panic)
                | Some True \<Rightarrow>
                    (case rollover crc wd of
                       (wd1, Err e) \<Rightarrow> (wd1, Err e)
                     | (wd1, Panic) \<Rightarrow> (wd1, Panic)
                     | (wd1, Ok v) \<Rightarrow> append_after_rollover input wd1)
                | Some False \<Rightarrow> append_after_rollover input wd)))"

end
