(* ===== verification/Framing.thy ===== *)
theory Framing
  imports Segment
begin

text \<open>
  A segment file is a header followed by record frames. The locale \<open>framing\<close> is what the
  readers of a segment promise about one frame (a whole frame is read back, a cut frame is
  reported as torn, nothing else is invented); what follows for sequences of frames, and
  for a sequence cut at an arbitrary byte by a crash, is proved once from it. The
  recovery scan, the verifier and the reader of format \<^verbatim>\<open>0x0001\<close> interpret it.
\<close>

locale framing =
  fixes frame :: "'r \<Rightarrow> bytes"
    and valid :: "'r \<Rightarrow> bool"
    and read_at :: "bytes \<Rightarrow> nat \<Rightarrow> 'r option"
  assumes frame_nonempty: "valid r \<Longrightarrow> frame r \<noteq> []"
    and read_frame: "valid r \<Longrightarrow> off \<le> length file \<Longrightarrow> drop off file = frame r @ rest \<Longrightarrow>
      read_at file off = Some r"
    and read_cut: "valid r \<Longrightarrow> off < length file \<Longrightarrow> drop off file = take k (frame r) \<Longrightarrow>
      k < length (frame r) \<Longrightarrow> read_at file off = None"
    and read_sound: "off < length file \<Longrightarrow> read_at file off = Some r \<Longrightarrow>
      valid r \<and> (\<exists>rest. drop off file = frame r @ rest)"
begin

lemma frame_inject:
  assumes "valid r" "valid s" "frame r @ x = frame s @ y"
  shows "r = s \<and> x = y"
proof -
  have "read_at (frame r @ x) 0 = Some r"
    using assms by (intro read_frame [of r 0 _ x]) auto
  moreover have "read_at (frame r @ x) 0 = Some s"
    using assms by (intro read_frame [of s 0 _ y]) auto
  ultimately show ?thesis using assms by simp
qed

lemma frames_inject:
  assumes "list_all valid rs" "list_all valid ss"
    and "concat (map frame rs) = concat (map frame ss)"
  shows "rs = ss"
  using assms
proof (induction rs arbitrary: ss)
  case Nil
  then show ?case using frame_nonempty by (cases ss) auto
next
  case (Cons r rs)
  then obtain s ts where ss: "ss = s # ts" using frame_nonempty by (cases ss) auto
  then have "r = s \<and> concat (map frame rs) = concat (map frame ts)"
    using Cons.prems by (intro frame_inject) auto
  then show ?case using Cons ss by simp
qed

text \<open>A byte string cut at byte \<open>n\<close>: whole frames, then at most one cut frame.\<close>

lemma frames_take:
  assumes "list_all valid rs"
  shows "\<exists>j t. j \<le> length rs \<and> take n (concat (map frame rs)) = concat (map frame (take j rs)) @ t \<and>
    (t = [] \<or> (j < length rs \<and> (\<exists>k. t = take k (frame (rs ! j)) \<and> 0 < k \<and> k < length (frame (rs ! j)))))"
  using assms
proof (induction rs arbitrary: n)
  case Nil
  then show ?case by simp
next
  case (Cons r rs)
  let ?cut = "\<lambda>rs j t. t = [] \<or>
    (j < length rs \<and> (\<exists>k. t = take k (frame (rs ! j)) \<and> 0 < k \<and> k < length (frame (rs ! j))))"
  show ?case
  proof (cases "n < length (frame r)")
    case True
    then have "?cut (r # rs) 0 (take n (frame r))" by (cases "n = 0") auto
    then show ?thesis using True
      by (intro exI [of _ 0] exI [of _ "take n (frame r)"]) simp
  next
    case False
    let ?m = "n - length (frame r)"
    have "list_all valid rs" using Cons.prems by simp
    from Cons.IH [OF this, of ?m] obtain j t where jt: "j \<le> length rs"
      "take ?m (concat (map frame rs)) = concat (map frame (take j rs)) @ t" and cut: "?cut rs j t"
      by blast
    from cut have "?cut (r # rs) (Suc j) t" by auto
    then show ?thesis using jt False
      by (intro exI [of _ "Suc j"] exI [of _ t]) simp
  qed
qed

end

section \<open>Frames of format 0x0001\<close>

definition rec_frame :: "bytes \<times> bytes \<Rightarrow> bytes" where
  "rec_frame r = frame_record (fst r) (snd r)"

text \<open>\<open>rec_valid m\<close>: the tag is an array of 32 bytes and the payload has at most \<open>m\<close> bytes.\<close>

definition rec_valid :: "nat \<Rightarrow> bytes \<times> bytes \<Rightarrow> bool" where
  "rec_valid m r \<longleftrightarrow> length (snd r) = 32 \<and> length (fst r) \<le> m"

definition u32_max :: nat where "u32_max = 2 ^ 32 - 1"

lemma rec_valid_mono: "rec_valid m r \<Longrightarrow> m \<le> n \<Longrightarrow> rec_valid n r"
  by (simp add: rec_valid_def)

lemma unat_len_prefix: "length p \<le> u32_max \<Longrightarrow> unat (of_nat (length p) :: u32) = length p"
  by (simp add: unat_of_nat u32_max_def)

lemma rec_frame_eq:
  "rec_valid u32_max r \<Longrightarrow>
   rec_frame r = le_bytes 4 (length (fst r)) @ fst r @ snd r @ le_bytes 4 (length (fst r))"
  by (simp add: rec_frame_def frame_record_def rec_valid_def unat_len_prefix Let_def)

lemma length_rec_frame: "rec_valid u32_max r \<Longrightarrow> length (rec_frame r) = 40 + length (fst r)"
  by (simp add: rec_frame_eq rec_valid_def)

lemma rec_frame_nonempty: "rec_frame r \<noteq> []"
  by (simp add: rec_frame_def frame_record_def Let_def flip: length_0_conv)

text \<open>The parts of a frame at offset \<open>off\<close>.\<close>

lemma rec_frame_at:
  assumes v: "rec_valid u32_max r" and off: "off \<le> length file"
    and d: "drop off file = rec_frame r @ rest"
  shows "unat (u32_at file off) = length (fst r)"
    "40 + length (fst r) \<le> length file - off"
    "slice file (off + 4) (length (fst r)) = fst r"
    "slice file (off + 4 + length (fst r)) 32 = snd r"
    "unat (u32_at file (off + 4 + length (fst r) + 32)) = length (fst r)"
proof -
  let ?l = "of_nat (length (fst r)) :: u32"
  have l: "unat ?l = length (fst r)" using v by (simp add: rec_valid_def unat_len_prefix)
  have m: "length (snd r) = 32" using v by (simp add: rec_valid_def)
  have d0: "drop off file = le_bytes 4 (unat ?l) @ fst r @ snd r @ le_bytes 4 (unat ?l) @ rest"
    using d v l by (simp add: rec_frame_eq)
  note d1 = drop_after [OF d0] and d2 = drop_after [OF drop_after [OF d0]]
    and d3 = drop_after [OF drop_after [OF drop_after [OF d0]]]
  show "unat (u32_at file off) = length (fst r)"
    using u32_at_le [OF slice_at [OF d0]] l by simp
  show "slice file (off + 4) (length (fst r)) = fst r"
    using slice_at [OF d1] by simp
  show "slice file (off + 4 + length (fst r)) 32 = snd r"
    using slice_at [OF d2] m by simp
  show "unat (u32_at file (off + 4 + length (fst r) + 32)) = length (fst r)"
    using u32_at_le [OF slice_at [OF d3]] l m by simp
  show "40 + length (fst r) \<le> length file - off"
    using drop_length_bound [OF d off] length_rec_frame [OF v] by simp
qed

lemma rec_frame_from_parts:
  assumes "off + 40 + n \<le> length file" and "unat (u32_at file off) = n"
    and "unat (u32_at file (off + 4 + n + 32)) = n"
  defines "r \<equiv> (slice file (off + 4) n, slice file (off + 4 + n) 32)"
  shows "rec_valid u32_max r" "drop off file = rec_frame r @ drop (off + 40 + n) file"
proof -
  have "n < 4294967296" using assms(2) unat_u32_less [of "u32_at file off"] by simp
  then show v: "rec_valid u32_max r" using assms(1) by (simp add: r_def rec_valid_def u32_max_def)
  have "drop off file = slice file off (40 + n) @ drop (off + 40 + n) file"
    using slice_drop_append [of off "40 + n" "file"] assms(1) by (simp add: add.assoc)
  also have "slice file off (40 + n) = slice file off 4 @ slice file (off + 4) n @
      slice file (off + 4 + n) 32 @ slice file (off + 4 + n + 32) 4"
    using slice_add [of "file" off 4 "36 + n"] slice_add [of "file" "off + 4" n 36]
      slice_add [of "file" "off + 4 + n" 32 4] by (simp add: add.commute add.left_commute)
  also have "slice file off 4 = le_bytes 4 n"
    using le_u32_at [of off "file"] assms by simp
  also have "slice file (off + 4 + n + 32) 4 = le_bytes 4 n"
    using le_u32_at [of "off + 4 + n + 32" "file"] assms by simp
  finally show "drop off file = rec_frame r @ drop (off + 40 + n) file"
    using v assms(1) by (simp add: rec_frame_eq) (simp add: r_def)
qed

text \<open>A frame cut short: either its length field is cut, or the length field promises more
  bytes than the file holds.\<close>

lemma rec_frame_cut:
  assumes v: "rec_valid u32_max r" and off: "off < length file"
    and d: "drop off file = take k (rec_frame r)" and k: "k < length (rec_frame r)"
  shows "length file - off < 4 \<or>
    (4 \<le> length file - off \<and> unat (u32_at file off) = length (fst r) \<and>
     length file - off < 40 + length (fst r))"
proof -
  have len: "length file - off = k"
    using arg_cong [OF d, of length] k by simp
  have "slice file off 4 = take 4 (rec_frame r)" if "4 \<le> k"
    using d that by (simp add: slice_def min_absorb2)
  then have "unat (u32_at file off) = length (fst r)" if "4 \<le> k"
    using that v u32_at_le [of "file" off "of_nat (length (fst r))"]
    by (simp add: rec_frame_eq rec_valid_def unat_len_prefix)
  then show ?thesis using len k length_rec_frame [OF v] by linarith
qed

end
