(* ===== verification/Recovery.thy ===== *)
theory Recovery
  imports Writer Cbor_Codec Framing Record_Codec
begin

text \<open>
  Crash recovery and \<^verbatim>\<open>Writer::open\<close> (\<^verbatim>\<open>writer.rs\<close>): the scan of the latest segment, which
  truncates a torn tail and refuses a log whose tags or links do not hold, and the four
  ways of resuming (fresh, resumed, repaired, next segment after a finalized one).
\<close>

section \<open>The scan\<close>

datatype framing_outcome = FramedOk bytes bytes nat | Torn

definition read_framed_record :: "bytes \<Rightarrow> nat \<Rightarrow> framing_outcome" where
  "read_framed_record content offset =
     (if length content - offset < 4 then Torn
      else
        let len_prefix = unat (u32_at content offset);
            framed_total = 4 + len_prefix + HMAC_LEN + 4
        in if length content - offset < framed_total then Torn
           else if 32 * 1024 * 1024 < len_prefix then Torn
           else
             let payload_bytes = slice content (offset + 4) len_prefix;
                 hmac = slice content (offset + 4 + len_prefix) HMAC_LEN;
                 len_trailer = unat (u32_at content (offset + 4 + len_prefix + HMAC_LEN))
             in if len_trailer \<noteq> len_prefix then Torn
                else FramedOk payload_bytes hmac framed_total)"

fun find_record_id :: "(cbor_value \<times> cbor_value) list \<Rightarrow> u64 option" where
  "find_record_id [] = None"
| "find_record_id ((VUint k, VUint n) # pairs) = (if k = 1 then Some n else find_record_id pairs)"
| "find_record_id (kv # pairs) = find_record_id pairs"

definition peek_record_id :: "bytes \<Rightarrow> (u64 option, writer_error) result" where
  "peek_record_id payload =
     (case decode payload of
        Ok (VMap pairs) \<Rightarrow> Ok (find_record_id pairs)
      | Ok v \<Rightarrow> Ok None
      | Err e \<Rightarrow> Ok None
      | Panic \<Rightarrow> Panic)"

record scan_result =
  sc_record_count :: u64
  sc_last_record_id :: "u64 option"
  sc_bytes_written :: nat
  sc_truncated_bytes :: nat
  sc_last_hmac :: bytes
  sc_last_ts_wall :: bytes
  sc_last_ts_mono_delta :: u64
  sc_last_record_was_finalize :: bool

text \<open>The checks on one framed record, in the order of the code.\<close>

definition scan_check ::
  "key_handle \<Rightarrow> u16 \<Rightarrow> scan_result \<Rightarrow> bytes \<Rightarrow> bytes \<Rightarrow> (recovered_record, writer_error) result" where
  "scan_check key seg_idx s payload_bytes hmac =
     (if \<not> ct_eq (kh_sign key payload_bytes) hmac then
        bind_res (peek_record_id payload_bytes) (\<lambda>peeked.
          let record_id = (case peeked of Some n \<Rightarrow> n
                | None \<Rightarrow> unwrap_or 0 (map_option (\<lambda>r. r + 1) (sc_last_record_id s)))
          in Err (Recovery (RecHmacMismatch seg_idx record_id (sc_bytes_written s))))
      else
        bind_res (map_err (\<lambda>e. InvalidInput) (decode payload_bytes)) (\<lambda>decoded.
        bind_res (map_err (\<lambda>e. InvalidInput) (parse_recovered_record decoded)) (\<lambda>parsed.
          if rr_prev_hash parsed \<noteq> sc_last_hmac s
          then Err (Recovery (RecChainBreak seg_idx (rr_record_id parsed) (sc_bytes_written s)))
          else Ok parsed)))"

definition scan_advance :: "scan_result \<Rightarrow> recovered_record \<Rightarrow> bytes \<Rightarrow> nat \<Rightarrow> scan_result" where
  "scan_advance s parsed hmac total_len =
     s\<lparr>sc_last_hmac := hmac,
       sc_last_record_id := Some (rr_record_id parsed),
       sc_last_ts_wall := rr_ts_wall parsed,
       sc_last_ts_mono_delta := rr_ts_mono_delta parsed,
       sc_last_record_was_finalize := (rr_event parsed = SEGMENT_FINALIZED),
       sc_record_count := sc_record_count s + 1,
       sc_bytes_written := sc_bytes_written s + total_len\<rparr>"

text \<open>The loop; \<open>sc_bytes_written\<close> is \<^verbatim>\<open>offset\<close> and \<open>sc_last_hmac\<close> is \<^verbatim>\<open>prev_hash\<close>. The
  second component is the file afterwards.\<close>

lemma framed_total_pos: "read_framed_record c off = FramedOk p h n \<Longrightarrow> 0 < n"
  by (auto simp: read_framed_record_def Let_def split: if_splits)

function scan_records ::
  "key_handle \<Rightarrow> u16 \<Rightarrow> bytes \<Rightarrow> scan_result \<Rightarrow> (scan_result \<times> bytes, writer_error) result" where
  "scan_records key seg_idx content s =
     (if length content \<le> sc_bytes_written s then Ok (s, content)
      else
        (case read_framed_record content (sc_bytes_written s) of
           Torn \<Rightarrow>
             Ok (s\<lparr>sc_truncated_bytes := length content - sc_bytes_written s\<rparr>,
                 take (sc_bytes_written s) content)
         | FramedOk payload_bytes hmac total_len \<Rightarrow>
             bind_res (scan_check key seg_idx s payload_bytes hmac) (\<lambda>parsed.
               scan_records key seg_idx content (scan_advance s parsed hmac total_len))))"
  by auto
termination
  by (relation "measure (\<lambda>(key, seg_idx, content, s). length content - sc_bytes_written s)")
    (auto simp: scan_advance_def dest: framed_total_pos)

declare scan_records.simps [simp del]

definition scan_segment_for_recovery ::
  "(bytes \<Rightarrow> u32) \<Rightarrow> key_handle \<Rightarrow> u16 \<Rightarrow> dir \<Rightarrow> (scan_result \<times> dir, writer_error) result" where
  "scan_segment_for_recovery crc key seg_idx d =
     (case seg_get d seg_idx of
        None \<Rightarrow> Err Io
      | Some content \<Rightarrow>
          if length content < HEADER_TOTAL_LEN
          then Err (Recovery (RecHeaderCorrupt seg_idx (TooShort (length content))))
          else
            let header_bytes = slice content 0 HEADER_TOTAL_LEN in
            bind_res (map_err (\<lambda>cause. Recovery (RecHeaderCorrupt seg_idx cause))
                (header_parse crc header_bytes)) (\<lambda>header.
              if hdr_key_id header \<noteq> kh_key_id key
              then Err (Recovery (RecKeyIdMismatch seg_idx (hex (hdr_key_id header)) (hex (kh_key_id key))))
              else
                let chain_start = (if seg_idx = 0 then kh_sign key (slice header_bytes 0 HEADER_BODY_LEN)
                                   else hdr_prev_final header)
                in bind_res (scan_records key seg_idx content
                     \<lparr>sc_record_count = 0, sc_last_record_id = None, sc_bytes_written = HEADER_TOTAL_LEN,
                      sc_truncated_bytes = 0, sc_last_hmac = chain_start, sc_last_ts_wall = [],
                      sc_last_ts_mono_delta = 0, sc_last_record_was_finalize = False\<rparr>)
                   (\<lambda>(scan, content'). Ok (scan, seg_put seg_idx content' d))))"

section \<open>Opening a log\<close>

definition reopen_segment_for_append ::
  "u16 \<Rightarrow> scan_result \<Rightarrow> dir \<Rightarrow> (segment_state, writer_error) result" where
  "reopen_segment_for_append seg_idx scan d =
     (case seg_get d seg_idx of
        None \<Rightarrow> Err Io
      | Some content \<Rightarrow>
          Ok \<lparr>st_index = seg_idx, st_pos = sc_bytes_written scan,
              st_bytes_written = sc_bytes_written scan, st_last_hmac = sc_last_hmac scan,
              st_next_record_id = unwrap_or 0 (map_option (\<lambda>r. r + 1) (sc_last_record_id scan)),
              st_record_count = sc_record_count scan, st_last_ts_wall = sc_last_ts_wall scan,
              st_last_ts_mono_delta = sc_last_ts_mono_delta scan\<rparr>)"

text \<open>\<^verbatim>\<open>Writer::with_config\<close>. Nothing is left of a failed call but what it did to the directory.\<close>

definition with_config ::
  "(bytes \<Rightarrow> u32) \<Rightarrow> key_handle \<Rightarrow> bytes \<Rightarrow> writer_config \<Rightarrow> dir
   \<Rightarrow> dir \<times> (writer, writer_error) result" where
  "with_config crc key session_id config d =
     (let existing = list_segment_indices d in
      if existing = [] then
        let (current, d1) = segment_create crc 0 (kh_key_id key) d;
            header_bytes = header_to_bytes crc (header_genesis (kh_key_id key));
            chain_start = kh_sign key (slice header_bytes 0 HEADER_BODY_LEN)
        in (d1, Ok \<lparr>w_key = key, w_session_id = session_id, w_config = config,
              w_current = current\<lparr>st_last_hmac := chain_start\<rparr>,
              w_recovery = \<lparr>rep_action = Fresh, rep_current_segment_index = 0,
                rep_last_record_id = None, rep_records_in_current_segment = 0,
                rep_truncated_bytes = 0, rep_segments_scanned = 0, rep_last_hmac = chain_start\<rparr>\<rparr>)
      else
        let latest_index = last existing in
        (case scan_segment_for_recovery crc key latest_index d of
           Err e \<Rightarrow> (d, Err e)
         | Panic \<Rightarrow> (d, Panic)
         | Ok (scan, d1) \<Rightarrow>
             if sc_last_record_was_finalize scan then
               if latest_index = - 1 then (d1, Err InvalidInput)
               else
                 let next_index = latest_index + 1;
                     (new_state, d2) = segment_create_next crc next_index (kh_key_id key)
                                         (sc_last_hmac scan) d1
                 in (d2, Ok \<lparr>w_key = key, w_session_id = session_id, w_config = config,
                       w_current = new_state,
                       w_recovery = \<lparr>rep_action = OpenedNextAfterFinalized,
                         rep_current_segment_index = next_index,
                         rep_last_record_id = sc_last_record_id scan,
                         rep_records_in_current_segment = 0,
                         rep_truncated_bytes = sc_truncated_bytes scan, rep_segments_scanned = 1,
                         rep_last_hmac = sc_last_hmac scan\<rparr>\<rparr>)
             else
               (d1, bind_res (reopen_segment_for_append latest_index scan d1) (\<lambda>state.
                  Ok \<lparr>w_key = key, w_session_id = session_id, w_config = config,
                      w_current = state,
                      w_recovery = \<lparr>rep_action = (if 0 < sc_truncated_bytes scan then Repaired else Resumed),
                        rep_current_segment_index = latest_index,
                        rep_last_record_id = sc_last_record_id scan,
                        rep_records_in_current_segment = sc_record_count scan,
                        rep_truncated_bytes = sc_truncated_bytes scan, rep_segments_scanned = 1,
                        rep_last_hmac = sc_last_hmac scan\<rparr>\<rparr>))))"

definition writer_open ::
  "(bytes \<Rightarrow> u32) \<Rightarrow> key_handle \<Rightarrow> bytes \<Rightarrow> dir \<Rightarrow> dir \<times> (writer, writer_error) result" where
  "writer_open crc key session_id d = with_config crc key session_id default_config d"

end
