(* ===== verification/Log_Spec.thy ===== *)
theory Log_Spec
  imports Writer Framing Record_Codec
begin

text \<open>
  The abstract log that the programs agree on: a list of segments, each a list of items (a
  session id and an input). \<open>chain\<close> gives the records of a segment (payload and tag),
  \<open>log_file\<close> the bytes of a segment file, \<open>represents\<close> says that a directory holds exactly
  the files of a log. The writer refines it, and the verifier and the recovery scan are
  specified against it.
\<close>

type_synonym log_item = "bytes \<times> record_input"

section \<open>Records of a segment\<close>

definition item_payload :: "key_handle \<Rightarrow> log_item \<Rightarrow> bytes \<Rightarrow> u64 \<Rightarrow> bytes" where
  "item_payload k it prev rid =
     the (encode_record_payload (snd it) (fst it) (kh_key_id k) prev rid)"

primrec chain :: "key_handle \<Rightarrow> bytes \<Rightarrow> u64 \<Rightarrow> log_item list \<Rightarrow> (bytes \<times> bytes) list" where
  "chain k prev rid [] = []"
| "chain k prev rid (it # its) =
     (let p = item_payload k it prev rid; t = kh_sign k p in (p, t) # chain k t (rid + 1) its)"

definition head_of :: "bytes \<Rightarrow> (bytes \<times> bytes) list \<Rightarrow> bytes" where
  "head_of prev recs = (if recs = [] then prev else snd (last recs))"

lemma head_of_Nil [simp]: "head_of prev [] = prev"
  by (simp add: head_of_def)

lemma head_of_Cons: "head_of prev (r # recs) = head_of (snd r) recs"
  by (simp add: head_of_def)

lemma head_of_append [simp]: "head_of prev (xs @ ys) = head_of (head_of prev xs) ys"
  by (simp add: head_of_def)

lemma length_chain [simp]: "length (chain k prev rid its) = length its"
  by (induction its arbitrary: prev rid) (auto simp: Let_def)

lemma chain_append:
  "chain k prev rid (xs @ ys) =
   chain k prev rid xs @ chain k (head_of prev (chain k prev rid xs)) (rid + of_nat (length xs)) ys"
  by (induction xs arbitrary: prev rid) (auto simp: Let_def head_of_Cons add.assoc)

lemma length_head_chain:
  "length prev = 32 \<Longrightarrow> length (head_of prev (chain k prev rid its)) = 32"
  by (induction its arbitrary: prev rid) (auto simp: Let_def head_of_Cons)

lemma take_chain: "take j (chain k prev rid its) = chain k prev rid (take j its)"
proof (cases "j \<le> length its")
  case True
  have "chain k prev rid its = chain k prev rid (take j its) @
    chain k (head_of prev (chain k prev rid (take j its))) (rid + of_nat (length (take j its))) (drop j its)"
    using chain_append [of k prev rid "take j its" "drop j its"] by simp
  moreover have "length (chain k prev rid (take j its)) = j" using True by simp
  ultimately show ?thesis by (metis append_eq_conv_conj)
qed simp

text \<open>Items the writer can encode into at most \<open>m\<close> bytes and the decoders accept (the decoders' limit on
  nesting included, which the writer does not enforce), with a timestamp that passes \<^verbatim>\<open>validate_input\<close> and \<^verbatim>\<open>bump_ts_ms\<close> does not cut inside a character.\<close>

definition item_ok :: "nat \<Rightarrow> key_handle \<Rightarrow> log_item \<Rightarrow> bool" where
  "item_ok m k it \<longleftrightarrow> length (fst it) = 16 \<and> input_wf (snd it) \<and>
     validate_input (snd it) = Ok () \<and> bump_ts_ms (in_ts_wall (snd it)) \<noteq> None \<and>
     length (item_payload k it (replicate 32 0) (- 1)) \<le> m"

lemma item_payload_enc:
  assumes "input_wf (snd it)"
  shows "encode_record_payload (snd it) (fst it) (kh_key_id k) prev rid = Some (item_payload k it prev rid)"
    and "item_payload k it prev rid = enc (rec_value (snd it) (fst it) (kh_key_id k) prev rid)"
  by (simp_all add: item_payload_def encode_record_payload_eq [OF assms])

lemma length_head_le: "length (head m n) \<le> 9"
  by (simp add: head_def Let_def)

lemma length_uint_le: "length (uint_cbor n) \<le> length (uint_cbor (- 1))"
  using length_head_le [of 0 n] by (simp add: uint_cbor_def head_def Let_def)

lemma item_payload_length:
  assumes "input_wf (snd it)" "length prev = 32"
  shows "length (item_payload k it prev rid) \<le> length (item_payload k it (replicate 32 0) (- 1))"
  using length_uint_le [of rid] assms
  by (simp add: item_payload_enc rec_value_def bstr_def emit_map_def del: to_value.simps)

lemma item_payload_bound:
  "item_ok m k it \<Longrightarrow> length prev = 32 \<Longrightarrow> length (item_payload k it prev rid) \<le> m"
  using item_payload_length [of it prev k rid] by (simp add: item_ok_def)

lemma item_payload_decode:
  assumes "item_ok m k it" "m \<le> u32_max" "length prev = 32"
  shows "decode (item_payload k it prev rid) =
    Ok (rec_value (snd it) (fst it) (kh_key_id k) prev rid)"
proof -
  have "length (item_payload k it prev rid) < 2 ^ 63"
    using item_payload_bound [OF assms(1,3), of rid] assms(2) by (simp add: u32_max_def)
  then show ?thesis
    using decode_record_payload [of "snd it" "fst it" "kh_key_id k" prev rid] assms
      item_payload_enc(1) by (simp add: item_ok_def)
qed

lemma chain_valid:
  "list_all (item_ok m k) its \<Longrightarrow> length prev = 32 \<Longrightarrow> list_all (rec_valid m) (chain k prev rid its)"
  by (induction its arbitrary: prev rid) (auto simp: Let_def rec_valid_def item_payload_bound)

section \<open>Segment files\<close>

definition seg_header :: "key_handle \<Rightarrow> nat \<Rightarrow> bytes \<Rightarrow> segment_header" where
  "seg_header k i prev_final =
     (if i = 0 then header_genesis (kh_key_id k) else header_next (of_nat i) (kh_key_id k) prev_final)"

definition seg_start :: "key_handle \<Rightarrow> nat \<Rightarrow> bytes \<Rightarrow> bytes" where
  "seg_start k i prev_final =
     (if i = 0 then kh_sign k (header_body (header_genesis (kh_key_id k))) else prev_final)"

definition seg_chain :: "key_handle \<Rightarrow> nat \<Rightarrow> bytes \<Rightarrow> log_item list \<Rightarrow> (bytes \<times> bytes) list" where
  "seg_chain k i prev_final its = chain k (seg_start k i prev_final) 0 its"

definition seg_final :: "key_handle \<Rightarrow> nat \<Rightarrow> bytes \<Rightarrow> log_item list \<Rightarrow> bytes" where
  "seg_final k i prev_final its = head_of (seg_start k i prev_final) (seg_chain k i prev_final its)"

definition frames :: "(bytes \<times> bytes) list \<Rightarrow> bytes" where
  "frames recs = concat (map rec_frame recs)"

definition seg_bytes :: "(bytes \<Rightarrow> u32) \<Rightarrow> key_handle \<Rightarrow> nat \<Rightarrow> bytes \<Rightarrow> log_item list \<Rightarrow> bytes" where
  "seg_bytes crc k i prev_final its =
     header_to_bytes crc (seg_header k i prev_final) @ frames (seg_chain k i prev_final its)"

text \<open>\<open>log_pf k segs i\<close> is the \<^verbatim>\<open>prev_final\<close> of segment \<open>i\<close>.\<close>

primrec log_pf :: "key_handle \<Rightarrow> log_item list list \<Rightarrow> nat \<Rightarrow> bytes" where
  "log_pf k segs 0 = replicate 32 0"
| "log_pf k segs (Suc i) = seg_final k i (log_pf k segs i) (segs ! i)"

definition log_file :: "(bytes \<Rightarrow> u32) \<Rightarrow> key_handle \<Rightarrow> log_item list list \<Rightarrow> nat \<Rightarrow> bytes" where
  "log_file crc k segs i = seg_bytes crc k i (log_pf k segs i) (segs ! i)"

definition represents :: "(bytes \<Rightarrow> u32) \<Rightarrow> key_handle \<Rightarrow> log_item list list \<Rightarrow> dir \<Rightarrow> bool" where
  "represents crc k segs d \<longleftrightarrow> dir_wf d \<and> length segs \<le> 65536 \<and>
     (\<forall>i. seg_get d i = (if unat i < length segs then Some (log_file crc k segs (unat i)) else None))"

lemma frames_simps [simp]:
  "frames [] = []" "frames (r # rs) = rec_frame r @ frames rs" "frames (xs @ ys) = frames xs @ frames ys"
  by (simp_all add: frames_def)

lemma length_seg_start [simp]: "length pf = 32 \<Longrightarrow> length (seg_start k i pf) = 32"
  by (simp add: seg_start_def)

lemma length_seg_final [simp]: "length pf = 32 \<Longrightarrow> length (seg_final k i pf its) = 32"
  by (simp add: seg_final_def seg_chain_def length_head_chain)

lemma length_log_pf [simp]: "length (log_pf k segs i) = 32"
  by (induction i) auto

lemma seg_header_wf [simp]: "length pf = 32 \<Longrightarrow> header_wf (seg_header k i pf)"
  by (simp add: seg_header_def)

lemma seg_header_fields [simp]:
  "hdr_version (seg_header k i pf) = FORMAT_VERSION"
  "hdr_key_id (seg_header k i pf) = kh_key_id k"
  "hdr_segment_index (seg_header k i pf) = of_nat i"
  "hdr_prev_final (seg_header k i pf) = (if i = 0 then replicate 32 0 else pf)"
  by (simp_all add: seg_header_def header_genesis_def header_next_def HMAC_LEN_def)

lemma log_pf_cong: "(\<And>j. j < i \<Longrightarrow> segs ! j = segs' ! j) \<Longrightarrow> log_pf k segs i = log_pf k segs' i"
  by (induction i) auto

lemma log_file_cong: "(\<And>j. j \<le> i \<Longrightarrow> segs ! j = segs' ! j) \<Longrightarrow> log_file crc k segs i = log_file crc k segs' i"
  using log_pf_cong [of i segs segs' k] by (simp add: log_file_def)

lemma seg_chain_snoc:
  "seg_chain k i pf (its @ [it]) = seg_chain k i pf its @
     [(item_payload k it (seg_final k i pf its) (of_nat (length its)),
       kh_sign k (item_payload k it (seg_final k i pf its) (of_nat (length its))))]"
  by (simp add: seg_chain_def chain_append seg_final_def Let_def)

lemma seg_final_snoc:
  "seg_final k i pf (its @ [it]) =
     kh_sign k (item_payload k it (seg_final k i pf its) (of_nat (length its)))"
  by (simp add: seg_final_def [of k i pf "its @ [it]"] seg_chain_snoc head_of_def)

lemma seg_bytes_snoc:
  "seg_bytes crc k i pf (its @ [it]) = seg_bytes crc k i pf its @
     rec_frame (item_payload k it (seg_final k i pf its) (of_nat (length its)),
       kh_sign k (item_payload k it (seg_final k i pf its) (of_nat (length its))))"
  by (simp add: seg_bytes_def seg_chain_snoc)

lemma seg_bytes_Nil: "seg_bytes crc k i pf [] = header_to_bytes crc (seg_header k i pf)"
  by (simp add: seg_bytes_def seg_chain_def)

lemma seg_final_Nil: "seg_final k i pf [] = seg_start k i pf"
  by (simp add: seg_final_def seg_chain_def)

lemma seg_bytes_length_ge: "length pf = 32 \<Longrightarrow> 80 \<le> length (seg_bytes crc k i pf its)"
  by (simp add: seg_bytes_def)

text \<open>The byte offset of record \<open>i\<close> in segment \<open>n\<close>.\<close>

definition frame_offset :: "key_handle \<Rightarrow> log_item list list \<Rightarrow> nat \<Rightarrow> nat \<Rightarrow> nat" where
  "frame_offset k segs n i = 80 + length (frames (take i (seg_chain k n (log_pf k segs n) (segs ! n))))"

lemma log_file_take:
  "take (frame_offset k segs n i) (log_file crc k segs n) =
     header_to_bytes crc (seg_header k n (log_pf k segs n)) @
     frames (chain k (seg_start k n (log_pf k segs n)) 0 (take i (segs ! n)))"
proof -
  let ?ch = "seg_chain k n (log_pf k segs n) (segs ! n)"
  have "frames ?ch = frames (take i ?ch) @ frames (drop i ?ch)"
    by (metis append_take_drop_id frames_simps(3))
  then show ?thesis by (simp add: frame_offset_def log_file_def seg_bytes_def) (simp add: seg_chain_def take_chain)
qed

lemma log_file_drop:
  "drop (frame_offset k segs n i) (log_file crc k segs n) =
     frames (drop i (seg_chain k n (log_pf k segs n) (segs ! n)))"
proof -
  let ?ch = "seg_chain k n (log_pf k segs n) (segs ! n)"
  have "frames ?ch = frames (take i ?ch) @ frames (drop i ?ch)"
    by (metis append_take_drop_id frames_simps(3))
  then show ?thesis by (simp add: frame_offset_def log_file_def seg_bytes_def)
qed

end
