(* ===== verification/Finalize.thy ===== *)
theory Finalize
  imports Log_Spec
begin

text \<open>
  The record the writer adds when it closes a segment is itself well formed: its
  timestamp stays valid UTF-8 of 24 bytes, and its encoding is short.
\<close>

section \<open>Cutting UTF-8 at a character boundary\<close>

text \<open>The first character of a valid string: its continuation bytes, and any valid rest.\<close>

lemma valid_utf8_char:
  assumes "valid_utf8 (b # r)"
  shows "\<exists>t r'. r = t @ r' \<and> valid_utf8 r' \<and> (\<forall>c \<in> set t. is_cont c) \<and>
    (\<forall>r''. valid_utf8 r'' \<longrightarrow> valid_utf8 (b # t @ r''))"
proof -
  have "\<not> valid_utf8 (b # r)" if "\<not> b < 0x80" "\<not> (0xC2 \<le> b \<and> b \<le> 0xDF)"
    "\<not> (0xE0 \<le> b \<and> b \<le> 0xEF)" "\<not> (0xF0 \<le> b \<and> b \<le> 0xF4)"
    using that by (simp only: valid_utf8.simps if_not_P not_False_eq_True)
  then consider (one) "b < 0x80"
    | (two) "\<not> b < 0x80" "0xC2 \<le> b \<and> b \<le> 0xDF"
    | (three) "\<not> b < 0x80" "\<not> (0xC2 \<le> b \<and> b \<le> 0xDF)" "0xE0 \<le> b \<and> b \<le> 0xEF"
    | (four) "\<not> b < 0x80" "\<not> (0xC2 \<le> b \<and> b \<le> 0xDF)" "\<not> (0xE0 \<le> b \<and> b \<le> 0xEF)"
        "0xF0 \<le> b \<and> b \<le> 0xF4"
    using assms by blast
  then show ?thesis
  proof cases
    case one
    then show ?thesis using assms by (intro exI [of _ "[]"] exI [of _ r]) simp
  next
    case two
    then have e: "valid_utf8 (b # r) = (case r of c # r1 \<Rightarrow> is_cont c \<and> valid_utf8 r1 | [] \<Rightarrow> False)" for r
      by (simp only: valid_utf8.simps if_not_P if_P if_False if_True)
    from assms obtain c r' where "r = [c] @ r'" "is_cont c" "valid_utf8 r'"
      unfolding e by (cases r) simp_all
    then show ?thesis unfolding e by (intro exI [of _ "[c]"] exI [of _ r']) simp
  next
    case three
    then have e: "valid_utf8 (b # r) =
        (case r of c # d # r2 \<Rightarrow>
           is_cont c \<and> is_cont d \<and> (b = 0xE0 \<longrightarrow> 0xA0 \<le> c) \<and> (b = 0xED \<longrightarrow> c \<le> 0x9F) \<and> valid_utf8 r2
         | _ \<Rightarrow> False)" for r
      by (simp only: valid_utf8.simps if_not_P if_P if_False if_True)
    from assms obtain c r1 where r1: "r = c # r1" unfolding e by (cases r) simp_all
    with assms obtain d r' where "r = [c, d] @ r'" "is_cont c" "is_cont d" "valid_utf8 r'"
      "b = 0xE0 \<longrightarrow> 0xA0 \<le> c" "b = 0xED \<longrightarrow> c \<le> 0x9F"
      unfolding e by (cases r1) simp_all
    then show ?thesis unfolding e by (intro exI [of _ "[c, d]"] exI [of _ r']) simp
  next
    case four
    then have e: "valid_utf8 (b # r) =
        (case r of c # d # e # r3 \<Rightarrow>
           is_cont c \<and> is_cont d \<and> is_cont e
           \<and> (b = 0xF0 \<longrightarrow> 0x90 \<le> c) \<and> (b = 0xF4 \<longrightarrow> c \<le> 0x8F) \<and> valid_utf8 r3
         | _ \<Rightarrow> False)" for r
      by (simp only: valid_utf8.simps if_not_P if_P if_False if_True)
    from assms obtain c r1 where r1: "r = c # r1" unfolding e by (cases r) simp_all
    with assms obtain d r2 where r2: "r1 = d # r2" unfolding e by (cases r1) simp_all
    with assms r1 obtain f r' where "r = [c, d, f] @ r'" "is_cont c" "is_cont d" "is_cont f"
      "valid_utf8 r'" "b = 0xF0 \<longrightarrow> 0x90 \<le> c" "b = 0xF4 \<longrightarrow> c \<le> 0x8F"
      unfolding e by (cases r2) simp_all
    then show ?thesis unfolding e by (intro exI [of _ "[c, d, f]"] exI [of _ r']) simp
  qed
qed

lemma valid_utf8_append: "valid_utf8 xs \<Longrightarrow> valid_utf8 ys \<Longrightarrow> valid_utf8 (xs @ ys)"
proof (induction xs rule: length_induct)
  case (1 xs)
  show ?case
  proof (cases xs)
    case (Cons b r)
    then have "valid_utf8 (b # r)" using "1.prems" by simp
    from valid_utf8_char [OF this] obtain t r' where t: "r = t @ r'" "valid_utf8 r'"
      "\<And>r''. valid_utf8 r'' \<Longrightarrow> valid_utf8 (b # t @ r'')"
      by blast
    then have "valid_utf8 (r' @ ys)" using "1" Cons by simp
    then show ?thesis using t(3) [of "r' @ ys"] Cons t(1) by simp
  qed (use "1.prems" in simp)
qed

lemma valid_utf8_take:
  "valid_utf8 s \<Longrightarrow> is_char_boundary s n \<Longrightarrow> valid_utf8 (take n s)"
proof (induction s arbitrary: n rule: length_induct)
  case (1 s)
  show ?case
  proof (cases "s = [] \<or> n = 0 \<or> length s \<le> n")
    case False
    then obtain b r where s: "s = b # r" by (cases s) auto
    then have "valid_utf8 (b # r)" using "1.prems" by simp
    from valid_utf8_char [OF this] obtain t r' where t: "r = t @ r'" "valid_utf8 r'"
      "\<And>c. c \<in> set t \<Longrightarrow> is_cont c" "\<And>r''. valid_utf8 r'' \<Longrightarrow> valid_utf8 (b # t @ r'')"
      by blast
    have n: "0 < n" "n < length s" "\<not> is_cont (s ! n)"
      using "1.prems" False by (auto simp: is_char_boundary_def)
    have "length t < n"
    proof (rule ccontr)
      assume "\<not> length t < n"
      then have "n - 1 < length t" using n(1) by simp
      then have "s ! n \<in> set t" using n(1) s t(1) by (simp add: nth_append)
      then show False using n(3) t(3) by blast
    qed
    moreover define m where "m = n - Suc (length t)"
    ultimately have nm: "n = Suc (length t + m)" by simp
    then have "is_char_boundary r' m" using n s t(1) by (auto simp: is_char_boundary_def nth_append)
    then have "valid_utf8 (take m r')" using "1.IH" s t(1,2) by simp
    then show ?thesis using t(4) [of "take m r'"] s t(1) nm by simp
  qed (use "1.prems" in auto)
qed

section \<open>The bumped timestamp\<close>

lemma bump_cases:
  assumes "bump_ts_ms ts = Some ts'"
  shows "ts' = ts \<or> (\<exists>p n. n < 1000 \<and> length ts = 24 \<and> str_slice ts 0 20 = Some p \<and>
    ts' = p @ pad_dec 3 n @ [90])"
proof -
  have "ascii ''Z'' = [90]" by (simp add: ascii_def)
  moreover define n where "n = (case parse_uint 10 (2 ^ 32 - 1)
    (if valid_utf8 (slice ts 20 3) then slice ts 20 3 else ascii ''000'') of None \<Rightarrow> 0 | Some n \<Rightarrow> n)"
  ultimately have e: "bump_ts_ms ts = (if length ts \<noteq> 24 then Some ts
    else if n < 999 then map_option (\<lambda>p. p @ pad_dec 3 (n + 1) @ [90]) (str_slice ts 0 20) else Some ts)"
    by (simp add: bump_ts_ms_def Let_def)
  show ?thesis
  proof (cases "length ts = 24 \<and> n < 999")
    case True
    then have "n + 1 < 1000" by simp
    moreover obtain p where "str_slice ts 0 20 = Some p" "ts' = p @ pad_dec 3 (n + 1) @ [90]"
      using assms e True by (auto simp del: One_nat_def add_Suc_right)
    ultimately show ?thesis using True by blast
  qed (use assms e in \<open>auto split: if_splits\<close>)
qed

lemma str_slice_prefix:
  "str_slice s 0 n = Some p \<Longrightarrow> p = take n s \<and> n \<le> length s \<and> is_char_boundary s n"
  by (auto simp: str_slice_def slice_def split: if_splits)

lemma bump_length: "bump_ts_ms ts = Some ts' \<Longrightarrow> length ts' = length ts"
  using bump_cases [of ts ts'] by (auto dest!: str_slice_prefix simp: length_pad_dec)

lemma bump_utf8:
  assumes "bump_ts_ms ts = Some ts'" and "valid_utf8 ts"
  shows "valid_utf8 ts'"
proof -
  have "valid_utf8 (pad_dec 3 n @ [90])" for n
    by (rule valid_utf8_ascii) (auto simp: pad_dec_ascii)
  then have "valid_utf8 (p @ pad_dec 3 n @ [90])" if "str_slice ts 0 20 = Some p" for p n
    using str_slice_prefix [OF that] assms(2) valid_utf8_append [of p "pad_dec 3 n @ [90]"]
    by (simp add: valid_utf8_take)
  then show ?thesis using bump_cases [OF assms(1)] assms(2) by blast
qed

lemma bump_again:
  assumes "bump_ts_ms ts = Some ts'"
  shows "bump_ts_ms ts' \<noteq> None"
proof (cases "ts' = ts")
  case False
  then obtain p n where p: "n < 1000" "length ts = 24" "p = take 20 ts" "ts' = p @ pad_dec 3 n @ [90]"
    using bump_cases [OF assms] str_slice_prefix by blast
  then obtain c cs where c: "pad_dec 3 n = c # cs" by (cases "pad_dec 3 n") auto
  have "c < 128" using pad_dec_ascii [of c 3 n] c by simp
  then have "\<not> is_cont (ts' ! 20)" using p c by (simp add: nth_append is_cont_def not_le)
  moreover have "length ts' = 24" using bump_length [OF assms] p by simp
  ultimately have "str_slice ts' 0 20 \<noteq> None"
    by (simp add: str_slice_def is_char_boundary_def)
  then show ?thesis by (simp add: bump_ts_ms_def Let_def)
qed (use assms in simp)

section \<open>The finalize record\<close>

definition finalize_item :: "bytes \<Rightarrow> log_item list \<Rightarrow> bytes \<Rightarrow> log_item option" where
  "finalize_item sid its tag =
     map_option (Pair sid)
       (assemble_finalize_input_from_last (if its = [] then [] else in_ts_wall (snd (last its)))
          (if its = [] then 0 else in_ts_mono_delta (snd (last its))) (of_nat (length its)) tag)"

lemma length_tstr_le: "length (tstr s) \<le> 9 + length s"
  using length_head_le by (simp add: tstr_def)

lemma length_bstr_le: "length (bstr s) \<le> 9 + length s"
  using length_head_le by (simp add: bstr_def)

lemma length_uint_le9: "length (uint_cbor n) \<le> 9"
  using length_head_le by (simp add: uint_cbor_def)

lemma finalize_payload_wf:
  assumes "length tag = 32"
  shows "pv_wf 1 (PMap [(ascii ''final_hash'', PBytes tag), (ascii ''records'', PUint n)])"
proof -
  have "valid_utf8 (ascii ''final_hash'')" "valid_utf8 (ascii ''records'')"
    by (simp_all add: ascii_def)
  then show ?thesis using assms
    by (simp add: small_def ascii_def MAX_CBOR_DEPTH_def bt_wf_def)
qed

lemma emit_map_length:
  "length (emit_map xs) = length (head 5 (of_nat (length xs))) + sum_list (map (\<lambda>(k, v). length k + length v) xs)"
  by (simp add: emit_map_def length_concat comp_def case_prod_unfold)

lemma emit_map_sort_length: "length (emit_map (canonical_sort xs)) = length (emit_map xs)"
proof -
  have "mset (canonical_sort xs) = mset xs" by (simp add: canonical_sort_def)
  then have "mset (map (\<lambda>(k, v). length k + length v) (canonical_sort xs)) =
    mset (map (\<lambda>(k, v). length k + length v) xs)" and "length (canonical_sort xs) = length xs"
    by (simp_all add: canonical_sort_def)
  then show ?thesis
    using sum_mset_sum_list by (metis emit_map_length)
qed

lemma finalize_payload_length:
  assumes "length tag = 32"
    and "encode_payload_map [(ascii ''final_hash'', PBytes tag), (ascii ''records'', PUint n)] = Some p"
  shows "length p \<le> 100"
proof -
  have "p = map_text_keys [(ascii ''final_hash'', bstr tag), (ascii ''records'', uint_cbor n)]"
    using assms(2) by (simp add: encode_payload_map_def)
  then have "length p = length (head 5 2) + (length (tstr (ascii ''final_hash'')) + length (bstr tag)
      + (length (tstr (ascii ''records'')) + length (uint_cbor n)))"
    by (simp only: map_text_keys_def emit_map_sort_length) (simp add: emit_map_length)
  moreover have "length (ascii ''final_hash'') = 10" "length (ascii ''records'') = 7"
    by (simp_all add: ascii_def)
  ultimately show ?thesis
    using length_head_le [of 5 2] length_tstr_le [of "ascii ''final_hash''"] length_bstr_le [of tag]
      length_tstr_le [of "ascii ''records''"] length_uint_le9 [of n] assms(1) by linarith
qed

lemma encode_record_length:
  assumes "encode_record_payload r sid kid prev rid = Some bs"
    and "encode_payload_map (in_payload r) = Some p"
  shows "length bs \<le> 220 + length (in_ts_wall r) + length (in_actor r) + length (in_event r)
    + length p + length sid + length kid + length prev"
proof -
  have "bs = map_int_keys [(1, uint_cbor rid), (2, bstr prev), (3, tstr (in_ts_wall r)),
      (4, uint_cbor (in_ts_mono_delta r)), (5, bstr sid), (6, tstr (in_actor r)), (7, tstr (in_event r)),
      (8, p), (9, bstr kid), (10, uint_cbor (ucast (in_schema_version r)))]"
    using assms by (simp add: encode_record_payload_def)
  then have "length bs = length (head 5 10) + (length (uint_cbor 1) + length (uint_cbor rid)
      + (length (uint_cbor 2) + length (bstr prev) + (length (uint_cbor 3) + length (tstr (in_ts_wall r))
      + (length (uint_cbor 4) + length (uint_cbor (in_ts_mono_delta r))
      + (length (uint_cbor 5) + length (bstr sid) + (length (uint_cbor 6) + length (tstr (in_actor r))
      + (length (uint_cbor 7) + length (tstr (in_event r)) + (length (uint_cbor 8) + length p
      + (length (uint_cbor 9) + length (bstr kid) + (length (uint_cbor 10)
      + length (uint_cbor (ucast (in_schema_version r)))))))))))))"
    by (simp only: map_int_keys_def emit_map_sort_length) (simp add: emit_map_length)
  then show ?thesis
    using length_head_le [of 5 10] length_uint_le9 [of rid] length_bstr_le [of prev]
      length_tstr_le [of "in_ts_wall r"] length_uint_le9 [of "in_ts_mono_delta r"]
      length_bstr_le [of sid] length_tstr_le [of "in_actor r"] length_tstr_le [of "in_event r"]
      length_bstr_le [of kid] length_uint_le9 [of "ucast (in_schema_version r)"]
    by (simp add: small_uint)
qed

lemma finalize_input:
  assumes "assemble_finalize_input_from_last ts delta n tag = Some r"
  shows "bump_ts_ms ts = Some (in_ts_wall r)" "in_ts_mono_delta r = saturating_add1 delta"
    "in_actor r = ascii ''system:audit''" "in_event r = SEGMENT_FINALIZED"
    "in_payload r = [(ascii ''final_hash'', PBytes tag), (ascii ''records'', PUint n)]"
    "in_schema_version r = 1"
  using assms by (auto simp: assemble_finalize_input_from_last_def)

lemma finalize_input_wf:
  assumes "assemble_finalize_input_from_last ts delta n tag = Some r"
    and "length tag = 32" "valid_utf8 ts" "length ts = 24" "last ts = 90"
  shows "input_wf r" "validate_input r = Ok ()" "bump_ts_ms (in_ts_wall r) \<noteq> None"
    "length sid = 16 \<Longrightarrow> item_payload k (sid, r) (replicate 32 0) (- 1) = p \<Longrightarrow> length p \<le> 1000"
proof -
  note f = finalize_input [OF assms(1)]
  have len: "length (in_ts_wall r) = 24" using bump_length [OF f(1)] assms(4) by simp
  have "valid_utf8 (in_actor r)" "valid_utf8 (in_event r)"
    unfolding f SEGMENT_FINALIZED_def by (simp_all add: ascii_def)
  moreover have "valid_utf8 (in_ts_wall r)" using bump_utf8 [OF f(1) assms(3)] .
  moreover have "small (in_ts_wall r)" "small (in_actor r)" "small (in_event r)"
    unfolding f using len by (simp_all add: small_def f SEGMENT_FINALIZED_def ascii_def)
  ultimately show wf: "input_wf r"
    using finalize_payload_wf [OF assms(2), of n] unfolding input_wf_def f(5) by blast
  have "last (in_ts_wall r) = 90" using bump_cases [OF f(1)] assms(5) by auto
  then show "validate_input r = Ok ()" using len by (auto simp: validate_input_def)
  show "bump_ts_ms (in_ts_wall r) \<noteq> None" by (rule bump_again [OF f(1)])
  assume sid: "length sid = 16" and p: "item_payload k (sid, r) (replicate 32 0) (- 1) = p"
  obtain q where q: "encode_payload_map (in_payload r) = Some q"
    using finalize_payload_wf [OF assms(2), of n] pv_encode_enc
    unfolding encode_payload_map_eq f(5) by blast
  have "length q \<le> 100" using finalize_payload_length [OF assms(2), of n q] q f(5) by simp
  moreover have "encode_record_payload r sid (kh_key_id k) (replicate 32 0) (- 1) = Some p"
    using item_payload_enc(1) [of "(sid, r)" k "replicate 32 0" "- 1"] wf p by simp
  note encode_record_length [OF this q]
  moreover have "length (in_actor r) = 12" "length (in_event r) = 17"
    unfolding f SEGMENT_FINALIZED_def by (simp_all add: ascii_def)
  ultimately show "length p \<le> 1000" using sid len by simp
qed

lemma finalize_item_ok:
  assumes "finalize_item sid its tag = Some f" and "its \<noteq> []" "item_ok m k (last its)"
    and "length tag = 32" "length sid = 16"
  shows "item_ok 1000 k f" "fst f = sid"
proof -
  from assms obtain r where r: "f = (sid, r)"
    "assemble_finalize_input_from_last (in_ts_wall (snd (last its)))
      (in_ts_mono_delta (snd (last its))) (of_nat (length its)) tag = Some r"
    by (auto simp: finalize_item_def)
  have "valid_utf8 (in_ts_wall (snd (last its)))" "length (in_ts_wall (snd (last its))) = 24"
    "last (in_ts_wall (snd (last its))) = 90"
    using assms(3) by (auto simp: item_ok_def input_wf_def validate_input_def split: if_splits)
  note w = finalize_input_wf [OF r(2) assms(4) this]
  show "item_ok 1000 k f" "fst f = sid" using w assms(5) r(1) by (simp_all add: item_ok_def)
qed

lemma item_ok_mono: "item_ok m k it \<Longrightarrow> m \<le> n \<Longrightarrow> item_ok n k it"
  by (auto simp: item_ok_def)

lemma finalize_item_some:
  "its \<noteq> [] \<Longrightarrow> item_ok m k (last its) \<Longrightarrow> \<exists>f. finalize_item sid its tag = Some f"
  by (auto simp: finalize_item_def assemble_finalize_input_from_last_def item_ok_def)

end
