(* ===== verification/Writer_Refines.thy ===== *)
theory Writer_Refines
  imports Finalize
begin

text \<open>
  The writer refines the abstract log: \<open>writer_at\<close> relates a writer and its directory to a
  list of segments, \<open>log_step\<close> is the abstract effect of one append (add an item, or close
  the segment and start the next one with it). Every append is one abstract step.
\<close>

definition seg_state_at :: "(bytes \<Rightarrow> u32) \<Rightarrow> key_handle \<Rightarrow> log_item list list \<Rightarrow> segment_state \<Rightarrow> bool" where
  "seg_state_at crc k segs st \<longleftrightarrow>
     (let n = length segs - 1; its = last segs in
      st_index st = of_nat n \<and>
      st_pos st = length (log_file crc k segs n) \<and> st_bytes_written st = st_pos st \<and>
      st_last_hmac st = seg_final k n (log_pf k segs n) its \<and>
      st_next_record_id st = of_nat (length its) \<and> st_record_count st = of_nat (length its) \<and>
      st_last_ts_wall st = (if its = [] then [] else in_ts_wall (snd (last its))) \<and>
      st_last_ts_mono_delta st = (if its = [] then 0 else in_ts_mono_delta (snd (last its))))"

definition writer_at :: "(bytes \<Rightarrow> u32) \<Rightarrow> log_item list list \<Rightarrow> writer \<times> dir \<Rightarrow> bool" where
  "writer_at crc segs wd \<longleftrightarrow> segs \<noteq> [] \<and> represents crc (w_key (fst wd)) segs (snd wd) \<and>
     length (w_session_id (fst wd)) = 16 \<and>
     seg_state_at crc (w_key (fst wd)) segs (w_current (fst wd))"

definition log_add :: "log_item \<Rightarrow> log_item list list \<Rightarrow> log_item list list" where
  "log_add it segs = butlast segs @ [last segs @ [it]]"

definition log_ok :: "nat \<Rightarrow> key_handle \<Rightarrow> log_item list list \<Rightarrow> bool" where
  "log_ok m k segs \<longleftrightarrow> list_all (list_all (item_ok m k)) segs"

text \<open>The \<^verbatim>\<open>segment.finalized\<close> item that closes the last segment of a log.\<close>

definition closing_item :: "key_handle \<Rightarrow> bytes \<Rightarrow> log_item list list \<Rightarrow> log_item option" where
  "closing_item k sid segs =
     (let n = length segs - 1
      in finalize_item sid (last segs) (seg_final k n (log_pf k segs n) (last segs)))"

inductive log_step :: "key_handle \<Rightarrow> log_item \<Rightarrow> log_item list list \<Rightarrow> log_item list list \<Rightarrow> bool"
  for k it where
  add: "segs \<noteq> [] \<Longrightarrow> log_step k it segs (log_add it segs)"
| roll: "segs \<noteq> [] \<Longrightarrow> last segs \<noteq> [] \<Longrightarrow> length segs < 65536 \<Longrightarrow>
    closing_item k (fst it) segs = Some f \<Longrightarrow> log_step k it segs (log_add it (log_add f segs @ [[]]))"

inductive_cases log_stepE: "log_step k it segs segs'"

lemma log_add_nonempty [simp]: "log_add it segs \<noteq> []"
  by (simp add: log_add_def)

lemma length_log_add [simp]: "segs \<noteq> [] \<Longrightarrow> length (log_add it segs) = length segs"
  by (cases segs rule: rev_cases) (auto simp: log_add_def)

lemma last_log_add [simp]: "last (log_add it segs) = last segs @ [it]"
  by (simp add: log_add_def)

lemma log_add_nth: "Suc i < length segs \<Longrightarrow> log_add it segs ! i = segs ! i"
  by (simp add: log_add_def nth_append nth_butlast less_diff_conv)

lemma log_add_nth_last: "segs \<noteq> [] \<Longrightarrow> log_add it segs ! (length segs - 1) = last segs @ [it]"
  by (simp add: log_add_def nth_append)

lemma log_add_pf: "segs \<noteq> [] \<Longrightarrow> log_pf k (log_add it segs) (length segs - 1) = log_pf k segs (length segs - 1)"
  by (rule log_pf_cong) (simp add: log_add_nth)

lemma last_nth: "segs \<noteq> [] \<Longrightarrow> segs ! (length segs - 1) = last segs"
  by (simp add: last_conv_nth)

lemma log_ok_add: "log_ok m k segs \<Longrightarrow> segs \<noteq> [] \<Longrightarrow> item_ok m k it \<Longrightarrow> log_ok m k (log_add it segs)"
  by (cases segs rule: rev_cases) (auto simp: log_ok_def log_add_def list_all_iff)

lemma log_file_add:
  assumes "segs \<noteq> []"
  defines "n \<equiv> length segs - 1"
  shows "log_file crc k (log_add it segs) n = log_file crc k segs n @
    (let p = item_payload k it (seg_final k n (log_pf k segs n) (last segs)) (of_nat (length (last segs)))
     in rec_frame (p, kh_sign k p))"
  using assms log_add_pf [OF assms(1), of k it] log_add_nth_last [OF assms(1), of it] last_nth [OF assms(1)]
  by (simp add: log_file_def seg_bytes_snoc Let_def)

lemma log_file_other: "Suc i < length segs \<Longrightarrow> log_file crc k (log_add it segs) i = log_file crc k segs i"
  by (rule log_file_cong) (simp add: log_add_nth)

section \<open>One framed record\<close>

lemma last_index:
  assumes "represents crc k segs d" "segs \<noteq> []"
  obtains n where "length segs = Suc n" "unat (of_nat n :: u16) = n" "\<And>i. i = (of_nat n :: u16) \<longleftrightarrow> unat i = n"
proof -
  obtain n where n: "length segs = Suc n" using assms(2) by (cases segs) auto
  then have "n < 65536" using assms(1) by (simp add: represents_def)
  then have "unat (of_nat n :: u16) = n" by (simp add: unat_of_nat)
  moreover from this have "i = of_nat n \<longleftrightarrow> unat i = n" for i :: u16 by (auto simp: word_unat_eq_iff)
  ultimately show thesis using n that by blast
qed

lemma represents_add:
  assumes "represents crc k segs d" "segs \<noteq> []"
  shows "represents crc k (log_add it segs)
    (seg_put (of_nat (length segs - 1)) (log_file crc k (log_add it segs) (length segs - 1)) d)"
proof -
  obtain n where n: "length segs = Suc n" "unat (of_nat n :: u16) = n"
    "\<And>i. i = (of_nat n :: u16) \<longleftrightarrow> unat i = n" using last_index [OF assms] by blast
  have "seg_get (seg_put (of_nat n) (log_file crc k (log_add it segs) n) d) i =
    (if unat i < length segs then Some (log_file crc k (log_add it segs) (unat i)) else None)" for i
  proof (cases "unat i = n")
    case True
    then have "i = of_nat n" using n(3) by blast
    then show ?thesis using True n(1) by (simp add: store.put_same)
  next
    case False
    then have "of_nat n \<noteq> i" using n(3) by blast
    moreover have "unat i < length segs \<longleftrightarrow> Suc (unat i) < length segs" using False n(1) by linarith
    ultimately show ?thesis using assms(1)
      by (simp add: store.put_other represents_def log_file_other)
  qed
  then show ?thesis using assms n(1) by (simp add: represents_def dir_wf_put)
qed

lemma log_seg_get:
  assumes "represents crc k segs d" "segs \<noteq> []"
  shows "seg_get d (of_nat (length segs - 1)) = Some (log_file crc k segs (length segs - 1))"
proof -
  obtain n where "length segs = Suc n" "unat (of_nat n :: u16) = n" using last_index [OF assms] by blast
  then show ?thesis using assms by (simp add: represents_def)
qed

lemma write_at_end: "write_at (length c) data c = c @ data"
  by (simp add: write_at_def)

lemma append_framed_refines:
  assumes at: "writer_at crc segs wd"
    and it: "fst it = w_session_id (fst wd)"
    and p: "p = item_payload (w_key (fst wd)) it (st_last_hmac (w_current (fst wd)))
      (st_next_record_id (w_current (fst wd)))"
  defines "wd' \<equiv> append_framed p (in_ts_wall (snd it)) (in_ts_mono_delta (snd it)) wd"
  shows "writer_at crc (log_add it segs) wd'" "w_key (fst wd') = w_key (fst wd)"
    "w_session_id (fst wd') = w_session_id (fst wd)" "w_config (fst wd') = w_config (fst wd)"
proof -
  obtain w d where wd: "wd = (w, d)" by (cases wd)
  let ?k = "w_key w" let ?n = "length segs - 1" let ?st = "w_current w"
  from at wd have segs: "segs \<noteq> []" and rep: "represents crc ?k segs d"
    and sid: "length (w_session_id w) = 16" and st: "seg_state_at crc ?k segs ?st"
    by (auto simp: writer_at_def)
  let ?file = "log_file crc ?k segs ?n"
  from st have s: "st_index ?st = of_nat ?n" "st_pos ?st = length ?file" "st_bytes_written ?st = length ?file"
    "st_last_hmac ?st = seg_final ?k ?n (log_pf ?k segs ?n) (last segs)"
    "st_next_record_id ?st = of_nat (length (last segs))" "st_record_count ?st = of_nat (length (last segs))"
    by (simp_all add: seg_state_at_def Let_def)
  have fil: "log_file crc ?k (log_add it segs) ?n = ?file @ frame_record p (kh_sign ?k p)"
    using log_file_add [OF segs, of crc ?k it] p s wd by (simp add: Let_def rec_frame_def)
  have d': "snd wd' = seg_put (of_nat ?n) (log_file crc ?k (log_add it segs) ?n) d" unfolding fil
    using log_seg_get [OF rep segs] s
    by (simp add: wd'_def append_framed_def handle_write_def wd Let_def write_at_end)
  have final: "seg_final ?k ?n (log_pf ?k (log_add it segs) ?n) (last segs @ [it]) = kh_sign ?k p"
    unfolding log_add_pf [OF segs] using p s wd by (simp add: seg_final_snoc)
  show "w_key (fst wd') = w_key (fst wd)" "w_session_id (fst wd') = w_session_id (fst wd)"
    "w_config (fst wd') = w_config (fst wd)"
    by (simp_all add: wd'_def append_framed_def handle_write_def Let_def)
  then have k: "w_key (fst wd') = ?k" and sid': "w_session_id (fst wd') = w_session_id w" by (simp_all add: wd)
  have "seg_state_at crc ?k (log_add it segs) (w_current (fst wd'))"
    using segs s final fil
    by (simp add: seg_state_at_def wd'_def append_framed_def handle_write_def wd Let_def)
  then show "writer_at crc (log_add it segs) wd'"
    using represents_add [OF rep segs, of it] sid k sid' d' by (simp add: writer_at_def)
qed

section \<open>New segments\<close>

lemma represents_new:
  assumes "represents crc k segs d" "length segs < 65536" "segs \<noteq> []"
    and "pf = log_pf k (segs @ [[]]) (length segs)"
  shows "represents crc k (segs @ [[]])
    (snd (segment_create_next crc (of_nat (length segs)) (kh_key_id k) pf d))"
    and "seg_state_at crc k (segs @ [[]])
    (fst (segment_create_next crc (of_nat (length segs)) (kh_key_id k) pf d))"
proof -
  let ?n = "length segs"
  have un: "unat (of_nat ?n :: u16) = ?n" using assms(2) by (simp add: unat_of_nat)
  have fil: "log_file crc k (segs @ [[]]) ?n = header_to_bytes crc (header_next (of_nat ?n) (kh_key_id k) pf)"
    using assms(3,4) by (simp add: log_file_def seg_bytes_Nil seg_header_def)
  have other: "log_file crc k (segs @ [[]]) i = log_file crc k segs i" if "i < ?n" for i
    using that by (intro log_file_cong) (simp add: nth_append)
  have d: "snd (segment_create_next crc (of_nat ?n) (kh_key_id k) pf d) =
    seg_put (of_nat ?n) (log_file crc k (segs @ [[]]) ?n) (seg_put (of_nat ?n) [] d)"
    by (simp add: segment_create_next_def open_truncated_def handle_write_def store.put_same fil write_at_def)
  have "unat i < Suc ?n \<longleftrightarrow> i = of_nat ?n \<or> unat i < ?n" "i = of_nat ?n \<Longrightarrow> \<not> unat i < ?n" for i :: u16
  proof -
    have "i = of_nat ?n \<longleftrightarrow> unat i = ?n" using un by (auto simp: word_unat_eq_iff)
    then show "unat i < Suc ?n \<longleftrightarrow> i = of_nat ?n \<or> unat i < ?n" "i = of_nat ?n \<Longrightarrow> \<not> unat i < ?n"
      by linarith+
  qed
  then show "represents crc k (segs @ [[]])
    (snd (segment_create_next crc (of_nat ?n) (kh_key_id k) pf d))"
    using assms un unfolding d by (auto simp: represents_def dir_wf_put store.get_put other)
  have "length pf = 32" using assms(4) by (simp only: length_log_pf)
  then have "length (log_file crc k (segs @ [[]]) ?n) = 80" unfolding fil by simp
  then show "seg_state_at crc k (segs @ [[]])
    (fst (segment_create_next crc (of_nat ?n) (kh_key_id k) pf d))"
    using assms(3,4) fil
    by (simp add: seg_state_at_def segment_create_next_def open_truncated_def handle_write_def
        HEADER_TOTAL_LEN_def seg_final_Nil seg_start_def)
qed

section \<open>Rollover and append\<close>

lemma closing_item_some:
  assumes "log_ok m k segs" "segs \<noteq> []" "last segs \<noteq> []" "length sid = 16"
  obtains f where "closing_item k sid segs = Some f" "item_ok 1000 k f" "fst f = sid"
proof -
  have "item_ok m k (last (last segs))"
    using assms(1-3) last_in_set by (fastforce simp: log_ok_def list_all_iff)
  moreover have "length (seg_final k n (log_pf k segs n) its) = 32" for n its by simp
  ultimately show thesis
    using that assms(3,4) finalize_item_some finalize_item_ok unfolding closing_item_def Let_def by metis
qed

text \<open>The same writer but for its state.\<close>

definition same_writer :: "writer \<Rightarrow> writer \<Rightarrow> bool" where
  "same_writer w w' \<longleftrightarrow> w_key w' = w_key w \<and> w_session_id w' = w_session_id w \<and>
     w_config w' = w_config w \<and> w_recovery w' = w_recovery w"

lemma same_writer_append: "same_writer (fst wd) (fst (append_framed p ts delta wd))"
  by (simp add: same_writer_def append_framed_def handle_write_def Let_def)

lemma same_writer_trans: "same_writer a b \<Longrightarrow> same_writer b c \<Longrightarrow> same_writer a c"
  by (simp add: same_writer_def)

lemma rollover_refines:
  assumes at: "writer_at crc segs wd" and ok: "log_ok m (w_key (fst wd)) segs" and ne: "last segs \<noteq> []"
  obtains f wd' where "closing_item (w_key (fst wd)) (w_session_id (fst wd)) segs = Some f"
    "item_ok 1000 (w_key (fst wd)) f" "same_writer (fst wd) (fst wd')"
    "if length segs < 65536 then rollover crc wd = (wd', Ok ()) \<and> writer_at crc (log_add f segs @ [[]]) wd'
     else rollover crc wd = (wd', Err InvalidInput) \<and> writer_at crc (log_add f segs) wd'"
proof -
  let ?k = "w_key (fst wd)" let ?sid = "w_session_id (fst wd)" let ?st = "w_current (fst wd)"
  from at have segs: "segs \<noteq> []" and rep: "represents crc ?k segs (snd wd)" and sid: "length ?sid = 16"
    and st: "seg_state_at crc ?k segs ?st" by (auto simp: writer_at_def)
  obtain f where f: "closing_item ?k ?sid segs = Some f" "item_ok 1000 ?k f" "fst f = ?sid"
    using closing_item_some [OF ok segs ne sid] by blast
  have fin: "assemble_finalize_input_from_last (st_last_ts_wall ?st) (st_last_ts_mono_delta ?st)
      (st_record_count ?st) (st_last_hmac ?st) = Some (snd f)"
    using f(1) st by (auto simp: closing_item_def finalize_item_def seg_state_at_def Let_def)
  define p where "p = item_payload ?k f (st_last_hmac ?st) (st_next_record_id ?st)"
  have "input_wf (snd f)" using f(2) by (simp add: item_ok_def)
  then have enc: "encode_record_payload (snd f) ?sid (kh_key_id ?k) (st_last_hmac ?st)
      (st_next_record_id ?st) = Some p"
    unfolding p_def f(3) [symmetric] by (rule item_payload_enc(1))
  define wd1 where "wd1 = append_framed p (in_ts_wall (snd f)) (in_ts_mono_delta (snd f)) wd"
  have at1: "writer_at crc (log_add f segs) wd1"
    unfolding wd1_def using append_framed_refines [OF at f(3) p_def] by blast
  have same1: "same_writer (fst wd) (fst wd1)" unfolding wd1_def by (rule same_writer_append)
  then have k1: "w_key (fst wd1) = ?k" and sid1: "w_session_id (fst wd1) = ?sid"
    by (simp_all add: same_writer_def)
  let ?st1 = "w_current (fst wd1)"
  obtain n where n: "length segs = Suc n" "unat (of_nat n :: u16) = n"
    using last_index [OF rep segs] by blast
  have st1: "st_index ?st1 = of_nat n"
    "st_last_hmac ?st1 = seg_final ?k n (log_pf ?k (log_add f segs) n) (log_add f segs ! n)"
    using at1 n(1) segs k1 last_nth [of "log_add f segs"]
    by (auto simp: writer_at_def seg_state_at_def Let_def)
  define new where "new = segment_create_next crc (of_nat n + 1) (kh_key_id ?k) (st_last_hmac ?st1) (snd wd1)"
  have roll: "rollover crc wd =
    (if of_nat n = (- 1 :: u16) then (wd1, Err InvalidInput)
     else (((fst wd1)\<lparr>w_current := fst new\<rparr>, snd new), Ok ()))"
    using st1(1) unfolding rollover_def Let_def fin new_def
    by (simp add: enc wd1_def [symmetric] case_prod_unfold del: prod.collapse) (simp add: prod_eq_iff)
  have max: "of_nat n = (- 1 :: u16) \<longleftrightarrow> n = 65535"
  proof -
    have "(- 1 :: u16) = 65535" by simp
    then show ?thesis unfolding word_unat_eq_iff n(2) by simp
  qed
  show thesis
  proof (cases "length segs < 65536")
    case True
    have pf: "st_last_hmac ?st1 = log_pf ?k (log_add f segs @ [[]]) (length (log_add f segs))"
    proof -
      have "log_pf ?k (log_add f segs @ [[]]) n = log_pf ?k (log_add f segs) n"
        by (rule log_pf_cong) (simp add: nth_append n(1) segs)
      then show ?thesis using st1(2) n(1) segs by (simp add: nth_append)
    qed
    have rep1: "represents crc ?k (log_add f segs) (snd wd1)" using at1 k1 by (simp add: writer_at_def)
    have l: "length (log_add f segs) < 65536" using True segs by simp
    have idx: "of_nat n + 1 = (of_nat (length (log_add f segs)) :: u16)" using n(1) segs by simp
    note new = represents_new [OF rep1 l log_add_nonempty pf, folded idx, folded new_def]
    let ?wd' = "((fst wd1)\<lparr>w_current := fst new\<rparr>, snd new)"
    have "writer_at crc (log_add f segs @ [[]]) ?wd'"
      using new k1 sid1 sid by (simp add: writer_at_def)
    moreover have "rollover crc wd = (?wd', Ok ())" using roll max True n(1) by simp
    moreover have "same_writer (fst wd) (fst ?wd')" using same1 by (simp add: same_writer_def)
    ultimately show thesis using that [OF f(1,2), of ?wd'] True by simp
  next
    case False
    then have "n = 65535" using n(1) rep by (simp add: represents_def)
    then have "rollover crc wd = (wd1, Err InvalidInput)" using roll max by simp
    then show thesis using that [OF f(1,2) same1] at1 False by simp
  qed
qed

lemma append_after_rollover_refines:
  assumes at: "writer_at crc segs wd" and wf: "input_wf inp"
  defines "it \<equiv> (w_session_id (fst wd), inp)"
  obtains wd' where "append_after_rollover inp wd = (wd', Ok (of_nat (length (last segs))))"
    "writer_at crc (log_add it segs) wd'" "same_writer (fst wd) (fst wd')"
proof -
  let ?st = "w_current (fst wd)" let ?k = "w_key (fst wd)"
  define p where "p = item_payload ?k it (st_last_hmac ?st) (st_next_record_id ?st)"
  have enc: "encode_record_payload inp (w_session_id (fst wd)) (kh_key_id ?k) (st_last_hmac ?st)
      (st_next_record_id ?st) = Some p"
    using item_payload_enc(1) [of it] wf by (simp add: p_def it_def)
  define wd' where "wd' = append_framed p (in_ts_wall inp) (in_ts_mono_delta inp) wd"
  have at': "writer_at crc (log_add it segs) wd'"
    unfolding wd'_def using append_framed_refines(1) [OF at _ p_def] by (simp add: it_def)
  have "st_next_record_id (w_current (fst wd')) - 1 = of_nat (length (last segs))"
    using at' by (simp add: writer_at_def seg_state_at_def Let_def)
  then have "append_after_rollover inp wd = (wd', Ok (of_nat (length (last segs))))"
    by (simp add: append_after_rollover_def enc wd'_def [symmetric] Let_def)
  then show thesis using that at' same_writer_append wd'_def by simp
qed

lemma estimate_some:
  assumes "item_ok m k (sid, inp)"
  shows "\<exists>n. estimate_finalize_size inp sid (kh_key_id k) = Some n"
proof -
  from assms obtain r where r: "assemble_finalize_input_from_last (in_ts_wall inp) (in_ts_mono_delta inp)
      (- 1) (replicate 32 0) = Some r"
    by (auto simp: item_ok_def assemble_finalize_input_from_last_def)
  have "input_wf r"
    using assms by (intro finalize_input_wf(1) [OF r])
      (auto simp: item_ok_def input_wf_def validate_input_def split: if_splits)
  then show ?thesis using item_payload_enc(1) [of "(sid, r)"] r
    by (simp add: estimate_finalize_size_def HMAC_LEN_def)
qed

text \<open>Every append of a well-formed input is one abstract step, or fails when the segment
  indices are used up.\<close>

lemma append_refines:
  assumes at: "writer_at crc segs wd" and ok: "log_ok m (w_key (fst wd)) segs" and m: "1000 \<le> m"
    and it: "item_ok m (w_key (fst wd)) (w_session_id (fst wd), inp)"
  shows "\<exists>wd'. same_writer (fst wd) (fst wd') \<and>
    ((\<exists>segs'. writer_append crc inp wd = (wd', Ok (of_nat (length (last segs') - 1))) \<and>
        log_step (w_key (fst wd)) (w_session_id (fst wd), inp) segs segs' \<and>
        writer_at crc segs' wd' \<and> log_ok m (w_key (fst wd)) segs')
     \<or> (length segs = 65536 \<and> writer_append crc inp wd = (wd', Err InvalidInput) \<and>
        (\<exists>f. closing_item (w_key (fst wd)) (w_session_id (fst wd)) segs = Some f \<and>
           writer_at crc (log_add f segs) wd')))"
proof -
  let ?w = "fst wd" let ?k = "w_key ?w" let ?sid = "w_session_id ?w" let ?it = "(?sid, inp)"
  have segs: "segs \<noteq> []" and len: "length segs \<le> 65536"
    using at by (auto simp: writer_at_def represents_def)
  have wf: "input_wf inp" and v: "validate_input inp = Ok ()" using it by (simp_all add: item_ok_def)
  have enc: "encode_record_payload inp ?sid (kh_key_id ?k) (replicate HMAC_LEN 0) (- 1)
      = Some (item_payload ?k ?it (replicate 32 0) (- 1))"
    using item_payload_enc(1) [of ?it ?k "replicate 32 0" "- 1"] wf by (simp add: HMAC_LEN_def)
  define est where "est = RECORD_FRAMING_OVERHEAD + length (item_payload ?k ?it (replicate 32 0) (- 1))"
  obtain n where n: "estimate_finalize_size inp ?sid (kh_key_id ?k) = Some n"
    using estimate_some [OF it] by blast
  then have "needs_rollover ?w inp est \<noteq> None" by (simp add: needs_rollover_def del: not_None_eq)
  then obtain b where b: "needs_rollover ?w inp est = Some b" by blast
  have app: "writer_append crc inp wd =
    (if b then (case rollover crc wd of (wd1, Err e) \<Rightarrow> (wd1, Err e) | (wd1, Panic) \<Rightarrow> (wd1, Panic)
       | (wd1, Ok u) \<Rightarrow> append_after_rollover inp wd1) else append_after_rollover inp wd)"
    by (simp add: writer_append_def v enc est_def [symmetric] b Let_def)
  show ?thesis
  proof (cases b)
    case False
    obtain wd' where wd': "append_after_rollover inp wd = (wd', Ok (of_nat (length (last segs))))"
      "writer_at crc (log_add ?it segs) wd'" "same_writer ?w (fst wd')"
      using append_after_rollover_refines [OF at wf] by blast
    moreover have "log_step ?k ?it segs (log_add ?it segs)" using segs by (rule log_step.add)
    moreover have "log_ok m ?k (log_add ?it segs)" using log_ok_add [OF ok segs it] .
    ultimately show ?thesis using app False
      by (intro exI [of _ wd'] conjI disjI1 exI [of _ "log_add ?it segs"]) simp_all
  next
    case True
    then have "0 < st_record_count (w_current ?w)"
      using b by (auto simp: needs_rollover_def split: if_splits)
    then have ne: "last segs \<noteq> []" using at by (auto simp: writer_at_def seg_state_at_def Let_def)
    obtain f wd1 where f: "closing_item ?k ?sid segs = Some f" "item_ok 1000 ?k f"
      "same_writer ?w (fst wd1)"
      "if length segs < 65536 then rollover crc wd = (wd1, Ok ()) \<and> writer_at crc (log_add f segs @ [[]]) wd1
       else rollover crc wd = (wd1, Err InvalidInput) \<and> writer_at crc (log_add f segs) wd1"
      using rollover_refines [OF at ok ne] by blast
    show ?thesis
    proof (cases "length segs < 65536")
      case True
      then have at1: "writer_at crc (log_add f segs @ [[]]) wd1" and roll: "rollover crc wd = (wd1, Ok ())"
        using f(4) by simp_all
      have same: "w_session_id (fst wd1) = ?sid" using f(3) by (simp add: same_writer_def)
      obtain wd' where wd': "append_after_rollover inp wd1 = (wd', Ok (of_nat 0))"
        "writer_at crc (log_add ?it (log_add f segs @ [[]])) wd'" "same_writer (fst wd1) (fst wd')"
        using append_after_rollover_refines [OF at1 wf] same by auto
      moreover have "log_step ?k ?it segs (log_add ?it (log_add f segs @ [[]]))"
        using segs ne True f(1) by (intro log_step.roll) simp_all
      moreover have "log_ok m ?k (log_add f segs)"
        using log_ok_add [OF ok segs item_ok_mono [OF f(2) m]] .
      then have "log_ok m ?k (log_add f segs @ [[]])" by (simp add: log_ok_def)
      then have "log_ok m ?k (log_add ?it (log_add f segs @ [[]]))" using it by (intro log_ok_add) simp_all
      ultimately show ?thesis using app \<open>b\<close> roll same_writer_trans [OF f(3)]
        by (intro exI [of _ wd'] conjI disjI1 exI [of _ "log_add ?it (log_add f segs @ [[]])"]) simp_all
    next
      case False
      then show ?thesis using app \<open>b\<close> f len by (intro exI [of _ wd1]) auto
    qed
  qed
qed

text \<open>A fresh directory becomes the log of one empty segment.\<close>

lemma create_genesis_refines:
  assumes "represents crc k [] d"
  shows "represents crc k [[]] (snd (segment_create crc 0 (kh_key_id k) d))"
    and "seg_state_at crc k [[]] ((fst (segment_create crc 0 (kh_key_id k) d))
      \<lparr>st_last_hmac := kh_sign k (header_body (header_genesis (kh_key_id k)))\<rparr>)"
proof -
  let ?h = "header_to_bytes crc (header_genesis (kh_key_id k))"
  have fil: "log_file crc k [[]] 0 = ?h"
    by (simp add: log_file_def seg_bytes_Nil seg_header_def)
  have d: "snd (segment_create crc 0 (kh_key_id k) d) = seg_put 0 ?h (seg_put 0 [] d)"
    by (simp add: segment_create_def open_truncated_def handle_write_def store.put_same write_at_def)
  have "unat i < Suc 0 \<longleftrightarrow> i = 0" for i :: u16 by (simp add: word_unat_eq_iff)
  then show "represents crc k [[]] (snd (segment_create crc 0 (kh_key_id k) d))"
    using assms fil unfolding d by (auto simp: represents_def dir_wf_put store.get_put)
  show "seg_state_at crc k [[]] ((fst (segment_create crc 0 (kh_key_id k) d))
      \<lparr>st_last_hmac := kh_sign k (header_body (header_genesis (kh_key_id k)))\<rparr>)"
    by (simp add: seg_state_at_def segment_create_def open_truncated_def handle_write_def fil
        HEADER_TOTAL_LEN_def seg_final_Nil seg_start_def)
qed

end
