(* ===== verification/Recovery_Correct.thy ===== *)
theory Recovery_Correct
  imports Recovery Writer_Refines
begin

text \<open>
  The recovery scan against the abstract log: on a segment file of the log cut at any byte
  after its header, the scan keeps exactly the whole records, and \<^verbatim>\<open>with_config\<close> resumes as
  a writer of that shorter log.
\<close>

definition MAX_RECORD :: nat where "MAX_RECORD = 32 * 1024 * 1024"

section \<open>Framing\<close>

definition scan_read :: "bytes \<Rightarrow> nat \<Rightarrow> (bytes \<times> bytes) option" where
  "scan_read content off =
     (case read_framed_record content off of FramedOk p h n \<Rightarrow> Some (p, h) | Torn \<Rightarrow> None)"

lemma MAX_RECORD_u32: "MAX_RECORD \<le> u32_max"
  by (simp add: MAX_RECORD_def u32_max_def)

lemma rec_valid_u32: "rec_valid MAX_RECORD r \<Longrightarrow> rec_valid u32_max r"
  by (erule rec_valid_mono [OF _ MAX_RECORD_u32])

lemma read_framed_record_frame:
  assumes v: "rec_valid MAX_RECORD r" and off: "off \<le> length content"
    and d: "drop off content = rec_frame r @ rest"
  shows "read_framed_record content off = FramedOk (fst r) (snd r) (length (rec_frame r))"
proof -
  note at = rec_frame_at [OF rec_valid_u32 [OF v] off d]
  have "\<not> 32 * 1024 * 1024 < length (fst r)" using v by (simp add: rec_valid_def MAX_RECORD_def)
  moreover have "length (rec_frame r) = 40 + length (fst r)" by (rule length_rec_frame [OF rec_valid_u32 [OF v]])
  ultimately show ?thesis using at by (simp add: read_framed_record_def Let_def HMAC_LEN_def)
qed

lemma read_framed_record_cut:
  assumes v: "rec_valid MAX_RECORD r" and off: "off < length content"
    and d: "drop off content = take j (rec_frame r)" and j: "j < length (rec_frame r)"
  shows "read_framed_record content off = Torn"
proof -
  consider "length content - off < 4"
    | "\<not> length content - off < 4" "unat (u32_at content off) = length (fst r)"
      "length content - off < 40 + length (fst r)"
    using rec_frame_cut [OF rec_valid_u32 [OF v] off d j] by linarith
  then show ?thesis
  proof cases
    case 2
    then have "length content - off < 4 + unat (u32_at content off) + HMAC_LEN + 4"
      by (simp add: HMAC_LEN_def)
    then show ?thesis by (simp add: read_framed_record_def Let_def)
  qed (simp add: read_framed_record_def)
qed

lemma read_framed_record_sound:
  assumes "read_framed_record content off = FramedOk p h n" and "off < length content"
  shows "rec_valid MAX_RECORD (p, h)" "\<exists>rest. drop off content = rec_frame (p, h) @ rest"
    "n = length (rec_frame (p, h))"
proof -
  let ?l = "unat (u32_at content off)"
  from assms have l: "off + 40 + ?l \<le> length content" "?l \<le> MAX_RECORD"
    "unat (u32_at content (off + 4 + ?l + 32)) = ?l"
    "p = slice content (off + 4) ?l" "h = slice content (off + 4 + ?l) 32" "n = 40 + ?l"
    by (auto simp: read_framed_record_def Let_def HMAC_LEN_def MAX_RECORD_def split: if_splits)
  note parts = rec_frame_from_parts [OF l(1) refl l(3), folded l(4,5)]
  have "length p = ?l" "length h = 32" using l by simp_all
  then show "rec_valid MAX_RECORD (p, h)" using l(2) by (simp add: rec_valid_def)
  show "\<exists>rest. drop off content = rec_frame (p, h) @ rest" using parts(2) by blast
  show "n = length (rec_frame (p, h))" using length_rec_frame [OF parts(1)] l(6) \<open>length p = ?l\<close> by simp
qed

interpretation scan: framing rec_frame "rec_valid MAX_RECORD" scan_read
proof
  show "scan_read content off = Some r"
    if "rec_valid MAX_RECORD r" "off \<le> length content" "drop off content = rec_frame r @ rest"
    for r off content rest
    using read_framed_record_frame [OF that] by (simp add: scan_read_def)
  show "scan_read content off = None"
    if "rec_valid MAX_RECORD r" "off < length content" "drop off content = take j (rec_frame r)"
      "j < length (rec_frame r)" for r off content j
    using read_framed_record_cut [OF that] by (simp add: scan_read_def)
  show "rec_valid MAX_RECORD r \<and> (\<exists>rest. drop off content = rec_frame r @ rest)"
    if "off < length content" "scan_read content off = Some r" for r off content
    using that read_framed_record_sound
    by (auto simp: scan_read_def split: framing_outcome.splits)
qed (rule rec_frame_nonempty)

section \<open>The scan of whole records\<close>

definition parsed_of :: "log_item \<Rightarrow> bytes \<Rightarrow> u64 \<Rightarrow> recovered_record" where
  "parsed_of it prev rid =
     \<lparr>rr_record_id = rid, rr_prev_hash = prev, rr_ts_wall = in_ts_wall (snd it),
      rr_ts_mono_delta = in_ts_mono_delta (snd it), rr_event = in_event (snd it)\<rparr>"

primrec scan_items :: "key_handle \<Rightarrow> scan_result \<Rightarrow> u64 \<Rightarrow> log_item list \<Rightarrow> scan_result" where
  "scan_items k s rid [] = s"
| "scan_items k s rid (it # its) =
     (let p = item_payload k it (sc_last_hmac s) rid
      in scan_items k (scan_advance s (parsed_of it (sc_last_hmac s) rid) (kh_sign k p) (40 + length p))
           (rid + 1) its)"

lemma scan_check_item:
  assumes "item_ok MAX_RECORD k it" "length (sc_last_hmac s) = 32"
    and "p = item_payload k it (sc_last_hmac s) rid"
  shows "scan_check k si s p (kh_sign k p) = Ok (parsed_of it (sc_last_hmac s) rid)"
proof -
  have "decode p = Ok (rec_value (snd it) (fst it) (kh_key_id k) (sc_last_hmac s) rid)"
    unfolding assms(3) using assms(1,2) MAX_RECORD_u32 by (intro item_payload_decode)
  then show ?thesis using assms(2)
    by (simp add: scan_check_def ct_eq_def parse_recovered_rec_value parsed_of_def)
qed

lemma scan_records_items:
  assumes "list_all (item_ok MAX_RECORD k) its" "length (sc_last_hmac s) = 32"
    and "sc_bytes_written s \<le> length content"
    and "drop (sc_bytes_written s) content = frames (chain k (sc_last_hmac s) rid its) @ tail"
  shows "scan_records k si content s = scan_records k si content (scan_items k s rid its)"
    and "drop (sc_bytes_written (scan_items k s rid its)) content = tail"
    and "sc_bytes_written (scan_items k s rid its) \<le> length content"
proof -
  have "scan_records k si content s = scan_records k si content (scan_items k s rid its) \<and>
    drop (sc_bytes_written (scan_items k s rid its)) content = tail \<and>
    sc_bytes_written (scan_items k s rid its) \<le> length content"
    using assms
  proof (induction its arbitrary: s rid)
    case (Cons it its)
    define p where "p = item_payload k it (sc_last_hmac s) rid"
    define r where "r = (p, kh_sign k p)"
    define s' where "s' = scan_advance s (parsed_of it (sc_last_hmac s) rid) (kh_sign k p) (40 + length p)"
    have ok: "item_ok MAX_RECORD k it" using Cons.prems by simp
    have v: "rec_valid MAX_RECORD r"
      unfolding r_def p_def rec_valid_def using item_payload_bound [OF ok] Cons.prems(2) by simp
    have d: "drop (sc_bytes_written s) content = rec_frame r @ frames (chain k (kh_sign k p) (rid + 1) its) @ tail"
      using Cons.prems(4) by (simp add: r_def p_def Let_def)
    have len: "length (rec_frame r) = 40 + length p"
      using length_rec_frame [OF rec_valid_u32 [OF v]] by (simp add: r_def)
    have read: "read_framed_record content (sc_bytes_written s) = FramedOk p (kh_sign k p) (40 + length p)"
      using read_framed_record_frame [OF v Cons.prems(3) d] len by (simp add: r_def)
    have lt: "sc_bytes_written s + (40 + length p) \<le> length content"
      using drop_length_bound [OF d Cons.prems(3)] len by simp
    then have step: "scan_records k si content s = scan_records k si content s'"
      using read scan_check_item [OF ok Cons.prems(2) p_def, of si]
      by (subst scan_records.simps) (simp add: p_def [symmetric] s'_def)
    have s': "length (sc_last_hmac s') = 32" "sc_bytes_written s' = sc_bytes_written s + (40 + length p)"
      "sc_last_hmac s' = kh_sign k p"
      by (simp_all add: s'_def scan_advance_def)
    have "drop (sc_bytes_written s') content = frames (chain k (sc_last_hmac s') (rid + 1) its) @ tail"
      using drop_after [OF d] len s' by simp
    moreover have "list_all (item_ok MAX_RECORD k) its" using Cons.prems by simp
    ultimately have "scan_records k si content s' = scan_records k si content (scan_items k s' (rid + 1) its) \<and>
      drop (sc_bytes_written (scan_items k s' (rid + 1) its)) content = tail \<and>
      sc_bytes_written (scan_items k s' (rid + 1) its) \<le> length content"
      using Cons.IH [of s' "rid + 1"] s' lt by simp
    then show ?case using step by (simp add: Let_def p_def s'_def)
  qed simp
  then show "scan_records k si content s = scan_records k si content (scan_items k s rid its)"
    "drop (sc_bytes_written (scan_items k s rid its)) content = tail"
    "sc_bytes_written (scan_items k s rid its) \<le> length content" by blast+
qed

text \<open>The state after the items.\<close>

lemma scan_items_snoc:
  "scan_items k s rid (its @ [it]) =
     (let s' = scan_items k s rid its;
          p = item_payload k it (sc_last_hmac s') (rid + of_nat (length its))
      in scan_advance s' (parsed_of it (sc_last_hmac s') (rid + of_nat (length its))) (kh_sign k p) (40 + length p))"
  by (induction its arbitrary: s rid) (auto simp: Let_def add.assoc)

lemma scan_items_fields:
  assumes "sc_record_count s = 0" "sc_last_record_id s = None" "sc_last_ts_wall s = []"
    "sc_last_ts_mono_delta s = 0" "\<not> sc_last_record_was_finalize s"
  shows "sc_last_hmac (scan_items k s 0 its) = head_of (sc_last_hmac s) (chain k (sc_last_hmac s) 0 its)"
    "sc_record_count (scan_items k s 0 its) = of_nat (length its)"
    "sc_last_record_id (scan_items k s 0 its) = (if its = [] then None else Some (of_nat (length its) - 1))"
    "sc_last_ts_wall (scan_items k s 0 its) = (if its = [] then [] else in_ts_wall (snd (last its)))"
    "sc_last_ts_mono_delta (scan_items k s 0 its) = (if its = [] then 0 else in_ts_mono_delta (snd (last its)))"
    "sc_last_record_was_finalize (scan_items k s 0 its) \<longleftrightarrow>
       its \<noteq> [] \<and> in_event (snd (last its)) = SEGMENT_FINALIZED"
    "sc_truncated_bytes (scan_items k s 0 its) = sc_truncated_bytes s"
proof -
  show "sc_last_hmac (scan_items k s 0 its) = head_of (sc_last_hmac s) (chain k (sc_last_hmac s) 0 its)"
  proof (induction its rule: rev_induct)
    case (snoc it its)
    then show ?case
      by (simp add: scan_items_snoc Let_def chain_append scan_advance_def) (simp add: head_of_def)
  qed simp
  show "sc_record_count (scan_items k s 0 its) = of_nat (length its)"
    by (induction its rule: rev_induct) (auto simp: assms scan_items_snoc Let_def scan_advance_def)
  show "sc_last_record_id (scan_items k s 0 its) = (if its = [] then None else Some (of_nat (length its) - 1))"
    by (induction its rule: rev_induct) (auto simp: assms scan_items_snoc Let_def scan_advance_def parsed_of_def)
  show "sc_last_ts_wall (scan_items k s 0 its) = (if its = [] then [] else in_ts_wall (snd (last its)))"
    "sc_last_ts_mono_delta (scan_items k s 0 its) = (if its = [] then 0 else in_ts_mono_delta (snd (last its)))"
    "sc_last_record_was_finalize (scan_items k s 0 its) \<longleftrightarrow>
       its \<noteq> [] \<and> in_event (snd (last its)) = SEGMENT_FINALIZED"
    "sc_truncated_bytes (scan_items k s 0 its) = sc_truncated_bytes s"
    by (induction its rule: rev_induct) (auto simp: assms scan_items_snoc Let_def scan_advance_def parsed_of_def)
qed

section \<open>A segment cut at any byte\<close>

text \<open>What follows the whole records is empty or a frame cut short.\<close>

definition cut_frame :: "(bytes \<times> bytes) list \<Rightarrow> nat \<Rightarrow> bytes \<Rightarrow> bool" where
  "cut_frame recs j t \<longleftrightarrow> t = [] \<or>
     (j < length recs \<and> (\<exists>i. t = take i (rec_frame (recs ! j)) \<and> 0 < i \<and> i < length (rec_frame (recs ! j))))"

lemma seg_bytes_cut:
  assumes "list_all (item_ok MAX_RECORD k) its" "length pf = 32" "80 \<le> c"
  obtains j t where "j \<le> length its" "take c (seg_bytes crc k i pf its) = seg_bytes crc k i pf (take j its) @ t"
    "cut_frame (seg_chain k i pf its) j t"
proof -
  let ?recs = "seg_chain k i pf its"
  have "list_all (rec_valid MAX_RECORD) ?recs"
    unfolding seg_chain_def using assms by (intro chain_valid) simp_all
  from scan.frames_take [OF this, of "c - 80"] obtain j t where j: "j \<le> length ?recs"
    "take (c - 80) (concat (map rec_frame ?recs)) = concat (map rec_frame (take j ?recs)) @ t"
    "cut_frame ?recs j t" unfolding cut_frame_def by blast
  have "take c (seg_bytes crc k i pf its) = seg_bytes crc k i pf (take j its) @ t"
    using assms j(2) by (simp add: seg_bytes_def frames_def seg_chain_def take_chain)
  then show thesis using that j by (simp add: seg_chain_def)
qed

lemma scan_torn:
  assumes "list_all (item_ok MAX_RECORD k) its" "length pf = 32" "cut_frame (seg_chain k i pf its) j t"
    and "t \<noteq> []" "drop off content = t" "off < length content"
  shows "read_framed_record content off = Torn"
proof -
  let ?recs = "seg_chain k i pf its"
  from assms(3,4) obtain n where n: "j < length ?recs" "t = take n (rec_frame (?recs ! j))"
    "n < length (rec_frame (?recs ! j))" by (auto simp: cut_frame_def)
  have "list_all (rec_valid MAX_RECORD) ?recs"
    unfolding seg_chain_def using assms(1,2) by (intro chain_valid) simp_all
  then have "rec_valid MAX_RECORD (?recs ! j)" using n(1) by (simp add: list_all_length)
  then show ?thesis using read_framed_record_cut assms(5,6) n(2,3) by blast
qed

definition scan_start :: "bytes \<Rightarrow> scan_result" where
  "scan_start chain_start = \<lparr>sc_record_count = 0, sc_last_record_id = None, sc_bytes_written = HEADER_TOTAL_LEN,
     sc_truncated_bytes = 0, sc_last_hmac = chain_start, sc_last_ts_wall = [],
     sc_last_ts_mono_delta = 0, sc_last_record_was_finalize = False\<rparr>"

lemma scan_records_cut:
  assumes ok: "list_all (item_ok MAX_RECORD k) its" and pf: "length pf = 32" and j: "j \<le> length its"
    and cut: "cut_frame (seg_chain k i pf its) j t"
  defines "s1 \<equiv> scan_items k (scan_start (seg_start k i pf)) 0 (take j its)"
  shows "scan_records k si (seg_bytes crc k i pf (take j its) @ t) (scan_start (seg_start k i pf)) =
      Ok (s1\<lparr>sc_truncated_bytes := length t\<rparr>, seg_bytes crc k i pf (take j its))"
    and "sc_bytes_written s1 = length (seg_bytes crc k i pf (take j its))"
proof -
  let ?c = "seg_bytes crc k i pf (take j its) @ t" let ?s0 = "scan_start (seg_start k i pf)"
  let ?h = "header_to_bytes crc (seg_header k i pf)"
  have okj: "list_all (item_ok MAX_RECORD k) (take j its)"
    using ok by (metis append_take_drop_id list_all_append)
  have h: "length ?h = 80" using pf by simp
  have s0: "sc_bytes_written ?s0 = 80" "sc_last_hmac ?s0 = seg_start k i pf"
    by (simp_all add: scan_start_def HEADER_TOTAL_LEN_def)
  have "drop (sc_bytes_written ?s0) ?c = frames (chain k (sc_last_hmac ?s0) 0 (take j its)) @ t"
    using h by (simp add: s0 seg_bytes_def seg_chain_def)
  moreover have "sc_bytes_written ?s0 \<le> length ?c" using s0 h by (simp add: seg_bytes_def)
  moreover have "length (sc_last_hmac ?s0) = 32" using s0 pf by simp
  ultimately have walk: "scan_records k si ?c ?s0 = scan_records k si ?c s1"
    "drop (sc_bytes_written s1) ?c = t" "sc_bytes_written s1 \<le> length ?c"
    using scan_records_items [OF okj, of ?s0 ?c 0 t] unfolding s1_def by blast+
  show bw: "sc_bytes_written s1 = length (seg_bytes crc k i pf (take j its))"
    using arg_cong [OF walk(2), of length] walk(3) by simp
  have tr: "sc_truncated_bytes s1 = 0"
    unfolding s1_def by (subst scan_items_fields(7)) (simp_all add: scan_start_def)
  show "scan_records k si ?c ?s0 = Ok (s1\<lparr>sc_truncated_bytes := length t\<rparr>, seg_bytes crc k i pf (take j its))"
  proof (cases "t = []")
    case True
    then show ?thesis unfolding walk(1) using bw tr by (subst scan_records.simps) simp
  next
    case False
    then have "read_framed_record ?c (sc_bytes_written s1) = Torn"
      using scan_torn [OF ok pf cut] walk(2) bw by simp
    then show ?thesis unfolding walk(1) using bw False by (subst scan_records.simps) simp
  qed
qed

section \<open>Opening a log whose last segment is cut\<close>

definition log_cut :: "nat \<Rightarrow> log_item list list \<Rightarrow> log_item list list" where
  "log_cut j segs = butlast segs @ [take j (last segs)]"

definition log_closed :: "log_item list list \<Rightarrow> bool" where
  "log_closed segs \<longleftrightarrow> last segs \<noteq> [] \<and> in_event (snd (last (last segs))) = SEGMENT_FINALIZED"

lemma length_log_cut [simp]: "segs \<noteq> [] \<Longrightarrow> length (log_cut j segs) = length segs"
  by (simp add: log_cut_def)

lemma last_log_cut [simp]: "last (log_cut j segs) = take j (last segs)" "log_cut j segs \<noteq> []"
  by (simp_all add: log_cut_def)

lemma log_cut_nth: "Suc i < length segs \<Longrightarrow> log_cut j segs ! i = segs ! i"
  by (simp add: log_cut_def nth_append nth_butlast less_diff_conv)

lemma log_file_cut_other: "Suc i < length segs \<Longrightarrow> log_file crc k (log_cut j segs) i = log_file crc k segs i"
  by (rule log_file_cong) (simp add: log_cut_nth)

lemma log_cut_last:
  assumes "length segs = Suc n"
  shows "log_pf k (log_cut j segs) n = log_pf k segs n" "log_cut j segs ! n = take j (last segs)"
    "segs ! n = last segs"
proof -
  show "log_pf k (log_cut j segs) n = log_pf k segs n"
    using assms by (intro log_pf_cong) (simp add: log_cut_nth)
  show "log_cut j segs ! n = take j (last segs)" using assms by (simp add: log_cut_def nth_append)
  show "segs ! n = last segs" using assms last_conv_nth [of segs] by fastforce
qed

lemma represents_cut:
  assumes wf: "dir_wf d" and len: "length segs = Suc n" "length segs \<le> 65536"
    and other: "\<And>i. unat i \<noteq> n \<Longrightarrow>
      seg_get d i = (if unat i < length segs then Some (log_file crc k segs (unat i)) else None)"
  shows "represents crc k (log_cut j segs) (seg_put (of_nat n) (log_file crc k (log_cut j segs) n) d)"
proof -
  have segs: "segs \<noteq> []" using len by auto
  have un: "unat (of_nat n :: u16) = n" using len by (simp add: unat_of_nat)
  have "seg_get (seg_put (of_nat n) (log_file crc k (log_cut j segs) n) d) i =
    (if unat i < length segs then Some (log_file crc k (log_cut j segs) (unat i)) else None)" for i
  proof (cases "unat i = n")
    case True
    then have "i = of_nat n" using un by (simp add: word_unat_eq_iff)
    then show ?thesis using True len by (simp add: store.put_same)
  next
    case False
    then have "of_nat n \<noteq> i" using un by auto
    moreover have "unat i < length segs \<longleftrightarrow> Suc (unat i) < length segs" using False len by linarith
    ultimately show ?thesis using other [OF False]
      by (simp add: store.put_other log_file_cut_other)
  qed
  then show ?thesis using wf len segs by (simp add: represents_def dir_wf_put)
qed

lemma scan_segment_at:
  assumes n: "n < 65536" and ok: "list_all (item_ok MAX_RECORD k) its" and pf: "length pf = 32"
    and j: "j \<le> length its" and cut: "cut_frame (seg_chain k n pf its) j t"
    and get: "seg_get d (of_nat n) = Some (seg_bytes crc k n pf (take j its) @ t)"
  shows "scan_segment_for_recovery crc k (of_nat n) d =
    Ok ((scan_items k (scan_start (seg_start k n pf)) 0 (take j its))\<lparr>sc_truncated_bytes := length t\<rparr>,
        seg_put (of_nat n) (seg_bytes crc k n pf (take j its)) d)"
proof -
  let ?h = "header_to_bytes crc (seg_header k n pf)" let ?content = "seg_bytes crc k n pf (take j its) @ t"
  have big: "80 \<le> length ?content" using seg_bytes_length_ge [OF pf] by (simp add: le_trans [OF _ le_add1])
  have hb: "slice ?content 0 80 = ?h" using pf by (simp add: seg_bytes_def slice_def)
  have parse: "header_parse crc ?h = Ok (seg_header k n pf)"
    using header_parse_to_bytes [of "seg_header k n pf" crc "[]"] pf by simp
  have body: "slice ?h 0 72 = header_body (seg_header k n pf)"
    using header_fields(6) [of "seg_header k n pf" crc "[]"] pf by simp
  have un: "unat (of_nat n :: u16) = n" using n by (simp add: unat_of_nat)
  have n0: "(of_nat n :: u16) = 0 \<longleftrightarrow> n = 0" unfolding word_unat_eq_iff un by simp
  have start: "(if (of_nat n :: u16) = 0 then kh_sign k (slice ?h 0 72)
      else hdr_prev_final (seg_header k n pf)) = seg_start k n pf"
    unfolding n0 body by (simp add: seg_start_def) (simp add: seg_header_def)
  show ?thesis
    unfolding scan_segment_for_recovery_def get option.case Let_def HEADER_TOTAL_LEN_def
      HEADER_BODY_LEN_def hb
    using big scan_records_cut(1) [OF ok pf j cut, of "of_nat n" crc]
    by (simp add: parse start scan_start_def HEADER_TOTAL_LEN_def)
qed

lemma scan_segment_cut:
  assumes rep: "represents crc k segs d" and len: "length segs = Suc n"
    and ok: "log_ok MAX_RECORD k segs" and c: "80 \<le> c"
    and get: "seg_get d' (of_nat n) = Some (take c (log_file crc k segs n))"
  obtains j t where "j \<le> length (last segs)"
    "take c (log_file crc k segs n) = log_file crc k (log_cut j segs) n @ t"
    "cut_frame (seg_chain k n (log_pf k segs n) (last segs)) j t"
    "scan_segment_for_recovery crc k (of_nat n) d' =
      Ok ((scan_items k (scan_start (seg_start k n (log_pf k segs n))) 0 (take j (last segs)))
            \<lparr>sc_truncated_bytes := length t\<rparr>,
          seg_put (of_nat n) (log_file crc k (log_cut j segs) n) d')"
    "sc_bytes_written (scan_items k (scan_start (seg_start k n (log_pf k segs n))) 0 (take j (last segs)))
      = length (log_file crc k (log_cut j segs) n)"
proof -
  let ?pf = "log_pf k segs n" let ?its = "last segs"
  have okl: "list_all (item_ok MAX_RECORD k) ?its"
    using ok len last_in_set [of segs] by (fastforce simp: log_ok_def list_all_iff)
  have pf: "length ?pf = 32" by simp
  obtain j t where j: "j \<le> length ?its"
    "take c (seg_bytes crc k n ?pf ?its) = seg_bytes crc k n ?pf (take j ?its) @ t"
    "cut_frame (seg_chain k n ?pf ?its) j t"
    using seg_bytes_cut [OF okl pf c] by blast
  have fil: "log_file crc k segs n = seg_bytes crc k n ?pf ?its"
    "log_file crc k (log_cut j segs) n = seg_bytes crc k n ?pf (take j ?its)"
    using log_cut_last(1) [OF len, of k j] log_cut_last(2,3) [OF len] by (simp_all add: log_file_def)
  have n: "n < 65536" using rep len by (simp add: represents_def)
  have "seg_get d' (of_nat n) = Some (seg_bytes crc k n ?pf (take j ?its) @ t)" using get fil(1) j(2) by simp
  from scan_segment_at [OF n okl pf j(1,3) this] show thesis
    using that [of j t] j fil scan_records_cut(2) [OF okl pf j(1,3), of crc] by simp
qed

text \<open>Opening the directory: the writer is at the cut log, or at its next segment.\<close>

lemma with_config_cut:
  assumes rep: "represents crc k segs d" and segs: "segs \<noteq> []" "length segs \<le> 10000"
    and ok: "log_ok MAX_RECORD k segs" and c: "80 \<le> c" and sid: "length sid = 16"
  defines "n \<equiv> length segs - 1"
  defines "d' \<equiv> seg_put (of_nat n) (take c (log_file crc k segs n)) d"
  obtains j t w d'' where "j \<le> length (last segs)"
    "take c (log_file crc k segs n) = log_file crc k (log_cut j segs) n @ t"
    "cut_frame (seg_chain k n (log_pf k segs n) (last segs)) j t"
    "with_config crc k sid cfg d' = (d'', Ok w)"
    "writer_at crc (if log_closed (log_cut j segs) then log_cut j segs @ [[]] else log_cut j segs) (w, d'')"
    "w_key w = k" "w_session_id w = sid" "rep_truncated_bytes (w_recovery w) = length t"
    "rep_action (w_recovery w) = (if log_closed (log_cut j segs) then OpenedNextAfterFinalized
       else if t = [] then Resumed else Repaired)"
proof -
  have len: "length segs = Suc n" using segs by (simp add: n_def)
  have un: "unat (of_nat n :: u16) = n" using len segs by (simp add: unat_of_nat)
  have get: "seg_get d' (of_nat n) = Some (take c (log_file crc k segs n))"
    by (simp add: d'_def store.put_same)
  have wf: "dir_wf d'" using rep by (simp add: d'_def dir_wf_put represents_def)
  have other: "seg_get d' i = (if unat i < length segs then Some (log_file crc k segs (unat i)) else None)"
    if "unat i \<noteq> n" for i
  proof -
    have "of_nat n \<noteq> i" using that un by auto
    then show ?thesis using rep by (simp add: d'_def store.put_other represents_def)
  qed
  have "seg_get d' i \<noteq> None \<longleftrightarrow> unat i \<le> n" for i
  proof (cases "unat i = n")
    case True
    then have "i = of_nat n" using un by (simp add: word_unat_eq_iff)
    then show ?thesis using get True by simp
  next
    case False
    then show ?thesis using other len by auto
  qed
  then have idx: "list_segment_indices d' = map of_nat [0..<Suc n]"
    using store.indices_contiguous [OF wf] len segs(2) by simp
  obtain j t where j: "j \<le> length (last segs)"
    "take c (log_file crc k segs n) = log_file crc k (log_cut j segs) n @ t"
    "cut_frame (seg_chain k n (log_pf k segs n) (last segs)) j t"
    "scan_segment_for_recovery crc k (of_nat n) d' =
      Ok ((scan_items k (scan_start (seg_start k n (log_pf k segs n))) 0 (take j (last segs)))
            \<lparr>sc_truncated_bytes := length t\<rparr>,
          seg_put (of_nat n) (log_file crc k (log_cut j segs) n) d')"
    "sc_bytes_written (scan_items k (scan_start (seg_start k n (log_pf k segs n))) 0 (take j (last segs)))
      = length (log_file crc k (log_cut j segs) n)"
    using scan_segment_cut [OF rep len ok c get] by blast
  let ?segs = "log_cut j segs" let ?its = "take j (last segs)"
  let ?pf = "log_pf k segs n"
  define sc where "sc = (scan_items k (scan_start (seg_start k n ?pf)) 0 ?its)\<lparr>sc_truncated_bytes := length t\<rparr>"
  define d1 where "d1 = seg_put (of_nat n) (log_file crc k ?segs n) d'"
  have rep1: "represents crc k ?segs d1"
    unfolding d1_def using segs(2) by (intro represents_cut [OF wf len _ other]) simp_all
  have s0: "sc_record_count (scan_start x) = 0" "sc_last_record_id (scan_start x) = None"
    "sc_last_ts_wall (scan_start x) = []" "sc_last_ts_mono_delta (scan_start x) = 0"
    "\<not> sc_last_record_was_finalize (scan_start x)" "sc_last_hmac (scan_start x) = x" for x
    by (simp_all add: scan_start_def)
  note fl = scan_items_fields [OF s0(1-5), of k "seg_start k n ?pf" ?its, unfolded s0(6)]
  have fin: "sc_last_hmac sc = seg_final k n (log_pf k ?segs n) ?its"
    using fl(1) log_cut_last(1) [OF len, of k j] by (simp add: sc_def seg_final_def seg_chain_def)
  have closed: "sc_last_record_was_finalize sc \<longleftrightarrow> log_closed ?segs"
    using fl(6) by (simp add: sc_def log_closed_def)
  have scan: "scan_segment_for_recovery crc k (of_nat n) d' = Ok (sc, d1)"
    using j(4) by (simp add: sc_def d1_def)
  have nonempty: "list_segment_indices d' \<noteq> []" "last (list_segment_indices d') = of_nat n"
    by (simp_all add: idx)
  have lens: "length ?segs = Suc n" using len segs by simp
  show thesis
  proof (cases "log_closed ?segs")
    case True
    have "(of_nat n :: u16) \<noteq> - 1"
    proof
      assume "(of_nat n :: u16) = - 1"
      moreover have "(- 1 :: u16) = 65535" by simp
      ultimately have "unat (of_nat n :: u16) = unat (65535 :: u16)" by (simp only:)
      then show False using un len segs(2) by simp
    qed
    define new where "new = segment_create_next crc (of_nat n + 1) (kh_key_id k) (sc_last_hmac sc) d1"
    have pf: "sc_last_hmac sc = log_pf k (?segs @ [[]]) (length ?segs)"
    proof -
      have "log_pf k (?segs @ [[]]) n = log_pf k ?segs n"
        by (rule log_pf_cong) (simp add: nth_append lens)
      then show ?thesis using fin log_cut_last(2) [OF len, of j] lens by (simp add: nth_append)
    qed
    have "of_nat n + 1 = (of_nat (length ?segs) :: u16)" using lens by simp
    note nw = represents_new [OF rep1 _ last_log_cut(2) pf, folded this, folded new_def]
    have "length ?segs < 65536" using segs by simp
    note nw = nw [OF this]
    define w where "w = \<lparr>w_key = k, w_session_id = sid, w_config = cfg, w_current = fst new,
      w_recovery = \<lparr>rep_action = OpenedNextAfterFinalized, rep_current_segment_index = of_nat n + 1,
        rep_last_record_id = sc_last_record_id sc, rep_records_in_current_segment = 0,
        rep_truncated_bytes = sc_truncated_bytes sc, rep_segments_scanned = 1,
        rep_last_hmac = sc_last_hmac sc\<rparr>\<rparr>"
    have "with_config crc k sid cfg d' = (snd new, Ok w)"
      using nonempty scan closed True \<open>(of_nat n :: u16) \<noteq> - 1\<close>
      by (simp add: with_config_def Let_def case_prod_unfold w_def new_def)
    moreover have "writer_at crc (?segs @ [[]]) (w, snd new)"
      using nw sid by (simp add: writer_at_def w_def)
    ultimately show thesis using that [OF j(1-3), of "snd new" w] True by (simp add: w_def sc_def)
  next
    case False
    define st where "st = \<lparr>st_index = of_nat n, st_pos = sc_bytes_written sc,
      st_bytes_written = sc_bytes_written sc, st_last_hmac = sc_last_hmac sc,
      st_next_record_id = unwrap_or 0 (map_option (\<lambda>r. r + 1) (sc_last_record_id sc)),
      st_record_count = sc_record_count sc, st_last_ts_wall = sc_last_ts_wall sc,
      st_last_ts_mono_delta = sc_last_ts_mono_delta sc\<rparr>"
    have "reopen_segment_for_append (of_nat n) sc d1 = Ok st"
      by (simp add: reopen_segment_for_append_def d1_def store.put_same st_def)
    define w where "w = \<lparr>w_key = k, w_session_id = sid, w_config = cfg, w_current = st,
      w_recovery = \<lparr>rep_action = (if 0 < sc_truncated_bytes sc then Repaired else Resumed),
        rep_current_segment_index = of_nat n, rep_last_record_id = sc_last_record_id sc,
        rep_records_in_current_segment = sc_record_count sc,
        rep_truncated_bytes = sc_truncated_bytes sc, rep_segments_scanned = 1,
        rep_last_hmac = sc_last_hmac sc\<rparr>\<rparr>"
    have "with_config crc k sid cfg d' = (d1, Ok w)"
      using nonempty scan closed False \<open>reopen_segment_for_append (of_nat n) sc d1 = Ok st\<close>
      by (simp add: with_config_def Let_def w_def)
    moreover have "seg_state_at crc k ?segs st"
      using fin fl j(5) lens log_cut_last(1) [OF len, of k j]
      by (simp add: seg_state_at_def st_def sc_def unwrap_or_def)
    then have "writer_at crc ?segs (w, d1)"
      using rep1 sid by (simp add: writer_at_def w_def)
    ultimately show thesis using that [OF j(1-3), of d1 w] False by (simp add: w_def sc_def)
  qed
qed

end
