(* ===== verification/Checkpoint.thy ===== *)
theory Checkpoint
  imports Key
begin

text \<open>
  External chain-head checkpoints (\<^verbatim>\<open>checkpoint.rs\<close>): a position and the tag that was
  observed there, kept outside the log.
\<close>

record checkpoint =
  cp_key_id :: bytes
  cp_segment :: u16
  cp_record_id :: u64
  cp_hmac :: bytes
  cp_observed_at :: bytes

definition matches_key :: "checkpoint \<Rightarrow> bytes \<Rightarrow> bool" where
  "matches_key cp key_id \<longleftrightarrow> cp_key_id cp = key_id"

definition is_position :: "checkpoint \<Rightarrow> u16 \<Rightarrow> u64 \<Rightarrow> bool" where
  "is_position cp segment record_id \<longleftrightarrow> cp_segment cp = segment \<and> cp_record_id cp = record_id"

end
