(* ===== verification/Verifier.thy ===== *)
theory Verifier
  imports Records Log_Dir Cbor Timestamps Checkpoint
begin

text \<open>
  The verifier of format \<^verbatim>\<open>0x0001\<close> (\<^verbatim>\<open>verifier.rs\<close>): the report it produces, the checks of a
  header and of a record in the order of the code, the walk over the records of a segment
  and over the segments, and the forensic mode that goes on after a violation. Messages
  are not modelled. An early \<^verbatim>\<open>return Ok(report)\<close> is the value \<open>Return report\<close> of the
  error side, which \<open>verify_with_options\<close> turns back into a result.
\<close>

definition MAX_TS_DRIFT_MS :: int where "MAX_TS_DRIFT_MS = 60000"

section \<open>Reports\<close>

datatype violation_kind =
    KHmacMismatch | KChainBreak | KRecordCorrupt | KTimestampRegression | KTimestampInconsistency
  | KSegmentDiscontinuity | KKeyIdMismatch | KHeaderCorrupt | KUnknownVersion
  | KCheckpointMismatch | KCheckpointTruncated | KSignatureInvalid | KUntrustedSigner
  | KRevokedKey | KRetiredKey | KTransitionEquivocation | KAlgorithmMismatch
  | KUnsupportedAlgorithm | KLogIdMismatch | KSealedLogExtended | KCheckpointForDifferentLog
  | KFormatDowngrade | KAttestationMissing | KAttestationMalformed | KReleaseIdMismatch
  | KFileMissing | KFileAltered | KUnattestedFile

fun kind_as_str :: "violation_kind \<Rightarrow> string" where
  "kind_as_str KHmacMismatch = ''HmacMismatch''"
| "kind_as_str KChainBreak = ''ChainBreak''"
| "kind_as_str KRecordCorrupt = ''RecordCorrupt''"
| "kind_as_str KTimestampRegression = ''TimestampRegression''"
| "kind_as_str KTimestampInconsistency = ''TimestampInconsistency''"
| "kind_as_str KSegmentDiscontinuity = ''SegmentDiscontinuity''"
| "kind_as_str KKeyIdMismatch = ''KeyIdMismatch''"
| "kind_as_str KHeaderCorrupt = ''HeaderCorrupt''"
| "kind_as_str KUnknownVersion = ''UnknownVersion''"
| "kind_as_str KCheckpointMismatch = ''CheckpointMismatch''"
| "kind_as_str KCheckpointTruncated = ''CheckpointTruncated''"
| "kind_as_str KSignatureInvalid = ''SignatureInvalid''"
| "kind_as_str KUntrustedSigner = ''UntrustedSigner''"
| "kind_as_str KRevokedKey = ''RevokedKey''"
| "kind_as_str KRetiredKey = ''RetiredKey''"
| "kind_as_str KTransitionEquivocation = ''TransitionEquivocation''"
| "kind_as_str KAlgorithmMismatch = ''AlgorithmMismatch''"
| "kind_as_str KUnsupportedAlgorithm = ''UnsupportedAlgorithm''"
| "kind_as_str KLogIdMismatch = ''LogIdMismatch''"
| "kind_as_str KSealedLogExtended = ''SealedLogExtended''"
| "kind_as_str KCheckpointForDifferentLog = ''CheckpointForDifferentLog''"
| "kind_as_str KFormatDowngrade = ''FormatDowngrade''"
| "kind_as_str KAttestationMissing = ''AttestationMissing''"
| "kind_as_str KAttestationMalformed = ''AttestationMalformed''"
| "kind_as_str KReleaseIdMismatch = ''ReleaseIdMismatch''"
| "kind_as_str KFileMissing = ''FileMissing''"
| "kind_as_str KFileAltered = ''FileAltered''"
| "kind_as_str KUnattestedFile = ''UnattestedFile''"

datatype record_corrupt_subkind = TornTailSub | DecodeErrorSub

datatype header_corrupt_subkind =
    CrcMismatchSub u32 u32
  | BadMagicSub bytes
  | TruncatedSub
  | ReservedBytesNonZero bytes

datatype violation_evidence =
    EvHmacMismatch bytes bytes nat nat
  | EvChainBreak bytes bytes "u64 option" bool
  | EvRecordCorrupt record_corrupt_subkind
  | EvTimestampRegression bytes bytes int bool
  | EvTimestampInconsistency bytes bytes bytes u64 u64 int int u64
  | EvSegmentDiscontinuity bytes bytes u16 bytes
  | EvCheckpointMismatch bytes bytes bytes
  | EvCheckpointTruncated bytes bytes "u16 option" nat
  | EvKeyIdMismatch bytes bytes
  | EvHeaderCorrupt header_corrupt_subkind
  | EvUnknownVersion u16 "u16 list"

record violation_location =
  loc_segment_index :: u16
  loc_record_id :: "u64 option"
  loc_byte_offset :: nat

record violation =
  v_kind :: violation_kind
  v_location :: violation_location
  v_evidence :: violation_evidence

definition violation_at ::
  "violation_kind \<Rightarrow> u16 \<Rightarrow> u64 option \<Rightarrow> nat \<Rightarrow> violation_evidence \<Rightarrow> violation" where
  "violation_at kind si rid off ev =
     \<lparr>v_kind = kind,
      v_location = \<lparr>loc_segment_index = si, loc_record_id = rid, loc_byte_offset = off\<rparr>,
      v_evidence = ev\<rparr>"

datatype verdict = Verified | HasViolation | SelfConsistent

record log_summary =
  sum_key_id_hex :: bytes
  sum_segments_inspected :: nat
  sum_records_inspected :: nat
  sum_first_segment_index :: "u16 option"
  sum_last_segment_index :: "u16 option"
  sum_final_hmac_hex :: "bytes option"

record verify_report =
  rpt_format_version :: u16
  rpt_verdict :: verdict
  rpt_log :: log_summary
  rpt_violation :: "violation option"
  rpt_additional_violations :: "violation list"

definition compact_verdict :: "verify_report \<Rightarrow> bytes" where
  "compact_verdict r =
     (case (rpt_verdict r, rpt_violation r) of
        (Verified, _) \<Rightarrow> ascii ''Verified''
      | (HasViolation, Some v) \<Rightarrow>
          (case loc_record_id (v_location v) of
             Some rid \<Rightarrow> ascii (kind_as_str (v_kind v)) @ ascii ''@s''
               @ dec_digits (unat (loc_segment_index (v_location v))) @ ascii ''r'' @ dec_digits (unat rid)
           | None \<Rightarrow> ascii (kind_as_str (v_kind v)) @ ascii ''@s''
               @ dec_digits (unat (loc_segment_index (v_location v))))
      | (SelfConsistent, _) \<Rightarrow> ascii ''SelfConsistent''
      | _ \<Rightarrow> ascii ''Violation'')"

record verify_options =
  opt_forensic_mode :: bool
  opt_checkpoint :: "checkpoint option"

definition default_options :: verify_options where
  "default_options = \<lparr>opt_forensic_mode = False, opt_checkpoint = None\<rparr>"

datatype verify_error =
    OpenError reader_error
  | ReadError reader_error
  | CheckpointKeyMismatch bytes bytes
  | NoSegments

datatype verify_exit = Return verify_report | Fail verify_error

definition push_violation :: "verify_report \<Rightarrow> violation \<Rightarrow> verify_options \<Rightarrow> verify_report \<times> bool" where
  "push_violation report v opts =
     (if rpt_violation report = None
      then report\<lparr>rpt_verdict := HasViolation, rpt_violation := Some v\<rparr>
      else report\<lparr>rpt_additional_violations := rpt_additional_violations report @ [v]\<rparr>,
      opt_forensic_mode opts)"

section \<open>Headers\<close>

text \<open>\<open>None\<close> is a file that cannot be opened or holds fewer than 80 bytes.\<close>

definition read_segment_header_bytes :: "dir \<Rightarrow> u16 \<Rightarrow> bytes option" where
  "read_segment_header_bytes d si =
     (case seg_get d si of None \<Rightarrow> None
      | Some content \<Rightarrow>
          if length content < HEADER_TOTAL_LEN then None else Some (slice content 0 HEADER_TOTAL_LEN))"

definition header_violation :: "u16 \<Rightarrow> violation" where
  "header_violation si = violation_at KHeaderCorrupt si None 0 (EvHeaderCorrupt TruncatedSub)"

definition parse_and_validate_header ::
  "(bytes \<Rightarrow> u32) \<Rightarrow> bytes \<Rightarrow> u16 \<Rightarrow> bytes \<Rightarrow> (segment_header, violation) result" where
  "parse_and_validate_header crc bs si expected_key_id =
     (if slice bs 0 4 \<noteq> FORMAT_MAGIC then
        Err (violation_at KHeaderCorrupt si None 0 (EvHeaderCorrupt (BadMagicSub (hex (slice bs 0 4)))))
      else
        let version = u16_at bs 4 in
        if version \<noteq> FORMAT_VERSION then
          Err (violation_at KUnknownVersion si None 4 (EvUnknownVersion version [FORMAT_VERSION]))
        else
          let stored_crc = u32_at bs 72; computed_crc = crc (slice bs 0 HEADER_BODY_LEN) in
          if stored_crc \<noteq> computed_crc then
            Err (violation_at KHeaderCorrupt si None 72
                  (EvHeaderCorrupt (CrcMismatchSub computed_crc stored_crc)))
          else
            let key_id = slice bs 8 32; prev_final = slice bs 40 32 in
            if \<not> ct_eq key_id expected_key_id then
              Err (violation_at KKeyIdMismatch si None 8 (EvKeyIdMismatch (hex key_id) (hex expected_key_id)))
            else if slice bs 76 4 \<noteq> replicate 4 0 then
              Err (violation_at KHeaderCorrupt si None 76
                    (EvHeaderCorrupt (ReservedBytesNonZero (hex (slice bs 76 4)))))
            else Ok \<lparr>hdr_version = version, hdr_segment_index = u16_at bs 6, hdr_key_id = key_id,
                     hdr_prev_final = prev_final\<rparr>)"

section \<open>Records\<close>

record framed_record =
  fr_payload_bytes :: bytes
  fr_hmac :: bytes
  fr_file_offset :: nat

definition read_framed_bytes :: "bytes \<Rightarrow> u16 \<Rightarrow> nat \<Rightarrow> (framed_record option, reader_error) result" where
  "read_framed_bytes content si offset =
     (if length content \<le> offset then Ok None
      else if length content - offset < 4 then Err (TornTail si offset)
      else
        let len_prefix = unat (u32_at content offset);
            framed_total = 4 + len_prefix + HMAC_LEN + 4
        in if length content - offset < framed_total then Err (TornTail si offset)
           else
             let payload_bytes = slice content (offset + 4) len_prefix;
                 hmac_bytes = slice content (offset + 4 + len_prefix) HMAC_LEN;
                 len_trailer = unat (u32_at content (offset + 4 + len_prefix + HMAC_LEN))
             in if len_trailer \<noteq> len_prefix then Err (TornTail si offset)
                else Ok (Some \<lparr>fr_payload_bytes = payload_bytes, fr_hmac = hmac_bytes,
                               fr_file_offset = offset\<rparr>))"

definition dec_int :: "int \<Rightarrow> bytes" where
  "dec_int i = (if i < 0 then 45 # dec_digits (nat (- i)) else dec_digits (nat i))"

definition check_timestamps ::
  "audit_record \<Rightarrow> u16 \<Rightarrow> bytes option \<Rightarrow> int option \<Rightarrow> violation option" where
  "check_timestamps r si prior_session_id prior_ts_wall_ms =
     (let current_ms = parse_ts_ms (r_ts_wall r) in
      case prior_ts_wall_ms of
        None \<Rightarrow> None
      | Some prev_ms \<Rightarrow>
          let delta = current_ms - prev_ms in
          if delta < - MAX_TS_DRIFT_MS then
            let across = (case prior_session_id of Some prev \<Rightarrow> prev \<noteq> r_session_id r | None \<Rightarrow> False)
            in Some (violation_at KTimestampRegression si (Some (r_record_id r)) (r_file_offset r)
                 (EvTimestampRegression (r_ts_wall r)
                   (ascii ''(parsed: '' @ dec_int prev_ms @ ascii '' ms since epoch)'') delta across))
          else None)"

text \<open>The variables that live across segments and those of one segment.\<close>

record verify_state =
  vs_report :: verify_report
  vs_prior_segment_final :: "bytes option"
  vs_prior_session_id :: "bytes option"
  vs_prior_ts_wall_ms :: "int option"
  vs_checkpoint_reached :: bool

record segment_walk =
  sw_vs :: verify_state
  sw_prev :: bytes
  sw_record_offset :: nat
  sw_last_hmac_in_segment :: bytes
  sw_record_id_in_segment :: u64

text \<open>Steps 2 to 8 on one framed record: the record and whether it is the checkpointed one,
  or the first violation.\<close>

definition check_record ::
  "key_handle \<Rightarrow> verify_options \<Rightarrow> u16 \<Rightarrow> segment_header \<Rightarrow> segment_walk \<Rightarrow> framed_record
   \<Rightarrow> (audit_record \<times> bool, violation + verify_error) result" where
  "check_record key opts si header sw framed =
     (let payload = fr_payload_bytes framed;
          off = fr_file_offset framed;
          computed = kh_sign key payload;
          corrupt = Inl (violation_at KRecordCorrupt si (Some (sw_record_id_in_segment sw)) off
                           (EvRecordCorrupt DecodeErrorSub))
      in
      if \<not> ct_eq computed (fr_hmac framed) then
        Err (Inl (violation_at KHmacMismatch si (Some (sw_record_id_in_segment sw)) off
               (EvHmacMismatch (hex computed) (hex (fr_hmac framed)) (length payload) (off + 4))))
      else
        bind_res (map_err (\<lambda>e. corrupt) (decode payload)) (\<lambda>record_map.
        bind_res (map_err (\<lambda>e. case e of Decode s p \<Rightarrow> corrupt | _ \<Rightarrow> Inr (ReadError e))
            (reader_decode_record_map record_map si off payload (fr_hmac framed))) (\<lambda>r.
          if \<not> ct_eq (r_prev_hash r) (sw_prev sw) then
            let is_genesis = (si = 0 \<and> r_record_id r = 0) in
            Err (Inl (violation_at KChainBreak si (Some (r_record_id r)) (r_file_offset r)
                   (EvChainBreak (hex (sw_prev sw)) (hex (r_prev_hash r))
                     (if is_genesis then None
                      else Some (if r_record_id r = 0 then 0 else r_record_id r - 1)) is_genesis)))
          else if r_key_id r \<noteq> kh_key_id key then
            Err (Inl (violation_at KKeyIdMismatch si (Some (r_record_id r)) (r_file_offset r)
                   (EvKeyIdMismatch (hex (hdr_key_id header)) (hex (r_key_id r)))))
          else
            (case check_timestamps r si (vs_prior_session_id (sw_vs sw)) (vs_prior_ts_wall_ms (sw_vs sw)) of
               Some v \<Rightarrow> Err (Inl v)
             | None \<Rightarrow>
                 (case opt_checkpoint opts of
                    None \<Rightarrow> Ok (r, False)
                  | Some cp \<Rightarrow>
                      if is_position cp si (r_record_id r) then
                        if ct_eq (r_hmac r) (cp_hmac cp) then Ok (r, True)
                        else Err (Inl (violation_at KCheckpointMismatch si (Some (r_record_id r))
                               (r_file_offset r)
                               (EvCheckpointMismatch (hex (cp_hmac cp)) (hex (r_hmac r)) (cp_observed_at cp))))
                      else Ok (r, False))))))"

definition walk_advance :: "audit_record \<Rightarrow> bool \<Rightarrow> segment_walk \<Rightarrow> segment_walk" where
  "walk_advance r reached sw =
     sw\<lparr>sw_vs := (sw_vs sw)\<lparr>vs_prior_session_id := Some (r_session_id r),
           vs_prior_ts_wall_ms := Some (parse_ts_ms (r_ts_wall r)),
           vs_checkpoint_reached := vs_checkpoint_reached (sw_vs sw) \<or> reached\<rparr>,
        sw_prev := r_hmac r,
        sw_last_hmac_in_segment := r_hmac r,
        sw_record_offset := sw_record_offset sw + (4 + length (r_payload_bytes r) + HMAC_LEN + 4),
        sw_record_id_in_segment := r_record_id r + 1\<rparr>"

definition count_record :: "segment_walk \<Rightarrow> segment_walk" where
  "count_record sw =
     sw\<lparr>sw_vs := (sw_vs sw)\<lparr>vs_report := (vs_report (sw_vs sw))\<lparr>rpt_log :=
       (rpt_log (vs_report (sw_vs sw)))\<lparr>sum_records_inspected :=
          sum_records_inspected (rpt_log (vs_report (sw_vs sw))) + 1\<rparr>\<rparr>\<rparr>\<rparr>"

text \<open>\<^verbatim>\<open>push_violation\<close> and the return that follows it outside forensic mode.\<close>

definition note_violation ::
  "verify_options \<Rightarrow> violation \<Rightarrow> verify_state \<Rightarrow> (verify_state, verify_exit) result" where
  "note_violation opts v vs =
     (let (report, go_on) = push_violation (vs_report vs) v opts
      in if go_on then Ok (vs\<lparr>vs_report := report\<rparr>) else Err (Return report))"

lemma read_framed_inside:
  "read_framed_bytes content si off = Ok (Some f) \<Longrightarrow> off < length content"
  by (auto simp: read_framed_bytes_def split: if_splits)

text \<open>The loop over the records of a segment; the flag is \<^verbatim>\<open>segment_violated\<close>.\<close>

function verify_records ::
  "key_handle \<Rightarrow> verify_options \<Rightarrow> u16 \<Rightarrow> segment_header \<Rightarrow> bytes \<Rightarrow> segment_walk
   \<Rightarrow> (segment_walk \<times> bool, verify_exit) result" where
  "verify_records key opts si header content sw =
     (case read_framed_bytes content si (sw_record_offset sw) of
        Panic \<Rightarrow> Panic
      | Err e \<Rightarrow>
          (case e of
             TornTail s offset \<Rightarrow>
               bind_res (note_violation opts
                   (violation_at KRecordCorrupt si None offset (EvRecordCorrupt TornTailSub)) (sw_vs sw))
                 (\<lambda>vs. Ok (sw\<lparr>sw_vs := vs\<rparr>, True))
           | _ \<Rightarrow> Err (Fail (ReadError e)))
      | Ok None \<Rightarrow> Ok (sw, False)
      | Ok (Some framed) \<Rightarrow>
          let sw1 = count_record sw in
          (case check_record key opts si header sw1 framed of
             Panic \<Rightarrow> Panic
           | Err (Inr e) \<Rightarrow> Err (Fail e)
           | Err (Inl v) \<Rightarrow>
               bind_res (note_violation opts v (sw_vs sw1)) (\<lambda>vs. Ok (sw1\<lparr>sw_vs := vs\<rparr>, True))
           | Ok (r, reached) \<Rightarrow>
               verify_records key opts si header content (walk_advance r reached sw1)))"
  by auto
termination
  by (relation "measure (\<lambda>(key, opts, si, header, content, sw). length content - sw_record_offset sw)")
    (auto simp: walk_advance_def count_record_def dest: read_framed_inside)

declare verify_records.simps [simp del]

section \<open>Segments\<close>

definition count_segment :: "u16 \<Rightarrow> verify_state \<Rightarrow> verify_state" where
  "count_segment si vs =
     vs\<lparr>vs_report := (vs_report vs)\<lparr>rpt_log := (rpt_log (vs_report vs))
       \<lparr>sum_segments_inspected := sum_segments_inspected (rpt_log (vs_report vs)) + 1,
        sum_last_segment_index := Some si\<rparr>\<rparr>\<rparr>"

definition verify_segment ::
  "(bytes \<Rightarrow> u32) \<Rightarrow> key_handle \<Rightarrow> verify_options \<Rightarrow> dir \<Rightarrow> u16 \<Rightarrow> verify_state
   \<Rightarrow> (verify_state, verify_exit) result" where
  "verify_segment crc key opts d si vs0 =
     (let vs = count_segment si vs0 in
      case read_segment_header_bytes d si of
        None \<Rightarrow> note_violation opts (header_violation si) vs
      | Some header_bytes \<Rightarrow>
          (case parse_and_validate_header crc header_bytes si (kh_key_id key) of
             Panic \<Rightarrow> Panic
           | Err v \<Rightarrow> note_violation opts v vs
           | Ok header \<Rightarrow>
               let discontinuity = (case vs_prior_segment_final vs of
                     None \<Rightarrow> None
                   | Some prev_final \<Rightarrow>
                       if \<not> ct_eq (hdr_prev_final header) prev_final
                       then Some (violation_at KSegmentDiscontinuity si None 40
                              (EvSegmentDiscontinuity (hex prev_final) (hex (hdr_prev_final header))
                                (if si = 0 then si else si - 1) (hex prev_final)))
                       else None)
               in case discontinuity of
                    Some v \<Rightarrow> note_violation opts v vs
                  | None \<Rightarrow>
                      let prev = (if si = 0 then kh_sign key (slice header_bytes 0 HEADER_BODY_LEN)
                                  else hdr_prev_final header);
                          content = (case seg_get d si of Some c \<Rightarrow> c | None \<Rightarrow> [])
                      in bind_res (verify_records key opts si header content
                             \<lparr>sw_vs = vs, sw_prev = prev, sw_record_offset = HEADER_TOTAL_LEN,
                              sw_last_hmac_in_segment = prev, sw_record_id_in_segment = 0\<rparr>)
                           (\<lambda>(sw, segment_violated).
                              Ok (if segment_violated then sw_vs sw
                                  else (sw_vs sw)\<lparr>vs_prior_segment_final :=
                                         Some (sw_last_hmac_in_segment sw)\<rparr>))))"

primrec verify_segments ::
  "(bytes \<Rightarrow> u32) \<Rightarrow> key_handle \<Rightarrow> verify_options \<Rightarrow> dir \<Rightarrow> u16 list \<Rightarrow> verify_state
   \<Rightarrow> (verify_state, verify_exit) result" where
  "verify_segments crc key opts d [] vs = Ok vs"
| "verify_segments crc key opts d (si # sis) vs =
     bind_res (verify_segment crc key opts d si vs) (verify_segments crc key opts d sis)"

text \<open>What follows the loop: the chain head and the truncation check.\<close>

definition finish_report :: "verify_options \<Rightarrow> verify_state \<Rightarrow> verify_report" where
  "finish_report opts vs =
     (let report = (vs_report vs)\<lparr>rpt_log := (rpt_log (vs_report vs))
            \<lparr>sum_final_hmac_hex := map_option hex (vs_prior_segment_final vs)\<rparr>\<rparr>
      in case opt_checkpoint opts of
           None \<Rightarrow> report
         | Some cp \<Rightarrow>
             if \<not> vs_checkpoint_reached vs \<and> rpt_violation report = None then
               fst (push_violation report
                 (violation_at KCheckpointTruncated (cp_segment cp) (Some (cp_record_id cp)) 0
                   (EvCheckpointTruncated (hex (cp_hmac cp)) (cp_observed_at cp)
                     (sum_last_segment_index (rpt_log report)) (sum_records_inspected (rpt_log report))))
                 opts)
             else report)"

definition initial_state :: "key_handle \<Rightarrow> u16 list \<Rightarrow> verify_state" where
  "initial_state key segments =
     \<lparr>vs_report =
        \<lparr>rpt_format_version = FORMAT_VERSION, rpt_verdict = Verified,
         rpt_log = \<lparr>sum_key_id_hex = hex (kh_key_id key), sum_segments_inspected = 0,
           sum_records_inspected = 0,
           sum_first_segment_index = (if segments = [] then None else Some (hd segments)),
           sum_last_segment_index = None, sum_final_hmac_hex = None\<rparr>,
         rpt_violation = None, rpt_additional_violations = []\<rparr>,
      vs_prior_segment_final = None, vs_prior_session_id = None, vs_prior_ts_wall_ms = None,
      vs_checkpoint_reached = False\<rparr>"

definition verify_with_options ::
  "(bytes \<Rightarrow> u32) \<Rightarrow> key_handle \<Rightarrow> verify_options \<Rightarrow> dir \<Rightarrow> (verify_report, verify_error) result" where
  "verify_with_options crc key opts d =
     (let segments = list_segment_indices d in
      if segments = [] then Err NoSegments
      else
        case (case opt_checkpoint opts of None \<Rightarrow> None
              | Some cp \<Rightarrow> if \<not> matches_key cp (kh_key_id key)
                  then Some (CheckpointKeyMismatch (hex (kh_key_id key)) (hex (cp_key_id cp))) else None) of
          Some e \<Rightarrow> Err e
        | None \<Rightarrow>
            (case verify_segments crc key opts d segments (initial_state key segments) of
               Ok vs \<Rightarrow> Ok (finish_report opts vs)
             | Err (Return report) \<Rightarrow> Ok report
             | Err (Fail e) \<Rightarrow> Err e
             | Panic \<Rightarrow> Panic))"

definition verify :: "(bytes \<Rightarrow> u32) \<Rightarrow> key_handle \<Rightarrow> dir \<Rightarrow> (verify_report, verify_error) result" where
  "verify crc key d = verify_with_options crc key default_options d"

end
