(* ===== verification/Verifier_Complete.thy ===== *)
theory Verifier_Complete
  imports Verifier Writer_Refines
begin

text \<open>
  Logs that the writer produces verify: on a directory that represents a log of
  well-formed items whose timestamps do not fall back by more than the slack, the
  verifier walks every record of every segment and reports \<open>Verified\<close>.
\<close>

section \<open>Framing\<close>

definition verify_read :: "bytes \<Rightarrow> nat \<Rightarrow> (bytes \<times> bytes) option" where
  "verify_read content off =
     (case read_framed_bytes content 0 off of
        Ok (Some f) \<Rightarrow> Some (fr_payload_bytes f, fr_hmac f) | _ \<Rightarrow> None)"

lemma read_framed_bytes_frame:
  assumes v: "rec_valid u32_max r" and off: "off \<le> length content"
    and d: "drop off content = rec_frame r @ rest"
  shows "read_framed_bytes content si off =
    Ok (Some \<lparr>fr_payload_bytes = fst r, fr_hmac = snd r, fr_file_offset = off\<rparr>)"
proof -
  note at = rec_frame_at [OF v off d]
  have "\<not> length content \<le> off" using at(2) by linarith
  then show ?thesis using at by (simp add: read_framed_bytes_def Let_def HMAC_LEN_def)
qed

lemma read_framed_bytes_cut:
  assumes v: "rec_valid u32_max r" and off: "off < length content"
    and d: "drop off content = take j (rec_frame r)" and j: "j < length (rec_frame r)"
  shows "read_framed_bytes content si off = Err (TornTail si off)"
proof -
  have off': "\<not> length content \<le> off" using off by simp
  consider "length content - off < 4"
    | "\<not> length content - off < 4" "length content - off < 4 + unat (u32_at content off) + HMAC_LEN + 4"
    using rec_frame_cut [OF v off d j] by (force simp: HMAC_LEN_def)
  then show ?thesis
    by cases (simp_all add: read_framed_bytes_def Let_def off')
qed

lemma read_framed_bytes_sound:
  assumes "read_framed_bytes content si off = Ok (Some f)"
  shows "rec_valid u32_max (fr_payload_bytes f, fr_hmac f)" "fr_file_offset f = off" "off < length content"
    "\<exists>rest. drop off content = rec_frame (fr_payload_bytes f, fr_hmac f) @ rest"
proof -
  let ?l = "unat (u32_at content off)"
  from assms have l: "off + 40 + ?l \<le> length content" "unat (u32_at content (off + 4 + ?l + 32)) = ?l"
    "fr_payload_bytes f = slice content (off + 4) ?l" "fr_hmac f = slice content (off + 4 + ?l) 32"
    and o: "fr_file_offset f = off" "off < length content"
    by (auto simp: read_framed_bytes_def Let_def HMAC_LEN_def split: if_splits)
  note parts = rec_frame_from_parts [OF l(1) refl l(2), folded l(3,4)]
  show "rec_valid u32_max (fr_payload_bytes f, fr_hmac f)" "fr_file_offset f = off" "off < length content"
    "\<exists>rest. drop off content = rec_frame (fr_payload_bytes f, fr_hmac f) @ rest"
    using parts o by blast+
qed

interpretation vread: framing rec_frame "rec_valid u32_max" verify_read
proof
  show "verify_read content off = Some r"
    if "rec_valid u32_max r" "off \<le> length content" "drop off content = rec_frame r @ rest"
    for r off content rest
    using read_framed_bytes_frame [OF that] by (simp add: verify_read_def)
  show "verify_read content off = None"
    if "rec_valid u32_max r" "off < length content" "drop off content = take j (rec_frame r)"
      "j < length (rec_frame r)" for r off content j
    using read_framed_bytes_cut [OF that] by (simp add: verify_read_def)
  show "rec_valid u32_max r \<and> (\<exists>rest. drop off content = rec_frame r @ rest)"
    if "off < length content" "verify_read content off = Some r" for r off content
    using that read_framed_bytes_sound
    by (auto simp: verify_read_def split: result.splits option.splits)
qed (rule rec_frame_nonempty)

section \<open>The walk over whole records\<close>

definition view_of :: "key_handle \<Rightarrow> u16 \<Rightarrow> log_item \<Rightarrow> bytes \<Rightarrow> u64 \<Rightarrow> nat \<Rightarrow> audit_record" where
  "view_of k si it prev rid off =
     (let p = item_payload k it prev rid
      in (rec_of (snd it) (fst it) (kh_key_id k) prev rid si off p (kh_sign k p))\<lparr>r_payload := []\<rparr>)"

definition at_checkpoint :: "verify_options \<Rightarrow> u16 \<Rightarrow> u64 \<Rightarrow> bool" where
  "at_checkpoint opts si rid = (case opt_checkpoint opts of None \<Rightarrow> False | Some cp \<Rightarrow> is_position cp si rid)"

text \<open>The checkpoint, where its position occurs, has the tag of that record.\<close>

definition checkpoint_agrees :: "verify_options \<Rightarrow> u16 \<Rightarrow> u64 \<Rightarrow> bytes \<Rightarrow> bool" where
  "checkpoint_agrees opts si rid tag =
     (case opt_checkpoint opts of None \<Rightarrow> True | Some cp \<Rightarrow> is_position cp si rid \<longrightarrow> cp_hmac cp = tag)"

definition ts_step :: "int option \<Rightarrow> log_item \<Rightarrow> bool" where
  "ts_step prior it =
     (case prior of None \<Rightarrow> True | Some p \<Rightarrow> - MAX_TS_DRIFT_MS \<le> parse_ts_ms (in_ts_wall (snd it)) - p)"

primrec walk_ok :: "key_handle \<Rightarrow> verify_options \<Rightarrow> u16 \<Rightarrow> int option \<Rightarrow> bytes \<Rightarrow> u64 \<Rightarrow> log_item list \<Rightarrow> bool" where
  "walk_ok k opts si ts prev rid [] = True"
| "walk_ok k opts si ts prev rid (it # its) =
     (let t = kh_sign k (item_payload k it prev rid)
      in item_ok u32_max k it \<and> ts_step ts it \<and> checkpoint_agrees opts si rid t \<and>
         walk_ok k opts si (Some (parse_ts_ms (in_ts_wall (snd it)))) t (rid + 1) its)"

primrec walk_items :: "key_handle \<Rightarrow> verify_options \<Rightarrow> u16 \<Rightarrow> segment_walk \<Rightarrow> u64 \<Rightarrow> log_item list \<Rightarrow> segment_walk" where
  "walk_items k opts si sw rid [] = sw"
| "walk_items k opts si sw rid (it # its) =
     walk_items k opts si (walk_advance (view_of k si it (sw_prev sw) rid (sw_record_offset sw))
       (at_checkpoint opts si rid) (count_record sw)) (rid + 1) its"

lemma check_record_item:
  assumes "item_ok u32_max k it" "length (sw_prev sw) = 32"
    and "ts_step (vs_prior_ts_wall_ms (sw_vs sw)) it"
    and p: "p = item_payload k it (sw_prev sw) rid" and "checkpoint_agrees opts si rid (kh_sign k p)"
  shows "check_record k opts si h (count_record sw)
      \<lparr>fr_payload_bytes = p, fr_hmac = kh_sign k p, fr_file_offset = off\<rparr> =
    Ok (view_of k si it (sw_prev sw) rid off, at_checkpoint opts si rid)"
proof -
  have dec: "decode p = Ok (rec_value (snd it) (fst it) (kh_key_id k) (sw_prev sw) rid)"
    unfolding p by (rule item_payload_decode [OF assms(1) order_refl assms(2)])
  have map: "reader_decode_record_map (rec_value (snd it) (fst it) (kh_key_id k) (sw_prev sw) rid) si off p
      (kh_sign k p) = Ok (view_of k si it (sw_prev sw) rid off)"
    using assms(1,2) reader_decode_record_map_rec_value
    by (simp add: item_ok_def view_of_def Let_def p)
  have cr: "sw_prev (count_record sw) = sw_prev sw"
    "vs_prior_ts_wall_ms (sw_vs (count_record sw)) = vs_prior_ts_wall_ms (sw_vs sw)"
    by (simp_all add: count_record_def)
  have v: "r_prev_hash (view_of k si it (sw_prev sw) rid off) = sw_prev sw"
    "r_key_id (view_of k si it (sw_prev sw) rid off) = kh_key_id k"
    "r_ts_wall (view_of k si it (sw_prev sw) rid off) = in_ts_wall (snd it)"
    "r_record_id (view_of k si it (sw_prev sw) rid off) = rid"
    "r_hmac (view_of k si it (sw_prev sw) rid off) = kh_sign k p"
    by (simp_all add: view_of_def rec_of_def Let_def p)
  have ts: "check_timestamps (view_of k si it (sw_prev sw) rid off) si x (vs_prior_ts_wall_ms (sw_vs sw)) = None" for x
    using assms(3) by (auto simp: check_timestamps_def ts_step_def v Let_def split: option.splits)
  show ?thesis
    using assms(5)
    by (cases "opt_checkpoint opts")
      (auto simp: check_record_def Let_def ct_eq_def dec map cr v ts at_checkpoint_def
        checkpoint_agrees_def)
qed

text \<open>Whole records at the current position are accepted one after the other; the walk goes on with
  whatever follows them.\<close>

lemma verify_records_prefix:
  assumes "walk_ok k opts si (vs_prior_ts_wall_ms (sw_vs sw)) (sw_prev sw) rid its"
    and "length (sw_prev sw) = 32" and "sw_record_offset sw \<le> length content"
    and "drop (sw_record_offset sw) content = frames (chain k (sw_prev sw) rid its) @ rest"
  shows "verify_records k opts si h content sw = verify_records k opts si h content (walk_items k opts si sw rid its)
    \<and> sw_record_offset (walk_items k opts si sw rid its) =
        sw_record_offset sw + length (frames (chain k (sw_prev sw) rid its))"
  using assms
proof (induction its arbitrary: sw rid)
  case (Cons it its)
  define p where "p = item_payload k it (sw_prev sw) rid"
  define sw' where "sw' = walk_advance (view_of k si it (sw_prev sw) rid (sw_record_offset sw))
       (at_checkpoint opts si rid) (count_record sw)"
  have ok: "item_ok u32_max k it" and ts: "ts_step (vs_prior_ts_wall_ms (sw_vs sw)) it"
    and cp: "checkpoint_agrees opts si rid (kh_sign k p)"
    and tl: "walk_ok k opts si (Some (parse_ts_ms (in_ts_wall (snd it)))) (kh_sign k p) (rid + 1) its"
    using Cons.prems(1) by (simp_all add: p_def Let_def)
  have v: "rec_valid u32_max (p, kh_sign k p)"
    unfolding p_def rec_valid_def using item_payload_bound [OF ok] Cons.prems(2) by simp
  have d: "drop (sw_record_offset sw) content =
      rec_frame (p, kh_sign k p) @ frames (chain k (kh_sign k p) (rid + 1) its) @ rest"
    using Cons.prems(4) by (simp add: p_def Let_def)
  have len: "length (rec_frame (p, kh_sign k p)) = 40 + length p"
    using length_rec_frame [OF v] by simp
  have sw': "sw_prev sw' = kh_sign k p" "sw_record_offset sw' = sw_record_offset sw + (40 + length p)"
    "vs_prior_ts_wall_ms (sw_vs sw') = Some (parse_ts_ms (in_ts_wall (snd it)))"
    by (simp_all add: sw'_def walk_advance_def count_record_def view_of_def rec_of_def Let_def p_def
        HMAC_LEN_def)
  have step: "verify_records k opts si h content sw = verify_records k opts si h content sw'"
    using read_framed_bytes_frame [OF v Cons.prems(3) d, of si]
      check_record_item [OF ok Cons.prems(2) ts p_def cp, of h "sw_record_offset sw"]
    by (subst verify_records.simps) (simp add: Let_def sw'_def)
  have "verify_records k opts si h content sw' = verify_records k opts si h content (walk_items k opts si sw' (rid + 1) its)
    \<and> sw_record_offset (walk_items k opts si sw' (rid + 1) its) =
        sw_record_offset sw' + length (frames (chain k (sw_prev sw') (rid + 1) its))"
  proof (rule Cons.IH)
    show "sw_record_offset sw' \<le> length content"
      using drop_length_bound [OF d Cons.prems(3)] len sw' by simp
    show "drop (sw_record_offset sw') content = frames (chain k (sw_prev sw') (rid + 1) its) @ rest"
      using drop_after [OF d] len sw' by simp
  qed (simp_all add: sw' tl)
  then show ?case using step len by (simp add: sw'_def [symmetric] sw' p_def [symmetric] Let_def)
qed simp

lemma verify_records_items:
  assumes "walk_ok k opts si (vs_prior_ts_wall_ms (sw_vs sw)) (sw_prev sw) rid its"
    and "length (sw_prev sw) = 32" and "sw_record_offset sw \<le> length content"
    and "drop (sw_record_offset sw) content = frames (chain k (sw_prev sw) rid its)"
  shows "verify_records k opts si h content sw = Ok (walk_items k opts si sw rid its, False)"
proof -
  have d: "drop (sw_record_offset sw) content = frames (chain k (sw_prev sw) rid its) @ []" using assms(4) by simp
  note p = verify_records_prefix [OF assms(1-3) d, of h]
  have "length content \<le> sw_record_offset (walk_items k opts si sw rid its)"
    using p drop_length_bound [OF d assms(3)] by simp
  then have "read_framed_bytes content si (sw_record_offset (walk_items k opts si sw rid its)) = Ok None"
    by (simp add: read_framed_bytes_def)
  then have "verify_records k opts si h content (walk_items k opts si sw rid its) = Ok (walk_items k opts si sw rid its, False)"
    by (subst verify_records.simps) simp
  then show ?thesis using p by simp
qed

section \<open>The state after a segment\<close>

definition add_records :: "nat \<Rightarrow> verify_report \<Rightarrow> verify_report" where
  "add_records n r = r\<lparr>rpt_log := (rpt_log r)\<lparr>sum_records_inspected := sum_records_inspected (rpt_log r) + n\<rparr>\<rparr>"

lemma walk_items_fields:
  "sw_last_hmac_in_segment sw = sw_prev sw \<Longrightarrow>
   sw_last_hmac_in_segment (walk_items k opts si sw rid its) = head_of (sw_prev sw) (chain k (sw_prev sw) rid its)"
  "sw_prev (walk_items k opts si sw rid its) = head_of (sw_prev sw) (chain k (sw_prev sw) rid its)"
  "vs_report (sw_vs (walk_items k opts si sw rid its)) = add_records (length its) (vs_report (sw_vs sw))"
  "vs_prior_ts_wall_ms (sw_vs (walk_items k opts si sw rid its)) =
     (if its = [] then vs_prior_ts_wall_ms (sw_vs sw) else Some (parse_ts_ms (in_ts_wall (snd (last its)))))"
  "vs_checkpoint_reached (sw_vs (walk_items k opts si sw rid its)) \<longleftrightarrow>
     vs_checkpoint_reached (sw_vs sw) \<or> (\<exists>i < length its. at_checkpoint opts si (rid + of_nat i))"
  "vs_prior_segment_final (sw_vs (walk_items k opts si sw rid its)) = vs_prior_segment_final (sw_vs sw)"
proof -
  show "sw_last_hmac_in_segment sw = sw_prev sw \<Longrightarrow>
   sw_last_hmac_in_segment (walk_items k opts si sw rid its) = head_of (sw_prev sw) (chain k (sw_prev sw) rid its)"
    by (induction its arbitrary: sw rid)
      (auto simp: head_of_Cons Let_def walk_advance_def count_record_def view_of_def rec_of_def)
  show "sw_prev (walk_items k opts si sw rid its) = head_of (sw_prev sw) (chain k (sw_prev sw) rid its)"
    by (induction its arbitrary: sw rid)
      (auto simp: head_of_Cons Let_def walk_advance_def count_record_def view_of_def rec_of_def)
  show "vs_report (sw_vs (walk_items k opts si sw rid its)) = add_records (length its) (vs_report (sw_vs sw))"
    by (induction its arbitrary: sw rid) (simp_all add: add_records_def walk_advance_def count_record_def)
  show "vs_prior_ts_wall_ms (sw_vs (walk_items k opts si sw rid its)) =
     (if its = [] then vs_prior_ts_wall_ms (sw_vs sw) else Some (parse_ts_ms (in_ts_wall (snd (last its)))))"
    by (induction its arbitrary: sw rid)
      (auto simp: walk_advance_def count_record_def view_of_def rec_of_def Let_def)
  show "vs_checkpoint_reached (sw_vs (walk_items k opts si sw rid its)) \<longleftrightarrow>
     vs_checkpoint_reached (sw_vs sw) \<or> (\<exists>i < length its. at_checkpoint opts si (rid + of_nat i))"
  proof (induction its arbitrary: sw rid)
    case (Cons it its)
    then show ?case
      by (simp add: walk_advance_def count_record_def Ex_less_Suc2 add.assoc)
  qed simp
  show "vs_prior_segment_final (sw_vs (walk_items k opts si sw rid its)) = vs_prior_segment_final (sw_vs sw)"
    by (induction its arbitrary: sw rid) (simp_all add: walk_advance_def count_record_def)
qed

lemma verify_header_ok:
  assumes "length pf = 32"
  shows "parse_and_validate_header crc (header_to_bytes crc (seg_header k n pf)) si (kh_key_id k)
    = Ok (seg_header k n pf)"
proof -
  let ?h = "seg_header k n pf"
  have wf: "header_wf ?h" using assms by simp
  note f = header_fields [OF wf, of crc "[]", unfolded append_Nil2]
  show ?thesis using f
    by (simp add: parse_and_validate_header_def Let_def ct_eq_def HEADER_BODY_LEN_def)
qed

text \<open>What the verifier expects to have seen before segment \<open>n\<close>, if it started at segment \<open>s\<close>.\<close>

definition final_before :: "key_handle \<Rightarrow> log_item list list \<Rightarrow> nat \<Rightarrow> nat \<Rightarrow> bytes option" where
  "final_before k segs s n = (if n = s then None else Some (log_pf k segs n))"

text \<open>The walk state at the first record of segment \<open>n\<close>.\<close>

definition entry_walk :: "key_handle \<Rightarrow> nat \<Rightarrow> bytes \<Rightarrow> verify_state \<Rightarrow> segment_walk" where
  "entry_walk k n pf vs = \<lparr>sw_vs = count_segment (of_nat n) vs, sw_prev = seg_start k n pf,
     sw_record_offset = 80, sw_last_hmac_in_segment = seg_start k n pf, sw_record_id_in_segment = 0\<rparr>"

lemma entry_walk_fields [simp]:
  "sw_vs (entry_walk k n pf vs) = count_segment (of_nat n) vs" "sw_prev (entry_walk k n pf vs) = seg_start k n pf"
  "sw_record_offset (entry_walk k n pf vs) = 80" "sw_last_hmac_in_segment (entry_walk k n pf vs) = seg_start k n pf"
  "sw_record_id_in_segment (entry_walk k n pf vs) = 0"
  by (simp_all add: entry_walk_def)

lemma count_segment_fields [simp]:
  "vs_prior_segment_final (count_segment si vs) = vs_prior_segment_final vs"
  "vs_prior_ts_wall_ms (count_segment si vs) = vs_prior_ts_wall_ms vs"
  "vs_checkpoint_reached (count_segment si vs) = vs_checkpoint_reached vs"
  by (simp_all add: count_segment_def)

lemma of_nat_u16_0:
  assumes "n < 65536"
  shows "(of_nat n :: u16) = 0 \<longleftrightarrow> n = 0"
proof -
  have n: "unat (of_nat n :: u16) = n" using assms by (simp add: unat_of_nat)
  show ?thesis unfolding word_unat_eq_iff n by simp
qed

text \<open>A segment with a genuine header that continues the chain: its records are walked.\<close>

lemma verify_segment_enter:
  assumes get: "seg_get d (of_nat n) = Some (header_to_bytes crc (seg_header k n pf) @ body)" and n: "n < 65536"
    and pf: "length pf = 32"
    and prior: "vs_prior_segment_final vs = None \<or> (n \<noteq> 0 \<and> vs_prior_segment_final vs = Some pf)"
  shows "verify_segment crc k opts d (of_nat n) vs =
    bind_res (verify_records k opts (of_nat n) (seg_header k n pf) (header_to_bytes crc (seg_header k n pf) @ body)
        (entry_walk k n pf vs))
      (\<lambda>(sw, violated). Ok (if violated then sw_vs sw
         else (sw_vs sw)\<lparr>vs_prior_segment_final := Some (sw_last_hmac_in_segment sw)\<rparr>))"
proof -
  let ?si = "of_nat n :: u16" let ?hd = "seg_header k n pf" let ?h = "header_to_bytes crc ?hd"
  have h: "length ?h = 80" using pf by simp
  have hb: "read_segment_header_bytes d ?si = Some ?h"
    using h by (simp add: read_segment_header_bytes_def get HEADER_TOTAL_LEN_def slice_def)
  have body: "slice ?h 0 72 = header_body ?hd"
    using header_fields(6) [of ?hd crc "[]"] pf by simp
  have start: "(if ?si = 0 then kh_sign k (slice ?h 0 HEADER_BODY_LEN) else hdr_prev_final ?hd) = seg_start k n pf"
    unfolding of_nat_u16_0 [OF n] HEADER_BODY_LEN_def body by (simp add: seg_start_def) (simp add: seg_header_def)
  have disc: "(case vs_prior_segment_final vs of None \<Rightarrow> None
      | Some prev_final \<Rightarrow> if \<not> ct_eq (hdr_prev_final ?hd) prev_final then Some (f prev_final) else None) = None" for f
    using prior by (auto simp: ct_eq_def)
  show ?thesis
    unfolding verify_segment_def Let_def hb option.case verify_header_ok [OF pf] result.case
      count_segment_fields disc start get
    by (simp add: entry_walk_def HEADER_TOTAL_LEN_def)
qed

lemma verify_segment_log:
  assumes get: "seg_get d (of_nat n) = Some (log_file crc k segs n)" and n: "n < 65536"
    and prior: "vs_prior_segment_final vs = final_before k segs s n" and s: "s \<le> n"
    and ok: "walk_ok k opts (of_nat n) (vs_prior_ts_wall_ms vs) (seg_start k n (log_pf k segs n)) 0 (segs ! n)"
  obtains vs' where "verify_segment crc k opts d (of_nat n) vs = Ok vs'"
    "vs_report vs' = add_records (length (segs ! n)) (vs_report (count_segment (of_nat n) vs))"
    "vs_prior_segment_final vs' = final_before k segs s (Suc n)"
    "vs_prior_ts_wall_ms vs' = (if segs ! n = [] then vs_prior_ts_wall_ms vs
       else Some (parse_ts_ms (in_ts_wall (snd (last (segs ! n))))))"
    "vs_checkpoint_reached vs' \<longleftrightarrow> vs_checkpoint_reached vs \<or>
       (\<exists>i < length (segs ! n). at_checkpoint opts (of_nat n) (of_nat i))"
proof -
  let ?pf = "log_pf k segs n" let ?its = "segs ! n" let ?si = "of_nat n :: u16"
  let ?body = "frames (seg_chain k n ?pf ?its)" let ?sw = "entry_walk k n ?pf vs"
  define sw' where "sw' = walk_items k opts ?si ?sw 0 ?its"
  have c: "seg_get d ?si = Some (header_to_bytes crc (seg_header k n ?pf) @ ?body)"
    using get by (simp add: log_file_def seg_bytes_def)
  have walk: "verify_records k opts ?si hd (header_to_bytes crc (seg_header k n ?pf) @ ?body) ?sw = Ok (sw', False)" for hd
    unfolding sw'_def using ok by (intro verify_records_items) (simp_all add: seg_chain_def)
  let ?vs' = "(sw_vs sw')\<lparr>vs_prior_segment_final := Some (sw_last_hmac_in_segment sw')\<rparr>"
  have "verify_segment crc k opts d ?si vs = Ok ?vs'"
    using verify_segment_enter [OF c n length_log_pf] prior s walk by (simp add: final_before_def split: if_splits)
  moreover note fl = walk_items_fields [where sw = ?sw and k = k and opts = opts and si = ?si and rid = 0 and its = ?its,
      folded sw'_def]
  have "Some (sw_last_hmac_in_segment sw') = final_before k segs s (Suc n)"
    using fl(1) s by (simp add: final_before_def seg_final_def seg_chain_def)
  ultimately show thesis using that [of ?vs'] fl by simp
qed

section \<open>Whole logs\<close>

text \<open>No timestamp falls back by more than the slack from the record before it.\<close>

primrec ts_list :: "int option \<Rightarrow> log_item list \<Rightarrow> bool" where
  "ts_list prior [] = True"
| "ts_list prior (it # its) = (ts_step prior it \<and> ts_list (Some (parse_ts_ms (in_ts_wall (snd it)))) its)"

definition ts_last :: "int option \<Rightarrow> log_item list \<Rightarrow> int option" where
  "ts_last prior its = (if its = [] then prior else Some (parse_ts_ms (in_ts_wall (snd (last its)))))"

lemma ts_list_append: "ts_list prior (xs @ ys) \<longleftrightarrow> ts_list prior xs \<and> ts_list (ts_last prior xs) ys"
  by (induction xs arbitrary: prior) (auto simp: ts_last_def)

lemma ts_list_from_None: "ts_list prior its \<Longrightarrow> ts_list None its"
  by (cases its) (simp_all add: ts_step_def)

lemma ts_last_append: "ts_last (ts_last prior xs) ys = ts_last prior (xs @ ys)"
  by (simp add: ts_last_def)

definition checkpoint_from :: "verify_options \<Rightarrow> key_handle \<Rightarrow> log_item list list \<Rightarrow> bool" where
  "checkpoint_from opts k segs \<longleftrightarrow> (\<forall>n < length segs. \<forall>i < length (segs ! n).
     checkpoint_agrees opts (of_nat n) (of_nat i) (snd (seg_chain k n (log_pf k segs n) (segs ! n) ! i)))"

lemma walk_ok_intro:
  assumes "list_all (item_ok u32_max k) its" "ts_list ts its"
    and "\<And>i. i < length its \<Longrightarrow> checkpoint_agrees opts si (rid + of_nat i) (snd (chain k prev rid its ! i))"
  shows "walk_ok k opts si ts prev rid its"
  using assms
proof (induction its arbitrary: ts prev rid)
  case (Cons it its)
  let ?t = "kh_sign k (item_payload k it prev rid)"
  have "checkpoint_agrees opts si rid ?t" using Cons.prems(3) [of 0] by (simp add: Let_def)
  moreover have "walk_ok k opts si (Some (parse_ts_ms (in_ts_wall (snd it)))) ?t (rid + 1) its"
  proof (rule Cons.IH)
    fix i assume "i < length its"
    then show "checkpoint_agrees opts si (rid + 1 + of_nat i) (snd (chain k ?t (rid + 1) its ! i))"
      using Cons.prems(3) [of "Suc i"] by (simp add: Let_def add.assoc)
  qed (use Cons.prems in simp_all)
  ultimately show ?case using Cons.prems by (simp add: Let_def)
qed simp

definition cp_hit :: "verify_options \<Rightarrow> log_item list list \<Rightarrow> nat \<Rightarrow> nat \<Rightarrow> bool" where
  "cp_hit opts segs s n \<longleftrightarrow> (\<exists>m < n. s \<le> m \<and> (\<exists>i < length (segs ! m). at_checkpoint opts (of_nat m) (of_nat i)))"

text \<open>The items of segments \<open>s\<close> to \<open>n - 1\<close>.\<close>

definition items_between :: "log_item list list \<Rightarrow> nat \<Rightarrow> nat \<Rightarrow> log_item list" where
  "items_between segs s n = concat (drop s (take n segs))"

text \<open>The verifier's variables before segment \<open>n\<close> of a clean log, if it started at segment \<open>s\<close>.\<close>

definition clean_before :: "key_handle \<Rightarrow> verify_options \<Rightarrow> log_item list list \<Rightarrow> nat \<Rightarrow> nat \<Rightarrow> verify_state \<Rightarrow> bool" where
  "clean_before k opts segs s n vs \<longleftrightarrow>
     vs_prior_segment_final vs = final_before k segs s n \<and>
     vs_prior_ts_wall_ms vs = ts_last None (items_between segs s n) \<and>
     (vs_checkpoint_reached vs \<longleftrightarrow> cp_hit opts segs s n) \<and>
     rpt_verdict (vs_report vs) = Verified \<and> rpt_violation (vs_report vs) = None \<and>
     rpt_additional_violations (vs_report vs) = [] \<and>
     sum_records_inspected (rpt_log (vs_report vs)) = length (items_between segs s n) \<and>
     sum_segments_inspected (rpt_log (vs_report vs)) = n - s"

lemma items_between_Suc:
  assumes "s \<le> n" "n < length segs"
  shows "items_between segs s (Suc n) = items_between segs s n @ segs ! n"
  using assms by (simp add: items_between_def take_Suc_conv_app_nth)

lemma items_between_self [simp]: "items_between segs s s = []"
  by (simp add: items_between_def)

lemma items_between_all: "items_between segs 0 (length segs) = concat segs"
  by (simp add: items_between_def)

lemma items_between_split:
  assumes "s \<le> n" "n < length segs"
  shows "items_between segs s (length segs) = items_between segs s n @ segs ! n @ concat (drop (Suc n) segs)"
proof -
  have "segs = take n segs @ segs ! n # drop (Suc n) segs" using assms(2) by (rule id_take_nth_drop)
  then have "drop s segs = drop s (take n segs) @ segs ! n # drop (Suc n) segs"
    using assms by (metis drop_append length_take less_imp_le min_absorb2 diff_is_0_eq drop_0)
  then show ?thesis by (simp add: items_between_def)
qed

lemma walk_ok_log:
  assumes n: "s \<le> n" "n < length segs" and ok: "log_ok u32_max k segs"
    and ts: "ts_list None (items_between segs s (length segs))" and cp: "checkpoint_from opts k segs"
    and clean: "clean_before k opts segs s n vs"
  shows "walk_ok k opts (of_nat n) (vs_prior_ts_wall_ms vs) (seg_start k n (log_pf k segs n)) 0 (segs ! n)"
proof (rule walk_ok_intro)
  have tsn: "ts_list (ts_last None (items_between segs s n)) (segs ! n)"
    using ts by (simp add: items_between_split [OF n] ts_list_append)
  show "list_all (item_ok u32_max k) (segs ! n)" using ok n by (simp add: log_ok_def list_all_length)
  show "ts_list (vs_prior_ts_wall_ms vs) (segs ! n)" using clean tsn by (simp add: clean_before_def)
  show "checkpoint_agrees opts (of_nat n) (0 + of_nat i) (snd (chain k (seg_start k n (log_pf k segs n)) 0 (segs ! n) ! i))"
    if "i < length (segs ! n)" for i
    using cp n that by (simp add: checkpoint_from_def seg_chain_def)
qed

lemma walk_ok_take: "walk_ok k opts si ts prev rid its \<Longrightarrow> walk_ok k opts si ts prev rid (take i its)"
proof (induction its arbitrary: i ts prev rid)
  case (Cons it its)
  then show ?case by (cases i) (simp_all add: Let_def)
qed simp

lemma verify_segment_clean:
  assumes get: "seg_get d (of_nat n) = Some (log_file crc k segs n)" "n < 65536"
    and n: "s \<le> n" "n < length segs" and ok: "log_ok u32_max k segs"
    and ts: "ts_list None (items_between segs s (length segs))" and cp: "checkpoint_from opts k segs"
    and clean: "clean_before k opts segs s n vs"
  obtains vs' where "verify_segment crc k opts d (of_nat n) vs = Ok vs'" "clean_before k opts segs s (Suc n) vs'"
proof -
  from verify_segment_log [OF get _ n(1) walk_ok_log [OF n ok ts cp clean]] clean obtain vs' where
    vs': "verify_segment crc k opts d (of_nat n) vs = Ok vs'"
    "vs_report vs' = add_records (length (segs ! n)) (vs_report (count_segment (of_nat n) vs))"
    "vs_prior_segment_final vs' = final_before k segs s (Suc n)"
    "vs_prior_ts_wall_ms vs' = (if segs ! n = [] then vs_prior_ts_wall_ms vs
       else Some (parse_ts_ms (in_ts_wall (snd (last (segs ! n))))))"
    "vs_checkpoint_reached vs' \<longleftrightarrow> vs_checkpoint_reached vs \<or>
       (\<exists>i < length (segs ! n). at_checkpoint opts (of_nat n) (of_nat i))"
    by (auto simp: clean_before_def)
  have "vs_prior_ts_wall_ms vs' = ts_last None (items_between segs s (Suc n))"
    using vs'(4) clean n by (auto simp: clean_before_def items_between_Suc ts_last_def)
  moreover have "vs_checkpoint_reached vs' \<longleftrightarrow> cp_hit opts segs s (Suc n)"
    using vs'(5) clean n(1) by (auto simp: clean_before_def cp_hit_def less_Suc_eq)
  ultimately have "clean_before k opts segs s (Suc n) vs'"
    using vs'(2,3) clean n
    by (simp add: clean_before_def add_records_def count_segment_def items_between_Suc Suc_diff_le)
  then show thesis using that vs'(1) by blast
qed

lemma verify_segments_clean:
  assumes get: "\<And>m. s \<le> m \<Longrightarrow> m < N \<Longrightarrow> seg_get d (of_nat m) = Some (log_file crc k segs m)"
    and N: "N \<le> length segs" "N \<le> 65536" and ok: "log_ok u32_max k segs"
    and ts: "ts_list None (items_between segs s (length segs))" and cp: "checkpoint_from opts k segs"
    and "s \<le> n" "n \<le> N" "clean_before k opts segs s n vs"
  shows "\<exists>vs'. verify_segments crc k opts d (map of_nat [n..<N]) vs = Ok vs' \<and> clean_before k opts segs s N vs'"
  using assms(7-9)
proof (induction "N - n" arbitrary: n vs)
  case (Suc m)
  then have n: "n < N" by simp
  obtain vs1 where vs1: "verify_segment crc k opts d (of_nat n) vs = Ok vs1"
    "clean_before k opts segs s (Suc n) vs1"
    using verify_segment_clean [OF get [OF Suc.prems(1) n] _ Suc.prems(1) _ ok ts cp Suc.prems(3)] n N by auto
  have "m = N - Suc n" using Suc.hyps(2) by simp
  from Suc.hyps(1) [OF this _ _ vs1(2)] n Suc.prems(1) show ?case
    using vs1(1) by (simp add: upt_conv_Cons)
qed auto

lemma clean_initial: "clean_before k opts segs s s (initial_state k sis)"
  by (simp add: clean_before_def initial_state_def final_before_def ts_last_def cp_hit_def)

lemma log_get:
  assumes "represents crc k segs d" "n < length segs"
  shows "seg_get d (of_nat n) = Some (log_file crc k segs n)" "n < 65536"
  using assms by (simp_all add: represents_def unat_of_nat)

lemma log_indices:
  assumes "dir_wf d" "N \<noteq> 0" "N \<le> 10000" "\<And>i. seg_get d i \<noteq> None \<longleftrightarrow> unat i < N"
  shows "list_segment_indices d = map of_nat [0..<N]"
proof -
  obtain n where "N = Suc n" using assms(2) by (cases N) auto
  then show ?thesis using store.indices_contiguous [of d n] assms by (simp add: less_Suc_eq_le)
qed

text \<open>A genuine log verifies from any segment \<open>s\<close> on, with all the records from there counted and the
  last tag as its head; with a checkpoint, if the checkpointed position occurs there.\<close>

lemma verify_log_from:
  assumes idx: "list_segment_indices d = map of_nat [s..<length segs]"
    and get: "\<And>m. s \<le> m \<Longrightarrow> m < length segs \<Longrightarrow> seg_get d (of_nat m) = Some (log_file crc k segs m)"
    and segs: "s < length segs" "length segs \<le> 65536"
    and ok: "log_ok u32_max k segs" and ts: "ts_list None (items_between segs s (length segs))"
    and cp: "checkpoint_from opts k segs"
    and own: "\<forall>c. opt_checkpoint opts = Some c \<longrightarrow> matches_key c (kh_key_id k) \<and> cp_hit opts segs s (length segs)"
  obtains r where "verify_with_options crc k opts d = Ok r" "rpt_verdict r = Verified"
    "rpt_violation r = None" "sum_records_inspected (rpt_log r) = length (items_between segs s (length segs))"
    "sum_segments_inspected (rpt_log r) = length segs - s"
    "sum_final_hmac_hex (rpt_log r) = Some (hex (log_pf k segs (length segs)))"
proof -
  let ?vs0 = "initial_state k (map of_nat [s..<length segs])"
  from verify_segments_clean [OF get order_refl segs(2) ok ts cp order_refl _ clean_initial] segs obtain vs where
    vs: "verify_segments crc k opts d (map of_nat [s..<length segs]) ?vs0 = Ok vs"
    "clean_before k opts segs s (length segs) vs" by force
  have ne: "map of_nat [s..<length segs] \<noteq> []" using segs by (cases segs) auto
  have "verify_with_options crc k opts d = Ok (finish_report opts vs)"
    unfolding verify_with_options_def idx Let_def vs(1) using ne own
    by (auto split: option.splits)
  moreover have "finish_report opts vs = (vs_report vs)\<lparr>rpt_log := (rpt_log (vs_report vs))
      \<lparr>sum_final_hmac_hex := map_option hex (vs_prior_segment_final vs)\<rparr>\<rparr>"
    using vs(2) own by (auto simp: finish_report_def clean_before_def Let_def split: option.splits)
  ultimately show thesis using that [of "finish_report opts vs"] vs(2) segs
    by (simp add: clean_before_def final_before_def)
qed

lemma verify_log:
  assumes rep: "represents crc k segs d" and segs: "segs \<noteq> []" "length segs \<le> 10000"
    and ok: "log_ok u32_max k segs" and ts: "ts_list None (concat segs)"
    and cp: "checkpoint_from opts k segs"
    and own: "\<forall>c. opt_checkpoint opts = Some c \<longrightarrow> matches_key c (kh_key_id k) \<and> cp_hit opts segs 0 (length segs)"
  obtains r where "verify_with_options crc k opts d = Ok r" "rpt_verdict r = Verified"
    "rpt_violation r = None" "sum_records_inspected (rpt_log r) = length (concat segs)"
    "sum_segments_inspected (rpt_log r) = length segs"
    "sum_final_hmac_hex (rpt_log r) = Some (hex (log_pf k segs (length segs)))"
proof -
  have idx: "list_segment_indices d = map of_nat [0..<length segs]"
    using rep segs by (intro log_indices) (auto simp: represents_def)
  show thesis
  proof (rule verify_log_from [OF idx log_get(1) [OF rep] _ _ ok _ cp own])
  qed (use segs ts that in \<open>simp_all add: items_between_all\<close>)
qed

end
