(* ===== verification/Verifier_Sound.thy ===== *)
theory Verifier_Sound
  imports Verifier_Complete
begin

text \<open>
  What a \<open>Verified\<close> report means: every segment file is a header followed by whole frames,
  every tag is the key's tag of its payload, and the records form one chain across the
  segments. From this, two verified logs with the same head carry the same records, or the
  key's signing function has a collision.
\<close>

section \<open>Chains of records as bytes\<close>

text \<open>What a record says of itself, without its place in the file.\<close>

definition record_view :: "bytes \<Rightarrow> audit_record option" where
  "record_view p =
     (case decode p of
        Ok v \<Rightarrow> (case reader_decode_record_map v 0 0 [] [] of Ok r \<Rightarrow> Some r | _ \<Rightarrow> None)
      | _ \<Rightarrow> None)"

primrec linked :: "key_handle \<Rightarrow> bytes \<Rightarrow> (bytes \<times> bytes) list \<Rightarrow> bool" where
  "linked k prev [] = True"
| "linked k prev (r # rs) =
     (snd r = kh_sign k (fst r) \<and>
      (case record_view (fst r) of None \<Rightarrow> False
       | Some v \<Rightarrow> r_prev_hash v = prev \<and> r_key_id v = kh_key_id k) \<and>
      linked k (snd r) rs)"

lemma linked_append: "linked k prev (xs @ ys) \<longleftrightarrow> linked k prev xs \<and> linked k (head_of prev xs) ys"
  by (induction xs arbitrary: prev) (auto simp: head_of_Cons)

lemma fold_lenient_place:
  "fold_res (decode_field_lenient si off) pairs f = Ok g \<Longrightarrow>
   fold_res (decode_field_lenient si' off') pairs f = Ok g"
proof (induction pairs arbitrary: f)
  case (Cons kv pairs)
  then obtain f1 where f1: "decode_field_lenient si off kv f = Ok f1"
    "fold_res (decode_field_lenient si off) pairs f1 = Ok g"
    by (auto simp: bind_res_Ok_iff)
  then have "decode_field_lenient si' off' kv f = Ok f1"
    unfolding decode_field_lenient_def by (cases "fst kv") simp_all
  then show ?case using Cons.IH f1(2) by simp
qed simp

lemma reader_decode_place:
  assumes "reader_decode_record_map v si off p t = Ok r"
  shows "reader_decode_record_map v 0 0 [] [] =
    Ok (r\<lparr>r_segment_index := 0, r_hmac := [], r_payload_bytes := [], r_file_offset := 0\<rparr>)"
    and "r_hmac r = t" "r_payload_bytes r = p" "r_file_offset r = off"
proof -
  from assms obtain pairs f where p: "v = VMap pairs" "length pairs = 10"
    "fold_res (decode_field_lenient si off) pairs no_fields = Ok f"
    unfolding reader_decode_record_map_def
    by (cases v) (auto simp: bind_res_Ok_iff split: if_splits)
  note fold_lenient_place [OF p(3), of 0 0]
  with assms p show "reader_decode_record_map v 0 0 [] [] =
    Ok (r\<lparr>r_segment_index := 0, r_hmac := [], r_payload_bytes := [], r_file_offset := 0\<rparr>)"
    "r_hmac r = t" "r_payload_bytes r = p" "r_file_offset r = off"
    by (auto simp: reader_decode_record_map_def)
qed

section \<open>One segment\<close>

text \<open>The checkpointed record is among \<open>recs\<close> of segment \<open>si\<close>.\<close>

definition cp_in :: "verify_options \<Rightarrow> u16 \<Rightarrow> (bytes \<times> bytes) list \<Rightarrow> bool" where
  "cp_in opts si recs \<longleftrightarrow>
     (\<exists>cp r v. opt_checkpoint opts = Some cp \<and> cp_segment cp = si \<and> r \<in> set recs \<and> snd r = cp_hmac cp \<and>
       record_view (fst r) = Some v \<and> r_record_id v = cp_record_id cp)"

lemma check_record_sound:
  assumes "check_record k opts si h sw f = Ok (r, reached)"
  shows "fr_hmac f = kh_sign k (fr_payload_bytes f)" "r_hmac r = fr_hmac f"
    "r_payload_bytes r = fr_payload_bytes f"
    "\<exists>v. record_view (fr_payload_bytes f) = Some v \<and> r_prev_hash v = sw_prev sw \<and> r_key_id v = kh_key_id k"
    "reached \<Longrightarrow> cp_in opts si [(fr_payload_bytes f, fr_hmac f)]"
proof -
  have c1: "fr_hmac f = kh_sign k (fr_payload_bytes f)"
  proof (rule ccontr)
    assume "fr_hmac f \<noteq> kh_sign k (fr_payload_bytes f)"
    then show False using assms by (auto simp: check_record_def Let_def ct_eq_def)
  qed
  obtain m where m1: "decode (fr_payload_bytes f) = Ok m"
  proof (cases "decode (fr_payload_bytes f)")
    case (Ok m)
    then show thesis using that by blast
  qed (use assms c1 in \<open>simp_all add: check_record_def Let_def ct_eq_def\<close>)
  obtain q where m2: "reader_decode_record_map m si (fr_file_offset f) (fr_payload_bytes f) (fr_hmac f) = Ok q"
  proof (cases "reader_decode_record_map m si (fr_file_offset f) (fr_payload_bytes f) (fr_hmac f)")
    case (Ok q)
    then show thesis using that by blast
  qed (use assms c1 m1 in \<open>simp_all add: check_record_def Let_def ct_eq_def\<close>)
  have c2: "r_prev_hash q = sw_prev sw"
  proof (rule ccontr)
    assume "r_prev_hash q \<noteq> sw_prev sw"
    then show False using assms c1 m1 m2 by (simp add: check_record_def Let_def ct_eq_def)
  qed
  have c3: "r_key_id q = kh_key_id k"
  proof (rule ccontr)
    assume "r_key_id q \<noteq> kh_key_id k"
    then show False using assms c1 c2 m1 m2 by (simp add: check_record_def Let_def ct_eq_def)
  qed
  have c4: "check_timestamps q si (vs_prior_session_id (sw_vs sw)) (vs_prior_ts_wall_ms (sw_vs sw)) = None"
    using assms c1 c2 c3 m1 m2 by (cases "check_timestamps q si (vs_prior_session_id (sw_vs sw))
      (vs_prior_ts_wall_ms (sw_vs sw))") (simp_all add: check_record_def Let_def ct_eq_def)
  have cp: "r = q \<and> (reached \<longrightarrow> (\<exists>cp. opt_checkpoint opts = Some cp \<and> is_position cp si (r_record_id r)
      \<and> r_hmac r = cp_hmac cp))"
    using assms c1 c2 c3 c4 m1 m2
    by (cases "opt_checkpoint opts") (auto simp: check_record_def Let_def ct_eq_def split: if_splits)
  then have m: "decode (fr_payload_bytes f) = Ok m"
    "reader_decode_record_map m si (fr_file_offset f) (fr_payload_bytes f) (fr_hmac f) = Ok r"
    and c: "fr_hmac f = kh_sign k (fr_payload_bytes f)" "r_prev_hash r = sw_prev sw" "r_key_id r = kh_key_id k"
    using m1 m2 c1 c2 c3 by simp_all
  note pl = reader_decode_place [OF m(2)]
  have v: "record_view (fr_payload_bytes f) =
    Some (r\<lparr>r_segment_index := 0, r_hmac := [], r_payload_bytes := [], r_file_offset := 0\<rparr>)"
    by (simp add: record_view_def m(1) pl(1))
  show "fr_hmac f = kh_sign k (fr_payload_bytes f)" "r_hmac r = fr_hmac f"
    "r_payload_bytes r = fr_payload_bytes f" using c pl by simp_all
  show "\<exists>v. record_view (fr_payload_bytes f) = Some v \<and> r_prev_hash v = sw_prev sw \<and> r_key_id v = kh_key_id k"
    using v c by simp
  show "cp_in opts si [(fr_payload_bytes f, fr_hmac f)]" if "reached"
    using cp that v pl(2) by (auto simp: cp_in_def is_position_def)
qed

lemma note_violation_Ok:
  "note_violation opts v vs = Ok vs' \<Longrightarrow> rpt_violation (vs_report vs') \<noteq> None"
  by (auto simp: note_violation_def push_violation_def split: if_splits)

lemma cp_in_append: "cp_in opts si (xs @ ys) \<longleftrightarrow> cp_in opts si xs \<or> cp_in opts si ys"
  by (auto simp: cp_in_def)

lemma verify_records_sound:
  assumes "verify_records k opts si h content sw = Ok (sw', viol)"
    and "rpt_violation (vs_report (sw_vs sw')) = None"
  shows "\<not> viol \<and> rpt_violation (vs_report (sw_vs sw)) = None \<and>
    (\<exists>recs. drop (sw_record_offset sw) content = frames recs \<and> list_all (rec_valid u32_max) recs \<and>
      linked k (sw_prev sw) recs \<and>
      (sw_last_hmac_in_segment sw = sw_prev sw \<longrightarrow> sw_last_hmac_in_segment sw' = head_of (sw_prev sw) recs) \<and>
      (vs_checkpoint_reached (sw_vs sw') \<longrightarrow> vs_checkpoint_reached (sw_vs sw) \<or> cp_in opts si recs))"
  using assms
proof (induction k opts si h content sw rule: verify_records.induct)
  case (1 k opts si h content sw)
  note unfold = "1.prems"(1) [unfolded verify_records.simps [of k opts si h content sw]]
  show ?case
  proof (cases "read_framed_bytes content si (sw_record_offset sw)")
    case (Ok fo)
    show ?thesis
    proof (cases fo)
      case None
      then have "length content \<le> sw_record_offset sw"
        using Ok by (auto simp: read_framed_bytes_def Let_def split: if_splits)
      then show ?thesis using unfold Ok None "1.prems"(2) by (intro conjI exI [of _ "[]"]) auto
    next
      case (Some f)
      let ?sw1 = "count_record sw"
      obtain r reached where cr: "check_record k opts si h ?sw1 f = Ok (r, reached)"
        and next': "verify_records k opts si h content (walk_advance r reached ?sw1) = Ok (sw', viol)"
        using unfold Ok Some "1.prems"(2)
        by (auto simp: Let_def bind_res_Ok_iff dest!: note_violation_Ok
            split: result.splits sum.splits prod.splits)
      note s = check_record_sound [OF cr]
      let ?sw2 = "walk_advance r reached ?sw1"
      note IH = "1.IH" [OF Ok Some refl cr refl next' "1.prems"(2)]
      have sw2: "sw_prev ?sw2 = fr_hmac f" "sw_last_hmac_in_segment ?sw2 = fr_hmac f"
        "sw_record_offset ?sw2 = sw_record_offset sw + (40 + length (fr_payload_bytes f))"
        "vs_report (sw_vs ?sw2) = vs_report (sw_vs ?sw1)"
        "vs_checkpoint_reached (sw_vs ?sw2) \<longleftrightarrow> vs_checkpoint_reached (sw_vs sw) \<or> reached"
        "rpt_violation (vs_report (sw_vs ?sw1)) = rpt_violation (vs_report (sw_vs sw))"
        "sw_prev ?sw1 = sw_prev sw"
        using s(2,3) by (simp_all add: walk_advance_def count_record_def HMAC_LEN_def)
      note fr = read_framed_bytes_sound [OF Ok [unfolded Some]]
      let ?rec = "(fr_payload_bytes f, fr_hmac f)"
      obtain rest where rest: "drop (sw_record_offset sw) content = rec_frame ?rec @ rest" using fr(4) by blast
      have "drop (sw_record_offset ?sw2) content = rest"
        using drop_after [OF rest] length_rec_frame [OF fr(1)] sw2(3) by simp
      with IH sw2 obtain recs where IH': "\<not> viol" "rpt_violation (vs_report (sw_vs sw)) = None"
        "rest = frames recs" "list_all (rec_valid u32_max) recs" "linked k (fr_hmac f) recs"
        "sw_last_hmac_in_segment sw' = head_of (fr_hmac f) recs"
        "vs_checkpoint_reached (sw_vs sw') \<longrightarrow> vs_checkpoint_reached (sw_vs sw) \<or> reached \<or> cp_in opts si recs"
        by auto
      have "linked k (sw_prev sw) (?rec # recs)" using s(1,4) IH'(5) sw2(7) by auto
      moreover have "reached \<Longrightarrow> cp_in opts si (?rec # recs)"
        using s(5) cp_in_append [of opts si "[?rec]" recs] by simp
      moreover have "cp_in opts si recs \<Longrightarrow> cp_in opts si (?rec # recs)"
        using cp_in_append [of opts si "[?rec]" recs] by simp
      ultimately show ?thesis using IH' rest fr(1)
        by (intro conjI exI [of _ "?rec # recs"]) (auto simp: head_of_Cons)
    qed
  next
    case (Err e)
    then show ?thesis using unfold "1.prems"(2)
      by (auto simp: bind_res_Ok_iff dest!: note_violation_Ok split: reader_error.splits)
  next
    case Panic
    then show ?thesis using unfold by simp
  qed
qed

section \<open>The segments of a verified log\<close>

definition genuine_header :: "(bytes \<Rightarrow> u32) \<Rightarrow> key_handle \<Rightarrow> bytes \<Rightarrow> segment_header \<Rightarrow> bool" where
  "genuine_header crc k hb h \<longleftrightarrow> length hb = 80 \<and> header_parse crc hb = Ok h \<and>
     hdr_key_id h = kh_key_id k \<and> slice hb 76 4 = replicate 4 0"

definition chain_start :: "key_handle \<Rightarrow> u16 \<Rightarrow> segment_header \<Rightarrow> bytes" where
  "chain_start k si h = (if si = 0 then kh_sign k (header_body h) else hdr_prev_final h)"

text \<open>\<open>sound_chain prior sis hs rss\<close>: the segments \<open>sis\<close> have the headers \<open>hs\<close> and the records \<open>rss\<close>,
  and continue the chain whose head is \<open>prior\<close>.\<close>

inductive sound_chain :: "(bytes \<Rightarrow> u32) \<Rightarrow> key_handle \<Rightarrow> dir \<Rightarrow> bytes option \<Rightarrow> u16 list
    \<Rightarrow> segment_header list \<Rightarrow> (bytes \<times> bytes) list list \<Rightarrow> bool"
  for crc k d where
  Nil: "sound_chain crc k d prior [] [] []"
| Cons: "seg_get d si = Some (hb @ frames recs) \<Longrightarrow> genuine_header crc k hb h \<Longrightarrow>
    (prior = None \<or> prior = Some (hdr_prev_final h)) \<Longrightarrow> list_all (rec_valid u32_max) recs \<Longrightarrow>
    linked k (chain_start k si h) recs \<Longrightarrow>
    sound_chain crc k d (Some (head_of (chain_start k si h) recs)) sis hs rss \<Longrightarrow>
    sound_chain crc k d prior (si # sis) (h # hs) (recs # rss)"

inductive_cases sound_chain_NilE: "sound_chain crc k d prior [] hs rss"
inductive_cases sound_chain_ConsE: "sound_chain crc k d prior (si # sis) hs rss"

lemma validated_header:
  assumes "parse_and_validate_header crc hb si (kh_key_id k) = Ok h" "length hb = 80"
  shows "genuine_header crc k hb h"
  using assms
  by (auto simp: parse_and_validate_header_def genuine_header_def header_parse_def Let_def ct_eq_def
      HEADER_TOTAL_LEN_def split: if_splits)

lemma verify_segment_sound:
  assumes run: "verify_segment crc k opts d si vs = Ok vs'" and clean: "rpt_violation (vs_report vs') = None"
  obtains hb h recs where "seg_get d si = Some (hb @ frames recs)" "genuine_header crc k hb h"
    "vs_prior_segment_final vs = None \<or> vs_prior_segment_final vs = Some (hdr_prev_final h)"
    "list_all (rec_valid u32_max) recs" "linked k (chain_start k si h) recs"
    "vs_prior_segment_final vs' = Some (head_of (chain_start k si h) recs)"
    "rpt_violation (vs_report vs) = None"
    "vs_checkpoint_reached vs' \<longrightarrow> vs_checkpoint_reached vs \<or> cp_in opts si recs"
proof -
  let ?vs = "count_segment si vs"
  have cs: "vs_prior_segment_final ?vs = vs_prior_segment_final vs"
    "vs_checkpoint_reached ?vs = vs_checkpoint_reached vs"
    "rpt_violation (vs_report ?vs) = rpt_violation (vs_report vs)"
    by (simp_all add: count_segment_def)
  have no: "note_violation opts v ?vs \<noteq> Ok vs'" for v using clean note_violation_Ok by metis
  from run no obtain hb where hb: "read_segment_header_bytes d si = Some hb"
    by (cases "read_segment_header_bytes d si") (auto simp: verify_segment_def Let_def)
  then obtain content where content: "seg_get d si = Some content" "80 \<le> length content" "hb = slice content 0 80"
    by (auto simp: read_segment_header_bytes_def HEADER_TOTAL_LEN_def split: option.splits if_splits)
  from run no hb obtain h where h: "parse_and_validate_header crc hb si (kh_key_id k) = Ok h"
    by (cases "parse_and_validate_header crc hb si (kh_key_id k)") (auto simp: verify_segment_def Let_def)
  have hbl: "length hb = 80" using content by simp
  note gen = validated_header [OF h hbl]
  have prior: "vs_prior_segment_final vs = None \<or> vs_prior_segment_final vs = Some (hdr_prev_final h)"
  proof (rule ccontr)
    assume "\<not> ?thesis"
    then obtain pf where "vs_prior_segment_final vs = Some pf" "hdr_prev_final h \<noteq> pf" by auto
    then show False using run no hb h by (simp add: verify_segment_def Let_def ct_eq_def cs)
  qed
  have "header_parse crc hb = Ok h" using gen by (simp add: genuine_header_def)
  then have body: "slice hb 0 72 = header_body h" by (rule header_parse_Ok(3))
  define sw where "sw = \<lparr>sw_vs = ?vs, sw_prev = chain_start k si h, sw_record_offset = HEADER_TOTAL_LEN,
    sw_last_hmac_in_segment = chain_start k si h, sw_record_id_in_segment = 0\<rparr>"
  obtain sw' viol where walk: "verify_records k opts si h content sw = Ok (sw', viol)"
    and vs': "vs' = (if viol then sw_vs sw' else (sw_vs sw')\<lparr>vs_prior_segment_final :=
        Some (sw_last_hmac_in_segment sw')\<rparr>)"
    using run hb h prior content(1) body
    by (auto simp: verify_segment_def Let_def ct_eq_def cs chain_start_def sw_def bind_res_Ok_iff
        HEADER_BODY_LEN_def split: if_splits)
  have "rpt_violation (vs_report (sw_vs sw')) = None" using clean vs' by (auto split: if_splits)
  from verify_records_sound [OF walk this] obtain recs where
    r: "\<not> viol" "rpt_violation (vs_report ?vs) = None" "drop 80 content = frames recs"
    "list_all (rec_valid u32_max) recs" "linked k (chain_start k si h) recs"
    "sw_last_hmac_in_segment sw' = head_of (chain_start k si h) recs"
    "vs_checkpoint_reached (sw_vs sw') \<longrightarrow> vs_checkpoint_reached ?vs \<or> cp_in opts si recs"
    by (auto simp: sw_def HEADER_TOTAL_LEN_def)
  have "content = hb @ frames recs" using content(3) r(3) by (metis append_take_drop_id drop0 slice_def)
  then show thesis using that [of hb recs h] gen prior r vs' content(1) cs by simp
qed

lemma sound_chain_length:
  "sound_chain crc k d prior sis hs rss \<Longrightarrow> length hs = length sis \<and> length rss = length sis"
  by (induction rule: sound_chain.induct) auto

lemma verify_segments_sound:
  assumes "verify_segments crc k opts d sis vs = Ok vs'" "rpt_violation (vs_report vs') = None"
  shows "rpt_violation (vs_report vs) = None \<and>
    (\<exists>hs rss. sound_chain crc k d (vs_prior_segment_final vs) sis hs rss \<and>
      (sis = [] \<longrightarrow> vs_prior_segment_final vs' = vs_prior_segment_final vs) \<and>
      (sis \<noteq> [] \<longrightarrow> vs_prior_segment_final vs' =
         Some (head_of (chain_start k (last sis) (last hs)) (last rss))) \<and>
      (vs_checkpoint_reached vs' \<longrightarrow> vs_checkpoint_reached vs \<or>
         (\<exists>i < length sis. cp_in opts (sis ! i) (rss ! i))))"
  using assms
proof (induction sis arbitrary: vs)
  case Nil
  then show ?case by (auto intro: sound_chain.Nil)
next
  case (Cons si sis)
  then obtain vs1 where vs1: "verify_segment crc k opts d si vs = Ok vs1"
    "verify_segments crc k opts d sis vs1 = Ok vs'" by (auto simp: bind_res_Ok_iff)
  from Cons.IH [OF this(2) Cons.prems(2)] obtain hs rss where
    ih: "rpt_violation (vs_report vs1) = None" "sound_chain crc k d (vs_prior_segment_final vs1) sis hs rss"
    "sis = [] \<longrightarrow> vs_prior_segment_final vs' = vs_prior_segment_final vs1"
    "sis \<noteq> [] \<longrightarrow> vs_prior_segment_final vs' = Some (head_of (chain_start k (last sis) (last hs)) (last rss))"
    "vs_checkpoint_reached vs' \<longrightarrow> vs_checkpoint_reached vs1 \<or> (\<exists>i < length sis. cp_in opts (sis ! i) (rss ! i))"
    by blast
  obtain hb h recs where s: "seg_get d si = Some (hb @ frames recs)" "genuine_header crc k hb h"
    "vs_prior_segment_final vs = None \<or> vs_prior_segment_final vs = Some (hdr_prev_final h)"
    "list_all (rec_valid u32_max) recs" "linked k (chain_start k si h) recs"
    "vs_prior_segment_final vs1 = Some (head_of (chain_start k si h) recs)"
    "rpt_violation (vs_report vs) = None"
    "vs_checkpoint_reached vs1 \<longrightarrow> vs_checkpoint_reached vs \<or> cp_in opts si recs"
    using verify_segment_sound [OF vs1(1) ih(1)] by blast
  have "sound_chain crc k d (vs_prior_segment_final vs) (si # sis) (h # hs) (recs # rss)"
    using s ih(2) by (intro sound_chain.Cons) auto
  moreover have "sis = [] \<longleftrightarrow> hs = []" "sis = [] \<longleftrightarrow> rss = []"
    using sound_chain_length [OF ih(2)] by (metis length_0_conv)+
  moreover have "vs_checkpoint_reached vs' \<longrightarrow> vs_checkpoint_reached vs \<or>
      (\<exists>i < length (si # sis). cp_in opts ((si # sis) ! i) ((recs # rss) ! i))"
    using s(8) ih(5) by (auto simp: Ex_less_Suc2)
  ultimately show ?case using s(6,7) ih(3,4)
    by (intro conjI exI [of _ "h # hs"] exI [of _ "recs # rss"]) (simp_all split: if_splits)
qed

text \<open>A report returned before the end of the walk carries a violation.\<close>

lemma note_violation_return:
  "note_violation opts x vs = Err (Return r) \<Longrightarrow> rpt_violation r \<noteq> None"
  by (auto simp: note_violation_def push_violation_def split: if_splits)

lemma verify_records_return:
  "verify_records k opts si h content sw = Err (Return r) \<Longrightarrow> rpt_violation r \<noteq> None"
proof (induction k opts si h content sw rule: verify_records.induct)
  case (1 k opts si h content sw)
  note run = "1.prems" [unfolded verify_records.simps [of k opts si h content sw]]
  show ?case
  proof (cases "\<exists>f x. read_framed_bytes content si (sw_record_offset sw) = Ok (Some f) \<and>
      check_record k opts si h (count_record sw) f = Ok x")
    case True
    then obtain f q b where f: "read_framed_bytes content si (sw_record_offset sw) = Ok (Some f)"
      "check_record k opts si h (count_record sw) f = Ok (q, b)" by auto
    then have "verify_records k opts si h content (walk_advance q b (count_record sw)) = Err (Return r)"
      using run by (simp add: Let_def)
    then show ?thesis using "1.IH" [OF f(1) refl refl f(2) refl] by blast
  next
    case False
    then show ?thesis using run
      by (auto simp: Let_def bind_res_Err_iff dest!: note_violation_return
          split: result.splits option.splits reader_error.splits sum.splits)
  qed
qed

lemma verify_segment_return:
  "verify_segment crc k opts d si vs = Err (Return r) \<Longrightarrow> rpt_violation r \<noteq> None"
  unfolding verify_segment_def Let_def
  by (auto simp: bind_res_Err_iff dest!: note_violation_return verify_records_return
      split: option.splits result.splits prod.splits)

lemma verify_segments_return:
  "verify_segments crc k opts d sis vs = Err (Return r) \<Longrightarrow> rpt_violation r \<noteq> None"
  by (induction sis arbitrary: vs) (auto simp: bind_res_Err_iff dest: verify_segment_return)

text \<open>A report that says \<open>Verified\<close>.\<close>

lemma verify_sound:
  assumes run: "verify_with_options crc k opts d = Ok r" and v: "rpt_violation r = None"
  obtains hs rss where "list_segment_indices d \<noteq> []"
    "sound_chain crc k d None (list_segment_indices d) hs rss"
    "sum_final_hmac_hex (rpt_log r) =
       Some (hex (head_of (chain_start k (last (list_segment_indices d)) (last hs)) (last rss)))"
    "opt_checkpoint opts \<noteq> None \<Longrightarrow>
       \<exists>i < length (list_segment_indices d). cp_in opts (list_segment_indices d ! i) (rss ! i)"
proof -
  let ?sis = "list_segment_indices d"
  have ne: "?sis \<noteq> []" using run by (auto simp: verify_with_options_def Let_def)
  have ret: "verify_segments crc k opts d ?sis (initial_state k ?sis) \<noteq> Err (Return r)"
    using verify_segments_return v by blast
  then obtain vs where vs: "verify_segments crc k opts d ?sis (initial_state k ?sis) = Ok vs"
    and r: "r = finish_report opts vs"
    using run ne
    by (auto simp: verify_with_options_def Let_def split: option.splits if_splits result.splits verify_exit.splits)
  have clean: "rpt_violation (vs_report vs) = None"
    using v r by (auto simp: finish_report_def push_violation_def Let_def split: option.splits if_splits)
  have log: "rpt_log r = (rpt_log (vs_report vs))\<lparr>sum_final_hmac_hex := map_option hex (vs_prior_segment_final vs)\<rparr>"
    using r by (auto simp: finish_report_def push_violation_def Let_def split: option.splits)
  have cp: "opt_checkpoint opts \<noteq> None \<Longrightarrow> vs_checkpoint_reached vs"
    using v r clean by (auto simp: finish_report_def push_violation_def Let_def split: option.splits if_splits)
  from verify_segments_sound [OF vs clean] ne obtain hs rss where
    "sound_chain crc k d None ?sis hs rss"
    "vs_prior_segment_final vs = Some (head_of (chain_start k (last ?sis) (last hs)) (last rss))"
    "vs_checkpoint_reached vs \<longrightarrow> (\<exists>i < length ?sis. cp_in opts (?sis ! i) (rss ! i))"
    by (auto simp: initial_state_def)
  then show thesis using that [of hs rss] ne log cp by simp
qed

end
