(* ===== verification/Tamper.thy ===== *)
theory Tamper
  imports Verifier_Sound
begin

text \<open>
  Tamper evidence: the records of a directory (\<open>dir_records\<close>) form one chain when the
  verifier accepts it, and the head of the chain fixes all of them up to a collision of
  the signing function among the messages of the two logs.
\<close>

section \<open>The records of a directory\<close>

function seg_frames :: "bytes \<Rightarrow> nat \<Rightarrow> (bytes \<times> bytes) list" where
  "seg_frames content off =
     (case read_framed_bytes content 0 off of
        Ok (Some f) \<Rightarrow> (fr_payload_bytes f, fr_hmac f) # seg_frames content (off + 40 + length (fr_payload_bytes f))
      | _ \<Rightarrow> [])"
  by auto
termination
  by (relation "measure (\<lambda>(content, off). length content - off)") (auto dest: read_framed_inside)

declare seg_frames.simps [simp del]

definition seg_records :: "dir \<Rightarrow> u16 \<Rightarrow> (bytes \<times> bytes) list" where
  "seg_records d si = (case seg_get d si of None \<Rightarrow> [] | Some c \<Rightarrow> seg_frames c HEADER_TOTAL_LEN)"

definition dir_records :: "dir \<Rightarrow> (bytes \<times> bytes) list" where
  "dir_records d = concat (map (seg_records d) (list_segment_indices d))"

text \<open>The genesis header as it is signed, and everything the key has signed in the log.\<close>

definition genesis_body :: "dir \<Rightarrow> bytes" where
  "genesis_body d = (case seg_get d 0 of None \<Rightarrow> [] | Some c \<Rightarrow> slice c 0 HEADER_BODY_LEN)"

definition signed_messages :: "dir \<Rightarrow> bytes list" where
  "signed_messages d = genesis_body d # map fst (dir_records d)"

definition collides :: "key_handle \<Rightarrow> bytes list \<Rightarrow> bytes list \<Rightarrow> bool" where
  "collides k xs ys \<longleftrightarrow> (\<exists>p \<in> set xs. \<exists>q \<in> set ys. p \<noteq> q \<and> kh_sign k p = kh_sign k q)"

lemma seg_frames_frames:
  assumes "list_all (rec_valid u32_max) recs" "off \<le> length content" "drop off content = frames recs"
  shows "seg_frames content off = recs"
  using assms
proof (induction recs arbitrary: off)
  case Nil
  then have "read_framed_bytes content 0 off = Ok None" by (simp add: read_framed_bytes_def)
  then show ?case by (subst seg_frames.simps) simp
next
  case (Cons r recs)
  have v: "rec_valid u32_max r" using Cons.prems by simp
  have d: "drop off content = rec_frame r @ frames recs" using Cons.prems by simp
  note len = length_rec_frame [OF v]
  have "seg_frames content (off + 40 + length (fst r)) = recs"
    using Cons.prems drop_after [OF d] drop_length_bound [OF d Cons.prems(2)] len
    by (intro Cons.IH) (simp_all add: add.assoc)
  then show ?case using read_framed_bytes_frame [OF v Cons.prems(2) d, of 0]
    by (subst seg_frames.simps) simp
qed

lemma sound_chain_records:
  "sound_chain crc k d prior sis hs rss \<Longrightarrow> map (seg_records d) sis = rss"
proof (induction rule: sound_chain.induct)
  case (Cons si hb recs h prior sis hs rss)
  have "length hb = 80" using Cons(2) by (simp add: genuine_header_def)
  then have "seg_frames (hb @ frames recs) 80 = recs"
    using Cons by (intro seg_frames_frames) simp_all
  then show ?case using Cons by (simp add: seg_records_def HEADER_TOTAL_LEN_def)
qed simp

section \<open>One chain\<close>

lemma sound_chain_flat:
  assumes "sound_chain crc k d prior sis hs rss" "prior = Some t" "0 \<notin> set sis"
  shows "linked k t (concat rss) \<and>
    (sis \<noteq> [] \<longrightarrow> head_of (chain_start k (last sis) (last hs)) (last rss) = head_of t (concat rss))"
  using assms
proof (induction arbitrary: t rule: sound_chain.induct)
  case (Cons si hb recs h prior sis hs rss)
  have start: "chain_start k si h = t" using Cons.prems Cons.hyps(3) by (auto simp: chain_start_def)
  have "sis = [] \<longleftrightarrow> hs = []" "sis = [] \<longleftrightarrow> rss = []"
    using sound_chain_length [OF Cons.hyps(6)] by (metis length_0_conv)+
  then show ?case using Cons.IH [OF refl] Cons.prems Cons.hyps(5) start
    by (auto simp: linked_append)
qed simp

lemma indices_zero:
  assumes "dir_wf d" "seg_get d 0 \<noteq> None"
  obtains sis where "list_segment_indices d = 0 # sis" "0 \<notin> set sis"
proof -
  have "0 \<in> set (list_segment_indices d)" using store.set_indices [OF assms(1)] assms(2) by simp
  moreover have sorted: "sorted_wrt (<) (list_segment_indices d)" by (rule store.indices_sorted [OF assms(1)])
  ultimately obtain si sis where s: "list_segment_indices d = si # sis" by (cases "list_segment_indices d") auto
  then have "si = 0" using sorted \<open>0 \<in> set _\<close> by (metis set_ConsD sorted_wrt.simps(2) word_not_simps(1))
  then show thesis using that s sorted by auto
qed

lemma verified_linked:
  assumes run: "verify_with_options crc k opts d = Ok r" "rpt_violation r = None" and wf: "dir_wf d"
    and first: "seg_get d 0 \<noteq> None"
  shows "linked k (kh_sign k (genesis_body d)) (dir_records d) \<and>
    sum_final_hmac_hex (rpt_log r) = Some (hex (head_of (kh_sign k (genesis_body d)) (dir_records d))) \<and>
    (\<exists>h. header_wf h \<and> genesis_body d = header_body h)"
proof -
  obtain sis where sis: "list_segment_indices d = 0 # sis" "0 \<notin> set sis" using indices_zero [OF wf first] .
  obtain hs rss where s: "sound_chain crc k d None (0 # sis) hs rss"
    "sum_final_hmac_hex (rpt_log r) = Some (hex (head_of (chain_start k (last (0 # sis)) (last hs)) (last rss)))"
    using verify_sound [OF run] sis(1) by metis
  from s(1) obtain hb recs h hs' rss' where c: "hs = h # hs'" "rss = recs # rss'"
    "seg_get d 0 = Some (hb @ frames recs)" "genuine_header crc k hb h" "linked k (chain_start k 0 h) recs"
    "sound_chain crc k d (Some (head_of (chain_start k 0 h) recs)) sis hs' rss'"
    by (rule sound_chain_ConsE) blast
  have "slice hb 0 72 = header_body h" "length hb = 80" "header_wf h"
    using c(4) header_parse_Ok(1,3) by (auto simp: genuine_header_def)
  then have g: "genesis_body d = header_body h"
    using c(3) by (simp add: genesis_body_def HEADER_BODY_LEN_def slice_def)
  have start: "chain_start k 0 h = kh_sign k (genesis_body d)" by (simp add: chain_start_def g)
  have recs: "dir_records d = recs @ concat rss'"
    using sound_chain_records [OF s(1)] sis(1) c(2) by (simp add: dir_records_def)
  note flat = sound_chain_flat [OF c(6) refl sis(2)]
  have e: "sis = [] \<longleftrightarrow> hs' = []" "sis = [] \<longleftrightarrow> rss' = []"
    using sound_chain_length [OF c(6)] by (metis length_0_conv)+
  have "head_of (chain_start k (last (0 # sis)) (last hs)) (last rss) =
      head_of (kh_sign k (genesis_body d)) (dir_records d)"
    using flat e c(1,2) start recs by (cases "sis = []") simp_all
  then show ?thesis using flat c(5) start recs s(2) g \<open>header_wf h\<close> by (auto simp: linked_append)
qed

section \<open>The head fixes the chain\<close>

text \<open>A header is never a record: it starts with \<^verbatim>\<open>O\<close>, the initial byte of a byte string.\<close>

lemma head_map_byte: "hd (head 5 n) \<noteq> 79" "head 5 n \<noteq> []"
proof -
  have "bit (160 OR w) 7" for w :: u8 by (simp add: bit_or_iff bit_numeral_rec)
  moreover have "\<not> bit (79 :: u8) 7" by (simp add: bit_numeral_rec)
  ultimately have ne: "(160 OR w) \<noteq> 79" for w :: u8 by metis
  have "push_bit 5 5 = (160 :: u8)" by (simp add: push_bit_eq_mult)
  then show "hd (head 5 n) \<noteq> 79" "head 5 n \<noteq> []" using ne by (simp_all add: head_def Let_def)
qed

lemma header_not_record:
  assumes "header_wf h"
  shows "record_view (header_body h) = None"
proof (rule ccontr)
  assume "record_view (header_body h) \<noteq> None"
  then obtain v r where v: "decode (header_body h) = Ok v" "reader_decode_record_map v 0 0 [] [] = Ok r"
    by (auto simp: record_view_def split: result.splits)
  then obtain ps where "v = VMap ps" by (cases v) (simp_all add: reader_decode_record_map_def)
  moreover have "header_body h = enc v" using decode_Ok_iff [of "header_body h" v] v(1) assms by simp
  ultimately have "hd (header_body h) \<noteq> 79" using head_map_byte by (simp add: emit_map_def)
  then show False by (simp add: header_body_def FORMAT_MAGIC_def ascii_def)
qed

lemma linked_head_inject:
  assumes "linked k (kh_sign k a) xs" "linked k (kh_sign k b) ys"
    and "head_of (kh_sign k a) xs = head_of (kh_sign k b) ys"
    and "record_view a = None" "record_view b = None"
  shows "(a = b \<and> xs = ys) \<or> collides k (a # map fst xs) (b # map fst ys)"
  using assms(1-3)
proof (induction xs arbitrary: ys rule: rev_induct)
  case Nil
  show ?case
  proof (cases ys rule: rev_cases)
    case Nil2: Nil
    then show ?thesis using Nil by (auto simp: collides_def)
  next
    case (snoc ys' y)
    then have "kh_sign k a = kh_sign k (fst y)" "fst y \<noteq> a"
      using Nil assms(4) by (auto simp: linked_append head_of_def split: option.splits)
    then show ?thesis using snoc by (auto simp: collides_def)
  qed
next
  case (snoc x xs)
  show ?case
  proof (cases ys rule: rev_cases)
    case Nil
    then have "kh_sign k (fst x) = kh_sign k b" "fst x \<noteq> b"
      using snoc.prems assms(5) by (auto simp: linked_append head_of_def split: option.splits)
    then show ?thesis using Nil by (auto simp: collides_def)
  next
    case (snoc ys' y)
    note ys = this
    from snoc.prems ys have l: "linked k (kh_sign k a) xs" "linked k (kh_sign k b) ys'"
      and t: "snd x = kh_sign k (fst x)" "snd y = kh_sign k (fst y)" "snd x = snd y"
      and p: "fst x = fst y \<Longrightarrow> head_of (kh_sign k a) xs = head_of (kh_sign k b) ys'"
      by (auto simp: linked_append head_of_def [of _ "[_]"] split: option.splits)
    show ?thesis
    proof (cases "fst x = fst y")
      case True
      from snoc.IH [OF l p [OF True]] have "(a = b \<and> xs = ys') \<or> collides k (a # map fst xs) (b # map fst ys')" .
      then show ?thesis using True t ys by (auto simp: collides_def prod_eq_iff)
    next
      case False
      then show ?thesis using t ys by (auto simp: collides_def)
    qed
  qed
qed

text \<open>Two accepted logs with the same head.\<close>

lemma verified_same_head:
  assumes "verify_with_options crc k opts d = Ok r" "rpt_violation r = None" "dir_wf d" "seg_get d 0 \<noteq> None"
    and "verify_with_options crc k opts' d' = Ok r'" "rpt_violation r' = None" "dir_wf d'" "seg_get d' 0 \<noteq> None"
    and "sum_final_hmac_hex (rpt_log r) = sum_final_hmac_hex (rpt_log r')"
  shows "(genesis_body d = genesis_body d' \<and> dir_records d = dir_records d') \<or>
    collides k (signed_messages d) (signed_messages d')"
proof -
  note v = verified_linked [OF assms(1-4)] and v' = verified_linked [OF assms(5-8)]
  have "head_of (kh_sign k (genesis_body d)) (dir_records d) =
      head_of (kh_sign k (genesis_body d')) (dir_records d')"
    using v v' assms(9) by simp
  moreover have "record_view (genesis_body d) = None" "record_view (genesis_body d') = None"
    using v v' header_not_record by auto
  ultimately show ?thesis using linked_head_inject v v' unfolding signed_messages_def by blast
qed

text \<open>Two accepted logs checked against the same checkpoint agree up to the checkpointed record.\<close>

lemma verified_same_checkpoint:
  assumes run: "verify_with_options crc k opts d = Ok r" "rpt_violation r = None" "dir_wf d" "seg_get d 0 \<noteq> None"
    and run': "verify_with_options crc k opts' d' = Ok r'" "rpt_violation r' = None" "dir_wf d'" "seg_get d' 0 \<noteq> None"
    and cp: "opt_checkpoint opts = Some cp" "opt_checkpoint opts' = Some cp"
  shows "(\<exists>i < length (dir_records d). snd (dir_records d ! i) = cp_hmac cp \<and> genesis_body d = genesis_body d' \<and>
      take (Suc i) (dir_records d) = take (Suc i) (dir_records d')) \<or>
    collides k (signed_messages d) (signed_messages d')"
proof -
  have at: "\<exists>i < length (dir_records d). snd (dir_records d ! i) = cp_hmac cp"
    if r: "verify_with_options crc k opts d = Ok r" "rpt_violation r = None" and c: "opt_checkpoint opts = Some cp"
    for opts d r
  proof -
    obtain hs rss where s: "sound_chain crc k d None (list_segment_indices d) hs rss"
      "\<exists>i < length (list_segment_indices d). cp_in opts (list_segment_indices d ! i) (rss ! i)"
      using verify_sound [OF r] c by (metis option.distinct(1))
    then obtain i p where "i < length rss" "p \<in> set (rss ! i)" "snd p = cp_hmac cp"
      using sound_chain_length [OF s(1)] c by (auto simp: cp_in_def)
    then have "p \<in> set (dir_records d)"
      using sound_chain_records [OF s(1)] by (auto simp: dir_records_def)
    then show ?thesis using \<open>snd p = cp_hmac cp\<close> by (metis in_set_conv_nth)
  qed
  obtain i where i: "i < length (dir_records d)" "snd (dir_records d ! i) = cp_hmac cp"
    using at [OF run(1,2) cp(1)] by blast
  obtain j where j: "j < length (dir_records d')" "snd (dir_records d' ! j) = cp_hmac cp"
    using at [OF run'(1,2) cp(2)] by blast
  note v = verified_linked [OF run] and v' = verified_linked [OF run']
  let ?xs = "take (Suc i) (dir_records d)" let ?ys = "take (Suc j) (dir_records d')"
  have "linked k (kh_sign k (genesis_body d)) ?xs" "linked k (kh_sign k (genesis_body d')) ?ys"
    using v v' linked_append by (metis append_take_drop_id)+
  moreover have "head_of a ?xs = cp_hmac cp" "head_of b ?ys = cp_hmac cp" for a b
    using i j by (simp_all add: head_of_def take_Suc_conv_app_nth)
  moreover have "record_view (genesis_body d) = None" "record_view (genesis_body d') = None"
    using v v' header_not_record by auto
  ultimately have "(genesis_body d = genesis_body d' \<and> ?xs = ?ys) \<or>
      collides k (genesis_body d # map fst ?xs) (genesis_body d' # map fst ?ys)"
    using linked_head_inject by metis
  moreover have "i = j" if "?xs = ?ys" using arg_cong [OF that, of length] i(1) j(1) by simp
  moreover have "set (map fst ?xs) \<subseteq> set (map fst (dir_records d))" "set (map fst ?ys) \<subseteq> set (map fst (dir_records d'))"
    by (auto dest: in_set_takeD)
  ultimately show ?thesis using i unfolding collides_def signed_messages_def by fastforce
qed

end
