(* ===== verification/System.thy ===== *)
theory System
  imports Recovery_Correct Tamper
begin

text \<open>
  The life of a log directory: it is created by a first \<^verbatim>\<open>open\<close>, grows by appends, and at any
  time the process may die with the current segment file cut at any byte after its header
  and the log be opened again, by another session and with another configuration.
\<close>

inductive reach :: "(bytes \<Rightarrow> u32) \<Rightarrow> key_handle \<Rightarrow> writer \<times> dir \<Rightarrow> bool" for crc k where
  fresh: "dir_wf d0 \<Longrightarrow> (\<forall>i. seg_get d0 i = None) \<Longrightarrow> length sid = 16 \<Longrightarrow>
    with_config crc k sid cfg d0 = (d, Ok w) \<Longrightarrow> reach crc k (w, d)"
| append: "reach crc k wd \<Longrightarrow> item_ok MAX_RECORD k (w_session_id (fst wd), inp) \<Longrightarrow>
    writer_append crc inp wd = (wd', Ok rid) \<Longrightarrow> reach crc k wd'"
| crash: "reach crc k wd \<Longrightarrow> unat (st_index (w_current (fst wd))) < 10000 \<Longrightarrow> 80 \<le> c \<Longrightarrow> length sid = 16 \<Longrightarrow>
    seg_get (snd wd) (st_index (w_current (fst wd))) = Some content \<Longrightarrow>
    with_config crc k sid cfg (seg_put (st_index (w_current (fst wd))) (take c content) (snd wd)) = (d, Ok w) \<Longrightarrow>
    reach crc k (w, d)"

inductive_cases reachE: "reach crc k wd"

lemma open_fresh:
  assumes "dir_wf d0" "\<forall>i. seg_get d0 i = None" "length sid = 16" "with_config crc k sid cfg d0 = (d, Ok w)"
  shows "writer_at crc [[]] (w, d)" "w_key w = k"
proof -
  have none: "list_segment_indices d0 = []"
    using store.set_indices [OF assms(1)] assms(2) by auto
  have body: "slice (header_to_bytes crc (header_genesis (kh_key_id k))) 0 72 = header_body (header_genesis (kh_key_id k))"
    using header_fields(6) [of "header_genesis (kh_key_id k)" crc "[]"] by simp
  have rep: "represents crc k [] d0" using assms(1,2) by (simp add: represents_def)
  obtain st d1 where st: "segment_create crc 0 (kh_key_id k) d0 = (st, d1)" by force
  note gen = create_genesis_refines [OF rep, unfolded st fst_conv snd_conv]
  from assms(4) none st have "d = d1" "w_key w = k" "w_session_id w = sid"
    "w_current w = st\<lparr>st_last_hmac := kh_sign k (header_body (header_genesis (kh_key_id k)))\<rparr>"
    by (auto simp: with_config_def Let_def body HEADER_BODY_LEN_def)
  then show "writer_at crc [[]] (w, d)" "w_key w = k"
    using gen assms(3) by (simp_all add: writer_at_def)
qed

lemma log_ok_cut: "log_ok m k segs \<Longrightarrow> segs \<noteq> [] \<Longrightarrow> log_ok m k (log_cut j segs)"
  by (cases segs rule: rev_cases) (auto simp: log_ok_def log_cut_def list_all_iff dest: in_set_takeD)

text \<open>Every reachable directory holds exactly the files of a log.\<close>

lemma reach_log:
  assumes "reach crc k wd"
  shows "\<exists>segs. writer_at crc segs wd \<and> log_ok MAX_RECORD k segs \<and> w_key (fst wd) = k"
  using assms
proof (induction rule: reach.induct)
  case (fresh d0 sid cfg d w)
  then show ?case using open_fresh [OF fresh] by (intro exI [of _ "[[]]"]) (simp add: log_ok_def)
next
  case (append wd inp wd' rid)
  then obtain segs where s: "writer_at crc segs wd" "log_ok MAX_RECORD k segs" "w_key (fst wd) = k" by blast
  have m: "1000 \<le> MAX_RECORD" by (simp add: MAX_RECORD_def)
  show ?case
    using append_refines [of crc segs wd MAX_RECORD inp] s m append.hyps
    by (auto simp: same_writer_def)
next
  case (crash wd c sid content cfg d w)
  then obtain segs where s: "writer_at crc segs wd" "log_ok MAX_RECORD k segs" "w_key (fst wd) = k" by blast
  then have segs: "segs \<noteq> []" and rep: "represents crc k segs (snd wd)"
    and idx: "st_index (w_current (fst wd)) = of_nat (length segs - 1)"
    by (auto simp: writer_at_def seg_state_at_def Let_def)
  obtain n where n: "length segs = Suc n" "unat (of_nat n :: u16) = n" using last_index [OF rep segs] by blast
  then have len: "length segs \<le> 10000" using crash.hyps(2) idx by simp
  have content: "content = log_file crc k segs (length segs - 1)"
    using crash.hyps(5) log_seg_get [OF rep segs] idx by simp
  obtain j t w1 d1 where w1: "with_config crc k sid cfg
      (seg_put (of_nat (length segs - 1)) (take c (log_file crc k segs (length segs - 1))) (snd wd)) = (d1, Ok w1)"
    "writer_at crc (if log_closed (log_cut j segs) then log_cut j segs @ [[]] else log_cut j segs) (w1, d1)"
    "w_key w1 = k"
    using with_config_cut [OF rep segs len s(2) crash.hyps(3,4)] by metis
  have "w = w1" "d = d1" using w1(1) crash.hyps(6) idx content by simp_all
  moreover have "log_ok MAX_RECORD k (log_cut j segs)" "log_ok MAX_RECORD k (log_cut j segs @ [[]])"
    using log_ok_cut [OF s(2) segs, of j] by (simp_all add: log_ok_def)
  ultimately show ?case using w1(2,3)
    by (intro exI [of _ "if log_closed (log_cut j segs) then log_cut j segs @ [[]] else log_cut j segs"]) simp
qed

lemma log_ok_mono: "log_ok m k segs \<Longrightarrow> m \<le> n \<Longrightarrow> log_ok n k segs"
  unfolding log_ok_def list_all_iff using item_ok_mono by blast

end
