(* ===== verification/Example_Log.thy ===== *)
theory Example_Log
  imports System
begin

text \<open>
  A concrete log: a fresh directory opened with a fixed key, and one record appended. The
  theorems with hypotheses are applied to it.
\<close>

definition ex_crc :: "bytes \<Rightarrow> u32" where "ex_crc bs = of_nat (length bs)"

definition ex_key :: key_handle where
  "ex_key = in_memory_key (\<lambda>key d. drop 2 d) (\<lambda>key. key) (replicate 32 7)"

definition ex_sid :: bytes where "ex_sid = replicate 16 1"

definition ex_input :: record_input where
  "ex_input = \<lparr>in_ts_wall = ts_text 2026 5 13 20 6 43 456, in_ts_mono_delta = 5,
     in_actor = ascii ''user:alice'', in_event = ascii ''vault.unlocked'',
     in_payload = [(ascii ''n'', PUint 1)], in_schema_version = 1\<rparr>"

definition ex_item :: log_item where "ex_item = (ex_sid, ex_input)"

definition ex_open :: "dir \<times> (writer, writer_error) result" where
  "ex_open = with_config ex_crc ex_key ex_sid default_config []"

definition ex_wd0 :: "writer \<times> dir" where
  "ex_wd0 = (case snd ex_open of Ok w \<Rightarrow> (w, fst ex_open))"

definition ex_wd :: "writer \<times> dir" where
  "ex_wd = fst (writer_append ex_crc ex_input ex_wd0)"

lemma ex_ts_valid: "ts_valid 2026 5 13 20 6 43 456"
  by (simp add: ts_valid_def)

lemma ex_input_wf: "input_wf ex_input"
proof -
  have "length (ts_text 2026 5 13 20 6 43 456) = 24" by (rule length_ts_text [OF ex_ts_valid])
  moreover have "valid_utf8 (ts_text 2026 5 13 20 6 43 456)"
    by (rule valid_utf8_ascii) (use ts_text_ascii in blast)
  ultimately show ?thesis
    by (simp add: input_wf_def ex_input_def small_def ascii_def MAX_CBOR_DEPTH_def)
qed

lemma ex_validate: "validate_input ex_input = Ok ()" "bump_ts_ms (in_ts_wall ex_input) \<noteq> None"
proof -
  have "length (ts_text 2026 5 13 20 6 43 456) = 24" by (rule length_ts_text [OF ex_ts_valid])
  then show "validate_input ex_input = Ok ()"
    by (simp add: validate_input_def ex_input_def) (simp add: ts_text_def)
  show "bump_ts_ms (in_ts_wall ex_input) \<noteq> None"
    by (simp add: ex_input_def bump_ts_text [OF ex_ts_valid])
qed

lemma ex_item_bound: "length (item_payload ex_key ex_item (replicate 32 0) (- 1)) \<le> 1000"
proof -
  have e: "encode_payload_map (in_payload ex_input) = Some (map_text_keys [(ascii ''n'', uint_cbor 1)])"
    by (simp add: ex_input_def encode_payload_map_def)
  have "length (map_text_keys [(ascii ''n'', uint_cbor 1)]) =
      length (head 5 1) + (length (tstr (ascii ''n'')) + length (uint_cbor 1))"
    by (simp only: map_text_keys_def emit_map_sort_length) (simp add: emit_map_length)
  then have p: "length (map_text_keys [(ascii ''n'', uint_cbor 1)]) \<le> 100"
    using length_head_le [of 5 1] length_tstr_le [of "ascii ''n''"] length_uint_le9 [of 1]
    by (simp add: ascii_def)
  have "encode_record_payload ex_input ex_sid (kh_key_id ex_key) (replicate 32 0) (- 1) =
      Some (item_payload ex_key ex_item (replicate 32 0) (- 1))"
    using item_payload_enc(1) [of ex_item ex_key "replicate 32 0" "- 1"] ex_input_wf by (simp add: ex_item_def)
  from encode_record_length [OF this e] p length_ts_text [OF ex_ts_valid]
  show ?thesis by (simp add: ex_input_def ex_sid_def ascii_def)
qed

lemma ex_item_ok: "item_ok MAX_RECORD ex_key ex_item"
  using ex_item_bound ex_input_wf ex_validate
  by (simp add: item_ok_def ex_item_def ex_sid_def MAX_RECORD_def)

lemma ex_open_Ok: "\<exists>w. ex_open = (fst ex_open, Ok w) \<and> ex_wd0 = (w, fst ex_open)"
proof -
  have "list_segment_indices [] = []" by (simp add: list_segment_indices_def List.map_filter_simps)
  then have "\<exists>w. snd ex_open = Ok w"
    by (simp add: ex_open_def with_config_def Let_def split: prod.splits)
  then show ?thesis by (auto simp: ex_wd0_def prod_eq_iff)
qed

lemma ex_empty_dir: "dir_wf []" "seg_get [] i = None"
  by (simp_all add: dir_wf_def seg_get_def)

lemma ex_wd0_at: "writer_at ex_crc [[]] ex_wd0" "w_key (fst ex_wd0) = ex_key" "reach ex_crc ex_key ex_wd0"
  "w_session_id (fst ex_wd0) = ex_sid"
proof -
  obtain w where w: "ex_open = (fst ex_open, Ok w)" "ex_wd0 = (w, fst ex_open)" using ex_open_Ok by blast
  have sid: "length ex_sid = 16" by (simp add: ex_sid_def)
  have run: "with_config ex_crc ex_key ex_sid default_config [] = (fst ex_open, Ok w)"
    using w(1) by (simp add: ex_open_def)
  have none: "\<forall>i. seg_get [] i = None" by (simp add: ex_empty_dir)
  note o = open_fresh [OF ex_empty_dir(1) none sid run]
  show "writer_at ex_crc [[]] ex_wd0" "w_key (fst ex_wd0) = ex_key" unfolding w(2) using o by simp_all
  show "reach ex_crc ex_key ex_wd0" unfolding w(2) by (rule reach.fresh [OF ex_empty_dir(1) none sid run])
  have "list_segment_indices [] = []" by (simp add: list_segment_indices_def List.map_filter_simps)
  then have "w_session_id w = ex_sid" using run by (auto simp: with_config_def Let_def split: prod.splits)
  then show "w_session_id (fst ex_wd0) = ex_sid" unfolding w(2) by simp
qed

lemma ex_wd_at: "writer_at ex_crc [[ex_item]] ex_wd" "writer_append ex_crc ex_input ex_wd0 = (ex_wd, Ok 0)"
  "w_key (fst ex_wd) = ex_key" "w_session_id (fst ex_wd) = ex_sid" "reach ex_crc ex_key ex_wd"
proof -
  have ok: "log_ok MAX_RECORD (w_key (fst ex_wd0)) [[]]" by (simp add: log_ok_def)
  have m: "1000 \<le> MAX_RECORD" by (simp add: MAX_RECORD_def)
  have it: "item_ok MAX_RECORD (w_key (fst ex_wd0)) (w_session_id (fst ex_wd0), ex_input)"
    using ex_item_ok by (simp add: ex_wd0_at ex_item_def)
  from append_refines [OF ex_wd0_at(1) ok m it] obtain wd' segs' where
    a: "same_writer (fst ex_wd0) (fst wd')" "writer_append ex_crc ex_input ex_wd0 = (wd', Ok (of_nat (length (last segs') - 1)))"
    "log_step ex_key ex_item [[]] segs'" "writer_at ex_crc segs' wd'"
    by (auto simp: ex_wd0_at ex_item_def)
  have "ex_wd = wd'" using a(2) by (simp add: ex_wd_def)
  moreover have s: "segs' = [[ex_item]]" using a(3) by (rule log_stepE) (simp_all add: log_add_def)
  ultimately show "writer_at ex_crc [[ex_item]] ex_wd" and app: "writer_append ex_crc ex_input ex_wd0 = (ex_wd, Ok 0)"
    and "w_key (fst ex_wd) = ex_key" "w_session_id (fst ex_wd) = ex_sid"
    using a by (simp_all add: same_writer_def ex_wd0_at)
  show "reach ex_crc ex_key ex_wd"
    using reach.append [OF ex_wd0_at(3) _ app] it by (simp add: ex_wd0_at)
qed

lemma ex_represents: "represents ex_crc ex_key [[ex_item]] (snd ex_wd)"
  using ex_wd_at(1,3) by (simp add: writer_at_def)

lemma ex_log_ok: "log_ok MAX_RECORD ex_key [[ex_item]]" "log_ok u32_max ex_key [[ex_item]]"
proof -
  show l: "log_ok MAX_RECORD ex_key [[ex_item]]" using ex_item_ok by (simp add: log_ok_def)
  show "log_ok u32_max ex_key [[ex_item]]" by (rule log_ok_mono [OF l MAX_RECORD_u32])
qed

lemma ex_ts: "ts_list None (concat [[ex_item]])"
  by (simp add: ts_step_def)

text \<open>The checkpoint of the one record.\<close>

definition ex_cp :: checkpoint where
  "ex_cp = \<lparr>cp_key_id = kh_key_id ex_key, cp_segment = 0, cp_record_id = 0,
     cp_hmac = st_last_hmac (w_current (fst ex_wd)), cp_observed_at = []\<rparr>"

definition ex_opts :: verify_options where
  "ex_opts = \<lparr>opt_forensic_mode = False, opt_checkpoint = Some ex_cp\<rparr>"

lemma ex_verified:
  "\<exists>r. verify_with_options ex_crc ex_key ex_opts (snd ex_wd) = Ok r \<and> rpt_verdict r = Verified \<and> rpt_violation r = None"
  "\<exists>r. verify_with_options ex_crc ex_key default_options (snd ex_wd) = Ok r \<and> rpt_verdict r = Verified \<and> rpt_violation r = None"
proof -
  have last: "st_last_hmac (w_current (fst ex_wd)) = snd (seg_chain ex_key 0 (replicate 32 0) [ex_item] ! 0)"
    using ex_wd_at(1,3) by (simp add: writer_at_def seg_state_at_def Let_def seg_final_def seg_chain_def head_of_def)
  have "checkpoint_from ex_opts ex_key [[ex_item]]"
    using last by (simp add: checkpoint_from_def checkpoint_agrees_def ex_opts_def ex_cp_def)
  moreover have "cp_hit ex_opts [[ex_item]] 0 1"
    by (simp add: cp_hit_def at_checkpoint_def ex_opts_def ex_cp_def is_position_def)
  ultimately show "\<exists>r. verify_with_options ex_crc ex_key ex_opts (snd ex_wd) = Ok r \<and> rpt_verdict r = Verified \<and> rpt_violation r = None"
    using verify_log [OF ex_represents _ _ ex_log_ok(2) ex_ts, of ex_opts]
    by (simp add: ex_opts_def ex_cp_def matches_key_def) blast
  have "checkpoint_from default_options ex_key [[ex_item]]"
    by (simp add: checkpoint_from_def checkpoint_agrees_def default_options_def)
  then show "\<exists>r. verify_with_options ex_crc ex_key default_options (snd ex_wd) = Ok r \<and> rpt_verdict r = Verified \<and> rpt_violation r = None"
    using verify_log [OF ex_represents _ _ ex_log_ok(2) ex_ts, of default_options]
    by (simp add: default_options_def) blast
qed

section \<open>A log of several segments\<close>

text \<open>The directory that holds exactly the files of a log.\<close>

definition dir_of :: "(bytes \<Rightarrow> u32) \<Rightarrow> key_handle \<Rightarrow> log_item list list \<Rightarrow> dir" where
  "dir_of crc k segs = map (\<lambda>n. (segment_path (of_nat n), log_file crc k segs n)) [0..<length segs]"

lemma dir_of_represents:
  assumes "length segs \<le> 65536"
  shows "represents crc k segs (dir_of crc k segs)"
proof -
  let ?path = "\<lambda>n. segment_path (of_nat n)"
  have un: "unat (of_nat n :: u16) = n" if "n < length segs" for n using that assms by (simp add: unat_of_nat)
  have inj: "inj_on ?path (set [0..<length segs])"
    by (rule inj_onI) (metis atLeastLessThan_iff segment_path_inject set_upt un)
  have wf: "dir_wf (dir_of crc k segs)"
    using inj by (auto simp: dir_wf_def dir_of_def distinct_map o_def dest: segment_name_canonical)
  have get: "map_of (map (\<lambda>n. (?path n, f n)) ns) (segment_path i) = (if unat i \<in> set ns then Some (f (unat i)) else None)"
    if "\<And>n. n \<in> set ns \<Longrightarrow> unat (of_nat n :: u16) = n" for ns and f :: "nat \<Rightarrow> bytes" and i
    using that by (induction ns) (auto simp: word_unat_eq_iff)
  show ?thesis
    using wf get [of "[0..<length segs]"] un assms by (simp add: represents_def seg_get_def dir_of_def)
qed

definition ex_segs :: "log_item list list" where
  "ex_segs = [[ex_item, ex_item], [ex_item], [ex_item]]"

definition ex_dir :: dir where "ex_dir = dir_of ex_crc ex_key ex_segs"

lemma ex_segs_ok: "log_ok u32_max ex_key ex_segs" "ts_list None (concat ex_segs)" "length ex_segs = 3"
  using ex_log_ok(2) by (simp_all add: ex_segs_def log_ok_def ts_step_def MAX_TS_DRIFT_MS_def)

lemma ex_dir_represents: "represents ex_crc ex_key ex_segs ex_dir"
  unfolding ex_dir_def by (rule dir_of_represents) (simp add: ex_segs_def)

text \<open>The tags of the example key name the record id and the tag before it, so they differ.\<close>

lemma ex_tag:
  assumes "length prev = 32" "rid < 24"
  shows "kh_sign ex_key (item_payload ex_key ex_item prev rid) = ucast rid # [2, 88, 32] @ take 28 prev"
proof -
  have wf: "input_wf (snd ex_item)" using ex_input_wf by (simp add: ex_item_def)
  have "\<exists>rest. item_payload ex_key ex_item prev rid = [170, 1, ucast rid, 2, 88, 32] @ prev @ rest"
    using assms unfolding item_payload_enc(2) [OF wf]
    by (simp add: rec_value_def emit_map_def small_uint bstr_def uint_cbor_def head_def Let_def)
  then show ?thesis using assms(1) by (auto simp: ex_key_def fit_def HMAC_LEN_def)
qed

text \<open>A log with more segments than four digits number.\<close>

definition ex_closing :: log_item where
  "ex_closing = (ex_sid, ex_input\<lparr>in_event := SEGMENT_FINALIZED\<rparr>)"

definition ex_large :: "log_item list list" where
  "ex_large = replicate 10000 [ex_closing] @ [[ex_item]]"

lemma ex_closing_ok: "item_ok MAX_RECORD ex_key ex_closing"
proof -
  let ?i = "ex_input\<lparr>in_event := SEGMENT_FINALIZED\<rparr>"
  have wf: "input_wf ?i"
    using ex_input_wf by (simp add: input_wf_def SEGMENT_FINALIZED_def small_def ascii_def valid_utf8_ascii)
  have ev: "validate_input ?i = validate_input ex_input" "in_ts_wall ?i = in_ts_wall ex_input"
    by (simp_all add: validate_input_def)
  have "length (item_payload ex_key ex_closing (replicate 32 0) (- 1)) \<le>
      length (item_payload ex_key ex_item (replicate 32 0) (- 1)) + 100"
    using wf ex_input_wf length_tstr_le [of SEGMENT_FINALIZED]
    by (simp add: ex_closing_def ex_item_def item_payload_enc rec_value_def emit_map_def SEGMENT_FINALIZED_def ascii_def del: to_value.simps)
  then show ?thesis using ex_item_bound wf ex_validate ev
    by (simp add: item_ok_def ex_closing_def ex_sid_def MAX_RECORD_def)
qed

lemma ex_large_ok: "log_ok MAX_RECORD ex_key ex_large"
  using ex_closing_ok ex_item_ok by (simp add: ex_large_def log_ok_def list_all_iff)

end
