(* ===== verification/Verifier_Report.thy ===== *)
theory Verifier_Report
  imports Verifier
begin

text \<open>
  The shape of the verifier's reports, whatever the directory holds: the verdict agrees
  with the violation, the stop at the first violation, and which kinds can occur.
\<close>

definition hmac_kinds :: "violation_kind set" where
  "hmac_kinds = {KHmacMismatch, KChainBreak, KRecordCorrupt, KTimestampRegression, KSegmentDiscontinuity,
     KKeyIdMismatch, KHeaderCorrupt, KUnknownVersion, KCheckpointMismatch, KCheckpointTruncated}"

definition report_ok :: "verify_report \<Rightarrow> bool" where
  "report_ok r \<longleftrightarrow>
     (rpt_violation r = None \<and> rpt_verdict r = Verified \<and> rpt_additional_violations r = []) \<or>
     (\<exists>v. rpt_violation r = Some v \<and> rpt_verdict r = HasViolation \<and> v_kind v \<in> hmac_kinds \<and>
        (\<forall>u \<in> set (rpt_additional_violations r). v_kind u \<in> hmac_kinds))"

text \<open>A walk that goes on without forensic mode has met no violation.\<close>

definition state_ok :: "verify_options \<Rightarrow> verify_state \<Rightarrow> bool" where
  "state_ok opts vs \<longleftrightarrow> report_ok (vs_report vs) \<and>
     (\<not> opt_forensic_mode opts \<longrightarrow> rpt_violation (vs_report vs) = None)"

definition exit_ok :: "verify_options \<Rightarrow> ('a, verify_exit) result \<Rightarrow> bool" where
  "exit_ok opts x \<longleftrightarrow> (\<forall>r. x = Err (Return r) \<longrightarrow> report_ok r \<and> \<not> opt_forensic_mode opts \<and>
     rpt_violation r \<noteq> None \<and> rpt_additional_violations r = [])"

lemma exit_ok_simps [simp]: "exit_ok opts (Ok x)" "exit_ok opts Panic" "exit_ok opts (Err (Fail e))"
  by (simp_all add: exit_ok_def)

lemma exit_ok_bind:
  "exit_ok opts x \<Longrightarrow> (\<And>y. x = Ok y \<Longrightarrow> exit_ok opts (f y)) \<Longrightarrow> exit_ok opts (bind_res x f)"
  by (cases x) (auto simp: exit_ok_def)

lemma note_violation_ok:
  assumes "state_ok opts vs" "v_kind v \<in> hmac_kinds"
  shows "exit_ok opts (note_violation opts v vs)"
    and "note_violation opts v vs = Ok vs' \<Longrightarrow> state_ok opts vs'"
  using assms
  by (auto simp: exit_ok_def state_ok_def report_ok_def note_violation_def push_violation_def
      split: if_splits)

lemma violation_at_kind [simp]: "v_kind (violation_at kind si rid off ev) = kind"
  by (simp add: violation_at_def)

lemma check_timestamps_kind: "check_timestamps r si a b = Some v \<Longrightarrow> v_kind v \<in> hmac_kinds"
  by (auto simp: check_timestamps_def hmac_kinds_def Let_def split: option.splits if_splits)

lemma check_record_kind: "check_record k opts si h sw f = Err (Inl v) \<Longrightarrow> v_kind v \<in> hmac_kinds"
proof (cases "ct_eq (kh_sign k (fr_payload_bytes f)) (fr_hmac f)")
  case True
  assume run: "check_record k opts si h sw f = Err (Inl v)"
  show ?thesis
  proof (cases "decode (fr_payload_bytes f)")
    case (Ok m)
    show ?thesis
    proof (cases "reader_decode_record_map m si (fr_file_offset f) (fr_payload_bytes f) (fr_hmac f)")
      case (Ok r)
      then show ?thesis using run True \<open>decode _ = Ok m\<close>
        by (auto simp: check_record_def Let_def hmac_kinds_def dest: check_timestamps_kind [unfolded hmac_kinds_def]
            split: if_splits option.splits)
    next
      case (Err e)
      then show ?thesis using run True \<open>decode _ = Ok m\<close>
        by (auto simp: check_record_def Let_def hmac_kinds_def split: reader_error.splits)
    qed (use run True \<open>decode _ = Ok m\<close> in \<open>simp add: check_record_def\<close>)
  qed (use run True in \<open>auto simp: check_record_def Let_def hmac_kinds_def\<close>)
next
  case False
  assume "check_record k opts si h sw f = Err (Inl v)"
  then show ?thesis using False by (auto simp: check_record_def Let_def hmac_kinds_def)
qed

lemma parse_header_kind: "parse_and_validate_header crc hb si kid = Err v \<Longrightarrow> v_kind v \<in> hmac_kinds"
  by (auto simp: parse_and_validate_header_def Let_def hmac_kinds_def split: if_splits)

lemma state_ok_count [simp]:
  "state_ok opts (sw_vs (count_record sw)) \<longleftrightarrow> state_ok opts (sw_vs sw)"
  "state_ok opts (sw_vs (walk_advance r b sw)) \<longleftrightarrow> state_ok opts (sw_vs sw)"
  "state_ok opts (count_segment si vs) \<longleftrightarrow> state_ok opts vs"
  "state_ok opts (vs\<lparr>vs_prior_segment_final := x\<rparr>) \<longleftrightarrow> state_ok opts vs"
  by (simp_all add: state_ok_def report_ok_def count_record_def walk_advance_def count_segment_def)

lemma verify_records_ok:
  assumes "state_ok opts (sw_vs sw)"
  shows "exit_ok opts (verify_records k opts si h content sw) \<and>
    (\<forall>sw' b. verify_records k opts si h content sw = Ok (sw', b) \<longrightarrow> state_ok opts (sw_vs sw'))"
  using assms
proof (induction k opts si h content sw rule: verify_records.induct)
  case (1 k opts si h content sw)
  note eq = verify_records.simps [of k opts si h content sw]
  have rc: "v_kind (violation_at KRecordCorrupt si None n e) \<in> hmac_kinds" for n e by (simp add: hmac_kinds_def)
  have nv: "exit_ok opts (bind_res (note_violation opts v vs) (\<lambda>vs. Ok (s\<lparr>sw_vs := vs\<rparr>, True))) \<and>
      (\<forall>sw' b. bind_res (note_violation opts v vs) (\<lambda>vs. Ok (s\<lparr>sw_vs := vs\<rparr>, True)) = Ok (sw', b) \<longrightarrow>
        state_ok opts (sw_vs sw'))"
    if "state_ok opts vs" "v_kind v \<in> hmac_kinds" for v vs and s :: segment_walk
    using note_violation_ok [OF that] by (auto simp: bind_res_Ok_iff intro!: exit_ok_bind)
  show ?case
  proof (cases "read_framed_bytes content si (sw_record_offset sw)")
    case (Ok fo)
    show ?thesis
    proof (cases fo)
      case None
      then show ?thesis unfolding eq using Ok "1.prems" by simp
    next
      case (Some f)
      show ?thesis
      proof (cases "check_record k opts si h (count_record sw) f")
        case ok2: (Ok x)
        obtain r b where x: "x = (r, b)" by (cases x)
        have "state_ok opts (sw_vs (walk_advance r b (count_record sw)))" using "1.prems" by simp
        from "1.IH" [OF Ok Some refl ok2 x [symmetric] this] show ?thesis
          unfolding eq using Ok Some ok2 x by (simp add: Let_def)
      next
        case (Err e)
        show ?thesis
        proof (cases e)
          case (Inl v)
          have "state_ok opts (sw_vs (count_record sw))" "v_kind v \<in> hmac_kinds"
            using "1.prems" check_record_kind Err Inl by simp_all
          from nv [OF this, of "count_record sw"] show ?thesis
            unfolding eq using Ok Some Err Inl by (simp add: Let_def)
        next
          case (Inr y)
          then show ?thesis unfolding eq using Ok Some Err by (simp add: Let_def)
        qed
      next
        case Panic
        then show ?thesis unfolding eq using Ok Some by (simp add: Let_def)
      qed
    qed
  next
    case (Err e)
    then show ?thesis unfolding eq using nv [OF "1.prems" rc]
      by (cases e) simp_all
  next
    case Panic
    then show ?thesis unfolding eq by simp
  qed
qed

lemma verify_segment_ok:
  assumes "state_ok opts vs"
  shows "exit_ok opts (verify_segment crc k opts d si vs)"
    and "verify_segment crc k opts d si vs = Ok vs' \<Longrightarrow> state_ok opts vs'"
proof -
  let ?vs = "count_segment si vs"
  have s: "state_ok opts ?vs" using assms by simp
  have hv: "v_kind (header_violation si) \<in> hmac_kinds" by (simp add: header_violation_def hmac_kinds_def)
  have dk: "v_kind (violation_at KSegmentDiscontinuity si None 40 e) \<in> hmac_kinds" for e
    by (simp add: hmac_kinds_def)
  note nv = note_violation_ok [OF s]
  define P where "P x \<longleftrightarrow> exit_ok opts x \<and> (\<forall>vs'. x = Ok vs' \<longrightarrow> state_ok opts vs')" for x
  have Pn: "P (note_violation opts v ?vs)" if "v_kind v \<in> hmac_kinds" for v
    using nv [OF that] by (auto simp: P_def)
  have Pr: "P (bind_res (verify_records k opts si h c
       \<lparr>sw_vs = ?vs, sw_prev = p, sw_record_offset = n, sw_last_hmac_in_segment = p, sw_record_id_in_segment = 0\<rparr>)
     (\<lambda>(sw, viol). Ok (if viol then sw_vs sw else (sw_vs sw)\<lparr>vs_prior_segment_final := Some (sw_last_hmac_in_segment sw)\<rparr>)))"
    for h c p n
    using verify_records_ok [of opts "\<lparr>sw_vs = ?vs, sw_prev = p, sw_record_offset = n,
        sw_last_hmac_in_segment = p, sw_record_id_in_segment = 0\<rparr>" k si h c] s
    by (auto simp: P_def bind_res_Ok_iff intro!: exit_ok_bind)
  have "P (verify_segment crc k opts d si vs)"
    unfolding verify_segment_def Let_def using Pn [OF hv] Pn [OF parse_header_kind] Pn [OF dk] Pr
    by (auto split: option.split result.split simp: P_def)
  then show "exit_ok opts (verify_segment crc k opts d si vs)"
    "verify_segment crc k opts d si vs = Ok vs' \<Longrightarrow> state_ok opts vs'" by (auto simp: P_def)
qed

lemma verify_segments_ok:
  "state_ok opts vs \<Longrightarrow> exit_ok opts (verify_segments crc k opts d sis vs) \<and>
     (\<forall>vs'. verify_segments crc k opts d sis vs = Ok vs' \<longrightarrow> state_ok opts vs')"
proof (induction sis arbitrary: vs)
  case (Cons si sis)
  note seg = verify_segment_ok [OF Cons.prems, of crc k d si]
  show ?case using seg Cons.IH by (auto simp: bind_res_Ok_iff intro!: exit_ok_bind)
qed simp

lemma verify_report_ok:
  assumes "verify_with_options crc k opts d = Ok r"
  shows "report_ok r" "\<not> opt_forensic_mode opts \<Longrightarrow> rpt_additional_violations r = []"
proof -
  let ?sis = "list_segment_indices d"
  have "state_ok opts (initial_state k ?sis)" by (simp add: state_ok_def report_ok_def initial_state_def)
  note s = verify_segments_ok [OF this, of crc k d ?sis]
  have fin: "report_ok (finish_report opts vs) \<and>
      (\<not> opt_forensic_mode opts \<longrightarrow> rpt_additional_violations (finish_report opts vs) = [])"
    if "state_ok opts vs" for vs
    using that by (auto simp: state_ok_def finish_report_def report_ok_def push_violation_def hmac_kinds_def
        Let_def split: option.splits if_splits)
  consider vs where "r = finish_report opts vs" "verify_segments crc k opts d ?sis (initial_state k ?sis) = Ok vs"
    | "verify_segments crc k opts d ?sis (initial_state k ?sis) = Err (Return r)"
    using assms by (auto simp: verify_with_options_def Let_def
        split: if_splits option.splits result.splits verify_exit.splits)
  then show "report_ok r" "\<not> opt_forensic_mode opts \<Longrightarrow> rpt_additional_violations r = []"
    using s fin by (cases; auto simp: exit_ok_def)+
qed

end
