(* ===== verification/Verifier_Detect.thy ===== *)
theory Verifier_Detect
  imports Verifier_Complete
begin

text \<open>
  What the verifier reports on a log that was changed: if everything before some position is
  genuine and the bytes at that position are not the record that belongs there, the report names
  the kind of the change and exactly that position. One lemma per row of the threat model: a record
  altered or forged, a record removed or replayed, a file cut, a middle segment deleted, the tail
  removed under a checkpoint.
\<close>

section \<open>Stopping at the first violation\<close>

definition first_bad ::
  "key_handle \<Rightarrow> verify_options \<Rightarrow> u16 \<Rightarrow> segment_header \<Rightarrow> bytes \<Rightarrow> segment_walk \<Rightarrow> violation \<Rightarrow> bool" where
  "first_bad k opts si h content sw v \<longleftrightarrow>
     (\<exists>off. read_framed_bytes content si (sw_record_offset sw) = Err (TornTail si off) \<and>
        v = violation_at KRecordCorrupt si None off (EvRecordCorrupt TornTailSub)) \<or>
     (\<exists>f. read_framed_bytes content si (sw_record_offset sw) = Ok (Some f) \<and>
        check_record k opts si h (count_record sw) f = Err (Inl v))"

definition reports :: "verify_report \<Rightarrow> violation \<Rightarrow> bool" where
  "reports r v \<longleftrightarrow> rpt_verdict r = HasViolation \<and> rpt_violation r = Some v"

lemma note_violation_stop:
  assumes "\<not> opt_forensic_mode opts" "rpt_violation (vs_report vs) = None"
  shows "\<exists>r. note_violation opts v vs = Err (Return r) \<and> reports r v"
  using assms by (simp add: note_violation_def push_violation_def reports_def)

lemma first_bad_stop:
  assumes "\<not> opt_forensic_mode opts" "rpt_violation (vs_report (sw_vs sw)) = None" "first_bad k opts si h content sw v"
  shows "\<exists>r. verify_records k opts si h content sw = Err (Return r) \<and> reports r v"
proof -
  have "rpt_violation (vs_report (sw_vs (count_record sw))) = None" using assms(2) by (simp add: count_record_def)
  note st = note_violation_stop [OF assms(1) assms(2)] note_violation_stop [OF assms(1) this]
  from assms(3) show ?thesis unfolding first_bad_def
  proof (elim disjE exE conjE)
    fix off assume a: "read_framed_bytes content si (sw_record_offset sw) = Err (TornTail si off)"
      "v = violation_at KRecordCorrupt si None off (EvRecordCorrupt TornTailSub)"
    obtain r where "note_violation opts v (sw_vs sw) = Err (Return r)" "reports r v" using st(1) by blast
    then show ?thesis using a by (subst verify_records.simps) simp
  next
    fix f assume a: "read_framed_bytes content si (sw_record_offset sw) = Ok (Some f)"
      "check_record k opts si h (count_record sw) f = Err (Inl v)"
    obtain r where "note_violation opts v (sw_vs (count_record sw)) = Err (Return r)" "reports r v" using st(2) by blast
    then show ?thesis using a by (subst verify_records.simps) (simp add: Let_def)
  qed
qed

lemma verify_segments_append:
  "verify_segments crc k opts d (xs @ ys) vs =
     bind_res (verify_segments crc k opts d xs vs) (verify_segments crc k opts d ys)"
proof (induction xs arbitrary: vs)
  case (Cons x xs)
  then show ?case by (cases "verify_segment crc k opts d x vs") simp_all
qed simp

text \<open>A verification that starts on genuine segments and stops in the next one listed.\<close>

lemma verify_stops:
  assumes idx: "list_segment_indices d = map of_nat [0..<n] @ si # sis"
    and get: "\<And>m. m < n \<Longrightarrow> seg_get d (of_nat m) = Some (log_file crc k segs m)"
    and N: "n \<le> length segs" "n \<le> 65536" and ok: "log_ok u32_max k segs"
    and ts: "ts_list None (concat segs)" and cp: "checkpoint_from opts k segs"
    and own: "\<forall>c. opt_checkpoint opts = Some c \<longrightarrow> matches_key c (kh_key_id k)"
    and stop: "\<And>vs. clean_before k opts segs 0 n vs \<Longrightarrow>
      \<exists>r. verify_segment crc k opts d si vs = Err (Return r) \<and> reports r v"
  shows "\<exists>r. verify_with_options crc k opts d = Ok r \<and> reports r v"
proof -
  let ?vs0 = "initial_state k (list_segment_indices d)"
  obtain vs where vs: "verify_segments crc k opts d (map of_nat [0..<n]) ?vs0 = Ok vs" "clean_before k opts segs 0 n vs"
    using verify_segments_clean [OF get N ok _ cp _ _ clean_initial, of 0] ts by (simp add: items_between_all) blast
  obtain r where r: "verify_segment crc k opts d si vs = Err (Return r)" "reports r v" using stop [OF vs(2)] by blast
  have "verify_segments crc k opts d (list_segment_indices d) ?vs0 = Err (Return r)"
    unfolding idx verify_segments_append using vs(1) r(1) by (simp add: idx)
  moreover have "list_segment_indices d \<noteq> []" by (simp add: idx)
  ultimately have "verify_with_options crc k opts d = Ok r"
    using own by (auto simp: verify_with_options_def Let_def split: option.splits)
  then show ?thesis using r(2) by blast
qed

section \<open>A change inside a segment\<close>

text \<open>The walk state before record \<open>i\<close> of segment \<open>n\<close>, as far as the checks look at it.\<close>

definition walk_at :: "key_handle \<Rightarrow> log_item list list \<Rightarrow> nat \<Rightarrow> nat \<Rightarrow> segment_walk \<Rightarrow> bool" where
  "walk_at k segs n i sw \<longleftrightarrow>
     sw_prev sw = head_of (seg_start k n (log_pf k segs n)) (take i (seg_chain k n (log_pf k segs n) (segs ! n))) \<and>
     sw_record_offset sw = frame_offset k segs n i \<and> sw_record_id_in_segment sw = of_nat i \<and>
     rpt_violation (vs_report (sw_vs sw)) = None"

lemma walk_items_id:
  "sw_record_id_in_segment sw = rid \<Longrightarrow>
   sw_record_id_in_segment (walk_items k opts si sw rid its) = rid + of_nat (length its)"
proof (induction its arbitrary: sw rid)
  case (Cons it its)
  let ?sw = "walk_advance (view_of k si it (sw_prev sw) rid (sw_record_offset sw))
       (at_checkpoint opts si rid) (count_record sw)"
  have "sw_record_id_in_segment ?sw = rid + 1"
    by (simp add: walk_advance_def view_of_def rec_of_def Let_def)
  from Cons.IH [OF this] show ?case by (simp add: add.assoc)
qed simp

text \<open>The directory holds the log except that segment \<open>n\<close> is genuine only up to record \<open>i\<close>,
  and goes on with \<open>rest\<close>.\<close>

definition changed_at ::
  "(bytes \<Rightarrow> u32) \<Rightarrow> key_handle \<Rightarrow> log_item list list \<Rightarrow> dir \<Rightarrow> nat \<Rightarrow> nat \<Rightarrow> bytes \<Rightarrow> dir \<Rightarrow> bool" where
  "changed_at crc k segs d n i rest d' \<longleftrightarrow>
     d' = seg_put (of_nat n) (take (frame_offset k segs n i) (log_file crc k segs n) @ rest) d"

lemma verify_changed:
  assumes rep: "represents crc k segs d" and n: "n < length segs" "length segs \<le> 10000"
    and i: "i \<le> length (segs ! n)" and ok: "log_ok u32_max k segs"
    and ts: "ts_list None (concat segs)" and cp: "checkpoint_from opts k segs"
    and own: "\<forall>c. opt_checkpoint opts = Some c \<longrightarrow> matches_key c (kh_key_id k)"
    and nf: "\<not> opt_forensic_mode opts"
    and ch: "changed_at crc k segs d n i rest d'"
    and content: "content = take (frame_offset k segs n i) (log_file crc k segs n) @ rest"
    and bad: "\<And>h sw. walk_at k segs n i sw \<Longrightarrow> first_bad k opts (of_nat n) h content sw v"
  shows "\<exists>r. verify_with_options crc k opts d' = Ok r \<and> reports r v"
proof (rule verify_stops)
  let ?pf = "log_pf k segs n" let ?its = "take i (segs ! n)" let ?st = "seg_start k n ?pf"
  let ?h = "header_to_bytes crc (seg_header k n ?pf)" let ?body = "frames (chain k ?st 0 ?its) @ rest"
  have get': "seg_get d' m = (if m = of_nat n then Some content else seg_get d m)" for m
    using ch by (simp add: changed_at_def content store.get_put)
  have un: "unat (of_nat m :: u16) = m" if "m < length segs" for m using that n by (simp add: unat_of_nat)
  show "seg_get d' (of_nat m) = Some (log_file crc k segs m)" if "m < n" for m
  proof -
    have "(of_nat m :: u16) \<noteq> of_nat n" using that un [of m] un [of n] n by (metis less_irrefl less_trans)
    then show ?thesis using get' log_get(1) [OF rep, of m] that n by simp
  qed
  have "list_segment_indices d' = map of_nat [0..<length segs]"
  proof (rule log_indices)
    show "dir_wf d'" using ch rep by (simp add: changed_at_def dir_wf_put represents_def)
    show "seg_get d' m \<noteq> None \<longleftrightarrow> unat m < length segs" for m
      using rep n(1) un [OF n(1)] by (auto simp: get' represents_def)
  qed (use n in auto)
  also have "[0..<length segs] = [0..<n] @ n # [Suc n..<length segs]"
    using n by (metis upt_add_eq_append upt_conv_Cons le_add_diff_inverse less_imp_le zero_le)
  finally show "list_segment_indices d' = map of_nat [0..<n] @ of_nat n # map of_nat [Suc n..<length segs]" by simp
  show "\<exists>r. verify_segment crc k opts d' (of_nat n) vs = Err (Return r) \<and> reports r v"
    if clean: "clean_before k opts segs 0 n vs" for vs
  proof -
    have c: "content = ?h @ ?body" by (simp add: content log_file_take)
    then have g: "seg_get d' (of_nat n) = Some (?h @ ?body)" by (simp add: get')
    have prior: "vs_prior_segment_final vs = None \<or> (n \<noteq> 0 \<and> vs_prior_segment_final vs = Some ?pf)"
      using clean by (simp add: clean_before_def final_before_def)
    note enter = verify_segment_enter [OF g _ length_log_pf prior, of opts]
    have w: "walk_ok k opts (of_nat n) (vs_prior_ts_wall_ms vs) ?st 0 ?its"
      by (rule walk_ok_take [OF walk_ok_log [OF _ n(1) ok _ cp clean, unfolded items_between_all, OF _ ts, simplified]])
    define sw where "sw = walk_items k opts (of_nat n) (entry_walk k n ?pf vs) 0 ?its"
    have p: "verify_records k opts (of_nat n) h (?h @ ?body) (entry_walk k n ?pf vs) =
        verify_records k opts (of_nat n) h (?h @ ?body) sw \<and>
        sw_record_offset sw = 80 + length (frames (chain k ?st 0 ?its))" for h
      unfolding sw_def using verify_records_prefix [of k opts "of_nat n" "entry_walk k n ?pf vs" 0 ?its "?h @ ?body" rest h] w
      by simp
    note f = walk_items_fields [where sw = "entry_walk k n ?pf vs" and k = k and opts = opts and si = "of_nat n"
        and rid = 0 and its = ?its, folded sw_def]
    have "walk_at k segs n i sw"
      using p f walk_items_id [of "entry_walk k n ?pf vs" 0 k opts "of_nat n" ?its] clean i
      by (simp add: walk_at_def sw_def [symmetric] seg_chain_def take_chain frame_offset_def clean_before_def
          add_records_def count_segment_def)
    then have "first_bad k opts (of_nat n) h (?h @ ?body) sw v" for h using bad c by simp
    moreover have "rpt_violation (vs_report (sw_vs sw)) = None"
      using \<open>walk_at k segs n i sw\<close> by (simp add: walk_at_def)
    ultimately obtain r where "verify_records k opts (of_nat n) (seg_header k n ?pf) (?h @ ?body) sw = Err (Return r)" "reports r v"
      using first_bad_stop [OF nf] by blast
    then show ?thesis using enter p n by simp
  qed
qed (use n ok ts cp own in simp_all)

lemma frame_offset_le: "frame_offset k segs n i \<le> length (log_file crc k segs n)"
proof -
  have "frames (seg_chain k n (log_pf k segs n) (segs ! n)) =
      frames (take i (seg_chain k n (log_pf k segs n) (segs ! n))) @ frames (drop i (seg_chain k n (log_pf k segs n) (segs ! n)))"
    by (metis append_take_drop_id frames_simps(3))
  then show ?thesis by (simp add: frame_offset_def log_file_def seg_bytes_def)
qed

lemma walk_at_content:
  assumes "walk_at k segs n i sw"
  shows "sw_record_offset sw \<le> length (take (frame_offset k segs n i) (log_file crc k segs n) @ rest)"
    "drop (sw_record_offset sw) (take (frame_offset k segs n i) (log_file crc k segs n) @ rest) = rest"
  using frame_offset_le [of k segs n i crc] assms by (simp_all add: walk_at_def)

text \<open>A record whose tag is not the key's tag of its payload: altered, or forged without the key.\<close>

lemma first_bad_forged:
  assumes v: "rec_valid u32_max (p, t)" and tag: "kh_sign k p \<noteq> t"
    and off: "sw_record_offset sw \<le> length content" "drop (sw_record_offset sw) content = rec_frame (p, t) @ rest"
  shows "first_bad k opts si h content sw
    (violation_at KHmacMismatch si (Some (sw_record_id_in_segment sw)) (sw_record_offset sw)
      (EvHmacMismatch (hex (kh_sign k p)) (hex t) (length p) (sw_record_offset sw + 4)))"
  using read_framed_bytes_frame [OF v off, of si] tag
  by (simp add: first_bad_def check_record_def Let_def ct_eq_def count_record_def)

text \<open>A genuine record of this key, but not the one that continues the chain here.\<close>

definition chain_break :: "u16 \<Rightarrow> u64 \<Rightarrow> nat \<Rightarrow> bytes \<Rightarrow> bytes \<Rightarrow> violation" where
  "chain_break si rid off expected found =
     violation_at KChainBreak si (Some rid) off
       (EvChainBreak (hex expected) (hex found)
         (if si = 0 \<and> rid = 0 then None else Some (if rid = 0 then 0 else rid - 1)) (si = 0 \<and> rid = 0))"

lemma first_bad_misplaced:
  assumes ok: "item_ok u32_max k it" and prev: "length prev = 32" "prev \<noteq> sw_prev sw"
    and p: "p = item_payload k it prev rid"
    and off: "sw_record_offset sw \<le> length content"
      "drop (sw_record_offset sw) content = rec_frame (p, kh_sign k p) @ rest"
  shows "first_bad k opts si h content sw (chain_break si rid (sw_record_offset sw) (sw_prev sw) prev)"
proof -
  have v: "rec_valid u32_max (p, kh_sign k p)"
    unfolding p rec_valid_def using item_payload_bound [OF ok prev(1)] by simp
  have dec: "decode p = Ok (rec_value (snd it) (fst it) (kh_key_id k) prev rid)"
    unfolding p by (rule item_payload_decode [OF ok order_refl prev(1)])
  have map: "reader_decode_record_map (rec_value (snd it) (fst it) (kh_key_id k) prev rid) si o' p
      (kh_sign k p) = Ok (view_of k si it prev rid o')" for o'
    using ok prev(1) reader_decode_record_map_rec_value by (simp add: item_ok_def view_of_def Let_def p)
  have view: "r_prev_hash (view_of k si it prev rid o') = prev" "r_record_id (view_of k si it prev rid o') = rid"
    "r_file_offset (view_of k si it prev rid o') = o'" for o'
    by (simp_all add: view_of_def rec_of_def Let_def)
  have "sw_prev (count_record sw) = sw_prev sw" by (simp add: count_record_def)
  then show ?thesis using read_framed_bytes_frame [OF v off, of si] prev(2)
    by (simp add: first_bad_def check_record_def Let_def ct_eq_def dec map view chain_break_def)
qed

lemma first_bad_torn:
  assumes "rec_valid u32_max r" "0 < c" "c < length (rec_frame r)"
    and "sw_record_offset sw \<le> length content" "drop (sw_record_offset sw) content = take c (rec_frame r)"
  shows "first_bad k opts si h content sw
    (violation_at KRecordCorrupt si None (sw_record_offset sw) (EvRecordCorrupt TornTailSub))"
proof -
  have "sw_record_offset sw < length content"
  proof (rule ccontr)
    assume "\<not> sw_record_offset sw < length content"
    then have "take c (rec_frame r) = []" using assms(5) by simp
    then show False using assms(2,3) by auto
  qed
  from read_framed_bytes_cut [OF assms(1) this assms(5,3)] show ?thesis by (simp add: first_bad_def)
qed

section \<open>A missing segment\<close>

lemma verify_segment_discontinuity:
  assumes get: "seg_get d (of_nat n) = Some (header_to_bytes crc (seg_header k n pf) @ body)"
    and pf: "length pf = 32" and n: "n \<noteq> 0" and prior: "vs_prior_segment_final vs = Some fin" "fin \<noteq> pf"
    and nf: "\<not> opt_forensic_mode opts" "rpt_violation (vs_report vs) = None"
  shows "\<exists>r. verify_segment crc k opts d (of_nat n) vs = Err (Return r) \<and>
    reports r (violation_at KSegmentDiscontinuity (of_nat n) None 40
      (EvSegmentDiscontinuity (hex fin) (hex pf) (if (of_nat n :: u16) = 0 then of_nat n else of_nat n - 1) (hex fin)))"
proof -
  let ?si = "of_nat n :: u16" let ?hd = "seg_header k n pf" let ?h = "header_to_bytes crc ?hd"
  have h: "length ?h = 80" using pf by simp
  have hb: "read_segment_header_bytes d ?si = Some ?h"
    using h by (simp add: read_segment_header_bytes_def get HEADER_TOTAL_LEN_def slice_def)
  have "rpt_violation (vs_report (count_segment ?si vs)) = None" using nf(2) by (simp add: count_segment_def)
  note st = note_violation_stop [OF nf(1) this]
  show ?thesis
    unfolding verify_segment_def Let_def hb option.case verify_header_ok [OF pf] result.case
    using prior n st by (simp add: ct_eq_def)
qed

text \<open>The directory of a log without the file of segment \<open>n\<close>.\<close>

definition without_segment :: "nat \<Rightarrow> dir \<Rightarrow> dir" where
  "without_segment n d = filter (\<lambda>(name, c). name \<noteq> segment_path (of_nat n)) d"

lemma without_segment_get:
  "seg_get (without_segment n d) i = (if i = of_nat n then None else seg_get d i)"
proof -
  have "map_of (filter (\<lambda>(name, c). name \<noteq> x) d) y = (if y = x then None else map_of d y)" for x y :: bytes
    by (induction d) auto
  then show ?thesis by (simp add: without_segment_def seg_get_def)
qed

lemma dir_wf_without: "dir_wf d \<Longrightarrow> dir_wf (without_segment n d)"
  by (auto simp: dir_wf_def without_segment_def distinct_map_filter)

lemma without_indices:
  assumes rep: "represents crc k segs d" and n: "n < length segs" "length segs \<le> 10000"
  shows "list_segment_indices (without_segment n d) = map of_nat ([0..<n] @ [Suc n..<length segs])"
proof (rule store.indices_eq)
  show "dir_wf (without_segment n d)" using rep dir_wf_without by (simp add: represents_def)
  show "sorted_wrt (<) ([0..<n] @ [Suc n..<length segs])" by (simp add: sorted_wrt_append)
  show "m < 10000" if "m \<in> set ([0..<n] @ [Suc n..<length segs])" for m using that n by auto
  have "unat (of_nat n :: u16) = n" using n by (simp add: unat_of_nat)
  then have eq: "i = of_nat n \<longleftrightarrow> unat i = n" for i :: u16 unfolding word_unat_eq_iff by simp
  show "seg_get (without_segment n d) i \<noteq> None \<longleftrightarrow> unat i \<in> set ([0..<n] @ [Suc n..<length segs])" for i
    using rep n by (auto simp: without_segment_get represents_def eq)
qed

lemma verify_without_segment:
  assumes rep: "represents crc k segs d" and n: "0 < n" "Suc n < length segs" "length segs \<le> 10000"
    and ok: "log_ok u32_max k segs" and ts: "ts_list None (concat segs)" and cp: "checkpoint_from opts k segs"
    and own: "\<forall>c. opt_checkpoint opts = Some c \<longrightarrow> matches_key c (kh_key_id k)"
    and nf: "\<not> opt_forensic_mode opts"
    and ne: "log_pf k segs n \<noteq> log_pf k segs (Suc n)"
  shows "\<exists>r. verify_with_options crc k opts (without_segment n d) = Ok r \<and>
    reports r (violation_at KSegmentDiscontinuity (of_nat (Suc n)) None 40
      (EvSegmentDiscontinuity (hex (log_pf k segs n)) (hex (log_pf k segs (Suc n))) (of_nat n) (hex (log_pf k segs n))))"
proof (rule verify_stops)
  let ?d = "without_segment n d"
  have un: "unat (of_nat m :: u16) = m" if "m < length segs" for m using that n by (simp add: unat_of_nat)
  have neq: "(of_nat m :: u16) \<noteq> of_nat n" if "m < length segs" "m \<noteq> n" for m
    using that un [of m] un [of n] n by (metis Suc_lessD)
  have get: "seg_get ?d (of_nat m) = Some (log_file crc k segs m)" if "m < length segs" "m \<noteq> n" for m
    using neq [OF that] log_get(1) [OF rep that(1)] by (simp add: without_segment_get)
  show "seg_get ?d (of_nat m) = Some (log_file crc k segs m)" if "m < n" for m using get that n by simp
  have "[Suc n..<length segs] = Suc n # [Suc (Suc n)..<length segs]" using n by (simp add: upt_conv_Cons)
  then show "list_segment_indices ?d = map of_nat [0..<n] @ of_nat (Suc n) # map of_nat [Suc (Suc n)..<length segs]"
    using without_indices [OF rep, of n] n by simp
  have g: "seg_get ?d (of_nat (Suc n)) = Some (header_to_bytes crc (seg_header k (Suc n) (log_pf k segs (Suc n))) @
      frames (seg_chain k (Suc n) (log_pf k segs (Suc n)) (segs ! Suc n)))"
    using get [of "Suc n"] n by (simp only: log_file_def seg_bytes_def)
  have z: "(of_nat (Suc n) :: u16) \<noteq> 0" using un [OF n(2)] by (metis nat.distinct(1) unat_0)
  show "\<exists>r. verify_segment crc k opts ?d (of_nat (Suc n)) vs = Err (Return r) \<and>
      reports r (violation_at KSegmentDiscontinuity (of_nat (Suc n)) None 40
      (EvSegmentDiscontinuity (hex (log_pf k segs n)) (hex (log_pf k segs (Suc n))) (of_nat n) (hex (log_pf k segs n))))"
    if "clean_before k opts segs 0 n vs" for vs
  proof -
    have "vs_prior_segment_final vs = Some (log_pf k segs n)" "rpt_violation (vs_report vs) = None"
      using that n by (simp_all add: clean_before_def final_before_def)
    from verify_segment_discontinuity [OF g length_log_pf nat.distinct(2) this(1) ne nf this(2)] z
    show ?thesis by simp
  qed
qed (use n ok ts cp own in simp_all)

text \<open>The files of segments \<open>s\<close> and later: what is left when the oldest segments are deleted.\<close>

definition tail_of :: "(bytes \<Rightarrow> u32) \<Rightarrow> key_handle \<Rightarrow> log_item list list \<Rightarrow> nat \<Rightarrow> dir \<Rightarrow> bool" where
  "tail_of crc k segs s d \<longleftrightarrow> dir_wf d \<and>
     (\<forall>i. seg_get d i = (if s \<le> unat i \<and> unat i < length segs then Some (log_file crc k segs (unat i)) else None))"

lemma verify_tail:
  assumes tl: "tail_of crc k segs s d" and segs: "s < length segs" "length segs \<le> 10000"
    and ok: "log_ok u32_max k segs" and ts: "ts_list None (concat segs)"
  obtains r where "verify crc k d = Ok r" "rpt_verdict r = Verified"
    "sum_final_hmac_hex (rpt_log r) = Some (hex (log_pf k segs (length segs)))"
    "sum_segments_inspected (rpt_log r) = length segs - s"
proof -
  have get: "seg_get d i = (if s \<le> unat i \<and> unat i < length segs then Some (log_file crc k segs (unat i)) else None)" for i
    using tl by (simp add: tail_of_def)
  have idx: "list_segment_indices d = map of_nat [s..<length segs]"
  proof (rule store.indices_eq)
    show "dir_wf d" using tl by (simp add: tail_of_def)
    show "seg_get d i \<noteq> None \<longleftrightarrow> unat i \<in> set [s..<length segs]" for i by (simp add: get)
  qed (use segs in auto)
  have g: "seg_get d (of_nat m) = Some (log_file crc k segs m)" if "s \<le> m" "m < length segs" for m
    using that segs by (simp add: get unat_of_nat)
  have split: "items_between segs 0 (length segs) = items_between segs 0 s @ items_between segs s (length segs)"
    by (simp add: items_between_def flip: concat_append)
  then have "ts_list (ts_last None (items_between segs 0 s)) (items_between segs s (length segs))"
    using ts by (simp add: items_between_all ts_list_append)
  then have ts': "ts_list None (items_between segs s (length segs))" by (rule ts_list_from_None)
  have cp: "checkpoint_from default_options k segs"
    by (simp add: checkpoint_from_def checkpoint_agrees_def default_options_def)
  show thesis unfolding verify_def
  proof (rule verify_log_from [OF idx g segs(1) _ ok ts' cp])
  qed (use segs that in \<open>simp_all add: default_options_def verify_def\<close>)
qed

section \<open>A removed tail\<close>

lemma verify_truncated:
  assumes rep: "represents crc k segs d" and segs: "segs \<noteq> []" "length segs \<le> 10000"
    and ok: "log_ok u32_max k segs" and ts: "ts_list None (concat segs)"
    and cp: "opt_checkpoint opts = Some c" "matches_key c (kh_key_id k)"
    and gone: "\<And>n i. n < length segs \<Longrightarrow> i < length (segs ! n) \<Longrightarrow> \<not> is_position c (of_nat n) (of_nat i)"
  shows "\<exists>r v. verify_with_options crc k opts d = Ok r \<and> reports r v \<and> v_kind v = KCheckpointTruncated \<and>
    loc_segment_index (v_location v) = cp_segment c \<and> loc_record_id (v_location v) = Some (cp_record_id c)"
proof -
  have idx: "list_segment_indices d = map of_nat [0..<length segs]"
    using rep segs by (intro log_indices) (auto simp: represents_def)
  let ?vs0 = "initial_state k (map of_nat [0..<length segs])"
  have agree: "checkpoint_from opts k segs"
    using gone cp by (simp add: checkpoint_from_def checkpoint_agrees_def)
  from verify_segments_clean [OF log_get(1) [OF rep] order_refl _ ok _ agree _ _ clean_initial, of 0] segs ts obtain vs where
    vs: "verify_segments crc k opts d (map of_nat [0..<length segs]) ?vs0 = Ok vs"
    "clean_before k opts segs 0 (length segs) vs" by (force simp: items_between_all)
  have ne: "map of_nat [0..<length segs] \<noteq> []" using segs by simp
  have "verify_with_options crc k opts d = Ok (finish_report opts vs)"
    unfolding verify_with_options_def idx Let_def vs(1) using ne cp by auto
  moreover have "\<not> vs_checkpoint_reached vs" "rpt_violation (vs_report vs) = None"
    using vs(2) gone cp by (auto simp: clean_before_def cp_hit_def at_checkpoint_def)
  ultimately show ?thesis
    using cp by (simp add: finish_report_def Let_def push_violation_def reports_def violation_at_def)
qed

end
