(* ===== verification/Reader.thy ===== *)
theory Reader
  imports Records Log_Dir Cbor Framing Record_Codec
begin

text \<open>
  The reader (\<^verbatim>\<open>reader.rs\<close>): headers and records of one segment, \<^verbatim>\<open>seek\<close>, \<^verbatim>\<open>segments\<close>
  and the live iterator. A handle on an open segment file is the index of the segment;
  files are never removed while they are open.
\<close>

definition read_header :: "(bytes \<Rightarrow> u32) \<Rightarrow> bytes \<Rightarrow> u16 \<Rightarrow> (segment_header, reader_error) result" where
  "read_header crc content si =
     (if length content < HEADER_TOTAL_LEN then Err (InvalidHeader si)
      else
        let bs = slice content 0 HEADER_TOTAL_LEN in
        if slice bs 0 4 \<noteq> FORMAT_MAGIC then Err (InvalidHeader si)
        else if u16_at bs 4 \<noteq> FORMAT_VERSION then Err (InvalidHeader si)
        else if u16_at bs 6 \<noteq> si then Err (InvalidHeader si)
        else if u32_at bs 72 \<noteq> crc (slice bs 0 HEADER_BODY_LEN) then Err (InvalidHeader si)
        else Ok \<lparr>hdr_version = u16_at bs 4, hdr_segment_index = si, hdr_key_id = slice bs 8 32,
                 hdr_prev_final = slice bs 40 32\<rparr>)"

definition read_record :: "bytes \<Rightarrow> u16 \<Rightarrow> nat \<Rightarrow> nat \<Rightarrow> (audit_record, reader_error) result" where
  "read_record content si offset len =
     (if len - offset < 4 then Err (TornTail si offset)
      else
        let len_prefix = unat (u32_at content offset);
            framed_total = 4 + len_prefix + HMAC_LEN + 4
        in if len - offset < framed_total then Err (TornTail si offset)
           else
             let payload_bytes = slice content (offset + 4) len_prefix;
                 hmac_bytes = slice content (offset + 4 + len_prefix) HMAC_LEN;
                 len_trailer = unat (u32_at content (offset + 4 + len_prefix + HMAC_LEN))
             in if len_trailer \<noteq> len_prefix then Err (TornTail si offset)
                else
                  bind_res (map_err (\<lambda>e. Decode si offset) (decode payload_bytes)) (\<lambda>record_map.
                    decode_record_map record_map si offset payload_bytes hmac_bytes))"

section \<open>Seek\<close>

function seek_loop :: "bytes \<Rightarrow> u16 \<Rightarrow> u64 \<Rightarrow> nat \<Rightarrow> (audit_record, reader_error) result" where
  "seek_loop content si record_id offset =
     (if length content \<le> offset then Err (NotFound si record_id)
      else
        bind_res (read_record content si offset (length content)) (\<lambda>r.
          if r_record_id r = record_id then Ok r
          else seek_loop content si record_id
                 (offset + RECORD_FRAMING_OVERHEAD + length (r_payload_bytes r))))"
  by auto
termination
  by (relation "measure (\<lambda>(content, si, record_id, offset). length content - offset)")
    (auto simp: RECORD_FRAMING_OVERHEAD_def)

declare seek_loop.simps [simp del]

definition reader_seek ::
  "(bytes \<Rightarrow> u32) \<Rightarrow> dir \<Rightarrow> u16 \<Rightarrow> u64 \<Rightarrow> (audit_record, reader_error) result" where
  "reader_seek crc d si record_id =
     (case seg_get d si of
        None \<Rightarrow> Err (NotFound si record_id)
      | Some content \<Rightarrow>
          bind_res (read_header crc content si) (\<lambda>header.
            seek_loop content si record_id HEADER_TOTAL_LEN))"

definition reader_segments :: "dir \<Rightarrow> u16 list" where
  "reader_segments d = list_segment_indices d"

section \<open>The iterator\<close>

record record_iterator =
  it_current_segment :: "u16 option"
  it_current_offset :: nat
  it_current_file :: "u16 option"
  it_header_verified :: bool

definition reader_iter :: record_iterator where
  "reader_iter = \<lparr>it_current_segment = None, it_current_offset = 0, it_current_file = None,
     it_header_verified = False\<rparr>"

text \<open>The first block of the loop; \<open>None\<close> when there is no further segment.\<close>

definition open_next :: "dir \<Rightarrow> record_iterator \<Rightarrow> record_iterator option" where
  "open_next d it =
     (case it_current_file it of
        Some f \<Rightarrow> Some it
      | None \<Rightarrow>
          let next_idx = (case it_current_segment it of None \<Rightarrow> 0 | Some prev \<Rightarrow> prev + 1) in
          (case seg_get d next_idx of
             None \<Rightarrow> None
           | Some content \<Rightarrow>
               Some \<lparr>it_current_segment = Some next_idx, it_current_offset = HEADER_TOTAL_LEN,
                 it_current_file = Some next_idx, it_header_verified = False\<rparr>))"

text \<open>A call may meet any number of segments without records; it does not return only if it
  wraps around over \<open>2 ^ 16\<close> such segments, which is the value \<open>None\<close> here.\<close>

partial_function (option) next_record ::
  "(bytes \<Rightarrow> u32) \<Rightarrow> dir \<Rightarrow> record_iterator
   \<Rightarrow> (record_iterator \<times> (audit_record option, reader_error) result) option" where
  "next_record crc d it0 =
     (case open_next d it0 of
        None \<Rightarrow> Some (it0, Ok None)
      | Some it \<Rightarrow>
          (case it_current_segment it of
             None \<Rightarrow> Some (it, Panic)
           | Some si \<Rightarrow>
               (case seg_get d si of
                  None \<Rightarrow> Some (it, Err ReaderIo)
                | Some content \<Rightarrow>
                    (case (if it_header_verified it then Ok () else
                             bind_res (read_header crc content si) (\<lambda>h. Ok ())) of
                       Err e \<Rightarrow> Some (it, Err e)
                     | Panic \<Rightarrow> Some (it, Panic)
                     | Ok u \<Rightarrow>
                         let it1 = it\<lparr>it_header_verified := True\<rparr> in
                         if length content \<le> it_current_offset it1 then
                           (if seg_get d (si + 1) \<noteq> None
                            then next_record crc d (it1\<lparr>it_current_file := None, it_header_verified := False\<rparr>)
                            else Some (it1, Ok None))
                         else
                           (case read_record content si (it_current_offset it1) (length content) of
                              Err e \<Rightarrow> Some (it1, Err e)
                            | Panic \<Rightarrow> Some (it1, Panic)
                            | Ok r \<Rightarrow>
                                Some (it1\<lparr>it_current_offset := it_current_offset it1
                                        + RECORD_FRAMING_OVERHEAD + length (r_payload_bytes r)\<rparr>,
                                      Ok (Some r)))))))"

end
