(* ===== verification/Reader_Correct.thy ===== *)
theory Reader_Correct
  imports Reader Verifier_Complete
begin

text \<open>
  The reader against the abstract log: \<^verbatim>\<open>seek\<close> finds exactly the records that are there, and
  the iterator yields all records of all segments in order and then \<^verbatim>\<open>None\<close>.
\<close>

section \<open>One record\<close>

text \<open>Record \<open>i\<close> of a segment whose chain starts at \<open>prev\<close> and whose first frame is at \<open>off\<close>.\<close>

definition nth_record :: "key_handle \<Rightarrow> u16 \<Rightarrow> bytes \<Rightarrow> u64 \<Rightarrow> nat \<Rightarrow> log_item list \<Rightarrow> nat \<Rightarrow> audit_record" where
  "nth_record k si prev rid off its i =
     (let before = take i (chain k prev rid its); r = chain k prev rid its ! i
      in rec_of (snd (its ! i)) (fst (its ! i)) (kh_key_id k) (head_of prev before) (rid + of_nat i) si
           (off + length (frames before)) (fst r) (snd r))"

lemma nth_record_0:
  "nth_record k si prev rid off (it # its) 0 =
     rec_of (snd it) (fst it) (kh_key_id k) prev rid si off (item_payload k it prev rid)
       (kh_sign k (item_payload k it prev rid))"
  by (simp add: nth_record_def Let_def)

lemma nth_record_Suc:
  "nth_record k si prev rid off (it # its) (Suc i) =
     (let p = item_payload k it prev rid
      in nth_record k si (kh_sign k p) (rid + 1) (off + length (rec_frame (p, kh_sign k p))) its i)"
  by (simp add: nth_record_def Let_def head_of_Cons add.assoc)

lemma read_record_item:
  assumes ok: "item_ok u32_max k it" and prev: "length prev = 32" and off: "off \<le> length content"
    and p: "p = item_payload k it prev rid"
    and d: "drop off content = rec_frame (p, kh_sign k p) @ rest"
  shows "read_record content si off (length content) =
    Ok (rec_of (snd it) (fst it) (kh_key_id k) prev rid si off p (kh_sign k p))"
proof -
  have v: "rec_valid u32_max (p, kh_sign k p)"
    unfolding p rec_valid_def using item_payload_bound [OF ok prev] by simp
  note at = rec_frame_at [OF v off d, unfolded fst_conv snd_conv]
  have dec: "decode p = Ok (rec_value (snd it) (fst it) (kh_key_id k) prev rid)"
    unfolding p by (rule item_payload_decode [OF ok order_refl prev])
  have map: "decode_record_map (rec_value (snd it) (fst it) (kh_key_id k) prev rid) si off p (kh_sign k p) =
      Ok (rec_of (snd it) (fst it) (kh_key_id k) prev rid si off p (kh_sign k p))"
    using ok prev by (intro decode_record_map_rec_value) (simp_all add: item_ok_def)
  show ?thesis using at by (simp add: read_record_def Let_def HMAC_LEN_def dec map)
qed

section \<open>Seek\<close>

lemma seek_loop_items:
  assumes "list_all (item_ok u32_max k) its" "length prev = 32" "off \<le> length content"
    and "drop off content = frames (chain k prev rid its)" and "length its < 2 ^ 64"
  shows "i < length its \<Longrightarrow> seek_loop content si (rid + of_nat i) off = Ok (nth_record k si prev rid off its i)"
    and "(\<And>j. j < length its \<Longrightarrow> target \<noteq> rid + of_nat j) \<Longrightarrow>
      seek_loop content si target off = Err (NotFound si target)"
proof -
  have step: "seek_loop content si target off =
      (if target = rid then Ok (nth_record k si prev rid off (it # its) 0)
       else seek_loop content si target (off + length (rec_frame (p, kh_sign k p))))
      \<and> off + length (rec_frame (p, kh_sign k p)) \<le> length content \<and>
      drop (off + length (rec_frame (p, kh_sign k p))) content = frames (chain k (kh_sign k p) (rid + 1) its)"
    if a: "item_ok u32_max k it" "length prev = 32" "off \<le> length content" "p = item_payload k it prev rid"
      "drop off content = frames (chain k prev rid (it # its))" for it its prev rid off p target
  proof -
    have d: "drop off content = rec_frame (p, kh_sign k p) @ frames (chain k (kh_sign k p) (rid + 1) its)"
      using a(4,5) by (simp add: Let_def)
    have v: "rec_valid u32_max (p, kh_sign k p)"
      unfolding a(4) rec_valid_def using item_payload_bound [OF a(1,2)] by simp
    note len = length_rec_frame [OF v, unfolded fst_conv]
    note b = drop_length_bound [OF d a(3)]
    have "\<not> length content \<le> off" using b len by linarith
    moreover note r = read_record_item [OF a(1-4) d, of si]
    moreover have "target = rid \<longleftrightarrow> rid = target" by blast
    ultimately show ?thesis using b len drop_after [OF d] a(4)
      by (subst seek_loop.simps) (simp add: nth_record_0 rec_of_def RECORD_FRAMING_OVERHEAD_def HMAC_LEN_def add.assoc)
  qed
  have ne: "rid + of_nat (Suc j) \<noteq> rid" if "Suc j < 2 ^ 64" for j and rid :: u64
  proof
    assume "rid + of_nat (Suc j) = rid"
    then have "unat (of_nat (Suc j) :: u64) = 0" by simp
    moreover have "unat (of_nat (Suc j) :: u64) = Suc j"
      using that by (simp only: unat_of_nat) (simp add: take_bit_nat_eq_self)
    ultimately show False by linarith
  qed
  show "i < length its \<Longrightarrow> seek_loop content si (rid + of_nat i) off = Ok (nth_record k si prev rid off its i)"
    using assms
  proof (induction its arbitrary: i prev rid off)
    case (Cons it its)
    define p where "p = item_payload k it prev rid"
    note s = step [OF _ Cons.prems(3,4) p_def Cons.prems(5), of "rid + of_nat i"]
    show ?case
    proof (cases i)
      case 0
      then show ?thesis using s Cons.prems by simp
    next
      case (Suc j)
      have "Suc j < 2 ^ 64" using Suc Cons.prems(1,6) by simp
      then have "rid + of_nat i \<noteq> rid" using ne Suc by blast
      moreover have "seek_loop content si (rid + 1 + of_nat j) (off + length (rec_frame (p, kh_sign k p))) =
          Ok (nth_record k si (kh_sign k p) (rid + 1) (off + length (rec_frame (p, kh_sign k p))) its j)"
        using Cons.prems Suc s by (intro Cons.IH) simp_all
      ultimately show ?thesis using s Cons.prems Suc
        by (simp add: nth_record_Suc p_def [symmetric] Let_def add.assoc)
    qed
  qed simp
  show "seek_loop content si target off = Err (NotFound si target)"
    if "\<And>j. j < length its \<Longrightarrow> target \<noteq> rid + of_nat j"
    using assms that
  proof (induction its arbitrary: prev rid off)
    case Nil
    then show ?case by (subst seek_loop.simps) simp
  next
    case (Cons it its)
    define p where "p = item_payload k it prev rid"
    note s = step [OF _ Cons.prems(2,3) p_def Cons.prems(4), of target]
    have "target \<noteq> rid" using Cons.prems(6) [of 0] by simp
    moreover have "seek_loop content si target (off + length (rec_frame (p, kh_sign k p))) = Err (NotFound si target)"
    proof (rule Cons.IH)
      show "target \<noteq> rid + 1 + of_nat j" if "j < length its" for j
        using Cons.prems(6) [of "Suc j"] that by (simp add: add.assoc)
    qed (use Cons.prems s in simp_all)
    ultimately show ?case using s Cons.prems by simp
  qed
qed

lemma read_header_log:
  assumes "length pf = 32"
  shows "read_header crc (header_to_bytes crc (seg_header k n pf) @ rest) (of_nat n) = Ok (seg_header k n pf)"
proof -
  let ?h = "seg_header k n pf"
  have wf: "header_wf ?h" using assms by simp
  note f = header_fields [OF wf, of crc "[]", unfolded append_Nil2]
  have "slice (header_to_bytes crc ?h @ rest) 0 80 = header_to_bytes crc ?h" using wf by (simp add: slice_def)
  then show ?thesis using f wf
    by (simp add: read_header_def Let_def HEADER_BODY_LEN_def HEADER_TOTAL_LEN_def)
qed

definition log_record :: "key_handle \<Rightarrow> log_item list list \<Rightarrow> nat \<Rightarrow> nat \<Rightarrow> audit_record" where
  "log_record k segs n i = nth_record k (of_nat n) (seg_start k n (log_pf k segs n)) 0 80 (segs ! n) i"

lemma reader_seek_log:
  assumes rep: "represents crc k segs d" and n: "n < length segs" and ok: "log_ok u32_max k segs"
    and len: "length (segs ! n) < 2 ^ 64"
  shows "i < length (segs ! n) \<Longrightarrow> reader_seek crc d (of_nat n) (of_nat i) = Ok (log_record k segs n i)"
    and "i < 2 ^ 64 \<Longrightarrow> length (segs ! n) \<le> i \<Longrightarrow> reader_seek crc d (of_nat n) (of_nat i) = Err (NotFound (of_nat n) (of_nat i))"
proof -
  let ?pf = "log_pf k segs n" let ?its = "segs ! n" let ?c = "log_file crc k segs n"
  have un: "unat (of_nat n :: u16) = n" using rep n by (simp add: represents_def unat_of_nat)
  then have get: "seg_get d (of_nat n) = Some ?c" using rep n by (simp add: represents_def)
  have hdr: "read_header crc ?c (of_nat n) = Ok (seg_header k n ?pf)"
    unfolding log_file_def seg_bytes_def by (rule read_header_log) simp
  have okn: "list_all (item_ok u32_max k) ?its" using ok n by (simp add: log_ok_def list_all_length)
  have d: "drop 80 ?c = frames (chain k (seg_start k n ?pf) 0 ?its)"
    by (simp add: log_file_def seg_bytes_def seg_chain_def)
  have le: "80 \<le> length ?c" by (simp add: log_file_def seg_bytes_length_ge)
  have st: "length (seg_start k n ?pf) = 32" by simp
  note loop = seek_loop_items [OF okn st le d len]
  have seek: "reader_seek crc d (of_nat n) t = seek_loop ?c (of_nat n) t 80" for t
    by (simp add: reader_seek_def get hdr HEADER_TOTAL_LEN_def)
  show "i < length ?its \<Longrightarrow> reader_seek crc d (of_nat n) (of_nat i) = Ok (log_record k segs n i)"
    using loop(1) [of i "of_nat n"] by (simp add: seek log_record_def)
  assume i: "i < 2 ^ 64" "length ?its \<le> i"
  have "(of_nat i :: u64) \<noteq> 0 + of_nat j" if "j < length ?its" for j
  proof
    assume "(of_nat i :: u64) = 0 + of_nat j"
    then have "unat (of_nat i :: u64) = unat (of_nat j :: u64)" by simp
    then show False using i that len by (simp add: unat_of_nat)
  qed
  then show "reader_seek crc d (of_nat n) (of_nat i) = Err (NotFound (of_nat n) (of_nat i))"
    using loop(2) [of "of_nat i" "of_nat n"] by (simp add: seek)
qed

section \<open>The iterator\<close>

text \<open>\<open>yields crc d it rs\<close>: repeated calls on \<open>it\<close> return the records \<open>rs\<close>, and then \<^verbatim>\<open>None\<close>.\<close>

inductive yields :: "(bytes \<Rightarrow> u32) \<Rightarrow> dir \<Rightarrow> record_iterator \<Rightarrow> audit_record list \<Rightarrow> bool"
  for crc d where
  exhausted: "next_record crc d it = Some (it', Ok None) \<Longrightarrow> yields crc d it []"
| more: "next_record crc d it = Some (it', Ok (Some r)) \<Longrightarrow> yields crc d it' rs \<Longrightarrow> yields crc d it (r # rs)"

inductive_simps yields_Nil: "yields crc d it []"
inductive_simps yields_Cons: "yields crc d it (r # rs)"

text \<open>What the iterator yields is determined: it never gives two different histories.\<close>

lemma yields_unique: "yields crc d it rs \<Longrightarrow> yields crc d it rs' \<Longrightarrow> rs = rs'"
proof (induction arbitrary: rs' rule: yields.induct)
  case (exhausted it it')
  then show ?case by (cases rs') (auto simp: yields_Cons)
next
  case (more it it' r rs)
  then obtain ss where "rs' = r # ss" "yields crc d it' ss" by (cases rs') (simp_all add: yields_Nil yields_Cons)
  then show ?case using more.IH by simp
qed

definition iter_at :: "key_handle \<Rightarrow> log_item list list \<Rightarrow> nat \<Rightarrow> nat \<Rightarrow> bool \<Rightarrow> record_iterator" where
  "iter_at k segs n i hv = \<lparr>it_current_segment = Some (of_nat n), it_current_offset = frame_offset k segs n i,
     it_current_file = Some (of_nat n), it_header_verified = hv\<rparr>"

definition log_records :: "key_handle \<Rightarrow> log_item list list \<Rightarrow> nat \<Rightarrow> audit_record list" where
  "log_records k segs n =
     concat (map (\<lambda>m. map (log_record k segs m) [0..<length (segs ! m)]) [n..<length segs])"

lemma log_records_step:
  "n < length segs \<Longrightarrow> log_records k segs n =
     map (log_record k segs n) [0..<length (segs ! n)] @ log_records k segs (Suc n)"
  by (simp add: log_records_def upt_conv_Cons)

lemma chain_drop_nth:
  assumes "i < length its"
  shows "drop i (chain k prev rid its) = chain k (head_of prev (take i (chain k prev rid its))) (rid + of_nat i) (drop i its)"
  using assms
proof (induction its arbitrary: i prev rid)
  case (Cons it its)
  then show ?case by (cases i) (simp_all add: Let_def head_of_Cons add.assoc)
qed simp

text \<open>Opening the next file is all that distinguishes an iterator between two files.\<close>

lemma next_record_open:
  assumes "open_next d it0 = Some it" "open_next d it = Some it"
  shows "next_record crc d it0 = next_record crc d it"
  using next_record.simps [of crc d it0] next_record.simps [of crc d it] unfolding assms option.case by simp

text \<open>A call with a record at the current position returns it and moves to the next one.\<close>

lemma next_record_item:
  assumes rep: "represents crc k segs d" and n: "n < length segs" and ok: "log_ok u32_max k segs"
    and i: "i < length (segs ! n)"
  shows "next_record crc d (iter_at k segs n i hv) = Some (iter_at k segs n (Suc i) True, Ok (Some (log_record k segs n i)))"
proof -
  let ?its = "segs ! n" let ?pf = "log_pf k segs n" let ?st = "seg_start k n ?pf" let ?c = "log_file crc k segs n"
  define ch where "ch = chain k ?st 0 ?its"
  define prev where "prev = head_of ?st (take i ch)"
  define p where "p = item_payload k (?its ! i) prev (of_nat i)"
  have un: "unat (of_nat n :: u16) = n" using rep n by (simp add: represents_def unat_of_nat)
  then have get: "seg_get d (of_nat n) = Some ?c" using rep n by (simp add: represents_def)
  have hdr: "read_header crc ?c (of_nat n) = Ok (seg_header k n ?pf)"
    unfolding log_file_def seg_bytes_def by (rule read_header_log) simp
  have okn: "list_all (item_ok u32_max k) ?its" and oki: "item_ok u32_max k (?its ! i)"
    using ok n i by (simp_all add: log_ok_def list_all_length)
  have "drop i ch = chain k prev (of_nat i) (drop i ?its)"
    using chain_drop_nth [OF i, of k ?st 0] by (simp add: ch_def prev_def)
  also have "\<dots> = (p, kh_sign k p) # tl (drop i ch)"
    unfolding calculation Cons_nth_drop_Suc [OF i, symmetric] by (simp add: p_def Let_def)
  finally have di: "drop i ch = (p, kh_sign k p) # drop (Suc i) ch" by (simp add: drop_Suc tl_drop)
  have nth: "ch ! i = (p, kh_sign k p)" using di nth_via_drop by fastforce
  have "?c = header_to_bytes crc (seg_header k n ?pf) @ frames (take i ch @ drop i ch)"
    by (simp add: log_file_def seg_bytes_def seg_chain_def ch_def del: frames_simps)
  then have c: "?c = header_to_bytes crc (seg_header k n ?pf) @ frames (take i ch) @
      rec_frame (p, kh_sign k p) @ frames (drop (Suc i) ch)"
    by (simp add: di del: append_take_drop_id)
  have off: "frame_offset k segs n i = 80 + length (frames (take i ch))"
    by (simp add: frame_offset_def seg_chain_def ch_def)
  have d: "drop (frame_offset k segs n i) ?c = rec_frame (p, kh_sign k p) @ frames (drop (Suc i) ch)"
    by (simp add: c off)
  have le: "frame_offset k segs n i < length ?c" using rec_frame_nonempty by (simp add: c off)
  have prev: "length prev = 32" unfolding prev_def ch_def take_chain by (rule length_head_chain) simp
  have r: "read_record ?c (of_nat n) (frame_offset k segs n i) (length ?c) = Ok (log_record k segs n i)"
    using read_record_item [OF oki prev less_imp_le [OF le] p_def d, of "of_nat n"] nth
    by (simp add: log_record_def nth_record_def Let_def ch_def [symmetric] prev_def off)
  have v: "rec_valid u32_max (p, kh_sign k p)"
    unfolding p_def rec_valid_def using item_payload_bound [OF oki prev] by simp
  have nxt: "frame_offset k segs n (Suc i) = frame_offset k segs n i + 40 + length p"
    using nth i length_rec_frame [OF v]
    by (simp add: frame_offset_def seg_chain_def ch_def [symmetric] take_Suc_conv_app_nth)
       (simp add: ch_def take_Suc_conv_app_nth)
  have pl: "r_payload_bytes (log_record k segs n i) = p"
    using nth by (simp add: log_record_def nth_record_def Let_def ch_def [symmetric] rec_of_def)
  show ?thesis using le
    by (subst next_record.simps)
      (simp add: open_next_def iter_at_def get hdr r nxt pl RECORD_FRAMING_OVERHEAD_def HMAC_LEN_def)
qed

text \<open>At the end of a segment a call behaves as at the start of the next one, or ends.\<close>

lemma next_record_end:
  assumes rep: "represents crc k segs d" and n: "n < length segs" and len: "length segs < 65536"
  shows "Suc n < length segs \<Longrightarrow> next_record crc d (iter_at k segs n (length (segs ! n)) hv) =
      next_record crc d (iter_at k segs (Suc n) 0 False)"
    and "Suc n = length segs \<Longrightarrow> next_record crc d (iter_at k segs n (length (segs ! n)) hv) =
      Some (iter_at k segs n (length (segs ! n)) True, Ok None)"
proof -
  let ?c = "log_file crc k segs n"
  have un: "unat (of_nat m :: u16) = m" if "m < 65536" for m using that by (simp add: unat_of_nat)
  have get: "seg_get d (of_nat m) = (if m < length segs then Some (log_file crc k segs m) else None)"
    if "m < 65536" for m using rep un [OF that] by (simp add: represents_def)
  have get_n: "seg_get d (of_nat n) = Some ?c" using get [of n] n len by simp
  have get_s: "seg_get d (of_nat n + 1) = (if Suc n < length segs then Some (log_file crc k segs (Suc n)) else None)"
    using get [of "Suc n"] n len by (simp add: add.commute)
  have hdr: "read_header crc ?c (of_nat n) = Ok (seg_header k n (log_pf k segs n))"
    unfolding log_file_def seg_bytes_def by (rule read_header_log) simp
  have off: "frame_offset k segs n (length (segs ! n)) = length ?c"
    by (simp add: frame_offset_def log_file_def seg_bytes_def seg_chain_def)
  have body: "next_record crc d (iter_at k segs n (length (segs ! n)) hv) =
      (if Suc n < length segs
       then next_record crc d ((iter_at k segs n (length (segs ! n)) True)\<lparr>it_current_file := None, it_header_verified := False\<rparr>)
       else Some (iter_at k segs n (length (segs ! n)) True, Ok None))"
    by (subst next_record.simps) (simp add: open_next_def iter_at_def get_n get_s hdr off)
  show "Suc n = length segs \<Longrightarrow> next_record crc d (iter_at k segs n (length (segs ! n)) hv) =
      Some (iter_at k segs n (length (segs ! n)) True, Ok None)" by (simp add: body)
  assume s: "Suc n < length segs"
  have "open_next d ((iter_at k segs n (length (segs ! n)) True)\<lparr>it_current_file := None, it_header_verified := False\<rparr>) =
      Some (iter_at k segs (Suc n) 0 False)"
    using s get_s by (simp add: open_next_def iter_at_def HEADER_TOTAL_LEN_def frame_offset_def add.commute Let_def)
  moreover have "open_next d (iter_at k segs (Suc n) 0 False) = Some (iter_at k segs (Suc n) 0 False)"
    by (simp add: open_next_def iter_at_def)
  ultimately have "next_record crc d ((iter_at k segs n (length (segs ! n)) True)\<lparr>it_current_file := None, it_header_verified := False\<rparr>) =
      next_record crc d (iter_at k segs (Suc n) 0 False)"
    by (rule next_record_open)
  then show "next_record crc d (iter_at k segs n (length (segs ! n)) hv) =
      next_record crc d (iter_at k segs (Suc n) 0 False)" using s by (simp add: body)
qed

lemma yields_cong: "next_record crc d it = next_record crc d it' \<Longrightarrow> yields crc d it rs \<longleftrightarrow> yields crc d it' rs"
  by (cases rs) (simp_all add: yields_Nil yields_Cons)

lemma yields_segment:
  assumes "represents crc k segs d" "n < length segs" "log_ok u32_max k segs" "i \<le> length (segs ! n)"
    and fin: "\<And>hv. yields crc d (iter_at k segs n (length (segs ! n)) hv) rs"
  shows "yields crc d (iter_at k segs n i hv) (map (log_record k segs n) [i..<length (segs ! n)] @ rs)"
  using assms(4)
proof (induction "length (segs ! n) - i" arbitrary: i hv)
  case 0
  then show ?case using fin by simp
next
  case (Suc x)
  then have i: "i < length (segs ! n)" by simp
  have "yields crc d (iter_at k segs n (Suc i) True) (map (log_record k segs n) [Suc i..<length (segs ! n)] @ rs)"
    using Suc by (intro Suc.hyps(1)) simp_all
  then show ?case using next_record_item [OF assms(1-3) i] i
    by (simp add: upt_conv_Cons yields_Cons)
qed

lemma yields_log:
  assumes "represents crc k segs d" "n < length segs" "log_ok u32_max k segs" "length segs < 65536"
  shows "yields crc d (iter_at k segs n 0 hv) (log_records k segs n)"
  using assms(2)
proof (induction "length segs - n" arbitrary: n hv)
  case (Suc x)
  note e = next_record_end [OF assms(1) Suc.prems assms(4)]
  have "yields crc d (iter_at k segs n (length (segs ! n)) hv') (log_records k segs (Suc n))" for hv'
  proof (cases "Suc n < length segs")
    case True
    then have "yields crc d (iter_at k segs (Suc n) 0 False) (log_records k segs (Suc n))"
      using Suc by (intro Suc.hyps(1)) simp_all
    then show ?thesis using yields_cong [OF e(1) [OF True]] by simp
  next
    case False
    then have "Suc n = length segs" using Suc.prems by simp
    then show ?thesis using e(2) by (auto simp: log_records_def yields_Nil)
  qed
  then show ?case using yields_segment [OF assms(1) Suc.prems assms(3)] Suc.prems
    by (simp add: log_records_step)
qed simp

lemma reader_iter_log:
  assumes "represents crc k segs d" "log_ok u32_max k segs" "length segs < 65536" "segs \<noteq> []"
  shows "yields crc d reader_iter (log_records k segs 0)"
proof -
  have get: "seg_get d 0 = Some (log_file crc k segs 0)" using assms(1,4) by (simp add: represents_def)
  have "open_next d reader_iter = Some (iter_at k segs 0 0 False)"
    by (simp add: open_next_def reader_iter_def get iter_at_def frame_offset_def HEADER_TOTAL_LEN_def)
  moreover have "open_next d (iter_at k segs 0 0 False) = Some (iter_at k segs 0 0 False)"
    by (simp add: open_next_def iter_at_def)
  ultimately have "next_record crc d reader_iter = next_record crc d (iter_at k segs 0 0 False)"
    by (rule next_record_open)
  then show ?thesis using yields_log [OF assms(1) _ assms(2,3)] assms(4) yields_cong by blast
qed

end
