(* ===== verification/Recovery_Sound.thy ===== *)
theory Recovery_Sound
  imports Recovery_Correct Verifier_Complete
begin

text \<open>
  What a successful \<^verbatim>\<open>Writer::with_config\<close> on any directory means, genuine or not: the newest
  segment was only shortened, what is left of it is a header and whole records whose tags and links
  hold, and the writer resumes behind the last of them.
\<close>

definition recovered_ok :: "key_handle \<Rightarrow> bytes \<Rightarrow> bytes \<times> bytes \<Rightarrow> bool" where
  "recovered_ok k prev r \<longleftrightarrow> snd r = kh_sign k (fst r) \<and>
     (\<exists>v parsed. decode (fst r) = Ok v \<and> parse_recovered_record v = Ok parsed \<and> rr_prev_hash parsed = prev)"

primrec recovered_chain :: "key_handle \<Rightarrow> bytes \<Rightarrow> (bytes \<times> bytes) list \<Rightarrow> bool" where
  "recovered_chain k prev [] = True"
| "recovered_chain k prev (r # rs) = (recovered_ok k prev r \<and> recovered_chain k (snd r) rs)"

lemma scan_check_sound:
  assumes "scan_check k si s p h = Ok parsed"
  shows "recovered_ok k (sc_last_hmac s) (p, h)"
  using assms
  by (auto simp: scan_check_def recovered_ok_def ct_eq_def Let_def result_elims bind_res_Ok_iff split: if_splits)

lemma scan_records_sound:
  assumes "scan_records k si content s = Ok (s', content')" "sc_bytes_written s \<le> length content"
  shows "\<exists>recs. recovered_chain k (sc_last_hmac s) recs \<and>
    content' = take (sc_bytes_written s) content @ frames recs \<and> content' = take (length content') content \<and>
    sc_last_hmac s' = head_of (sc_last_hmac s) recs \<and> sc_bytes_written s' = length content' \<and>
    sc_truncated_bytes s' = (if content' = content then sc_truncated_bytes s else length content - length content')"
  using assms
proof (induction k si content s rule: scan_records.induct)
  case (1 k si content s)
  let ?o = "sc_bytes_written s"
  show ?case
  proof (cases "length content \<le> ?o")
    case True
    with 1(2) have "s' = s" "content' = content" by (simp_all add: scan_records.simps [of k si content s])
    then show ?thesis using True 1(3) by (intro exI [of _ "[]"]) simp
  next
    case inside: False
    show ?thesis
    proof (cases "read_framed_record content ?o")
      case Torn
      with 1(2) inside have eq: "s' = s\<lparr>sc_truncated_bytes := length content - ?o\<rparr>" "content' = take ?o content"
        by (simp_all add: scan_records.simps [of k si content s])
      then have "content' \<noteq> content" using inside by (metis length_take min_less_iff_conj nat_less_le not_le)
      then show ?thesis using eq inside by (intro exI [of _ "[]"]) simp
    next
      case (FramedOk p h n)
      have off: "?o < length content" using inside by simp
      note snd = read_framed_record_sound [OF FramedOk off]
      obtain rest where rest: "drop ?o content = rec_frame (p, h) @ rest" using snd(2) by blast
      from 1(2) inside FramedOk obtain parsed where c: "scan_check k si s p h = Ok parsed"
        and go: "scan_records k si content (scan_advance s parsed h n) = Ok (s', content')"
        by (auto simp: scan_records.simps [of k si content s] bind_res_Ok_iff)
      have adv: "sc_bytes_written (scan_advance s parsed h n) = ?o + n" "sc_last_hmac (scan_advance s parsed h n) = h"
        "sc_truncated_bytes (scan_advance s parsed h n) = sc_truncated_bytes s" by (simp_all add: scan_advance_def)
      have n: "?o + n \<le> length content" using drop_length_bound [OF rest 1(3)] snd(3) by simp
      from 1(1) [OF inside FramedOk c go] n adv obtain recs where r: "recovered_chain k h recs"
        "content' = take (?o + n) content @ frames recs" "content' = take (length content') content"
        "sc_last_hmac s' = head_of h recs" "sc_bytes_written s' = length content'"
        "sc_truncated_bytes s' = (if content' = content then sc_truncated_bytes s else length content - length content')"
        by auto
      have "take (?o + n) content = take ?o content @ rec_frame (p, h)"
        using rest snd(3) by (simp add: take_add)
      then have "content' = take ?o content @ frames ((p, h) # recs)" using r(2) by simp
      moreover have "recovered_chain k (sc_last_hmac s) ((p, h) # recs)" using r(1) scan_check_sound [OF c] by simp
      moreover have "sc_last_hmac s' = head_of (sc_last_hmac s) ((p, h) # recs)" using r(4) by (simp add: head_of_Cons)
      ultimately show ?thesis using r(3,5,6) by blast
    qed
  qed
qed

lemma scan_segment_sound:
  assumes "scan_segment_for_recovery crc k si d = Ok (scan, d')" and get: "seg_get d si = Some content"
  shows "\<exists>content' recs start. d' = seg_put si content' d \<and> content' = take 80 content @ frames recs \<and>
    content' = take (length content') content \<and> recovered_chain k start recs \<and>
    sc_last_hmac scan = head_of start recs \<and> sc_bytes_written scan = length content' \<and>
    sc_truncated_bytes scan = length content - length content' \<and>
    (\<exists>h. header_parse crc (take 80 content) = Ok h \<and> hdr_key_id h = kh_key_id k \<and>
       start = (if si = 0 then kh_sign k (take 72 content) else hdr_prev_final h))"
proof -
  from assms obtain h content' where len: "80 \<le> length content" and h: "header_parse crc (take 80 content) = Ok h"
    "hdr_key_id h = kh_key_id k"
    and run: "scan_records k si content \<lparr>sc_record_count = 0, sc_last_record_id = None, sc_bytes_written = HEADER_TOTAL_LEN,
        sc_truncated_bytes = 0, sc_last_hmac = (if si = 0 then kh_sign k (take 72 content) else hdr_prev_final h),
        sc_last_ts_wall = [], sc_last_ts_mono_delta = 0, sc_last_record_was_finalize = False\<rparr> = Ok (scan, content')"
    and d': "d' = seg_put si content' d"
    unfolding scan_segment_for_recovery_def Let_def
    by (auto simp: slice_def HEADER_TOTAL_LEN_def HEADER_BODY_LEN_def bind_res_Ok_iff map_err_Ok_iff split: if_splits)
  from scan_records_sound [OF run] len obtain recs where r:
    "recovered_chain k (if si = 0 then kh_sign k (take 72 content) else hdr_prev_final h) recs"
    "content' = take 80 content @ frames recs" "content' = take (length content') content"
    "sc_last_hmac scan = head_of (if si = 0 then kh_sign k (take 72 content) else hdr_prev_final h) recs"
    "sc_bytes_written scan = length content'"
    "sc_truncated_bytes scan = (if content' = content then 0 else length content - length content')"
    by (auto simp: HEADER_TOTAL_LEN_def)
  have t: "sc_truncated_bytes scan = length content - length content'" using r(6) by simp
  show ?thesis by (intro exI [of _ content'] exI [of _ recs] exI conjI) (fact d' r h t refl)+
qed

text \<open>The writer resumes behind the last checked record, in the same segment or in the next one.\<close>

lemma with_config_sound:
  assumes run: "with_config crc k sid cfg d = (d', Ok w)" and wf: "dir_wf d"
    and ne: "list_segment_indices d \<noteq> []" and si: "si = last (list_segment_indices d)"
    and get: "seg_get d si = Some content"
  shows "\<exists>content' recs start. content' = take 80 content @ frames recs \<and> content' = take (length content') content \<and>
    recovered_chain k start recs \<and> seg_get d' si = Some content' \<and>
    st_last_hmac (w_current w) = head_of start recs \<and> rep_truncated_bytes (w_recovery w) = length content - length content' \<and>
    (\<forall>j. j \<noteq> si \<and> j \<noteq> si + 1 \<longrightarrow> seg_get d' j = seg_get d j) \<and>
    (st_index (w_current w) = si \<and> st_pos (w_current w) = length content' \<and> seg_get d' (si + 1) = seg_get d (si + 1) \<or>
     st_index (w_current w) = si + 1 \<and>
       seg_get d' (si + 1) = Some (header_to_bytes crc (header_next (si + 1) (kh_key_id k) (head_of start recs))))"
proof -
  from run ne obtain scan d1 where scan: "scan_segment_for_recovery crc k si d = Ok (scan, d1)"
    by (auto simp: with_config_def Let_def si split: result.splits)
  from scan_segment_sound [OF scan get] obtain content' recs start where c:
    "d1 = seg_put si content' d" "content' = take 80 content @ frames recs" "content' = take (length content') content"
    "recovered_chain k start recs" "sc_last_hmac scan = head_of start recs" "sc_bytes_written scan = length content'"
    "sc_truncated_bytes scan = length content - length content'" by blast
  have sj: "si + 1 \<noteq> si" by simp
  show ?thesis
  proof (cases "sc_last_record_was_finalize scan")
    case True
    with run ne scan have w: "st_last_hmac (w_current w) = sc_last_hmac scan" "st_index (w_current w) = si + 1"
      "rep_truncated_bytes (w_recovery w) = sc_truncated_bytes scan"
      "d' = snd (segment_create_next crc (si + 1) (kh_key_id k) (sc_last_hmac scan) d1)"
      by (auto simp: with_config_def Let_def si segment_create_next_def open_truncated_def handle_write_def
          split: if_splits prod.splits)
    then have "seg_get d' = (seg_get d1)(si + 1 \<mapsto> header_to_bytes crc (header_next (si + 1) (kh_key_id k) (sc_last_hmac scan)))"
      by (simp add: segment_create_next_def open_truncated_def handle_write_def store.get_put write_at_def)
    then have g: "seg_get d' (si + 1) = Some (header_to_bytes crc (header_next (si + 1) (kh_key_id k) (head_of start recs)))"
      "seg_get d' si = Some content'" "\<forall>j. j \<noteq> si \<and> j \<noteq> si + 1 \<longrightarrow> seg_get d' j = seg_get d j"
      using c(1,5) by (simp_all add: store.get_put)
    then show ?thesis using c(2-5,7) w(1-3) unfolding c(5) c(7) by blast
  next
    case False
    with run ne scan have w: "st_last_hmac (w_current w) = sc_last_hmac scan" "st_index (w_current w) = si"
      "st_pos (w_current w) = sc_bytes_written scan" "rep_truncated_bytes (w_recovery w) = sc_truncated_bytes scan" "d' = d1"
      by (auto simp: with_config_def Let_def si reopen_segment_for_append_def split: option.splits)
    then have g: "seg_get d' (si + 1) = seg_get d (si + 1)" "seg_get d' si = Some content'"
      "\<forall>j. j \<noteq> si \<and> j \<noteq> si + 1 \<longrightarrow> seg_get d' j = seg_get d j"
      using c(1) by (simp_all add: store.get_put)
    then show ?thesis using c(2-4) w(1-4) unfolding c(5-7) by blast
  qed
qed

section \<open>More than 10000 segments\<close>

lemma reopen_large_log:
  assumes rep: "represents crc k segs d" and big: "10000 < length segs" and ok: "log_ok MAX_RECORD k segs"
    and fin: "segs ! 9999 \<noteq> []" "in_event (snd (last (segs ! 9999))) = SEGMENT_FINALIZED"
  shows "\<exists>w d'. with_config crc k sid cfg d = (d', Ok w) \<and>
    seg_get d 10000 = Some (log_file crc k segs 10000) \<and>
    seg_get d' 10000 = Some (header_to_bytes crc (header_next 10000 (kh_key_id k) (log_pf k segs 10000)))"
proof -
  let ?its = "segs ! 9999" let ?pf = "log_pf k segs 9999" let ?f = "seg_bytes crc k 9999 ?pf ?its"
  have wf: "dir_wf d" using rep by (simp add: represents_def)
  have idx: "list_segment_indices d = map of_nat [0..<10000]"
  proof (rule store.indices_eq [OF wf])
    show "seg_get d i \<noteq> None \<longleftrightarrow> unat i \<in> set [0..<10000]" if "unat i < 10000" for i
      using rep big that by (auto simp: represents_def)
  qed auto
  then have last: "list_segment_indices d \<noteq> []" "last (list_segment_indices d) = 9999"
    by (simp_all add: idx last_map)
  have okl: "list_all (item_ok MAX_RECORD k) ?its" using ok big by (simp add: log_ok_def list_all_length)
  have get: "seg_get d (of_nat m) = Some (log_file crc k segs m)" if "m \<le> 10000" for m
    using log_get(1) [OF rep] that big by simp
  define sc where "sc = scan_items k (scan_start (seg_start k 9999 ?pf)) 0 ?its"
  have s0: "sc_record_count (scan_start x) = 0" "sc_last_record_id (scan_start x) = None"
    "sc_last_ts_wall (scan_start x) = []" "sc_last_ts_mono_delta (scan_start x) = 0"
    "\<not> sc_last_record_was_finalize (scan_start x)" "sc_last_hmac (scan_start x) = x" for x
    by (simp_all add: scan_start_def)
  note fl = scan_items_fields [OF s0(1-5), of k "seg_start k 9999 ?pf" ?its, unfolded s0(6), folded sc_def]
  have "log_pf k segs (Suc 9999) = seg_final k 9999 ?pf ?its" by (rule log_pf.simps)
  then have head: "sc_last_hmac sc = log_pf k segs 10000" using fl(1) by (simp add: seg_final_def seg_chain_def)
  have "scan_segment_for_recovery crc k (of_nat 9999) d = Ok (sc\<lparr>sc_truncated_bytes := 0\<rparr>, seg_put (of_nat 9999) ?f d)"
    using scan_segment_at [where n = 9999 and its = ?its and pf = ?pf and j = "length ?its" and t = "[]" and d = d and crc = crc and k = k] okl get [of 9999]
    by (simp add: cut_frame_def sc_def log_file_def)
  then have scan: "scan_segment_for_recovery crc k 9999 d = Ok (sc\<lparr>sc_truncated_bytes := 0\<rparr>, seg_put 9999 ?f d)" by simp
  have closed: "sc_last_record_was_finalize sc" using fl(6) fin by simp
  show ?thesis
    using last scan closed head get [of 10000]
    by (simp add: with_config_def Let_def segment_create_next_def open_truncated_def handle_write_def
        store.get_put write_at_def case_prod_unfold)
qed

end
