(* ===== verification/Codec_Properties.thy ===== *)
theory Codec_Properties
  imports Record_Codec Timestamps Framing Verifier_Complete
begin

text \<open>
  The properties of the byte formats: canonical CBOR, records, headers, frames, timestamps.
\<close>

section \<open>CBOR\<close>

text \<open>C26. The decoder accepts exactly the canonical encodings: it returns \<open>v\<close> on \<open>bs\<close> if and only if
  \<open>bs\<close> is what the encoders produce for \<open>v\<close>, and \<open>v\<close> nests at most 16 deep, has integers in range,
  valid UTF-8 and map keys in strictly increasing canonical order. So no two byte strings decode to
  one value.\<close>

theorem decode_accepts_canonical:
  assumes "length bs < 2 ^ 63"
  shows "decode bs = Ok v \<longleftrightarrow> wfv 0 v \<and> bs = enc v"
  by (rule decode_Ok_iff [OF assms])

theorem decode_accepts_canonical_witness:
  "decode [0x82, 0x01, 0xf5] = Ok (VArray [VUint 1, VBool True]) \<longleftrightarrow>
     wfv 0 (VArray [VUint 1, VBool True]) \<and> [0x82, 0x01, 0xf5] = enc (VArray [VUint 1, VBool True])"
  by (rule decode_accepts_canonical) simp

lemma take_bytes_wraps:
  assumes "cursor \<le> length bs" "len < 2 ^ 64" "2 ^ 64 \<le> cursor + len" "length bs < 2 ^ 63"
  shows "take_bytes bs cursor len = Panic"
proof -
  have "(cursor + len) mod 2 ^ 64 = cursor + len - 2 ^ 64"
    using assms le_mod_geq [OF assms(3)] by simp
  then show ?thesis using assms by (simp add: take_bytes_def ensure_def index_range_def)
qed

text \<open>C27. A byte or text string whose 8-byte length field, added to the cursor behind it, reaches \<open>2 ^ 64\<close>
  makes the decoder panic instead of reporting an error, wherever in the input it is read: the bounds
  check adds the length to the cursor without a check for overflow, and the slice after it is out of
  range. (No slice is longer than \<open>2 ^ 63 - 1\<close> bytes.)\<close>

theorem decoder_panics_on_huge_length:
  assumes "length bs < 2 ^ 63" "cursor + 9 \<le> length bs" "bs ! cursor \<in> {0x5b, 0x7b}" "depth < MAX_CBOR_DEPTH"
    and "2 ^ 64 \<le> cursor + 9 + be_val (slice bs (cursor + 1) 8)"
  shows "decode_value_inner bs cursor depth = Panic \<and> (cursor = 0 \<longrightarrow> decode bs = Panic)"
proof -
  let ?n = "be_val (slice bs (cursor + 1) 8)"
  have "length (slice bs (cursor + 1) 8) = 8" using assms(2) by (simp add: slice_def)
  then have n: "?n < 2 ^ 64" using be_val_bound [of "slice bs (cursor + 1) 8"] by simp
  have "\<not> ?n < 2 ^ 32" using assms(1,2,5) by simp
  then have arg: "decode_argument bs cursor 27 = Ok (of_nat ?n, cursor + 9)"
    using assms(1,2) by (simp add: decode_argument_def decode_wide_def ensure_def Let_def)
  have "unat (of_nat ?n :: u64) = ?n" using n by (simp add: unat_of_nat)
  moreover have "take_bytes bs (cursor + 9) ?n = Panic"
    by (rule take_bytes_wraps [OF assms(2) n assms(5,1)])
  moreover have "drop_bit 5 (0x5b :: u8) = 2" "drop_bit 5 (0x7b :: u8) = 3" "(0x5b :: u8) AND 0x1f = 27" "(0x7b :: u8) AND 0x1f = 27"
    by code_simp+
  ultimately have "decode_value_inner bs cursor n = Panic" if "n < MAX_CBOR_DEPTH" for n
    using arg assms(2,3) that by (subst decode_value_inner.simps) (auto simp: Let_def MAX_CBOR_DEPTH_def)
  then show ?thesis using assms(4) by (auto simp: decode_def decode_value_def MAX_CBOR_DEPTH_def)
qed


text \<open>An array of one byte string, whose length field is 2 ^ 64 - 1.\<close>

theorem decoder_panics_on_huge_length_witness:
  "decode_value_inner (0x81 # 0x5b # replicate 8 0xff) 1 1 = Panic \<and> decode (0x5b # replicate 8 0xff) = Panic"
proof -
  have r: "replicate 8 (0xff :: u8) = [0xff, 0xff, 0xff, 0xff, 0xff, 0xff, 0xff, 0xff]" by (simp add: numeral_eq_Suc)
  have s: "slice (0x81 # 0x5b # replicate 8 0xff) (1 + 1) 8 = replicate 8 (0xff :: u8)"
    "slice (0x5b # replicate 8 0xff) (0 + 1) 8 = replicate 8 (0xff :: u8)" by (simp_all add: slice_def)
  have v: "be_val (replicate 8 (0xff :: u8)) = 18446744073709551615" unfolding r be_val_def by simp
  show ?thesis
    using decoder_panics_on_huge_length [of "0x81 # 0x5b # replicate 8 0xff" 1 1]
      decoder_panics_on_huge_length [of "0x5b # replicate 8 0xff" 0 0]
    unfolding s v by (simp add: MAX_CBOR_DEPTH_def)
qed

section \<open>Records\<close>

text \<open>C28. Every well-formed input is encoded without a panic, and the three decoders of the program (the
  reader's, the verifier's lenient one and the recovery scan's) read back from the bytes what the
  writer was given.\<close>

theorem record_round_trip:
  assumes "input_wf r" "length sid = 16" "length kid = 32" "length prev = 32"
  shows "\<exists>bs. encode_record_payload r sid kid prev rid = Some bs \<and>
    (length bs < 2 ^ 63 \<longrightarrow> (\<exists>v. decode bs = Ok v \<and>
       decode_record_map v si off bs t = Ok (rec_of r sid kid prev rid si off bs t) \<and>
       reader_decode_record_map v si off bs t = Ok ((rec_of r sid kid prev rid si off bs t)\<lparr>r_payload := []\<rparr>) \<and>
       parse_recovered_record v = Ok \<lparr>rr_record_id = rid, rr_prev_hash = prev, rr_ts_wall = in_ts_wall r,
         rr_ts_mono_delta = in_ts_mono_delta r, rr_event = in_event r\<rparr>))"
  using encode_record_payload_eq [OF assms(1), of sid kid prev rid] decode_record_payload [OF assms(1-4)]
  by (simp add: decode_record_map_rec_value [OF assms] reader_decode_record_map_rec_value [OF assms(2-4)]
      parse_recovered_rec_value [OF assms(4)])

definition blank_input :: record_input where
  "blank_input = \<lparr>in_ts_wall = [], in_ts_mono_delta = 0, in_actor = [], in_event = [], in_payload = [], in_schema_version = 1\<rparr>"

lemma blank_wf: "input_wf blank_input" "length (replicate 16 (0 :: u8)) = 16" "length (replicate 32 (0 :: u8)) = 32"
  by (simp_all add: blank_input_def input_wf_def small_def MAX_CBOR_DEPTH_def valid_utf8_ascii)

lemma blank_small: "length (enc (rec_value blank_input (replicate 16 0) (replicate 32 0) (replicate 32 0) 0)) < 2 ^ 63"
  by (simp add: rec_value_def blank_input_def emit_map_def small_uint bstr_def tstr_def uint_cbor_def head_def Let_def)

theorem record_round_trip_witness:
  "\<exists>bs v. encode_record_payload blank_input (replicate 16 0) (replicate 32 0) (replicate 32 0) 0 = Some bs \<and>
     decode bs = Ok v \<and> decode_record_map v 0 80 bs (replicate 32 0) =
       Ok (rec_of blank_input (replicate 16 0) (replicate 32 0) (replicate 32 0) 0 0 80 bs (replicate 32 0))"
proof -
  have "encode_record_payload blank_input (replicate 16 0) (replicate 32 0) (replicate 32 0) 0 = Some bs \<Longrightarrow> length bs < 2 ^ 63" for bs
    using blank_small encode_record_payload_eq [OF blank_wf(1)] by auto
  with record_round_trip [OF blank_wf blank_wf(3), of 0 0 80 "replicate 32 0"] show ?thesis by blast
qed

text \<open>Record payloads are injective: two records with the same bytes have the same fields, ids,
  session, key and link.\<close>

theorem record_encoding_injective:
  assumes "input_wf r" "length sid = 16" "length kid = 32" "length prev = 32"
    and "input_wf r'" "length sid' = 16" "length kid' = 32" "length prev' = 32"
    and "encode_record_payload r sid kid prev rid = Some bs"
    and "encode_record_payload r' sid' kid' prev' rid' = Some bs" "length bs < 2 ^ 63"
  shows "r = r' \<and> sid = sid' \<and> kid = kid' \<and> prev = prev' \<and> rid = rid'"
proof -
  have "rec_value r sid kid prev rid = rec_value r' sid' kid' prev' rid'"
    using decode_record_payload [OF assms(1-4,9,11)] decode_record_payload [OF assms(5-8,10,11)] by simp
  then have "rec_of r sid kid prev rid 0 0 [] [] = rec_of r' sid' kid' prev' rid' 0 0 [] []"
    using decode_record_map_rec_value [OF assms(1-4), of rid 0 0 "[]" "[]"]
      decode_record_map_rec_value [OF assms(5-8), of rid' 0 0 "[]" "[]"] by simp
  then show ?thesis by (simp add: rec_of_def)
qed

theorem record_encoding_injective_witness:
  "\<exists>bs. encode_record_payload blank_input (replicate 16 0) (replicate 32 0) (replicate 32 0) 0 = Some bs \<and>
     length bs < 2 ^ 63 \<and> blank_input = blank_input"
proof -
  note e = encode_record_payload_eq [OF blank_wf(1), of "replicate 16 0" "replicate 32 0" "replicate 32 0" 0]
  from record_encoding_injective [OF blank_wf blank_wf(3) blank_wf blank_wf(3) e e blank_small] e blank_small
  show ?thesis by blast
qed

section \<open>Headers and frames\<close>

text \<open>A header written is read back, whatever follows it; and a header that parses is, in its first
  72 bytes, the serialization of the result, with its checksum in the next four.\<close>

theorem header_exact:
  "(header_wf h \<and> hdr_version h = FORMAT_VERSION \<longrightarrow> header_parse crc (header_to_bytes crc h @ rest) = Ok h) \<and>
   (header_parse crc bs = Ok h \<longrightarrow> header_wf h \<and> hdr_version h = FORMAT_VERSION \<and>
      take 72 bs = take 72 (header_to_bytes crc h) \<and> u32_at bs 72 = crc (take 72 bs))"
proof
  show "header_wf h \<and> hdr_version h = FORMAT_VERSION \<longrightarrow> header_parse crc (header_to_bytes crc h @ rest) = Ok h"
    using header_parse_to_bytes by blast
  show "header_parse crc bs = Ok h \<longrightarrow> header_wf h \<and> hdr_version h = FORMAT_VERSION \<and>
      take 72 bs = take 72 (header_to_bytes crc h) \<and> u32_at bs 72 = crc (take 72 bs)"
  proof
    assume "header_parse crc bs = Ok h"
    note p = header_parse_Ok [OF this]
    have "take 72 (header_to_bytes crc h) = header_body h" using p(1) by (simp add: header_to_bytes_def)
    then show "header_wf h \<and> hdr_version h = FORMAT_VERSION \<and>
      take 72 bs = take 72 (header_to_bytes crc h) \<and> u32_at bs 72 = crc (take 72 bs)"
      using p by (simp add: slice_def)
  qed
qed

theorem header_exact_witness:
  "header_parse (\<lambda>b. of_nat (length b)) (header_to_bytes (\<lambda>b. of_nat (length b)) (header_genesis (replicate 32 3)) @ [1])
     = Ok (header_genesis (replicate 32 3))"
  using header_exact [of "header_genesis (replicate 32 3)" "\<lambda>b. of_nat (length b)" "[1]"]
  by (simp add: header_wf_genesis) (simp add: header_genesis_def)

text \<open>The bytes after a header determine the records: two lists of records with the same frames are
  the same list.\<close>

theorem frames_determine_records:
  assumes "list_all (rec_valid u32_max) rs" "list_all (rec_valid u32_max) ss"
    and "concat (map (\<lambda>r. frame_record (fst r) (snd r)) rs) = concat (map (\<lambda>r. frame_record (fst r) (snd r)) ss)"
  shows "rs = ss"
  using vread.frames_inject [OF assms(1,2)] assms(3) unfolding rec_frame_def [abs_def] by blast

theorem frames_determine_records_witness:
  "list_all (rec_valid u32_max) [([1], replicate 32 0)] \<and> [([1], replicate 32 0)] = [([1 :: u8], replicate 32 (0 :: u8))]"
proof -
  have v: "list_all (rec_valid u32_max) [([1], replicate 32 0)]" by (simp add: rec_valid_def u32_max_def)
  from frames_determine_records [OF v v refl] v show ?thesis by simp
qed

section \<open>Timestamps\<close>

text \<open>A timestamp in the writer's form \<^verbatim>\<open>YYYY-MM-DDTHH:MM:SS.mmmZ\<close> is read as the number of
  milliseconds since 1970 in the Gregorian calendar, counted day by day.\<close>

theorem timestamp_is_calendar_time:
  assumes "ts_valid y mo d h mi s ms"
  shows "parse_ts_ms (ts_text y mo d h mi s ms) = ts_ms y mo d h mi s ms"
  by (rule parse_ts_text [OF assms])

theorem timestamp_is_calendar_time_witness:
  "parse_ts_ms (ts_text 1970 1 2 0 0 0 5) = ts_ms 1970 1 2 0 0 0 5"
  by (rule timestamp_is_calendar_time) (simp add: ts_valid_def)

text \<open>Whatever 24 bytes a record claims as its timestamp, the 64-bit arithmetic of \<^verbatim>\<open>parse_ts_ms\<close> and
  the difference of two timestamps stay within range.\<close>

theorem timestamp_no_overflow:
  "\<bar>parse_ts_ms s\<bar> < 2 ^ 62 \<and> \<bar>parse_ts_ms s - parse_ts_ms s'\<bar> < 2 ^ 63"
  using parse_ts_ms_bound [of s] parse_ts_ms_bound [of s'] by (simp add: abs_less_iff)

text \<open>C29. The timestamp of a finalize record is one millisecond after the last record's, except in the
  last millisecond of a second, where it is the same.\<close>

theorem bump_is_one_millisecond:
  assumes "ts_valid y mo d h mi s ms"
  shows "\<exists>t. bump_ts_ms (ts_text y mo d h mi s ms) = Some t \<and>
    parse_ts_ms t = parse_ts_ms (ts_text y mo d h mi s ms) + (if ms < 999 then 1 else 0)"
proof -
  have "ts_valid y mo d h mi s (ms + 1)" if "ms < 999" using assms that by (simp add: ts_valid_def)
  then show ?thesis using bump_ts_text [OF assms] parse_ts_text [OF assms] parse_ts_text
    by (simp add: ts_ms_def)
qed

theorem bump_is_one_millisecond_witness:
  "\<exists>t. bump_ts_ms (ts_text 2026 5 13 20 6 43 456) = Some t \<and>
    parse_ts_ms t = parse_ts_ms (ts_text 2026 5 13 20 6 43 456) + 1"
  using bump_is_one_millisecond [of 2026 5 13 20 6 43 456] by (simp add: ts_valid_def)

end
