(* ===== verification/Policy.thy ===== *)
theory Policy
  imports Payload Text
begin

text \<open>
  Policy attestations (\<^verbatim>\<open>policy.rs\<close>): the reserved \<^verbatim>\<open>policy\<close> entry of a record's payload, how it
  is built and how it is read back. The digest parser slices a string at byte offsets and reads
  each pair with \<^verbatim>\<open>u8::from_str_radix\<close>; both of their surprises are part of the model (a slice
  inside a character panics, and a digit pair may start with \<^verbatim>\<open>+\<close>).
\<close>

definition POLICY_KEY :: bytes where "POLICY_KEY = ascii ''policy''"
definition POLICY_FORMAT :: bytes where "POLICY_FORMAT = ascii ''ogentic-audit-policy/v1''"
definition DIGEST_ALG :: bytes where "DIGEST_ALG = ascii ''sha256''"

datatype policy_decision = Permit | Deny

datatype policy_error =
    NotAMap
  | MissingField bytes
  | BadField bytes
  | UnknownFormat bytes
  | BadDecision bytes
  | BadDigest

primrec decision_as_str :: "policy_decision \<Rightarrow> bytes" where
  "decision_as_str Permit = ascii ''permit''"
| "decision_as_str Deny = ascii ''deny''"

definition decision_parse :: "bytes \<Rightarrow> (policy_decision, policy_error) result" where
  "decision_parse s =
     (if s = ascii ''permit'' then Ok Permit
      else if s = ascii ''deny'' then Ok Deny
      else Err (BadDecision s))"

record policy_attestation =
  pa_decision :: policy_decision
  pa_digest :: bytes
  pa_policy_id :: "bytes option"
  pa_deciding_rules :: "bytes list"

definition policy_new :: "policy_decision \<Rightarrow> bytes \<Rightarrow> policy_attestation" where
  "policy_new decision digest =
     \<lparr>pa_decision = decision, pa_digest = digest, pa_policy_id = None, pa_deciding_rules = []\<rparr>"

definition with_policy_id :: "bytes \<Rightarrow> policy_attestation \<Rightarrow> policy_attestation" where
  "with_policy_id i a = a\<lparr>pa_policy_id := Some i\<rparr>"

definition with_deciding_rules :: "bytes list \<Rightarrow> policy_attestation \<Rightarrow> policy_attestation" where
  "with_deciding_rules rs a = a\<lparr>pa_deciding_rules := rs\<rparr>"

definition digest_string :: "policy_attestation \<Rightarrow> bytes" where
  "digest_string a = DIGEST_ALG @ ascii '':'' @ hex (pa_digest a)"

definition to_payload_value :: "policy_attestation \<Rightarrow> payload_value" where
  "to_payload_value a =
     (let m0 = bt_insert (ascii ''format'') (PText POLICY_FORMAT) [];
          m1 = bt_insert (ascii ''decision'') (PText (decision_as_str (pa_decision a))) m0;
          m2 = bt_insert (ascii ''digest'') (PText (digest_string a)) m1;
          m3 = (case pa_policy_id a of None \<Rightarrow> m2
                | Some i \<Rightarrow> bt_insert (ascii ''policy_id'') (PText i) m2);
          m4 = (if pa_deciding_rules a \<noteq> []
                then bt_insert (ascii ''deciding_rules'') (PList (map PText (pa_deciding_rules a))) m3
                else m3)
      in PMap m4)"

definition attach :: "policy_attestation \<Rightarrow> (bytes, payload_value) btree \<Rightarrow> (bytes, payload_value) btree" where
  "attach a payload = bt_insert POLICY_KEY (to_payload_value a) payload"

text \<open>One iteration of the digit loop of \<^verbatim>\<open>parse_digest\<close>.\<close>

definition digest_byte :: "bytes \<Rightarrow> nat \<Rightarrow> (u8, policy_error) result" where
  "digest_byte h i =
     bind_res (or_panic (str_slice h (i * 2) (i * 2 + 2))) (\<lambda>pair.
     bind_res (ok_or BadDigest (parse_uint 16 255 pair)) (\<lambda>n. Ok (of_nat n)))"

definition parse_digest :: "bytes \<Rightarrow> (bytes, policy_error) result" where
  "parse_digest s =
     bind_res (ok_or BadDigest (strip_prefix (DIGEST_ALG @ ascii '':'') s)) (\<lambda>h.
       if length h \<noteq> 64 then Err BadDigest else map_res (digest_byte h) [0..<32])"

definition rule_text :: "payload_value \<Rightarrow> (bytes, policy_error) result" where
  "rule_text item = (case item of PText r \<Rightarrow> Ok r | _ \<Rightarrow> Err (BadField (ascii ''deciding_rules'')))"

definition from_payload ::
  "(bytes, payload_value) btree \<Rightarrow> (policy_attestation option, policy_error) result" where
  "from_payload payload =
     (case bt_get payload POLICY_KEY of
        None \<Rightarrow> Ok None
      | Some (PMap m) \<Rightarrow>
          bind_res
            (case bt_get m (ascii ''format'') of
               Some (PText f) \<Rightarrow> if f = POLICY_FORMAT then Ok () else Err (UnknownFormat f)
             | _ \<Rightarrow> Err (MissingField (ascii ''format''))) (\<lambda>_.
          bind_res
            (case bt_get m (ascii ''decision'') of
               Some (PText d) \<Rightarrow> decision_parse d
             | _ \<Rightarrow> Err (MissingField (ascii ''decision''))) (\<lambda>decision.
          bind_res
            (case bt_get m (ascii ''digest'') of
               Some (PText d) \<Rightarrow> parse_digest d
             | _ \<Rightarrow> Err (MissingField (ascii ''digest''))) (\<lambda>digest.
          bind_res
            (case bt_get m (ascii ''policy_id'') of
               None \<Rightarrow> Ok None
             | Some (PText i) \<Rightarrow> Ok (Some i)
             | Some _ \<Rightarrow> Err (BadField (ascii ''policy_id''))) (\<lambda>policy_id.
          bind_res
            (case bt_get m (ascii ''deciding_rules'') of
               None \<Rightarrow> Ok []
             | Some (PList items) \<Rightarrow> map_res rule_text items
             | Some _ \<Rightarrow> Err (BadField (ascii ''deciding_rules''))) (\<lambda>rules.
            Ok (Some \<lparr>pa_decision = decision, pa_digest = digest, pa_policy_id = policy_id,
                     pa_deciding_rules = rules\<rparr>))))))
      | Some _ \<Rightarrow> Err NotAMap)"

section \<open>Reading back what was attached\<close>

lemma slice_hex: "i < length d \<Longrightarrow> slice (hex d) (i * 2) 2 =
    [hex_digit (unat (d ! i) div 16), hex_digit (unat (d ! i) mod 16)]"
proof (induction d arbitrary: i)
  case (Cons b bs)
  show ?case
  proof (cases i)
    case (Suc j)
    with Cons have "slice (hex bs) (j * 2) 2 =
        [hex_digit (unat (bs ! j) div 16), hex_digit (unat (bs ! j) mod 16)]" by simp
    with Suc show ?thesis by (simp add: hex_Cons slice_def)
  qed (simp add: hex_Cons slice_def)
qed simp

lemma hex_ascii: "b \<in> set (hex d) \<Longrightarrow> b < 128"
  by (drule set_hex) (auto simp: word_less_nat_alt unat_hex_digit)

lemma str_slice_ascii:
  assumes "\<And>b. b \<in> set s \<Longrightarrow> b < 128" and "a \<le> b" "b \<le> length s"
  shows "str_slice s a b = Some (slice s a (b - a))"
proof -
  have "\<not> is_cont (s ! i)" if "i < length s" for i
    using assms(1) [OF nth_mem [OF that]] by (simp add: is_cont_def not_le)
  then have "is_char_boundary s i" if "i \<le> length s" for i
    using that by (cases "i = length s") (auto simp: is_char_boundary_def)
  then show ?thesis using assms by (simp add: str_slice_def)
qed

lemma hex_digit_no_plus: "d < 16 \<Longrightarrow> hex_digit d \<noteq> 43"
  using unat_hex_digit [of d] by (auto dest: arg_cong [of _ _ unat] split: if_splits)

lemma parse_hex_pair: "parse_uint 16 255 [hex_digit (unat (b :: u8) div 16), hex_digit (unat b mod 16)] = Some (unat b)"
proof -
  have lt: "unat b div 16 < 16" using unat_u8_less [of b] by linarith
  have le: "unat b \<le> 255" "unat b div 16 \<le> 255" using unat_u8_less [of b] by linarith+
  have sum: "unat b div 16 * 16 + unat b mod 16 = unat b" by simp
  show ?thesis using lt le
    by (simp add: parse_uint_def hex_digit_no_plus to_digit_hex_digit sum)
qed

lemma digest_byte_hex:
  assumes "i < length d"
  shows "digest_byte (hex d) i = Ok (d ! i)"
proof -
  have "i * 2 + 2 \<le> length (hex d)" using assms by simp
  then have "str_slice (hex d) (i * 2) (i * 2 + 2) = Some (slice (hex d) (i * 2) 2)"
    using str_slice_ascii [of "hex d" "i * 2" "i * 2 + 2"] hex_ascii by simp
  then show ?thesis using assms by (simp add: digest_byte_def slice_hex parse_hex_pair)
qed

lemma parse_digest_string:
  assumes "length (pa_digest a) = 32"
  shows "parse_digest (digest_string a) = Ok (pa_digest a)"
proof -
  have "map_res (digest_byte (hex (pa_digest a))) [0..<32] = Ok (map ((!) (pa_digest a)) [0..<32])"
    by (rule map_res_Ok) (use assms in \<open>simp add: digest_byte_hex\<close>)
  moreover have "map ((!) (pa_digest a)) [0..<32] = pa_digest a"
    using map_nth [of "pa_digest a"] assms by simp
  ultimately show ?thesis using assms
    by (simp add: parse_digest_def digest_string_def strip_prefix_Some [THEN iffD2])
qed

definition policy_entries :: "policy_attestation \<Rightarrow> bytes \<Rightarrow> payload_value option" where
  "policy_entries a =
     [ascii ''format'' \<mapsto> PText POLICY_FORMAT,
      ascii ''decision'' \<mapsto> PText (decision_as_str (pa_decision a)),
      ascii ''digest'' \<mapsto> PText (digest_string a)]
      ++ (case pa_policy_id a of None \<Rightarrow> Map.empty | Some i \<Rightarrow> [ascii ''policy_id'' \<mapsto> PText i])
      ++ (if pa_deciding_rules a = [] then Map.empty
          else [ascii ''deciding_rules'' \<mapsto> PList (map PText (pa_deciding_rules a))])"

lemma to_payload_value_entries:
  "\<exists>m. to_payload_value a = PMap m \<and> bt_wf m \<and> bt_get m = policy_entries a"
  unfolding to_payload_value_def Let_def policy_entries_def
  by (cases "pa_policy_id a") (simp_all add: bt_wf_insert bt_get_insert del: bt_insert.simps)

lemma map_res_rule_text: "map_res rule_text (map PText rs) = Ok rs"
  by (induction rs) (simp_all add: rule_text_def)

lemma decision_parse_as_str: "decision_parse (decision_as_str d) = Ok d"
  by (cases d) (simp_all add: decision_parse_def ascii_def)

lemma policy_entries_get:
  "policy_entries a (ascii ''format'') = Some (PText POLICY_FORMAT)"
  "policy_entries a (ascii ''decision'') = Some (PText (decision_as_str (pa_decision a)))"
  "policy_entries a (ascii ''digest'') = Some (PText (digest_string a))"
  "policy_entries a (ascii ''policy_id'') = map_option PText (pa_policy_id a)"
  "policy_entries a (ascii ''deciding_rules'') =
     (if pa_deciding_rules a = [] then None else Some (PList (map PText (pa_deciding_rules a))))"
  by (simp_all add: policy_entries_def ascii_def map_add_def split: option.split)

lemma from_payload_entry:
  assumes "bt_get payload POLICY_KEY = Some (to_payload_value a)" and "length (pa_digest a) = 32"
  shows "from_payload payload = Ok (Some a)"
proof -
  obtain m where m: "to_payload_value a = PMap m" "bt_get m = policy_entries a"
    using to_payload_value_entries by blast
  show ?thesis
    using assms m
    by (cases "pa_policy_id a")
      (simp_all add: from_payload_def policy_entries_get decision_parse_as_str parse_digest_string
        map_res_rule_text)
qed

section \<open>Properties\<close>

text \<open>A policy attestation attached to any payload is read back from it unchanged, and every
  other entry of the payload stays as it was.\<close>

theorem policy_round_trip:
  assumes "bt_wf payload" and "length (pa_digest a) = 32"
  shows "from_payload (attach a payload) = Ok (Some a) \<and> bt_wf (attach a payload) \<and>
    (\<forall>k. k \<noteq> POLICY_KEY \<longrightarrow> bt_get (attach a payload) k = bt_get payload k)"
proof -
  have get: "bt_get (attach a payload) = (bt_get payload)(POLICY_KEY \<mapsto> to_payload_value a)"
    using assms(1) unfolding attach_def by (rule bt_get_insert)
  have "from_payload (attach a payload) = Ok (Some a)"
    using assms(2) by (intro from_payload_entry) (simp_all add: get)
  then show ?thesis using assms(1) by (simp add: get) (simp add: attach_def bt_wf_insert)
qed

definition ex_attestation :: policy_attestation where
  "ex_attestation = with_deciding_rules [ascii ''rule.a'', ascii ''rule.b'']
     (with_policy_id (ascii ''pol-42'') (policy_new Permit (replicate 32 7)))"

theorem policy_round_trip_witness:
  "from_payload (attach ex_attestation [(ascii ''action'', PText (ascii ''file.write''))]) =
     Ok (Some ex_attestation) \<and>
   bt_get (attach ex_attestation [(ascii ''action'', PText (ascii ''file.write''))]) (ascii ''action'')
     = Some (PText (ascii ''file.write''))"
  using policy_round_trip [of "[(ascii ''action'', PText (ascii ''file.write''))]" ex_attestation]
  by (simp add: ex_attestation_def with_deciding_rules_def with_policy_id_def policy_new_def)
    (simp add: POLICY_KEY_def ascii_def)

lemma map_res_Panic_iff:
  "map_res f xs = Panic \<longleftrightarrow> (\<exists>i < length xs. (\<forall>j < i. f (xs ! j) \<in> range Ok) \<and> f (xs ! i) = Panic)"
proof (induction xs)
  case (Cons x xs)
  show ?case
    by (cases "f x") (auto simp: bind_res_Panic_iff Cons Ex_less_Suc2 All_less_Suc2)
qed simp

lemma digest_byte_Panic: "digest_byte h i = Panic \<longleftrightarrow> str_slice h (i * 2) (i * 2 + 2) = None"
  by (auto simp: digest_byte_def bind_res_Panic_iff ok_or_def or_panic_def split: option.splits)

text \<open>The digest texts that make \<^verbatim>\<open>parse_digest\<close> panic: 64 bytes after the prefix, and a pair of bytes
  that ends inside a character after pairs that all read as hex numbers.\<close>

definition panicking_digest :: "bytes \<Rightarrow> bool" where
  "panicking_digest s \<longleftrightarrow> (\<exists>h i. s = DIGEST_ALG @ ascii '':'' @ h \<and> length h = 64 \<and> i < 31 \<and>
     (\<forall>j < i. digest_byte h j \<in> range Ok) \<and> is_cont (h ! (2 * i + 2)))"

lemma str_slice_pair_None:
  assumes "length h = 64" "i < 32"
  shows "str_slice h (i * 2) (i * 2 + 2) = None \<longleftrightarrow>
    (0 < i \<and> is_cont (h ! (2 * i))) \<or> (i < 31 \<and> is_cont (h ! (2 * i + 2)))"
proof -
  have "i * 2 + 2 \<le> length h" using assms by simp
  then show ?thesis using assms by (auto simp: str_slice_def is_char_boundary_def mult.commute)
qed

lemma parse_digest_Panic: "parse_digest s = Panic \<longleftrightarrow> panicking_digest s"
proof -
  have step: "(\<exists>i < 32. (\<forall>j < i. digest_byte h j \<in> range Ok) \<and> digest_byte h i = Panic) \<longleftrightarrow>
      (\<exists>i < 31. (\<forall>j < i. digest_byte h j \<in> range Ok) \<and> is_cont (h ! (2 * i + 2)))" (is "?l \<longleftrightarrow> ?r") if l: "length h = 64" for h
  proof
    assume ?l
    then obtain i where i: "i < 32" "\<forall>j < i. digest_byte h j \<in> range Ok" "digest_byte h i = Panic" by blast
    have "\<not> (0 < i \<and> is_cont (h ! (2 * i)))"
    proof
      assume c: "0 < i \<and> is_cont (h ! (2 * i))"
      then obtain k where k: "i = Suc k" by (cases i) auto
      then have "digest_byte h k = Panic"
        using i(1) c str_slice_pair_None [OF l, of k] by (simp add: digest_byte_Panic)
      moreover have "digest_byte h k \<in> range Ok" using i(2) k by simp
      ultimately show False by auto
    qed
    then show ?r using i str_slice_pair_None [OF l i(1)] by (auto simp: digest_byte_Panic)
  next
    assume ?r
    then obtain i where i: "i < 31" "\<forall>j < i. digest_byte h j \<in> range Ok" "is_cont (h ! (2 * i + 2))" by blast
    then have "digest_byte h i = Panic" using str_slice_pair_None [OF l, of i] by (simp add: digest_byte_Panic)
    then show ?l using i(1,2) by (intro exI [of _ i]) simp
  qed
  have m: "map_res (digest_byte h) [0..<32] = Panic \<longleftrightarrow>
      (\<exists>i < 32. (\<forall>j < i. digest_byte h j \<in> range Ok) \<and> digest_byte h i = Panic)" for h
    by (simp add: map_res_Panic_iff del: upt_Suc) (auto simp del: upt_Suc)
  have strip: "strip_prefix (DIGEST_ALG @ ascii '':'') s = Some h \<longleftrightarrow> s = DIGEST_ALG @ ascii '':'' @ h" for h
    by (simp add: strip_prefix_Some)
  show ?thesis
  proof (cases "strip_prefix (DIGEST_ALG @ ascii '':'') s")
    case None
    then have "s \<noteq> DIGEST_ALG @ ascii '':'' @ h" for h by (auto simp: strip [symmetric])
    then show ?thesis using None by (auto simp: parse_digest_def panicking_digest_def)
  next
    case (Some h)
    then have "s = DIGEST_ALG @ ascii '':'' @ h' \<longleftrightarrow> h' = h" for h' by (auto simp: strip)
    then have "panicking_digest s \<longleftrightarrow> length h = 64 \<and>
        (\<exists>i < 31. (\<forall>j < i. digest_byte h j \<in> range Ok) \<and> is_cont (h ! (2 * i + 2)))"
      unfolding panicking_digest_def by blast
    moreover have "parse_digest s = Panic \<longleftrightarrow> length h = 64 \<and> map_res (digest_byte h) [0..<32] = Panic"
      by (simp add: parse_digest_def Some del: upt_Suc)
    ultimately show ?thesis using m step by blast
  qed
qed


text \<open>C30. Reading an attestation panics, instead of returning an error, exactly when the payload has a
  \<^verbatim>\<open>policy\<close> map with the right format and a known decision whose digest text has 64 bytes after its
  prefix and, after pairs that all read as hex numbers, a pair that ends inside a character: the pairs
  are sliced by byte offset. (After a pair that is no hex number the error comes first.)\<close>

theorem policy_digest_panics:
  "from_payload payload = Panic \<longleftrightarrow>
     (\<exists>m d s. bt_get payload POLICY_KEY = Some (PMap m) \<and> bt_get m (ascii ''format'') = Some (PText POLICY_FORMAT) \<and>
        bt_get m (ascii ''decision'') = Some (PText d) \<and> (d = ascii ''permit'' \<or> d = ascii ''deny'') \<and>
        bt_get m (ascii ''digest'') = Some (PText s) \<and> panicking_digest s)"
proof (cases "\<exists>m. bt_get payload POLICY_KEY = Some (PMap m)")
  case False
  then show ?thesis by (auto simp: from_payload_def split: option.splits payload_value.splits)
next
  case True
  then obtain m where p: "bt_get payload POLICY_KEY = Some (PMap m)" by blast
  define fmt where "fmt = (case bt_get m (ascii ''format'') of
      Some (PText f) \<Rightarrow> if f = POLICY_FORMAT then Ok () else Err (UnknownFormat f)
    | _ \<Rightarrow> Err (MissingField (ascii ''format'')))"
  define dec where "dec = (case bt_get m (ascii ''decision'') of
      Some (PText d) \<Rightarrow> decision_parse d | _ \<Rightarrow> Err (MissingField (ascii ''decision'')))"
  define dig where "dig = (case bt_get m (ascii ''digest'') of
      Some (PText d) \<Rightarrow> parse_digest d | _ \<Rightarrow> Err (MissingField (ascii ''digest'')))"
  obtain R where R: "from_payload payload = bind_res fmt (\<lambda>_. bind_res dec (\<lambda>decision. bind_res dig (R decision)))"
    "\<And>decision digest. R decision digest \<noteq> Panic"
  proof
    have rules: "map_res rule_text xs \<noteq> Panic" for xs
      by (auto simp: map_res_Panic_iff rule_text_def split: payload_value.splits)
    let ?R = "\<lambda>decision digest. bind_res
        (case bt_get m (ascii ''policy_id'') of
           None \<Rightarrow> Ok None | Some (PText i) \<Rightarrow> Ok (Some i) | Some _ \<Rightarrow> Err (BadField (ascii ''policy_id''))) (\<lambda>policy_id.
      bind_res
        (case bt_get m (ascii ''deciding_rules'') of
           None \<Rightarrow> Ok [] | Some (PList items) \<Rightarrow> map_res rule_text items
         | Some _ \<Rightarrow> Err (BadField (ascii ''deciding_rules''))) (\<lambda>rules.
        Ok (Some \<lparr>pa_decision = decision, pa_digest = digest, pa_policy_id = policy_id, pa_deciding_rules = rules\<rparr>)))"
    show "from_payload payload = bind_res fmt (\<lambda>_. bind_res dec (\<lambda>decision. bind_res dig (?R decision)))"
      by (simp only: from_payload_def p option.case payload_value.case fmt_def dec_def dig_def)
    show "?R decision digest \<noteq> Panic" for decision digest
      using rules by (auto simp: bind_res_Panic_iff split: option.splits payload_value.splits)
  qed
  have fmt: "fmt \<noteq> Panic" "fmt = Ok u \<longleftrightarrow> bt_get m (ascii ''format'') = Some (PText POLICY_FORMAT)" for u
    by (auto simp: fmt_def split: option.splits payload_value.splits if_splits)
  have dec: "dec \<noteq> Panic" "(\<exists>x. dec = Ok x) \<longleftrightarrow>
      (\<exists>d. bt_get m (ascii ''decision'') = Some (PText d) \<and> (d = ascii ''permit'' \<or> d = ascii ''deny''))"
    by (auto simp: dec_def decision_parse_def split: option.splits payload_value.splits)
  have dig: "dig = Panic \<longleftrightarrow> (\<exists>s. bt_get m (ascii ''digest'') = Some (PText s) \<and> panicking_digest s)"
    by (auto simp: dig_def parse_digest_Panic split: option.splits payload_value.splits)
  have "from_payload payload = Panic \<longleftrightarrow> fmt = Ok () \<and> (\<exists>x. dec = Ok x) \<and> dig = Panic"
    using fmt(1) dec(1) R by (auto simp: bind_res_Panic_iff)
  also have "\<dots> \<longleftrightarrow> (\<exists>d s. bt_get m (ascii ''format'') = Some (PText POLICY_FORMAT) \<and>
      bt_get m (ascii ''decision'') = Some (PText d) \<and> (d = ascii ''permit'' \<or> d = ascii ''deny'') \<and>
      bt_get m (ascii ''digest'') = Some (PText s) \<and> panicking_digest s)"
    unfolding fmt(2) dec(2) dig by blast
  finally show ?thesis using p by auto
qed

text \<open>A digest text of 64 bytes that is valid UTF-8: an \<^verbatim>\<open>a\<close>, 31 times U+00E9, an \<^verbatim>\<open>a\<close>.\<close>

definition ex_bad_digest :: bytes where
  "ex_bad_digest = 97 # concat (replicate 31 [0xC3, 0xA9]) @ [97]"

definition ex_bad_payload :: "(bytes, payload_value) btree" where
  "ex_bad_payload = [(POLICY_KEY, PMap [(ascii ''decision'', PText (ascii ''deny'')),
     (ascii ''digest'', PText (DIGEST_ALG @ ascii '':'' @ ex_bad_digest)), (ascii ''format'', PText POLICY_FORMAT)])]"

theorem policy_digest_panics_witness:
  "valid_utf8 ex_bad_digest \<and> from_payload ex_bad_payload = Panic"
proof -
  have v: "valid_utf8 (concat (replicate n [0xC3, 0xA9]) @ [97])" for n
    by (induction n) (simp_all add: is_cont_def)
  have "replicate 31 [0xC3, 0xA9 :: u8] = [0xC3, 0xA9] # replicate 30 [0xC3, 0xA9]"
    by (simp flip: replicate_Suc)
  then have "ex_bad_digest ! 2 = 0xA9" by (simp add: ex_bad_digest_def)
  then have "length ex_bad_digest = 64" "is_cont (ex_bad_digest ! 2)"
    by (simp_all add: ex_bad_digest_def length_concat sum_list_replicate is_cont_def)
  then have "panicking_digest (DIGEST_ALG @ ascii '':'' @ ex_bad_digest)"
    unfolding panicking_digest_def by (intro exI [of _ ex_bad_digest] exI [of _ 0]) (simp add: numeral_2_eq_2)
  then have "from_payload ex_bad_payload = Panic"
    unfolding policy_digest_panics by (simp add: ex_bad_payload_def) (simp add: ascii_def)
  then show ?thesis using v [of 31] by (simp add: ex_bad_digest_def)
qed

end
