(* ===== verification/Signed_Base.thy ===== *)
theory Signed_Base
  imports Timestamps
begin

text \<open>
  The shared vocabulary of the signed mode (\<^verbatim>\<open>signed/mod.rs\<close>): namespaces and hash tags, tagged
  hashes, hex, and the conversion between milliseconds and RFC 3339 text in both directions.
  SHA-256 is the parameter \<open>sha\<close> of the definitions that use it. The 64-bit arithmetic of the two
  time conversions is that of \<open>int\<close>: on the values they are called with it stays far inside \<^verbatim>\<open>i64\<close>.
\<close>

definition FORMAT_VERSION_SIGNED :: u16 where "FORMAT_VERSION_SIGNED = 0x0002"

definition NS_RECORD :: bytes where "NS_RECORD = ascii ''ogentic-audit/v0.2/record''"
definition NS_CHECKPOINT :: bytes where "NS_CHECKPOINT = ascii ''ogentic-audit/v0.2/checkpoint''"
definition NS_WITNESS :: bytes where "NS_WITNESS = ascii ''ogentic-audit/v0.2/witness''"
definition NS_RELEASE :: bytes where "NS_RELEASE = ascii ''ogentic-audit/v0.2/release''"
definition NS_TRANSITION :: bytes where "NS_TRANSITION = ascii ''ogentic-audit/v0.2/key-transition''"
definition NS_TRANSITION_ACCEPT :: bytes where
  "NS_TRANSITION_ACCEPT = ascii ''ogentic-audit/v0.2/key-transition-accept''"
definition NS_REVOCATION :: bytes where "NS_REVOCATION = ascii ''ogentic-audit/v0.2/key-revocation''"

definition ALL_NAMESPACES :: "bytes list" where
  "ALL_NAMESPACES = [NS_RECORD, NS_CHECKPOINT, NS_WITNESS, NS_RELEASE, NS_TRANSITION,
     NS_TRANSITION_ACCEPT, NS_REVOCATION]"

lemmas namespace_defs = NS_RECORD_def NS_CHECKPOINT_def NS_WITNESS_def NS_RELEASE_def
  NS_TRANSITION_def NS_TRANSITION_ACCEPT_def NS_REVOCATION_def

definition TAG_HEADER :: bytes where "TAG_HEADER = ascii ''ogentic-audit/v0.2/header''"
definition TAG_RECORD :: bytes where "TAG_RECORD = ascii ''ogentic-audit/v0.2/record''"
definition TAG_BODY :: bytes where "TAG_BODY = ascii ''ogentic-audit/v0.2/body''"
definition TAG_COMMIT :: bytes where "TAG_COMMIT = ascii ''ogentic-audit/v0.2/commit''"

definition th :: "(bytes \<Rightarrow> bytes) \<Rightarrow> bytes \<Rightarrow> bytes \<Rightarrow> bytes" where
  "th sha tag data = sha (tag @ [0] @ data)"

definition commitment :: "(bytes \<Rightarrow> bytes) \<Rightarrow> bytes \<Rightarrow> bytes \<Rightarrow> bytes" where
  "commitment sha nonce content = sha (TAG_COMMIT @ [0] @ nonce @ content)"

section \<open>Hex\<close>

fun unhex_chunks :: "bytes \<Rightarrow> bytes option" where
  "unhex_chunks (a # b # r) =
     (case to_digit 16 a of None \<Rightarrow> None
      | Some hi \<Rightarrow>
          (case to_digit 16 b of None \<Rightarrow> None
           | Some lo \<Rightarrow> map_option (Cons (of_nat (hi * 16 + lo))) (unhex_chunks r)))"
| "unhex_chunks _ = Some []"

definition unhex :: "nat \<Rightarrow> bytes \<Rightarrow> bytes option" where
  "unhex n s =
     (if length s \<noteq> n * 2 \<or> \<not> list_all (\<lambda>b. b < 128) s then None else unhex_chunks s)"

definition is_ascii_uppercase :: "u8 \<Rightarrow> bool" where
  "is_ascii_uppercase b \<longleftrightarrow> 65 \<le> b \<and> b \<le> 90"

definition unhex_lower :: "nat \<Rightarrow> bytes \<Rightarrow> bytes option" where
  "unhex_lower n s = (if list_ex is_ascii_uppercase s then None else unhex n s)"

section \<open>Milliseconds as RFC 3339 text\<close>

text \<open>\<^verbatim>\<open>format!("{n:0w$}")\<close> of a signed integer: the sign counts towards the width.\<close>

definition fmt_int :: "nat \<Rightarrow> int \<Rightarrow> bytes" where
  "fmt_int w n = (if n < 0 then 45 # pad_dec (w - 1) (nat (- n)) else pad_dec w (nat n))"

text \<open>\<^verbatim>\<open>div_euclid\<close> and \<^verbatim>\<open>rem_euclid\<close> by a positive divisor are \<open>div\<close> and \<open>mod\<close>; the plain
  divisions are of values that are not negative, where they agree with \<open>div\<close> too.\<close>

definition civil_from_days :: "int \<Rightarrow> int \<times> int \<times> int" where
  "civil_from_days days =
     (let z = days + 719468;
          era = z div 146097;
          doe = z mod 146097;
          yoe = (doe - doe div 1460 + doe div 36524 - doe div 146096) div 365;
          y = yoe + era * 400;
          doy = doe - (365 * yoe + yoe div 4 - yoe div 100);
          mp = (5 * doy + 2) div 153;
          d = doy - (153 * mp + 2) div 5 + 1;
          m = (if mp < 10 then mp + 3 else mp - 9)
      in (if m \<le> 2 then y + 1 else y, m, d))"

definition rfc3339_from_millis :: "int \<Rightarrow> bytes" where
  "rfc3339_from_millis ms =
     (let days = ms div 86400000;
          rem = ms mod 86400000;
          (y, m, d) = civil_from_days days
      in fmt_int 4 y @ [45] @ fmt_int 2 m @ [45] @ fmt_int 2 d @ [84]
         @ fmt_int 2 (rem div 3600000) @ [58] @ fmt_int 2 (rem div 60000 mod 60) @ [58]
         @ fmt_int 2 (rem div 1000 mod 60) @ [46] @ fmt_int 3 (rem mod 1000) @ [90])"

definition is_ascii_digit :: "u8 \<Rightarrow> bool" where
  "is_ascii_digit c \<longleftrightarrow> 48 \<le> c \<and> c \<le> 57"

text \<open>The closure \<^verbatim>\<open>num\<close>. Its string slices never panic: see \<open>rfc3339_slices\<close>.\<close>

definition rfc3339_num :: "bytes \<Rightarrow> nat \<Rightarrow> nat \<Rightarrow> int option" where
  "rfc3339_num s from len =
     (let part = slice s from len
      in if list_all is_ascii_digit part then parse_i64 part else None)"

definition rfc3339_shape :: "bytes \<Rightarrow> bool" where
  "rfc3339_shape b \<longleftrightarrow> length b = 24 \<and> b ! 4 = 45 \<and> b ! 7 = 45 \<and> b ! 10 = 84 \<and> b ! 13 = 58 \<and>
     b ! 16 = 58 \<and> b ! 19 = 46 \<and> b ! 23 = 90"

definition days_before_civil :: "int \<Rightarrow> int \<Rightarrow> int \<Rightarrow> int" where
  "days_before_civil year month day =
     (let y = (if month \<le> 2 then year - 1 else year);
          era = y div 400;
          yoe = y - era * 400;
          mp = (if 2 < month then month - 3 else month + 9);
          doy = (153 * mp + 2) div 5 + day - 1;
          doe = yoe * 365 + yoe div 4 - yoe div 100 + doy
      in era * 146097 + doe - 719468)"

definition parse_rfc3339_millis :: "bytes \<Rightarrow> int option" where
  "parse_rfc3339_millis s =
     (if \<not> rfc3339_shape s then None
      else case rfc3339_num s 0 4 of None \<Rightarrow> None | Some year \<Rightarrow>
        (case rfc3339_num s 5 2 of None \<Rightarrow> None | Some month \<Rightarrow>
        (case rfc3339_num s 8 2 of None \<Rightarrow> None | Some day \<Rightarrow>
        (case rfc3339_num s 11 2 of None \<Rightarrow> None | Some hour \<Rightarrow>
        (case rfc3339_num s 14 2 of None \<Rightarrow> None | Some minute \<Rightarrow>
        (case rfc3339_num s 17 2 of None \<Rightarrow> None | Some second \<Rightarrow>
        (case rfc3339_num s 20 3 of None \<Rightarrow> None | Some ms \<Rightarrow>
          if \<not> (1 \<le> month \<and> month \<le> 12) \<or> \<not> (1 \<le> day \<and> day \<le> 31) \<or> 23 < hour \<or> 59 < minute
             \<or> 60 < second
          then None
          else Some (days_before_civil year month day * 86400000 + hour * 3600000
                 + minute * 60000 + second * 1000 + ms))))))))"

section \<open>The slices of the time parser are at character boundaries\<close>

lemma utf8_first: "valid_utf8 (b # r) \<Longrightarrow> \<not> is_cont b"
proof
  assume v: "valid_utf8 (b # r)" and "is_cont b"
  then have "\<not> b < 0x80" and lt: "b < 192" by (auto simp: is_cont_def)
  moreover have "\<not> n \<le> b" if "192 \<le> n" for n using lt that by (meson less_le_trans not_le)
  then have "\<not> 0xC2 \<le> b" "\<not> 0xE0 \<le> b" "\<not> 0xF0 \<le> b" by simp_all
  ultimately show False using v by simp
qed

text \<open>A string starts with an ASCII byte, or with a byte of a longer character followed by one to
  three continuation bytes.\<close>

lemma utf8_cases:
  assumes "valid_utf8 (b # r)"
  obtains "b < 128" "valid_utf8 r"
  | cs r' where "\<not> b < 128" "r = cs @ r'" "\<forall>c \<in> set cs. is_cont c" "valid_utf8 r'"
proof (cases "b < 128")
  case False
  have "\<exists>cs r'. r = cs @ r' \<and> (\<forall>c \<in> set cs. is_cont c) \<and> valid_utf8 r'"
  proof (cases "0xC2 \<le> b \<and> b \<le> 0xDF")
    case True
    with False assms obtain c r' where "r = [c] @ r'" "is_cont c" "valid_utf8 r'"
      by (auto split: list.splits)
    then show ?thesis by (metis empty_iff empty_set set_ConsD)
  next
    case n2: False
    show ?thesis
    proof (cases "0xE0 \<le> b \<and> b \<le> 0xEF")
      case True
      with False n2 assms obtain c d r' where "r = [c, d] @ r'" "is_cont c" "is_cont d" "valid_utf8 r'"
        by (simp only: valid_utf8.simps if_False if_True) (auto split: list.splits)
      then show ?thesis by (metis empty_iff empty_set set_ConsD)
    next
      case n3: False
      with False n2 assms obtain c d e r' where "r = [c, d, e] @ r'" "is_cont c" "is_cont d" "is_cont e"
          "valid_utf8 r'"
        by (simp only: valid_utf8.simps if_False split: if_splits) (auto split: list.splits)
      then show ?thesis by (metis empty_iff empty_set set_ConsD)
    qed
  qed
  with False that(2) show thesis by blast
qed (use assms that in simp)

lemma utf8_after_ascii:
  "valid_utf8 s \<Longrightarrow> i < length s \<Longrightarrow> s ! i < 128 \<Longrightarrow> valid_utf8 (drop i s)"
proof (induction "length s" arbitrary: s i rule: less_induct)
  case less
  obtain b r where s: "s = b # r" using less.prems by (cases s) auto
  show ?case
  proof (cases i)
    case (Suc j)
    have v: "valid_utf8 (b # r)" using less.prems s by simp
    show ?thesis
    proof (rule utf8_cases [OF v])
      assume "valid_utf8 r"
      then show ?thesis using less.hyps [of r j] less.prems s Suc by simp
    next
      fix cs r' assume r: "r = cs @ r'" "\<forall>c \<in> set cs. is_cont c" "valid_utf8 r'"
      have "\<not> j < length cs"
      proof
        assume j: "j < length cs"
        then have "is_cont (cs ! j)" using r(2) by simp
        then show False using less.prems j by (auto simp: s Suc r(1) nth_append is_cont_def)
      qed
      then have "s ! i = r' ! (j - length cs)" "drop i s = drop (j - length cs) r'" "j - length cs < length r'"
        using less.prems by (auto simp: s Suc r(1) nth_append)
      then show ?thesis using less.hyps [of r' "j - length cs"] less.prems r s by simp
    qed
  qed (use less.prems in simp)
qed

lemma utf8_boundary:
  assumes "valid_utf8 s" "i < length s" "s ! i < 128"
  shows "is_char_boundary s i" "is_char_boundary s (Suc i)"
proof -
  show "is_char_boundary s i" using assms(2,3) by (auto simp: is_char_boundary_def is_cont_def)
  have v: "valid_utf8 (s ! i # drop (Suc i) s)"
    using utf8_after_ascii [OF assms] assms(2) by (simp add: Cons_nth_drop_Suc)
  show "is_char_boundary s (Suc i)"
  proof (cases "drop (Suc i) s")
    case (Cons c r)
    then have "valid_utf8 (c # r)" using v assms(3) by simp
    then have "\<not> is_cont c" by (rule utf8_first)
    then show ?thesis using nth_at [OF Cons] by (simp add: is_char_boundary_def)
  qed (use assms(2) in \<open>simp add: is_char_boundary_def\<close>)
qed

lemma rfc3339_slices:
  assumes "valid_utf8 s" "rfc3339_shape s"
    and "(from, len) \<in> {(0, 4), (5, 2), (8, 2), (11, 2), (14, 2), (17, 2), (20, 3)}"
  shows "str_slice s from (from + len) = Some (slice s from len)"
proof -
  have len: "length s = 24" and sep: "s ! 4 < 128" "s ! 7 < 128" "s ! 10 < 128" "s ! 13 < 128"
    "s ! 16 < 128" "s ! 19 < 128" "s ! 23 < 128"
    using assms(2) by (simp_all add: rfc3339_shape_def)
  have b: "is_char_boundary s i" "is_char_boundary s (Suc i)"
    if "s ! i < 128" "i < 24" for i
    using utf8_boundary [OF assms(1) _ that(1)] that(2) len by simp_all
  note bs = b [OF sep(1), simplified] b [OF sep(2), simplified] b [OF sep(3), simplified]
    b [OF sep(4), simplified] b [OF sep(5), simplified] b [OF sep(6), simplified]
    b [OF sep(7), simplified]
  have "is_char_boundary s 0" by (simp add: is_char_boundary_def)
  then show ?thesis using assms(3) bs len by (auto simp: str_slice_def)
qed

section \<open>Days to a date and back\<close>

text \<open>The position of a day in the 400-year cycle that starts in March: \<open>c\<close> centuries, \<open>q\<close> four-year
  groups, \<open>t\<close> years and \<open>u\<close> days, where only the last day of a group or of the cycle has \<open>u = 365\<close>.\<close>

lemma cycle_split:
  fixes doe :: int
  assumes "0 \<le> doe" "doe < 146097"
  obtains c q t u where "doe = 36524 * c + 1461 * q + 365 * t + u"
    "0 \<le> c" "c \<le> 3" "0 \<le> q" "q \<le> 24" "0 \<le> t" "t \<le> 3" "0 \<le> u" "u \<le> 365"
    "u = 365 \<longrightarrow> t = 3 \<and> (q = 24 \<longrightarrow> c = 3)"
proof (cases "doe = 146096")
  case True
  then show thesis using that [of 3 24 3 365] by simp
next
  case False
  define c where "c = doe div 36524"
  define r where "r = doe mod 36524"
  define q where "q = r div 1461"
  define s where "s = r mod 1461"
  have c: "0 \<le> c" "c \<le> 3" and r: "0 \<le> r" "r < 36524" and doe: "doe = 36524 * c + r"
    using assms False by (simp_all add: c_def r_def)
  have q: "0 \<le> q" "q \<le> 24" and s: "0 \<le> s" "s < 1461" and rs: "r = 1461 * q + s"
    using r by (simp_all add: q_def s_def)
  show thesis
  proof (cases "s = 1460")
    case True
    then show thesis using that [of c q 3 365] c q r rs doe by simp
  next
    case n: False
    have "0 \<le> s div 365" "s div 365 \<le> 3" "0 \<le> s mod 365" "s mod 365 < 365" "s = 365 * (s div 365) + s mod 365"
      using s n by simp_all
    then show thesis using that [of c q "s div 365" "s mod 365"] c q rs doe by simp
  qed
qed

lemma div_unique_int: "(k :: int) * q \<le> n \<Longrightarrow> n < k * q + k \<Longrightarrow> n div k = q"
  by (rule int_div_pos_eq [of n k q "n - k * q"]) auto

text \<open>The code's formula for the year of the cycle finds \<open>100 c + 4 q + t\<close>.\<close>

lemma year_of_cycle:
  fixes c q t u :: int
  assumes doe: "doe = 36524 * c + 1461 * q + 365 * t + u"
    and b: "0 \<le> c" "c \<le> 3" "0 \<le> q" "q \<le> 24" "0 \<le> t" "t \<le> 3" "0 \<le> u" "u \<le> 365"
    and last: "u = 365 \<longrightarrow> t = 3 \<and> (q = 24 \<longrightarrow> c = 3)"
  defines "yoe \<equiv> 100 * c + 4 * q + t"
  shows "(doe - doe div 1460 + doe div 36524 - doe div 146096) div 365 = yoe"
    and "365 * yoe + yoe div 4 - yoe div 100 = doe - u"
proof -
  define w where "w = 24 * c + q + 365 * t + u"
  have w: "0 \<le> w" "w < 2920" using b by (simp_all add: w_def)
  have doe': "doe = 1460 * (25 * c + q) + w" by (simp add: doe w_def)
  have d1: "doe div 1460 = 25 * c + q + (if 1460 \<le> w then 1 else 0)"
    using w by (intro div_unique_int) (auto simp: doe')
  show "(doe - doe div 1460 + doe div 36524 - doe div 146096) div 365 = yoe"
  proof (cases "doe = 146096")
    case True
    then show ?thesis using doe b by (simp add: yoe_def)
  next
    case False
    have lt: "1461 * q + 365 * t + u < 36524"
    proof (rule ccontr)
      assume "\<not> ?thesis"
      then have "q = 24" "t = 3" "u = 365" using b by linarith+
      then show False using last doe False by simp
    qed
    have d2: "doe div 36524 = c" using b lt by (intro div_unique_int) (simp_all add: doe)
    have d3: "doe div 146096 = 0" using b lt by (intro div_unique_int) (simp_all add: doe)
    have sum: "doe - doe div 1460 + doe div 36524 - doe div 146096
        = 365 * yoe + (u - (if 1460 \<le> w then 1 else 0))"
      unfolding d1 d2 d3 by (simp add: doe yoe_def)
    have "1460 \<le> w \<Longrightarrow> 0 < u" using b by (simp add: w_def)
    moreover have "u = 365 \<Longrightarrow> 1460 \<le> w" using last b by (simp add: w_def)
    ultimately have "0 \<le> u - (if 1460 \<le> w then 1 else 0)" "u - (if 1460 \<le> w then 1 else 0) < 365"
      using b by (auto simp: less_le)
    then show ?thesis unfolding sum by (intro div_unique_int) simp_all
  qed
  have "yoe div 4 = 25 * c + q" "yoe div 100 = c"
    using b by (auto intro!: div_unique_int simp: yoe_def)
  then show "365 * yoe + yoe div 4 - yoe div 100 = doe - u" by (simp add: yoe_def doe)
qed

lemma month_and_day:
  fixes u :: int
  assumes "0 \<le> u" "u \<le> 365"
  defines "mp \<equiv> (5 * u + 2) div 153"
  shows "0 \<le> mp" "mp \<le> 11" "0 \<le> u - (153 * mp + 2) div 5" "u - (153 * mp + 2) div 5 \<le> 30"
proof -
  show "0 \<le> mp" "mp \<le> 11" using assms(1,2) by (simp_all add: mp_def)
  have m: "153 * mp \<le> 5 * u + 2" "5 * u + 2 < 153 * mp + 153"
    using assms(1) by (simp_all add: mp_def)
  have k: "5 * ((153 * mp + 2) div 5) \<le> 153 * mp + 2" "153 * mp + 2 < 5 * ((153 * mp + 2) div 5) + 5"
    by linarith+
  show "0 \<le> u - (153 * mp + 2) div 5" "u - (153 * mp + 2) div 5 \<le> 30" using m k by linarith+
qed

text \<open>The date of a day: \<open>era\<close> cycles, \<open>yoe\<close> years and \<open>u\<close> days, all from the first of March.\<close>

lemma civil_from_days_parts:
  assumes "civil_from_days days = (y, m, d)"
  obtains era yoe u mp where
    "days + 719468 = era * 146097 + (365 * yoe + yoe div 4 - yoe div 100) + u"
    "0 \<le> yoe" "yoe \<le> 399" "0 \<le> u" "u \<le> 365" "mp = (5 * u + 2) div 153"
    "m = (if mp < 10 then mp + 3 else mp - 9)" "d = u - (153 * mp + 2) div 5 + 1"
    "y = (if m \<le> 2 then yoe + era * 400 + 1 else yoe + era * 400)"
proof -
  define z where "z = days + 719468"
  define era where "era = z div 146097"
  define doe where "doe = z mod 146097"
  have z: "z = era * 146097 + doe" and doe: "0 \<le> doe" "doe < 146097" by (simp_all add: era_def doe_def)
  obtain c q t u where split: "doe = 36524 * c + 1461 * q + 365 * t + u"
    "0 \<le> c" "c \<le> 3" "0 \<le> q" "q \<le> 24" "0 \<le> t" "t \<le> 3" "0 \<le> u" "u \<le> 365"
    "u = 365 \<longrightarrow> t = 3 \<and> (q = 24 \<longrightarrow> c = 3)"
    by (rule cycle_split [OF doe])
  define yoe where "yoe = 100 * c + 4 * q + t"
  note yc = year_of_cycle [OF split, folded yoe_def]
  define mp where "mp = (5 * u + 2) div 153"
  define m' where "m' = (if mp < 10 then mp + 3 else mp - 9)"
  have doy: "doe - (365 * yoe + yoe div 4 - yoe div 100) = u" using yc(2) by simp
  have "civil_from_days days =
      (if m' \<le> 2 then yoe + era * 400 + 1 else yoe + era * 400, m', u - (153 * mp + 2) div 5 + 1)"
    unfolding civil_from_days_def Let_def z_def [symmetric] era_def [symmetric] doe_def [symmetric]
      yc(1) doy mp_def [symmetric] m'_def [symmetric] ..
  then have out: "m = m'" "d = u - (153 * mp + 2) div 5 + 1"
    "y = (if m \<le> 2 then yoe + era * 400 + 1 else yoe + era * 400)"
    using assms by auto
  have "days + 719468 = era * 146097 + (365 * yoe + yoe div 4 - yoe div 100) + u"
    unfolding yc(2) using z by (simp add: z_def)
  moreover have "0 \<le> yoe" "yoe \<le> 399" using split(2-7) by (simp_all add: yoe_def)
  ultimately show thesis
    by (rule that [OF _ _ _ split(8,9) mp_def out(1) [unfolded m'_def] out(2,3)])
qed

lemma civil_from_days_inverse:
  assumes "civil_from_days days = (y, m, d)"
  shows "days_before_civil y m d = days" "1 \<le> m" "m \<le> 12" "1 \<le> d" "d \<le> 31"
proof -
  obtain era yoe u mp where parts:
    "days + 719468 = era * 146097 + (365 * yoe + yoe div 4 - yoe div 100) + u"
    "0 \<le> yoe" "yoe \<le> 399" "0 \<le> u" "u \<le> 365" "mp = (5 * u + 2) div 153"
    "m = (if mp < 10 then mp + 3 else mp - 9)" "d = u - (153 * mp + 2) div 5 + 1"
    "y = (if m \<le> 2 then yoe + era * 400 + 1 else yoe + era * 400)"
    by (rule civil_from_days_parts [OF assms])
  note md = month_and_day [OF parts(4,5), folded parts(6)]
  show "1 \<le> m" "m \<le> 12" "1 \<le> d" "d \<le> 31" using md parts(7,8) by auto
  have y': "(if m \<le> 2 then y - 1 else y) = yoe + era * 400" using parts(9) by simp
  have mp': "(if 2 < m then m - 3 else m + 9) = mp" using parts(7) md by auto
  have "(yoe + era * 400) div 400 = era" using parts(2,3) by (intro div_unique_int) simp_all
  then show "days_before_civil y m d = days"
    unfolding days_before_civil_def Let_def y' mp' using parts(1,8) by simp
qed

text \<open>Years 1 to 9999.\<close>

lemma civil_from_days_year:
  assumes "civil_from_days days = (y, m, d)" and "- 719162 \<le> days" "days \<le> 2932896"
  shows "1 \<le> y" "y \<le> 9999"
proof -
  obtain era yoe u mp where parts:
    "days + 719468 = era * 146097 + (365 * yoe + yoe div 4 - yoe div 100) + u"
    "0 \<le> yoe" "yoe \<le> 399" "0 \<le> u" "u \<le> 365" "mp = (5 * u + 2) div 153"
    "m = (if mp < 10 then mp + 3 else mp - 9)" "d = u - (153 * mp + 2) div 5 + 1"
    "y = (if m \<le> 2 then yoe + era * 400 + 1 else yoe + era * 400)"
    by (rule civil_from_days_parts [OF assms(1)])
  have mp: "0 \<le> mp" "mp \<le> 11" using month_and_day(1,2) [OF parts(4,5)] parts(6) by simp_all
  have m2: "m \<le> 2 \<longleftrightarrow> 306 \<le> u" using mp parts(6,7) by auto
  define F where "F = 365 * yoe + yoe div 4 - yoe div 100"
  have a: "yoe div 4 \<le> 99" "yoe div 100 \<le> yoe div 4"
    using parts(2,3) by (linarith, simp add: zdiv_mono2)
  have ab: "yoe div 4 - yoe div 100 \<le> 96"
  proof (cases "yoe div 100 \<le> 2")
    case True
    then have "yoe < 300" by linarith
    then have "yoe div 4 \<le> 74" by linarith
    moreover have "0 \<le> yoe div 100" using parts(2) by (simp add: pos_imp_zdiv_nonneg_iff)
    ultimately show ?thesis by linarith
  qed (use a in linarith)
  have F: "365 * yoe \<le> F" "F \<le> 365 * yoe + 96" using a ab unfolding F_def by linarith+
  have F399: "yoe = 399 \<Longrightarrow> F = 145731" by (simp add: F_def)
  note day = parts(1) [folded F_def]
  have era: "0 \<le> era" "era \<le> 24" using day parts(2-5) assms(2,3) F by linarith+
  have low: "306 \<le> u" if "era = 0" "yoe = 0" using that day assms(2) by (simp add: F_def)
  have high: "\<not> 306 \<le> u" if "era = 24" "yoe = 399"
    using that day assms(3) F399 by simp
  have y: "y = yoe + era * 400 + (if 306 \<le> u then 1 else 0)" using parts(9) m2 by simp
  show "1 \<le> y"
  proof (cases "era = 0 \<and> yoe = 0")
    case False
    then have "1 \<le> yoe + era * 400" using era parts(2) by auto
    then show ?thesis using y by simp
  qed (use low y in simp)
  show "y \<le> 9999"
  proof (cases "era = 24 \<and> yoe = 399")
    case False
    then have "yoe + era * 400 \<le> 9998" using era parts(3) by auto
    then show ?thesis using y by simp
  qed (use high y in simp)
qed

section \<open>The round trip\<close>

lemma digits_pad_dec: "list_all is_ascii_digit (pad_dec w n)"
  unfolding list_all_iff
proof
  fix c assume "c \<in> set (pad_dec w n)"
  then obtain d where "d < 10" "c = digit_char d" using set_pad_dec by blast
  then show "is_ascii_digit c"
    by (simp add: is_ascii_digit_def word_le_nat_alt unat_digit_char)
qed

lemma rfc3339_num_pad_dec: "slice s i k = pad_dec w n \<Longrightarrow> n < 10000 \<Longrightarrow> rfc3339_num s i k = Some (int n)"
  by (simp add: rfc3339_num_def digits_pad_dec parse_i64_pad_dec)

lemma ts_text_shape:
  assumes "ts_valid y mo d h mi s ms"
  shows "rfc3339_shape (ts_text y mo d h mi s ms)"
  using assms unfolding ts_valid_def rfc3339_shape_def ts_text_def
  by (simp add: length_pad_dec nth_append)

lemma parse_rfc3339_ts_text:
  assumes v: "ts_valid y mo d h mi s ms" and "h \<le> 23" "mi \<le> 59" "s \<le> 60"
  shows "parse_rfc3339_millis (ts_text y mo d h mi s ms) =
    Some (days_before_civil (int y) (int mo) (int d) * 86400000 + int h * 3600000 + int mi * 60000
      + int s * 1000 + int ms)"
proof -
  note sl = ts_text_slices [OF v]
  have "y < 10000" "mo < 10000" "d < 10000" "h < 10000" "mi < 10000" "s < 10000" "ms < 10000"
    using v by (simp_all add: ts_valid_def)
  note f = this [THEN rfc3339_num_pad_dec [rotated]]
  show ?thesis using assms ts_text_shape [OF v]
    by (simp add: parse_rfc3339_millis_def f(1) [OF sl(1)] f(2) [OF sl(2)] f(3) [OF sl(3)]
        f(4) [OF sl(4)] f(5) [OF sl(5)] f(6) [OF sl(6)] f(7) [OF sl(7)] ts_valid_def)
qed

lemma rfc3339_round_trip_range:
  assumes "- 62135596800000 \<le> ms" "ms < 253402300800000"
  shows "\<exists>y mo d h mi s k. ts_valid y mo d h mi s k \<and> h \<le> 23 \<and> mi \<le> 59 \<and> s \<le> 59 \<and>
    rfc3339_from_millis ms = ts_text y mo d h mi s k \<and>
    parse_rfc3339_millis (rfc3339_from_millis ms) = Some ms"
proof -
  define days rem where "days = ms div 86400000" and "rem = ms mod 86400000"
  have ms: "ms = days * 86400000 + rem" and rem: "0 \<le> rem" "rem < 86400000"
    by (simp_all add: days_def rem_def)
  have days: "- 719162 \<le> days" "days \<le> 2932896" using assms ms rem by linarith+
  obtain y m d where c: "civil_from_days days = (y, m, d)" by (cases "civil_from_days days")
  note inv = civil_from_days_inverse [OF c] and yr = civil_from_days_year [OF c days]
  define h mi s k where "h = rem div 3600000" and "mi = rem div 60000 mod 60"
    and "s = rem div 1000 mod 60" and "k = rem mod 1000"
  have hms: "rem = h * 3600000 + mi * 60000 + s * 1000 + k"
  proof -
    have "rem div 60000 = rem div 1000 div 60" "rem div 3600000 = rem div 60000 div 60"
      using zdiv_zmult2_eq [of 60 rem 1000] zdiv_zmult2_eq [of 60 rem 60000] by simp_all
    moreover have "rem = 1000 * (rem div 1000) + k" "rem div 1000 = 60 * (rem div 1000 div 60) + s"
      "rem div 60000 = 60 * (rem div 60000 div 60) + mi"
      by (simp_all add: k_def s_def mi_def)
    ultimately show ?thesis unfolding h_def by linarith
  qed
  have bounds: "0 \<le> h" "h \<le> 23" "0 \<le> mi" "mi \<le> 59" "0 \<le> s" "s \<le> 59" "0 \<le> k" "k < 1000"
    using rem unfolding h_def mi_def s_def k_def by auto
  let ?t = "ts_text (nat y) (nat m) (nat d) (nat h) (nat mi) (nat s) (nat k)"
  have v: "ts_valid (nat y) (nat m) (nat d) (nat h) (nat mi) (nat s) (nat k)"
    using inv yr bounds unfolding ts_valid_def by linarith
  have form: "rfc3339_from_millis ms = ?t"
    using inv yr bounds
    unfolding rfc3339_from_millis_def Let_def days_def [symmetric] rem_def [symmetric] c prod.case
      h_def [symmetric] mi_def [symmetric] s_def [symmetric] k_def [symmetric] ts_text_def
    by (simp add: fmt_int_def)
  have "parse_rfc3339_millis ?t = Some (days_before_civil y m d * 86400000 + h * 3600000
      + mi * 60000 + s * 1000 + k)"
    using parse_rfc3339_ts_text [OF v] inv yr bounds by simp
  then have "parse_rfc3339_millis ?t = Some ms" using inv(1) ms hms by simp
  then show ?thesis using v form bounds by (metis nat_le_iff of_nat_numeral)
qed

section \<open>Hex round trips\<close>

lemma unhex_chunks_hex [simp]: "unhex_chunks (hex bs) = Some bs"
proof (induction bs)
  case (Cons b bs)
  have "unat b div 16 < 16" using unat_u8_less [of b] by linarith
  moreover have "(of_nat (unat b div 16 * 16 + unat b mod 16) :: u8) = b"
    by (simp only: div_mult_mod_eq) simp
  ultimately show ?case by (simp add: hex_Cons Cons to_digit_hex_digit del: of_nat_add of_nat_mult)
qed simp

lemma hex_chars: "c \<in> set (hex bs) \<Longrightarrow> c < 128" "c \<in> set (hex bs) \<Longrightarrow> \<not> is_ascii_uppercase c"
  by (drule set_hex, auto simp: is_ascii_uppercase_def word_less_nat_alt word_le_nat_alt unat_hex_digit
      split: if_splits)+

lemma unhex_hex [codec]: "length bs = n \<Longrightarrow> unhex n (hex bs) = Some bs"
  by (auto simp: unhex_def list_all_iff hex_chars)

lemma unhex_lower_hex [codec]: "length bs = n \<Longrightarrow> unhex_lower n (hex bs) = Some bs"
  by (auto simp: unhex_lower_def unhex_hex list_ex_iff hex_chars)

lemma lower_digit: "to_digit 16 c = Some d \<Longrightarrow> \<not> is_ascii_uppercase c \<Longrightarrow> c = hex_digit d"
  by (auto simp: to_digit_def is_ascii_uppercase_def word_unat_eq_iff unat_hex_digit word_le_nat_alt Let_def
      split: if_splits)

lemma unhex_chunks_exact:
  "unhex_chunks s = Some bs \<Longrightarrow> even (length s) \<Longrightarrow> list_all (\<lambda>c. \<not> is_ascii_uppercase c) s \<Longrightarrow> s = hex bs"
proof (induction s arbitrary: bs rule: unhex_chunks.induct)
  case (1 a b r)
  then obtain hi lo bs' where d: "to_digit 16 a = Some hi" "to_digit 16 b = Some lo"
    "unhex_chunks r = Some bs'" "bs = of_nat (hi * 16 + lo) # bs'"
    by (auto split: option.splits simp del: of_nat_add of_nat_mult)
  have lt: "hi < 16" "lo < 16" using d to_digit_less by blast+
  then have "unat (of_nat (hi * 16 + lo) :: u8) = hi * 16 + lo" by (simp add: unat_of_nat del: of_nat_add of_nat_mult)
  then have "hex bs = hex_digit hi # hex_digit lo # hex bs'"
    using lt by (simp add: d(4) hex_Cons del: of_nat_add of_nat_mult)
  moreover have "r = hex bs'" using 1 d by simp
  ultimately show ?case using lower_digit [OF d(1)] lower_digit [OF d(2)] "1.prems"(3) by simp
qed auto

text \<open>Lowercase hex is read exactly: the text determines the bytes and the bytes the text.\<close>

lemma unhex_lower_iff: "unhex_lower n s = Some bs \<longleftrightarrow> s = hex bs \<and> length bs = n"
proof
  assume "unhex_lower n s = Some bs"
  then have "unhex_chunks s = Some bs" "length s = n * 2" "list_all (\<lambda>c. \<not> is_ascii_uppercase c) s"
    by (auto simp: unhex_lower_def unhex_def list_ex_iff list_all_iff split: if_splits)
  moreover from this have "s = hex bs" by (intro unhex_chunks_exact) simp_all
  ultimately show "s = hex bs \<and> length bs = n" by simp
qed (simp add: unhex_lower_hex)

section \<open>Properties\<close>

text \<open>Every instant of the years 1 to 9999 is written in the 24-character RFC 3339 form and read
  back as the same number of milliseconds.\<close>

theorem rfc3339_round_trip:
  assumes "- 62135596800000 \<le> ms" "ms < 253402300800000"
  shows "length (rfc3339_from_millis ms) = 24 \<and>
    parse_rfc3339_millis (rfc3339_from_millis ms) = Some ms"
  using rfc3339_round_trip_range [OF assms] length_ts_text by metis

theorem rfc3339_round_trip_witness:
  "parse_rfc3339_millis (rfc3339_from_millis 1791028800123) = Some 1791028800123"
  using rfc3339_round_trip [of 1791028800123] by simp

end
