(* ===== verification/Unicode_Text.thy ===== *)
theory Unicode_Text
  imports Signed_Base
begin

text \<open>
  More of Rust's \<^verbatim>\<open>str\<close> over UTF-8 bytes: the characters of a string as code points and back,
  white space, lines, splitting at an ASCII byte, uppercase hex.
\<close>

section \<open>Characters\<close>

fun chars :: "bytes \<Rightarrow> nat list" where
  "chars [] = []"
| "chars (b # r) =
     (if b < 0x80 then unat b # chars r
      else if b < 0xE0 then
        (case r of c # r1 \<Rightarrow> ((unat b - 192) * 64 + (unat c - 128)) # chars r1 | _ \<Rightarrow> [])
      else if b < 0xF0 then
        (case r of c # d # r2 \<Rightarrow>
           ((unat b - 224) * 4096 + (unat c - 128) * 64 + (unat d - 128)) # chars r2 | _ \<Rightarrow> [])
      else
        (case r of c # d # e # r3 \<Rightarrow>
           ((unat b - 240) * 262144 + (unat c - 128) * 4096 + (unat d - 128) * 64 + (unat e - 128))
           # chars r3 | _ \<Rightarrow> []))"

definition encode_char :: "nat \<Rightarrow> bytes" where
  "encode_char c =
     (if c < 0x80 then [of_nat c]
      else if c < 0x800 then [of_nat (192 + c div 64), of_nat (128 + c mod 64)]
      else if c < 0x10000 then
        [of_nat (224 + c div 4096), of_nat (128 + c div 64 mod 64), of_nat (128 + c mod 64)]
      else [of_nat (240 + c div 262144), of_nat (128 + c div 4096 mod 64),
            of_nat (128 + c div 64 mod 64), of_nat (128 + c mod 64)])"

definition is_scalar :: "nat \<Rightarrow> bool" where
  "is_scalar c \<longleftrightarrow> c < 0xD800 \<or> (0xE000 \<le> c \<and> c < 0x110000)"

definition utf8 :: "nat list \<Rightarrow> bytes" where
  "utf8 cs = concat (map encode_char cs)"

lemma byte_of: "n < 256 \<Longrightarrow> \<exists>b :: u8. of_nat n = b \<and> unat b = n"
  by (simp add: unat_of_nat)

lemma is_cont_unat: "is_cont b \<longleftrightarrow> 128 \<le> unat b \<and> unat b < 192"
  by (simp add: is_cont_def word_le_nat_alt word_less_nat_alt)

lemmas byte_order = word_le_nat_alt word_less_nat_alt word_unat_eq_iff is_cont_unat

text \<open>The four widths of a character: what its bytes are, and how the decoder and the validity test
  read them.\<close>

lemma char1:
  assumes "c < 128"
  obtains b where "encode_char c = [b]" "unat b = c"
  using assms byte_of [of c] by (auto simp: encode_char_def)

lemma char2:
  assumes "128 \<le> c" "c < 2048"
  obtains b d where "encode_char c = [b, d]" "unat b = 192 + c div 64" "unat d = 128 + c mod 64"
proof -
  have "192 + c div 64 < 256" "128 + c mod 64 < 256" using assms by auto
  then show thesis using byte_of that assms by (fastforce simp: encode_char_def simp del: of_nat_add)
qed

lemma char3:
  assumes "2048 \<le> c" "c < 65536"
  obtains b d e where "encode_char c = [b, d, e]" "unat b = 224 + c div 4096"
    "unat d = 128 + c div 64 mod 64" "unat e = 128 + c mod 64"
proof -
  have "224 + c div 4096 < 256" "128 + c div 64 mod 64 < 256" "128 + c mod 64 < 256"
    using assms by auto
  then show thesis using byte_of that assms by (fastforce simp: encode_char_def simp del: of_nat_add)
qed

lemma char4:
  assumes "65536 \<le> c" "c < 0x110000"
  obtains b d e f where "encode_char c = [b, d, e, f]" "unat b = 240 + c div 262144"
    "unat d = 128 + c div 4096 mod 64" "unat e = 128 + c div 64 mod 64" "unat f = 128 + c mod 64"
proof -
  have "240 + c div 262144 < 256" "128 + c div 4096 mod 64 < 256" "128 + c div 64 mod 64 < 256"
    "128 + c mod 64 < 256"
    using assms by auto
  then show thesis using byte_of that assms by (fastforce simp: encode_char_def simp del: of_nat_add)
qed

lemma digits64:
  fixes c :: nat
  shows "c div 64 * 64 + c mod 64 = c" "c div 4096 * 64 + c div 64 mod 64 = c div 64"
    "c div 262144 * 64 + c div 4096 mod 64 = c div 4096"
proof -
  have d: "c div 4096 = c div 64 div 64" "c div 262144 = c div 4096 div 64"
    using div_mult2_eq [of c 64 64] div_mult2_eq [of c 4096 64] by simp_all
  show "c div 64 * 64 + c mod 64 = c" "c div 4096 * 64 + c div 64 mod 64 = c div 64"
    "c div 262144 * 64 + c div 4096 mod 64 = c div 4096"
    unfolding d(1) by simp_all (simp add: d)
qed

lemma chars_encode:
  assumes "is_scalar c"
  shows "chars (encode_char c @ s) = c # chars s" and "valid_utf8 (encode_char c @ s) = valid_utf8 s"
proof -
  have c: "c < 0x110000" using assms by (auto simp: is_scalar_def)
  consider "c < 128" | "128 \<le> c" "c < 2048" | "2048 \<le> c" "c < 65536" | "65536 \<le> c" by linarith
  then have "chars (encode_char c @ s) = c # chars s \<and> valid_utf8 (encode_char c @ s) = valid_utf8 s"
  proof cases
    case 1
    then show ?thesis by (rule char1) (use 1 in \<open>simp add: byte_order\<close>)
  next
    case 2
    obtain b d where e: "encode_char c = [b, d]" "unat b = 192 + c div 64" "unat d = 128 + c mod 64"
      by (rule char2 [OF 2])
    have "2 \<le> c div 64" "c div 64 < 32" "c mod 64 < 64" using 2 by auto
    then show ?thesis using digits64(1) [of c] by (simp add: e byte_order)
  next
    case 3
    obtain b d f where e: "encode_char c = [b, d, f]" "unat b = 224 + c div 4096"
      "unat d = 128 + c div 64 mod 64" "unat f = 128 + c mod 64"
      by (rule char3 [OF 3])
    have b: "c div 4096 < 16" "c div 64 mod 64 < 64" "c mod 64 < 64" using 3 by auto
    have sur: "c div 4096 = 0 \<Longrightarrow> 32 \<le> c div 64 mod 64" "c div 4096 = 13 \<Longrightarrow> c div 64 mod 64 \<le> 31"
      using 3 digits64 [of c] assms by (auto simp: is_scalar_def)
    have "c div 4096 * 4096 + c div 64 mod 64 * 64 + c mod 64 = c" using digits64 [of c] by linarith
    then show ?thesis using b sur by (auto simp: e byte_order)
  next
    case 4
    obtain b d f g where e: "encode_char c = [b, d, f, g]" "unat b = 240 + c div 262144"
      "unat d = 128 + c div 4096 mod 64" "unat f = 128 + c div 64 mod 64" "unat g = 128 + c mod 64"
      by (rule char4 [OF 4 c])
    have b: "c div 262144 < 5" "c div 4096 mod 64 < 64" "c div 64 mod 64 < 64" "c mod 64 < 64" using c by auto
    have c64: "c div 4096 < 272" using c by auto
    have sur: "c div 262144 = 0 \<Longrightarrow> 16 \<le> c div 4096 mod 64" "c div 262144 = 4 \<Longrightarrow> c div 4096 mod 64 \<le> 15"
      using 4 c64 digits64 [of c] by auto
    have "c div 262144 * 262144 + c div 4096 mod 64 * 4096 + c div 64 mod 64 * 64 + c mod 64 = c"
      using digits64 [of c] by linarith
    then show ?thesis using b sur by (auto simp: e byte_order)
  qed
  then show "chars (encode_char c @ s) = c # chars s" and "valid_utf8 (encode_char c @ s) = valid_utf8 s"
    by simp_all
qed

text \<open>The characters of a valid string, one step at a time.\<close>

lemma byte_of_unat: "n = unat b \<Longrightarrow> of_nat n = (b :: u8)"
  by simp

lemma digit64:
  fixes x y :: nat
  assumes "y < 64"
  shows "(x * 64 + y) div 64 = x" "(x * 64 + y) mod 64 = y"
    "(x * 64 + y) div 4096 = x div 64" "(x * 64 + y) div 262144 = x div 4096"
proof -
  show d: "(x * 64 + y) div 64 = x" "(x * 64 + y) mod 64 = y" using assms by simp_all
  show "(x * 64 + y) div 4096 = x div 64" "(x * 64 + y) div 262144 = x div 4096"
    using div_mult2_eq [of "x * 64 + y" 64 64] div_mult2_eq [of "x * 64 + y" 64 4096] d by simp_all
qed

lemma char_step2:
  assumes "0xC2 \<le> b" "b \<le> 0xDF" "is_cont d"
  shows "\<exists>c. is_scalar c \<and> encode_char c = [b, d]"
proof -
  obtain p where p: "unat b = 192 + p" "2 \<le> p" "p < 32"
    using assms(1,2) by (auto simp: byte_order dest!: le_Suc_ex [of 194])
  obtain q where q: "unat d = 128 + q" "q < 64"
    using assms(3) by (auto simp: byte_order dest!: le_Suc_ex [of 128])
  let ?c = "p * 64 + q"
  have "?c div 64 = p" "?c mod 64 = q" using q by auto
  then have "encode_char ?c = [of_nat (192 + p), of_nat (128 + q)]" using p q by (simp add: encode_char_def)
  then have "encode_char ?c = [b, d]" using p q by (metis byte_of_unat)
  moreover have "is_scalar ?c" using p q by (simp add: is_scalar_def)
  ultimately show ?thesis by blast
qed

lemma char_step3:
  assumes "0xE0 \<le> b" "b \<le> 0xEF" "is_cont d" "is_cont e" "b = 0xE0 \<longrightarrow> 0xA0 \<le> d" "b = 0xED \<longrightarrow> d \<le> 0x9F"
  shows "\<exists>c. is_scalar c \<and> encode_char c = [b, d, e]"
proof -
  obtain p where p: "unat b = 224 + p" "p < 16"
    using assms(1,2) by (auto simp: byte_order dest!: le_Suc_ex [of 224])
  obtain q where q: "unat d = 128 + q" "q < 64"
    using assms(3) by (auto simp: byte_order dest!: le_Suc_ex [of 128])
  obtain r where r: "unat e = 128 + r" "r < 64"
    using assms(4) by (auto simp: byte_order dest!: le_Suc_ex [of 128])
  let ?c = "(p * 64 + q) * 64 + r"
  have "?c div 64 = p * 64 + q" "?c mod 64 = r" using r by (simp_all only: digit64)
  moreover have "(p * 64 + q) mod 64 = q" "?c div 4096 = p" using q r by (simp_all only: digit64)
  moreover have sur: "p = 0 \<longrightarrow> 32 \<le> q" "p = 13 \<longrightarrow> q < 32"
    using assms(5,6) p q by (auto simp: byte_order)
  then have "2048 \<le> ?c" "?c < 65536" using p q r by (cases "p = 0"; simp)+
  ultimately have "encode_char ?c = [of_nat (224 + p), of_nat (128 + q), of_nat (128 + r)]"
    by (simp add: encode_char_def)
  then have "encode_char ?c = [b, d, e]" using p q r by (metis byte_of_unat)
  moreover have "is_scalar ?c" using p q r sur unfolding is_scalar_def
    by (cases "p \<le> 12"; cases "p = 13") auto
  ultimately show ?thesis by blast
qed

lemma char_step4:
  assumes "0xF0 \<le> b" "b \<le> 0xF4" "is_cont d" "is_cont e" "is_cont f"
    "b = 0xF0 \<longrightarrow> 0x90 \<le> d" "b = 0xF4 \<longrightarrow> d \<le> 0x8F"
  shows "\<exists>c. is_scalar c \<and> encode_char c = [b, d, e, f]"
proof -
  obtain p where p: "unat b = 240 + p" "p < 5"
    using assms(1,2) by (auto simp: byte_order dest!: le_Suc_ex [of 240])
  obtain q where q: "unat d = 128 + q" "q < 64"
    using assms(3) by (auto simp: byte_order dest!: le_Suc_ex [of 128])
  obtain r where r: "unat e = 128 + r" "r < 64"
    using assms(4) by (auto simp: byte_order dest!: le_Suc_ex [of 128])
  obtain t where t: "unat f = 128 + t" "t < 64"
    using assms(5) by (auto simp: byte_order dest!: le_Suc_ex [of 128])
  let ?c = "((p * 64 + q) * 64 + r) * 64 + t"
  have "?c div 64 = (p * 64 + q) * 64 + r" "?c mod 64 = t" using t by (simp_all only: digit64)
  moreover have "((p * 64 + q) * 64 + r) mod 64 = r" "?c div 4096 = p * 64 + q"
    using r t by (simp_all only: digit64)
  moreover have "(p * 64 + q) mod 64 = q" "?c div 262144 = p" using q r t by (simp_all only: digit64)
  moreover have sur: "p = 0 \<longrightarrow> 16 \<le> q" "p = 4 \<longrightarrow> q < 16"
    using assms(6,7) p q by (auto simp: byte_order)
  then have b: "65536 \<le> ?c" "?c < 0x110000" using p q r t by (cases "p = 0"; cases "p = 4"; simp)+
  ultimately have "encode_char ?c = [of_nat (240 + p), of_nat (128 + q), of_nat (128 + r), of_nat (128 + t)]"
    by (simp add: encode_char_def)
  then have "encode_char ?c = [b, d, e, f]" using p q r t by (metis byte_of_unat)
  moreover have "is_scalar ?c" using b by (simp add: is_scalar_def)
  ultimately show ?thesis by blast
qed

lemma utf8_step:
  assumes "valid_utf8 s" "s \<noteq> []"
  obtains c r where "is_scalar c" "s = encode_char c @ r" "valid_utf8 r"
proof -
  obtain b t where s: "s = b # t" using assms(2) by (cases s) auto
  have "\<exists>c r. is_scalar c \<and> s = encode_char c @ r"
  proof (cases "b < 0x80")
    case True
    then have "is_scalar (unat b)" "encode_char (unat b) = [b]"
      by (auto simp: is_scalar_def encode_char_def byte_order)
    then show ?thesis using s by (metis append_Cons append_Nil)
  next
    case n1: False
    show ?thesis
    proof (cases "0xC2 \<le> b \<and> b \<le> 0xDF")
      case True
      with n1 assms s obtain d r where "t = d # r" "is_cont d" by (auto split: list.splits)
      then show ?thesis using True char_step2 [of b d] s by (metis append_Cons append_Nil)
    next
      case n2: False
      show ?thesis
      proof (cases "0xE0 \<le> b \<and> b \<le> 0xEF")
        case True
        with n1 n2 assms s obtain d e r where "t = d # e # r" "is_cont d" "is_cont e"
          "b = 0xE0 \<longrightarrow> 0xA0 \<le> d" "b = 0xED \<longrightarrow> d \<le> 0x9F"
          by (simp only: valid_utf8.simps if_False if_True) (auto split: list.splits)
        then show ?thesis using True char_step3 [of b d e] s by (metis append_Cons append_Nil)
      next
        case n3: False
        with n1 n2 assms s obtain d e f r where "0xF0 \<le> b \<and> b \<le> 0xF4" "t = d # e # f # r" "is_cont d" "is_cont e" "is_cont f"
          "b = 0xF0 \<longrightarrow> 0x90 \<le> d" "b = 0xF4 \<longrightarrow> d \<le> 0x8F"
          by (simp only: valid_utf8.simps if_False split: if_splits) (auto split: list.splits)
        then show ?thesis using char_step4 [of b d e f] s by (metis append_Cons append_Nil)
      qed
    qed
  qed
  then show thesis using that assms(1) chars_encode(2) by blast
qed

lemma utf8_of_chars:
  assumes "valid_utf8 s"
  obtains cs where "s = utf8 cs" "\<forall>c \<in> set cs. is_scalar c"
  using assms
proof (induction "length s" arbitrary: s thesis rule: less_induct)
  case less
  show ?case
  proof (cases "s = []")
    case True
    then show ?thesis using less.prems(1) [of "[]"] by (simp add: utf8_def)
  next
    case False
    obtain c r where c: "is_scalar c" "s = encode_char c @ r" "valid_utf8 r"
      by (rule utf8_step [OF less.prems(2) False])
    have "length r < length s" using c(2) by (simp add: encode_char_def)
    then obtain cs where "r = utf8 cs" "\<forall>c \<in> set cs. is_scalar c" using less.hyps c(3) by metis
    then show ?thesis using less.prems(1) [of "c # cs"] c by (simp add: utf8_def)
  qed
qed

lemma chars_utf8: "\<forall>c \<in> set cs. is_scalar c \<Longrightarrow> chars (utf8 cs) = cs \<and> valid_utf8 (utf8 cs)"
  by (induction cs) (simp_all add: utf8_def chars_encode)

lemma utf8_append [simp]: "utf8 (cs @ ds) = utf8 cs @ utf8 ds"
  by (simp add: utf8_def)

lemma utf8_ascii: "\<forall>c \<in> set cs. c < 128 \<Longrightarrow> utf8 cs = map of_nat cs"
  by (induction cs) (auto simp: utf8_def encode_char_def)

section \<open>White space, lines, splitting\<close>

text \<open>\<^verbatim>\<open>char::is_whitespace\<close>: the Unicode property \<^verbatim>\<open>White_Space\<close>.\<close>

definition is_whitespace :: "nat \<Rightarrow> bool" where
  "is_whitespace c \<longleftrightarrow> (9 \<le> c \<and> c \<le> 13) \<or> c = 32 \<or> c = 0x85 \<or> c = 0xA0 \<or> c = 0x1680 \<or>
     (0x2000 \<le> c \<and> c \<le> 0x200A) \<or> c = 0x2028 \<or> c = 0x2029 \<or> c = 0x202F \<or> c = 0x205F \<or> c = 0x3000"

text \<open>\<^verbatim>\<open>s.trim().is_empty()\<close>.\<close>

definition is_blank :: "bytes \<Rightarrow> bool" where
  "is_blank s \<longleftrightarrow> list_all is_whitespace (chars s)"

text \<open>\<^verbatim>\<open>s.split(c)\<close> at an ASCII character, and \<^verbatim>\<open>s.lines()\<close>.\<close>

fun split_byte :: "u8 \<Rightarrow> bytes \<Rightarrow> bytes list" where
  "split_byte b [] = [[]]"
| "split_byte b (x # xs) =
     (if x = b then [] # split_byte b xs
      else case split_byte b xs of [] \<Rightarrow> [[x]] | p # ps \<Rightarrow> (x # p) # ps)"

definition strip_cr :: "bytes \<Rightarrow> bytes" where
  "strip_cr l = (if l \<noteq> [] \<and> last l = 13 then butlast l else l)"

definition str_lines :: "bytes \<Rightarrow> bytes list" where
  "str_lines s =
     (let ps = split_byte 10 s
      in map strip_cr (butlast ps) @ (if last ps = [] then [] else [last ps]))"

lemma split_byte_nonempty [simp]: "split_byte b s \<noteq> []"
  by (cases s) (auto split: list.splits)

lemma split_byte_line:
  "b \<notin> set l \<Longrightarrow> split_byte b (l @ b # s) = l # split_byte b s"
  by (induction l) auto

lemma split_byte_end: "b \<notin> set l \<Longrightarrow> split_byte b l = [l]"
  by (induction l) auto

text \<open>Lines without line breaks, each ended by one, are read back.\<close>

lemma str_lines_concat:
  "(\<And>l. l \<in> set ls \<Longrightarrow> 10 \<notin> set l \<and> 13 \<notin> set l) \<Longrightarrow>
   str_lines (concat (map (\<lambda>l. l @ [10]) ls)) = ls"
proof -
  assume a: "\<And>l. l \<in> set ls \<Longrightarrow> 10 \<notin> set l \<and> 13 \<notin> set l"
  have "split_byte 10 (concat (map (\<lambda>l. l @ [10]) ls)) = ls @ [[]]"
    using a by (induction ls) (auto simp: split_byte_line)
  moreover have "map strip_cr ls = ls"
    using a by (intro map_idI) (auto simp: strip_cr_def dest: last_in_set)
  ultimately show ?thesis by (simp add: str_lines_def)
qed

text \<open>The parts of a split have no separator, and joining them gives the string back.\<close>

lemma split_byte_parts: "p \<in> set (split_byte b s) \<Longrightarrow> b \<notin> set p"
  by (induction b s arbitrary: p rule: split_byte.induct) (auto split: list.splits if_splits)

text \<open>\<^verbatim>\<open>format!("{:04X}")\<close>.\<close>

definition hex_digit_upper :: "nat \<Rightarrow> u8" where
  "hex_digit_upper d = (if d < 10 then digit_char d else of_nat (55 + d))"

fun upper_hex :: "nat \<Rightarrow> bytes" where
  "upper_hex n = (if n < 16 then [hex_digit_upper n] else upper_hex (n div 16) @ [hex_digit_upper (n mod 16)])"

declare upper_hex.simps [simp del]

definition fmt_04X :: "nat \<Rightarrow> bytes" where
  "fmt_04X n = replicate (4 - length (upper_hex n)) 48 @ upper_hex n"

lemma unat_hex_digit_upper: "d < 16 \<Longrightarrow> unat (hex_digit_upper d) = (if d < 10 then 48 + d else 55 + d)"
  by (simp add: hex_digit_upper_def unat_digit_char unat_of_nat del: of_nat_add)

lemma set_upper_hex: "b \<in> set (upper_hex n) \<Longrightarrow> 48 \<le> unat b \<and> unat b \<le> 70"
proof (induction n rule: upper_hex.induct)
  case (1 n)
  have d: "48 \<le> unat (hex_digit_upper d) \<and> unat (hex_digit_upper d) \<le> 70" if "d < 16" for d
    using that by (simp add: unat_hex_digit_upper)
  show ?case
  proof (cases "n < 16")
    case True
    then show ?thesis using "1.prems" d by (simp add: upper_hex.simps [of n])
  next
    case False
    then show ?thesis using 1 d [of "n mod 16"] by (auto simp: upper_hex.simps [of n])
  qed
qed

end
