(* ===== verification/Sshsig.thy ===== *)
theory Sshsig
  imports Unicode_Text
begin

text \<open>
  Keys and signatures of the signed mode: \<^verbatim>\<open>signed/keys.rs\<close> (algorithms, public keys, key blobs,
  fingerprints), \<^verbatim>\<open>signed/ed25519.rs\<close> (strict verification, rule by rule), \<^verbatim>\<open>signed/sshsig.rs\<close>
  (signed data, blobs, armor) and \<^verbatim>\<open>signed/signer.rs\<close> (signing behind a handle).

  The functions of other crates are the fields of the record \<open>crypto\<close>: hashes, CRC32, base64, and
  the curve and scalar operations, over a type \<open>'p\<close> of points and a type \<open>'s\<close> of scalars.
\<close>

record ('p, 's) crypto =
  crc32 :: "bytes \<Rightarrow> u32"
  sha256 :: "bytes \<Rightarrow> bytes"
  sha512 :: "bytes \<Rightarrow> bytes"
  base64_encode :: "bytes \<Rightarrow> bytes"
  base64_decode :: "bytes \<Rightarrow> bytes option"
  base64_nopad_encode :: "bytes \<Rightarrow> bytes"
  base64_nopad_decode :: "bytes \<Rightarrow> bytes option"
  decompress :: "bytes \<Rightarrow> 'p option"
  compress :: "'p \<Rightarrow> bytes"
  is_small_order :: "'p \<Rightarrow> bool"
  is_torsion_free :: "'p \<Rightarrow> bool"
  negate_point :: "'p \<Rightarrow> 'p"
  double_scalar_mul :: "'s \<Rightarrow> 'p \<Rightarrow> 's \<Rightarrow> 'p"
  from_canonical_bytes :: "bytes \<Rightarrow> 's option"
  from_bytes_mod_order :: "bytes \<Rightarrow> 's"
  from_bytes_mod_order_wide :: "bytes \<Rightarrow> 's"
  dalek_verify_strict :: "bytes \<Rightarrow> bytes \<Rightarrow> bytes \<Rightarrow> bool"

section \<open>Keys\<close>

datatype sig_alg = Ed25519

primrec alg_code :: "sig_alg \<Rightarrow> u16" where
  "alg_code Ed25519 = 0x0001"

definition alg_from_code :: "u16 \<Rightarrow> sig_alg option" where
  "alg_from_code code = (if code = 0x0001 then Some Ed25519 else None)"

primrec json_name :: "sig_alg \<Rightarrow> bytes" where
  "json_name Ed25519 = ascii ''ed25519''"

definition alg_from_json_name :: "bytes \<Rightarrow> sig_alg option" where
  "alg_from_json_name name = (if name = ascii ''ed25519'' then Some Ed25519 else None)"

primrec ssh_type :: "sig_alg \<Rightarrow> bytes" where
  "ssh_type Ed25519 = ascii ''ssh-ed25519''"

primrec strength :: "sig_alg \<Rightarrow> u8" where
  "strength Ed25519 = 1"

record public_key =
  pk_alg :: sig_alg
  pk_bytes :: bytes

definition ed25519_key :: "bytes \<Rightarrow> public_key" where
  "ed25519_key b = \<lparr>pk_alg = Ed25519, pk_bytes = b\<rparr>"

definition put_string :: "bytes \<Rightarrow> bytes" where
  "put_string s = be_bytes 4 (length s mod 2 ^ 32) @ s"

definition key_blob :: "public_key \<Rightarrow> bytes" where
  "key_blob k =
     (let t = ssh_type (pk_alg k)
      in be_bytes 4 (length t mod 2 ^ 32) @ t @ be_bytes 4 32 @ pk_bytes k)"

type_synonym fingerprint = bytes

definition fingerprint_of :: "('p, 's) crypto \<Rightarrow> public_key \<Rightarrow> fingerprint" where
  "fingerprint_of c k = sha256 c (key_blob k)"

section \<open>Strict Ed25519 verification\<close>

datatype ed_failure = WeakKey | Reencoded | Mismatch

primrec ed_reason :: "ed_failure \<Rightarrow> string" where
  "ed_reason WeakKey = ''weak_key''"
| "ed_reason Reencoded = ''reencoded''"
| "ed_reason Mismatch = ''mismatch''"

definition decode_canonical :: "('p, 's) crypto \<Rightarrow> bytes \<Rightarrow> 'p option" where
  "decode_canonical c b =
     (case decompress c b of None \<Rightarrow> None
      | Some p \<Rightarrow> if compress c p = b then Some p else None)"

definition key_is_strong :: "('p, 's) crypto \<Rightarrow> bytes \<Rightarrow> bool" where
  "key_is_strong c pk =
     (case decode_canonical c pk of None \<Rightarrow> False
      | Some a \<Rightarrow> \<not> is_small_order c a \<and> is_torsion_free c a)"

definition is_strong :: "('p, 's) crypto \<Rightarrow> public_key \<Rightarrow> bool" where
  "is_strong c k = key_is_strong c (pk_bytes k)"

definition ed25519_verify ::
  "('p, 's) crypto \<Rightarrow> bytes \<Rightarrow> bytes \<Rightarrow> bytes \<Rightarrow> (unit, ed_failure) result" where
  "ed25519_verify c pk msg sig =
     (if \<not> key_is_strong c pk then Err WeakKey
      else bind_res (ok_or WeakKey (decode_canonical c pk)) (\<lambda>a.
        let r_bytes = take 32 sig;
            s_bytes = drop 32 sig;
            r_ok = (case decode_canonical c r_bytes of Some r \<Rightarrow> \<not> is_small_order c r | None \<Rightarrow> False);
            k = from_bytes_mod_order_wide c (sha512 c (r_bytes @ pk @ msg));
            equation = (\<lambda>s. compress c (double_scalar_mul c k (negate_point c a) s) = r_bytes)
        in case from_canonical_bytes c s_bytes of
             Some s \<Rightarrow> if r_ok \<and> equation s \<and> dalek_verify_strict c pk msg sig then Ok () else Err Mismatch
           | None \<Rightarrow> if r_ok \<and> equation (from_bytes_mod_order c s_bytes) then Err Reencoded
                     else Err Mismatch))"

section \<open>SSHSIG\<close>

definition MAX_SIG_FILE :: nat where "MAX_SIG_FILE = 64 * 1024"
definition SSHSIG_MAGIC :: bytes where "SSHSIG_MAGIC = ascii ''SSHSIG''"
definition BEGIN_ARMOR :: bytes where "BEGIN_ARMOR = ascii ''-----BEGIN SSH SIGNATURE-----''"
definition END_ARMOR :: bytes where "END_ARMOR = ascii ''-----END SSH SIGNATURE-----''"

definition signed_data_prehashed :: "bytes \<Rightarrow> bytes \<Rightarrow> bytes" where
  "signed_data_prehashed ns message_sha512 =
     SSHSIG_MAGIC @ put_string ns @ put_string [] @ put_string (ascii ''sha512'')
     @ put_string message_sha512"

definition signed_data :: "('p, 's) crypto \<Rightarrow> bytes \<Rightarrow> bytes \<Rightarrow> bytes" where
  "signed_data c ns message = signed_data_prehashed ns (sha512 c message)"

definition blob :: "public_key \<Rightarrow> bytes \<Rightarrow> bytes \<Rightarrow> bytes" where
  "blob key ns signature =
     SSHSIG_MAGIC @ be_bytes 4 1 @ put_string (key_blob key) @ put_string ns @ put_string []
     @ put_string (ascii ''sha512'')
     @ put_string (put_string (ssh_type (pk_alg key)) @ put_string signature)"

text \<open>\<^verbatim>\<open>chunks(n)\<close>.\<close>

function chunks :: "nat \<Rightarrow> 'a list \<Rightarrow> 'a list list" where
  "chunks n xs = (if xs = [] \<or> n = 0 then [] else take n xs # chunks n (drop n xs))"
  by auto
termination by (relation "measure (\<lambda>(n, xs). length xs)") auto

declare chunks.simps [simp del]

definition armor :: "('p, 's) crypto \<Rightarrow> public_key \<Rightarrow> bytes \<Rightarrow> bytes \<Rightarrow> bytes" where
  "armor c key ns signature =
     (let b64 = base64_encode c (blob key ns signature)
      in BEGIN_ARMOR @ [10]
         @ concat (map (\<lambda>chunk. (if valid_utf8 chunk then chunk else []) @ [10]) (chunks 70 b64))
         @ END_ARMOR @ [10])"

record ssh_sig =
  ss_key :: public_key
  ss_signature :: bytes

datatype sshsig_error =
    Malformed
  | NamespaceError bytes bytes
  | HashAlg bytes
  | KeyType bytes

primrec sshsig_reason :: "sshsig_error \<Rightarrow> string" where
  "sshsig_reason Malformed = ''malformed''"
| "sshsig_reason (NamespaceError e f) = ''namespace''"
| "sshsig_reason (HashAlg a) = ''hash_alg''"
| "sshsig_reason (KeyType t) = ''key_type''"

text \<open>\<^verbatim>\<open>WireReader\<close>: a buffer; each read returns what it took and the rest.\<close>

definition wire_take :: "nat \<Rightarrow> bytes \<Rightarrow> (bytes \<times> bytes) option" where
  "wire_take n buf = (if length buf < n then None else Some (take n buf, drop n buf))"

definition wire_u32 :: "bytes \<Rightarrow> (nat \<times> bytes) option" where
  "wire_u32 buf = map_option (\<lambda>(b, r). (be_val b, r)) (wire_take 4 buf)"

definition wire_string :: "bytes \<Rightarrow> (bytes \<times> bytes) option" where
  "wire_string buf = (case wire_u32 buf of None \<Rightarrow> None | Some (n, r) \<Rightarrow> wire_take n r)"

text \<open>The bytes that an error of the parser carries are \<^verbatim>\<open>from_utf8_lossy\<close> of what was found; the model
  keeps what was found.\<close>

definition from_key_blob :: "bytes \<Rightarrow> (public_key, unit) result" where
  "from_key_blob b =
     bind_res (ok_or () (wire_string b)) (\<lambda>(t, r).
       if t \<noteq> ascii ''ssh-ed25519'' then Err ()
       else bind_res (ok_or () (wire_string r)) (\<lambda>(k, r).
         if length k \<noteq> 32 \<or> r \<noteq> [] then Err () else Ok (ed25519_key k)))"

definition parse_blob :: "bytes \<Rightarrow> bytes \<Rightarrow> (ssh_sig, sshsig_error) result" where
  "parse_blob b ns =
     (case wire_take 6 b of
        None \<Rightarrow> Err Malformed
      | Some (magic, r) \<Rightarrow>
          if magic \<noteq> SSHSIG_MAGIC then Err Malformed
          else (case wire_u32 r of
            None \<Rightarrow> Err Malformed
          | Some (version, r) \<Rightarrow>
              if version \<noteq> 1 then Err Malformed
              else
                bind_res (ok_or Malformed (wire_string r)) (\<lambda>(kb, r).
                bind_res (ok_or Malformed (wire_string kb)) (\<lambda>(ktype, kr).
                if ktype \<noteq> ascii ''ssh-ed25519'' then Err (KeyType ktype) else
                bind_res (ok_or Malformed (wire_string kr)) (\<lambda>(kbytes, kr).
                if length kbytes \<noteq> 32 \<or> kr \<noteq> [] then Err Malformed else
                bind_res (ok_or Malformed (wire_string r)) (\<lambda>(found, r).
                if found \<noteq> ns then Err (NamespaceError ns found) else
                bind_res (ok_or Malformed (wire_string r)) (\<lambda>(reserved, r).
                if reserved \<noteq> [] then Err Malformed else
                bind_res (ok_or Malformed (wire_string r)) (\<lambda>(hash_alg, r).
                if hash_alg \<noteq> ascii ''sha512'' then Err (HashAlg hash_alg) else
                bind_res (ok_or Malformed (wire_string r)) (\<lambda>(sig_blob, r).
                if r \<noteq> [] then Err Malformed else
                bind_res (ok_or Malformed (wire_string sig_blob)) (\<lambda>(stype, sr).
                if stype \<noteq> ascii ''ssh-ed25519'' then Err (KeyType stype) else
                bind_res (ok_or Malformed (wire_string sr)) (\<lambda>(sbytes, sr).
                if length sbytes \<noteq> 64 \<or> sr \<noteq> [] then Err Malformed else
                Ok \<lparr>ss_key = ed25519_key kbytes, ss_signature = sbytes\<rparr>)))))))))))"

text \<open>\<^verbatim>\<open>iter().position\<close>.\<close>

fun position :: "('a \<Rightarrow> bool) \<Rightarrow> 'a list \<Rightarrow> nat option" where
  "position P [] = None"
| "position P (x # xs) = (if P x then Some 0 else map_option Suc (position P xs))"

definition dearmor :: "('p, 's) crypto \<Rightarrow> bytes \<Rightarrow> (bytes, sshsig_error) result" where
  "dearmor c txt =
     (if MAX_SIG_FILE < length txt \<or> \<not> valid_utf8 txt then Err Malformed
      else
        let ls = str_lines (filter (\<lambda>b. b \<noteq> 13) txt)
        in case (position (\<lambda>l. l = BEGIN_ARMOR) ls, position (\<lambda>l. l = END_ARMOR) ls) of
             (Some b, Some e) \<Rightarrow>
               if e \<le> b \<or> list_ex (\<lambda>l. \<not> is_blank l) (take b ls)
                  \<or> list_ex (\<lambda>l. \<not> is_blank l) (drop (e + 1) ls)
               then Err Malformed
               else ok_or Malformed (base64_decode c (concat (slice ls (b + 1) (e - (b + 1)))))
           | _ \<Rightarrow> Err Malformed)"

definition parse_armored :: "('p, 's) crypto \<Rightarrow> bytes \<Rightarrow> bytes \<Rightarrow> (ssh_sig, sshsig_error) result" where
  "parse_armored c txt ns = bind_res (dearmor c txt) (\<lambda>b. parse_blob b ns)"

section \<open>Signing behind a handle\<close>

datatype sign_error = Unavailable | Cancelled | FaultDetected | Backend

record signer =
  sg_public_key :: public_key
  sg_sign :: "bytes \<Rightarrow> bytes \<Rightarrow> (bytes, sign_error) result"

definition sign_checked ::
  "('p, 's) crypto \<Rightarrow> signer \<Rightarrow> bytes \<Rightarrow> bytes \<Rightarrow> (bytes, sign_error) result" where
  "sign_checked c sg ns message =
     bind_res (sg_sign sg ns message) (\<lambda>sig.
     bind_res (map_err (\<lambda>_. FaultDetected)
       (ed25519_verify c (pk_bytes (sg_public_key sg)) (signed_data c ns message) sig)) (\<lambda>_.
       Ok sig))"

definition sign_detached ::
  "('p, 's) crypto \<Rightarrow> signer \<Rightarrow> bytes \<Rightarrow> bytes \<Rightarrow> (bytes, sign_error) result" where
  "sign_detached c sg ns message =
     bind_res (sign_checked c sg ns message) (\<lambda>sig. Ok (armor c (sg_public_key sg) ns sig))"

text \<open>\<^verbatim>\<open>trust::verify_detached_by\<close>: a detached signature by the key with this fingerprint.\<close>

datatype detached_error =
    BadArmor sshsig_error
  | WrongSigner fingerprint fingerprint
  | BadSignature ed_failure

definition verify_detached_by ::
  "('p, 's) crypto \<Rightarrow> bytes \<Rightarrow> bytes \<Rightarrow> bytes \<Rightarrow> fingerprint \<Rightarrow> (public_key, detached_error) result" where
  "verify_detached_by c sig_text ns message expected =
     bind_res (map_err BadArmor (parse_armored c sig_text ns)) (\<lambda>sig.
       if fingerprint_of c (ss_key sig) \<noteq> expected
       then Err (WrongSigner (fingerprint_of c (ss_key sig)) expected)
       else
         bind_res (map_err BadSignature
           (ed25519_verify c (pk_bytes (ss_key sig)) (signed_data c ns message) (ss_signature sig)))
           (\<lambda>_. Ok (ss_key sig)))"

section \<open>Wire strings are read back exactly\<close>

lemma length_put_string [simp]: "length (put_string s) = 4 + length s"
  by (simp add: put_string_def)

lemma wire_string_put:
  assumes "length s < 2 ^ 32"
  shows "wire_string (put_string s @ r) = Some (s, r)"
  using assms by (simp add: wire_string_def wire_u32_def wire_take_def put_string_def be_val_be_bytes)

lemma wire_string_Some:
  assumes "wire_string b = Some (s, r)"
  shows "b = put_string s @ r" "length s < 2 ^ 32"
proof -
  have l: "4 \<le> length b" "be_val (take 4 b) \<le> length b - 4"
    and s: "s = take (be_val (take 4 b)) (drop 4 b)" "r = drop (be_val (take 4 b)) (drop 4 b)"
    using assms by (auto simp: wire_string_def wire_u32_def wire_take_def split: if_splits)
  have len: "length s = be_val (take 4 b)" using l s by simp
  also have "\<dots> < 256 ^ 4" using be_val_bound [of "take 4 b"] l by simp
  finally show lt: "length s < 2 ^ 32" by simp
  have "be_bytes 4 (length s) = take 4 b" using l len be_bytes_be_val [of "take 4 b" 4] by simp
  then have "put_string s = take 4 b @ s" using lt by (simp add: put_string_def)
  moreover have "s @ r = drop 4 b" unfolding s by (rule append_take_drop_id)
  ultimately show "b = put_string s @ r" by simp
qed

lemma put_string_inject:
  assumes "put_string s @ r = put_string s' @ r'" "length s < 2 ^ 32" "length s' < 2 ^ 32"
  shows "s = s' \<and> r = r'"
proof -
  have "Some (s, r) = Some (s', r')"
    using wire_string_put [OF assms(2), of r] unfolding assms(1) wire_string_put [OF assms(3)] by (rule sym)
  then show ?thesis by simp
qed

lemma key_blob_put: "length (pk_bytes k) = 32 \<Longrightarrow>
    key_blob k = put_string (ascii ''ssh-ed25519'') @ put_string (pk_bytes k)"
  by (cases "pk_alg k") (simp add: key_blob_def put_string_def Let_def)

lemma wire_take_magic: "wire_take 6 (SSHSIG_MAGIC @ r) = Some (SSHSIG_MAGIC, r)"
  by (simp add: wire_take_def SSHSIG_MAGIC_def ascii_def)

lemma wire_u32_one: "wire_u32 (be_bytes 4 1 @ r) = Some (1, r)"
  by (simp add: wire_u32_def wire_take_def be_val_be_bytes)

lemma wire_u32_Some: "wire_u32 r = Some (n, r') \<Longrightarrow> r = be_bytes 4 n @ r'"
  by (auto simp: wire_u32_def wire_take_def be_bytes_be_val split: if_splits)

lemma wire_take_Some: "wire_take n b = Some (s, r) \<Longrightarrow> b = s @ r \<and> length s = n"
  by (auto simp: wire_take_def split: if_splits)

lemma parse_blob_blob:
  assumes "length (pk_bytes k) = 32" "length sig = 64" "length ns < 2 ^ 32"
  shows "parse_blob (blob k ns sig) ns = Ok \<lparr>ss_key = k, ss_signature = sig\<rparr>"
proof -
  have k: "ed25519_key (pk_bytes k) = k" by (cases "pk_alg k") (simp add: ed25519_key_def)
  have small: "length (key_blob k) < 2 ^ 32" "length (ascii ''ssh-ed25519'') < 2 ^ 32"
    "length (ascii ''sha512'') < 2 ^ 32" "length ([] :: bytes) < 2 ^ 32"
    "length (put_string (ascii ''ssh-ed25519'') @ put_string sig) < 2 ^ 32"
    using assms by (simp_all add: key_blob_put ascii_def)
  note w = wire_string_put [OF assms(3)] small [THEN wire_string_put]
    wire_string_put [OF small(1), of "[]"] wire_string_put [OF small(5), of "[]", simplified append_Nil2]
  have kb: "wire_string (key_blob k) = Some (ascii ''ssh-ed25519'', put_string (pk_bytes k))"
    using w(3) assms(1) by (simp add: key_blob_put)
  have kr: "wire_string (put_string (pk_bytes k)) = Some (pk_bytes k, [])"
    using wire_string_put [of "pk_bytes k" "[]"] assms(1) by simp
  have sr: "wire_string (put_string sig) = Some (sig, [])"
    using wire_string_put [of sig "[]"] assms(2) by simp
  have st: "ssh_type (pk_alg k) = ascii ''ssh-ed25519''" by (cases "pk_alg k") simp
  show ?thesis
    unfolding parse_blob_def blob_def st
    by (simp add: wire_take_magic wire_u32_one w kb kr sr assms k del: One_nat_def)
qed

lemma parse_blob_Ok:
  assumes "parse_blob b ns = Ok s"
  shows "b = blob (ss_key s) ns (ss_signature s)" "length (pk_bytes (ss_key s)) = 32"
    "length (ss_signature s) = 64" "length ns < 2 ^ 32"
proof -
  obtain r1 r2 kb r3 kr kbytes r4 r5 r6 sb sr sbytes where
    w: "wire_take 6 b = Some (SSHSIG_MAGIC, r1)" "wire_u32 r1 = Some (1, r2)"
      "wire_string r2 = Some (kb, r3)" "wire_string kb = Some (ascii ''ssh-ed25519'', kr)"
      "wire_string kr = Some (kbytes, [])" "wire_string r3 = Some (ns, r4)"
      "wire_string r4 = Some ([], r5)" "wire_string r5 = Some (ascii ''sha512'', r6)"
      "wire_string r6 = Some (sb, [])" "wire_string sb = Some (ascii ''ssh-ed25519'', sr)"
      "wire_string sr = Some (sbytes, [])"
    and l: "length kbytes = 32" "length sbytes = 64"
    and s: "s = \<lparr>ss_key = ed25519_key kbytes, ss_signature = sbytes\<rparr>"
    using assms
    by (auto simp: parse_blob_def result_elims simp del: One_nat_def split: option.splits if_splits prod.splits)
  note e = w(3-11) [THEN wire_string_Some(1)]
  have "kb = key_blob (ed25519_key kbytes)" using e(2,3) l by (simp add: key_blob_put ed25519_key_def)
  then show "b = blob (ss_key s) ns (ss_signature s)"
    using wire_take_Some [OF w(1)] wire_u32_Some [OF w(2)] e
    by (simp add: s blob_def ed25519_key_def del: One_nat_def)
  show "length (pk_bytes (ss_key s)) = 32" "length (ss_signature s) = 64" "length ns < 2 ^ 32"
    using l wire_string_Some(2) [OF w(6)] by (simp_all add: s ed25519_key_def)
qed

section \<open>Armor\<close>

definition is_base64_char :: "u8 \<Rightarrow> bool" where
  "is_base64_char b \<longleftrightarrow> is_ascii_digit b \<or> (65 \<le> b \<and> b \<le> 90) \<or> (97 \<le> b \<and> b \<le> 122) \<or>
     b = 43 \<or> b = 47 \<or> b = 61"

text \<open>What is relied on of the base64 crate: decoding inverts encoding, the output is in the base64
  alphabet, and it is at most about twice as long as the input.\<close>

definition base64_ok :: "('p, 's) crypto \<Rightarrow> bool" where
  "base64_ok c \<longleftrightarrow> (\<forall>x. base64_decode c (base64_encode c x) = Some x \<and>
     list_all is_base64_char (base64_encode c x) \<and> length (base64_encode c x) \<le> 2 * length x + 4)"

lemma base64_char: "is_base64_char b \<Longrightarrow> b < 128 \<and> b \<noteq> 10 \<and> b \<noteq> 13 \<and> b \<noteq> 45"
  by (auto simp: is_base64_char_def is_ascii_digit_def word_le_nat_alt word_less_nat_alt word_unat_eq_iff)

lemma concat_chunks: "0 < n \<Longrightarrow> concat (chunks n xs) = xs"
  by (induction n xs rule: chunks.induct) (subst chunks.simps, simp)

lemma set_chunks: "p \<in> set (chunks n xs) \<Longrightarrow> set p \<subseteq> set xs \<and> p \<noteq> [] \<and> length p \<le> n"
proof (induction n xs rule: chunks.induct)
  case (1 n xs)
  show ?case
  proof (cases "xs = [] \<or> n = 0")
    case True
    then show ?thesis using "1.prems" by (simp add: chunks.simps [of n xs])
  next
    case False
    then have "p = take n xs \<or> p \<in> set (chunks n (drop n xs))"
      using "1.prems" by (simp add: chunks.simps [of n xs])
    then show ?thesis using "1.IH" [OF False] False set_take_subset [of n xs] set_drop_subset [of n xs]
      by auto
  qed
qed

lemma length_chunks: "0 < n \<Longrightarrow> length (chunks n xs) \<le> length xs"
proof (induction n xs rule: chunks.induct)
  case (1 n xs)
  show ?case
  proof (cases "xs = []")
    case False
    then have "length (chunks n xs) = Suc (length (chunks n (drop n xs)))" using "1.prems"
      by (subst chunks.simps) simp
    also have "\<dots> \<le> Suc (length (drop n xs))" using 1 False by simp
    also have "\<dots> \<le> length xs" using False "1.prems" by (cases xs) auto
    finally show ?thesis .
  qed (simp add: chunks.simps)
qed

lemma position_here: "\<not> list_ex P xs \<Longrightarrow> P y \<Longrightarrow> position P (xs @ y # ys) = Some (length xs)"
  by (induction xs) auto

lemma dearmor_armor:
  assumes "base64_ok c" "length (pk_bytes k) = 32" "length sig = 64" "length ns \<le> 1024"
  shows "dearmor c (armor c k ns sig) = Ok (blob k ns sig)"
proof -
  define b64 where "b64 = base64_encode c (blob k ns sig)"
  define ls where "ls = BEGIN_ARMOR # chunks 70 b64 @ [END_ARMOR]"
  have b64: "base64_decode c b64 = Some (blob k ns sig)" "list_all is_base64_char b64"
    "length b64 \<le> 2 * length (blob k ns sig) + 4"
    using assms(1) by (auto simp: base64_ok_def b64_def)
  have ch: "p \<in> set (chunks 70 b64) \<Longrightarrow> b \<in> set p \<Longrightarrow> b < 128 \<and> b \<noteq> 10 \<and> b \<noteq> 13 \<and> b \<noteq> 45" for p b
    using set_chunks [of p 70 b64] b64(2) base64_char by (auto simp: list_all_iff)
  have chv: "valid_utf8 p" if "p \<in> set (chunks 70 b64)" for p
    by (rule valid_utf8_ascii) (use ch [OF that] in blast)
  have dash: "45 \<in> set BEGIN_ARMOR" "45 \<in> set END_ARMOR"
    by (simp_all add: BEGIN_ARMOR_def END_ARMOR_def ascii_def)
  have ne: "BEGIN_ARMOR \<noteq> END_ARMOR" by (simp add: BEGIN_ARMOR_def END_ARMOR_def ascii_def)
  have brk: "b < 128 \<and> b \<noteq> 10 \<and> b \<noteq> 13" if "l \<in> set ls" "b \<in> set l" for l b
    using that ch by (auto simp: ls_def BEGIN_ARMOR_def END_ARMOR_def ascii_def)
  have form: "armor c k ns sig = concat (map (\<lambda>l. l @ [10]) ls)"
  proof -
    have m: "map (\<lambda>p. (if valid_utf8 p then p else []) @ [10]) (chunks 70 b64) = map (\<lambda>l. l @ [10]) (chunks 70 b64)"
      using chv by (intro map_cong) auto
    show ?thesis unfolding armor_def Let_def b64_def [symmetric] ls_def m by simp
  qed
  have bytes: "b < 128 \<and> b \<noteq> 13" if "b \<in> set (armor c k ns sig)" for b
    using that brk by (auto simp: form split: if_splits)
  have lines: "str_lines (filter (\<lambda>b. b \<noteq> 13) (armor c k ns sig)) = ls"
  proof -
    have "filter (\<lambda>b. b \<noteq> 13) (armor c k ns sig) = armor c k ns sig"
      using bytes by (auto intro!: filter_True)
    moreover have "str_lines (concat (map (\<lambda>l. l @ [10]) ls)) = ls"
      by (rule str_lines_concat) (use brk in blast)
    ultimately show ?thesis by (simp add: form)
  qed
  have "valid_utf8 (armor c k ns sig)" by (rule valid_utf8_ascii) (use bytes in blast)
  moreover have "length (armor c k ns sig) \<le> MAX_SIG_FILE"
  proof -
    have "length (blob k ns sig) \<le> 1300"
      using assms(2-4) by (cases "pk_alg k") (simp add: blob_def key_blob_put SSHSIG_MAGIC_def ascii_def)
    then have "length b64 \<le> 2604" using b64(3) by linarith
    moreover have "sum_list (map length (chunks 70 b64)) = length b64"
      using concat_chunks [of 70 b64] by (metis length_concat zero_less_numeral)
    moreover have "length (armor c k ns sig) = sum_list (map length (chunks 70 b64))
        + length (chunks 70 b64) + length BEGIN_ARMOR + length END_ARMOR + 2"
      using sum_list_Suc [of length "chunks 70 b64"] by (simp add: form ls_def length_concat comp_def)
    moreover have "length BEGIN_ARMOR = 29" "length END_ARMOR = 27"
      by (simp_all add: BEGIN_ARMOR_def END_ARMOR_def ascii_def)
    ultimately show ?thesis using length_chunks [of 70 b64] by (simp add: MAX_SIG_FILE_def)
  qed
  moreover have "position (\<lambda>l. l = BEGIN_ARMOR) ls = Some 0" by (simp add: ls_def)
  moreover have "position (\<lambda>l. l = END_ARMOR) ls = Some (Suc (length (chunks 70 b64)))"
    using position_here [of "\<lambda>l. l = END_ARMOR" "BEGIN_ARMOR # chunks 70 b64" END_ARMOR "[]"] ne dash(2) ch
    by (fastforce simp: ls_def list_ex_iff)
  ultimately show ?thesis
    using b64(1) concat_chunks [of 70 b64] by (simp add: dearmor_def lines) (simp add: ls_def slice_def)
qed

end
