(* ===== verification/Signed_Example.thy ===== *)
theory Signed_Example
  imports Sshsig
begin

text \<open>
  A concrete instance of the parameters of the signed mode, on which the properties are instantiated:
  "hashes" that keep the last bytes of their input, a "curve" on which a signature is the first
  half of the hash of the signed bytes, and hex in the place of base64.
\<close>

definition ex_hash :: "nat \<Rightarrow> bytes \<Rightarrow> bytes" where
  "ex_hash n b = take n (rev b @ replicate n 0)"

definition ex_r :: bytes where "ex_r = replicate 32 1"

definition ex_crypto :: "(bytes, bytes) crypto" where
  "ex_crypto = \<lparr>crc32 = \<lambda>b. of_nat (length b), sha256 = ex_hash 32, sha512 = ex_hash 64,
     base64_encode = hex, base64_decode = \<lambda>s. unhex (length s div 2) s,
     base64_nopad_encode = hex, base64_nopad_decode = \<lambda>s. unhex (length s div 2) s,
     decompress = \<lambda>b. if length b = 32 then Some b else None, compress = \<lambda>p. p,
     is_small_order = \<lambda>p. p = replicate 32 0, is_torsion_free = \<lambda>p. True, negate_point = \<lambda>p. p,
     double_scalar_mul = \<lambda>k a s. if s = take 32 k then ex_r else replicate 32 2,
     from_canonical_bytes = Some, from_bytes_mod_order = \<lambda>s. s, from_bytes_mod_order_wide = \<lambda>s. s,
     dalek_verify_strict = \<lambda>pk m sig. drop 32 sig = take 32 (ex_hash 64 (take 32 sig @ pk @ m))\<rparr>"

definition ex_signature :: "bytes \<Rightarrow> bytes \<Rightarrow> bytes" where
  "ex_signature pk data = ex_r @ take 32 (ex_hash 64 (ex_r @ pk @ data))"

definition ex_public :: public_key where "ex_public = ed25519_key (replicate 32 7)"

definition ex_signer :: signer where
  "ex_signer = \<lparr>sg_public_key = ex_public,
     sg_sign = \<lambda>ns m. Ok (ex_signature (pk_bytes ex_public) (signed_data ex_crypto ns m))\<rparr>"

lemma length_ex_hash [simp]: "length (ex_hash n b) = n"
  by (simp add: ex_hash_def)

lemma ex_crypto_simps [simp]:
  "sha256 ex_crypto = ex_hash 32" "sha512 ex_crypto = ex_hash 64"
  "base64_encode ex_crypto = hex" "crc32 ex_crypto b = of_nat (length b)"
  by (simp_all add: ex_crypto_def)

lemma length_ex_signature [simp]: "length (ex_signature pk d) = 64"
  by (simp add: ex_signature_def ex_r_def)

lemma hex_base64: "c \<in> set (hex bs) \<Longrightarrow> is_base64_char c"
  by (drule set_hex)
    (auto simp: is_base64_char_def is_ascii_digit_def word_le_nat_alt unat_hex_digit word_unat_eq_iff split: if_splits)

lemma ex_base64_ok: "base64_ok ex_crypto"
  by (auto simp: base64_ok_def list_all_iff hex_base64) (simp add: ex_crypto_def unhex_hex)

lemma ex_verify:
  assumes "length pk = 32" "pk \<noteq> replicate 32 0"
  shows "ed25519_verify ex_crypto pk d (ex_signature pk d) = Ok ()"
proof -
  have r: "length ex_r = 32" "ex_r \<noteq> replicate 32 0" by (simp_all add: ex_r_def)
  have parts: "take 32 (ex_signature pk d) = ex_r"
    "drop 32 (ex_signature pk d) = take 32 (ex_hash 64 (ex_r @ pk @ d))"
    using r by (simp_all add: ex_signature_def)
  show ?thesis
    using assms r
    by (simp add: ed25519_verify_def key_is_strong_def decode_canonical_def parts Let_def)
      (simp add: ex_crypto_def parts)
qed

lemma ex_signer_signs: "sign_checked ex_crypto ex_signer ns m =
    Ok (ex_signature (pk_bytes ex_public) (signed_data ex_crypto ns m))"
  by (simp add: sign_checked_def ex_signer_def ex_public_def ed25519_key_def ex_verify)

end
