(* ===== verification/Names.thy ===== *)
theory Names
  imports Unicode_Text Log_Dir
begin

text \<open>
  Names from untrusted input (\<^verbatim>\<open>signed/names.rs\<close>): which characters and paths are refused, how a name
  is escaped for printing, which file names are segments. Unicode normalization is a function of
  another crate and is the parameter \<open>nfc\<close>.
\<close>

definition is_forbidden :: "nat \<Rightarrow> bool" where
  "is_forbidden c \<longleftrightarrow> c \<le> 0x1f \<or> (0x7f \<le> c \<and> c \<le> 0x9f) \<or> (0x2028 \<le> c \<and> c \<le> 0x2029) \<or>
     (0x200e \<le> c \<and> c \<le> 0x200f) \<or> (0x202a \<le> c \<and> c \<le> 0x202e) \<or> (0x2066 \<le> c \<and> c \<le> 0x2069)"

datatype path_error =
    ForbiddenChar nat
  | EmptyPath
  | AbsolutePath
  | Backslash
  | BadComponent
  | NotNfc
  | ReservedEntry

definition check_string :: "bytes \<Rightarrow> (unit, path_error) result" where
  "check_string s =
     (case find is_forbidden (chars s) of Some c \<Rightarrow> Err (ForbiddenChar c) | None \<Rightarrow> Ok ())"

definition is_invisible :: "nat \<Rightarrow> bool" where
  "is_invisible c \<longleftrightarrow> is_forbidden c \<or> (0x200b \<le> c \<and> c \<le> 0x200d) \<or> (0x2060 \<le> c \<and> c \<le> 0x2064) \<or>
     c = 0xfeff \<or> c = 0x061c \<or> c = 0x00ad"

definition escape_char :: "nat \<Rightarrow> bytes" where
  "escape_char c =
     (if is_invisible c \<or> c = 92 then
        (if c = 92 then [92, 92] else [92, 117, 123] @ fmt_04X c @ [125])
      else encode_char c)"

definition escape :: "bytes \<Rightarrow> bytes" where
  "escape s = concat (map escape_char (chars s))"

definition RESERVED_ENTRIES :: "bytes list" where
  "RESERVED_ENTRIES = [ascii ''ogentic-audit-release.json'', ascii ''ogentic-audit-release.json.sig'',
     ascii ''ogentic-audit-signer.pub'', ascii ''ogentic-audit-keys'', ascii ''ogentic-audit-witness'']"

definition is_reserved :: "bytes \<Rightarrow> bool" where
  "is_reserved path \<longleftrightarrow> hd (split_byte 47 path) \<in> set RESERVED_ENTRIES"

definition check_path :: "(bytes \<Rightarrow> bytes) \<Rightarrow> bytes \<Rightarrow> (unit, path_error) result" where
  "check_path nfc path =
     bind_res (check_string path) (\<lambda>_.
       if path = [] then Err EmptyPath
       else if hd path = 47 then Err AbsolutePath
       else if 92 \<in> set path then Err Backslash
       else if list_ex (\<lambda>c. c = [] \<or> c = ascii ''.'' \<or> c = ascii ''..'') (split_byte 47 path)
       then Err BadComponent
       else if nfc path \<noteq> path then Err NotNfc
       else if is_reserved path then Err ReservedEntry
       else Ok ())"

definition litter_dir :: "bytes \<Rightarrow> bool" where
  "litter_dir c \<longleftrightarrow> c = ascii ''__MACOSX'' \<or> c = ascii ''.Spotlight-V100'' \<or> c = ascii ''.Trashes''"

definition is_os_litter :: "bytes \<Rightarrow> bool" where
  "is_os_litter path =
     (let comps = split_byte 47 path;
          lst = last comps;
          dirs = butlast comps
      in list_ex litter_dir dirs \<or> litter_dir lst
         \<or> lst = ascii ''.DS_Store'' \<or> lst = ascii ''Thumbs.db'' \<or> lst = ascii ''desktop.ini''
         \<or> take 2 lst = ascii ''._'')"

definition segment_index :: "bytes \<Rightarrow> u16 option" where
  "segment_index name =
     (case strip_prefix (ascii ''audit-'') name of None \<Rightarrow> None
      | Some rest \<Rightarrow>
          (case strip_suffix (ascii ''.cbor'') rest of None \<Rightarrow> None
           | Some body \<Rightarrow>
               if length body \<noteq> 4 \<or> \<not> list_all is_ascii_digit body then None
               else map_option of_nat (parse_uint 10 65535 body)))"

definition to_ascii_lowercase :: "u8 \<Rightarrow> u8" where
  "to_ascii_lowercase b = (if is_ascii_uppercase b then b + 32 else b)"

definition is_near_miss_segment :: "bytes \<Rightarrow> bool" where
  "is_near_miss_segment name =
     (if segment_index name \<noteq> None then False
      else let lower = map to_ascii_lowercase name
           in strip_prefix (ascii ''audit-'') lower \<noteq> None \<and> strip_suffix (ascii ''.cbor'') lower \<noteq> None)"

section \<open>Segment names\<close>

lemma digit_of_ascii: "is_ascii_digit c \<Longrightarrow> \<exists>d < 10. c = digit_char d \<and> to_digit 10 c = Some d"
proof -
  assume "is_ascii_digit c"
  then have b: "48 \<le> unat c" "unat c \<le> 57" by (simp_all add: is_ascii_digit_def word_le_nat_alt)
  then have "c = digit_char (unat c - 48)" by (simp add: word_unat_eq_iff unat_digit_char)
  then show ?thesis using b to_digit_digit_char [of "unat c - 48" 10]
    by (intro exI [of _ "unat c - 48"]) simp
qed

lemma digit10:
  fixes x y :: nat
  assumes "y < 10"
  shows "(x * 10 + y) mod 10 = y" "(x * 10 + y) div 10 = x"
  using assms by simp_all

lemma four_digits:
  assumes "length body = 4" "list_all is_ascii_digit body"
  shows "\<exists>n < 10000. body = pad_dec 4 n"
proof -
  obtain a b c d where "body = [a, b, c, d]" using assms(1)
    by (auto simp: numeral_eq_Suc length_Suc_conv)
  moreover obtain w x y z where "w < 10" "x < 10" "y < 10" "z < 10"
    "a = digit_char w" "b = digit_char x" "c = digit_char y" "d = digit_char z"
    using assms(2) \<open>body = [a, b, c, d]\<close> digit_of_ascii [of a] digit_of_ascii [of b]
      digit_of_ascii [of c] digit_of_ascii [of d] by auto
  ultimately have body: "body = map digit_char [w, x, y, z]" and lt: "w < 10" "x < 10" "y < 10" "z < 10"
    by simp_all
  define n where "n = ((w * 10 + x) * 10 + y) * 10 + z"
  have d: "n mod 10 = z" "n div 10 = (w * 10 + x) * 10 + y" "n div 10 mod 10 = y" "n div 10 div 10 = w * 10 + x"
    "n div 10 div 10 mod 10 = x" "n div 10 div 10 div 10 = w"
    unfolding n_def using lt by (simp_all only: digit10)
  have "n < 10000" using lt by (simp add: n_def)
  moreover have "pad_dec 4 n = map digit_char [w, x, y, z]"
  proof -
    note dd = dec_digits.simps [of n] dec_digits.simps [of "n div 10"]
      dec_digits.simps [of "n div 10 div 10"] dec_digits.simps [of "n div 10 div 10 div 10"]
    show ?thesis
    proof (cases "n < 10")
      case True
      then have "w = 0" "x = 0" "y = 0" "z = n" by (simp_all add: n_def)
      then show ?thesis using True by (simp add: pad_dec_def dd numeral_eq_Suc)
    next
      case n1: False
      show ?thesis
      proof (cases "n div 10 < 10")
        case True
        have "w = 0" "x = 0" "n div 10 = y" using True by (simp_all add: d(2))
        then have "dec_digits n = [digit_char y, digit_char z]"
          using n1 d(1) True dd(1,2) by simp
        moreover have "replicate 2 (digit_char 0) = [digit_char w, digit_char x]"
          using \<open>w = 0\<close> \<open>x = 0\<close> by (simp add: numeral_eq_Suc)
        ultimately show ?thesis by (simp add: pad_dec_def)
      next
        case n2: False
        have one: "dec_digits k = [digit_char k]" if "k < 10" for k
          using that by (simp add: dec_digits.simps [of k])
        have "dec_digits n = dec_digits (n div 10) @ [digit_char z]" using n1 d(1) dd(1) by simp
        moreover have "dec_digits (n div 10) = dec_digits (w * 10 + x) @ [digit_char y]"
          using n2 d(3,4) dd(2) by simp
        moreover have "dec_digits (w * 10 + x) =
            (if w = 0 then [digit_char x] else [digit_char w, digit_char x])"
          using dec_digits.simps [of "w * 10 + x"] one lt by (auto simp: digit10)
        ultimately have "dec_digits n = (if w = 0 then [digit_char x] else [digit_char w, digit_char x])
            @ [digit_char y, digit_char z]" by simp
        then show ?thesis by (simp add: pad_dec_def)
      qed
    qed
  qed
  ultimately show ?thesis using body by metis
qed

text \<open>The names that count as segments are exactly the names the writer gives to segments 0 to 9999.\<close>

lemma segment_index_iff: "segment_index name = Some i \<longleftrightarrow> name = segment_path i \<and> unat i < 10000"
proof
  assume "segment_index name = Some i"
  then obtain body where b: "name = ascii ''audit-'' @ body @ ascii ''.cbor''" "length body = 4"
    "list_all is_ascii_digit body" "map_option of_nat (parse_uint 10 65535 body) = Some i"
    by (auto simp: segment_index_def strip_prefix_Some strip_suffix_Some split: option.splits if_splits)
  then obtain n where n: "n < 10000" "body = pad_dec 4 n" using four_digits by blast
  then have i: "i = of_nat n" using b(4) parse_uint_pad_dec [of n 65535 4] by simp
  moreover have "unat (of_nat n :: u16) = n" using n(1) by (simp add: unat_of_nat)
  ultimately show "name = segment_path i \<and> unat i < 10000" using b(1) n by (simp add: segment_path_def)
next
  assume "name = segment_path i \<and> unat i < 10000"
  then show "segment_index name = Some i"
    using parse_uint_pad_dec [of "unat i" 65535 4] digits_pad_dec [of 4 "unat i"]
    by (simp add: segment_index_def segment_path_def length_pad_dec)
qed

section \<open>Escaped names\<close>

text \<open>The characters of an escaped name.\<close>

definition escaped_chars :: "nat \<Rightarrow> nat list" where
  "escaped_chars c =
     (if is_invisible c \<or> c = 92 then
        (if c = 92 then [92, 92] else [92, 117, 123] @ map unat (fmt_04X c) @ [125])
      else [c])"

lemma set_fmt_04X: "b \<in> set (fmt_04X n) \<Longrightarrow> 48 \<le> unat b \<and> unat b \<le> 70"
  by (auto simp: fmt_04X_def dest: set_upper_hex)

lemma escape_char_utf8: "escape_char c = utf8 (escaped_chars c)"
proof -
  have "utf8 (map unat (fmt_04X c)) = fmt_04X c"
    using set_fmt_04X by (subst utf8_ascii) (fastforce, simp add: comp_def)
  moreover have "utf8 [92, 92] = [92, 92]" "utf8 [92, 117, 123] = [92, 117, 123]" "utf8 [125] = [125]"
    by (simp_all add: utf8_ascii)
  moreover have "utf8 [c] = encode_char c" by (simp add: utf8_def)
  ultimately show ?thesis by (simp add: escape_char_def escaped_chars_def del: append.simps)
qed

lemma escaped_chars_clean: "d \<in> set (escaped_chars c) \<Longrightarrow> \<not> is_forbidden d"
  using set_fmt_04X
  by (fastforce simp: escaped_chars_def is_forbidden_def is_invisible_def split: if_splits)

lemma escaped_chars_scalar: "is_scalar c \<Longrightarrow> d \<in> set (escaped_chars c) \<Longrightarrow> is_scalar d"
  using set_fmt_04X by (fastforce simp: escaped_chars_def is_scalar_def split: if_splits)

lemma chars_escape:
  assumes "valid_utf8 s"
  shows "chars (escape s) = concat (map escaped_chars (chars s)) \<and> valid_utf8 (escape s)"
proof -
  obtain cs where cs: "s = utf8 cs" "\<forall>c \<in> set cs. is_scalar c" by (rule utf8_of_chars [OF assms])
  have "concat (map escape_char ds) = utf8 (concat (map escaped_chars ds))" for ds
    by (induction ds) (simp_all add: escape_char_utf8, simp add: utf8_def)
  then have "escape s = utf8 (concat (map escaped_chars cs))"
    using chars_utf8 [OF cs(2)] by (simp add: escape_def cs(1))
  moreover have "\<forall>c \<in> set (concat (map escaped_chars cs)). is_scalar c"
    using cs(2) escaped_chars_scalar by auto
  ultimately show ?thesis using chars_utf8 [OF cs(2)] chars_utf8 cs(1) by simp
qed

text \<open>Whatever name is printed, its escaped form holds no control character, no line or
  paragraph separator and no bidirectional control.\<close>

theorem escaped_names_are_clean:
  assumes "valid_utf8 s"
  shows "check_string (escape s) = Ok () \<and> valid_utf8 (escape s)"
proof -
  have "find is_forbidden (chars (escape s)) = None"
    using chars_escape [OF assms] escaped_chars_clean by (auto simp: find_None_iff)
  then show ?thesis using chars_escape [OF assms] by (simp add: check_string_def)
qed

theorem escaped_names_are_clean_witness:
  "check_string ([97, 10] @ encode_char 0x202e) = Err (ForbiddenChar 10) \<and>
   check_string (escape ([97, 10] @ encode_char 0x202e)) = Ok ()"
proof -
  have s: "is_scalar 97" "is_scalar 10" "is_scalar 0x202e" by (simp_all add: is_scalar_def)
  have e: "[97, 10] @ encode_char 0x202e = utf8 [97, 10, 0x202e]"
    by (simp add: utf8_def) (simp add: encode_char_def)
  have "valid_utf8 (utf8 [97, 10, 0x202e])" "chars (utf8 [97, 10, 0x202e]) = [97, 10, 0x202e]"
    using chars_utf8 [of "[97, 10, 0x202e]"] s by simp_all
  then show ?thesis unfolding e using escaped_names_are_clean [of "utf8 [97, 10, 0x202e]"]
    by (simp add: check_string_def is_forbidden_def)
qed

end
