(* ===== verification/Signed_Properties.thy ===== *)
theory Signed_Properties
  imports Signed_Example Names
begin

text \<open>
  The properties of the signed mode's keys, signatures and formats, with their instances.
\<close>

section \<open>Properties\<close>

text \<open>The armored form of a signature is read back to the key and the signature that went in,
  and only under the namespace it was made for.\<close>

theorem armored_signature_round_trip:
  assumes "base64_ok c" "length (pk_bytes k) = 32" "length sig = 64" "length ns \<le> 1024"
  shows "parse_armored c (armor c k ns sig) ns' =
    (if ns' = ns then Ok \<lparr>ss_key = k, ss_signature = sig\<rparr> else Err (NamespaceError ns' ns))"
proof -
  have "parse_blob (blob k ns sig) ns = Ok \<lparr>ss_key = k, ss_signature = sig\<rparr>"
    using assms by (intro parse_blob_blob) simp_all
  moreover have "parse_blob (blob k ns sig) ns' = Err (NamespaceError ns' ns)" if "ns' \<noteq> ns"
  proof -
    have small: "length (key_blob k) < 2 ^ 32" "length (ascii ''ssh-ed25519'') < 2 ^ 32" "length ns < 2 ^ 32"
      using assms by (simp_all add: key_blob_put ascii_def)
    note w = small [THEN wire_string_put]
    have kb: "wire_string (key_blob k) = Some (ascii ''ssh-ed25519'', put_string (pk_bytes k))"
      using w(2) assms(2) by (simp add: key_blob_put)
    have kr: "wire_string (put_string (pk_bytes k)) = Some (pk_bytes k, [])"
      using wire_string_put [of "pk_bytes k" "[]"] assms(2) by simp
    show ?thesis using that
      unfolding parse_blob_def blob_def
      by (simp add: wire_take_magic wire_u32_one w kb kr assms(2) del: One_nat_def)
  qed
  ultimately show ?thesis using dearmor_armor [OF assms] by (simp add: parse_armored_def)
qed

theorem armored_signature_round_trip_witness:
  "parse_armored ex_crypto (armor ex_crypto ex_public NS_RECORD (replicate 64 9)) NS_RECORD =
     Ok \<lparr>ss_key = ex_public, ss_signature = replicate 64 9\<rparr> \<and>
   parse_armored ex_crypto (armor ex_crypto ex_public NS_RECORD (replicate 64 9)) NS_RELEASE =
     Err (NamespaceError NS_RELEASE NS_RECORD)"
proof -
  have "length (pk_bytes ex_public) = 32" "length NS_RECORD \<le> 1024" "NS_RELEASE \<noteq> NS_RECORD"
    by (simp_all add: ex_public_def ed25519_key_def namespace_defs ascii_def)
  then show ?thesis using armored_signature_round_trip [OF ex_base64_ok, of ex_public "replicate 64 9" NS_RECORD]
    by simp
qed

text \<open>The parser of signature blobs is strict: a blob it accepts for a namespace is, byte for
  byte, the blob of the key and the signature it returns.\<close>

theorem signature_blobs_are_exact:
  assumes "length ns < 2 ^ 32"
  shows "parse_blob b ns = Ok s \<longleftrightarrow>
    b = blob (ss_key s) ns (ss_signature s) \<and> length (pk_bytes (ss_key s)) = 32 \<and>
    length (ss_signature s) = 64"
  using parse_blob_Ok [of b ns s] parse_blob_blob [of "ss_key s" "ss_signature s" ns] assms by auto

theorem signature_blobs_are_exact_witness:
  "parse_blob (blob ex_public NS_RECORD (replicate 64 9)) NS_RECORD =
     Ok \<lparr>ss_key = ex_public, ss_signature = replicate 64 9\<rparr>"
proof -
  have "length (pk_bytes ex_public) = 32" "length NS_RECORD < 2 ^ 32"
    by (simp_all add: ex_public_def ed25519_key_def namespace_defs ascii_def)
  then show ?thesis using signature_blobs_are_exact [of NS_RECORD "blob ex_public NS_RECORD (replicate 64 9)"
      "\<lparr>ss_key = ex_public, ss_signature = replicate 64 9\<rparr>"] by simp
qed

text \<open>Signatures made for one purpose never serve another: two messages with the same signed
  data have the same namespace and the same SHA-512.\<close>

theorem namespaces_are_separated:
  assumes "signed_data c ns m = signed_data c ns' m'"
    and "length ns < 2 ^ 32" "length ns' < 2 ^ 32" "\<forall>x. length (sha512 c x) = 64"
  shows "ns = ns' \<and> sha512 c m = sha512 c m'"
proof -
  have e: "put_string ns @ put_string [] @ put_string (ascii ''sha512'') @ put_string (sha512 c m) =
      put_string ns' @ put_string [] @ put_string (ascii ''sha512'') @ put_string (sha512 c m')"
    using assms(1) by (simp add: signed_data_def signed_data_prehashed_def)
  note i = put_string_inject [OF e assms(2,3)]
  have "put_string (sha512 c m) = put_string (sha512 c m')" using i by simp
  then have "sha512 c m = sha512 c m'"
    using put_string_inject [of "sha512 c m" "[]" "sha512 c m'" "[]"] assms(4) by simp
  then show ?thesis using i by blast
qed

theorem namespaces_are_separated_witness:
  "signed_data ex_crypto NS_RECORD [1, 2] \<noteq> signed_data ex_crypto NS_RELEASE [1, 2]"
proof -
  have "length NS_RECORD < 2 ^ 32" "length NS_RELEASE < 2 ^ 32" "NS_RECORD \<noteq> NS_RELEASE"
    by (simp_all add: namespace_defs ascii_def)
  then show ?thesis
    using namespaces_are_separated [of ex_crypto NS_RECORD "[1, 2]" NS_RELEASE "[1, 2]"] by auto
qed

end
