(* ===== verification/Json.thy ===== *)
theory Json
  imports Unicode_Text Ordered_Map
begin

text \<open>
  Canonical JSON (\<^verbatim>\<open>signed/json.rs\<close>): the value type, the printer and the parser of the restricted
  subset that signed documents use. An object is an ordered map. The parser works on the text that
  is left; an error carries the number of bytes left and \<open>parse_canonical\<close> turns it into the
  offset. The slices that could panic are checked, and a panic is a value.
\<close>

definition MAX_SAFE_INT :: u64 where "MAX_SAFE_INT = 2 ^ 53 - 1"

datatype json =
    JObject "(bytes \<times> json) list"
  | JArray "json list"
  | JString bytes
  | JInt u64
  | JBool bool
  | JNull

definition json_object :: "(string \<times> json) list \<Rightarrow> json" where
  "json_object items = JObject (fold (\<lambda>(k, v). bt_insert (ascii k) v) items [])"

definition json_get :: "json \<Rightarrow> bytes \<Rightarrow> json option" where
  "json_get v key = (case v of JObject m \<Rightarrow> bt_get m key | _ \<Rightarrow> None)"

definition as_str :: "json \<Rightarrow> bytes option" where
  "as_str v = (case v of JString s \<Rightarrow> Some s | _ \<Rightarrow> None)"

definition as_u64 :: "json \<Rightarrow> u64 option" where
  "as_u64 v = (case v of JInt n \<Rightarrow> Some n | _ \<Rightarrow> None)"

definition as_array :: "json \<Rightarrow> json list option" where
  "as_array v = (case v of JArray a \<Rightarrow> Some a | _ \<Rightarrow> None)"

definition as_object :: "json \<Rightarrow> (bytes, json) btree option" where
  "as_object v = (case v of JObject m \<Rightarrow> Some m | _ \<Rightarrow> None)"

text \<open>\<^verbatim>\<open>impl From<Option<T>> for Value\<close>.\<close>

definition json_option :: "('a \<Rightarrow> json) \<Rightarrow> 'a option \<Rightarrow> json" where
  "json_option f x = (case x of None \<Rightarrow> JNull | Some y \<Rightarrow> f y)"

section \<open>Printing\<close>

definition lower_hex4 :: "nat \<Rightarrow> bytes" where
  "lower_hex4 n = map (\<lambda>i. hex_digit (n div 16 ^ (3 - i) mod 16)) [0..<4]"

definition json_char :: "nat \<Rightarrow> bytes" where
  "json_char c =
     (if c = 34 then [92, 34]
      else if c = 92 then [92, 92]
      else if c = 8 then [92, 98]
      else if c = 12 then [92, 102]
      else if c = 10 then [92, 110]
      else if c = 13 then [92, 114]
      else if c = 9 then [92, 116]
      else if c < 32 then [92, 117] @ lower_hex4 c
      else encode_char c)"

definition write_string :: "bytes \<Rightarrow> bytes" where
  "write_string s = [34] @ concat (map json_char (chars s)) @ [34]"

definition json_newline :: "nat option \<Rightarrow> nat \<Rightarrow> bytes" where
  "json_newline indent level =
     (case indent of None \<Rightarrow> [] | Some n \<Rightarrow> 10 # replicate (n * level) 32)"

text \<open>The items of a container, separated by commas, each on its own line when indenting.\<close>

definition write_items :: "nat option \<Rightarrow> nat \<Rightarrow> u8 \<Rightarrow> u8 \<Rightarrow> bytes list \<Rightarrow> bytes" where
  "write_items indent level op cl items =
     [op]
     @ concat (map (\<lambda>(i, item). (if 0 < i then [44] else []) @ json_newline indent (level + 1) @ item)
         (enumerate 0 items))
     @ (if items = [] then [] else json_newline indent level) @ [cl]"

fun write_value :: "nat option \<Rightarrow> nat \<Rightarrow> json \<Rightarrow> bytes" where
  "write_value indent level JNull = ascii ''null''"
| "write_value indent level (JBool b) = (if b then ascii ''true'' else ascii ''false'')"
| "write_value indent level (JInt n) = dec_digits (unat n)"
| "write_value indent level (JString s) = write_string s"
| "write_value indent level (JArray items) =
     write_items indent level 91 93 (map (write_value indent (level + 1)) items)"
| "write_value indent level (JObject m) =
     write_items indent level 123 125
       (map (\<lambda>(k, v). write_string k @ [58] @ (if indent = None then [] else [32])
          @ write_value indent (level + 1) v) m)"

definition to_canonical :: "json \<Rightarrow> bytes" where
  "to_canonical v = write_value None 0 v"

definition to_pretty :: "json \<Rightarrow> bytes" where
  "to_pretty v = write_value (Some 2) 0 v"

section \<open>Parsing\<close>

datatype json_error =
    JsonSyntax nat
  | JsonDuplicateKey bytes
  | JsonTooDeep nat
  | JsonNotCanonical

abbreviation syntax_at :: "bytes \<Rightarrow> json_error" where
  "syntax_at s \<equiv> JsonSyntax (length s)"

definition is_ws :: "u8 \<Rightarrow> bool" where
  "is_ws b \<longleftrightarrow> b = 32 \<or> b = 9 \<or> b = 10 \<or> b = 13"

definition skip_ws :: "bytes \<Rightarrow> bytes" where
  "skip_ws s = dropWhile is_ws s"

definition parse_hex4 :: "bytes \<Rightarrow> (nat \<times> bytes, json_error) result" where
  "parse_hex4 s =
     bind_res (ok_or (syntax_at s) (str_slice s 0 4)) (\<lambda>h.
     bind_res (ok_or (syntax_at s) (parse_uint 16 (2 ^ 32 - 1) h)) (\<lambda>n. Ok (n, drop 4 s)))"

text \<open>What a backslash stands for, and the character copied from the text; both return the bytes
  pushed to the string. \<^verbatim>\<open>\u\<close> with a high surrogate needs a low one after it.\<close>

definition parse_code_point :: "bytes \<Rightarrow> (nat \<times> bytes, json_error) result" where
  "parse_code_point s =
     bind_res (parse_hex4 s) (\<lambda>(hi, s1).
       if 0xD800 \<le> hi \<and> hi < 0xDC00 then
         (if take 2 s1 \<noteq> [92, 117] then Err (syntax_at s1)
          else bind_res (parse_hex4 (drop 2 s1)) (\<lambda>(lo, s2).
            if 0xDC00 \<le> lo \<and> lo < 0xE000
            then Ok (0x10000 + (hi - 0xD800) * 1024 + (lo - 0xDC00), s2)
            else Err (syntax_at s2)))
       else Ok (hi, s1))"

definition parse_escape :: "bytes \<Rightarrow> (bytes \<times> bytes, json_error) result" where
  "parse_escape s =
     (case s of
        [] \<Rightarrow> Err (syntax_at s)
      | e # r \<Rightarrow>
          if e = 34 then Ok ([34], r)
          else if e = 92 then Ok ([92], r)
          else if e = 47 then Ok ([47], r)
          else if e = 98 then Ok ([8], r)
          else if e = 102 then Ok ([12], r)
          else if e = 110 then Ok ([10], r)
          else if e = 114 then Ok ([13], r)
          else if e = 116 then Ok ([9], r)
          else if e = 117 then
            bind_res (parse_code_point r) (\<lambda>(cp, r').
              if is_scalar cp then Ok (encode_char cp, r') else Err (syntax_at r'))
          else Err (syntax_at r))"

definition char_width :: "u8 \<Rightarrow> nat" where
  "char_width b = (if b < 0x80 then 1 else if b < 0xE0 then 2 else if b < 0xF0 then 3 else 4)"

text \<open>\<^verbatim>\<open>self.text[self.pos..]\<close> panics inside a character.\<close>

definition string_step :: "bytes \<Rightarrow> (bytes \<times> bytes, json_error) result" where
  "string_step s =
     (let c = hd s in
      if c = 92 then parse_escape (tl s)
      else if c < 32 then Err (syntax_at s)
      else if is_cont c then Panic
      else Ok (take (char_width c) s, drop (char_width c) s))"

lemma parse_hex4_length: "parse_hex4 s = Ok (n, r) \<Longrightarrow> length r < length s"
  by (auto simp: parse_hex4_def result_elims str_slice_def split: if_splits)

lemma parse_code_point_length: "parse_code_point s = Ok (n, r) \<Longrightarrow> length r < length s"
  by (auto simp: parse_code_point_def result_elims dest!: parse_hex4_length split: if_splits)

lemma parse_escape_length: "parse_escape s = Ok (p, r) \<Longrightarrow> length r < length s"
  by (auto simp: parse_escape_def result_elims dest!: parse_code_point_length split: list.splits if_splits)

lemma string_step_length: "string_step s = Ok (p, r) \<Longrightarrow> s \<noteq> [] \<Longrightarrow> length r < length s"
  by (cases s)
    (auto simp: string_step_def Let_def char_width_def dest: parse_escape_length split: if_splits)

function parse_string_loop :: "bytes \<Rightarrow> bytes \<Rightarrow> (bytes \<times> bytes, json_error) result" where
  "parse_string_loop out s =
     (if s = [] then Err (syntax_at s)
      else if hd s = 34 then Ok (out, tl s)
      else bind_res (string_step s) (\<lambda>(p, r). parse_string_loop (out @ p) r))"
  by pat_completeness auto
termination
  by (relation "measure (\<lambda>(out, s). length s)") (auto dest: string_step_length)

declare parse_string_loop.simps [simp del]

definition parse_string :: "bytes \<Rightarrow> (bytes \<times> bytes, json_error) result" where
  "parse_string s = parse_string_loop [] (tl s)"

definition parse_number :: "bytes \<Rightarrow> (json \<times> bytes, json_error) result" where
  "parse_number s =
     (let digits = takeWhile is_ascii_digit s;
          r = dropWhile is_ascii_digit s
      in if r \<noteq> [] \<and> hd r \<in> {46, 101, 69} then Err (syntax_at r)
         else if 1 < length digits \<and> hd digits = 48 then Err (syntax_at r)
         else bind_res (ok_or (syntax_at r) (parse_uint 10 (2 ^ 64 - 1) digits)) (\<lambda>n.
           if unat MAX_SAFE_INT < n then Err (syntax_at r) else Ok (JInt (of_nat n), r)))"

type_synonym value_parser = "bytes \<Rightarrow> (json \<times> bytes, json_error) result"

text \<open>The loops of \<^verbatim>\<open>object\<close> and \<^verbatim>\<open>array\<close> over the parser of the items. An item is never empty, so the
  rest is always shorter; the other branch is never reached (\<open>json_parser_never_panics\<close>).\<close>

definition parse_member :: "value_parser \<Rightarrow> bytes \<Rightarrow> ((bytes \<times> json) \<times> bytes, json_error) result" where
  "parse_member pv s =
     (let s1 = skip_ws s in
      if take 1 s1 \<noteq> [34] then Err (syntax_at s1)
      else bind_res (parse_string s1) (\<lambda>(key, s2).
        if \<not> list_all (\<lambda>b. b < 128) key then Err (syntax_at s2)
        else
          let s3 = skip_ws s2 in
          if take 1 s3 \<noteq> [58] then Err (syntax_at s3)
          else bind_res (pv (tl s3)) (\<lambda>(v, s4). Ok ((key, v), s4))))"

lemma take1_shorter: "take (Suc 0) r = [c] \<Longrightarrow> length r \<le> n \<Longrightarrow> length r - Suc 0 < n"
  by (cases r) auto

function object_loop ::
  "value_parser \<Rightarrow> (bytes, json) btree \<Rightarrow> bytes \<Rightarrow> (json \<times> bytes, json_error) result" where
  "object_loop pv m s =
     bind_res (parse_member pv s) (\<lambda>((key, v), r).
       if bt_get m key \<noteq> None then Err (JsonDuplicateKey key)
       else
         let m' = bt_insert key v m in
         if take 1 r = [44] then
           (if length r \<le> length s then object_loop pv m' (tl r) else Panic)
         else if take 1 r = [125] then Ok (JObject m', tl r)
         else Err (syntax_at r))"
  by pat_completeness auto
termination
  by (relation "measure (\<lambda>(pv, m, s). length s)") (auto dest: take1_shorter)

declare object_loop.simps [simp del]

function array_loop ::
  "value_parser \<Rightarrow> json list \<Rightarrow> bytes \<Rightarrow> (json \<times> bytes, json_error) result" where
  "array_loop pv items s =
     bind_res (pv s) (\<lambda>(v, r).
       if take 1 r = [44] then
         (if length r \<le> length s then array_loop pv (items @ [v]) (tl r) else Panic)
       else if take 1 r = [93] then Ok (JArray (items @ [v]), tl r)
       else Err (syntax_at r))"
  by pat_completeness auto
termination
  by (relation "measure (\<lambda>(pv, items, s). length s)") (auto dest: take1_shorter)

declare array_loop.simps [simp del]

definition parse_object :: "value_parser \<Rightarrow> value_parser" where
  "parse_object pv s =
     (let s1 = skip_ws (tl s) in
      if take 1 s1 = [125] then Ok (JObject [], tl s1) else object_loop pv [] s1)"

definition parse_array :: "value_parser \<Rightarrow> value_parser" where
  "parse_array pv s =
     (let s1 = skip_ws (tl s) in
      if take 1 s1 = [93] then Ok (JArray [], tl s1) else array_loop pv [] s1)"

text \<open>\<^verbatim>\<open>value\<close>, with the parsers of the two containers one level down.\<close>

definition value_with :: "value_parser \<Rightarrow> value_parser \<Rightarrow> value_parser" where
  "value_with po pa s =
     (let s1 = skip_ws s in
      if s1 = [] then Err (syntax_at s1)
      else
        let c = hd s1 in
        bind_res
          (if c = 123 then po s1
           else if c = 91 then pa s1
           else if c = 34 then bind_res (parse_string s1) (\<lambda>(t, r). Ok (JString t, r))
           else if is_ascii_digit c then parse_number s1
           else Err (syntax_at s1)) (\<lambda>(v, r). Ok (v, skip_ws r)))"

text \<open>The recursion is on the levels that are left: \<^verbatim>\<open>depth > max_depth\<close> means that none is.\<close>

primrec parse_value :: "nat \<Rightarrow> nat \<Rightarrow> value_parser" where
  "parse_value max_depth 0 = value_with (\<lambda>_. Err (JsonTooDeep max_depth)) (\<lambda>_. Err (JsonTooDeep max_depth))"
| "parse_value max_depth (Suc left) =
     value_with (parse_object (parse_value max_depth left)) (parse_array (parse_value max_depth left))"

definition valid_up_to :: "bytes \<Rightarrow> nat" where
  "valid_up_to s = last (filter (\<lambda>i. valid_utf8 (take i s)) [0..<Suc (length s)])"

definition json_offset :: "nat \<Rightarrow> json_error \<Rightarrow> json_error" where
  "json_offset n e = (case e of JsonSyntax k \<Rightarrow> JsonSyntax (n - k) | _ \<Rightarrow> e)"

definition parse_canonical :: "bytes \<Rightarrow> nat \<Rightarrow> (json, json_error) result" where
  "parse_canonical b max_depth =
     (if \<not> valid_utf8 b then Err (JsonSyntax (valid_up_to b))
      else map_err (json_offset (length b))
        (bind_res (parse_value max_depth max_depth b) (\<lambda>(v, r).
           if r \<noteq> [] then Err (syntax_at r)
           else if to_canonical v \<noteq> b then Err JsonNotCanonical
           else Ok v)))"

end
