(* ===== verification/Json_Codec.thy ===== *)
theory Json_Codec
  imports Json
begin

text \<open>
  Printing and parsing canonical JSON: the parser reads back what the printer writes, returns only
  values of the subset, and never panics, whatever the bytes are.
\<close>

section \<open>The parser reads back what the printer writes\<close>

lemma skip_ws_other: "\<not> is_ws c \<Longrightarrow> skip_ws (c # s) = c # s"
  by (simp add: skip_ws_def)

lemma small_hex4:
  assumes "c < 32" "valid_utf8 s"
  shows "parse_hex4 (lower_hex4 c @ s) = Ok (c, s)"
proof -
  have c: "c div 16 < 16" using assms(1) by simp
  have d: "lower_hex4 c = [hex_digit 0, hex_digit 0, hex_digit (c div 16), hex_digit (c mod 16)]"
  proof -
    have "[0..<4] = [0, 1, 2, 3 :: nat]" by (simp add: upt_rec)
    moreover have "c div 256 = 0" "c div 4096 = 0" "c div 16 mod 16 = c div 16" using assms(1) c by auto
    ultimately show ?thesis unfolding lower_hex4_def by (simp del: upt_rec)
  qed
  have "\<not> is_cont b" if "s = b # r" for b r using that assms(2) utf8_first by blast
  then have "is_char_boundary (lower_hex4 c @ s) 4"
    unfolding d is_char_boundary_def by (cases s) auto
  then have "str_slice (lower_hex4 c @ s) 0 4 = Some (lower_hex4 c)"
    by (simp add: str_slice_def d is_char_boundary_def slice_def)
  moreover have "c div 16 < 16" using assms(1) by simp
  then have "parse_uint 16 (2 ^ 32 - 1) (lower_hex4 c) = Some c"
    unfolding d parse_uint_def
    using unat_hex_digit [of 0] by (auto simp: to_digit_hex_digit)
  ultimately show ?thesis by (simp add: parse_hex4_def) (simp add: d)
qed

lemma char_bytes:
  assumes "is_scalar c" "32 \<le> c"
  obtains b r where "encode_char c = b # r" "\<not> is_cont b" "\<not> b < 32" "char_width b = Suc (length r)"
    "unat b = c \<or> 192 \<le> unat b"
proof -
  have c: "c < 0x110000" using assms by (auto simp: is_scalar_def)
  consider "c < 128" | "128 \<le> c" "c < 2048" | "2048 \<le> c" "c < 65536" | "65536 \<le> c" by linarith
  then show thesis
  proof cases
    case 1
    then obtain b where "encode_char c = [b]" "unat b = c" by (rule char1)
    then show thesis using 1 assms(2) by (intro that [of b "[]"]) (auto simp: byte_order char_width_def)
  next
    case 2
    obtain b d where e: "encode_char c = [b, d]" "unat b = 192 + c div 64" by (rule char2 [OF 2])
    moreover have "c div 64 < 32" using 2 by auto
    ultimately show thesis by (intro that [of b "[d]"]) (auto simp: byte_order char_width_def)
  next
    case 3
    obtain b d f where e: "encode_char c = [b, d, f]" "unat b = 224 + c div 4096" by (rule char3 [OF 3])
    moreover have "c div 4096 < 16" using 3 by auto
    ultimately show thesis by (intro that [of b "[d, f]"]) (auto simp: byte_order char_width_def)
  next
    case 4
    obtain b d f g where e: "encode_char c = [b, d, f, g]" "unat b = 240 + c div 262144" by (rule char4 [OF 4 c])
    moreover have "c div 262144 < 5" using c by auto
    ultimately show thesis by (intro that [of b "[d, f, g]"]) (auto simp: byte_order char_width_def)
  qed
qed

lemma json_char_step:
  assumes "is_scalar c" "valid_utf8 s"
  shows "string_step (json_char c @ s) = Ok (encode_char c, s) \<and> json_char c \<noteq> [] \<and> hd (json_char c) \<noteq> 34"
proof -
  consider "c \<in> {34, 92, 8, 12, 10, 13, 9}" | "c < 32" "c \<notin> {34, 92, 8, 12, 10, 13, 9}"
    | "32 \<le> c" "c \<noteq> 34" "c \<noteq> 92" by fastforce
  then show ?thesis
  proof cases
    case 1
    then show ?thesis by (auto simp: json_char_def string_step_def parse_escape_def encode_char_def)
  next
    case 2
    have "parse_code_point (lower_hex4 c @ s) = Ok (c, s)"
      using 2(1) small_hex4 [OF 2(1) assms(2)] by (simp add: parse_code_point_def)
    then show ?thesis using 2 assms(1) by (simp add: json_char_def string_step_def parse_escape_def)
  next
    case 3
    obtain b r where b: "encode_char c = b # r" "\<not> is_cont b" "\<not> b < 32" "char_width b = Suc (length r)"
      "unat b = c \<or> 192 \<le> unat b"
      by (rule char_bytes [OF assms(1) 3(1)])
    then have "b \<noteq> 34" "b \<noteq> 92" using 3 by auto
    then show ?thesis using 3 b by (auto simp: json_char_def string_step_def)
  qed
qed

lemma valid_ascii_append: "\<forall>b \<in> set a. b < 0x80 \<Longrightarrow> valid_utf8 (a @ t) = valid_utf8 t"
  by (induction a) auto

lemma json_chars_valid:
  assumes "\<forall>c \<in> set cs. is_scalar c" "valid_utf8 s"
  shows "valid_utf8 (concat (map json_char cs) @ s)"
  using assms(1)
proof (induction cs)
  case (Cons c cs)
  let ?t = "concat (map json_char cs) @ s"
  have t: "valid_utf8 ?t" and c: "is_scalar c" using Cons by auto
  have "hex_digit d < 0x80" if "d < 16" for d
    using that unat_hex_digit [of d] by (simp add: word_less_nat_alt)
  then have "\<forall>b \<in> set (lower_hex4 c). b < 0x80" by (auto simp: lower_hex4_def)
  then have "valid_utf8 (lower_hex4 c @ ?t)"
    using t valid_ascii_append by blast
  then have "valid_utf8 (json_char c @ ?t)"
    using t c chars_encode(2) [OF c, of ?t] by (auto simp: json_char_def)
  then show ?case by simp
qed (simp add: assms(2))

lemma parse_string_chars:
  assumes "\<forall>c \<in> set cs. is_scalar c" "valid_utf8 s"
  shows "parse_string_loop out (concat (map json_char cs) @ 34 # s) = Ok (out @ utf8 cs, s)"
  using assms(1)
proof (induction cs arbitrary: out)
  case Nil
  show ?case by (simp add: parse_string_loop.simps utf8_def)
next
  case (Cons c cs)
  let ?t = "concat (map json_char cs) @ 34 # s"
  have "valid_utf8 ?t" using Cons.prems assms(2) json_chars_valid [of cs "34 # s"] by simp
  then have st: "string_step (json_char c @ ?t) = Ok (encode_char c, ?t)" "json_char c \<noteq> []" "hd (json_char c) \<noteq> 34"
    using json_char_step [of c ?t] Cons.prems by auto
  have "parse_string_loop out (json_char c @ ?t) = parse_string_loop (out @ encode_char c) ?t"
    using st by (subst parse_string_loop.simps) simp
  then show ?case using Cons.IH [of "out @ encode_char c"] Cons.prems by (simp add: utf8_def)
qed

lemma parse_write_string:
  assumes "valid_utf8 t" "valid_utf8 s"
  shows "parse_string (write_string t @ s) = Ok (t, s)"
proof -
  obtain cs where cs: "t = utf8 cs" "\<forall>c \<in> set cs. is_scalar c" by (rule utf8_of_chars [OF assms(1)])
  have "chars t = cs" using chars_utf8 [OF cs(2)] cs(1) by simp
  then show ?thesis
    using parse_string_chars [OF cs(2) assms(2), of "[]"] cs(1)
    by (simp add: parse_string_def write_string_def)
qed

lemma write_string_valid:
  assumes "valid_utf8 t" "valid_utf8 s"
  shows "valid_utf8 (write_string t @ s)"
proof -
  obtain cs where cs: "t = utf8 cs" "\<forall>c \<in> set cs. is_scalar c" by (rule utf8_of_chars [OF assms(1)])
  have "chars t = cs" using chars_utf8 [OF cs(2)] cs(1) by simp
  then show ?thesis using json_chars_valid [OF cs(2), of "34 # s"] assms(2) by (simp add: write_string_def)
qed

definition ends_item :: "bytes \<Rightarrow> bool" where
  "ends_item s \<longleftrightarrow> valid_utf8 s \<and> (s = [] \<or> hd s \<in> {44, 93, 125})"

lemma hd_dec_digits: "0 < n \<Longrightarrow> hd (dec_digits n) \<noteq> 48"
proof (induction n rule: dec_digits.induct)
  case (1 n)
  show ?case
  proof (cases "n < 10")
    case True
    then show ?thesis using 1(2) unat_digit_char [of n] by (auto simp: dec_digits.simps [of n])
  next
    case False
    then show ?thesis using 1(1) by (simp add: dec_digits.simps [of n] div_greater_zero_iff)
  qed
qed

lemma parse_write_number:
  assumes "n \<le> MAX_SAFE_INT" "ends_item s"
  shows "parse_number (dec_digits (unat n) @ s) = Ok (JInt n, s)"
proof -
  let ?d = "dec_digits (unat n)"
  have digit: "is_ascii_digit b" if "b \<in> set ?d" for b
    using set_dec_digits [OF that] by (auto simp: is_ascii_digit_def word_le_nat_alt unat_digit_char)
  have "s = [] \<or> \<not> is_ascii_digit (hd s)" using assms(2) by (auto simp: ends_item_def is_ascii_digit_def)
  then have split: "takeWhile is_ascii_digit (?d @ s) = ?d" "dropWhile is_ascii_digit (?d @ s) = s"
    using digit by (cases s; simp)+
  have lead: "hd ?d \<noteq> 48" if "1 < length ?d"
  proof (rule hd_dec_digits)
    show "0 < unat n" using that by (cases "unat n < 10") (auto simp: dec_digits.simps [of "unat n"])
  qed
  have "unat n < 2 ^ 64" using unsigned_less [of n] by simp
  then have "unat n \<le> 2 ^ 64 - 1" by simp
  then have p: "parse_digits 10 (2 ^ 64 - 1) 0 ?d = Some (unat n)" by (rule parse_dec_digits)
  obtain b r where d: "?d = b # r" by (cases ?d) auto
  have "b \<noteq> 43" using digit [of b] by (auto simp: d is_ascii_digit_def)
  then have "parse_uint 10 (2 ^ 64 - 1) ?d = Some (unat n)"
    using p by (simp only: parse_uint_def d list.case if_False)
  then show ?thesis using split lead assms
    by (auto simp: parse_number_def Let_def ends_item_def word_le_nat_alt)
qed

text \<open>The values of the subset, at most \<open>l\<close> levels deep.\<close>

fun json_ok :: "nat \<Rightarrow> json \<Rightarrow> bool" where
  "json_ok l (JInt n) \<longleftrightarrow> n \<le> MAX_SAFE_INT"
| "json_ok l (JString s) \<longleftrightarrow> valid_utf8 s"
| "json_ok (Suc l) (JArray xs) \<longleftrightarrow> list_all (json_ok l) xs"
| "json_ok (Suc l) (JObject m) \<longleftrightarrow> bt_wf m \<and>
     list_all (\<lambda>(k, v). list_all (\<lambda>b. b < 128) k \<and> json_ok l v) m"
| "json_ok l v \<longleftrightarrow> False"

lemma json_ok_containers [simp]:
  "json_ok 0 (JArray xs) = False" "json_ok 0 (JObject m) = False"
  by simp_all

lemma write_items_None:
  "write_items None level op cl [] = [op, cl]"
  "write_items None level op cl (x # xs) = op # x @ concat (map (Cons 44) xs) @ [cl]"
proof -
  have "concat (map (\<lambda>(i, item). (if 0 < i then [44] else []) @ item) (enumerate (Suc n) xs)) =
      concat (map (Cons (44 :: u8)) xs)" for n
    by (induction xs arbitrary: n) auto
  then show "write_items None level op cl (x # xs) = op # x @ concat (map (Cons 44) xs) @ [cl]"
    by (simp add: write_items_def json_newline_def)
qed (simp add: write_items_def)

definition reads_item :: "value_parser \<Rightarrow> bytes \<Rightarrow> json \<Rightarrow> bool" where
  "reads_item pv b v \<longleftrightarrow> (\<forall>s. ends_item s \<longrightarrow> valid_utf8 (b @ s) \<and> pv (b @ s) = Ok (v, s))"

lemma array_loop_items:
  assumes "reads_item pv b v" and "list_all2 (reads_item pv) bs vs" and "valid_utf8 s"
  shows "array_loop pv acc (b @ concat (map (Cons 44) bs) @ 93 # s) = Ok (JArray (acc @ v # vs), s) \<and>
    valid_utf8 (b @ concat (map (Cons 44) bs) @ 93 # s)"
  using assms(2,1)
proof (induction bs vs arbitrary: b v acc rule: list_all2_induct)
  case Nil
  have "ends_item (93 # s)" using assms(3) by (simp add: ends_item_def)
  then show ?case using Nil by (subst array_loop.simps) (simp add: reads_item_def)
next
  case (Cons b2 bs v2 vs)
  let ?t = "b2 @ concat (map (Cons 44) bs) @ 93 # s"
  have IH: "array_loop pv (acc @ [v]) ?t = Ok (JArray ((acc @ [v]) @ v2 # vs), s)" "valid_utf8 ?t"
    using Cons.IH [OF Cons.hyps(1), of "acc @ [v]"] by auto
  then have "ends_item (44 # ?t)" by (simp add: ends_item_def)
  then have "pv (b @ 44 # ?t) = Ok (v, 44 # ?t)" "valid_utf8 (b @ 44 # ?t)"
    using Cons.prems unfolding reads_item_def by blast+
  then show ?case using IH by (subst array_loop.simps) simp
qed

definition member_bytes :: "bytes \<Rightarrow> bytes \<Rightarrow> bytes" where
  "member_bytes k b = write_string k @ 58 # b"

lemma parse_member_item:
  assumes "reads_item pv b v" and "list_all (\<lambda>b. b < 128) k" and "ends_item s"
  shows "parse_member pv (member_bytes k b @ s) = Ok ((k, v), s) \<and> valid_utf8 (member_bytes k b @ s)"
proof -
  have k: "valid_utf8 k" using assms(2) valid_utf8_ascii by (auto simp: list_all_iff)
  have b: "valid_utf8 (b @ s)" "pv (b @ s) = Ok (v, s)" using assms(1,3) unfolding reads_item_def by blast+
  have w: "write_string k @ r = 34 # concat (map json_char (chars k)) @ 34 # r" for r
    by (simp add: write_string_def)
  have "parse_string (write_string k @ 58 # b @ s) = Ok (k, 58 # b @ s)"
    using b by (intro parse_write_string [OF k]) simp
  moreover have "skip_ws (write_string k @ 58 # b @ s) = write_string k @ 58 # b @ s"
    "take 1 (write_string k @ 58 # b @ s) = [34]"
    unfolding w by (simp_all add: skip_ws_other is_ws_def)
  moreover have "skip_ws (58 # b @ s) = 58 # b @ s" by (simp add: skip_ws_other is_ws_def)
  ultimately have "parse_member pv (write_string k @ 58 # b @ s) = Ok ((k, v), s)"
    using assms(2) b by (simp add: parse_member_def Let_def)
  moreover have "valid_utf8 (write_string k @ 58 # b @ s)" using write_string_valid [OF k] b by simp
  ultimately show ?thesis by (simp add: member_bytes_def)
qed

lemma bt_insert_last: "\<forall>l \<in> fst ` set m. l < k \<Longrightarrow> bt_insert k v m = m @ [(k, v)]"
  by (induction k v m rule: bt_insert.induct) auto

lemma object_loop_items:
  assumes "reads_item pv b v" and "list_all2 (\<lambda>(k, b) (k', v). k = k' \<and> reads_item pv b v) bs vs"
    and "valid_utf8 s" and "bt_wf (acc @ (k, v) # vs)"
    and "list_all (\<lambda>(k, v). list_all (\<lambda>b. b < 128) k) ((k, v) # vs)"
  shows "object_loop pv acc (member_bytes k b @ concat (map (\<lambda>(k, b). 44 # member_bytes k b) bs) @ 125 # s) =
      Ok (JObject (acc @ (k, v) # vs), s) \<and>
    valid_utf8 (member_bytes k b @ concat (map (\<lambda>(k, b). 44 # member_bytes k b) bs) @ 125 # s)"
  using assms(2,1,4,5)
proof (induction bs vs arbitrary: k b v acc rule: list_all2_induct)
  case Nil
  have fresh: "bt_get acc k = None" "bt_insert k v acc = acc @ [(k, v)]"
    using Nil.prems(2) by (auto simp: bt_wf_def sorted_wrt_append map_of_eq_None_iff intro!: bt_insert_last)
  have "ends_item (125 # s)" using assms(3) by (simp add: ends_item_def)
  then show ?case
    using parse_member_item [OF Nil.prems(1), of k "125 # s"] Nil.prems(3) fresh
    by (subst object_loop.simps) simp
next
  case (Cons kb bs kv vs)
  obtain k2 b2 v2 where p: "kb = (k2, b2)" "kv = (k2, v2)" "reads_item pv b2 v2"
    using Cons.hyps(1) by (cases kb; cases kv) auto
  have fresh: "bt_get acc k = None" "bt_insert k v acc = acc @ [(k, v)]"
    using Cons.prems(2) by (auto simp: bt_wf_def sorted_wrt_append map_of_eq_None_iff intro!: bt_insert_last)
  let ?t = "member_bytes k2 b2 @ concat (map (\<lambda>(k, b). 44 # member_bytes k b) bs) @ 125 # s"
  have IH: "object_loop pv (acc @ [(k, v)]) ?t = Ok (JObject ((acc @ [(k, v)]) @ (k2, v2) # vs), s)" "valid_utf8 ?t"
    using Cons.IH [OF p(3), of "acc @ [(k, v)]" k2] Cons.prems p by auto
  then have "ends_item (44 # ?t)" by (simp add: ends_item_def)
  then have "parse_member pv (member_bytes k b @ 44 # ?t) = Ok ((k, v), 44 # ?t)"
    "valid_utf8 (member_bytes k b @ 44 # ?t)"
    using parse_member_item [OF Cons.prems(1), of k "44 # ?t"] Cons.prems(3) by auto
  then show ?case using IH fresh p by (subst object_loop.simps) simp
qed

lemma list_all2_map_self: "(\<And>x. x \<in> set xs \<Longrightarrow> P (f x) (g x)) \<Longrightarrow> list_all2 P (map f xs) (map g xs)"
  by (simp add: list_all2_conv_all_nth)

text \<open>Canonical text does not depend on the level.\<close>

abbreviation written :: "json \<Rightarrow> bytes" where
  "written v \<equiv> write_value None 0 v"

lemma write_items_level: "write_items None n op cl items = write_items None 0 op cl items"
  by (simp add: write_items_def json_newline_def)

lemma write_value_level: "write_value None n v = written v"
proof (induction v arbitrary: n)
  case (JObject m)
  let ?f = "\<lambda>n (k, v). write_string k @ [58] @ (if None = (None :: nat option) then [] else [32])
    @ write_value None (n + 1) v"
  have "map (?f n) m = map (?f 0) m"
  proof (rule map_cong [OF refl])
    fix kv assume kv: "kv \<in> set m"
    have "snd kv \<in> Basic_BNFs.snds kv" by (cases kv) (simp add: prod_set_simps)
    then have "write_value None (n + 1) (snd kv) = write_value None (0 + 1) (snd kv)"
      by (metis JObject [OF kv])
    then show "?f n kv = ?f 0 kv" by (simp only: case_prod_unfold)
  qed
  then show ?case
    unfolding write_value.simps write_items_level [of n] by (rule arg_cong)
next
  case (JArray xs)
  have "map (write_value None (n + 1)) xs = map (write_value None (0 + 1)) xs"
    by (rule map_cong [OF refl]) (metis JArray)
  then show ?case unfolding write_value.simps write_items_level [of n] by (rule arg_cong)
qed simp_all

lemma written_array:
  "written (JArray (v # vs)) = 91 # written v @ concat (map (Cons 44) (map written vs)) @ [93]"
proof -
  have m: "map (write_value None (0 + 1)) (v # vs) = written v # map written vs"
    by (simp add: write_value_level [of "Suc 0"])
  show ?thesis unfolding write_value.simps m write_items_None ..
qed

lemma written_object:
  "written (JObject ((k, v) # m)) =
   123 # member_bytes k (written v) @
     concat (map (\<lambda>(k, b). 44 # member_bytes k b) (map (\<lambda>(k, v). (k, written v)) m)) @ [125]"
proof -
  have m: "map (\<lambda>(k, v). write_string k @ [58] @ (if None = (None :: nat option) then [] else [32])
        @ write_value None (0 + 1) v) ((k, v) # m) =
      member_bytes k (written v) # map (\<lambda>(k, v). member_bytes k (written v)) m"
    by (simp add: write_value_level [of "Suc 0"] member_bytes_def case_prod_unfold)
  show ?thesis unfolding write_value.simps m write_items_None
    by (simp add: comp_def case_prod_unfold)
qed

lemma value_with_step:
  assumes "s = b # r" "\<not> is_ws b"
  shows "value_with po pa s =
    bind_res
      (if b = 123 then po s else if b = 91 then pa s
       else if b = 34 then bind_res (parse_string s) (\<lambda>(t, r). Ok (JString t, r))
       else if is_ascii_digit b then parse_number s else Err (syntax_at s)) (\<lambda>(v, r). Ok (v, skip_ws r))"
  using assms by (simp add: value_with_def skip_ws_other Let_def)

lemma ends_item_skip: "ends_item s \<Longrightarrow> skip_ws s = s"
  by (cases s) (auto simp: ends_item_def skip_ws_def is_ws_def)

lemma write_string_start: "write_string t = 34 # concat (map json_char (chars t)) @ [34]"
  by (simp add: write_string_def)

lemma dec_digits_start: "\<exists>b r. dec_digits n = b # r \<and> is_ascii_digit b"
proof -
  obtain b r where b: "dec_digits n = b # r" by (cases "dec_digits n") auto
  then have "b \<in> digit_char ` {..<10}" using set_dec_digits [of b n] by simp
  then show ?thesis using b by (auto simp: is_ascii_digit_def word_le_nat_alt unat_digit_char)
qed

lemma digit_other: "is_ascii_digit b \<Longrightarrow> \<not> is_ws b \<and> b \<noteq> 123 \<and> b \<noteq> 91 \<and> b \<noteq> 34 \<and> b \<noteq> 93 \<and> b \<noteq> 125"
  by (auto simp: is_ascii_digit_def is_ws_def)

lemma write_items_start: "\<exists>r. write_items None n op cl items = op # r"
  by (cases items) (simp_all only: write_items_None, blast+)

lemma written_start: "json_ok l v \<Longrightarrow> \<exists>b r. written v = b # r \<and> \<not> is_ws b \<and> b \<noteq> 93 \<and> b \<noteq> 125"
proof (cases v)
  case (JInt n)
  then show ?thesis using dec_digits_start [of "unat n"] digit_other by force
next
  case (JString t)
  then show ?thesis by (auto simp: write_string_start is_ws_def)
next
  case (JArray xs)
  then show ?thesis using write_items_start [of 0 91 93] by (fastforce simp: is_ws_def)
next
  case (JObject m)
  then show ?thesis using write_items_start [of 0 123 125] by (fastforce simp: is_ws_def)
qed (cases l; simp)+

text \<open>A container: what its own parser reads back, \<open>value\<close> reads back.\<close>

lemma reads_container:
  assumes "\<And>s. ends_item s \<Longrightarrow> p (w @ s) = Ok (v, s) \<and> valid_utf8 (w @ s)" and "w = b # r"
    and "b = 91 \<and> p = parse_array (parse_value d l) \<or> b = 123 \<and> p = parse_object (parse_value d l)"
  shows "reads_item (parse_value d (Suc l)) w v"
  unfolding reads_item_def
proof (intro allI impI conjI)
  fix s assume s: "ends_item s"
  show "valid_utf8 (w @ s)" using assms(1) [OF s] by blast
  have "value_with (parse_object (parse_value d l)) (parse_array (parse_value d l)) (w @ s) = Ok (v, s)"
    using assms(1) [OF s] assms(2,3) ends_item_skip [OF s]
    by (subst value_with_step [of _ b "r @ s"]) (auto simp: is_ws_def)
  then show "parse_value d (Suc l) (w @ s) = Ok (v, s)" by simp
qed

lemma parse_written_array:
  assumes "\<forall>x \<in> set xs. reads_item (parse_value d l) (written x) x \<and> json_ok l x" and "ends_item s"
  shows "parse_array (parse_value d l) (written (JArray xs) @ s) = Ok (JArray xs, s) \<and>
    valid_utf8 (written (JArray xs) @ s)"
proof -
  have v: "valid_utf8 s" using assms(2) by (simp add: ends_item_def)
  show ?thesis
  proof (cases xs)
    case Nil
    then show ?thesis using v by (simp add: write_items_None parse_array_def skip_ws_other is_ws_def)
  next
    case (Cons y ys)
    have y: "reads_item (parse_value d l) (written y) y" using assms(1) Cons by simp
    have ys: "list_all2 (reads_item (parse_value d l)) (map written ys) ys"
      using list_all2_map_self [of ys "reads_item (parse_value d l)" written "\<lambda>x. x"] assms(1) Cons by simp
    obtain t where t: "t = written y @ concat (map (Cons 44) (map written ys)) @ 93 # s" by blast
    have loop: "array_loop (parse_value d l) [] t = Ok (JArray xs, s)" "valid_utf8 t"
      using array_loop_items [OF y ys v, of "[]"] Cons unfolding t by simp_all
    have w: "written (JArray xs) @ s = 91 # t"
      by (simp only: Cons written_array append.simps append_assoc t)
    obtain b r where "t = b # r" "\<not> is_ws b" "b \<noteq> 93"
      using written_start [of l y] assms(1) Cons t by auto
    then have "skip_ws t = t" "take 1 t \<noteq> [93]" by (simp_all add: skip_ws_other)
    then show ?thesis using loop unfolding w by (simp add: parse_array_def Let_def)
  qed
qed

lemma parse_written_object:
  assumes "\<forall>(k, x) \<in> set m. reads_item (parse_value d l) (written x) x \<and> list_all (\<lambda>b. b < 128) k"
    and "bt_wf m" and "ends_item s"
  shows "parse_object (parse_value d l) (written (JObject m) @ s) = Ok (JObject m, s) \<and>
    valid_utf8 (written (JObject m) @ s)"
proof -
  have v: "valid_utf8 s" using assms(3) by (simp add: ends_item_def)
  show ?thesis
  proof (cases m)
    case Nil
    then show ?thesis using v by (simp add: write_items_None parse_object_def skip_ws_other is_ws_def)
  next
    case (Cons kv n)
    obtain k x where kv: "kv = (k, x)" by (cases kv)
    have x: "reads_item (parse_value d l) (written x) x" using assms(1) Cons kv by simp
    have n: "list_all2 (\<lambda>(k, b) (k', v). k = k' \<and> reads_item (parse_value d l) b v)
        (map (\<lambda>(k, v). (k, written v)) n) n"
      using list_all2_map_self [of n "\<lambda>(k, b) (k', v). k = k' \<and> reads_item (parse_value d l) b v"
          "\<lambda>(k, v). (k, written v)" "\<lambda>x. x"] assms(1) Cons by (auto simp: case_prod_unfold)
    obtain t where t: "t = member_bytes k (written x) @
        concat (map (\<lambda>(k, b). 44 # member_bytes k b) (map (\<lambda>(k, v). (k, written v)) n)) @ 125 # s" by blast
    have "list_all (\<lambda>(k, v). list_all (\<lambda>b. b < 128) k) ((k, x) # n)"
      using assms(1) Cons kv by (auto simp: list_all_iff)
    then have loop: "object_loop (parse_value d l) [] t = Ok (JObject m, s)" "valid_utf8 t"
      using object_loop_items [OF x n v, of "[]" k] assms(2) Cons kv unfolding t by simp_all
    have w: "written (JObject m) @ s = 123 # t"
      by (simp only: Cons kv written_object append.simps append_assoc t)
    obtain r where "t = 34 # r" by (simp add: t member_bytes_def write_string_start)
    then have "skip_ws t = t" "take 1 t \<noteq> [125]" by (simp_all add: skip_ws_other is_ws_def)
    then show ?thesis using loop unfolding w by (simp add: parse_object_def Let_def)
  qed
qed

theorem parse_written: "json_ok l v \<Longrightarrow> reads_item (parse_value d l) (written v) v"
proof (induction l v rule: json_ok.induct)
  case (1 l n)
  obtain b r where b: "dec_digits (unat n) = b # r" "is_ascii_digit b" using dec_digits_start by blast
  have ascii: "\<forall>b \<in> set (dec_digits (unat n)). b < 0x80"
    using set_dec_digits by (fastforce simp: word_less_nat_alt unat_digit_char)
  show ?case
    unfolding reads_item_def
  proof (intro allI impI conjI)
    fix s assume s: "ends_item s"
    have num: "parse_number (b # r @ s) = Ok (JInt n, s)"
      using parse_write_number [of n s] 1 s by (simp add: b)
    show "parse_value d l (written (JInt n) @ s) = Ok (JInt n, s)"
      using num b(2) digit_other [OF b(2)] ends_item_skip [OF s]
      by (cases l) (simp_all add: b(1) value_with_step [OF refl])
    show "valid_utf8 (written (JInt n) @ s)" using valid_ascii_append [OF ascii] s by (simp add: ends_item_def)
  qed
next
  case (2 l t)
  show ?case
    unfolding reads_item_def
  proof (intro allI impI conjI)
    fix s assume s: "ends_item s"
    then have v: "valid_utf8 s" by (simp add: ends_item_def)
    have "parse_string (write_string t @ s) = Ok (t, s)" using 2 v by (simp add: parse_write_string)
    then show "parse_value d l (written (JString t) @ s) = Ok (JString t, s)"
      using ends_item_skip [OF s] unfolding write_value.simps write_string_start
      by (cases l) (simp_all add: value_with_step [OF refl] is_ws_def)
    show "valid_utf8 (written (JString t) @ s)" using 2 v by (simp add: write_string_valid)
  qed
next
  case (3 l xs)
  obtain r where w: "written (JArray xs) = 91 # r" using write_items_start by fastforce
  have "\<forall>x \<in> set xs. reads_item (parse_value d l) (written x) x \<and> json_ok l x"
    using 3 by (auto simp: list_all_iff)
  then show ?case using parse_written_array by (intro reads_container [OF _ w]) auto
next
  case (4 l m)
  obtain r where w: "written (JObject m) = 123 # r" using write_items_start by fastforce
  have "\<forall>(k, x) \<in> set m. reads_item (parse_value d l) (written x) x \<and> list_all (\<lambda>b. b < 128) k" "bt_wf m"
    using 4 by (auto simp: list_all_iff case_prod_unfold)
  then show ?case using parse_written_object by (intro reads_container [OF _ w]) auto
qed simp_all

section \<open>The parser is safe\<close>

definition well_parsed :: "('a \<Rightarrow> bool) \<Rightarrow> bytes \<Rightarrow> ('a \<times> bytes, json_error) result \<Rightarrow> bool" where
  "well_parsed P s res \<longleftrightarrow>
     res \<noteq> Panic \<and> (\<forall>v r. res = Ok (v, r) \<longrightarrow> P v \<and> valid_utf8 r \<and> length r < length s)"

lemma well_parsed_Err [simp]: "well_parsed P s (Err e)"
  by (simp add: well_parsed_def)

lemma well_parsed_Ok [simp]: "well_parsed P s (Ok (v, r)) \<longleftrightarrow> P v \<and> valid_utf8 r \<and> length r < length s"
  by (auto simp: well_parsed_def)

lemma well_parsed_bind:
  assumes "well_parsed P s res"
    and "\<And>v r. P v \<Longrightarrow> valid_utf8 r \<Longrightarrow> length r < length s \<Longrightarrow> well_parsed Q s (f (v, r))"
  shows "well_parsed Q s (bind_res res f)"
proof (cases res)
  case (Ok x)
  obtain v r where "x = (v, r)" by fastforce
  then show ?thesis using assms(1) assms(2) [of v r] Ok by simp
qed (use assms(1) in \<open>simp_all add: well_parsed_def\<close>)

lemma well_parsed_longer: "well_parsed P s res \<Longrightarrow> length s \<le> length t \<Longrightarrow> well_parsed P t res"
  by (fastforce simp: well_parsed_def)

lemma encode_char_cont: "is_scalar c \<Longrightarrow> 0 < i \<Longrightarrow> i < length (encode_char c) \<Longrightarrow> is_cont (encode_char c ! i)"
proof -
  assume c: "is_scalar c" and i: "0 < i" "i < length (encode_char c)"
  have lt: "c < 0x110000" using c by (auto simp: is_scalar_def)
  consider "c < 128" | "128 \<le> c" "c < 2048" | "2048 \<le> c" "c < 65536" | "65536 \<le> c" by linarith
  then show ?thesis
  proof cases
    case 1
    then show ?thesis using i by (simp add: encode_char_def)
  next
    case 2
    obtain b d where "encode_char c = [b, d]" "unat d = 128 + c mod 64" by (rule char2 [OF 2])
    then show ?thesis using i by (auto simp: less_Suc_eq is_cont_unat)
  next
    case 3
    obtain b d f where "encode_char c = [b, d, f]" "unat d = 128 + c div 64 mod 64" "unat f = 128 + c mod 64"
      by (rule char3 [OF 3])
    then show ?thesis using i by (auto simp: less_Suc_eq is_cont_unat)
  next
    case 4
    obtain b d f g where "encode_char c = [b, d, f, g]" "unat d = 128 + c div 4096 mod 64"
      "unat f = 128 + c div 64 mod 64" "unat g = 128 + c mod 64"
      by (rule char4 [OF 4 lt])
    then show ?thesis using i by (auto simp: less_Suc_eq is_cont_unat)
  qed
qed

lemma utf8_drop_boundary:
  "valid_utf8 s \<Longrightarrow> is_char_boundary s i \<Longrightarrow> i \<le> length s \<Longrightarrow> valid_utf8 (drop i s)"
proof (induction "length s" arbitrary: s i rule: less_induct)
  case less
  show ?case
  proof (cases "i = 0 \<or> i = length s")
    case False
    then obtain c r where c: "is_scalar c" "s = encode_char c @ r" "valid_utf8 r"
      using utf8_step [OF less.prems(1)] less.prems(3) by fastforce
    have ne: "encode_char c \<noteq> []" by (simp add: encode_char_def)
    have "\<not> is_cont (s ! i)" using False less.prems(2) by (auto simp: is_char_boundary_def)
    then have ge: "length (encode_char c) \<le> i"
      using encode_char_cont [OF c(1), of i] False by (auto simp: c(2) nth_append not_less split: if_splits)
    have "is_char_boundary r (i - length (encode_char c))"
      using less.prems(2) ge by (auto simp: c(2) is_char_boundary_def nth_append)
    then have "valid_utf8 (drop (i - length (encode_char c)) r)"
      using less.hyps [of r] c ne less.prems(3) ge by simp
    then show ?thesis using ge by (simp add: c(2))
  qed (use less.prems in auto)
qed

lemma well_parsed_hex4: "valid_utf8 s \<Longrightarrow> well_parsed (\<lambda>_. True) s (parse_hex4 s)"
  by (auto simp: well_parsed_def parse_hex4_def result_elims bind_res_Panic_iff str_slice_def ok_or_def
      utf8_drop_boundary split: if_splits option.splits)

lemma valid_utf8_tl: "valid_utf8 (b # s) \<Longrightarrow> b < 0x80 \<Longrightarrow> valid_utf8 s"
  by simp

lemma well_parsed_low_half:
  assumes "valid_utf8 s1" "length s1 < length s" "take 2 s1 = [92, 117]"
    and "\<And>lo s2. valid_utf8 s2 \<Longrightarrow> length s2 < length s \<Longrightarrow> well_parsed Q s (f (lo, s2))"
  shows "well_parsed Q s (bind_res (parse_hex4 (drop 2 s1)) f)"
proof -
  obtain r where r: "s1 = 92 # 117 # r" using assms(3) by (cases s1; cases "tl s1") auto
  then have "valid_utf8 (drop 2 s1)" using assms(1) by simp
  from well_parsed_longer [OF well_parsed_hex4 [OF this], of s] show ?thesis
    using assms(2,4) by (intro well_parsed_bind [where P = "\<lambda>_. True"]) auto
qed

lemma well_parsed_code_point:
  "valid_utf8 s \<Longrightarrow> well_parsed (\<lambda>_. True) s (parse_code_point s)"
  unfolding parse_code_point_def
  by (rule well_parsed_bind [OF well_parsed_hex4]) (auto intro!: well_parsed_low_half)

lemma well_parsed_escape:
  assumes "valid_utf8 s"
  shows "well_parsed valid_utf8 s (parse_escape s)"
proof (cases s)
  case (Cons e r)
  have "well_parsed valid_utf8 s (bind_res (parse_code_point r) (\<lambda>(cp, r').
      if is_scalar cp then Ok (encode_char cp, r') else Err (syntax_at r')))" if "e = 117"
  proof (rule well_parsed_bind [where P = "\<lambda>_. True"])
    have "valid_utf8 r" using that assms Cons by simp
    then show "well_parsed (\<lambda>_. True) s (parse_code_point r)"
      using well_parsed_longer [OF well_parsed_code_point] Cons by simp
    show "well_parsed valid_utf8 s (case (cp, r') of (cp, r') \<Rightarrow>
        if is_scalar cp then Ok (encode_char cp, r') else Err (syntax_at r'))"
      if "valid_utf8 r'" "length r' < length s" for cp r'
      using that chars_encode(2) [of cp "[]"] by simp
  qed
  then show ?thesis using assms unfolding parse_escape_def Cons by auto
qed (simp add: parse_escape_def)

lemma well_parsed_step:
  assumes "valid_utf8 s" "s \<noteq> []"
  shows "well_parsed valid_utf8 s (string_step s)"
proof -
  obtain c r where c: "is_scalar c" "s = encode_char c @ r" "valid_utf8 r"
    by (rule utf8_step [OF assms])
  obtain b t where s: "s = b # t" using assms(2) by (cases s) auto
  have nc: "\<not> is_cont b" using assms(1) utf8_first unfolding s by blast
  consider "b = 92" | "b < 32" | "b \<noteq> 92" "\<not> b < 32" by blast
  then show ?thesis
  proof cases
    case 1
    then have "valid_utf8 t" using assms(1) s by simp
    then show ?thesis
      using 1 well_parsed_longer [OF well_parsed_escape, of t s] by (simp add: string_step_def s)
  next
    case 2
    then show ?thesis by (auto simp: string_step_def s)
  next
    case 3
    have ge: "32 \<le> c"
    proof (rule ccontr)
      assume "\<not> 32 \<le> c"
      then have "encode_char c = [of_nat c]" "unat (of_nat c :: u8) < 32"
        by (auto simp: encode_char_def unat_of_nat)
      then show False using c(2) s 3(2) by (auto simp: word_less_nat_alt)
    qed
    obtain a u where "encode_char c = a # u" "char_width a = Suc (length u)" by (rule char_bytes [OF c(1) ge])
    then have "take (char_width b) s = encode_char c" "drop (char_width b) s = r" "encode_char c \<noteq> []"
      using c(2) s by auto
    moreover have "string_step s = Ok (take (char_width b) s, drop (char_width b) s)"
      using 3 nc by (simp add: string_step_def s)
    moreover have "valid_utf8 (encode_char c)" using chars_encode(2) [OF c(1), of "[]"] by simp
    ultimately show ?thesis using c(2,3) by simp
  qed
qed

lemma well_parsed_string_loop:
  "valid_utf8 s \<Longrightarrow> valid_utf8 out \<Longrightarrow> well_parsed valid_utf8 s (parse_string_loop out s)"
proof (induction out s rule: parse_string_loop.induct)
  case (1 out s)
  show ?case
  proof (cases "s = [] \<or> hd s = 34")
    case True
    then show ?thesis using 1(2,3) by (cases s) (auto simp: parse_string_loop.simps)
  next
    case False
    have "well_parsed valid_utf8 s (bind_res (string_step s) (\<lambda>(p, r). parse_string_loop (out @ p) r))"
    proof (cases "string_step s")
      case (Ok pr)
      obtain p r where pr: "pr = (p, r)" by fastforce
      have w: "valid_utf8 p" "valid_utf8 r" "length r < length s"
        using well_parsed_step [OF 1(2)] False Ok pr by (auto simp: well_parsed_def)
      obtain cs ds where "out = utf8 cs" "\<forall>c \<in> set cs. is_scalar c" "p = utf8 ds" "\<forall>c \<in> set ds. is_scalar c"
        using utf8_of_chars 1(3) w(1) by metis
      then have "valid_utf8 (out @ p)" using chars_utf8 [of "cs @ ds"] by auto
      then have "well_parsed valid_utf8 r (parse_string_loop (out @ p) r)"
        using 1(1) False Ok pr w(2) by auto
      then have "well_parsed valid_utf8 s (parse_string_loop (out @ p) r)"
        using well_parsed_longer [of valid_utf8 r _ s] w(3) by simp
      then show ?thesis using Ok pr by simp
    qed (use well_parsed_step [OF 1(2)] False in \<open>auto simp: well_parsed_def\<close>)
    then show ?thesis using False by (simp add: parse_string_loop.simps [of out s])
  qed
qed

lemma well_parsed_string:
  "valid_utf8 s \<Longrightarrow> take 1 s = [34] \<Longrightarrow> well_parsed valid_utf8 s (parse_string s)"
  using well_parsed_longer [OF well_parsed_string_loop [of "tl s" "[]"], of s]
  by (cases s) (auto simp: parse_string_def)

lemma well_parsed_number:
  assumes "valid_utf8 s" "s \<noteq> []" "is_ascii_digit (hd s)"
  shows "well_parsed (json_ok l) s (parse_number s)"
proof -
  let ?d = "takeWhile is_ascii_digit s" and ?r = "dropWhile is_ascii_digit s"
  have "\<forall>b \<in> set ?d. b < 0x80"
    by (auto dest!: set_takeWhileD simp: is_ascii_digit_def word_le_nat_alt word_less_nat_alt)
  then have "valid_utf8 ?r" using valid_ascii_append [of ?d ?r] assms(1) by simp
  moreover have "length ?r < length s" using assms(2,3) by (cases s) (auto intro: le_imp_less_Suc length_dropWhile_le)
  moreover have "json_ok l (JInt (of_nat n))" if "n \<le> unat MAX_SAFE_INT" for n
  proof -
    have "n < 2 ^ 64" using that unsigned_less [of MAX_SAFE_INT] by (auto simp: MAX_SAFE_INT_def)
    then show ?thesis using that by (simp add: word_le_nat_alt unat_of_nat)
  qed
  ultimately show ?thesis
    by (auto simp: parse_number_def Let_def ok_or_def well_parsed_def result_elims bind_res_Panic_iff
        split: option.splits if_splits)
qed

lemma valid_skip_ws: "valid_utf8 s \<Longrightarrow> valid_utf8 (skip_ws s) \<and> length (skip_ws s) \<le> length s"
proof -
  assume v: "valid_utf8 s"
  have "\<forall>b \<in> set (takeWhile is_ws s). b < 0x80" by (auto dest!: set_takeWhileD simp: is_ws_def)
  then show ?thesis using valid_ascii_append [of "takeWhile is_ws s" "dropWhile is_ws s"] v
    by (simp add: skip_ws_def length_dropWhile_le)
qed

lemma take1_Cons:
  "take 1 s = [b] \<longleftrightarrow> (\<exists>r. s = b # r)" "take (Suc 0) s = [b] \<longleftrightarrow> (\<exists>r. s = b # r)"
  by (cases s; simp)+

definition item_parser :: "(json \<Rightarrow> bool) \<Rightarrow> value_parser \<Rightarrow> bool" where
  "item_parser P pv \<longleftrightarrow> (\<forall>s. valid_utf8 s \<longrightarrow> well_parsed P s (pv s))"

lemma well_parsed_member:
  assumes "item_parser P pv" "valid_utf8 s"
  shows "well_parsed (\<lambda>(k, v). list_all (\<lambda>b. b < 128) k \<and> P v) s (parse_member pv s)"
proof (cases "take 1 (skip_ws s) = [34]")
  case True
  let ?f = "\<lambda>(key, s2). if \<not> list_all (\<lambda>b. b < 128) key then Err (syntax_at s2)
      else let s3 = skip_ws s2 in
        if take 1 s3 \<noteq> [58] then Err (syntax_at s3)
        else bind_res (pv (tl s3)) (\<lambda>(v, s4). Ok ((key, v), s4))"
  have "well_parsed valid_utf8 s (parse_string (skip_ws s))"
    using well_parsed_longer [OF well_parsed_string] valid_skip_ws [OF assms(2)] True by blast
  then have "well_parsed (\<lambda>(k, v). list_all (\<lambda>b. b < 128) k \<and> P v) s (bind_res (parse_string (skip_ws s)) ?f)"
  proof (rule well_parsed_bind)
    fix key s2 assume s2: "valid_utf8 s2" "length s2 < length s"
    show "well_parsed (\<lambda>(k, v). list_all (\<lambda>b. b < 128) k \<and> P v) s (?f (key, s2))"
    proof (cases "list_all (\<lambda>b. b < 128) key \<and> take 1 (skip_ws s2) = [58]")
      case ok: True
      then obtain r where r: "skip_ws s2 = 58 # r" using take1_Cons(1) [of "skip_ws s2" 58] by blast
      have "valid_utf8 (58 # r)" "length (58 # r) \<le> length s2"
        using valid_skip_ws [OF s2(1)] unfolding r by blast+
      then have v: "valid_utf8 r" "length r < length s" using s2(2) by simp_all
      then have "well_parsed P s (pv r)" using assms(1) well_parsed_longer [of P r "pv r" s] by (simp add: item_parser_def)
      then have "well_parsed (\<lambda>(k, v). list_all (\<lambda>b. b < 128) k \<and> P v) s
          (bind_res (pv r) (\<lambda>(v, s4). Ok ((key, v), s4)))"
        by (rule well_parsed_bind) (use ok in auto)
      then show ?thesis using ok r by (simp add: Let_def)
    qed (auto simp: Let_def)
  qed
  then show ?thesis using True by (simp add: parse_member_def Let_def)
qed (simp add: parse_member_def Let_def)

definition object_of :: "(json \<Rightarrow> bool) \<Rightarrow> json \<Rightarrow> bool" where
  "object_of P v \<longleftrightarrow> (case v of JObject m \<Rightarrow>
     bt_wf m \<and> list_all (\<lambda>(k, v). list_all (\<lambda>b. b < 128) k \<and> P v) m | _ \<Rightarrow> False)"

definition array_of :: "(json \<Rightarrow> bool) \<Rightarrow> json \<Rightarrow> bool" where
  "array_of P v \<longleftrightarrow> (case v of JArray xs \<Rightarrow> list_all P xs | _ \<Rightarrow> False)"

lemma set_bt_insert_subset: "set (bt_insert k v m) \<subseteq> insert (k, v) (set m)"
  by (induction k v m rule: bt_insert.induct) auto

lemma well_parsed_object_loop:
  assumes "item_parser P pv"
  shows "valid_utf8 s \<Longrightarrow> object_of P (JObject m) \<Longrightarrow> well_parsed (object_of P) s (object_loop pv m s)"
proof (induction "length s" arbitrary: m s rule: less_induct)
  case less
  note mem = well_parsed_member [OF assms less.prems(1)]
  show ?case
    unfolding object_loop.simps [of pv m s]
  proof (rule well_parsed_bind [OF mem])
    fix kv :: "bytes \<times> json" and r
    assume kv: "case kv of (k, v) \<Rightarrow> list_all (\<lambda>b. b < 128) k \<and> P v" and r: "valid_utf8 r" "length r < length s"
    obtain k v where [simp]: "kv = (k, v)" by (cases kv)
    have m': "object_of P (JObject (bt_insert k v m))"
      using kv less.prems(2) set_bt_insert_subset [of k v m]
      by (fastforce simp: object_of_def bt_wf_insert list_all_iff)
    have "well_parsed (object_of P) s (object_loop pv (bt_insert k v m) t)" if "r = 44 # t" for t
    proof -
      have "valid_utf8 t" "length t < length s" using that r by auto
      then show ?thesis
        using less.hyps [of t "bt_insert k v m"] m' well_parsed_longer [of "object_of P" t _ s] by simp
    qed
    then show "well_parsed (object_of P) s ((\<lambda>((key, v), r).
        if bt_get m key \<noteq> None then Err (JsonDuplicateKey key)
        else let m' = bt_insert key v m in
          if take 1 r = [44] then if length r \<le> length s then object_loop pv m' (tl r) else Panic
          else if take 1 r = [125] then Ok (JObject m', tl r) else Err (syntax_at r)) (kv, r))"
      using m' r by (auto simp: Let_def take1_Cons)
  qed
qed

lemma well_parsed_array_loop:
  assumes "item_parser P pv"
  shows "valid_utf8 s \<Longrightarrow> list_all P items \<Longrightarrow> well_parsed (array_of P) s (array_loop pv items s)"
proof (induction "length s" arbitrary: items s rule: less_induct)
  case less
  have "well_parsed P s (pv s)" using assms less.prems(1) by (simp add: item_parser_def)
  then show ?case
    unfolding array_loop.simps [of pv items s]
  proof (rule well_parsed_bind)
    fix v r assume v: "P v" and r: "valid_utf8 r" "length r < length s"
    have "well_parsed (array_of P) s (array_loop pv (items @ [v]) t)" if "r = 44 # t" for t
    proof -
      have "valid_utf8 t" "length t < length s" using that r by auto
      then show ?thesis
        using less.hyps [of t "items @ [v]"] v less.prems(2) well_parsed_longer [of "array_of P" t _ s] by simp
    qed
    then show "well_parsed (array_of P) s (case (v, r) of (v, r) \<Rightarrow>
        if take 1 r = [44] then if length r \<le> length s then array_loop pv (items @ [v]) (tl r) else Panic
        else if take 1 r = [93] then Ok (JArray (items @ [v]), tl r) else Err (syntax_at r))"
      using v r less.prems(2) by (auto simp: take1_Cons array_of_def)
  qed
qed

lemma well_parsed_containers:
  assumes "item_parser P pv" "valid_utf8 (b # s)" "b < 0x80"
  shows "well_parsed (object_of P) (b # s) (parse_object pv (b # s))"
    and "well_parsed (array_of P) (b # s) (parse_array pv (b # s))"
proof -
  have s: "valid_utf8 (skip_ws s)" "length (skip_ws s) \<le> length s"
    using valid_skip_ws assms(2,3) by auto
  have "well_parsed (object_of P) (b # s) (object_loop pv [] (skip_ws s))"
    using well_parsed_longer [OF well_parsed_object_loop [OF assms(1) s(1)], of "[]" "b # s"] s(2)
    by (simp add: object_of_def)
  then show "well_parsed (object_of P) (b # s) (parse_object pv (b # s))"
    using s by (auto simp: parse_object_def Let_def take1_Cons object_of_def)
  have "well_parsed (array_of P) (b # s) (array_loop pv [] (skip_ws s))"
    using well_parsed_longer [OF well_parsed_array_loop [OF assms(1) s(1)], of "[]" "b # s"] s(2) by simp
  then show "well_parsed (array_of P) (b # s) (parse_array pv (b # s))"
    using s by (auto simp: parse_array_def Let_def take1_Cons array_of_def)
qed

lemma json_ok_containers_of:
  "object_of (json_ok l) v \<Longrightarrow> json_ok (Suc l) v" "array_of (json_ok l) v \<Longrightarrow> json_ok (Suc l) v"
  by (cases v; simp add: object_of_def array_of_def case_prod_unfold)+

lemma well_parsed_weaken: "well_parsed P s res \<Longrightarrow> (\<And>v. P v \<Longrightarrow> Q v) \<Longrightarrow> well_parsed Q s res"
  by (auto simp: well_parsed_def)

lemma well_parsed_value_with:
  assumes "valid_utf8 s"
    and "\<And>b r. valid_utf8 (b # r) \<Longrightarrow> b < 0x80 \<Longrightarrow> well_parsed (json_ok l) (b # r) (po (b # r))"
    and "\<And>b r. valid_utf8 (b # r) \<Longrightarrow> b < 0x80 \<Longrightarrow> well_parsed (json_ok l) (b # r) (pa (b # r))"
  shows "well_parsed (json_ok l) s (value_with po pa s)"
proof (cases "skip_ws s")
  case (Cons b r)
  have v: "valid_utf8 (b # r)" and len: "length (b # r) \<le> length s"
    using valid_skip_ws [OF assms(1)] unfolding Cons by blast+
  have "well_parsed (json_ok l) (b # r) (bind_res (parse_string (b # r)) (\<lambda>(t, r). Ok (JString t, r)))" if "b = 34"
    using well_parsed_string [OF v] that by (intro well_parsed_bind [where P = valid_utf8]) auto
  then have "well_parsed (json_ok l) (b # r)
      (if b = 123 then po (b # r) else if b = 91 then pa (b # r)
       else if b = 34 then bind_res (parse_string (b # r)) (\<lambda>(t, r). Ok (JString t, r))
       else if is_ascii_digit b then parse_number (b # r) else Err (syntax_at (b # r)))"
    using assms(2,3) [OF v] well_parsed_number [OF v] by auto
  then have "well_parsed (json_ok l) s (bind_res
      (if b = 123 then po (b # r) else if b = 91 then pa (b # r)
       else if b = 34 then bind_res (parse_string (b # r)) (\<lambda>(t, r). Ok (JString t, r))
       else if is_ascii_digit b then parse_number (b # r) else Err (syntax_at (b # r)))
      (\<lambda>(v, r). Ok (v, skip_ws r)))"
    using well_parsed_longer [OF _ len] valid_skip_ws
    by (intro well_parsed_bind [where P = "json_ok l"]) (fastforce intro: le_less_trans)+
  then show ?thesis by (simp add: value_with_def Cons Let_def)
qed (simp add: value_with_def)

lemma item_parser_value: "item_parser (json_ok l) (parse_value d l)"
proof (induction l)
  case 0
  then show ?case by (auto simp: item_parser_def intro!: well_parsed_value_with)
next
  case (Suc l)
  show ?case
    unfolding item_parser_def parse_value.simps
  proof (intro allI impI)
    fix s assume "valid_utf8 s"
    then show "well_parsed (json_ok (Suc l)) s
        (value_with (parse_object (parse_value d l)) (parse_array (parse_value d l)) s)"
      by (rule well_parsed_value_with)
        (rule well_parsed_weaken [OF _ json_ok_containers_of(1)] well_parsed_weaken [OF _ json_ok_containers_of(2)],
          rule well_parsed_containers [OF Suc], assumption+)+
  qed
qed

lemma parse_canonical_Ok:
  assumes "parse_canonical b d = Ok v"
  shows "json_ok d v \<and> b = to_canonical v"
proof -
  have p: "valid_utf8 b" "parse_value d d b = Ok (v, [])" "to_canonical v = b"
    using assms by (auto simp: parse_canonical_def result_elims split: if_splits)
  then show ?thesis
    using item_parser_value [of d d] by (force simp: item_parser_def well_parsed_def)
qed

lemma parse_canonical_written:
  assumes "json_ok d v"
  shows "parse_canonical (to_canonical v) d = Ok v"
proof -
  have "ends_item []" by (simp add: ends_item_def)
  then have "valid_utf8 (written v)" "parse_value d d (written v) = Ok (v, [])"
    using parse_written [of d v d] assms unfolding reads_item_def by force+
  then show ?thesis by (simp add: parse_canonical_def to_canonical_def)
qed

lemma parse_canonical_no_panic: "parse_canonical b d \<noteq> Panic"
proof -
  have "parse_value d d b \<noteq> Panic" if "valid_utf8 b"
    using item_parser_value [of d d] that by (simp add: item_parser_def well_parsed_def)
  moreover have "map_err f r = Panic \<longleftrightarrow> r = Panic" for f :: "json_error \<Rightarrow> json_error" and r :: "(json, json_error) result"
    by (cases r) auto
  ultimately show ?thesis by (auto simp: parse_canonical_def bind_res_Panic_iff split: if_splits)
qed

section \<open>Properties\<close>

text \<open>C35. Canonical JSON is unique: the parser of signed documents accepts exactly the texts the
  printer writes for the values of the subset (objects with sorted ASCII keys, arrays, strings and
  integers up to 2^53 - 1, at most \<open>d\<close> levels deep), and returns that value. So two parties that
  accept the same bytes read the same document, and no document has a second accepted text.\<close>

theorem canonical_json_is_exact:
  "parse_canonical b d = Ok v \<longleftrightarrow> json_ok d v \<and> b = to_canonical v"
  using parse_canonical_Ok parse_canonical_written by blast

text \<open>The parser of signed documents ends in a value or an error on every input: no slice it
  takes is inside a character, and every item it reads is shorter than what is left.\<close>

theorem json_parser_never_panics: "parse_canonical b d \<noteq> Panic"
  by (rule parse_canonical_no_panic)

end
