(* ===== verification/Key_Text.thy ===== *)
theory Key_Text
  imports Sshsig
begin

text \<open>
  The text forms of keys and fingerprints (the rest of \<^verbatim>\<open>signed/keys.rs\<close>): OpenSSH lines, PEM, hex,
  grouped hex and \<^verbatim>\<open>SHA256:\<close> fingerprints, written and read, and the functions of \<^verbatim>\<open>str\<close> they use.
  The base64 engines are parameters.
\<close>

section \<open>Trimming and splitting\<close>

definition str_trim :: "bytes \<Rightarrow> bytes" where
  "str_trim s = utf8 (rev (dropWhile is_whitespace (rev (dropWhile is_whitespace (chars s)))))"

fun ws_words :: "nat list \<Rightarrow> nat list \<Rightarrow> nat list list" where
  "ws_words w [] = (if w = [] then [] else [w])"
| "ws_words w (c # cs) =
     (if is_whitespace c then (if w = [] then ws_words [] cs else w # ws_words [] cs)
      else ws_words (w @ [c]) cs)"

definition split_whitespace :: "bytes \<Rightarrow> bytes list" where
  "split_whitespace s = map utf8 (ws_words [] (chars s))"

definition starts_with :: "bytes \<Rightarrow> bytes \<Rightarrow> bool" where
  "starts_with s p \<longleftrightarrow> strip_prefix p s \<noteq> None"

definition trim_end_byte :: "u8 \<Rightarrow> bytes \<Rightarrow> bytes" where
  "trim_end_byte b s = rev (dropWhile (\<lambda>c. c = b) (rev s))"

section \<open>Public keys\<close>

datatype key_parse_error = KeyFormat | KeyWeak | KeyFingerprint bytes

definition SPKI_ED25519_PREFIX :: bytes where
  "SPKI_ED25519_PREFIX = [0x30, 0x2a, 0x30, 0x05, 0x06, 0x03, 0x2b, 0x65, 0x70, 0x03, 0x21, 0x00]"

definition to_openssh :: "('p, 's) crypto \<Rightarrow> public_key \<Rightarrow> bytes \<Rightarrow> bytes" where
  "to_openssh c k comment =
     (let b64 = base64_encode c (key_blob k)
      in if comment = [] then ssh_type (pk_alg k) @ [32] @ b64
         else ssh_type (pk_alg k) @ [32] @ b64 @ [32] @ comment)"

definition BEGIN_PUBLIC :: bytes where "BEGIN_PUBLIC = ascii ''-----BEGIN PUBLIC KEY-----''"
definition END_PUBLIC :: bytes where "END_PUBLIC = ascii ''-----END PUBLIC KEY-----''"

definition to_pem :: "('p, 's) crypto \<Rightarrow> public_key \<Rightarrow> bytes" where
  "to_pem c k =
     BEGIN_PUBLIC @ [10] @ base64_encode c (SPKI_ED25519_PREFIX @ pk_bytes k) @ [10] @ END_PUBLIC @ [10]"

definition key_to_hex :: "public_key \<Rightarrow> bytes" where
  "key_to_hex k = hex (pk_bytes k)"

definition parse_pem :: "('p, 's) crypto \<Rightarrow> bytes \<Rightarrow> (public_key, key_parse_error) result" where
  "parse_pem c t =
     (let body = concat (filter (\<lambda>l. \<not> starts_with l (ascii ''-----'')) (map str_trim (str_lines t)))
      in bind_res (ok_or KeyFormat (base64_decode c body)) (\<lambda>der.
           if length der \<noteq> 44 \<or> take 12 der \<noteq> SPKI_ED25519_PREFIX then Err KeyFormat
           else Ok (ed25519_key (drop 12 der))))"

definition key_parse :: "('p, 's) crypto \<Rightarrow> bytes \<Rightarrow> (public_key, key_parse_error) result" where
  "key_parse c txt =
     (let t = str_trim txt in
      if starts_with t BEGIN_PUBLIC then parse_pem c t
      else case strip_prefix (ascii ''ssh-ed25519 '') t of
        Some rest \<Rightarrow>
          let b64 = (case split_whitespace rest of [] \<Rightarrow> [] | w # _ \<Rightarrow> w)
          in bind_res (ok_or KeyFormat (base64_decode c b64)) (\<lambda>b. map_err (\<lambda>_. KeyFormat) (from_key_blob b))
      | None \<Rightarrow>
          (case unhex 32 t of Some b \<Rightarrow> Ok (ed25519_key b) | None \<Rightarrow> Err KeyFormat))"

section \<open>Fingerprints\<close>

definition grouped :: "u8 \<Rightarrow> fingerprint \<Rightarrow> bytes" where
  "grouped sep f =
     concat (map (\<lambda>(i, chunk). (if 0 < i then [sep] else []) @ (if valid_utf8 chunk then chunk else []))
       (enumerate 0 (chunks 4 (hex f))))"

definition to_grouped_hex :: "fingerprint \<Rightarrow> bytes" where "to_grouped_hex f = grouped 32 f"
definition to_dashed_hex :: "fingerprint \<Rightarrow> bytes" where "to_dashed_hex f = grouped 45 f"

definition fp_to_openssh :: "('p, 's) crypto \<Rightarrow> fingerprint \<Rightarrow> bytes" where
  "fp_to_openssh c f = ascii ''SHA256:'' @ base64_nopad_encode c f"

definition fp_parse :: "('p, 's) crypto \<Rightarrow> bytes \<Rightarrow> (fingerprint, key_parse_error) result" where
  "fp_parse c txt =
     (let t = str_trim txt in
      case strip_prefix (ascii ''SHA256:'') t of
        Some b64 \<Rightarrow>
          bind_res (ok_or (KeyFingerprint t) (base64_nopad_decode c (trim_end_byte 61 b64))) (\<lambda>b.
            if length b = 32 then Ok b else Err (KeyFingerprint t))
      | None \<Rightarrow>
          ok_or (KeyFingerprint t)
            (unhex 32 (utf8 (filter (\<lambda>c. c \<noteq> 32 \<and> c \<noteq> 45 \<and> c \<noteq> 58) (chars t)))))"

section \<open>Every form is read back\<close>

text \<open>What is relied on of the base64 engine without padding.\<close>

definition base64_nopad_ok :: "('p, 's) crypto \<Rightarrow> bool" where
  "base64_nopad_ok c \<longleftrightarrow> (\<forall>x. base64_nopad_decode c (base64_nopad_encode c x) = Some x \<and>
     list_all (\<lambda>b. is_base64_char b \<and> b \<noteq> 61) (base64_nopad_encode c x))"

lemma chars_ascii: "list_all (\<lambda>b. b < 128) s \<Longrightarrow> chars s = map unat s"
  by (induction s) auto

lemma utf8_unat: "list_all (\<lambda>b. b < 128) s \<Longrightarrow> utf8 (map unat s) = s"
  by (induction s) (auto simp: utf8_def encode_char_def word_less_nat_alt)

lemma list_all_take_drop: "list_all P s \<Longrightarrow> list_all P (take n s) \<and> list_all P (drop n s)"
  by (metis append_take_drop_id list_all_append)

lemma filter_unat: "filter P (map unat s) = map unat (filter (\<lambda>b. P (unat b)) (s :: bytes))"
  by (simp add: filter_map comp_def)

lemma dropWhile_unat: "dropWhile P (map unat s) = map unat (dropWhile (\<lambda>b. P (unat b)) (s :: bytes))"
  by (simp add: dropWhile_map comp_def)

definition is_space :: "u8 \<Rightarrow> bool" where "is_space b \<longleftrightarrow> is_whitespace (unat b)"

lemma str_trim_ascii:
  assumes "list_all (\<lambda>b. b < 128) s"
  shows "str_trim s = rev (dropWhile is_space (rev (dropWhile is_space s)))"
proof -
  let ?t = "rev (dropWhile is_space (rev (dropWhile is_space s)))"
  have "set ?t \<subseteq> set s" by (auto dest!: set_dropWhileD)
  then have "list_all (\<lambda>b. b < 128) ?t" using assms by (auto simp: list_all_iff)
  then have "utf8 (map unat ?t) = ?t" by (rule utf8_unat)
  moreover have "map unat ?t = rev (dropWhile is_whitespace (rev (dropWhile is_whitespace (chars s))))"
    by (simp add: chars_ascii [OF assms] dropWhile_unat rev_map is_space_def [abs_def])
  ultimately show ?thesis by (simp add: str_trim_def)
qed

text \<open>A text without white space at its ends is its own trim.\<close>

lemma str_trim_id:
  assumes "list_all (\<lambda>b. b < 128) s" "s \<noteq> []" "\<not> is_space (hd s)" "\<not> is_space (last s)"
  shows "str_trim s = s" "str_trim (s @ [10]) = s"
proof -
  have "dropWhile is_space s = s" using assms(2,3) by (cases s) auto
  moreover have "dropWhile is_space (rev s) = rev s" using assms(2,4) by (cases s rule: rev_cases) auto
  moreover have "dropWhile is_space (s @ [10]) = s @ [10]" using assms(2,3) by (cases s) auto
  moreover have "is_space 10" by (simp add: is_space_def is_whitespace_def)
  ultimately show "str_trim s = s" "str_trim (s @ [10]) = s"
    using assms(1) by (simp_all add: str_trim_ascii)
qed

lemma hex_ascii_bytes: "list_all (\<lambda>b. b < 128 \<and> b \<noteq> 32 \<and> b \<noteq> 45 \<and> b \<noteq> 58) (hex bs)"
proof -
  have "b < 128 \<and> b \<noteq> 32 \<and> b \<noteq> 45 \<and> b \<noteq> 58" if b: "b \<in> set (hex bs)" for b
  proof -
    obtain d where "d < 16" "b = hex_digit d" using set_hex [OF b] by auto
    then have "unat b = (if d < 10 then 48 + d else 87 + d)" "d < 16" using unat_hex_digit by auto
    then show ?thesis by (auto simp: word_less_nat_alt word_unat_eq_iff split: if_splits)
  qed
  then show ?thesis by (simp add: list_all_iff)
qed

lemma filter_grouped:
  assumes "list_all (\<lambda>b. P b) (concat cs)" "\<not> P sep"
  shows "filter P (concat (map (\<lambda>(i, chunk). (if 0 < i then [sep] else []) @ chunk) (enumerate n cs))) = concat cs"
  using assms by (induction cs arbitrary: n) (auto simp: list_all_iff filter_id_conv)

lemma filter_ascii_chars:
  assumes "list_all (\<lambda>b. b < 128) s"
  shows "utf8 (filter P (chars s)) = filter (\<lambda>b. P (unat b)) s"
  using assms by (simp add: chars_ascii filter_unat utf8_unat list_all_iff)

lemma starts_with_iff: "starts_with s p \<longleftrightarrow> (\<exists>r. s = p @ r)"
  using strip_prefix_Some [of p s] by (cases "strip_prefix p s") (auto simp: starts_with_def)

lemma strip_prefix_hd: "s \<noteq> [] \<Longrightarrow> hd s \<noteq> b \<Longrightarrow> strip_prefix (b # p) s = None"
  by (cases s) (simp_all add: strip_prefix_def)

lemma hex_char: "b \<in> set (hex bs) \<Longrightarrow> b < 128 \<and> \<not> is_space b \<and> b \<noteq> 32 \<and> b \<noteq> 45 \<and> b \<noteq> 58 \<and> b \<noteq> 83 \<and> b \<noteq> 115"
proof -
  assume b: "b \<in> set (hex bs)"
  obtain d where "d < 16" "b = hex_digit d" using set_hex [OF b] by auto
  then have "unat b = (if d < 10 then 48 + d else 87 + d)" "d < 16" using unat_hex_digit by auto
  then show ?thesis
    by (auto simp: word_less_nat_alt word_unat_eq_iff is_space_def is_whitespace_def split: if_splits)
qed

lemma last_grouped:
  "cs \<noteq> [] \<Longrightarrow> \<forall>c \<in> set cs. c \<noteq> [] \<Longrightarrow>
   last (concat (map (\<lambda>(i, chunk). (if 0 < i then [sep] else []) @ chunk) (enumerate n cs))) = last (last cs)"
proof (induction cs arbitrary: n)
  case (Cons a cs)
  let ?f = "\<lambda>n cs. concat (map (\<lambda>(i, chunk). (if 0 < i then [sep] else []) @ chunk) (enumerate n cs))"
  have "?f (Suc n) cs \<noteq> []" if "cs \<noteq> []" using that by (cases cs) auto
  moreover have "?f n (a # cs) = ((if 0 < n then [sep] else []) @ a) @ ?f (Suc n) cs" by simp
  ultimately show ?case using Cons by (cases "cs = []") (simp_all only: last_append, auto)
qed simp

lemma enumerate_snd: "x \<in> set (enumerate n cs) \<Longrightarrow> snd x \<in> set cs"
  by (metis image_eqI list.set_map map_snd_enumerate)

theorem fp_parse_grouped:
  assumes "length f = 32" and "sep = 32 \<or> sep = 45 \<or> sep = 58"
  shows "fp_parse c (grouped sep f) = Ok f"
proof -
  let ?cs = "chunks 4 (hex f)"
  have parts: "set p \<subseteq> set (hex f)" "p \<noteq> []" if "p \<in> set ?cs" for p
    using set_chunks [OF that] by auto
  have "valid_utf8 p" if "p \<in> set ?cs" for p
    using parts(1) [OF that] hex_char by (intro valid_utf8_ascii) auto
  then have "map (\<lambda>(i, chunk). (if 0 < i then [sep] else []) @ (if valid_utf8 chunk then chunk else [])) (enumerate 0 ?cs) =
      map (\<lambda>(i, chunk). (if 0 < i then [sep] else []) @ chunk) (enumerate 0 ?cs)"
    by (intro map_cong) (auto dest: enumerate_snd)
  then have g: "grouped sep f = concat (map (\<lambda>(i, chunk). (if 0 < i then [sep] else []) @ chunk) (enumerate 0 ?cs))"
    by (simp only: grouped_def)
  have "hex f \<noteq> []" using assms(1) by (cases f) (auto simp: hex_Cons)
  then have ne: "?cs \<noteq> []" by (subst chunks.simps) simp
  have "set (grouped sep f) \<subseteq> insert sep (set (hex f))"
    unfolding g using parts(1) by (fastforce dest: enumerate_snd split: if_splits)
  then have ascii: "list_all (\<lambda>b. b < 128) (grouped sep f)"
    using hex_char assms(2) by (fastforce simp: list_all_iff)
  obtain p ps where ps: "?cs = p # ps" using ne by (cases ?cs) auto
  then have p: "p \<noteq> []" "set p \<subseteq> set (hex f)" using parts [of p] by auto
  have hd: "hd (grouped sep f) = hd p" "grouped sep f \<noteq> []" unfolding g ps using p(1) by auto
  have "last (grouped sep f) = last (last ?cs)" unfolding g using last_grouped [OF ne] parts(2) by blast
  moreover have "last ?cs \<in> set ?cs" using ne by simp
  then have "last (last ?cs) \<in> set (hex f)" using parts [of "last ?cs"] by (auto intro: last_in_set)
  moreover have hdc: "hd p \<in> set (hex f)" using p by (auto intro: hd_in_set)
  ultimately have trim: "str_trim (grouped sep f) = grouped sep f"
    using hex_char hd by (intro str_trim_id(1) [OF ascii]) auto
  have "strip_prefix (ascii ''SHA256:'') (grouped sep f) = None"
    using strip_prefix_hd [OF hd(2), of 83] hex_char [OF hdc] hd(1) by (simp add: ascii_def)
  moreover have "filter (\<lambda>b. unat b \<noteq> 32 \<and> unat b \<noteq> 45 \<and> unat b \<noteq> 58) (grouped sep f) = hex f"
  proof -
    have "list_all (\<lambda>b. unat b \<noteq> 32 \<and> unat b \<noteq> 45 \<and> unat b \<noteq> 58) (concat ?cs)"
      using hex_char [of _ f] by (auto simp: concat_chunks list_all_iff word_unat_eq_iff)
    from filter_grouped [OF this, of sep 0] show ?thesis
      using assms(2) unfolding g by (auto simp: concat_chunks)
  qed
  ultimately show ?thesis
    using unhex_hex [of f] assms(1) unfolding fp_parse_def trim
    by (simp add: filter_ascii_chars [OF ascii] Let_def)
qed

lemma base64_text:
  assumes "is_base64_char b"
  shows "b < 128" "\<not> is_space b" "b \<noteq> 45" "b \<noteq> 10" "b \<noteq> 13"
  using assms
  by (auto simp: is_base64_char_def is_ascii_digit_def word_le_nat_alt word_less_nat_alt word_unat_eq_iff
      is_space_def is_whitespace_def)

theorem fp_parse_openssh:
  assumes "base64_nopad_ok c" and "length f = 32"
  shows "fp_parse c (fp_to_openssh c f) = Ok f"
proof -
  let ?b = "base64_nopad_encode c f"
  have b: "base64_nopad_decode c ?b = Some f" "\<forall>x \<in> set ?b. is_base64_char x \<and> x \<noteq> 61"
    using assms(1) by (auto simp: base64_nopad_ok_def list_all_iff)
  have ascii: "list_all (\<lambda>b. b < 128) (fp_to_openssh c f)"
    using b(2) base64_text(1) by (auto simp: fp_to_openssh_def list_all_iff ascii_def)
  have "last (ascii ''SHA256:'' @ ?b) = (if ?b = [] then 58 else last ?b)"
    by (simp add: ascii_def last_append)
  then have "\<not> is_space (last (fp_to_openssh c f))"
    using b(2) base64_text(2) last_in_set [of ?b]
    by (auto simp: fp_to_openssh_def is_space_def is_whitespace_def split: if_splits)
  then have "str_trim (fp_to_openssh c f) = fp_to_openssh c f"
    by (intro str_trim_id(1) [OF ascii])
      (auto simp: fp_to_openssh_def ascii_def is_space_def is_whitespace_def)
  moreover have "dropWhile (\<lambda>x. x = 61) (rev ?b) = rev ?b"
    using b(2) by (cases ?b rule: rev_cases) auto
  ultimately show ?thesis
    using b(1) assms(2) by (simp add: fp_parse_def fp_to_openssh_def trim_end_byte_def)
qed

definition base64_nonempty :: "('p, 's) crypto \<Rightarrow> bool" where
  "base64_nonempty c \<longleftrightarrow> (\<forall>x. x \<noteq> [] \<longrightarrow> base64_encode c x \<noteq> [])"

lemma from_key_blob_key: "length (pk_bytes k) = 32 \<Longrightarrow> from_key_blob (key_blob k) = Ok k"
proof -
  assume k: "length (pk_bytes k) = 32"
  have "key_blob k = put_string (ascii ''ssh-ed25519'') @ put_string (pk_bytes k) @ []"
    using key_blob_put [OF k] by simp
  moreover have "ed25519_key (pk_bytes k) = k"
    by (cases k; cases "pk_alg k") (simp_all add: ed25519_key_def)
  ultimately show ?thesis
    using k wire_string_put [of "ascii ''ssh-ed25519''"] wire_string_put [of "pk_bytes k" "[]"]
    by (simp add: from_key_blob_def ascii_def)
qed

theorem key_parse_openssh:
  assumes "base64_ok c" "base64_nonempty c" "length (pk_bytes k) = 32"
  shows "key_parse c (to_openssh c k []) = Ok k"
proof -
  let ?b = "base64_encode c (key_blob k)"
  have b: "base64_decode c ?b = Some (key_blob k)" "\<forall>x \<in> set ?b. is_base64_char x"
    using assms(1) by (auto simp: base64_ok_def list_all_iff)
  have "key_blob k \<noteq> []" using assms(3) by (auto simp: key_blob_def Let_def)
  then have ne: "?b \<noteq> []" using assms(2) by (simp add: base64_nonempty_def)
  have t: "to_openssh c k [] = ascii ''ssh-ed25519 '' @ ?b"
    by (cases "pk_alg k") (simp add: to_openssh_def ascii_def)
  have ascii: "list_all (\<lambda>b. b < 128) (to_openssh c k [])" "list_all (\<lambda>b. b < 128) ?b"
    using b(2) base64_text(1) by (auto simp: t list_all_iff ascii_def)
  have "last (to_openssh c k []) = last ?b" "last ?b \<in> set ?b" using ne by (simp_all add: t)
  then have trim: "str_trim (to_openssh c k []) = to_openssh c k []"
    using base64_text(2) b(2) ne
    by (intro str_trim_id(1) [OF ascii(1)]) (auto simp: t ascii_def is_space_def is_whitespace_def)
  have "\<not> starts_with (to_openssh c k []) BEGIN_PUBLIC"
    by (simp add: starts_with_iff t BEGIN_PUBLIC_def ascii_def)
  moreover have "split_whitespace ?b = [?b]"
  proof -
    have "ws_words w (map unat s) = (if w = [] \<and> s = [] then [] else [w @ map unat s])"
      if "\<forall>x \<in> set s. \<not> is_space x" for w and s :: bytes
      using that by (induction s arbitrary: w) (auto simp: is_space_def)
    from this [of ?b "[]"] show ?thesis
      using b(2) base64_text(2) ne
      by (simp add: split_whitespace_def chars_ascii [OF ascii(2)] utf8_unat [OF ascii(2)])
  qed
  ultimately show ?thesis
    using b(1) from_key_blob_key [OF assms(3)] by (simp add: key_parse_def trim) (simp add: t)
qed

theorem key_parse_hex:
  assumes "length (pk_bytes k) = 32"
  shows "key_parse c (key_to_hex k) = Ok k"
proof -
  have ne: "hex (pk_bytes k) \<noteq> []" using assms by (cases "pk_bytes k") (auto simp: hex_Cons)
  have "list_all (\<lambda>b. b < 128) (hex (pk_bytes k))" using hex_char by (simp add: list_all_iff)
  then have trim: "str_trim (hex (pk_bytes k)) = hex (pk_bytes k)"
    using ne hex_char hd_in_set [OF ne] last_in_set [OF ne] by (intro str_trim_id(1)) blast+
  have "hd (hex (pk_bytes k)) \<noteq> 45" "hd (hex (pk_bytes k)) \<noteq> 115" using hex_char hd_in_set [OF ne] by blast+
  then have "\<not> starts_with (hex (pk_bytes k)) BEGIN_PUBLIC"
    "strip_prefix (ascii ''ssh-ed25519 '') (hex (pk_bytes k)) = None"
    using strip_prefix_hd [OF ne] by (simp_all add: starts_with_def BEGIN_PUBLIC_def ascii_def)
  moreover have "ed25519_key (pk_bytes k) = k"
    by (cases k; cases "pk_alg k") (simp_all add: ed25519_key_def)
  ultimately show ?thesis
    using unhex_hex [of "pk_bytes k"] assms by (simp add: key_parse_def key_to_hex_def trim)
qed

lemma str_lines_last:
  assumes "\<And>l. l \<in> set ls \<Longrightarrow> 10 \<notin> set l \<and> 13 \<notin> set l" and "10 \<notin> set l" "l \<noteq> []"
  shows "str_lines (concat (map (\<lambda>l. l @ [10]) ls) @ l) = ls @ [l]"
proof -
  have "split_byte 10 (concat (map (\<lambda>l. l @ [10]) ls) @ l) = ls @ [l]"
    using assms by (induction ls) (auto simp: split_byte_line split_byte_end)
  moreover have "map strip_cr ls = ls"
    using assms(1) by (intro map_idI) (auto simp: strip_cr_def dest: last_in_set)
  ultimately show ?thesis using assms(3) by (simp add: str_lines_def)
qed

lemma no_break_text [simp]:
  "10 \<notin> set BEGIN_PUBLIC" "13 \<notin> set BEGIN_PUBLIC" "10 \<notin> set END_PUBLIC" "END_PUBLIC \<noteq> []"
  "starts_with BEGIN_PUBLIC (ascii ''-----'')" "starts_with END_PUBLIC (ascii ''-----'')"
  by (simp_all add: BEGIN_PUBLIC_def END_PUBLIC_def ascii_def starts_with_iff)

lemma trim_public [simp]: "str_trim BEGIN_PUBLIC = BEGIN_PUBLIC" "str_trim END_PUBLIC = END_PUBLIC"
  by (rule str_trim_id(1);
      simp add: BEGIN_PUBLIC_def END_PUBLIC_def ascii_def is_space_def is_whitespace_def)+

lemma not_base64 [simp]: "\<not> is_base64_char 10" "\<not> is_base64_char 13" "\<not> is_base64_char 45"
  by (simp_all add: is_base64_char_def is_ascii_digit_def)

theorem key_parse_pem:
  assumes "base64_ok c" "base64_nonempty c" "length (pk_bytes k) = 32"
  shows "key_parse c (to_pem c k) = Ok k"
proof -
  let ?b = "base64_encode c (SPKI_ED25519_PREFIX @ pk_bytes k)"
  have b: "base64_decode c ?b = Some (SPKI_ED25519_PREFIX @ pk_bytes k)" "\<forall>x \<in> set ?b. is_base64_char x"
    using assms(1) by (auto simp: base64_ok_def list_all_iff)
  have ne: "?b \<noteq> []" using assms(2) by (simp add: base64_nonempty_def SPKI_ED25519_PREFIX_def)
  have brk: "10 \<notin> set ?b" "13 \<notin> set ?b" and noticks: "\<not> starts_with ?b (ascii ''-----'')"
    using b(2) by (auto simp: starts_with_iff ascii_def)
  have ascii: "list_all (\<lambda>b. b < 128) ?b" using b(2) base64_text(1) by (simp add: list_all_iff)
  have trim_b: "str_trim ?b = ?b"
    using b(2) base64_text(2) ne hd_in_set [OF ne] last_in_set [OF ne] by (intro str_trim_id(1) [OF ascii]) auto
  let ?t = "concat (map (\<lambda>l. l @ [10]) [BEGIN_PUBLIC, ?b]) @ END_PUBLIC"
  have pem: "to_pem c k = ?t @ [10]" by (simp add: to_pem_def)
  have "list_all (\<lambda>b. b < 128) ?t"
    using ascii by (simp add: BEGIN_PUBLIC_def END_PUBLIC_def ascii_def)
  then have trim: "str_trim (to_pem c k) = ?t"
    unfolding pem
    by (rule str_trim_id(2)) (simp_all add: BEGIN_PUBLIC_def END_PUBLIC_def ascii_def is_space_def is_whitespace_def)
  have "str_lines ?t = [BEGIN_PUBLIC, ?b] @ [END_PUBLIC]"
    using brk by (intro str_lines_last) auto
  then have "parse_pem c ?t = Ok k"
    using b(1) assms(3) noticks trim_b
    by (cases k; cases "pk_alg k") (simp add: parse_pem_def SPKI_ED25519_PREFIX_def ed25519_key_def)
  moreover have "starts_with ?t BEGIN_PUBLIC" by (simp add: starts_with_iff)
  ultimately show ?thesis by (simp add: key_parse_def trim)
qed

end
