(* ===== verification/Trust.thy ===== *)
theory Trust
  imports Key_Text Ordered_Map
begin

text \<open>
  Trust (\<^verbatim>\<open>signed/trust.rs\<close>, and \<^verbatim>\<open>Head\<close> of \<^verbatim>\<open>signed/statements.rs\<close>): pins with scopes, the verified
  key transitions and revocations, their evaluation into a trust state, and the question it
  answers: is a signature by this key in this namespace on this object accepted?

  A \<^verbatim>\<open>HashMap\<close> or \<^verbatim>\<open>BTreeMap\<close> is an ordered entry list; the code never iterates over a hash map.
  Warnings are counted by the file they are about; message texts are left out.
\<close>

section \<open>Heads and scopes\<close>

record log_head =
  hd_log_id :: bytes
  hd_segment :: u16
  hd_record_id :: u64
  hd_record_count :: u64
  hd_record_hash :: bytes

definition pos_le :: "u16 \<times> u64 \<Rightarrow> u16 \<times> u64 \<Rightarrow> bool" where
  "pos_le p q \<longleftrightarrow> fst p < fst q \<or> (fst p = fst q \<and> snd p \<le> snd q)"

definition covers :: "log_head \<Rightarrow> u16 \<Rightarrow> u64 \<Rightarrow> bool" where
  "covers h segment record_id \<longleftrightarrow> pos_le (segment, record_id) (hd_segment h, hd_record_id h)"

type_synonym scope = u8

fun index_of :: "'a \<Rightarrow> 'a list \<Rightarrow> nat option" where
  "index_of x [] = None"
| "index_of x (y # ys) = (if x = y then Some 0 else map_option Suc (index_of x ys))"

definition ns_bit :: "bytes \<Rightarrow> u8 option" where
  "ns_bit ns = map_option (\<lambda>i. push_bit i 1) (index_of ns ALL_NAMESPACES)"

definition SCOPE_DEFAULT :: scope where "SCOPE_DEFAULT = 0b1011011"
definition SCOPE_WITNESS :: scope where "SCOPE_WITNESS = 0b0000100"
definition SCOPE_REVOCATION_ONLY :: scope where "SCOPE_REVOCATION_ONLY = 0b1000000"

definition scope_add :: "bytes \<Rightarrow> u8 \<Rightarrow> (u8, unit) result" where
  "scope_add n bits =
     (if n = NS_TRANSITION_ACCEPT then Err ()
      else bind_res (ok_or () (ns_bit n)) (\<lambda>b. Ok (bits OR b)))"

fun scope_bits :: "bytes list \<Rightarrow> u8 \<Rightarrow> (u8, unit) result" where
  "scope_bits [] bits = Ok bits"
| "scope_bits (n # ns) bits = bind_res (scope_add n bits) (scope_bits ns)"

definition from_namespaces :: "bytes list \<Rightarrow> (scope, unit) result" where
  "from_namespaces names =
     bind_res (scope_bits names 0) (\<lambda>bits. if bits = 0 then Err () else Ok bits)"

definition scope_contains :: "scope \<Rightarrow> bytes \<Rightarrow> bool" where
  "scope_contains s ns = (case ns_bit ns of None \<Rightarrow> False | Some b \<Rightarrow> s AND b \<noteq> 0)"

definition scope_namespaces :: "scope \<Rightarrow> bytes list" where
  "scope_namespaces s = filter (scope_contains s) ALL_NAMESPACES"

section \<open>Trust inputs\<close>

datatype statement_source = Operator bytes | Bundle bytes

record trust_pin =
  pin_key_id :: fingerprint
  pin_key :: "public_key option"
  pin_principal :: bytes
  pin_auto_principal :: bool
  pin_scope :: scope

record key_transition =
  tr_sha256 :: bytes
  tr_old_key_id :: fingerprint
  tr_old_key :: public_key
  tr_new_key :: public_key
  tr_final_heads :: "log_head list"
  tr_final_releases :: "bytes list"
  tr_issued_at :: bytes
  tr_source :: statement_source

record key_revocation =
  rv_sha256 :: bytes
  rv_revoked :: fingerprint
  rv_revoker :: fingerprint
  rv_trusted_heads :: "log_head list"
  rv_trusted_releases :: "bytes list"
  rv_trusted_successors :: "fingerprint list"
  rv_issued_at :: bytes
  rv_source :: statement_source

record trust_context =
  tc_pins :: "trust_pin list"
  tc_transitions :: "key_transition list"
  tc_revocations :: "key_revocation list"
  tc_warnings :: "bytes list"
  tc_statements_seen :: nat

definition trust_new :: trust_context where
  "trust_new = \<lparr>tc_pins = [], tc_transitions = [], tc_revocations = [], tc_warnings = [],
     tc_statements_seen = 0\<rparr>"

datatype trust_error =
    TrustKey key_parse_error
  | TrustFile nat
  | TrustStatement bytes
  | NoAuthority bytes
  | TrustLimit
  | TrustIo bytes

definition is_principal_byte :: "u8 \<Rightarrow> bool" where
  "is_principal_byte b \<longleftrightarrow> is_ascii_digit b \<or> (65 \<le> b \<and> b \<le> 90) \<or> (97 \<le> b \<and> b \<le> 122) \<or>
     b \<in> set (ascii ''._@-'')"

text \<open>\<^verbatim>\<open>valid_principal\<close> tests characters; all it accepts are ASCII, so it tests bytes.\<close>

definition valid_principal :: "bytes \<Rightarrow> bool" where
  "valid_principal p \<longleftrightarrow> p \<noteq> [] \<and> length p \<le> 256 \<and> list_all is_principal_byte p"

definition auto_principal :: "trust_context \<Rightarrow> bytes" where
  "auto_principal ctx = ascii ''supplied-key-'' @ dec_digits (length (tc_pins ctx) + 1)"

definition push_pin ::
  "trust_context \<Rightarrow> fingerprint \<Rightarrow> public_key option \<Rightarrow> bytes option \<Rightarrow> scope
    \<Rightarrow> (trust_context, trust_error) result" where
  "push_pin ctx key_id key prin scope =
     (if 1024 \<le> length (tc_pins ctx) then Err TrustLimit
      else bind_res
        (case prin of
           Some p \<Rightarrow> if valid_principal p then Ok (p, False) else Err (TrustFile 0)
         | None \<Rightarrow> Ok (auto_principal ctx, True)) (\<lambda>(principal, auto).
        Ok (ctx\<lparr>tc_pins := tc_pins ctx @
          [\<lparr>pin_key_id = key_id, pin_key = key, pin_principal = principal,
            pin_auto_principal = auto, pin_scope = scope\<rparr>]\<rparr>)))"

definition pin_key_op ::
  "('p, 's) crypto \<Rightarrow> trust_context \<Rightarrow> public_key \<Rightarrow> bytes option \<Rightarrow> scope
    \<Rightarrow> (trust_context, trust_error) result" where
  "pin_key_op c ctx key prin scope =
     (if \<not> is_strong c key then Err (TrustKey KeyWeak)
      else push_pin ctx (fingerprint_of c key) (Some key) prin scope)"

definition SMALL_ORDER_ENCODINGS :: "bytes list" where
  "SMALL_ORDER_ENCODINGS = map ascii
     [''0000000000000000000000000000000000000000000000000000000000000000'',
      ''0000000000000000000000000000000000000000000000000000000000000080'',
      ''0100000000000000000000000000000000000000000000000000000000000000'',
      ''0100000000000000000000000000000000000000000000000000000000000080'',
      ''26e8958fc2b227b045c3f489f2ef98f0d5dfac05d3c63339b13802886d53fc05'',
      ''26e8958fc2b227b045c3f489f2ef98f0d5dfac05d3c63339b13802886d53fc85'',
      ''c7176a703d4dd84fba3c0b760d10670f2a2053fa2c39ccc64ec7fd7792ac037a'',
      ''c7176a703d4dd84fba3c0b760d10670f2a2053fa2c39ccc64ec7fd7792ac03fa'',
      ''ecffffffffffffffffffffffffffffffffffffffffffffffffffffffffffff7f'',
      ''ecffffffffffffffffffffffffffffffffffffffffffffffffffffffffffffff'',
      ''edffffffffffffffffffffffffffffffffffffffffffffffffffffffffffff7f'',
      ''edffffffffffffffffffffffffffffffffffffffffffffffffffffffffffffff'',
      ''eeffffffffffffffffffffffffffffffffffffffffffffffffffffffffffff7f'',
      ''eeffffffffffffffffffffffffffffffffffffffffffffffffffffffffffffff'']"

definition pin_fingerprint ::
  "('p, 's) crypto \<Rightarrow> trust_context \<Rightarrow> fingerprint \<Rightarrow> bytes option \<Rightarrow> scope
    \<Rightarrow> (trust_context, trust_error) result" where
  "pin_fingerprint c ctx fp prin scope =
     (if list_ex (\<lambda>enc. case unhex 32 enc of Some k \<Rightarrow> fingerprint_of c (ed25519_key k) = fp | None \<Rightarrow> False)
           SMALL_ORDER_ENCODINGS
      then Err (TrustKey KeyWeak)
      else push_pin ctx fp None prin scope)"

section \<open>The evaluated trust state\<close>

record trust_entry =
  te_principal :: bytes
  te_auto_principal :: bool
  te_scope :: scope
  te_trust_path :: "fingerprint list"
  te_pinned :: bool

datatype trust_object =
    ORecord bytes u16 u64 bytes
  | OCheckpoint bytes u16 u64
  | ORelease bytes
  | OTransition fingerprint
  | OWitness

datatype reject =
    NotTrusted
  | OutOfScope
  | Retired bytes fingerprint
  | Revoked bytes bool
  | HeadMismatch log_head

record retirement =
  rt_heads :: "log_head list"
  rt_releases :: "bytes list"
  rt_issued_at :: bytes
  rt_successor :: fingerprint

record cut_points =
  cp_heads :: "log_head list"
  cp_releases :: "bytes list"
  cp_successors :: "fingerprint list"
  cp_issued_at :: bytes
  cp_authority :: bool

type_synonym entries = "(fingerprint, trust_entry list) btree"

record evaluated =
  ev_has_pins :: bool
  ev_entries :: entries
  ev_keys :: "(fingerprint, public_key) btree"
  ev_retired :: "(fingerprint, retirement) btree"
  ev_revoked :: "(fingerprint, cut_points) btree"
  ev_equivocations :: "(fingerprint \<times> bytes \<times> bytes) list"
  ev_warnings :: "bytes list"

text \<open>\<open>None\<close>: no head covers the object; \<open>Some (Err h)\<close>: the head \<open>h\<close> names another record there.\<close>

definition head_check :: "log_head list \<Rightarrow> trust_object \<Rightarrow> (unit, log_head) result option" where
  "head_check heads obj =
     (case obj of
        ORecord log_id segment record_id record_hash \<Rightarrow>
          map_option (\<lambda>h.
              if (hd_segment h, hd_record_id h) = (segment, record_id) \<and> hd_record_hash h \<noteq> record_hash
              then Err h else Ok ())
            (find (\<lambda>h. hd_log_id h = log_id \<and> covers h segment record_id) heads)
      | OCheckpoint log_id segment record_id \<Rightarrow>
          (if list_ex (\<lambda>h. hd_log_id h = log_id \<and> covers h segment record_id) heads
           then Some (Ok ()) else None)
      | _ \<Rightarrow> None)"

definition entries_of :: "evaluated \<Rightarrow> fingerprint \<Rightarrow> trust_entry list" where
  "entries_of ev key_id = (case bt_get (ev_entries ev) key_id of None \<Rightarrow> [] | Some es \<Rightarrow> es)"

definition eval_statement_heads :: "evaluated \<Rightarrow> fingerprint \<Rightarrow> log_head list" where
  "eval_statement_heads ev key_id =
     (case bt_get (ev_retired ev) key_id of None \<Rightarrow> [] | Some r \<Rightarrow> rt_heads r)
     @ (case bt_get (ev_revoked ev) key_id of None \<Rightarrow> [] | Some c \<Rightarrow> cp_heads c)"

text \<open>The two \<^verbatim>\<open>allowed\<close> tests of \<^verbatim>\<open>accept\<close>; the error is the early return of \<^verbatim>\<open>HeadMismatch\<close>.\<close>

definition heads_allow :: "log_head list \<Rightarrow> trust_object \<Rightarrow> (bool, reject) result" where
  "heads_allow heads obj =
     (case head_check heads obj of
        Some (Ok _) \<Rightarrow> Ok True
      | Some (Err h) \<Rightarrow> Err (HeadMismatch h)
      | Some Panic \<Rightarrow> Panic
      | None \<Rightarrow> Ok False)"

definition retired_allows :: "retirement \<Rightarrow> trust_object \<Rightarrow> (bool, reject) result" where
  "retired_allows r obj =
     (case obj of
        ORelease sha \<Rightarrow> Ok (sha \<in> set (rt_releases r))
      | OTransition _ \<Rightarrow> Ok True
      | OWitness \<Rightarrow> Ok False
      | _ \<Rightarrow> heads_allow (rt_heads r) obj)"

definition cut_allows :: "cut_points \<Rightarrow> trust_object \<Rightarrow> (bool, reject) result" where
  "cut_allows c obj =
     (case obj of
        ORelease sha \<Rightarrow> Ok (sha \<in> set (cp_releases c))
      | OTransition new_key_id \<Rightarrow> Ok (new_key_id \<in> set (cp_successors c))
      | OWitness \<Rightarrow> Ok False
      | _ \<Rightarrow> heads_allow (cp_heads c) obj)"

definition accept ::
  "evaluated \<Rightarrow> fingerprint \<Rightarrow> bytes \<Rightarrow> trust_object \<Rightarrow> (trust_entry, reject) result" where
  "accept ev key_id ns obj =
     (let es = entries_of ev key_id in
      if es = [] then Err NotTrusted
      else
        bind_res (ok_or OutOfScope (find (\<lambda>e. scope_contains (te_scope e) ns) es)) (\<lambda>entry.
        bind_res
          (case bt_get (ev_retired ev) key_id of
             None \<Rightarrow> Ok ()
           | Some r \<Rightarrow> bind_res (retired_allows r obj) (\<lambda>allowed.
               if allowed then Ok () else Err (Retired (rt_issued_at r) (rt_successor r)))) (\<lambda>_.
        bind_res
          (case bt_get (ev_revoked ev) key_id of
             None \<Rightarrow> Ok ()
           | Some c \<Rightarrow> bind_res (cut_allows c obj) (\<lambda>allowed.
               if allowed then Ok () else Err (Revoked (cp_issued_at c) (cp_authority c)))) (\<lambda>_.
          Ok entry))))"

section \<open>Evaluation\<close>

definition get_list :: "('k :: linorder, 'v list) btree \<Rightarrow> 'k \<Rightarrow> 'v list" where
  "get_list m k = (case bt_get m k of None \<Rightarrow> [] | Some xs \<Rightarrow> xs)"

text \<open>\<^verbatim>\<open>m.entry(k).or_default().push(x)\<close>, and the variants that look before they push.\<close>

definition push_at :: "'k :: linorder \<Rightarrow> 'v \<Rightarrow> ('k, 'v list) btree \<Rightarrow> ('k, 'v list) btree" where
  "push_at k x m = bt_insert k (get_list m k @ [x]) m"

definition pin_entry :: "trust_pin \<Rightarrow> trust_entry" where
  "pin_entry p = \<lparr>te_principal = pin_principal p, te_auto_principal = pin_auto_principal p,
     te_scope = pin_scope p, te_trust_path = [pin_key_id p], te_pinned = True\<rparr>"

definition add_base :: "trust_pin \<Rightarrow> entries \<Rightarrow> entries" where
  "add_base p base =
     (if pin_entry p \<in> set (get_list base (pin_key_id p))
      then base else push_at (pin_key_id p) (pin_entry p) base)"

definition base_entries :: "trust_pin list \<Rightarrow> entries" where
  "base_entries pins = fold add_base pins []"

definition pinned_keys :: "trust_pin list \<Rightarrow> (fingerprint, public_key) btree" where
  "pinned_keys pins =
     fold (\<lambda>p m. case pin_key p of None \<Rightarrow> m | Some k \<Rightarrow> bt_insert (pin_key_id p) k m) pins []"

type_synonym by_old = "(fingerprint, key_transition list) btree"

definition add_transition :: "key_transition \<Rightarrow> by_old \<Rightarrow> by_old" where
  "add_transition t m =
     (if list_ex (\<lambda>x. tr_sha256 x = tr_sha256 t) (get_list m (tr_old_key_id t))
      then m else push_at (tr_old_key_id t) t m)"

definition group_transitions :: "key_transition list \<Rightarrow> by_old" where
  "group_transitions ts = fold add_transition ts []"

definition equivocating :: "by_old \<Rightarrow> fingerprint \<Rightarrow> bool" where
  "equivocating m k \<longleftrightarrow> 1 < length (get_list m k)"

text \<open>The body of the loop of \<^verbatim>\<open>extend\<close>: one source entry, one transition, one pass.\<close>

definition add_source ::
  "fingerprint \<Rightarrow> trust_entry \<Rightarrow> entries \<times> bool \<Rightarrow> entries \<times> bool" where
  "add_source new_id e st =
     (let (es, added) = st; l = get_list es new_id in
      if list_ex (\<lambda>x. te_principal x = te_principal e) l then st
      else (push_at new_id \<lparr>te_principal = te_principal e, te_auto_principal = te_auto_principal e,
              te_scope = te_scope e, te_trust_path = te_trust_path e @ [new_id], te_pinned = False\<rparr> es,
            True))"

definition extend_one ::
  "('p, 's) crypto \<Rightarrow> (key_transition \<Rightarrow> bool) \<Rightarrow> fingerprint \<times> key_transition \<Rightarrow> entries \<times> bool \<Rightarrow> entries \<times> bool" where
  "extend_one c follow ot st =
     (let (old, t) = ot in
      if \<not> follow t then st
      else fold (add_source (fingerprint_of c (tr_new_key t)))
             (filter (\<lambda>e. scope_contains (te_scope e) NS_TRANSITION) (get_list (fst st) old)) st)"

definition by_old_list :: "by_old \<Rightarrow> (fingerprint \<times> key_transition) list" where
  "by_old_list m = concat (map (\<lambda>(old, l). map (Pair old) l) m)"

definition extend_pass ::
  "('p, 's) crypto \<Rightarrow> by_old \<Rightarrow> (key_transition \<Rightarrow> bool) \<Rightarrow> entries \<Rightarrow> entries \<times> bool" where
  "extend_pass c m follow es = fold (extend_one c follow) (by_old_list m) (es, False)"

text \<open>The loop of \<^verbatim>\<open>extend\<close> ends because every pass that adds something adds a pair of a successor key and a
  principal that was not there, and there are finitely many.\<close>

lemma bt_get_insert_any: "bt_get (bt_insert k v m) = (bt_get m)(k \<mapsto> v)"
  by (induction k v m rule: bt_insert.induct) (auto simp: fun_eq_iff)

lemma get_list_push: "get_list (push_at k x m) n = (if n = k then get_list m k @ [x] else get_list m n)"
  by (simp add: push_at_def get_list_def bt_get_insert_any)

definition trusted_pairs :: "entries \<Rightarrow> (fingerprint \<times> bytes) set" where
  "trusted_pairs es = {(n, te_principal x) | n x. x \<in> set (get_list es n)}"

lemma trusted_pairsI: "x \<in> set (get_list es n) \<Longrightarrow> (n, te_principal x) \<in> trusted_pairs es"
  by (auto simp: trusted_pairs_def)

lemma finite_trusted_pairs: "finite (trusted_pairs es)"
proof (rule finite_subset)
  show "trusted_pairs es \<subseteq> (\<Union>nl \<in> set es. {fst nl} \<times> te_principal ` set (snd nl))"
  proof
    fix q assume "q \<in> trusted_pairs es"
    then obtain n x where q: "q = (n, te_principal x)" "x \<in> set (get_list es n)"
      by (auto simp: trusted_pairs_def)
    then obtain l where "bt_get es n = Some l" "x \<in> set l"
      by (cases "bt_get es n") (auto simp: get_list_def)
    then show "q \<in> (\<Union>nl \<in> set es. {fst nl} \<times> te_principal ` set (snd nl))"
      using q map_of_SomeD [of es n l] by force
  qed
qed auto

lemma trusted_pairs_push:
  "trusted_pairs (push_at k x es) = insert (k, te_principal x) (trusted_pairs es)"
proof -
  have "set (get_list (push_at k x es) n) = (if n = k then insert x (set (get_list es k)) else set (get_list es n))" for n
    by (auto simp: get_list_push)
  then show ?thesis unfolding trusted_pairs_def by (auto split: if_splits)
qed

definition grows :: "fingerprint set \<Rightarrow> entries \<times> bool \<Rightarrow> entries \<times> bool \<Rightarrow> bool" where
  "grows N st st' \<longleftrightarrow>
     trusted_pairs (fst st) \<subseteq> trusted_pairs (fst st') \<and>
     snd ` trusted_pairs (fst st') = snd ` trusted_pairs (fst st) \<and>
     trusted_pairs (fst st') \<subseteq> trusted_pairs (fst st) \<union> N \<times> snd ` trusted_pairs (fst st) \<and>
     (snd st \<longrightarrow> snd st') \<and>
     (snd st' \<longrightarrow> snd st \<or> trusted_pairs (fst st) \<subset> trusted_pairs (fst st'))"

lemma grows_refl: "grows N st st"
  by (auto simp: grows_def)

lemma grows_trans: "grows N a b \<Longrightarrow> grows N b c \<Longrightarrow> grows N a c"
proof -
  assume ab: "grows N a b" and bc: "grows N b c"
  let ?A = "trusted_pairs (fst a)" and ?B = "trusted_pairs (fst b)" and ?C = "trusted_pairs (fst c)"
  have p: "snd ` ?B = snd ` ?A" "snd ` ?C = snd ` ?B" using ab bc by (simp_all add: grows_def)
  have "?C \<subseteq> ?B \<union> N \<times> snd ` ?B" "?B \<subseteq> ?A \<union> N \<times> snd ` ?A"
    using ab bc by (simp_all only: grows_def)
  then have "?C \<subseteq> ?A \<union> N \<times> snd ` ?A" unfolding p(1) by blast
  moreover have sub: "?A \<subseteq> ?B" "?B \<subseteq> ?C" using ab bc by (simp_all only: grows_def)
  moreover have "snd a \<longrightarrow> snd c" using ab bc by (simp add: grows_def)
  moreover have "snd c \<longrightarrow> snd a \<or> ?A \<subset> ?C"
  proof -
    have "snd c \<longrightarrow> snd b \<or> ?B \<subset> ?C" using bc unfolding grows_def by (elim conjE)
    moreover have "snd b \<longrightarrow> snd a \<or> ?A \<subset> ?B" using ab unfolding grows_def by (elim conjE)
    ultimately show ?thesis using sub by blast
  qed
  ultimately show "grows N a c" unfolding grows_def using p by simp
qed

lemma grows_fold:
  assumes "\<And>x st. x \<in> set xs \<Longrightarrow> grows N st0 st \<Longrightarrow> grows N st (f x st)" and "grows N st0 st"
  shows "grows N st (fold f xs st)"
  using assms
proof (induction xs arbitrary: st)
  case (Cons x xs)
  have "grows N st (f x st)" using Cons.prems by simp
  moreover have "grows N (f x st) (fold f xs (f x st))"
    using Cons.prems calculation grows_trans by (intro Cons.IH) (auto intro: grows_trans)
  ultimately show ?case using grows_trans by auto
qed (simp add: grows_refl)

lemma grows_add_source:
  assumes "new_id \<in> N" and "te_principal e \<in> snd ` trusted_pairs (fst st)"
  shows "grows N st (add_source new_id e st)"
proof (cases "list_ex (\<lambda>x. te_principal x = te_principal e) (get_list (fst st) new_id)")
  case True
  then show ?thesis by (simp add: add_source_def case_prod_unfold Let_def grows_refl)
next
  case False
  let ?st = "add_source new_id e st"
  have new: "(new_id, te_principal e) \<notin> trusted_pairs (fst st)"
    using False by (auto simp: trusted_pairs_def list_ex_iff)
  have "trusted_pairs (fst ?st) = insert (new_id, te_principal e) (trusted_pairs (fst st))"
    using False by (simp add: add_source_def case_prod_unfold Let_def trusted_pairs_push)
  moreover have "snd ?st" using False by (simp add: add_source_def case_prod_unfold Let_def)
  ultimately show ?thesis using assms new by (auto simp: grows_def)
qed

lemma grows_extend_one:
  assumes "fingerprint_of c (tr_new_key (snd ot)) \<in> N"
  shows "grows N st (extend_one c follow ot st)"
proof (cases "follow (snd ot)")
  case True
  let ?src = "filter (\<lambda>e. scope_contains (te_scope e) NS_TRANSITION) (get_list (fst st) (fst ot))"
  have "grows N st (fold (add_source (fingerprint_of c (tr_new_key (snd ot)))) ?src st)"
  proof (rule grows_fold)
    fix e st' assume "e \<in> set ?src" and g: "grows N st st'"
    then have "te_principal e \<in> snd ` trusted_pairs (fst st)" using trusted_pairsI by force
    then show "grows N st' (add_source (fingerprint_of c (tr_new_key (snd ot))) e st')"
      using g assms by (intro grows_add_source) (simp_all add: grows_def)
  qed (rule grows_refl)
  then show ?thesis using True by (simp add: extend_one_def case_prod_unfold)
qed (simp add: extend_one_def case_prod_unfold grows_refl)

definition successors :: "('p, 's) crypto \<Rightarrow> by_old \<Rightarrow> fingerprint set" where
  "successors c m = (\<lambda>ot. fingerprint_of c (tr_new_key (snd ot))) ` set (by_old_list m)"

lemma grows_extend_pass: "grows (successors c m) (es, False) (extend_pass c m follow es)"
  unfolding extend_pass_def
  by (rule grows_fold [of _ _ "(es, False)"])
    (auto intro!: grows_extend_one grows_refl simp: successors_def)

function extend_loop ::
  "('p, 's) crypto \<Rightarrow> by_old \<Rightarrow> (key_transition \<Rightarrow> bool) \<Rightarrow> entries \<Rightarrow> entries" where
  "extend_loop c m follow es =
     (let (es', added) = extend_pass c m follow es
      in if added then extend_loop c m follow es' else es')"
  by pat_completeness auto
termination
proof (relation "measure (\<lambda>(c, m, follow, es).
    card (successors c m \<times> snd ` trusted_pairs es - trusted_pairs es))")
  fix c :: "('p, 's) crypto" and m follow es x es' added
  assume x: "x = extend_pass c m follow es" "(es', added) = x" and added
  let ?M = "\<lambda>es. successors c m \<times> snd ` trusted_pairs es - trusted_pairs es"
  have g: "grows (successors c m) (es, False) (es', True)"
    using grows_extend_pass [of c m es follow] x \<open>added\<close> by simp
  then have "?M es' \<subset> ?M es" unfolding grows_def by auto
  moreover have "finite (?M es)"
    by (intro finite_Diff finite_cartesian_product)
      (simp_all add: successors_def finite_trusted_pairs)
  ultimately show "((c, m, follow, es'), (c, m, follow, es)) \<in> measure (\<lambda>(c, m, follow, es).
      card (successors c m \<times> snd ` trusted_pairs es - trusted_pairs es))"
    by (simp add: psubset_card_mono)
qed simp

declare extend_loop.simps [simp del]

definition extend_entries ::
  "('p, 's) crypto \<Rightarrow> entries \<Rightarrow> by_old \<Rightarrow> (key_transition \<Rightarrow> bool) \<Rightarrow> entries" where
  "extend_entries c base m follow = extend_loop c m follow base"

end
