(* ===== verification/Statements.thy ===== *)
theory Statements
  imports Json_Codec Trust Names
begin

text \<open>
  Key statements (\<^verbatim>\<open>signed/statements.rs\<close>): the JSON documents of key transitions and revocations,
  how they are built and signed, OpenSSH revocation lists, and the field readers the other signed
  documents share. Message texts of errors are left out. \<^verbatim>\<open>Head\<close> itself is in \<open>Trust\<close>.
\<close>

section \<open>Reading fields\<close>

definition int_field :: "json \<Rightarrow> string \<Rightarrow> (u64, unit) result" where
  "int_field v key = ok_or () (Option.bind (json_get v (ascii key)) as_u64)"

definition string_field :: "json \<Rightarrow> string \<Rightarrow> (bytes, unit) result" where
  "string_field v key = ok_or () (Option.bind (json_get v (ascii key)) as_str)"

definition hex_field :: "nat \<Rightarrow> json \<Rightarrow> string \<Rightarrow> (bytes, unit) result" where
  "hex_field n v key = bind_res (string_field v key) (\<lambda>s. ok_or () (unhex_lower n s))"

definition array_field :: "json \<Rightarrow> string \<Rightarrow> (json list, unit) result" where
  "array_field v key = ok_or () (Option.bind (json_get v (ascii key)) as_array)"

definition hex_list :: "json \<Rightarrow> string \<Rightarrow> (bytes list, unit) result" where
  "hex_list v key = bind_res (array_field v key)
     (map_res (\<lambda>x. ok_or () (Option.bind (as_str x) (unhex_lower 32))))"

definition check_reason :: "json \<Rightarrow> (bytes option, unit) result" where
  "check_reason v =
     (case json_get v (ascii ''reason'') of
        None \<Rightarrow> Ok None
      | Some (JString s) \<Rightarrow> bind_res (map_err (\<lambda>_. ()) (check_string s)) (\<lambda>_. Ok (Some s))
      | Some _ \<Rightarrow> Err ())"

definition check_timestamp :: "json \<Rightarrow> string \<Rightarrow> (bytes, unit) result" where
  "check_timestamp v key =
     bind_res (string_field v key) (\<lambda>s.
     bind_res (ok_or () (parse_rfc3339_millis s)) (\<lambda>_. Ok s))"

definition MAX_STATEMENT_BYTES :: nat where "MAX_STATEMENT_BYTES = 16 * 1024 * 1024"
definition MAX_STATEMENTS :: nat where "MAX_STATEMENTS = 1024"

definition parse_doc :: "bytes \<Rightarrow> nat \<Rightarrow> (json, unit) result" where
  "parse_doc b max_depth =
     (if MAX_STATEMENT_BYTES < length b then Err ()
      else map_err (\<lambda>_. ()) (parse_canonical b max_depth))"

section \<open>Heads\<close>

definition head_to_json :: "log_head \<Rightarrow> json" where
  "head_to_json h = json_object
     [(''log_id'', JString (hex (hd_log_id h))),
      (''record_count'', JInt (hd_record_count h)),
      (''record_hash'', JString (hex (hd_record_hash h))),
      (''record_id'', JInt (hd_record_id h)),
      (''segment'', JInt (ucast (hd_segment h)))]"

definition head_from_json :: "json \<Rightarrow> (log_head, unit) result" where
  "head_from_json v =
     bind_res (ok_or () (as_object v)) (\<lambda>obj.
       if length obj \<noteq> 5 then Err ()
       else
         bind_res (int_field v ''segment'') (\<lambda>segment.
         bind_res (hex_field 16 v ''log_id'') (\<lambda>log_id.
         bind_res (if unat segment < 2 ^ 16 then Ok (ucast segment) else Err ()) (\<lambda>segment.
         bind_res (int_field v ''record_id'') (\<lambda>record_id.
         bind_res (int_field v ''record_count'') (\<lambda>record_count.
         bind_res (hex_field 32 v ''record_hash'') (\<lambda>record_hash.
           Ok \<lparr>hd_log_id = log_id, hd_segment = segment, hd_record_id = record_id,
               hd_record_count = record_count, hd_record_hash = record_hash\<rparr>)))))))"

section \<open>Documents\<close>

definition TRANSITION_FORMAT :: bytes where "TRANSITION_FORMAT = ascii ''ogentic-audit-key-transition/v1''"
definition REVOCATION_FORMAT :: bytes where "REVOCATION_FORMAT = ascii ''ogentic-audit-key-revocation/v1''"

record signed_statement =
  sst_json :: bytes
  sst_sig :: bytes
  sst_accept_sig :: "bytes option"

definition statement_write :: "signed_statement \<Rightarrow> bytes \<Rightarrow> dir \<Rightarrow> dir" where
  "statement_write s name d =
     (let d1 = dir_put (name @ ascii ''.json'') (sst_json s) d;
          d2 = dir_put (name @ ascii ''.json.sig'') (sst_sig s) d1
      in case sst_accept_sig s of
           None \<Rightarrow> d2
         | Some a \<Rightarrow> dir_put (name @ ascii ''.json.accept.sig'') a d2)"

definition reason_member :: "bytes option \<Rightarrow> (string \<times> json) list" where
  "reason_member reason = (case reason of None \<Rightarrow> [] | Some r \<Rightarrow> [(''reason'', JString r)])"

definition hex_array :: "bytes list \<Rightarrow> json" where
  "hex_array hs = JArray (map (\<lambda>h. JString (hex h)) hs)"

definition transition_doc ::
  "('p, 's) crypto \<Rightarrow> public_key \<Rightarrow> public_key \<Rightarrow> log_head list \<Rightarrow> bytes list \<Rightarrow> bytes \<Rightarrow> bytes option \<Rightarrow> json" where
  "transition_doc c old new final_heads final_releases issued_at reason =
     json_object ([(''final_heads'', JArray (map head_to_json final_heads)),
       (''final_releases'', hex_array final_releases),
       (''format'', JString TRANSITION_FORMAT),
       (''issued_at'', JString issued_at),
       (''new_key_id'', JString (hex (fingerprint_of c new))),
       (''new_public_key'', JString (to_openssh c new [])),
       (''old_key_id'', JString (hex (fingerprint_of c old)))] @ reason_member reason)"

definition transition_json ::
  "('p, 's) crypto \<Rightarrow> public_key \<Rightarrow> public_key \<Rightarrow> log_head list \<Rightarrow> bytes list \<Rightarrow> bytes \<Rightarrow> bytes option \<Rightarrow> bytes" where
  "transition_json c old new final_heads final_releases issued_at reason =
     to_canonical (transition_doc c old new final_heads final_releases issued_at reason)"

definition accept_transition ::
  "('p, 's) crypto \<Rightarrow> signer \<Rightarrow> bytes \<Rightarrow> (bytes, sign_error) result" where
  "accept_transition c new doc = sign_detached c new NS_TRANSITION_ACCEPT doc"

definition transition ::
  "('p, 's) crypto \<Rightarrow> signer \<Rightarrow> signer \<Rightarrow> log_head list \<Rightarrow> bytes list \<Rightarrow> bytes \<Rightarrow> bytes option
    \<Rightarrow> (signed_statement, sign_error) result" where
  "transition c old new final_heads final_releases issued_at reason =
     (let doc = transition_json c (sg_public_key old) (sg_public_key new) final_heads final_releases
            issued_at reason
      in bind_res (sign_detached c old NS_TRANSITION doc) (\<lambda>sig.
         bind_res (accept_transition c new doc) (\<lambda>acc.
           Ok \<lparr>sst_json = doc, sst_sig = sig, sst_accept_sig = Some acc\<rparr>)))"

record statement_cuts =
  sc_trusted_heads :: "log_head list"
  sc_trusted_releases :: "bytes list"
  sc_trusted_successors :: "fingerprint list"

definition no_cuts :: statement_cuts where
  "no_cuts = \<lparr>sc_trusted_heads = [], sc_trusted_releases = [], sc_trusted_successors = []\<rparr>"

definition revocation_doc ::
  "('p, 's) crypto \<Rightarrow> public_key \<Rightarrow> fingerprint \<Rightarrow> statement_cuts \<Rightarrow> bytes \<Rightarrow> bytes option \<Rightarrow> json" where
  "revocation_doc c revoker revoked cuts issued_at reason =
     (let cut = (if fingerprint_of c revoker = revoked then no_cuts else cuts)
      in json_object ([(''format'', JString REVOCATION_FORMAT),
           (''issued_at'', JString issued_at),
           (''revoked_key_id'', JString (hex revoked)),
           (''revoker_key_id'', JString (hex (fingerprint_of c revoker))),
           (''trusted_heads'', JArray (map head_to_json (sc_trusted_heads cut))),
           (''trusted_releases'', hex_array (sc_trusted_releases cut)),
           (''trusted_successors'', hex_array (sc_trusted_successors cut))] @ reason_member reason))"

definition revocation_json ::
  "('p, 's) crypto \<Rightarrow> public_key \<Rightarrow> fingerprint \<Rightarrow> statement_cuts \<Rightarrow> bytes \<Rightarrow> bytes option \<Rightarrow> bytes" where
  "revocation_json c revoker revoked cuts issued_at reason =
     to_canonical (revocation_doc c revoker revoked cuts issued_at reason)"

definition revocation ::
  "('p, 's) crypto \<Rightarrow> signer \<Rightarrow> fingerprint \<Rightarrow> statement_cuts \<Rightarrow> bytes \<Rightarrow> bytes option
    \<Rightarrow> (signed_statement, sign_error) result" where
  "revocation c revoker revoked cuts issued_at reason =
     (let doc = revocation_json c (sg_public_key revoker) revoked cuts issued_at reason
      in bind_res (sign_detached c revoker NS_REVOCATION doc) (\<lambda>sig.
           Ok \<lparr>sst_json = doc, sst_sig = sig, sst_accept_sig = None\<rparr>))"

section \<open>OpenSSH revocation lists\<close>

definition krl :: "fingerprint list \<Rightarrow> bytes \<Rightarrow> u64 \<Rightarrow> bytes" where
  "krl revoked comment generated_unix =
     (let hashes = remdups_adj (sort revoked)
      in ascii ''SSHKRL'' @ [10, 0] @ be_bytes 4 1 @ be_bytes 8 1 @ be_bytes 8 (unat generated_unix)
         @ be_bytes 8 0 @ put_string [] @ put_string comment
         @ (if hashes = [] then [] else 5 # put_string (concat (map put_string hashes))))"

end
