(* ===== verification/Signed_Report.thy ===== *)
theory Signed_Report
  imports Statements Verifier
begin

text \<open>
  Reports on signed logs (\<^verbatim>\<open>signed/report.rs\<close>): locations, findings, warnings, the signer, checkpoints,
  the summary, the report itself and its JSON form.

  Message texts, which the code says no tool may parse, are left out, and with them the JSON members
  \<^verbatim>\<open>message\<close>; so is the rendering for people. Counters are \<open>nat\<close>.
\<close>

datatype not_verified_reason = NotPinned | NoSignedRecords

primrec not_verified_str :: "not_verified_reason \<Rightarrow> string" where
  "not_verified_str NotPinned = ''not_pinned''"
| "not_verified_str NoSignedRecords = ''no_signed_records''"

datatype location =
    LSegment u16
  | LRecord u16 nat nat nat
  | LKey fingerprint

abbreviation jstr :: "string \<Rightarrow> json" where
  "jstr s \<equiv> JString (ascii s)"

abbreviation jnat :: "nat \<Rightarrow> json" where
  "jnat n \<equiv> JInt (of_nat n)"

definition segment_text :: "u16 \<Rightarrow> bytes" where
  "segment_text n = ascii ''s'' @ dec_digits (unat n)"

definition position_text :: "u16 \<Rightarrow> nat \<Rightarrow> bytes" where
  "position_text n p = segment_text n @ ascii ''r'' @ dec_digits p"

fun location_compact :: "location \<Rightarrow> bytes" where
  "location_compact (LSegment n) = segment_text n"
| "location_compact (LRecord n p _ _) = position_text n p"
| "location_compact (LKey k) = ascii ''key:'' @ hex k"

fun location_segment :: "location \<Rightarrow> u16 option" where
  "location_segment (LSegment n) = Some n"
| "location_segment (LRecord n _ _ _) = Some n"
| "location_segment (LKey _) = None"

fun location_to_json :: "location \<Rightarrow> json" where
  "location_to_json (LSegment n) = json_object
     [(''segment_index'', JInt (ucast n)), (''record_id'', JNull),
      (''item'', JString (location_compact (LSegment n)))]"
| "location_to_json (LRecord n p ordinal offset) = json_object
     [(''segment_index'', JInt (ucast n)), (''record_id'', jnat p), (''byte_offset'', jnat offset),
      (''item'', JString (location_compact (LRecord n p ordinal offset)))]"
| "location_to_json (LKey k) = json_object
     [(''key_id_hex'', JString (hex k)), (''item'', JString (location_compact (LKey k)))]"

record finding =
  fi_kind :: violation_kind
  fi_reason :: "string option"
  fi_location :: location
  fi_evidence :: json

definition finding_compact :: "finding \<Rightarrow> bytes" where
  "finding_compact f = ascii (kind_as_str (fi_kind f)) @ ascii ''@'' @ location_compact (fi_location f)"

definition finding_to_json :: "finding \<Rightarrow> json" where
  "finding_to_json f = json_object
     [(''kind'', jstr (kind_as_str (fi_kind f))), (''reason'', json_option jstr (fi_reason f)),
      (''location'', location_to_json (fi_location f)), (''evidence'', fi_evidence f)]"

definition is_log_level :: "finding \<Rightarrow> bool" where
  "is_log_level f \<longleftrightarrow> fi_kind f \<in> {KUntrustedSigner, KFormatDowngrade, KUnsupportedAlgorithm, KRevokedKey,
     KRetiredKey, KLogIdMismatch, KTransitionEquivocation, KCheckpointForDifferentLog}"

record warning =
  wn_kind :: string
  wn_item :: bytes

definition warning_to_json :: "warning \<Rightarrow> json" where
  "warning_to_json w = json_object [(''kind'', jstr (wn_kind w)), (''item'', JString (wn_item w))]"

datatype signer_reason =
  SignerPinned | SignerTransition | SignerNotPinned | SignerNoRecords | SignerNotTrusted

primrec signer_reason_str :: "signer_reason \<Rightarrow> string" where
  "signer_reason_str SignerPinned = ''pinned''"
| "signer_reason_str SignerTransition = ''transition''"
| "signer_reason_str SignerNotPinned = ''not_pinned''"
| "signer_reason_str SignerNoRecords = ''no_signed_records''"
| "signer_reason_str SignerNotTrusted = ''not_trusted''"

record signer_info =
  si_principal :: "bytes option"
  si_alg :: sig_alg
  si_key_id :: fingerprint
  si_trusted :: bool
  si_trust_path :: "fingerprint list"
  si_reason :: signer_reason

definition signer_to_json :: "('p, 's) crypto \<Rightarrow> signer_info \<Rightarrow> json" where
  "signer_to_json c s = json_object
     [(''principal'', json_option JString (si_principal s)),
      (''alg'', JString (json_name (si_alg s))),
      (''key_id_hex'', JString (hex (si_key_id s))),
      (''fingerprint_grouped'', JString (to_grouped_hex (si_key_id s))),
      (''fingerprint_openssh'', JString (fp_to_openssh c (si_key_id s))),
      (''trusted'', JBool (si_trusted s)),
      (''trust_path'', JArray (map (\<lambda>f. JString (hex f)) (si_trust_path s))),
      (''reason'', jstr (signer_reason_str (si_reason s)))]"

record witness_info =
  wi_principal :: bytes
  wi_key_id :: fingerprint
  wi_observed_at :: bytes

record checkpoint_info =
  ci_signed :: bool
  ci_signer_key_id :: fingerprint
  ci_position :: bytes
  ci_observed_at :: "bytes option"
  ci_witnesses :: "witness_info list"
  ci_anchors_head :: bool

definition checkpoint_info_to_json :: "checkpoint_info \<Rightarrow> json" where
  "checkpoint_info_to_json i = json_object
     [(''signed'', JBool (ci_signed i)),
      (''signer_key_id_hex'', JString (hex (ci_signer_key_id i))),
      (''position'', JString (ci_position i)),
      (''observed_at'', json_option JString (ci_observed_at i)),
      (''witnesses'', JArray (map (\<lambda>w. json_object
         [(''principal'', JString (wi_principal w)), (''key_id_hex'', JString (hex (wi_key_id w))),
          (''observed_at'', JString (wi_observed_at w))]) (ci_witnesses i))),
      (''anchors_head'', JBool (ci_anchors_head i))]"

record signed_summary =
  sl_log_dir :: bytes
  sl_log_id :: "bytes option"
  sl_key_id :: "fingerprint option"
  sl_segments_inspected :: nat
  sl_records_inspected :: nat
  sl_first_segment_index :: "u16 option"
  sl_last_segment_index :: "u16 option"
  sl_final_record_hash :: "bytes option"
  sl_head :: "(u16 \<times> nat) option"
  sl_head_anchored :: bool
  sl_sealed :: bool
  sl_elided_records :: "(u16 \<times> nat) list"
  sl_unsigned_last_segment :: bool
  sl_records_after_head :: nat
  sl_head_ts_wall :: "bytes option"

record signed_report =
  sr_format_version :: u16
  sr_verdict :: verdict
  sr_not_verified_reason :: "not_verified_reason option"
  sr_log :: signed_summary
  sr_signer :: "signer_info option"
  sr_checkpoints :: "checkpoint_info list"
  sr_violations :: "finding list"
  sr_warnings :: "warning list"
  sr_segment_filter :: "(u16 \<times> nat) option"

definition empty_summary :: "bytes \<Rightarrow> signed_summary" where
  "empty_summary log_dir =
     \<lparr>sl_log_dir = log_dir, sl_log_id = None, sl_key_id = None, sl_segments_inspected = 0,
      sl_records_inspected = 0, sl_first_segment_index = None, sl_last_segment_index = None,
      sl_final_record_hash = None, sl_head = None, sl_head_anchored = False, sl_sealed = False,
      sl_elided_records = [], sl_unsigned_last_segment = False, sl_records_after_head = 0,
      sl_head_ts_wall = None\<rparr>"

definition empty_report :: "bytes \<Rightarrow> signed_report" where
  "empty_report log_dir =
     \<lparr>sr_format_version = FORMAT_VERSION_SIGNED, sr_verdict = Verified, sr_not_verified_reason = None,
      sr_log = empty_summary log_dir, sr_signer = None, sr_checkpoints = [], sr_violations = [],
      sr_warnings = [], sr_segment_filter = None\<rparr>"

primrec verdict_str :: "verdict \<Rightarrow> string" where
  "verdict_str Verified = ''Verified''"
| "verdict_str SelfConsistent = ''SelfConsistent''"
| "verdict_str HasViolation = ''Violation''"

definition report_violation :: "signed_report \<Rightarrow> finding option" where
  "report_violation r = (case sr_violations r of [] \<Rightarrow> None | f # _ \<Rightarrow> Some f)"

definition signed_compact_verdict :: "signed_report \<Rightarrow> bytes" where
  "signed_compact_verdict r =
     (case sr_verdict r of
        Verified \<Rightarrow> ascii ''Verified''
      | SelfConsistent \<Rightarrow> ascii ''SelfConsistent''
      | HasViolation \<Rightarrow>
          (case report_violation r of None \<Rightarrow> ascii ''Violation'' | Some f \<Rightarrow> finding_compact f))"

definition report_status :: "signed_report \<Rightarrow> string" where
  "report_status r =
     (case sr_verdict r of Verified \<Rightarrow> ''ok'' | SelfConsistent \<Rightarrow> ''unpinned'' | HasViolation \<Rightarrow> ''tampered'')"

definition filter_segment :: "u16 \<Rightarrow> signed_report \<Rightarrow> signed_report" where
  "filter_segment n r =
     (let kept = filter (\<lambda>f. is_log_level f \<or>
            (case location_segment (fi_location f) of None \<Rightarrow> True | Some s \<Rightarrow> s = n)) (sr_violations r)
      in r\<lparr>sr_violations := kept,
           sr_segment_filter := Some (n, length (sr_violations r) - length kept)\<rparr>)"

definition summary_to_json :: "signed_summary \<Rightarrow> json" where
  "summary_to_json l = json_object
     [(''log_dir'', JString (sl_log_dir l)),
      (''log_id_hex'', json_option (\<lambda>i. JString (hex i)) (sl_log_id l)),
      (''key_id_hex'', json_option (\<lambda>k. JString (hex k)) (sl_key_id l)),
      (''segments_inspected'', jnat (sl_segments_inspected l)),
      (''records_inspected'', jnat (sl_records_inspected l)),
      (''first_segment_index'', json_option (\<lambda>i. JInt (ucast i)) (sl_first_segment_index l)),
      (''last_segment_index'', json_option (\<lambda>i. JInt (ucast i)) (sl_last_segment_index l)),
      (''final_record_hash_hex'', json_option (\<lambda>h. JString (hex h)) (sl_final_record_hash l)),
      (''head'', json_option (\<lambda>(s, r). JString (position_text s r)) (sl_head l)),
      (''head_anchored'', JBool (sl_head_anchored l)),
      (''sealed'', JBool (sl_sealed l)),
      (''elided_records'', json_object
         [(''count'', jnat (length (sl_elided_records l))),
          (''positions'', JArray (map (\<lambda>(s, r). JString (position_text s r)) (sl_elided_records l)))]),
      (''unsigned_last_segment'', JBool (sl_unsigned_last_segment l))]"

definition report_to_json :: "('p, 's) crypto \<Rightarrow> signed_report \<Rightarrow> json" where
  "report_to_json c r = json_object
     ([(''format_version'', JInt (ucast (sr_format_version r))),
       (''verdict'', jstr (verdict_str (sr_verdict r))),
       (''status'', jstr (report_status r)),
       (''reason'', json_option (\<lambda>x. jstr (not_verified_str x)) (sr_not_verified_reason r)),
       (''log'', summary_to_json (sr_log r)),
       (''signer'', json_option (signer_to_json c) (sr_signer r)),
       (''violation'', json_option finding_to_json (report_violation r)),
       (''additional_violations'', JArray (map finding_to_json (drop 1 (sr_violations r)))),
       (''warnings'', JArray (map warning_to_json (sr_warnings r)))]
      @ (case sr_segment_filter r of None \<Rightarrow> []
         | Some (seg, hidden) \<Rightarrow> [(''segment_filter'', json_object
             [(''segment'', JInt (ucast seg)), (''violations_outside'', jnat hidden)])])
      @ (if sr_checkpoints r = [] then []
         else [(''checkpoints'', JArray (map checkpoint_info_to_json (sr_checkpoints r)))]))"

end
