(* ===== verification/Trust_Load.thy ===== *)
theory Trust_Load
  imports Statements
begin

text \<open>
  Loading of trust inputs (\<^verbatim>\<open>signed/trust.rs\<close>, the parts before \<^verbatim>\<open>evaluate\<close>): pins given as text, trust
  files in the format of OpenSSH, and key statements with their sibling signature files.

  The file system is a list of paths with what is there; paths are UTF-8. A function that changes
  the context and then fails leaves the changes made so far, so the functions that can do both
  return the context beside the result.
\<close>

section \<open>Pins\<close>

definition pin ::
  "('p, 's) crypto \<Rightarrow> trust_context \<Rightarrow> bytes \<Rightarrow> bytes option \<Rightarrow> scope \<Rightarrow> (trust_context, trust_error) result" where
  "pin c ctx txt prin scope =
     (let t = str_trim txt in
      if starts_with t (ascii ''ssh-ed25519 '') \<or> starts_with t (ascii ''-----BEGIN'')
      then bind_res (map_err TrustKey (key_parse c t)) (\<lambda>k. pin_key_op c ctx k prin scope)
      else bind_res (map_err TrustKey (fp_parse c t)) (\<lambda>fp. pin_fingerprint c ctx fp prin scope))"

text \<open>The tokens of a line of a trust file, after the comment and blank lines were skipped. The
  scope and the tokens after it; then the key.\<close>

definition signer_scope :: "bytes list \<Rightarrow> (scope \<times> bytes list, unit) result" where
  "signer_scope tokens =
     (case tokens of
        [] \<Rightarrow> Err ()
      | next # rest \<Rightarrow>
          if next \<noteq> ascii ''ssh-ed25519'' then
            bind_res (ok_or () (Option.bind (strip_prefix (ascii ''namespaces='' @ [34]) next)
              (strip_suffix [34]))) (\<lambda>value.
            bind_res (from_namespaces (split_byte 44 value)) (\<lambda>scope. Ok (scope, rest)))
          else Ok (SCOPE_DEFAULT, tokens))"

definition allowed_signer ::
  "('p, 's) crypto \<Rightarrow> nat \<Rightarrow> bytes \<Rightarrow> trust_context \<Rightarrow> (trust_context, trust_error) result" where
  "allowed_signer c line l ctx =
     (let err = (\<lambda>_. TrustFile line) in
      case split_whitespace l of
        [] \<Rightarrow> Err (TrustFile line)
      | prin # tokens \<Rightarrow>
          if \<not> valid_principal prin then Err (TrustFile line)
          else
            bind_res (map_err err (signer_scope tokens)) (\<lambda>(scope, tokens).
            case tokens of
              [] \<Rightarrow> Err (TrustFile line)
            | next # tokens \<Rightarrow>
                if next \<noteq> ascii ''ssh-ed25519'' then Err (TrustFile line)
                else (case tokens of
                  [] \<Rightarrow> Err (TrustFile line)
                | b64 # _ \<Rightarrow>
                    bind_res (ok_or (TrustFile line) (base64_decode c b64)) (\<lambda>blob.
                    bind_res (map_err err (from_key_blob blob)) (\<lambda>key.
                      if \<not> is_strong c key then Err (TrustFile line)
                      else push_pin ctx (fingerprint_of c key) (Some key) (Some prin) scope)))))"

fun signer_lines ::
  "('p, 's) crypto \<Rightarrow> (nat \<times> bytes) list \<Rightarrow> trust_context \<Rightarrow> trust_context \<times> (unit, trust_error) result" where
  "signer_lines c [] ctx = (ctx, Ok ())"
| "signer_lines c ((line, raw) # ls) ctx =
     (let l = str_trim raw in
      if l = [] \<or> hd l = 35 then signer_lines c ls ctx
      else (case allowed_signer c line l ctx of
              Ok ctx' \<Rightarrow> signer_lines c ls ctx'
            | Err e \<Rightarrow> (ctx, Err e)
            | Panic \<Rightarrow> (ctx, Panic)))"

definition add_allowed_signers ::
  "('p, 's) crypto \<Rightarrow> bytes \<Rightarrow> trust_context \<Rightarrow> trust_context \<times> (unit, trust_error) result" where
  "add_allowed_signers c txt ctx =
     (if 1024 * 1024 < length txt then (ctx, Err TrustLimit)
      else signer_lines c (enumerate 1 (str_lines txt)) ctx)"

definition from_allowed_signers :: "('p, 's) crypto \<Rightarrow> bytes \<Rightarrow> (trust_context, trust_error) result" where
  "from_allowed_signers c txt =
     (case add_allowed_signers c txt trust_new of (ctx, r) \<Rightarrow> bind_res r (\<lambda>_. Ok ctx))"

section \<open>Files\<close>

datatype fs_node = RegularFile bytes | Directory | OtherNode

type_synonym filesystem = "(bytes \<times> fs_node) list"

definition read_limited :: "filesystem \<Rightarrow> bytes \<Rightarrow> nat \<Rightarrow> (bytes, unit) result" where
  "read_limited fs path limit =
     (case map_of fs path of
        Some (RegularFile b) \<Rightarrow> if limit < length b then Err () else Ok b
      | _ \<Rightarrow> Err ())"

text \<open>The names in a directory: the paths under it with no further separator.\<close>

definition read_dir :: "filesystem \<Rightarrow> bytes \<Rightarrow> bytes list option" where
  "read_dir fs d =
     (if map_of fs d = Some Directory
      then Some (List.map_filter (\<lambda>(p, node).
        case strip_prefix (d @ [47]) p of
          Some name \<Rightarrow> if name \<noteq> [] \<and> 47 \<notin> set name then Some name else None
        | None \<Rightarrow> None) fs)
      else None)"

text \<open>\<^verbatim>\<open>Path::extension\<close> of a file name.\<close>

definition path_extension :: "bytes \<Rightarrow> bytes option" where
  "path_extension name =
     (let parts = split_byte 46 name in
      if name = ascii ''..'' \<or> length parts = 1 \<or> (length parts = 2 \<and> hd parts = []) then None
      else Some (last parts))"

section \<open>Statements\<close>

datatype statement = StTransition key_transition | StRevocation key_revocation

definition head_list :: "json \<Rightarrow> string \<Rightarrow> (log_head list, unit) result" where
  "head_list v key = bind_res (array_field v key) (map_res head_from_json)"

definition check_members :: "json \<Rightarrow> string list \<Rightarrow> (unit, unit) result" where
  "check_members doc allowed =
     bind_res (ok_or () (as_object doc)) (\<lambda>obj.
       if list_all (\<lambda>(k, v). k \<in> set (map ascii allowed)) obj then Ok () else Err ())"

abbreviation drop_err :: "('a, 'e) result \<Rightarrow> ('a, unit) result" where
  "drop_err \<equiv> map_err (\<lambda>_. ())"

definition load_transition ::
  "('p, 's) crypto \<Rightarrow> filesystem \<Rightarrow> bytes \<Rightarrow> statement_source \<Rightarrow> bytes \<Rightarrow> json \<Rightarrow> bytes
    \<Rightarrow> (key_transition, unit) result" where
  "load_transition c fs path source b doc sig =
     bind_res (check_members doc [''final_heads'', ''final_releases'', ''format'', ''issued_at'',
       ''new_key_id'', ''new_public_key'', ''old_key_id'', ''reason'']) (\<lambda>_.
     bind_res (hex_field 32 doc ''old_key_id'') (\<lambda>old_key_id.
     bind_res (hex_field 32 doc ''new_key_id'') (\<lambda>new_key_id.
     bind_res (bind_res (string_field doc ''new_public_key'') (\<lambda>t. drop_err (key_parse c t))) (\<lambda>new_key.
     if fingerprint_of c new_key \<noteq> new_key_id then Err ()
     else if \<not> is_strong c new_key then Err ()
     else
     bind_res (check_timestamp doc ''issued_at'') (\<lambda>issued_at.
     bind_res (check_reason doc) (\<lambda>_.
     bind_res (head_list doc ''final_heads'') (\<lambda>final_heads.
     bind_res (hex_list doc ''final_releases'') (\<lambda>final_releases.
     bind_res (drop_err (verify_detached_by c sig NS_TRANSITION b old_key_id)) (\<lambda>old_key.
     if strength (pk_alg new_key) < strength (pk_alg old_key) then Err ()
     else
     bind_res (read_limited fs (path @ ascii ''.accept.sig'') MAX_SIG_FILE) (\<lambda>acc.
     bind_res (drop_err (verify_detached_by c acc NS_TRANSITION_ACCEPT b new_key_id)) (\<lambda>_.
       Ok \<lparr>tr_sha256 = sha256 c b, tr_old_key_id = old_key_id, tr_old_key = old_key,
           tr_new_key = new_key, tr_final_heads = final_heads, tr_final_releases = final_releases,
           tr_issued_at = issued_at, tr_source = source\<rparr>)))))))))))"

definition load_revocation ::
  "('p, 's) crypto \<Rightarrow> statement_source \<Rightarrow> bytes \<Rightarrow> json \<Rightarrow> bytes \<Rightarrow> (key_revocation, unit) result" where
  "load_revocation c source b doc sig =
     bind_res (check_members doc [''format'', ''issued_at'', ''reason'', ''revoked_key_id'',
       ''revoker_key_id'', ''trusted_heads'', ''trusted_releases'', ''trusted_successors'']) (\<lambda>_.
     bind_res (hex_field 32 doc ''revoked_key_id'') (\<lambda>revoked.
     bind_res (hex_field 32 doc ''revoker_key_id'') (\<lambda>revoker.
     bind_res (check_timestamp doc ''issued_at'') (\<lambda>issued_at.
     bind_res (check_reason doc) (\<lambda>_.
     bind_res (head_list doc ''trusted_heads'') (\<lambda>trusted_heads.
     bind_res (hex_list doc ''trusted_releases'') (\<lambda>trusted_releases.
     bind_res (hex_list doc ''trusted_successors'') (\<lambda>trusted_successors.
     bind_res (drop_err (verify_detached_by c sig NS_REVOCATION b revoker)) (\<lambda>_.
       Ok \<lparr>rv_sha256 = sha256 c b, rv_revoked = revoked, rv_revoker = revoker,
           rv_trusted_heads = trusted_heads, rv_trusted_releases = trusted_releases,
           rv_trusted_successors = trusted_successors, rv_issued_at = issued_at,
           rv_source = source\<rparr>)))))))))"

definition load_statement ::
  "('p, 's) crypto \<Rightarrow> filesystem \<Rightarrow> bytes \<Rightarrow> statement_source \<Rightarrow> (statement, unit) result" where
  "load_statement c fs path source =
     bind_res (read_limited fs path MAX_STATEMENT_BYTES) (\<lambda>b.
     bind_res (parse_doc b 3) (\<lambda>doc.
     bind_res (read_limited fs (path @ ascii ''.sig'') MAX_SIG_FILE) (\<lambda>sig.
     bind_res (string_field doc ''format'') (\<lambda>format.
       if format = TRANSITION_FORMAT
       then bind_res (load_transition c fs path source b doc sig) (\<lambda>t. Ok (StTransition t))
       else if format = REVOCATION_FORMAT
       then bind_res (load_revocation c source b doc sig) (\<lambda>r. Ok (StRevocation r))
       else Err ()))))"

definition add_statement_file ::
  "('p, 's) crypto \<Rightarrow> filesystem \<Rightarrow> bytes \<Rightarrow> bool \<Rightarrow> trust_context
    \<Rightarrow> trust_context \<times> (unit, trust_error) result" where
  "add_statement_file c fs path operator ctx =
     (let source = (if operator then Operator path else Bundle path);
          ctx1 = ctx\<lparr>tc_statements_seen := tc_statements_seen ctx + 1\<rparr>;
          warn = (\<lambda>_. ctx1\<lparr>tc_warnings := tc_warnings ctx1 @ [path]\<rparr>)
      in if MAX_STATEMENTS < tc_statements_seen ctx1 then
           (if operator then (ctx1, Err TrustLimit) else (warn (), Ok ()))
         else (case load_statement c fs path source of
             Ok (StTransition t) \<Rightarrow> (ctx1\<lparr>tc_transitions := tc_transitions ctx1 @ [t]\<rparr>, Ok ())
           | Ok (StRevocation r) \<Rightarrow> (ctx1\<lparr>tc_revocations := tc_revocations ctx1 @ [r]\<rparr>, Ok ())
           | Err _ \<Rightarrow> if operator then (ctx1, Err (TrustStatement path)) else (warn (), Ok ())
           | Panic \<Rightarrow> (ctx1, Panic)))"

fun add_statement_files ::
  "('p, 's) crypto \<Rightarrow> filesystem \<Rightarrow> bool \<Rightarrow> bytes list \<Rightarrow> trust_context
    \<Rightarrow> trust_context \<times> (unit, trust_error) result" where
  "add_statement_files c fs operator [] ctx = (ctx, Ok ())"
| "add_statement_files c fs operator (f # files) ctx =
     (case add_statement_file c fs f operator ctx of
        (ctx', Ok _) \<Rightarrow> add_statement_files c fs operator files ctx'
      | (ctx', r) \<Rightarrow> (ctx', r))"

definition add_statements ::
  "('p, 's) crypto \<Rightarrow> filesystem \<Rightarrow> bytes \<Rightarrow> bool \<Rightarrow> trust_context
    \<Rightarrow> trust_context \<times> (unit, trust_error) result" where
  "add_statements c fs d operator ctx =
     (case read_dir fs d of
        None \<Rightarrow> (ctx, Err (TrustIo d))
      | Some names \<Rightarrow> add_statement_files c fs operator
          (map (\<lambda>n. d @ [47] @ n)
            (sort (filter (\<lambda>n. path_extension n = Some (ascii ''json'')) names))) ctx)"

definition add_revocation ::
  "('p, 's) crypto \<Rightarrow> filesystem \<Rightarrow> bytes \<Rightarrow> trust_context \<Rightarrow> trust_context \<times> (unit, trust_error) result" where
  "add_revocation c fs path ctx = add_statement_file c fs path True ctx"

definition with_bundle_statements ::
  "('p, 's) crypto \<Rightarrow> filesystem \<Rightarrow> bytes \<Rightarrow> trust_context \<Rightarrow> (trust_context, trust_error) result" where
  "with_bundle_statements c fs d ctx =
     (if map_of fs d = Some Directory
      then (case add_statements c fs d False ctx of (ctx', r) \<Rightarrow> bind_res r (\<lambda>_. Ok ctx'))
      else Ok ctx)"

definition bundle_statement_paths :: "trust_context \<Rightarrow> bytes list" where
  "bundle_statement_paths ctx =
     sort (remdups (List.map_filter (\<lambda>s. case s of Bundle p \<Rightarrow> Some p | Operator _ \<Rightarrow> None)
       (map tr_source (tc_transitions ctx) @ map rv_source (tc_revocations ctx))))"

end
