(* ===== verification/Signed_Checkpoint.thy ===== *)
theory Signed_Checkpoint
  imports Trust_Load
begin

text \<open>
  Checkpoints of signed logs and witness co-signatures (\<^verbatim>\<open>signed/checkpoint.rs\<close>): the documents and
  their parsers, signing, co-signing, and the comparison of two checkpoints. Error messages are left
  out.
\<close>

definition CHECKPOINT_V2_FORMAT :: bytes where "CHECKPOINT_V2_FORMAT = ascii ''ogentic-audit-checkpoint/v2''"
definition WITNESS_FORMAT :: bytes where "WITNESS_FORMAT = ascii ''ogentic-audit-witness/v1''"

record checkpoint_v2 =
  cv_alg :: sig_alg
  cv_key_id :: fingerprint
  cv_head :: log_head
  cv_head_ts_wall :: bytes
  cv_observed_at :: "bytes option"

definition checkpoint_to_json :: "checkpoint_v2 \<Rightarrow> bool \<Rightarrow> json" where
  "checkpoint_to_json cp standalone =
     json_object ([(''alg'', JString (json_name (cv_alg cp))),
       (''head_ts_wall'', JString (cv_head_ts_wall cp)),
       (''key_id'', JString (hex (cv_key_id cp))),
       (''log_id'', JString (hex (hd_log_id (cv_head cp)))),
       (''record_count'', JInt (hd_record_count (cv_head cp))),
       (''record_hash'', JString (hex (hd_record_hash (cv_head cp)))),
       (''record_id'', JInt (hd_record_id (cv_head cp))),
       (''segment'', JInt (ucast (hd_segment (cv_head cp))))]
       @ (if standalone then
            (''format'', JString CHECKPOINT_V2_FORMAT)
            # (case cv_observed_at cp of None \<Rightarrow> [] | Some t \<Rightarrow> [(''observed_at'', JString t)])
          else []))"

definition checkpoint_to_bytes :: "checkpoint_v2 \<Rightarrow> bytes" where
  "checkpoint_to_bytes cp = to_canonical (checkpoint_to_json cp True)"

definition checkpoint_from_json :: "json \<Rightarrow> bool \<Rightarrow> (checkpoint_v2, unit) result" where
  "checkpoint_from_json doc standalone =
     bind_res (check_members doc ([''alg'', ''head_ts_wall'', ''key_id'', ''log_id'', ''record_count'',
       ''record_hash'', ''record_id'', ''segment'']
       @ (if standalone then [''format'', ''observed_at''] else []))) (\<lambda>_.
     bind_res (bind_res (string_field doc ''alg'') (\<lambda>n. ok_or () (alg_from_json_name n))) (\<lambda>alg.
     bind_res (bind_res (int_field doc ''segment'')
       (\<lambda>n. if unat n < 2 ^ 16 then Ok (ucast n) else Err ())) (\<lambda>segment.
     bind_res (int_field doc ''record_count'') (\<lambda>record_count.
     if record_count = 0 then Err ()
     else
     bind_res (if standalone then bind_res (check_timestamp doc ''observed_at'') (\<lambda>t. Ok (Some t))
               else Ok None) (\<lambda>observed_at.
     bind_res (hex_field 32 doc ''key_id'') (\<lambda>key_id.
     bind_res (hex_field 16 doc ''log_id'') (\<lambda>log_id.
     bind_res (int_field doc ''record_id'') (\<lambda>record_id.
     bind_res (hex_field 32 doc ''record_hash'') (\<lambda>record_hash.
     bind_res (string_field doc ''head_ts_wall'') (\<lambda>head_ts_wall.
       Ok \<lparr>cv_alg = alg, cv_key_id = key_id,
           cv_head = \<lparr>hd_log_id = log_id, hd_segment = segment, hd_record_id = record_id,
             hd_record_count = record_count, hd_record_hash = record_hash\<rparr>,
           cv_head_ts_wall = head_ts_wall, cv_observed_at = observed_at\<rparr>))))))))))"

text \<open>A version 1 document is refused like any other; only the message differs.\<close>

definition checkpoint_v2_parse :: "bytes \<Rightarrow> (checkpoint_v2, unit) result" where
  "checkpoint_v2_parse b =
     (if 64 * 1024 < length b then Err ()
      else bind_res (drop_err (parse_canonical b 1)) (\<lambda>doc.
        if Option.bind (json_get doc (ascii ''format'')) as_str \<noteq> Some CHECKPOINT_V2_FORMAT then Err ()
        else checkpoint_from_json doc True))"

definition checkpoint_sign ::
  "('p, 's) crypto \<Rightarrow> bytes \<Rightarrow> signer \<Rightarrow> (bytes, sign_error) result" where
  "checkpoint_sign c b sg = sign_detached c sg NS_CHECKPOINT b"

section \<open>Witnesses\<close>

record witness_cosignature =
  wc_checkpoint_sha256 :: bytes
  wc_observed_at :: bytes
  wc_witness_key_id :: fingerprint

definition witness_doc :: "witness_cosignature \<Rightarrow> json" where
  "witness_doc w = json_object
     [(''checkpoint_sha256'', JString (hex (wc_checkpoint_sha256 w))),
      (''format'', JString WITNESS_FORMAT),
      (''observed_at'', JString (wc_observed_at w)),
      (''witness_key_id'', JString (hex (wc_witness_key_id w)))]"

definition witness_to_bytes :: "witness_cosignature \<Rightarrow> bytes" where
  "witness_to_bytes w = to_canonical (witness_doc w)"

definition witness_parse :: "bytes \<Rightarrow> (witness_cosignature, unit) result" where
  "witness_parse b =
     (if 64 * 1024 < length b then Err ()
      else
        bind_res (drop_err (parse_canonical b 1)) (\<lambda>doc.
        bind_res (check_members doc [''checkpoint_sha256'', ''format'', ''observed_at'', ''witness_key_id'']) (\<lambda>_.
        bind_res (string_field doc ''format'') (\<lambda>format.
        if format \<noteq> WITNESS_FORMAT then Err ()
        else
        bind_res (hex_field 32 doc ''checkpoint_sha256'') (\<lambda>checkpoint_sha256.
        bind_res (check_timestamp doc ''observed_at'') (\<lambda>observed_at.
        bind_res (hex_field 32 doc ''witness_key_id'') (\<lambda>witness_key_id.
          Ok \<lparr>wc_checkpoint_sha256 = checkpoint_sha256, wc_observed_at = observed_at,
              wc_witness_key_id = witness_key_id\<rparr>)))))))"

definition cosign ::
  "('p, 's) crypto \<Rightarrow> bytes \<Rightarrow> signer \<Rightarrow> bytes \<Rightarrow> (bytes \<times> bytes, sign_error) result" where
  "cosign c checkpoint_bytes witness observed_at =
     (let doc = witness_to_bytes \<lparr>wc_checkpoint_sha256 = sha256 c checkpoint_bytes,
            wc_observed_at = observed_at,
            wc_witness_key_id = fingerprint_of c (sg_public_key witness)\<rparr>
      in bind_res (sign_detached c witness NS_WITNESS doc) (\<lambda>sig. Ok (doc, sig)))"

section \<open>Comparing two checkpoints\<close>

datatype comparison =
    Equivocation fingerprint log_head bytes
  | NoEquivocation string

definition compare_parsed :: "checkpoint_v2 \<Rightarrow> checkpoint_v2 \<Rightarrow> comparison" where
  "compare_parsed ca cb =
     (let ha = cv_head ca; hb = cv_head cb in
      if cv_key_id ca \<noteq> cv_key_id cb then NoEquivocation ''signed by different keys''
      else if hd_log_id ha \<noteq> hd_log_id hb then NoEquivocation ''checkpoints of different logs''
      else if (hd_segment ha, hd_record_id ha) \<noteq> (hd_segment hb, hd_record_id hb)
      then NoEquivocation ''checkpoints of different positions; compare each against the log''
      else if hd_record_hash ha \<noteq> hd_record_hash hb \<or> hd_record_count ha \<noteq> hd_record_count hb
      then Equivocation (cv_key_id ca) ha (hd_record_hash hb)
      else NoEquivocation ''the checkpoints agree'')"

definition compare_checkpoints ::
  "('p, 's) crypto \<Rightarrow> bytes \<Rightarrow> bytes \<Rightarrow> bytes \<Rightarrow> bytes \<Rightarrow> (comparison, unit) result" where
  "compare_checkpoints c a a_sig b b_sig =
     bind_res (checkpoint_v2_parse a) (\<lambda>ca.
     bind_res (checkpoint_v2_parse b) (\<lambda>cb.
     bind_res (drop_err (verify_detached_by c a_sig NS_CHECKPOINT a (cv_key_id ca))) (\<lambda>_.
     bind_res (drop_err (verify_detached_by c b_sig NS_CHECKPOINT b (cv_key_id cb))) (\<lambda>_.
       Ok (compare_parsed ca cb)))))"

end
