(* ===== verification/Signed_Format.thy ===== *)
theory Signed_Format
  imports Sshsig Names Framing Record_Codec
begin

text \<open>
  The byte layouts of format \<^verbatim>\<open>0x0002\<close> (\<^verbatim>\<open>signed/format.rs\<close>): the 128-byte segment header, the
  signed envelope and the elidable body of a record with their CBOR codecs, and the record frame
  with its reader. Decoding errors carry only a message and are \<open>()\<close> here. The frames interpret the
  locale \<open>framing\<close>. The directory listing of \<^verbatim>\<open>signed/verify.rs\<close> is here too; it interprets the
  locale \<open>segment_store\<close>.
\<close>

definition HEADER_LEN :: nat where "HEADER_LEN = 128"
definition HEADER_HASHED_LEN :: nat where "HEADER_HASHED_LEN = 124"
definition MAX_ENVELOPE_LEN :: nat where "MAX_ENVELOPE_LEN = 4096"
definition SIG_LEN :: nat where "SIG_LEN = 64"
definition LOG_ID_LEN :: nat where "LOG_ID_LEN = 16"

definition EVENT_FINALIZED :: bytes where "EVENT_FINALIZED = ascii ''segment.finalized''"
definition EVENT_SEALED :: bytes where "EVENT_SEALED = ascii ''log.sealed''"
definition EVENT_CONTINUED :: bytes where "EVENT_CONTINUED = ascii ''log.continued''"

definition is_structural :: "bytes \<Rightarrow> bool" where
  "is_structural event \<longleftrightarrow> event = EVENT_FINALIZED \<or> event = EVENT_SEALED \<or> event = EVENT_CONTINUED"

section \<open>Segment headers\<close>

record signed_header =
  sh_version :: u16
  sh_segment_index :: u16
  sh_sig_alg :: u16
  sh_reserved :: u16
  sh_log_id :: bytes
  sh_key_id :: bytes
  sh_prev_final :: bytes
  sh_public_key :: bytes

definition signed_header_new ::
  "('p, 's) crypto \<Rightarrow> u16 \<Rightarrow> bytes \<Rightarrow> public_key \<Rightarrow> bytes \<Rightarrow> signed_header" where
  "signed_header_new c idx log_id pk prev_final =
     \<lparr>sh_version = FORMAT_VERSION_SIGNED, sh_segment_index = idx,
      sh_sig_alg = alg_code (pk_alg pk), sh_reserved = 0, sh_log_id = log_id,
      sh_key_id = fingerprint_of c pk, sh_prev_final = prev_final, sh_public_key = pk_bytes pk\<rparr>"

text \<open>The first 124 bytes of \<^verbatim>\<open>to_bytes\<close>.\<close>

definition signed_header_hashed :: "signed_header \<Rightarrow> bytes" where
  "signed_header_hashed h =
     FORMAT_MAGIC @ le_bytes 2 (unat (sh_version h)) @ le_bytes 2 (unat (sh_segment_index h))
     @ le_bytes 2 (unat (sh_sig_alg h)) @ le_bytes 2 (unat (sh_reserved h))
     @ sh_log_id h @ sh_key_id h @ sh_prev_final h @ sh_public_key h"

definition signed_header_to_bytes :: "('p, 's) crypto \<Rightarrow> signed_header \<Rightarrow> bytes" where
  "signed_header_to_bytes c h =
     signed_header_hashed h @ le_bytes 4 (unat (crc32 c (signed_header_hashed h)))"

definition from_bytes_unchecked :: "bytes \<Rightarrow> signed_header" where
  "from_bytes_unchecked b =
     \<lparr>sh_version = u16_at b 4, sh_segment_index = u16_at b 6, sh_sig_alg = u16_at b 8,
      sh_reserved = u16_at b 10, sh_log_id = slice b 12 16, sh_key_id = slice b 28 32,
      sh_prev_final = slice b 60 32, sh_public_key = slice b 92 32\<rparr>"

definition chain_start :: "('p, 's) crypto \<Rightarrow> bytes \<Rightarrow> bytes" where
  "chain_start c header = th (sha256 c) TAG_HEADER (take HEADER_HASHED_LEN header)"

definition record_hash :: "('p, 's) crypto \<Rightarrow> bytes \<Rightarrow> bytes" where
  "record_hash c envelope = th (sha256 c) TAG_RECORD envelope"

definition body_hash :: "('p, 's) crypto \<Rightarrow> bytes \<Rightarrow> bytes" where
  "body_hash c body = th (sha256 c) TAG_BODY body"

section \<open>Envelopes\<close>

record envelope =
  en_record_id :: u64
  en_prev_hash :: bytes
  en_ts_wall :: bytes
  en_ts_mono_delta :: u64
  en_session_id :: bytes
  en_event :: bytes
  en_key_id :: bytes
  en_schema_version :: u8
  en_segment_index :: u16
  en_sig_alg :: u16
  en_body_hash :: bytes

definition envelope_encode :: "envelope \<Rightarrow> bytes" where
  "envelope_encode e =
     map_int_keys
       [(1, uint_cbor (en_record_id e)), (2, bstr (en_prev_hash e)), (3, tstr (en_ts_wall e)),
        (4, uint_cbor (en_ts_mono_delta e)), (5, bstr (en_session_id e)), (7, tstr (en_event e)),
        (9, bstr (en_key_id e)), (10, uint_cbor (ucast (en_schema_version e))),
        (11, uint_cbor (ucast (en_segment_index e))), (12, uint_cbor (ucast (en_sig_alg e))),
        (13, bstr (en_body_hash e))]"

definition int_map :: "bytes \<Rightarrow> ((u64 \<times> cbor_value) list, unit) result" where
  "int_map b =
     bind_res (map_err (\<lambda>_. ()) (decode b)) (\<lambda>v.
       case v of
         VMap pairs \<Rightarrow> map_res (\<lambda>(k, v). case k of VUint n \<Rightarrow> Ok (n, v) | _ \<Rightarrow> Err ()) pairs
       | _ \<Rightarrow> Err ())"

definition fixed_bytes :: "nat \<Rightarrow> cbor_value option \<Rightarrow> (bytes, unit) result" where
  "fixed_bytes n v =
     (case v of Some (VBytes b) \<Rightarrow> if length b = n then Ok b else Err () | _ \<Rightarrow> Err ())"

text \<open>The loop that fills the map \<^verbatim>\<open>f\<close> of \<^verbatim>\<open>Envelope::decode\<close>: unknown keys from 100 on are skipped.\<close>

definition envelope_key :: "u64 \<times> cbor_value \<Rightarrow> (u64, cbor_value) btree \<Rightarrow> ((u64, cbor_value) btree, unit) result" where
  "envelope_key kv f =
     (let (k, v) = kv in
      if k = 6 \<or> k = 8 \<or> (14 \<le> k \<and> k < 100) \<or> k = 0 then Err ()
      else if k < 100 then Ok (bt_insert k v f) else Ok f)"

definition get_uint :: "(u64, cbor_value) btree \<Rightarrow> u64 \<Rightarrow> (u64, unit) result" where
  "get_uint f k = (case bt_get f k of Some (VUint n) \<Rightarrow> Ok n | _ \<Rightarrow> Err ())"

definition get_text :: "(u64, cbor_value) btree \<Rightarrow> u64 \<Rightarrow> (bytes, unit) result" where
  "get_text f k = (case bt_get f k of Some (VText s) \<Rightarrow> Ok s | _ \<Rightarrow> Err ())"

definition get_small :: "(u64, cbor_value) btree \<Rightarrow> u64 \<Rightarrow> u64 \<Rightarrow> (u64, unit) result" where
  "get_small f k m = bind_res (get_uint f k) (\<lambda>n. if m < n then Err () else Ok n)"

definition event_ok :: "bytes \<Rightarrow> bool" where
  "event_ok event \<longleftrightarrow> event \<noteq> [] \<and> length event \<le> 128 \<and> list_all (\<lambda>b. 0x21 \<le> b \<and> b \<le> 0x7e) event"

definition envelope_decode :: "bytes \<Rightarrow> (envelope, unit) result" where
  "envelope_decode b =
     bind_res (int_map b) (\<lambda>pairs.
     bind_res (fold_res envelope_key pairs []) (\<lambda>f.
     bind_res (get_text f 7) (\<lambda>event.
     if \<not> event_ok event then Err () else
     bind_res (get_uint f 1) (\<lambda>record_id.
     bind_res (fixed_bytes 32 (bt_get f 2)) (\<lambda>prev_hash.
     bind_res (get_text f 3) (\<lambda>ts_wall.
     bind_res (get_uint f 4) (\<lambda>ts_mono_delta.
     bind_res (fixed_bytes SESSION_ID_LEN (bt_get f 5)) (\<lambda>session_id.
     bind_res (fixed_bytes 32 (bt_get f 9)) (\<lambda>key_id.
     bind_res (get_small f 10 255) (\<lambda>schema_version.
     bind_res (get_small f 11 65535) (\<lambda>segment_index.
     bind_res (get_small f 12 65535) (\<lambda>sig_alg.
     bind_res (fixed_bytes 32 (bt_get f 13)) (\<lambda>body_hash.
       Ok \<lparr>en_record_id = record_id, en_prev_hash = prev_hash, en_ts_wall = ts_wall,
           en_ts_mono_delta = ts_mono_delta, en_session_id = session_id, en_event = event,
           en_key_id = key_id, en_schema_version = ucast schema_version,
           en_segment_index = ucast segment_index, en_sig_alg = ucast sig_alg,
           en_body_hash = body_hash\<rparr>)))))))))))))"

section \<open>Bodies\<close>

record body =
  bd_actor :: bytes
  bd_payload :: cbor_value
  bd_nonce :: bytes

text \<open>\<^verbatim>\<open>encode_body\<close>; \<open>None\<close> is the panic of the payload encoder on a bad \<^verbatim>\<open>Nint\<close>.\<close>

definition encode_body :: "bytes \<Rightarrow> (bytes, payload_value) btree \<Rightarrow> bytes \<Rightarrow> bytes option" where
  "encode_body actor payload nonce =
     map_option (\<lambda>p. map_int_keys [(6, tstr actor), (8, p), (14, bstr nonce)])
       (encode_payload_map payload)"

type_synonym body_fields = "bytes option \<times> cbor_value option \<times> bytes option"

definition is_text :: "cbor_value \<Rightarrow> bool" where
  "is_text v = (case v of VText s \<Rightarrow> True | _ \<Rightarrow> False)"

definition body_key :: "u64 \<times> cbor_value \<Rightarrow> body_fields \<Rightarrow> (body_fields, unit) result" where
  "body_key kv fs =
     (let (k, v) = kv; (actor, payload, nonce) = fs in
      if k = 6 then (case v of VText s \<Rightarrow> Ok (Some s, payload, nonce) | _ \<Rightarrow> Err ())
      else if k = 8 then
        (case v of
           VMap entries \<Rightarrow>
             if list_ex (\<lambda>(k, _). \<not> is_text k) entries then Err () else Ok (actor, Some v, nonce)
         | _ \<Rightarrow> Err ())
      else if k = 14 then bind_res (fixed_bytes 32 (Some v)) (\<lambda>n. Ok (actor, payload, Some n))
      else Err ())"

definition body_decode :: "bytes \<Rightarrow> (body, unit) result" where
  "body_decode b =
     bind_res (int_map b) (\<lambda>pairs.
     bind_res (fold_res body_key pairs (None, None, None)) (\<lambda>(actor, payload, nonce).
     bind_res (ok_or () actor) (\<lambda>actor.
     bind_res (ok_or () payload) (\<lambda>payload.
     bind_res (ok_or () nonce) (\<lambda>nonce.
       Ok \<lparr>bd_actor = actor, bd_payload = payload, bd_nonce = nonce\<rparr>)))))"

definition payload_get :: "body \<Rightarrow> bytes \<Rightarrow> cbor_value option" where
  "payload_get b key =
     (case bd_payload b of
        VMap entries \<Rightarrow> map_option snd (find (\<lambda>(k, _). k = VText key) entries)
      | _ \<Rightarrow> None)"

section \<open>Frames\<close>

definition frame :: "bytes \<Rightarrow> bytes \<Rightarrow> bytes option \<Rightarrow> bytes" where
  "frame env signature bdy =
     (let b = (case bdy of None \<Rightarrow> [] | Some b \<Rightarrow> b);
          len = le_bytes 4 (length env mod 2 ^ 32)
      in len @ env @ signature @ le_bytes 4 (length b mod 2 ^ 32) @ b @ len)"

record raw_record =
  raw_offset :: nat
  raw_envelope :: bytes
  raw_signature :: bytes
  raw_body :: "bytes option"
  raw_total_len :: nat

datatype frame_result =
    FrameRecord raw_record
  | FrameEnd
  | FrameTooLarge nat u32
  | FrameTorn nat

text \<open>\<^verbatim>\<open>read_frame\<close> on the bytes of a file, whose length is \<^verbatim>\<open>file_len\<close>; within the bounds it checks,
  no read fails.\<close>

definition read_frame :: "bytes \<Rightarrow> nat \<Rightarrow> frame_result" where
  "read_frame content offset =
     (let remaining = length content - offset in
      if remaining = 0 then FrameEnd
      else if remaining < 4 then FrameTorn offset
      else
        let len = u32_at content offset in
        if MAX_ENVELOPE_LEN < unat len then FrameTooLarge offset len
        else
          let fixed = 4 + unat len + SIG_LEN + 4 in
          if remaining < fixed + 4 then FrameTorn offset
          else
            let env = slice content (offset + 4) (unat len);
                signature = slice content (offset + 4 + unat len) SIG_LEN;
                body_len = unat (u32_at content (offset + 4 + unat len + SIG_LEN))
            in if remaining < fixed + body_len + 4 then FrameTorn offset
               else
                 let bdy = slice content (offset + fixed) body_len in
                 if u32_at content (offset + fixed + body_len) \<noteq> len then FrameTorn offset
                 else FrameRecord
                   \<lparr>raw_offset = offset, raw_envelope = env, raw_signature = signature,
                    raw_body = (if 0 < body_len then Some bdy else None),
                    raw_total_len = fixed + body_len + 4\<rparr>)"

lemma read_frame_progress: "read_frame content offset = FrameRecord raw \<Longrightarrow>
    0 < raw_total_len raw \<and> offset < length content"
  by (auto simp: read_frame_def Let_def split: if_splits)

section \<open>The listing of a signed log\<close>

text \<open>A log directory with the content of its regular files; \<open>None\<close> stands for anything else
  under that name (a directory, a FIFO).\<close>

type_synonym node_dir = "(bytes \<times> bytes option) list"

abbreviation regular_file :: "node_dir \<Rightarrow> u16 \<Rightarrow> bytes option" where
  "regular_file d n \<equiv> Option.bind (map_of d (segment_path n)) (\<lambda>x. x)"

text \<open>\<^verbatim>\<open>list_segments\<close>: the indices present and the names that only look like segments, whatever they
  are. Names that are not UTF-8 are skipped.\<close>

definition list_segments :: "(bytes \<times> 'f) list \<Rightarrow> u16 list \<times> bytes list" where
  "list_segments d =
     (sort (List.map_filter (\<lambda>(name, content). if valid_utf8 name then segment_index name else None) d),
      sort (List.map_filter (\<lambda>(name, content).
        if valid_utf8 name \<and> segment_index name = None \<and> is_near_miss_segment name
        then Some name else None) d))"

definition log_format :: "node_dir \<Rightarrow> u16 option" where
  "log_format d =
     (let segments = fst (list_segments d) in
      if segments = [] then None
      else if hd segments \<noteq> 0 then Some 0
      else case regular_file d 0 of None \<Rightarrow> Some 0
        | Some content \<Rightarrow>
            if length content < 6 \<or> take 4 content \<noteq> FORMAT_MAGIC then Some 0
            else Some (u16_at content 4))"

lemma signed_listing:
  "segment_index (segment_path i) = (if unat i < 10000 then Some i else None)"
proof (cases "unat i < 10000")
  case False
  have "segment_index (segment_path i) \<noteq> Some j" for j
    using False by (auto simp: segment_index_iff)
  then show ?thesis using False by (cases "segment_index (segment_path i)") auto
qed (simp add: segment_index_iff)

interpretation signed_store: segment_store seg_put seg_get "\<lambda>d :: dir. fst (list_segments d)" "\<lambda>d. distinct (map fst d)"
proof
  let ?f = "\<lambda>name. if valid_utf8 name then segment_index name else None"
  have eq: "fst (list_segments d) = listing ?f d" for d :: dir by (simp add: list_segments_def listing_def)
  have canon: "?f name = Some i \<Longrightarrow> name = segment_path i" for name i
    by (auto simp: segment_index_iff split: if_splits)
  have f: "?f (segment_path i) = (if unat i < 10000 then Some i else None)" for i
    by (simp add: signed_listing)
  show "seg_get (seg_put i c d) = (seg_get d)(i \<mapsto> c)" for i c d
    by (rule ext) (simp add: seg_get_def seg_put_def dir_get_put)
  show "sorted_wrt (<) (fst (list_segments d))" if "distinct (map fst d)" for d :: dir
    unfolding eq using that by (rule listing_indices(1)) (use canon f in blast)+
  show "set (fst (list_segments d)) = {i. seg_get d i \<noteq> None \<and> unat i < 10000}" if "distinct (map fst d)" for d :: dir
    unfolding eq using that by (rule listing_indices(2)) (use canon f in blast)+
qed (simp add: seg_put_def distinct_dir_put)

end
