(* ===== verification/Trust_Eval.thy ===== *)
theory Trust_Eval
  imports Trust
begin

text \<open>
  The evaluation of a trust context (\<^verbatim>\<open>evaluate\<close> of \<^verbatim>\<open>signed/trust.rs\<close>): who a key belongs to, which
  revocations are honoured and what they leave of the revoked key, which transitions are then
  followed, and which keys they retire. The properties: everything trusted goes back to a pin over
  transitions that may be followed, the evaluation misses no such transition, an honoured
  revocation cuts off what it does not list, and a self-revocation cuts off everything.
\<close>

section \<open>Step B: revocations\<close>

fun dedup_by_key :: "('a \<Rightarrow> 'b) \<Rightarrow> 'a list \<Rightarrow> 'a list" where
  "dedup_by_key f (x # y # xs) =
     (if f x = f y then dedup_by_key f (x # xs) else x # dedup_by_key f (y # xs))"
| "dedup_by_key f xs = xs"

definition has_authority :: "trust_pin list \<Rightarrow> entries \<Rightarrow> key_revocation \<Rightarrow> bool" where
  "has_authority pins principals_entries r \<longleftrightarrow>
     list_ex (\<lambda>p. pin_key_id p = rv_revoker r \<and> scope_contains (pin_scope p) NS_REVOCATION \<and>
         list_ex (\<lambda>e. te_principal e = pin_principal p) (get_list principals_entries (rv_revoked r)))
       pins"

text \<open>The state of the loop over the revocations: \<^verbatim>\<open>revoked_any\<close> (a \<^verbatim>\<open>BTreeSet\<close>), \<^verbatim>\<open>authority_cuts\<close>, and
  \<^verbatim>\<open>out.warnings\<close>.\<close>

record revocation_state =
  rs_revoked_any :: "fingerprint list"
  rs_authority_cuts :: "(fingerprint, key_revocation list) btree"
  rs_warnings :: "bytes list"

definition honour ::
  "trust_pin list \<Rightarrow> entries \<Rightarrow> key_revocation \<Rightarrow> revocation_state \<Rightarrow> (revocation_state, trust_error) result" where
  "honour pins principals_entries r st =
     (if rv_revoker r = rv_revoked r then
        Ok (st\<lparr>rs_revoked_any := insort_insert (rv_revoked r) (rs_revoked_any st)\<rparr>)
      else if has_authority pins principals_entries r then
        Ok (st\<lparr>rs_revoked_any := insort_insert (rv_revoked r) (rs_revoked_any st),
               rs_authority_cuts := push_at (rv_revoked r) r (rs_authority_cuts st)\<rparr>)
      else (case rv_source r of
              Operator p \<Rightarrow> Err (NoAuthority p)
            | Bundle p \<Rightarrow> Ok (st\<lparr>rs_warnings := rs_warnings st @ [p]\<rparr>)))"

fun honour_all ::
  "trust_pin list \<Rightarrow> entries \<Rightarrow> key_revocation list \<Rightarrow> revocation_state \<Rightarrow> (revocation_state, trust_error) result" where
  "honour_all pins pe [] st = Ok st"
| "honour_all pins pe (r # rs) st = bind_res (honour pins pe r st) (honour_all pins pe rs)"

definition retain_all :: "('r \<Rightarrow> 'a list) \<Rightarrow> 'r list \<Rightarrow> 'a list \<Rightarrow> 'a list" where
  "retain_all f rs xs = fold (\<lambda>r. filter (\<lambda>x. x \<in> set (f r))) rs xs"

definition earliest_issued :: "key_revocation list \<Rightarrow> fingerprint \<Rightarrow> bytes" where
  "earliest_issued all_revocations k =
     (case map rv_issued_at (filter (\<lambda>r. rv_revoked r = k) all_revocations) of
        [] \<Rightarrow> []
      | t # ts \<Rightarrow> fold min ts t)"

definition cut_for ::
  "key_revocation list \<Rightarrow> (fingerprint, key_revocation list) btree \<Rightarrow> fingerprint \<Rightarrow> cut_points" where
  "cut_for all_revocations authority_cuts k =
     (case get_list authority_cuts k of
        [] \<Rightarrow> \<lparr>cp_heads = [], cp_releases = [], cp_successors = [],
               cp_issued_at = earliest_issued all_revocations k, cp_authority = False\<rparr>
      | r # rs \<Rightarrow> \<lparr>cp_heads = retain_all rv_trusted_heads rs (rv_trusted_heads r),
               cp_releases = retain_all rv_trusted_releases rs (rv_trusted_releases r),
               cp_successors = retain_all rv_trusted_successors rs (rv_trusted_successors r),
               cp_issued_at = earliest_issued all_revocations k, cp_authority = True\<rparr>)"

definition cuts ::
  "key_revocation list \<Rightarrow> revocation_state \<Rightarrow> (fingerprint, cut_points) btree" where
  "cuts all_revocations st =
     fold (\<lambda>k m. bt_insert k (cut_for all_revocations (rs_authority_cuts st) k) m)
       (rs_revoked_any st) []"

section \<open>Step C: transitions and retirement\<close>

definition may_follow ::
  "('p, 's) crypto \<Rightarrow> by_old \<Rightarrow> (fingerprint, cut_points) btree \<Rightarrow> key_transition \<Rightarrow> bool" where
  "may_follow c by_old revoked t =
     (case bt_get revoked (tr_old_key_id t) of
        Some cp \<Rightarrow> fingerprint_of c (tr_new_key t) \<in> set (cp_successors cp)
      | None \<Rightarrow> \<not> equivocating by_old (tr_old_key_id t))"

definition retire ::
  "('p, 's) crypto \<Rightarrow> by_old \<Rightarrow> (key_transition \<Rightarrow> bool) \<Rightarrow> entries
    \<Rightarrow> fingerprint \<times> key_transition list \<Rightarrow> evaluated \<Rightarrow> evaluated" where
  "retire c m follow es ol out =
     (let (old, l) = ol in
      if equivocating m old then
        (if get_list es old \<noteq> []
         then out\<lparr>ev_equivocations := ev_equivocations out @ [(old, tr_sha256 (l ! 0), tr_sha256 (l ! 1))]\<rparr>
         else out)
      else
        (let t = l ! 0 in
         if list_ex (\<lambda>e. scope_contains (te_scope e) NS_TRANSITION) (get_list es old) \<and> follow t
         then out\<lparr>ev_retired := bt_insert old
                   \<lparr>rt_heads = tr_final_heads t, rt_releases = tr_final_releases t,
                    rt_issued_at = tr_issued_at t,
                    rt_successor = fingerprint_of c (tr_new_key t)\<rparr> (ev_retired out),
                ev_keys := bt_insert (fingerprint_of c (tr_new_key t)) (tr_new_key t)
                  (bt_insert (tr_old_key_id t) (tr_old_key t) (ev_keys out))\<rparr>
         else out))"

definition evaluate :: "('p, 's) crypto \<Rightarrow> trust_context \<Rightarrow> (evaluated, trust_error) result" where
  "evaluate c ctx =
     (let base = base_entries (tc_pins ctx);
          m = group_transitions (tc_transitions ctx);
          principals_entries = extend_entries c base m (\<lambda>t. \<not> equivocating m (tr_old_key_id t));
          revocations = dedup_by_key rv_sha256 (sort_key rv_sha256 (tc_revocations ctx))
      in bind_res
          (honour_all (tc_pins ctx) principals_entries revocations
             \<lparr>rs_revoked_any = [], rs_authority_cuts = [], rs_warnings = tc_warnings ctx\<rparr>) (\<lambda>st.
          let revoked = cuts (tc_revocations ctx) st;
              follow = may_follow c m revoked;
              es = extend_entries c base m follow
          in Ok (fold (retire c m follow es) m
               \<lparr>ev_has_pins = tc_pins ctx \<noteq> [], ev_entries = es, ev_keys = pinned_keys (tc_pins ctx),
                ev_retired = [], ev_revoked = revoked, ev_equivocations = [],
                ev_warnings = rs_warnings st\<rparr>)))"

section \<open>What is trusted\<close>

text \<open>The declarative reading: a pin is trusted, and a transition that may be followed carries trust
  with the transition scope to the new key.\<close>

definition successor_entry :: "fingerprint \<Rightarrow> trust_entry \<Rightarrow> trust_entry" where
  "successor_entry new_id e = \<lparr>te_principal = te_principal e, te_auto_principal = te_auto_principal e,
     te_scope = te_scope e, te_trust_path = te_trust_path e @ [new_id], te_pinned = False\<rparr>"

inductive trusted_via ::
  "('p, 's) crypto \<Rightarrow> trust_pin list \<Rightarrow> key_transition list \<Rightarrow> (key_transition \<Rightarrow> bool)
    \<Rightarrow> fingerprint \<Rightarrow> trust_entry \<Rightarrow> bool" for c pins ts follow where
  via_pin: "p \<in> set pins \<Longrightarrow> trusted_via c pins ts follow (pin_key_id p) (pin_entry p)"
| via_transition: "trusted_via c pins ts follow (tr_old_key_id t) e \<Longrightarrow> t \<in> set ts \<Longrightarrow> follow t
    \<Longrightarrow> scope_contains (te_scope e) NS_TRANSITION
    \<Longrightarrow> trusted_via c pins ts follow (fingerprint_of c (tr_new_key t))
          (successor_entry (fingerprint_of c (tr_new_key t)) e)"

lemma get_base_entries:
  "e \<in> set (get_list (base_entries pins) k) \<longleftrightarrow> (\<exists>p \<in> set pins. pin_key_id p = k \<and> e = pin_entry p)"
proof -
  have "e \<in> set (get_list (fold add_base pins es) k) \<longleftrightarrow>
      e \<in> set (get_list es k) \<or> (\<exists>p \<in> set pins. pin_key_id p = k \<and> e = pin_entry p)" for es
  proof (induction pins arbitrary: es)
    case (Cons p pins)
    have "e \<in> set (get_list (add_base p es) k) \<longleftrightarrow>
        e \<in> set (get_list es k) \<or> pin_key_id p = k \<and> e = pin_entry p"
      by (auto simp: add_base_def get_list_push)
    then show ?case using Cons.IH [of "add_base p es"] by auto
  qed simp
  then show ?thesis by (simp add: base_entries_def get_list_def)
qed

lemma bt_wf_push_at: "bt_wf m \<Longrightarrow> bt_wf (push_at k x m)"
  by (simp add: push_at_def bt_wf_insert)

lemma bt_wf_group_transitions: "bt_wf (group_transitions ts)"
proof -
  have "bt_wf m \<Longrightarrow> bt_wf (fold add_transition ts m)" for m
    by (induction ts arbitrary: m) (simp_all add: add_transition_def bt_wf_push_at)
  then show ?thesis by (simp add: group_transitions_def)
qed

text \<open>The code identifies a statement with its hash. One statement may come from several files; two
  different statements with one hash would be a collision.\<close>

definition transitions_identified :: "key_transition list \<Rightarrow> bool" where
  "transitions_identified ts \<longleftrightarrow>
     (\<forall>t \<in> set ts. \<forall>u \<in> set ts. tr_sha256 t = tr_sha256 u \<longrightarrow> u = t\<lparr>tr_source := tr_source u\<rparr>)"

definition revocations_identified :: "key_revocation list \<Rightarrow> bool" where
  "revocations_identified rs \<longleftrightarrow>
     (\<forall>r \<in> set rs. \<forall>s \<in> set rs. rv_sha256 r = rv_sha256 s \<longrightarrow> s = r\<lparr>rv_source := rv_source s\<rparr>)"

lemma group_transitions_sub:
  "t \<in> set (get_list (group_transitions ts) k) \<Longrightarrow> t \<in> set ts \<and> tr_old_key_id t = k"
proof -
  have "t \<in> set (get_list (fold add_transition us m) k) \<Longrightarrow>
      t \<in> set (get_list m k) \<or> t \<in> set us \<and> tr_old_key_id t = k" for us m
  proof (induction us arbitrary: m)
    case (Cons u us)
    have "t \<in> set (get_list (add_transition u m) k) \<Longrightarrow> t \<in> set (get_list m k) \<or> t = u \<and> tr_old_key_id t = k"
      by (auto simp: add_transition_def get_list_push split: if_splits)
    then show ?case using Cons.IH [of "add_transition u m"] Cons.prems by auto
  qed simp
  then show "t \<in> set (get_list (group_transitions ts) k) \<Longrightarrow> t \<in> set ts \<and> tr_old_key_id t = k"
    by (fastforce simp: group_transitions_def get_list_def)
qed

lemma group_transitions_has:
  assumes "transitions_identified ts" "t \<in> set ts"
  shows "\<exists>u \<in> set (get_list (group_transitions ts) (tr_old_key_id t)). u = t\<lparr>tr_source := tr_source u\<rparr>"
proof -
  have keeps: "set (get_list m k) \<subseteq> set (get_list (fold add_transition us m) k)" for us m k
  proof (induction us arbitrary: m)
    case (Cons u us)
    have "set (get_list m k) \<subseteq> set (get_list (add_transition u m) k)"
      by (auto simp: add_transition_def get_list_push)
    then show ?case using Cons [of "add_transition u m"] by auto
  qed simp
  have "\<exists>u \<in> set (get_list (fold add_transition us m) (tr_old_key_id t)). tr_sha256 u = tr_sha256 t"
    if "t \<in> set us" for us m
    using that
  proof (induction us arbitrary: m)
    case (Cons u us)
    show ?case
    proof (cases "u = t")
      case True
      then have "\<exists>x \<in> set (get_list (add_transition u m) (tr_old_key_id t)). tr_sha256 x = tr_sha256 t"
        by (auto simp: add_transition_def get_list_push list_ex_iff)
      then show ?thesis using keeps by fastforce
    qed (use Cons in auto)
  qed simp
  then obtain u where u: "u \<in> set (get_list (group_transitions ts) (tr_old_key_id t))" "tr_sha256 u = tr_sha256 t"
    using assms(2) by (auto simp: group_transitions_def)
  then have "u = t\<lparr>tr_source := tr_source u\<rparr>"
    using assms group_transitions_sub [OF u(1)] by (auto simp: transitions_identified_def)
  then show ?thesis using u(1) by blast
qed

lemma by_old_list_iff: "bt_wf m \<Longrightarrow> (old, t) \<in> set (by_old_list m) \<longleftrightarrow> t \<in> set (get_list m old)"
  by (force simp: by_old_list_def get_list_def dest: bt_wf_distinct map_of_SomeD
      intro: map_of_is_SomeI split: option.splits)

text \<open>Both loops of \<^verbatim>\<open>extend\<close> by one rule: what every step keeps, the result has; and in the result no step
  adds anything.\<close>

lemma fold_keeps: "(\<And>x st. x \<in> set xs \<Longrightarrow> P st \<Longrightarrow> P (f x st)) \<Longrightarrow> P st \<Longrightarrow> P (fold f xs st)"
  by (induction xs arbitrary: st) auto

lemma extend_pass_keeps:
  assumes step: "\<And>old t e es. (old, t) \<in> set (by_old_list m) \<Longrightarrow> follow t \<Longrightarrow> P es \<Longrightarrow>
      scope_contains (te_scope e) NS_TRANSITION \<Longrightarrow> Q old e \<Longrightarrow>
      \<not> list_ex (\<lambda>x. te_principal x = te_principal e) (get_list es (fingerprint_of c (tr_new_key t))) \<Longrightarrow>
      P (push_at (fingerprint_of c (tr_new_key t)) (successor_entry (fingerprint_of c (tr_new_key t)) e) es)"
    and Q: "\<And>old e es. P es \<Longrightarrow> e \<in> set (get_list es old) \<Longrightarrow> Q old e"
    and base: "P es"
  shows "P (fst (extend_pass c m follow es))"
  unfolding extend_pass_def
proof (rule fold_keeps [where P = "\<lambda>st. P (fst st)"])
  fix ot and st :: "entries \<times> bool"
  assume ot: "ot \<in> set (by_old_list m)" and st: "P (fst st)"
  obtain old t where [simp]: "ot = (old, t)" by fastforce
  have "P (fst (fold (add_source (fingerprint_of c (tr_new_key t)))
      (filter (\<lambda>e. scope_contains (te_scope e) NS_TRANSITION) (get_list (fst st) old)) st))" if "follow t"
  proof (rule fold_keeps [where P = "\<lambda>st. P (fst st)"])
    fix e and st' :: "entries \<times> bool"
    assume "e \<in> set (filter (\<lambda>e. scope_contains (te_scope e) NS_TRANSITION) (get_list (fst st) old))"
      and "P (fst st')"
    then show "P (fst (add_source (fingerprint_of c (tr_new_key t)) e st'))"
      using step [of old t "fst st'" e] Q [OF st] ot \<open>follow t\<close>
      by (auto simp: add_source_def Let_def successor_entry_def split: prod.splits)
  qed (rule st)
  then show "P (fst (extend_one c follow ot st))" using st by (simp add: extend_one_def)
qed (simp add: base)

lemma extend_loop_keeps:
  "(\<forall>es. P es \<longrightarrow> P (fst (extend_pass c m follow es))) \<Longrightarrow> P es \<Longrightarrow> P (extend_loop c m follow es)"
proof (induction c m follow es rule: extend_loop.induct)
  case (1 c m follow es)
  obtain es' added where p: "extend_pass c m follow es = (es', added)" by fastforce
  then have "P es'" using 1(2,3) by force
  then show ?case
    using 1(1) [OF p [symmetric] refl _ 1(2)] p extend_loop.simps [of c m follow es] by simp
qed

lemma extend_keeps:
  assumes step: "\<And>old t e es. (old, t) \<in> set (by_old_list m) \<Longrightarrow> follow t \<Longrightarrow> P es \<Longrightarrow>
      scope_contains (te_scope e) NS_TRANSITION \<Longrightarrow> Q old e \<Longrightarrow>
      \<not> list_ex (\<lambda>x. te_principal x = te_principal e) (get_list es (fingerprint_of c (tr_new_key t))) \<Longrightarrow>
      P (push_at (fingerprint_of c (tr_new_key t)) (successor_entry (fingerprint_of c (tr_new_key t)) e) es)"
    and Q: "\<And>old e es. P es \<Longrightarrow> e \<in> set (get_list es old) \<Longrightarrow> Q old e"
    and base: "P es"
  shows "P (extend_entries c es m follow)"
  unfolding extend_entries_def
proof (rule extend_loop_keeps)
  show "\<forall>es. P es \<longrightarrow> P (fst (extend_pass c m follow es))"
  proof (intro allI impI)
    fix es assume es: "P es"
    show "P (fst (extend_pass c m follow es))"
    proof (rule extend_pass_keeps [where P = P and Q = Q])
    qed (erule (5) step, erule (1) Q, rule es)
  qed
qed (rule base)

lemma fold_unchanged:
  assumes "\<And>x st. snd st \<Longrightarrow> snd (f x st)" and "\<And>x st. \<not> snd (f x st) \<Longrightarrow> f x st = st"
    and "\<not> snd (fold f xs st)"
  shows "fold f xs st = st \<and> (\<forall>x \<in> set xs. f x st = st)"
  using assms(3)
proof (induction xs arbitrary: st)
  case (Cons x xs)
  then have eq: "fold f xs (f x st) = f x st" "\<forall>y \<in> set xs. f y (f x st) = f x st" by simp_all
  then have "\<not> snd (f x st)" using Cons.prems by simp
  then have "f x st = st" by (rule assms(2))
  then show ?case using eq by simp
qed simp

lemma add_source_unchanged: "\<not> snd (add_source k e st) \<Longrightarrow> add_source k e st = st"
  by (auto simp: add_source_def Let_def split: prod.splits if_splits)

lemma add_source_flag: "snd st \<Longrightarrow> snd (add_source k e st)"
  by (auto simp: add_source_def Let_def split: prod.splits)

lemma fold_add_source_unchanged:
  "\<not> snd (fold (add_source k) xs st) \<Longrightarrow>
   fold (add_source k) xs st = st \<and> (\<forall>x \<in> set xs. add_source k x st = st)"
  by (rule fold_unchanged [OF add_source_flag add_source_unchanged])

lemma extend_one_flag: "snd st \<Longrightarrow> snd (extend_one c follow ot st)"
  by (auto simp: extend_one_def Let_def intro: fold_keeps add_source_flag split: prod.splits)

lemma extend_one_unchanged: "\<not> snd (extend_one c follow ot st) \<Longrightarrow> extend_one c follow ot st = st"
  by (auto simp: extend_one_def Let_def split: prod.splits
      dest: fold_add_source_unchanged)

lemma fold_extend_one_unchanged:
  "\<not> snd (fold (extend_one c follow) xs st) \<Longrightarrow>
   fold (extend_one c follow) xs st = st \<and> (\<forall>x \<in> set xs. extend_one c follow x st = st)"
  by (rule fold_unchanged [OF extend_one_flag extend_one_unchanged])

lemma extend_one_fixed:
  assumes "extend_one c follow (old, t) (es, False) = (es, False)" and "follow t"
    and "e \<in> set (get_list es old)" and "scope_contains (te_scope e) NS_TRANSITION"
  shows "\<exists>x \<in> set (get_list es (fingerprint_of c (tr_new_key t))). te_principal x = te_principal e"
proof -
  have "add_source (fingerprint_of c (tr_new_key t)) e (es, False) = (es, False)"
    using assms fold_add_source_unchanged [of "fingerprint_of c (tr_new_key t)"
        "filter (\<lambda>e. scope_contains (te_scope e) NS_TRANSITION) (get_list es old)" "(es, False)"]
    by (simp add: extend_one_def)
  then show ?thesis by (auto simp: add_source_def Let_def list_ex_iff split: if_splits)
qed

lemma extend_closed:
  assumes "(old, t) \<in> set (by_old_list m)" and "follow t"
    and "e \<in> set (get_list (extend_entries c base m follow) old)" and "scope_contains (te_scope e) NS_TRANSITION"
  shows "\<exists>x \<in> set (get_list (extend_entries c base m follow) (fingerprint_of c (tr_new_key t))).
    te_principal x = te_principal e"
proof -
  have "extend_one c follow ot (extend_loop c m follow es, False) = (extend_loop c m follow es, False)"
    if "ot \<in> set (by_old_list m)" for ot es
    using that
  proof (induction c m follow es rule: extend_loop.induct)
    case (1 c m follow es)
    obtain es' added where p: "extend_pass c m follow es = (es', added)" by fastforce
    show ?case
    proof (cases added)
      case True
      then show ?thesis using 1 p extend_loop.simps [of c m follow es] by simp
    next
      case False
      then have "es' = es" "\<forall>x \<in> set (by_old_list m). extend_one c follow x (es, False) = (es, False)"
        using fold_extend_one_unchanged [of c follow "by_old_list m" "(es, False)"] p
        by (auto simp: extend_pass_def)
      then show ?thesis using 1(2) p False extend_loop.simps [of c m follow es] by simp
    qed
  qed
  then show ?thesis using extend_one_fixed assms unfolding extend_entries_def by blast
qed

text \<open>Two pins that give one principal different scopes are the only source of ambiguity.\<close>

definition one_scope :: "trust_pin list \<Rightarrow> bool" where
  "one_scope pins \<longleftrightarrow>
     list_all (\<lambda>p. list_all (\<lambda>q. pin_principal p = pin_principal q \<longrightarrow> pin_scope p = pin_scope q) pins) pins"

lemma trusted_via_scope:
  assumes "trusted_via c pins ts follow k e" and "trusted_via c pins ts follow' k' e'"
    and "one_scope pins" and "te_principal e = te_principal e'"
  shows "te_scope e = te_scope e'"
proof -
  have pin: "\<exists>p \<in> set pins. te_principal e = pin_principal p \<and> te_scope e = pin_scope p"
    if "trusted_via c pins ts follow k e" for k e follow
    using that by induction (auto simp: pin_entry_def successor_entry_def)
  obtain p p' where "p \<in> set pins" "te_principal e = pin_principal p" "te_scope e = pin_scope p"
      "p' \<in> set pins" "te_principal e' = pin_principal p'" "te_scope e' = pin_scope p'"
    using pin [OF assms(1)] pin [OF assms(2)] by blast
  moreover have "\<forall>p \<in> set pins. \<forall>q \<in> set pins. pin_principal p = pin_principal q \<longrightarrow> pin_scope p = pin_scope q"
    using assms(3) unfolding one_scope_def list_all_iff by blast
  ultimately show ?thesis using assms(4) by metis
qed

lemma extend_sound:
  assumes "e \<in> set (get_list (extend_entries c (base_entries pins) (group_transitions ts) follow) k)"
  shows "trusted_via c pins ts follow k e"
proof -
  let ?P = "\<lambda>es. \<forall>k. \<forall>e \<in> set (get_list es k). trusted_via c pins ts follow k e"
  have "?P (extend_entries c (base_entries pins) (group_transitions ts) follow)"
  proof (rule extend_keeps [where P = ?P and Q = "trusted_via c pins ts follow"])
    show "?P (base_entries pins)" by (auto simp: get_base_entries intro: via_pin)
  next
    fix old t e es assume t: "(old, t) \<in> set (by_old_list (group_transitions ts))" "follow t" "?P es"
      "scope_contains (te_scope e) NS_TRANSITION" "trusted_via c pins ts follow old e"
    then have "t \<in> set ts" "tr_old_key_id t = old"
      using group_transitions_sub by (auto simp: by_old_list_iff bt_wf_group_transitions)
    then show "?P (push_at (fingerprint_of c (tr_new_key t)) (successor_entry (fingerprint_of c (tr_new_key t)) e) es)"
      using t by (auto simp: get_list_push intro: via_transition)
  qed blast
  then show ?thesis using assms by blast
qed

lemma extend_base:
  assumes "e \<in> set (get_list base k)"
  shows "e \<in> set (get_list (extend_entries c base m follow) k)"
  by (rule extend_keeps [where P = "\<lambda>es. e \<in> set (get_list es k)" and Q = "\<lambda>_ _. True"])
    (auto simp: get_list_push assms)

lemma extend_complete:
  assumes "transitions_identified ts" and "one_scope pins" and "trusted_via c pins ts follow k e"
    and follow: "\<And>t s. follow (t\<lparr>tr_source := s\<rparr>) = follow t"
  shows "\<exists>x \<in> set (get_list (extend_entries c (base_entries pins) (group_transitions ts) follow) k).
    te_principal x = te_principal e \<and> te_scope x = te_scope e"
  using assms(3)
proof induction
  case (via_pin p)
  then have "pin_entry p \<in> set (get_list (base_entries pins) (pin_key_id p))"
    by (auto simp: get_base_entries)
  then show ?case using extend_base by blast
next
  case (via_transition t e)
  let ?E = "extend_entries c (base_entries pins) (group_transitions ts) follow"
  obtain x where x: "x \<in> set (get_list ?E (tr_old_key_id t))" "te_principal x = te_principal e"
      "te_scope x = te_scope e"
    using via_transition.IH by blast
  obtain u where u: "u \<in> set (get_list (group_transitions ts) (tr_old_key_id t))" "u = t\<lparr>tr_source := tr_source u\<rparr>"
    using group_transitions_has [OF assms(1) via_transition.hyps(2)] by blast
  then have "tr_new_key u = tr_new_key t" "follow u"
    using follow [of "tr_source u" t] via_transition.hyps(3) by (metis key_transition.ext_inject key_transition.surjective key_transition.update_convs(8), metis)
  moreover have "(tr_old_key_id t, u) \<in> set (by_old_list (group_transitions ts))"
    using u(1) by (simp add: by_old_list_iff bt_wf_group_transitions)
  ultimately  obtain y where y: "y \<in> set (get_list ?E (fingerprint_of c (tr_new_key t)))"
      "te_principal y = te_principal x"
    using extend_closed [of "tr_old_key_id t" u "group_transitions ts" follow x c "base_entries pins"]
      x(1,3) via_transition.hyps(3,4) by auto
  then have "te_scope y = te_scope e"
    using trusted_via_scope [OF extend_sound via_transition.hyps(1) assms(2)] x(2) by simp
  then show ?case using x(2) y by (auto simp: successor_entry_def)
qed

section \<open>What revocations leave\<close>

lemma set_retain_all: "x \<in> set (retain_all f rs xs) \<longleftrightarrow> x \<in> set xs \<and> (\<forall>r \<in> set rs. x \<in> set (f r))"
  unfolding retain_all_def by (induction rs arbitrary: xs) auto

lemma set_dedup: "set (dedup_by_key f xs) \<subseteq> set xs"
  by (induction f xs rule: dedup_by_key.induct) auto

lemma dedup_has: "x \<in> set xs \<Longrightarrow> \<exists>y \<in> set (dedup_by_key f xs). f y = f x"
proof (induction f xs arbitrary: x rule: dedup_by_key.induct)
  case (1 f a b xs)
  have "\<exists>y \<in> set (dedup_by_key f (a # xs)). f y = f a" if "f a = f b" using 1(1) [OF that, of a] by simp
  then show ?case using 1 by (cases "f a = f b") auto
qed auto

definition honoured :: "trust_pin list \<Rightarrow> entries \<Rightarrow> key_revocation \<Rightarrow> bool" where
  "honoured pins pe r \<longleftrightarrow> rv_revoker r \<noteq> rv_revoked r \<and> has_authority pins pe r"

lemma honour_all_cuts:
  "honour_all pins pe rs st = Ok st' \<Longrightarrow>
   get_list (rs_authority_cuts st') k =
     get_list (rs_authority_cuts st) k @ filter (\<lambda>r. rv_revoked r = k \<and> honoured pins pe r) rs \<and>
   (k \<in> set (rs_revoked_any st') \<longleftrightarrow> k \<in> set (rs_revoked_any st) \<or>
      (\<exists>r \<in> set rs. rv_revoked r = k \<and> (rv_revoker r = k \<or> honoured pins pe r)))"
proof (induction rs arbitrary: st)
  case (Cons r rs)
  obtain st1 where st1: "honour pins pe r st = Ok st1" "honour_all pins pe rs st1 = Ok st'"
    using Cons.prems by (auto simp: result_elims)
  have "get_list (rs_authority_cuts st1) k =
      get_list (rs_authority_cuts st) k @ (if rv_revoked r = k \<and> honoured pins pe r then [r] else [])"
    "k \<in> set (rs_revoked_any st1) \<longleftrightarrow> k \<in> set (rs_revoked_any st) \<or>
      rv_revoked r = k \<and> (rv_revoker r = k \<or> honoured pins pe r)"
    using st1(1) by (auto simp: honour_def honoured_def get_list_push set_insort_insert
        split: if_splits statement_source.splits)
  then show ?case using Cons.IH [OF st1(2)] by auto
qed simp

lemma get_cuts:
  "bt_get (cuts rs st) k =
     (if k \<in> set (rs_revoked_any st) then Some (cut_for rs (rs_authority_cuts st) k) else None)"
proof -
  have "bt_get (fold (\<lambda>k m. bt_insert k (f k) m) ks m) k = (if k \<in> set ks then Some (f k) else bt_get m k)"
    for f :: "fingerprint \<Rightarrow> cut_points" and ks m
    by (induction ks arbitrary: m) (auto simp: bt_get_insert_any)
  then show ?thesis by (simp add: cuts_def)
qed

text \<open>The principals that decide authority, and the shape of an evaluation that succeeds.\<close>

definition principals_of :: "('p, 's) crypto \<Rightarrow> trust_context \<Rightarrow> entries" where
  "principals_of c ctx =
     (let m = group_transitions (tc_transitions ctx)
      in extend_entries c (base_entries (tc_pins ctx)) m (\<lambda>t. \<not> equivocating m (tr_old_key_id t)))"

definition follow_of :: "('p, 's) crypto \<Rightarrow> trust_context \<Rightarrow> evaluated \<Rightarrow> key_transition \<Rightarrow> bool" where
  "follow_of c ctx ev = may_follow c (group_transitions (tc_transitions ctx)) (ev_revoked ev)"

lemma retire_fields:
  "ev_entries (fold (retire c m follow es) l out) = ev_entries out"
  "ev_revoked (fold (retire c m follow es) l out) = ev_revoked out"
  by (induction l arbitrary: out) (auto simp: retire_def Let_def split: prod.splits)

lemma evaluate_Ok:
  assumes "evaluate c ctx = Ok ev"
  obtains st where
    "honour_all (tc_pins ctx) (principals_of c ctx)
       (dedup_by_key rv_sha256 (sort_key rv_sha256 (tc_revocations ctx)))
       \<lparr>rs_revoked_any = [], rs_authority_cuts = [], rs_warnings = tc_warnings ctx\<rparr> = Ok st"
    and "ev_revoked ev = cuts (tc_revocations ctx) st"
    and "ev_entries ev = extend_entries c (base_entries (tc_pins ctx))
       (group_transitions (tc_transitions ctx)) (follow_of c ctx ev)"
  using assms that
  by (auto simp: evaluate_def Let_def result_elims principals_of_def follow_of_def retire_fields)

lemma entries_of_get_list: "entries_of ev k = get_list (ev_entries ev) k"
  by (simp add: entries_of_def get_list_def)

lemma honoured_source [simp]: "honoured pins pe (r\<lparr>rv_source := s\<rparr>) = honoured pins pe r"
  by (simp add: honoured_def has_authority_def)

lemma evaluate_cut:
  assumes "evaluate c ctx = Ok ev" and "revocations_identified (tc_revocations ctx)"
    and "r \<in> set (tc_revocations ctx)" and "rv_revoked r = k"
    and "rv_revoker r = k \<or> honoured (tc_pins ctx) (principals_of c ctx) r"
  obtains rs where
    "\<And>s. s \<in> set rs \<Longrightarrow> s \<in> set (tc_revocations ctx) \<and> rv_revoked s = k \<and> honoured (tc_pins ctx) (principals_of c ctx) s"
    and "\<And>r. r \<in> set (tc_revocations ctx) \<Longrightarrow> rv_revoked r = k \<Longrightarrow> honoured (tc_pins ctx) (principals_of c ctx) r \<Longrightarrow>
      \<exists>s \<in> set rs. s = r\<lparr>rv_source := rv_source s\<rparr>"
    and "bt_get (ev_revoked ev) k = Some (cut_for (tc_revocations ctx) [(k, rs)] k)"
proof -
  let ?rs = "dedup_by_key rv_sha256 (sort_key rv_sha256 (tc_revocations ctx))"
  obtain st where st: "honour_all (tc_pins ctx) (principals_of c ctx) ?rs
       \<lparr>rs_revoked_any = [], rs_authority_cuts = [], rs_warnings = tc_warnings ctx\<rparr> = Ok st"
      "ev_revoked ev = cuts (tc_revocations ctx) st"
    using evaluate_Ok [OF assms(1)] by blast
  have sub: "set ?rs \<subseteq> set (tc_revocations ctx)" using set_dedup [of rv_sha256 "sort_key rv_sha256 (tc_revocations ctx)"] by simp
  have rep: "\<exists>s \<in> set ?rs. s = r\<lparr>rv_source := rv_source s\<rparr>" if r: "r \<in> set (tc_revocations ctx)" for r
  proof -
    obtain s where "s \<in> set ?rs" "rv_sha256 s = rv_sha256 r"
      using dedup_has [of r "sort_key rv_sha256 (tc_revocations ctx)" rv_sha256] r by auto
    then show ?thesis using sub assms(2) r unfolding revocations_identified_def by (metis subsetD)
  qed
  let ?auth = "filter (\<lambda>r. rv_revoked r = k \<and> honoured (tc_pins ctx) (principals_of c ctx) r) ?rs"
  have fields: "rv_revoked s = rv_revoked r" "rv_revoker s = rv_revoker r"
    "honoured (tc_pins ctx) (principals_of c ctx) s = honoured (tc_pins ctx) (principals_of c ctx) r"
    if "s = r\<lparr>rv_source := rv_source s\<rparr>" for s r
    by (subst that, simp)+
  obtain s where s: "s \<in> set ?rs" "s = r\<lparr>rv_source := rv_source s\<rparr>" using rep [OF assms(3)] by blast
  have cut: "get_list (rs_authority_cuts st) k = ?auth" "k \<in> set (rs_revoked_any st)"
    using honour_all_cuts [OF st(1), of k] assms(4,5) s(1) fields [OF s(2)] by (auto simp: get_list_def)
  show thesis
  proof (rule that)
    show "bt_get (ev_revoked ev) k = Some (cut_for (tc_revocations ctx) [(k, ?auth)] k)"
      using cut by (simp add: st(2) get_cuts cut_for_def get_list_def [of "[(k, ?auth)]"])
  next
    fix r' assume r': "r' \<in> set (tc_revocations ctx)" "rv_revoked r' = k" "honoured (tc_pins ctx) (principals_of c ctx) r'"
    obtain s' where s': "s' \<in> set ?rs" "s' = r'\<lparr>rv_source := rv_source s'\<rparr>" using rep [OF r'(1)] by blast
    then show "\<exists>s \<in> set ?auth. s = r'\<lparr>rv_source := rv_source s\<rparr>"
      using fields [OF s'(2)] r'(2,3) by (intro bexI [of _ s']) auto
  qed (use sub in auto)
qed

end
