(* ===== verification/Signed_Verify.thy ===== *)
theory Signed_Verify
  imports Signed_Report Signed_Checkpoint Signed_Format Trust_Eval
begin

text \<open>
  The verifier of signed logs (\<^verbatim>\<open>signed/verify.rs\<close>): the walk over the segments with the header rules
  H1 to H12 and the record rules R1 to R11, the checks of supplied checkpoints, of the heads that key
  statements name and of an attested head, and the verdict.

  The walk is a record that every check takes and returns; a check that makes the caller return
  early has no value (\<open>None\<close>). Reading errors of the file system are outside of the model. Record
  numbers and counters are \<open>nat\<close>: they count bytes of a file and stay below \<open>2 ^ 64\<close>.
\<close>

section \<open>Options and state\<close>

record supplied_checkpoint =
  sp_bytes :: bytes
  sp_sig :: "bytes option"
  sp_witnesses :: "(bytes \<times> bytes) list"

record signed_options =
  vo_forensic_mode :: bool
  vo_checkpoints :: "supplied_checkpoint list"
  vo_expect_log_id :: "bytes option"
  vo_attested :: "checkpoint_v2 option"

definition signed_default_options :: signed_options where
  "signed_default_options = \<lparr>vo_forensic_mode = False, vo_checkpoints = [], vo_expect_log_id = None,
     vo_attested = None\<rparr>"

datatype signed_verify_error =
    NoSignedSegments
  | HmacLog
  | NewerFormat u16
  | TrustInvalid trust_error
  | CheckpointUnusable string

definition exit_code :: "signed_verify_error \<Rightarrow> u8" where
  "exit_code e = (case e of NoSignedSegments \<Rightarrow> 2 | _ \<Rightarrow> 3)"

record last_record =
  lr_segment :: u16
  lr_record :: nat
  lr_hash :: bytes
  lr_event :: bytes
  lr_ts_wall :: bytes

type_synonym position_map = "(u16 \<times> nat, (bytes \<times> nat) option) btree"

record walk =
  wk_report :: signed_report
  wk_stopped :: bool
  wk_seg0 :: "signed_header option"
  wk_signer_ok :: bool
  wk_trusted_sig :: bool
  wk_ordinal :: nat
  wk_sealed_at :: "(u16 \<times> nat) option"
  wk_last_ts_ms :: "int option"
  wk_last :: "last_record option"
  wk_interesting :: position_map
  wk_last_segment_had_records :: bool
  wk_walk_complete :: bool
  wk_ended_in_finalized :: bool
  wk_attested_anchor :: "log_head option"

definition walk_new :: "bytes \<Rightarrow> walk" where
  "walk_new log_dir =
     \<lparr>wk_report = empty_report log_dir, wk_stopped = False, wk_seg0 = None, wk_signer_ok = False,
      wk_trusted_sig = False, wk_ordinal = 0, wk_sealed_at = None, wk_last_ts_ms = None,
      wk_last = None, wk_interesting = [], wk_last_segment_had_records = True,
      wk_walk_complete = False, wk_ended_in_finalized = False, wk_attested_anchor = None\<rparr>"

definition upd_report :: "(signed_report \<Rightarrow> signed_report) \<Rightarrow> walk \<Rightarrow> walk" where
  "upd_report f w = w\<lparr>wk_report := f (wk_report w)\<rparr>"

definition upd_log :: "(signed_summary \<Rightarrow> signed_summary) \<Rightarrow> walk \<Rightarrow> walk" where
  "upd_log f w = upd_report (\<lambda>r. r\<lparr>sr_log := f (sr_log r)\<rparr>) w"

definition warn :: "string \<Rightarrow> bytes \<Rightarrow> walk \<Rightarrow> walk" where
  "warn kind item w =
     upd_report (\<lambda>r. r\<lparr>sr_warnings := sr_warnings r @ [\<lparr>wn_kind = kind, wn_item = item\<rparr>]\<rparr>) w"

definition violation_nostop :: "finding \<Rightarrow> walk \<Rightarrow> walk" where
  "violation_nostop f w = upd_report (\<lambda>r. r\<lparr>sr_violations := sr_violations r @ [f]\<rparr>) w"

text \<open>\<^verbatim>\<open>violation\<close> also says whether to go on; \<open>violation_step\<close> is its use with an early return.\<close>

definition signed_violation :: "signed_options \<Rightarrow> finding \<Rightarrow> walk \<Rightarrow> walk \<times> bool" where
  "signed_violation opts f w =
     (let w1 = violation_nostop f w;
          w2 = (if vo_forensic_mode opts then w1 else w1\<lparr>wk_stopped := True\<rparr>)
      in (w2, \<not> wk_stopped w2))"

type_synonym 'a step = "(walk \<times> 'a option, signed_verify_error) result"

definition then_step :: "'a step \<Rightarrow> ('a \<Rightarrow> walk \<Rightarrow> 'b step) \<Rightarrow> 'b step" where
  "then_step s f =
     bind_res s (\<lambda>(w, x). case x of None \<Rightarrow> Ok (w, None) | Some y \<Rightarrow> f y w)"

definition violation_step :: "signed_options \<Rightarrow> finding \<Rightarrow> walk \<Rightarrow> unit step" where
  "violation_step opts f w =
     (case signed_violation opts f w of (w', ok) \<Rightarrow> Ok (w', if ok then Some () else None))"

definition check_step :: "signed_options \<Rightarrow> bool \<Rightarrow> finding \<Rightarrow> walk \<Rightarrow> unit step" where
  "check_step opts bad f w = (if bad then violation_step opts f w else Ok (w, Some ()))"

definition mk_finding :: "violation_kind \<Rightarrow> string option \<Rightarrow> location \<Rightarrow> (string \<times> json) list \<Rightarrow> finding" where
  "mk_finding kind reason loc ev =
     \<lparr>fi_kind = kind, fi_reason = reason, fi_location = loc, fi_evidence = json_object ev\<rparr>"

definition null_finding :: "violation_kind \<Rightarrow> string option \<Rightarrow> location \<Rightarrow> finding" where
  "null_finding kind reason loc =
     \<lparr>fi_kind = kind, fi_reason = reason, fi_location = loc, fi_evidence = JNull\<rparr>"

text \<open>Records at or before the attested head.\<close>

definition pos_of :: "log_head \<Rightarrow> u16 \<times> nat" where
  "pos_of h = (hd_segment h, unat (hd_record_id h))"

definition after_head :: "signed_options \<Rightarrow> u16 \<Rightarrow> nat \<Rightarrow> bool" where
  "after_head opts segment rec =
     (case vo_attested opts of None \<Rightarrow> False
      | Some a \<Rightarrow> pos_of (cv_head a) < (segment, rec))"

section \<open>Segment headers (H1 to H12)\<close>

text \<open>The first 128 bytes of the file, zeros where it is shorter.\<close>

definition header_bytes :: "bytes \<Rightarrow> bytes" where
  "header_bytes content = take HEADER_LEN content @ replicate (HEADER_LEN - length content) 0"

definition same_signer :: "u16 \<Rightarrow> signed_header \<Rightarrow> signed_header \<Rightarrow> (unit, finding) result" where
  "same_signer n s0 h =
     (let mismatch = (\<lambda>kind a b. Err (mk_finding kind None (LSegment n)
            [(''segment0'', JString a), (''this_segment'', JString b)])) in
      if sh_sig_alg h \<noteq> sh_sig_alg s0
      then mismatch KAlgorithmMismatch (dec_digits (unat (sh_sig_alg s0))) (dec_digits (unat (sh_sig_alg h)))
      else if sh_log_id h \<noteq> sh_log_id s0
      then mismatch KLogIdMismatch (hex (sh_log_id s0)) (hex (sh_log_id h))
      else if sh_key_id h \<noteq> sh_key_id s0 \<or> sh_public_key h \<noteq> sh_public_key s0
      then mismatch KKeyIdMismatch (hex (sh_key_id s0)) (hex (sh_key_id h))
      else Ok ())"

definition header_place :: "u16 \<Rightarrow> bytes option \<Rightarrow> signed_header \<Rightarrow> (unit, finding) result" where
  "header_place n prev_final h =
     (if sh_segment_index h \<noteq> n then
        Err (mk_finding KSegmentDiscontinuity None (LSegment n)
          [(''expected_index'', JInt (ucast n)), (''actual_index'', JInt (ucast (sh_segment_index h)))])
      else if n = 0 then
        (if sh_prev_final h \<noteq> replicate 32 0 then
           Err (mk_finding KHeaderCorrupt (Some ''GenesisPrevFinalNonZero'') (LSegment n)
             [(''actual_hex'', JString (hex (sh_prev_final h)))])
         else Ok ())
      else (case prev_final of
              None \<Rightarrow> Ok ()
            | Some expected \<Rightarrow>
                if sh_prev_final h \<noteq> expected then
                  Err (mk_finding KSegmentDiscontinuity None (LSegment n)
                    [(''expected_prev_final_hex'', JString (hex expected)),
                     (''actual_prev_final_hex'', JString (hex (sh_prev_final h)))])
                else Ok ()))"

definition check_header ::
  "('p, 's) crypto \<Rightarrow> signed_header option \<Rightarrow> u16 \<Rightarrow> bytes \<Rightarrow> nat \<Rightarrow> bytes option
    \<Rightarrow> (signed_header, finding) result" where
  "check_header c seg0 n hb got prev_final =
     (let corrupt = (\<lambda>sub ev. Err (mk_finding KHeaderCorrupt (Some sub) (LSegment n) ev));
          version = u16_at hb 4;
          sig_alg = u16_at hb 8;
          stored = u32_at hb 124;
          computed = crc32 c (take HEADER_HASHED_LEN hb);
          h = from_bytes_unchecked hb;
          pk = ed25519_key (sh_public_key h)
      in if got < 12 then corrupt ''Truncated'' [(''length'', jnat got)]
         else if take 4 hb \<noteq> FORMAT_MAGIC
         then corrupt ''BadMagic'' [(''actual_magic_hex'', JString (hex (take 4 hb)))]
         else if version \<noteq> FORMAT_VERSION_SIGNED then
           Err (mk_finding (if version = 1 \<and> 0 < n then KFormatDowngrade else KUnknownVersion) None
             (LSegment n) [(''actual_version'', JInt (ucast version)),
               (''expected_version'', JInt (ucast FORMAT_VERSION_SIGNED))])
         else if alg_from_code sig_alg = None then
           Err (mk_finding KUnsupportedAlgorithm None (LSegment n)
             [(''actual_sig_alg'', JInt (ucast sig_alg)), (''supported'', JArray [JInt 1])])
         else if got < HEADER_LEN then corrupt ''Truncated'' [(''length'', jnat got)]
         else if stored \<noteq> computed then
           corrupt ''CrcMismatch'' [(''expected_crc32'', JInt (ucast computed)),
             (''actual_crc32'', JInt (ucast stored))]
         else if sh_reserved h \<noteq> 0 then
           corrupt ''ReservedBytesNonZero'' [(''actual_hex'', JString (hex (slice hb 10 2)))]
         else if \<not> is_strong c pk then
           Err (mk_finding KSignatureInvalid (Some ''weak_key'') (LSegment n)
             [(''public_key_hex'', JString (key_to_hex pk))])
         else if fingerprint_of c pk \<noteq> sh_key_id h then
           Err (mk_finding KKeyIdMismatch None (LSegment n)
             [(''header_key_id_hex'', JString (hex (sh_key_id h))),
              (''computed_key_id_hex'', JString (hex (fingerprint_of c pk)))])
         else
           bind_res (case seg0 of None \<Rightarrow> Ok () | Some s0 \<Rightarrow> if 0 < n then same_signer n s0 h else Ok ()) (\<lambda>_.
           bind_res (header_place n prev_final h) (\<lambda>_. Ok h)))"

section \<open>The signer of segment 0\<close>

definition signer_of :: "evaluated \<Rightarrow> signed_header \<Rightarrow> signer_info" where
  "signer_of ev h =
     (let record_entry = find (\<lambda>e. scope_contains (te_scope e) NS_RECORD) (entries_of ev (sh_key_id h)) in
      \<lparr>si_principal = Option.bind record_entry (\<lambda>e. if te_auto_principal e then None else Some (te_principal e)),
       si_alg = (case alg_from_code (sh_sig_alg h) of Some a \<Rightarrow> a | None \<Rightarrow> Ed25519),
       si_key_id = sh_key_id h,
       si_trusted = (record_entry \<noteq> None),
       si_trust_path = (case record_entry of Some e \<Rightarrow> te_trust_path e | None \<Rightarrow> []),
       si_reason = (case record_entry of
           Some e \<Rightarrow> if te_pinned e then SignerPinned else SignerTransition
         | None \<Rightarrow> if ev_has_pins ev then SignerNotTrusted else SignerNotPinned)\<rparr>)"

definition segment0_trust ::
  "evaluated \<Rightarrow> signed_options \<Rightarrow> signed_header \<Rightarrow> walk \<Rightarrow> unit step" where
  "segment0_trust ev opts h w =
     (let w1 = upd_report (\<lambda>r. r\<lparr>sr_signer := Some (signer_of ev h)\<rparr>) w;
          entries = entries_of ev (sh_key_id h);
          wrong_log = (case vo_expect_log_id opts of None \<Rightarrow> None
            | Some expect \<Rightarrow> if expect \<noteq> sh_log_id h then Some expect else None)
      in then_step
           (case wrong_log of
              None \<Rightarrow> Ok (w1, Some ())
            | Some expect \<Rightarrow> violation_step opts (mk_finding KLogIdMismatch None (LSegment 0)
                [(''expected_log_id_hex'', JString (hex expect)),
                 (''actual_log_id_hex'', JString (hex (sh_log_id h)))]) w1)
           (\<lambda>_ w2.
             if ev_has_pins ev \<and> \<not> list_ex (\<lambda>e. scope_contains (te_scope e) NS_RECORD) entries then
               Ok ((violation_nostop (mk_finding KUntrustedSigner
                   (Some (if entries = [] then ''not_trusted'' else ''out_of_scope'')) (LSegment 0)
                   [(''actual_key_id_hex'', JString (hex (sh_key_id h))),
                    (''actual_fingerprint'', JString (to_grouped_hex (sh_key_id h)))]) w2)
                 \<lparr>wk_stopped := True\<rparr>, None)
             else Ok (w2\<lparr>wk_signer_ok := ev_has_pins ev\<rparr>, Some ())))"

definition walk_statement_heads :: "evaluated \<Rightarrow> walk \<Rightarrow> log_head list" where
  "walk_statement_heads ev w =
     (case wk_seg0 w of
        Some h \<Rightarrow>
          if wk_signer_ok w
          then filter (\<lambda>hd. hd_log_id hd = sh_log_id h) (eval_statement_heads ev (sh_key_id h))
          else []
      | None \<Rightarrow> [])"

text \<open>\<^verbatim>\<open>entry(pos).or_insert(None)\<close>.\<close>

definition note_position :: "u16 \<times> nat \<Rightarrow> position_map \<Rightarrow> position_map" where
  "note_position pos m = (if bt_get m pos = None then bt_insert pos None m else m)"

definition note_statement_heads :: "evaluated \<Rightarrow> walk \<Rightarrow> walk" where
  "note_statement_heads ev w =
     w\<lparr>wk_interesting := fold (\<lambda>hd. note_position (pos_of hd)) (walk_statement_heads ev w) (wk_interesting w)\<rparr>"

section \<open>Records (R1 to R11)\<close>

text \<open>The checks of one record, in the order of the loop of \<^verbatim>\<open>segment\<close>. \<open>loc\<close> is where the record is.\<close>

definition decode_error :: "signed_options \<Rightarrow> location \<Rightarrow> walk \<Rightarrow> unit step" where
  "decode_error opts loc = violation_step opts (mk_finding KRecordCorrupt (Some ''DecodeError'') loc [])"

definition after_finalized ::
  "signed_options \<Rightarrow> u16 \<Rightarrow> nat \<Rightarrow> (nat \<times> nat) option \<Rightarrow> walk \<Rightarrow> unit step" where
  "after_finalized opts n ordinal finalized_at w =
     (case finalized_at of
        None \<Rightarrow> Ok (w, Some ())
      | Some (fp, foff) \<Rightarrow>
          violation_step opts (mk_finding KRecordCorrupt (Some ''BadRollover'') (LRecord n fp (ordinal - 1) foff)
            [(''message'', jstr ''segment.finalized is not the last record of its segment'')]) w)"

definition signature_finding ::
  "signed_header \<Rightarrow> raw_record \<Rightarrow> location \<Rightarrow> ed_failure \<Rightarrow> finding" where
  "signature_finding h raw loc fail =
     mk_finding KSignatureInvalid (Some (ed_reason fail)) loc
       [(''envelope_offset'', jnat (raw_offset raw + 4)),
        (''envelope_len'', jnat (length (raw_envelope raw))),
        (''signature_hex'', JString (hex (raw_signature raw))),
        (''key_id_hex'', JString (hex (sh_key_id h)))]"

text \<open>R3: the body that matched and decoded, if there is one.\<close>

definition check_body ::
  "('p, 's) crypto \<Rightarrow> signed_options \<Rightarrow> u16 \<Rightarrow> nat \<Rightarrow> location \<Rightarrow> raw_record \<Rightarrow> envelope \<Rightarrow> walk
    \<Rightarrow> body option step" where
  "check_body c opts n p loc raw env w =
     (case raw_body raw of
        None \<Rightarrow> Ok (upd_log (\<lambda>l. l\<lparr>sl_elided_records := sl_elided_records l @ [(n, p)]\<rparr>) w, Some None)
      | Some b \<Rightarrow>
          let actual = body_hash c b in
          if actual \<noteq> en_body_hash env then
            then_step (violation_step opts (mk_finding KSignatureInvalid (Some ''body_mismatch'') loc
                [(''expected_body_hash_hex'', JString (hex (en_body_hash env))),
                 (''actual_body_hash_hex'', JString (hex actual))]) w)
              (\<lambda>_ w. Ok (w, Some None))
          else (case body_decode b of
              Ok bd \<Rightarrow> Ok (w, Some (Some bd))
            | Err _ \<Rightarrow> then_step (decode_error opts loc w) (\<lambda>_ w. Ok (w, Some None))
            | Panic \<Rightarrow> Panic))"

definition check_key_and_alg ::
  "signed_options \<Rightarrow> signed_header \<Rightarrow> location \<Rightarrow> envelope \<Rightarrow> walk \<Rightarrow> unit step" where
  "check_key_and_alg opts h loc env w =
     then_step (check_step opts (en_key_id env \<noteq> sh_key_id h)
       (mk_finding KKeyIdMismatch None loc
         [(''header_key_id_hex'', JString (hex (sh_key_id h))),
          (''record_key_id_hex'', JString (hex (en_key_id env)))]) w) (\<lambda>_.
     check_step opts (en_sig_alg env \<noteq> sh_sig_alg h)
       (mk_finding KAlgorithmMismatch None loc
         [(''header_sig_alg'', JInt (ucast (sh_sig_alg h))),
          (''record_sig_alg'', JInt (ucast (en_sig_alg env)))]))"

definition in_chain :: "u16 \<Rightarrow> nat \<Rightarrow> bytes \<Rightarrow> envelope \<Rightarrow> bool" where
  "in_chain n p prev env \<longleftrightarrow>
     en_segment_index env = n \<and> unat (en_record_id env) = p \<and> en_prev_hash env = prev"

definition check_chain ::
  "signed_options \<Rightarrow> u16 \<Rightarrow> nat \<Rightarrow> bytes \<Rightarrow> location \<Rightarrow> envelope \<Rightarrow> walk \<Rightarrow> unit step" where
  "check_chain opts n p prev loc env =
     check_step opts (\<not> in_chain n p prev env)
       (mk_finding KChainBreak None loc
         [(''expected_prev_hash_hex'', JString (hex prev)),
          (''actual_prev_hash_hex'', JString (hex (en_prev_hash env))),
          (''expected_position'', JString (position_text n p)),
          (''actual_position'', JString (position_text (en_segment_index env) (unat (en_record_id env)))),
          (''is_segment_start'', JBool (p = 0))])"

definition reject_finding :: "signed_options \<Rightarrow> reject \<Rightarrow> location \<Rightarrow> bytes \<Rightarrow> finding" where
  "reject_finding opts rej loc rh =
     (case rej of
        Retired issued_at successor \<Rightarrow> mk_finding KRetiredKey None loc
          [(''transition_issued_at'', JString issued_at), (''successor_key_id_hex'', JString (hex successor))]
      | Revoked issued_at authority \<Rightarrow> mk_finding KRevokedKey None loc
          [(''revocation_issued_at'', JString issued_at), (''cut_points'', JBool authority)]
      | HeadMismatch lh \<Rightarrow> mk_finding KCheckpointMismatch None loc
          [(''statement_record_hash_hex'', JString (hex (hd_record_hash lh))),
           (''actual_record_hash_hex'', JString (hex rh))]
      | OutOfScope \<Rightarrow> null_finding KUntrustedSigner (Some ''out_of_scope'') loc
      | NotTrusted \<Rightarrow> null_finding KUntrustedSigner (Some ''not_trusted'') loc)"

definition check_trust ::
  "evaluated \<Rightarrow> signed_options \<Rightarrow> signed_header \<Rightarrow> u16 \<Rightarrow> nat \<Rightarrow> location \<Rightarrow> bytes \<Rightarrow> walk \<Rightarrow> unit step" where
  "check_trust ev opts h n p loc rh w =
     (if ev_has_pins ev \<and> wk_signer_ok w then
        (case accept ev (sh_key_id h) NS_RECORD (ORecord (sh_log_id h) n (of_nat p) rh) of
           Ok _ \<Rightarrow> Ok (w\<lparr>wk_trusted_sig := True\<rparr>, Some ())
         | Err rej \<Rightarrow> violation_step opts (reject_finding opts rej loc rh) w
         | Panic \<Rightarrow> Panic)
      else Ok (w, Some ()))"

definition rollover_ok :: "body \<Rightarrow> nat \<Rightarrow> envelope \<Rightarrow> bool" where
  "rollover_ok b p env \<longleftrightarrow>
     (case payload_get b (ascii ''records'') of Some (VUint r) \<Rightarrow> unat r = p | _ \<Rightarrow> False) \<and>
     (case payload_get b (ascii ''final_hash'') of Some (VBytes x) \<Rightarrow> x = en_prev_hash env | _ \<Rightarrow> False)"

text \<open>R9; the value is the new \<^verbatim>\<open>finalized_at\<close>.\<close>

definition check_structure ::
  "signed_options \<Rightarrow> nat \<Rightarrow> location \<Rightarrow> raw_record \<Rightarrow> envelope \<Rightarrow> body option \<Rightarrow> walk
    \<Rightarrow> (nat \<times> nat) option step" where
  "check_structure opts p loc raw env bdy w =
     then_step (check_step opts (is_structural (en_event env) \<and> raw_body raw = None)
       (mk_finding KRecordCorrupt (Some ''ElidedStructural'') loc
         [(''event'', JString (en_event env))]) w) (\<lambda>_ w.
     if en_event env = EVENT_FINALIZED then
       then_step (check_step opts (case bdy of None \<Rightarrow> False | Some b \<Rightarrow> \<not> rollover_ok b p env)
         (mk_finding KRecordCorrupt (Some ''BadRollover'') loc
           [(''expected_records'', jnat p),
            (''expected_final_hash_hex'', JString (hex (en_prev_hash env)))]) w) (\<lambda>_ w.
         Ok (w, Some (Some (p, raw_offset raw))))
     else Ok (w, Some None))"

definition check_sealed ::
  "signed_options \<Rightarrow> u16 \<Rightarrow> nat \<Rightarrow> location \<Rightarrow> envelope \<Rightarrow> walk \<Rightarrow> unit step" where
  "check_sealed opts n p loc env w =
     then_step
       (case wk_sealed_at w of
          None \<Rightarrow> Ok (w, Some ())
        | Some (ss, sr) \<Rightarrow> violation_step opts (mk_finding KSealedLogExtended None loc
            [(''sealed_at'', JString (position_text ss sr))]) w) (\<lambda>_ w.
       Ok (if en_event env = EVENT_SEALED \<and> wk_sealed_at w = None
           then w\<lparr>wk_sealed_at := Some (n, p)\<rparr> else w, Some ()))"

definition int_text :: "int \<Rightarrow> bytes" where
  "int_text i = (if i < 0 then 45 # dec_digits (nat (- i)) else dec_digits (nat i))"

definition check_time :: "signed_options \<Rightarrow> location \<Rightarrow> envelope \<Rightarrow> walk \<Rightarrow> unit step" where
  "check_time opts loc env w =
     (case parse_rfc3339_millis (en_ts_wall env) of
        None \<Rightarrow> Ok (w, Some ())
      | Some ms \<Rightarrow>
          then_step
            (case wk_last_ts_ms w of
               None \<Rightarrow> Ok (w, Some ())
             | Some prev_ms \<Rightarrow>
                 let delta = ms - prev_ms in
                 check_step opts (delta < - MAX_TS_DRIFT_MS)
                   (mk_finding KTimestampRegression None loc
                     [(''current_ts_wall'', JString (en_ts_wall env)),
                      (''delta_ms'', JString (int_text delta))]) w) (\<lambda>_ w.
            Ok (w\<lparr>wk_last_ts_ms := Some ms\<rparr>, Some ())))"

definition note_record ::
  "u16 \<Rightarrow> nat \<Rightarrow> nat \<Rightarrow> bytes \<Rightarrow> envelope \<Rightarrow> walk \<Rightarrow> walk" where
  "note_record n p ordinal rh env w =
     upd_log (\<lambda>l. l\<lparr>sl_final_record_hash := Some rh, sl_head := Some (n, p)\<rparr>)
       (w\<lparr>wk_interesting := (if bt_get (wk_interesting w) (n, p) \<noteq> None
             then bt_insert (n, p) (Some (rh, ordinal)) (wk_interesting w) else wk_interesting w),
          wk_last := Some \<lparr>lr_segment = n, lr_record = p, lr_hash = rh, lr_event = en_event env,
             lr_ts_wall = en_ts_wall env\<rparr>\<rparr>)"

text \<open>A record whose signature verified and whose envelope decoded.\<close>

definition signed_record ::
  "('p, 's) crypto \<Rightarrow> evaluated \<Rightarrow> signed_options \<Rightarrow> signed_header \<Rightarrow> u16 \<Rightarrow> nat \<Rightarrow> bytes \<Rightarrow> raw_record
    \<Rightarrow> envelope \<Rightarrow> walk \<Rightarrow> (nat \<times> nat) option step" where
  "signed_record c ev opts h n p prev raw env w =
     (let ordinal = wk_ordinal w;
          loc = LRecord n p ordinal (raw_offset raw);
          rh = record_hash c (raw_envelope raw)
      in then_step (check_body c opts n p loc raw env w) (\<lambda>bdy w.
         then_step (check_key_and_alg opts h loc env w) (\<lambda>_ w.
         then_step (check_chain opts n p prev loc env w) (\<lambda>_ w.
         then_step (check_trust ev opts h n p loc rh w) (\<lambda>_ w.
         then_step (check_structure opts p loc raw env bdy w) (\<lambda>finalized_at w.
         then_step (check_sealed opts n p loc env w) (\<lambda>_ w.
         then_step (check_time opts loc env w) (\<lambda>_ w.
           Ok (note_record n p ordinal rh env w, Some finalized_at)))))))))"

definition count_signed_record :: "signed_options \<Rightarrow> u16 \<Rightarrow> nat \<Rightarrow> walk \<Rightarrow> walk" where
  "count_signed_record opts n p w =
     upd_log (\<lambda>l. l\<lparr>sl_records_inspected := sl_records_inspected l + 1,
         sl_records_after_head := sl_records_after_head l + (if after_head opts n p then 1 else 0)\<rparr>)
       (w\<lparr>wk_ordinal := wk_ordinal w + 1\<rparr>)"

definition record_step ::
  "('p, 's) crypto \<Rightarrow> evaluated \<Rightarrow> signed_options \<Rightarrow> signed_header \<Rightarrow> u16 \<Rightarrow> nat \<Rightarrow> bytes
    \<Rightarrow> (nat \<times> nat) option \<Rightarrow> raw_record \<Rightarrow> walk \<Rightarrow> (nat \<times> nat) option step" where
  "record_step c ev opts h n p prev finalized_at raw w =
     (let w = count_signed_record opts n p w;
          loc = LRecord n p (wk_ordinal w) (raw_offset raw)
      in then_step (after_finalized opts n (wk_ordinal w) finalized_at w) (\<lambda>_ w.
         case ed25519_verify c (sh_public_key h) (signed_data c NS_RECORD (raw_envelope raw))
                (raw_signature raw) of
           Err fail \<Rightarrow> then_step (violation_step opts (signature_finding h raw loc fail) w)
             (\<lambda>_ w. Ok (w, Some None))
         | Panic \<Rightarrow> Panic
         | Ok _ \<Rightarrow>
             (case envelope_decode (raw_envelope raw) of
                Ok env \<Rightarrow> signed_record c ev opts h n p prev raw env w
              | Err _ \<Rightarrow> then_step (decode_error opts loc w) (\<lambda>_ w. Ok (w, Some None))
              | Panic \<Rightarrow> Panic)))"

section \<open>Segments\<close>

definition framing_problem ::
  "signed_options \<Rightarrow> u16 \<Rightarrow> nat \<Rightarrow> nat \<Rightarrow> string \<Rightarrow> walk \<Rightarrow> walk" where
  "framing_problem opts n p offset subkind w =
     (if after_head opts n p then warn ''TornTailAfterHead'' (position_text n p) w
      else fst (signed_violation opts (mk_finding KRecordCorrupt (Some subkind)
        (LRecord n p (wk_ordinal w + 1) offset) [(''byte_offset'', jnat offset)]) w))"

text \<open>The loop over the frames; its value is the last hash, the number of records and where the
  segment was finalized.\<close>

function record_loop ::
  "('p, 's) crypto \<Rightarrow> evaluated \<Rightarrow> signed_options \<Rightarrow> signed_header \<Rightarrow> u16 \<Rightarrow> bytes \<Rightarrow> nat \<Rightarrow> nat \<Rightarrow> bytes
    \<Rightarrow> (nat \<times> nat) option \<Rightarrow> walk \<Rightarrow> (bytes \<times> nat \<times> (nat \<times> nat) option) step" where
  "record_loop c ev opts h n content offset p prev finalized_at w =
     (if wk_stopped w then Ok (w, None)
      else (case read_frame content offset of
          FrameEnd \<Rightarrow> Ok (w, Some (prev, p, finalized_at))
        | FrameTooLarge o' len \<Rightarrow> Ok (framing_problem opts n p o' ''TooLarge'' w, None)
        | FrameTorn o' \<Rightarrow> Ok (framing_problem opts n p o' ''TornTail'' w, None)
        | FrameRecord raw \<Rightarrow>
            then_step (record_step c ev opts h n p prev finalized_at raw w) (\<lambda>finalized_at w.
              record_loop c ev opts h n content (offset + raw_total_len raw) (p + 1)
                (record_hash c (raw_envelope raw)) finalized_at w)))"
  by pat_completeness auto
termination
  by (relation "measure (\<lambda>(c, ev, opts, h, n, content, offset, p, prev, finalized_at, w). length content - offset)")
    (auto dest: read_frame_progress)

declare record_loop.simps [simp del]

text \<open>What follows the loop: a last segment with a header only, and a rollover without successor.\<close>

definition empty_last_segment :: "signed_options \<Rightarrow> u16 \<Rightarrow> walk \<Rightarrow> unit step" where
  "empty_last_segment opts n w =
     (let w1 = warn ''UnsignedLastSegment'' (segment_text n)
            (upd_log (\<lambda>l. l\<lparr>sl_unsigned_last_segment := True,
               sl_segments_inspected := sl_segments_inspected l - 1\<rparr>) w)
      in case wk_sealed_at w1 of
           Some (ss, sr) \<Rightarrow> Ok (fst (signed_violation opts (mk_finding KSealedLogExtended None (LSegment n)
             [(''sealed_at'', JString (position_text ss sr))]) w1), None)
         | None \<Rightarrow>
             Ok (if (case wk_last w1 of None \<Rightarrow> False | Some l \<Rightarrow> lr_event l = EVENT_FINALIZED)
                 then warn ''RolledOverWithoutSuccessor'' (segment_text (n - 1))
                   (w1\<lparr>wk_ended_in_finalized := True\<rparr>)
                 else w1, Some ()))"

definition segment_end ::
  "signed_options \<Rightarrow> u16 \<Rightarrow> bool \<Rightarrow> nat \<Rightarrow> (nat \<times> nat) option \<Rightarrow> walk \<Rightarrow> unit step" where
  "segment_end opts n is_last p finalized_at w =
     (let w1 = w\<lparr>wk_last_segment_had_records := (0 < p)\<rparr> in
      then_step (if p = 0 \<and> 0 < n \<and> is_last then empty_last_segment opts n w1 else Ok (w1, Some ())) (\<lambda>_ w.
        Ok (if finalized_at \<noteq> None \<and> is_last
            then warn ''RolledOverWithoutSuccessor'' (segment_text n) (w\<lparr>wk_ended_in_finalized := True\<rparr>)
            else w, Some ())))"

definition enter_segment0 ::
  "evaluated \<Rightarrow> signed_options \<Rightarrow> u16 \<Rightarrow> signed_header \<Rightarrow> walk \<Rightarrow> unit step" where
  "enter_segment0 ev opts n h w =
     (if n \<noteq> 0 then Ok (w, Some ())
      else then_step (segment0_trust ev opts h
             (upd_log (\<lambda>l. l\<lparr>sl_log_id := Some (sh_log_id h), sl_key_id := Some (sh_key_id h)\<rparr>)
               (w\<lparr>wk_seg0 := Some h\<rparr>))) (\<lambda>_ w.
           Ok (note_statement_heads ev w, Some ())))"

definition walk_segment ::
  "('p, 's) crypto \<Rightarrow> evaluated \<Rightarrow> signed_options \<Rightarrow> node_dir \<Rightarrow> u16 \<Rightarrow> bytes option \<Rightarrow> bool \<Rightarrow> walk
    \<Rightarrow> bytes step" where
  "walk_segment c ev opts d n prev_final is_last w =
     (case regular_file d n of
        None \<Rightarrow> Ok (fst (signed_violation opts
          (null_finding KHeaderCorrupt (Some ''NotRegularFile'') (LSegment n)) w), None)
      | Some content \<Rightarrow>
          let hb = header_bytes content in
          (case check_header c (wk_seg0 w) n hb (min HEADER_LEN (length content)) prev_final of
             Err f \<Rightarrow> Ok (fst (signed_violation opts f w), None)
           | Panic \<Rightarrow> Panic
           | Ok h \<Rightarrow>
               then_step (enter_segment0 ev opts n h w) (\<lambda>_ w.
               then_step (record_loop c ev opts h n content HEADER_LEN 0 (chain_start c hb) None w)
                 (\<lambda>(prev, p, finalized_at) w.
               then_step (segment_end opts n is_last p finalized_at w) (\<lambda>_ w.
                 Ok (w, Some prev))))))"

section \<open>The walk\<close>

definition saturating_succ :: "u16 \<Rightarrow> u16" where
  "saturating_succ n = (if unat n = 2 ^ 16 - 1 then n else n + 1)"

text \<open>Whether segment \<open>n\<close> may come next; after a gap or an empty segment the chain is not followed.\<close>

definition check_succession ::
  "signed_options \<Rightarrow> u16 \<Rightarrow> u16 \<Rightarrow> bytes option \<Rightarrow> walk \<Rightarrow> bytes option step" where
  "check_succession opts expected n prev_final w =
     (if n \<noteq> expected then
        then_step (violation_step opts (mk_finding KSegmentDiscontinuity None (LSegment expected)
            [(''expected_index'', JInt (ucast expected)), (''actual_index'', JInt (ucast n))]) w)
          (\<lambda>_ w. Ok (w, Some None))
      else if 0 < n \<and> \<not> wk_last_segment_had_records w then
        then_step (violation_step opts (mk_finding KSegmentDiscontinuity None (LSegment n)
            [(''empty_segment_index'', JInt (ucast (n - 1)))]) w)
          (\<lambda>_ w. Ok (w, Some None))
      else Ok (w, Some prev_final))"

fun run_segments ::
  "('p, 's) crypto \<Rightarrow> evaluated \<Rightarrow> signed_options \<Rightarrow> node_dir \<Rightarrow> u16 list \<Rightarrow> u16 \<Rightarrow> bytes option \<Rightarrow> walk
    \<Rightarrow> (walk, signed_verify_error) result" where
  "run_segments c ev opts d [] expected prev_final w =
     Ok (if wk_stopped w then w else w\<lparr>wk_walk_complete := True\<rparr>)"
| "run_segments c ev opts d (n # ns) expected prev_final w =
     (if wk_stopped w then Ok w
      else
        bind_res (check_succession opts expected n prev_final w) (\<lambda>(w, pf).
        case pf of
          None \<Rightarrow> Ok w
        | Some prev_final \<Rightarrow>
            bind_res (walk_segment c ev opts d n prev_final (ns = [])
              (upd_log (\<lambda>l. l\<lparr>sl_segments_inspected := sl_segments_inspected l + 1,
                 sl_last_segment_index := Some n\<rparr>) w)) (\<lambda>(w, prev).
              run_segments c ev opts d ns (saturating_succ n) prev w)))"

section \<open>Checkpoints and heads\<close>

definition found_at :: "walk \<Rightarrow> u16 \<times> nat \<Rightarrow> (bytes \<times> nat) option" where
  "found_at w pos = (case bt_get (wk_interesting w) pos of None \<Rightarrow> None | Some x \<Rightarrow> x)"

definition is_last_record :: "log_head \<Rightarrow> walk \<Rightarrow> bool" where
  "is_last_record lh w =
     (case wk_last w of None \<Rightarrow> False
      | Some l \<Rightarrow> (lr_segment l, lr_record l) = pos_of lh \<and> lr_hash l = hd_record_hash lh)"

definition head_location :: "log_head \<Rightarrow> nat \<Rightarrow> location" where
  "head_location lh ordinal = LRecord (hd_segment lh) (unat (hd_record_id lh)) ordinal 0"

definition position_check :: "log_head \<Rightarrow> bytes option \<Rightarrow> walk \<Rightarrow> walk \<times> bool" where
  "position_check lh observed_at w =
     (case found_at w (pos_of lh) of
        None \<Rightarrow>
          (if wk_walk_complete w \<or> sr_violations (wk_report w) = [] then
             violation_nostop (mk_finding KCheckpointTruncated None
               (head_location lh (unat (hd_record_count lh)))
               [(''checkpoint_record_hash_hex'', JString (hex (hd_record_hash lh))),
                (''observed_at'', json_option JString observed_at),
                (''records_inspected'', jnat (sl_records_inspected (sr_log (wk_report w))))]) w
           else w, False)
      | Some (hash, ordinal) \<Rightarrow>
          if hash \<noteq> hd_record_hash lh \<or> ordinal \<noteq> unat (hd_record_count lh) then
            (violation_nostop (mk_finding KCheckpointMismatch None (head_location lh ordinal)
               [(''checkpoint_record_hash_hex'', JString (hex (hd_record_hash lh))),
                (''actual_record_hash_hex'', JString (hex hash)),
                (''checkpoint_record_count'', JInt (hd_record_count lh)),
                (''actual_record_count'', jnat ordinal),
                (''observed_at'', json_option JString observed_at)]) w, False)
          else (w, True))"

text \<open>Step 1 of the check of a checkpoint: its signature and the signer's authority.\<close>

definition checkpoint_signed ::
  "('p, 's) crypto \<Rightarrow> evaluated \<Rightarrow> checkpoint_v2 \<Rightarrow> supplied_checkpoint \<Rightarrow> (bool, signed_verify_error) result" where
  "checkpoint_signed c ev cp supplied =
     (case sp_sig supplied of
        None \<Rightarrow> Ok False
      | Some sig \<Rightarrow>
          bind_res (map_err (\<lambda>_. CheckpointUnusable ''CheckpointSignatureInvalid'')
            (verify_detached_by c sig NS_CHECKPOINT (sp_bytes supplied) (cv_key_id cp))) (\<lambda>_.
          bind_res
            (if ev_has_pins ev then
               map_err (\<lambda>_. CheckpointUnusable ''CheckpointSignerUntrusted'')
                 (bind_res (accept ev (cv_key_id cp) NS_CHECKPOINT
                   (OCheckpoint (hd_log_id (cv_head cp)) (hd_segment (cv_head cp)) (hd_record_id (cv_head cp))))
                   (\<lambda>_. Ok ()))
             else Ok ()) (\<lambda>_. Ok True)))"

text \<open>Step 2: one witness co-signature.\<close>

definition check_witness ::
  "('p, 's) crypto \<Rightarrow> evaluated \<Rightarrow> bytes \<Rightarrow> bytes \<times> bytes \<Rightarrow> (witness_info, signed_verify_error) result" where
  "check_witness c ev checkpoint_bytes wws =
     (let (wb, ws) = wws; invalid = CheckpointUnusable ''CheckpointSignatureInvalid'' in
      bind_res (map_err (\<lambda>_. invalid) (witness_parse wb)) (\<lambda>w.
      bind_res (map_err (\<lambda>_. invalid) (verify_detached_by c ws NS_WITNESS wb (wc_witness_key_id w))) (\<lambda>_.
      if wc_checkpoint_sha256 w \<noteq> sha256 c checkpoint_bytes then Err invalid
      else
      bind_res
        (if ev_has_pins ev then
           map_err (\<lambda>_. CheckpointUnusable ''CheckpointSignerUntrusted'')
             (bind_res (accept ev (wc_witness_key_id w) NS_WITNESS OWitness) (\<lambda>e. Ok (te_principal e)))
         else Ok (ascii ''(not pinned)'')) (\<lambda>principal.
        Ok \<lparr>wi_principal = principal, wi_key_id = wc_witness_key_id w, wi_observed_at = wc_observed_at w\<rparr>))))"

definition check_checkpoint ::
  "('p, 's) crypto \<Rightarrow> evaluated \<Rightarrow> signed_header \<Rightarrow> checkpoint_v2 \<times> supplied_checkpoint \<Rightarrow> walk \<times> bool
    \<Rightarrow> (walk \<times> bool, signed_verify_error) result" where
  "check_checkpoint c ev h pc wa =
     (let (cp, supplied) = pc; (w, anchors) = wa; lh = cv_head cp in
      bind_res (checkpoint_signed c ev cp supplied) (\<lambda>signed.
      bind_res (map_res (check_witness c ev (sp_bytes supplied)) (sp_witnesses supplied)) (\<lambda>witnesses.
      if cv_key_id cp \<noteq> sh_key_id h \<or> alg_code (cv_alg cp) \<noteq> sh_sig_alg h
      then Err (CheckpointUnusable ''CheckpointForDifferentSigner'')
      else
        let info = \<lparr>ci_signed = signed, ci_signer_key_id = cv_key_id cp,
              ci_position = position_text (hd_segment lh) (unat (hd_record_id lh)),
              ci_observed_at = cv_observed_at cp, ci_witnesses = witnesses, ci_anchors_head = False\<rparr>;
            add = (\<lambda>info. upd_report (\<lambda>r. r\<lparr>sr_checkpoints := sr_checkpoints r @ [info]\<rparr>))
        in if hd_log_id lh \<noteq> sh_log_id h then
             Ok (add info (violation_nostop (mk_finding KCheckpointForDifferentLog None (LSegment 0)
               [(''checkpoint_log_id_hex'', JString (hex (hd_log_id lh))),
                (''actual_log_id_hex'', JString (hex (sh_log_id h)))]) w), anchors)
           else
             (case position_check lh (cv_observed_at cp) w of
                (w, ok) \<Rightarrow>
                  let info = (if ok then info\<lparr>ci_anchors_head := is_last_record lh w\<rparr> else info)
                  in Ok (add info w, anchors \<or> ok \<and> is_last_record lh w)))))"

definition check_checkpoints ::
  "('p, 's) crypto \<Rightarrow> evaluated \<Rightarrow> (checkpoint_v2 \<times> supplied_checkpoint) list \<Rightarrow> walk
    \<Rightarrow> (walk \<times> bool, signed_verify_error) result" where
  "check_checkpoints c ev checkpoints w =
     (case wk_seg0 w of
        None \<Rightarrow> Ok (w, False)
      | Some h \<Rightarrow> fold_res (check_checkpoint c ev h) checkpoints (w, False))"

definition check_statement_head :: "log_head \<Rightarrow> walk \<Rightarrow> walk" where
  "check_statement_head lh w =
     (let found = found_at w (pos_of lh) in
      if (case found of None \<Rightarrow> False
          | Some (hash, ordinal) \<Rightarrow> hash \<noteq> hd_record_hash lh \<or> ordinal = unat (hd_record_count lh))
      then w
      else violation_nostop (mk_finding KCheckpointMismatch None
        (head_location lh (unat (hd_record_count lh)))
        [(''statement_record_hash_hex'', JString (hex (hd_record_hash lh))),
         (''statement_record_count'', JInt (hd_record_count lh)),
         (''actual_record_hash_hex'', json_option (\<lambda>(hash, _). JString (hex hash)) found),
         (''records_inspected'', jnat (sl_records_inspected (sr_log (wk_report w))))]) w)"

definition check_statement_heads :: "evaluated \<Rightarrow> walk \<Rightarrow> walk" where
  "check_statement_heads ev w =
     (if \<not> wk_walk_complete w \<and> sr_violations (wk_report w) \<noteq> [] then w
      else fold check_statement_head (walk_statement_heads ev w) w)"

definition check_attested :: "signed_options \<Rightarrow> walk \<Rightarrow> walk" where
  "check_attested opts w =
     (case (vo_attested opts, wk_seg0 w) of
        (Some a, Some h) \<Rightarrow>
          if cv_key_id a \<noteq> sh_key_id h \<or> alg_code (cv_alg a) \<noteq> sh_sig_alg h
             \<or> hd_log_id (cv_head a) \<noteq> sh_log_id h
          then violation_nostop (mk_finding KCheckpointMismatch None (LSegment 0)
            [(''attested_key_id_hex'', JString (hex (cv_key_id a))),
             (''actual_key_id_hex'', JString (hex (sh_key_id h))),
             (''attested_log_id_hex'', JString (hex (hd_log_id (cv_head a)))),
             (''actual_log_id_hex'', JString (hex (sh_log_id h)))]) w
          else (case position_check (cv_head a) None w of
              (w, ok) \<Rightarrow> if ok then w\<lparr>wk_attested_anchor := Some (cv_head a)\<rparr> else w)
      | _ \<Rightarrow> w)"

section \<open>The verdict\<close>

definition anchored_head :: "bool \<Rightarrow> walk \<Rightarrow> bool" where
  "anchored_head anchored_by_cp w =
     (let attested_anchors = (case (wk_attested_anchor w, wk_last w) of
            (Some lh, Some l) \<Rightarrow> pos_of lh \<le> (lr_segment l, lr_record l) | _ \<Rightarrow> False);
          sealed_last = (case wk_last w of None \<Rightarrow> False | Some l \<Rightarrow> lr_event l = EVENT_SEALED);
          anchored = \<not> wk_ended_in_finalized w \<and> (sealed_last \<or> anchored_by_cp \<or> attested_anchors)
      in if wk_attested_anchor w \<noteq> None then True else anchored)"

definition finish_walk :: "bool \<Rightarrow> walk \<Rightarrow> signed_report" where
  "finish_walk anchored_by_cp w =
     (let r = wk_report w;
          log = (sr_log r)
            \<lparr>sl_sealed := (case wk_last w of None \<Rightarrow> False | Some l \<Rightarrow> lr_event l = EVENT_SEALED),
             sl_head_anchored := anchored_head anchored_by_cp w,
             sl_head_ts_wall := map_option lr_ts_wall (wk_last w)\<rparr>;
          r = r\<lparr>sr_log := log\<rparr>;
          empty = (sl_records_inspected log = 0)
      in if sr_violations r \<noteq> [] then r\<lparr>sr_verdict := HasViolation\<rparr>
         else if wk_trusted_sig w then r\<lparr>sr_verdict := Verified\<rparr>
         else r\<lparr>sr_verdict := SelfConsistent,
             sr_not_verified_reason := Some (if empty then NoSignedRecords else NotPinned),
             sr_signer := map_option (\<lambda>s. if empty then s\<lparr>si_reason := SignerNoRecords\<rparr> else s) (sr_signer r)\<rparr>)"

definition equivocation_finding :: "fingerprint \<times> bytes \<times> bytes \<Rightarrow> finding" where
  "equivocation_finding e =
     (let (k, a, b) = e in
      mk_finding KTransitionEquivocation None (LKey k)
        [(''key_id_hex'', JString (hex k)),
         (''statement_sha256'', JArray [JString (hex a), JString (hex b)])])"

definition start_walk ::
  "bytes \<Rightarrow> evaluated \<Rightarrow> signed_options \<Rightarrow> u16 list \<times> bytes list \<Rightarrow> checkpoint_v2 list \<Rightarrow> walk" where
  "start_walk log_dir ev opts segs checkpoints =
     (let (segments, near) = segs;
          w = upd_log (\<lambda>l. l\<lparr>sl_first_segment_index := Some (hd segments)\<rparr>) (walk_new log_dir);
          w = fold (warn ''NearMissSegmentName'') near w;
          heads = map cv_head checkpoints
            @ (case vo_attested opts of None \<Rightarrow> [] | Some a \<Rightarrow> [cv_head a]);
          w = w\<lparr>wk_interesting := fold (\<lambda>lh. bt_insert (pos_of lh) None) heads (wk_interesting w)\<rparr>;
          w = fold (\<lambda>e. violation_nostop (equivocation_finding e)) (ev_equivocations ev) w
      in fold (\<lambda>_. warn ''IgnoredStatement'' (ascii ''statements'')) (ev_warnings ev) w)"

definition verify_signed_log ::
  "('p, 's) crypto \<Rightarrow> bytes \<Rightarrow> node_dir \<Rightarrow> evaluated \<Rightarrow> signed_options \<Rightarrow> (signed_report, signed_verify_error) result" where
  "verify_signed_log c log_dir d ev opts =
     (let segs = list_segments d in
      if fst segs = [] then Err NoSignedSegments
      else if log_format d = Some 1 then Err HmacLog
      else
        bind_res (case log_format d of
            Some v \<Rightarrow> if FORMAT_VERSION_SIGNED < v then Err (NewerFormat v) else Ok ()
          | None \<Rightarrow> Ok ()) (\<lambda>_.
        bind_res (map_res (\<lambda>s. bind_res (map_err (\<lambda>_. CheckpointUnusable ''CheckpointFormat'')
            (checkpoint_v2_parse (sp_bytes s))) (\<lambda>cp. Ok (cp, s))) (vo_checkpoints opts)) (\<lambda>checkpoints.
        bind_res (run_segments c ev opts d (fst segs) 0 (Some (replicate 32 0))
            (start_walk log_dir ev opts segs (map fst checkpoints))) (\<lambda>w.
        bind_res (check_checkpoints c ev checkpoints w) (\<lambda>(w, anchored_by_cp).
          Ok (finish_walk anchored_by_cp
            (check_attested opts (check_statement_heads ev w))))))))"

definition signed_verify_with_options ::
  "('p, 's) crypto \<Rightarrow> bytes \<Rightarrow> node_dir \<Rightarrow> trust_context \<Rightarrow> signed_options \<Rightarrow> (signed_report, signed_verify_error) result" where
  "signed_verify_with_options c log_dir d ctx opts =
     bind_res (map_err TrustInvalid (evaluate c ctx)) (\<lambda>ev. verify_signed_log c log_dir d ev opts)"

section \<open>Reading without verification\<close>

record signed_view =
  rw_segment :: u16
  rw_position :: nat
  rw_record_hash :: bytes
  rw_envelope :: "(envelope, unit) result"
  rw_body :: "body option"
  rw_elided :: bool
  rw_signature :: bytes

definition signed_view_of :: "('p, 's) crypto \<Rightarrow> u16 \<Rightarrow> nat \<Rightarrow> raw_record \<Rightarrow> (signed_view, unit) result" where
  "signed_view_of c n p raw =
     (case (envelope_decode (raw_envelope raw), map_option body_decode (raw_body raw)) of
        (Panic, _) \<Rightarrow> Panic
      | (_, Some Panic) \<Rightarrow> Panic
      | (env, bdy) \<Rightarrow> Ok \<lparr>rw_segment = n, rw_position = p, rw_record_hash = record_hash c (raw_envelope raw),
          rw_envelope = env, rw_body = (case bdy of Some (Ok b) \<Rightarrow> Some b | _ \<Rightarrow> None),
          rw_elided = (raw_body raw = None), rw_signature = raw_signature raw\<rparr>)"

text \<open>The visitor is called with each view in turn and may stop; the result is the list of views it
  was called with, and whether it stopped.\<close>

function visit_segment ::
  "('p, 's) crypto \<Rightarrow> (signed_view \<Rightarrow> bool) \<Rightarrow> u16 \<Rightarrow> bytes \<Rightarrow> nat \<Rightarrow> nat \<Rightarrow> (signed_view list \<times> bool, unit) result" where
  "visit_segment c f n content offset p =
     (case read_frame content offset of
        FrameRecord raw \<Rightarrow>
          bind_res (signed_view_of c n p raw) (\<lambda>view.
            if \<not> f view then Ok ([view], True)
            else bind_res (visit_segment c f n content (offset + raw_total_len raw) (p + 1)) (\<lambda>(views, stopped).
              Ok (view # views, stopped)))
      | _ \<Rightarrow> Ok ([], False))"
  by pat_completeness auto
termination
  by (relation "measure (\<lambda>(c, f, n, content, offset, p). length content - offset)")
    (auto dest: read_frame_progress)

declare visit_segment.simps [simp del]

fun visit_segments ::
  "('p, 's) crypto \<Rightarrow> (signed_view \<Rightarrow> bool) \<Rightarrow> node_dir \<Rightarrow> u16 list \<Rightarrow> (signed_view list, unit) result" where
  "visit_segments c f d [] = Ok []"
| "visit_segments c f d (n # ns) =
     (case regular_file d n of
        None \<Rightarrow> Ok []
      | Some content \<Rightarrow>
          if length content < HEADER_LEN then Ok []
          else bind_res (visit_segment c f n content HEADER_LEN 0) (\<lambda>(views, stopped).
            if stopped then Ok views
            else bind_res (visit_segments c f d ns) (\<lambda>rest. Ok (views @ rest))))"

definition visit_records ::
  "('p, 's) crypto \<Rightarrow> node_dir \<Rightarrow> (signed_view \<Rightarrow> bool) \<Rightarrow> (signed_view list, unit) result" where
  "visit_records c d f = visit_segments c f d (fst (list_segments d))"

end
