(* ===== verification/Signed_Verify_Sound.thy ===== *)
theory Signed_Verify_Sound
  imports Signed_Verify
begin

text \<open>
  What a report without violations means. A report is clean when it has no violation; no step of the
  walk ever removes one, so a clean result says that every check on the way passed. \<open>guards\<close> is that
  argument as a rule per step, in the style of a Hoare logic: if the result is clean then the start
  was, the step did not return early, and its condition held.
\<close>

definition clean :: "walk \<Rightarrow> bool" where
  "clean w \<longleftrightarrow> sr_violations (wk_report w) = []"

text \<open>What the steps of a segment leave alone, or only set.\<close>

definition frame_ok :: "walk \<Rightarrow> walk \<Rightarrow> bool" where
  "frame_ok w w' \<longleftrightarrow>
     wk_signer_ok w' = wk_signer_ok w \<and> wk_seg0 w' = wk_seg0 w \<and> wk_stopped w' = wk_stopped w \<and>
     (wk_trusted_sig w' \<longrightarrow> wk_trusted_sig w \<or> wk_signer_ok w) \<and>
     (wk_sealed_at w \<noteq> None \<longrightarrow> wk_sealed_at w' \<noteq> None)"

lemma frame_ok_refl [simp]: "frame_ok w w"
  by (simp add: frame_ok_def)

lemma frame_ok_trans: "frame_ok w w1 \<Longrightarrow> frame_ok w1 w' \<Longrightarrow> frame_ok w w'"
  by (auto simp: frame_ok_def)

definition guards :: "walk \<Rightarrow> 'a step \<Rightarrow> ('a \<Rightarrow> walk \<Rightarrow> bool) \<Rightarrow> bool" where
  "guards w s Q \<longleftrightarrow> (\<forall>w' x. s = Ok (w', x) \<longrightarrow> clean w' \<longrightarrow>
     clean w \<and> frame_ok w w' \<and> (\<exists>y. x = Some y \<and> Q y w'))"

lemma guardsD:
  assumes "guards w s Q" "s = Ok (w', x)" "clean w'"
  shows "clean w" "frame_ok w w'" "\<exists>y. x = Some y \<and> Q y w'"
  using assms by (auto simp: guards_def)

lemma guards_then:
  assumes "guards w s Q" and "\<And>y w1. guards w1 (f y w1) (R y w1)"
  shows "guards w (then_step s f) (\<lambda>z w'. \<exists>y w1. frame_ok w w1 \<and> frame_ok w1 w' \<and> Q y w1 \<and> R y w1 z w')"
  unfolding guards_def
proof (intro allI impI)
  fix w' x assume r: "then_step s f = Ok (w', x)" "clean w'"
  then obtain w1 y where s: "s = Ok (w1, y)"
    and f: "(case y of None \<Rightarrow> Ok (w1, None) | Some y \<Rightarrow> f y w1) = Ok (w', x)"
    by (auto simp: then_step_def result_elims)
  show "clean w \<and> frame_ok w w' \<and> (\<exists>z. x = Some z \<and>
      (\<exists>y w1. frame_ok w w1 \<and> frame_ok w1 w' \<and> Q y w1 \<and> R y w1 z w'))"
  proof (cases y)
    case None
    then show ?thesis using guardsD(3) [OF assms(1) s] f r(2) by auto
  next
    case (Some z)
    then have f: "f z w1 = Ok (w', x)" using f by simp
    note b = guardsD [OF assms(2) f r(2)]
    note a = guardsD [OF assms(1) s b(1)]
    show ?thesis using a b Some frame_ok_trans by blast
  qed
qed

lemma guards_weaken: "guards w s Q \<Longrightarrow> (\<And>y w'. frame_ok w w' \<Longrightarrow> Q y w' \<Longrightarrow> R y w') \<Longrightarrow> guards w s R"
  by (fastforce simp: guards_def)

lemma guards_from: "guards v s Q \<Longrightarrow> (clean v \<Longrightarrow> clean w) \<Longrightarrow> frame_ok w v \<Longrightarrow> guards w s Q"
  unfolding guards_def using frame_ok_trans by blast

lemma guards_value [simp]: "guards w (Ok (w', Some y)) Q \<longleftrightarrow> (clean w' \<longrightarrow> clean w \<and> frame_ok w w' \<and> Q y w')"
  by (auto simp: guards_def)

lemma guards_Panic [simp]: "guards w Panic Q"
  by (simp add: guards_def)

section \<open>What the walk has seen\<close>

text \<open>The part of the state that the checks after the walk look at: the number of records, the
  positions of interest, the last record and what the summary says of it.\<close>

type_synonym obs = "nat \<times> position_map \<times> last_record option \<times> bytes option \<times> (u16 \<times> nat) option"

definition obs :: "walk \<Rightarrow> obs" where
  "obs w = (wk_ordinal w, wk_interesting w, wk_last w, sl_final_record_hash (sr_log (wk_report w)),
     sl_head (sr_log (wk_report w)))"

definition visit :: "('p, 's) crypto \<Rightarrow> u16 \<Rightarrow> nat \<Rightarrow> raw_record \<Rightarrow> envelope \<Rightarrow> obs \<Rightarrow> obs" where
  "visit c n p raw env o1 =
     (case o1 of (ordinal, m, _) \<Rightarrow>
        let rh = record_hash c (raw_envelope raw) in
        (ordinal + 1, if bt_get m (n, p) \<noteq> None then bt_insert (n, p) (Some (rh, ordinal + 1)) m else m,
         Some \<lparr>lr_segment = n, lr_record = p, lr_hash = rh, lr_event = en_event env,
           lr_ts_wall = en_ts_wall env\<rparr>, Some rh, Some (n, p)))"

fun visit_all :: "('p, 's) crypto \<Rightarrow> u16 \<Rightarrow> nat \<Rightarrow> (raw_record \<times> envelope) list \<Rightarrow> obs \<Rightarrow> obs" where
  "visit_all c n p [] o1 = o1"
| "visit_all c n p ((raw, env) # recs) o1 = visit_all c n (p + 1) recs (visit c n p raw env o1)"

text \<open>Heads of key statements are noted when segment 0 is entered, before any record.\<close>

definition track :: "log_head list \<Rightarrow> obs \<Rightarrow> obs" where
  "track hs o1 = (case o1 of (ordinal, m, rest) \<Rightarrow> (ordinal, fold (\<lambda>hd. note_position (pos_of hd)) hs m, rest))"

lemma track_Nil [simp]: "track [] o1 = o1"
  by (simp add: track_def case_prod_unfold)

fun visit_log ::
  "('p, 's) crypto \<Rightarrow> u16 list \<Rightarrow> (raw_record \<times> envelope) list list \<Rightarrow> obs \<Rightarrow> obs \<Rightarrow> bool" where
  "visit_log c (n # ns) (recs # recss) o1 o2 \<longleftrightarrow>
     (\<exists>hs. visit_log c ns recss (visit_all c n 0 recs (track hs o1)) o2)"
| "visit_log c ns recss o1 o2 \<longleftrightarrow> ns = [] \<and> recss = [] \<and> o2 = o1"

lemma obs_note_heads: "obs (note_statement_heads ev w) = track (walk_statement_heads ev w) (obs w)"
  by (simp add: obs_def note_statement_heads_def track_def)

lemma obs_simps [simp]:
  "obs (warn k i w) = obs w" "obs (w\<lparr>wk_trusted_sig := b\<rparr>) = obs w" "obs (w\<lparr>wk_sealed_at := s\<rparr>) = obs w"
  "obs (w\<lparr>wk_last_ts_ms := t\<rparr>) = obs w" "obs (w\<lparr>wk_last_segment_had_records := b\<rparr>) = obs w"
  "obs (w\<lparr>wk_ended_in_finalized := b\<rparr>) = obs w" "obs (w\<lparr>wk_seg0 := h\<rparr>) = obs w"
  "obs (w\<lparr>wk_signer_ok := b\<rparr>) = obs w" "obs (w\<lparr>wk_walk_complete := b\<rparr>) = obs w"
  "obs (upd_log (\<lambda>l. l\<lparr>sl_elided_records := es l\<rparr>) w) = obs w"
  "obs (upd_log (\<lambda>l. l\<lparr>sl_unsigned_last_segment := us l, sl_segments_inspected := si l\<rparr>) w) = obs w"
  "obs (upd_log (\<lambda>l. l\<lparr>sl_segments_inspected := si l, sl_last_segment_index := ls l\<rparr>) w) = obs w"
  "obs (upd_log (\<lambda>l. l\<lparr>sl_log_id := li, sl_key_id := ki\<rparr>) w) = obs w"
  "obs (upd_report (\<lambda>r. r\<lparr>sr_signer := sg\<rparr>) w) = obs w" "obs (violation_nostop f w) = obs w"
  "obs (upd_report (\<lambda>r. r\<lparr>sr_checkpoints := ks r\<rparr>) w) = obs w" "obs (w\<lparr>wk_attested_anchor := aa\<rparr>) = obs w"
  by (simp_all add: obs_def warn_def upd_log_def upd_report_def violation_nostop_def)

lemma obs_eta [simp]: "(wk_ordinal w, snd (obs w)) = obs w"
  by (simp add: obs_def)

section \<open>The steps of a record\<close>

lemma clean_report [simp]:
  "clean (warn k i w) = clean w" "clean (upd_log f w) = clean w"
  "clean (w\<lparr>wk_seg0 := a\<rparr>) = clean w" "clean (w\<lparr>wk_trusted_sig := b\<rparr>) = clean w"
  "clean (w\<lparr>wk_sealed_at := s\<rparr>) = clean w" "clean (w\<lparr>wk_last_ts_ms := t\<rparr>) = clean w"
  "clean (w\<lparr>wk_ordinal := k'\<rparr>) = clean w" "clean (w\<lparr>wk_interesting := m\<rparr>) = clean w"
  "clean (w\<lparr>wk_last := l\<rparr>) = clean w" "clean (w\<lparr>wk_interesting := m, wk_last := l\<rparr>) = clean w"
  "clean (w\<lparr>wk_last_segment_had_records := b\<rparr>) = clean w" "clean (w\<lparr>wk_ended_in_finalized := b\<rparr>) = clean w"
  "clean (w\<lparr>wk_signer_ok := b\<rparr>) = clean w" "clean (w\<lparr>wk_stopped := b\<rparr>) = clean w"
  "clean (w\<lparr>wk_walk_complete := b\<rparr>) = clean w"
  by (simp_all add: clean_def warn_def upd_log_def upd_report_def)

lemma frame_report [simp]:
  "frame_ok w (warn k i v) = frame_ok w v" "frame_ok w (upd_log f v) = frame_ok w v"
  "frame_ok w (v\<lparr>wk_last_ts_ms := t\<rparr>) = frame_ok w v" "frame_ok w (v\<lparr>wk_ordinal := k'\<rparr>) = frame_ok w v"
  "frame_ok w (v\<lparr>wk_interesting := m, wk_last := l\<rparr>) = frame_ok w v"
  "frame_ok w (v\<lparr>wk_last_segment_had_records := b\<rparr>) = frame_ok w v"
  "frame_ok w (v\<lparr>wk_ended_in_finalized := b\<rparr>) = frame_ok w v"
  by (simp_all add: frame_ok_def warn_def upd_log_def upd_report_def)

lemma violation_dirty [simp]: "\<not> clean (fst (signed_violation opts f w))" "\<not> clean (violation_nostop f w)"
  by (simp_all add: signed_violation_def violation_nostop_def Let_def clean_def upd_report_def)

lemma violation_dirtyD: "signed_violation opts f w = (w', ok) \<Longrightarrow> \<not> clean w'"
  using violation_dirty(1) [of opts f w] by simp

lemma guards_violation [simp]: "guards w (violation_step opts f w) Q"
  using violation_dirty(1) [of opts f w]
  by (cases "signed_violation opts f w") (simp add: guards_def violation_step_def)

lemma guards_check: "guards w (check_step opts bad f w) (\<lambda>_ w'. w' = w \<and> \<not> bad)"
  by (simp add: check_step_def)

definition body_checked :: "('p, 's) crypto \<Rightarrow> raw_record \<Rightarrow> envelope \<Rightarrow> body option \<Rightarrow> bool" where
  "body_checked c raw env bdy =
     (case raw_body raw of
        None \<Rightarrow> bdy = None
      | Some b \<Rightarrow> body_hash c b = en_body_hash env \<and> (\<exists>bd. bdy = Some bd \<and> body_decode b = Ok bd))"

text \<open>A violation after which the loop goes on still leaves a report that is not clean.\<close>

lemma guards_violation_then:
  assumes "\<And>y w1 w' x. g y w1 = Ok (w', x) \<Longrightarrow> clean w' \<Longrightarrow> clean w1"
  shows "guards w (then_step (violation_step opts f w) g) Q"
proof -
  obtain w' ok where v: "signed_violation opts f w = (w', ok)" by fastforce
  then have "\<not> clean w'" using violation_dirty(1) [of opts f w] by simp
  then show ?thesis using assms by (auto simp: guards_def violation_step_def v then_step_def)
qed

lemma guards_violation_value [simp]:
  "guards w (then_step (violation_step opts f w) (\<lambda>_ w. Ok (w, Some x))) Q"
  by (rule guards_violation_then) simp

lemma guards_check_value:
  "guards w (then_step (check_step opts bad f w) (\<lambda>_ w. Ok (w, Some x))) (\<lambda>z w'. z = x \<and> \<not> bad \<and> obs w' = obs w)"
  by (simp add: check_step_def) (simp add: then_step_def)

lemma guards_body: "guards w (check_body c opts n p loc raw env w) (\<lambda>bdy w'. body_checked c raw env bdy \<and> obs w' = obs w)"
proof (cases "raw_body raw")
  case (Some b)
  then show ?thesis
    by (auto simp: check_body_def body_checked_def Let_def decode_error_def split: result.splits)
qed (simp add: check_body_def body_checked_def)

lemma guards_key_and_alg:
  "guards w (check_key_and_alg opts h loc env w) (\<lambda>_ w'. en_key_id env = sh_key_id h \<and> en_sig_alg env = sh_sig_alg h \<and> obs w' = obs w)"
  unfolding check_key_and_alg_def
  by (rule guards_weaken [OF guards_then [OF guards_check guards_check]]) simp

lemma guards_chain: "guards w (check_chain opts n p prev loc env w) (\<lambda>_ w'. in_chain n p prev env \<and> obs w' = obs w)"
  unfolding check_chain_def by (rule guards_weaken [OF guards_check]) simp

lemma guards_trust:
  "guards w (check_trust ev opts h n p loc rh w) (\<lambda>_ w'. (ev_has_pins ev \<and> wk_signer_ok w \<longrightarrow>
     (\<exists>e. accept ev (sh_key_id h) NS_RECORD (ORecord (sh_log_id h) n (of_nat p) rh) = Ok e)) \<and> obs w' = obs w)"
  by (auto simp: check_trust_def frame_ok_def split: result.splits)

definition structure_ok :: "nat \<Rightarrow> raw_record \<Rightarrow> envelope \<Rightarrow> body option \<Rightarrow> bool" where
  "structure_ok p raw env bdy \<longleftrightarrow>
     (is_structural (en_event env) \<longrightarrow> raw_body raw \<noteq> None) \<and>
     (en_event env = EVENT_FINALIZED \<longrightarrow> (\<forall>b. bdy = Some b \<longrightarrow> rollover_ok b p env))"

lemma guards_structure:
  "guards w (check_structure opts p loc raw env bdy w) (\<lambda>fin w'. structure_ok p raw env bdy \<and>
     (fin = None \<longleftrightarrow> en_event env \<noteq> EVENT_FINALIZED) \<and> obs w' = obs w)"
proof (cases "en_event env = EVENT_FINALIZED")
  case True
  show ?thesis
    unfolding check_structure_def if_P [OF True]
    by (rule guards_weaken [OF guards_then [OF guards_check guards_check_value]])
      (auto simp: structure_ok_def True split: option.splits)
next
  case False
  show ?thesis
    unfolding check_structure_def if_not_P [OF False]
    by (rule guards_weaken [OF guards_check_value]) (auto simp: structure_ok_def False)
qed

lemma guards_sealed:
  "guards w (check_sealed opts n p loc env w) (\<lambda>_ w'. wk_sealed_at w = None \<and>
     (en_event env = EVENT_SEALED \<longrightarrow> wk_sealed_at w' \<noteq> None) \<and> obs w' = obs w)"
proof (cases "wk_sealed_at w")
  case None
  then show ?thesis by (simp add: check_sealed_def then_step_def frame_ok_def)
next
  case (Some sp)
  then show ?thesis
    by (cases sp) (auto simp: check_sealed_def intro!: guards_violation_then split: if_splits)
qed

lemma guards_time: "guards w (check_time opts loc env w) (\<lambda>_ w'. obs w' = obs w)"
proof (cases "parse_rfc3339_millis (en_ts_wall env)")
  case (Some ms)
  have set: "guards v (Ok (v\<lparr>wk_last_ts_ms := Some ms\<rparr>, Some ())) (\<lambda>_ w'. obs w' = obs v)" for v
    by simp
  show ?thesis
  proof (cases "wk_last_ts_ms w")
    case None
    then show ?thesis using set [of w] by (simp add: check_time_def Some then_step_def)
  next
    case prev: (Some prev_ms)
    show ?thesis
      unfolding check_time_def Some prev option.case Let_def
      by (rule guards_weaken [OF guards_then [OF guards_check set]]) simp
  qed
qed (simp add: check_time_def)

lemma note_record_frame [simp]: "clean (note_record n p ordinal rh env w) = clean w"
    "frame_ok v (note_record n p ordinal rh env w) = frame_ok v w"
    "wk_sealed_at (note_record n p ordinal rh env w) = wk_sealed_at w"
  by (simp_all add: note_record_def) (simp add: upd_log_def upd_report_def)

lemma guards_note: "guards w (Ok (note_record n p ordinal rh env w, Some fin))
    (\<lambda>z w'. z = fin \<and> w' = note_record n p ordinal rh env w)"
  by simp

text \<open>What the rules say of one record.\<close>

definition record_ok ::
  "('p, 's) crypto \<Rightarrow> signed_header \<Rightarrow> u16 \<Rightarrow> nat \<Rightarrow> bytes \<Rightarrow> raw_record \<Rightarrow> envelope \<Rightarrow> bool" where
  "record_ok c h n p prev raw env \<longleftrightarrow>
     ed25519_verify c (sh_public_key h) (signed_data c NS_RECORD (raw_envelope raw)) (raw_signature raw) = Ok () \<and>
     envelope_decode (raw_envelope raw) = Ok env \<and>
     en_key_id env = sh_key_id h \<and> en_sig_alg env = sh_sig_alg h \<and> in_chain n p prev env \<and>
     (\<exists>bdy. body_checked c raw env bdy \<and> structure_ok p raw env bdy)"

definition accepted ::
  "('p, 's) crypto \<Rightarrow> evaluated \<Rightarrow> signed_header \<Rightarrow> u16 \<Rightarrow> nat \<Rightarrow> raw_record \<Rightarrow> bool" where
  "accepted c ev h n p raw \<longleftrightarrow>
     (\<exists>e. accept ev (sh_key_id h) NS_RECORD
       (ORecord (sh_log_id h) n (of_nat p) (record_hash c (raw_envelope raw))) = Ok e)"

definition record_post ::
  "('p, 's) crypto \<Rightarrow> evaluated \<Rightarrow> signed_header \<Rightarrow> u16 \<Rightarrow> nat \<Rightarrow> bytes \<Rightarrow> raw_record \<Rightarrow> walk
    \<Rightarrow> (nat \<times> nat) option \<Rightarrow> walk \<Rightarrow> envelope \<Rightarrow> bool" where
  "record_post c ev h n p prev raw w fin w' env \<longleftrightarrow>
     record_ok c h n p prev raw env \<and>
     (ev_has_pins ev \<and> wk_signer_ok w \<longrightarrow> accepted c ev h n p raw) \<and>
     (fin = None \<longleftrightarrow> en_event env \<noteq> EVENT_FINALIZED) \<and>
     wk_sealed_at w = None \<and> (en_event env = EVENT_SEALED \<longrightarrow> wk_sealed_at w' \<noteq> None)"

text \<open>The number of the record has already been counted when it is noted.\<close>

lemma obs_note: "obs (note_record n p (wk_ordinal w) (record_hash c (raw_envelope raw)) env w) =
    visit c n p raw env (wk_ordinal w - 1, snd (obs w))" if "0 < wk_ordinal w"
  using that by (simp add: obs_def visit_def note_record_def upd_log_def upd_report_def Let_def)

lemma record_postI:
  assumes "frame_ok w1 w2" "frame_ok w2 w3" "frame_ok w3 w4" "frame_ok w4 w5" "frame_ok w6 w7" "frame_ok w w1"
    and "record_ok c h n p prev raw env"
    and "ev_has_pins ev \<and> wk_signer_ok w3 \<longrightarrow> accepted c ev h n p raw"
    and "fin = None \<longleftrightarrow> en_event env \<noteq> EVENT_FINALIZED"
    and "wk_sealed_at w5 = None" "en_event env = EVENT_SEALED \<longrightarrow> wk_sealed_at w6 \<noteq> None"
    and "wk_sealed_at w' = wk_sealed_at w7"
  shows "record_post c ev h n p prev raw w fin w' env"
proof -
  have "frame_ok w w3" "frame_ok w w5" using assms(1-6) frame_ok_trans by blast+
  then show ?thesis
    unfolding record_post_def frame_ok_def using assms(5,7-) unfolding frame_ok_def by metis
qed

lemma guards_signed_record:
  assumes "ed25519_verify c (sh_public_key h) (signed_data c NS_RECORD (raw_envelope raw)) (raw_signature raw) = Ok ()"
    and "envelope_decode (raw_envelope raw) = Ok env"
  shows "guards w (signed_record c ev opts h n p prev raw env w)
    (\<lambda>fin w'. record_post c ev h n p prev raw w fin w' env \<and>
       (0 < wk_ordinal w \<longrightarrow> obs w' = visit c n p raw env (wk_ordinal w - 1, snd (obs w))))"
  unfolding signed_record_def Let_def
proof (rule guards_weaken, rule guards_then [OF guards_body], rule guards_then [OF guards_key_and_alg],
      rule guards_then [OF guards_chain], rule guards_then [OF guards_trust],
      rule guards_then [OF guards_structure], rule guards_then [OF guards_sealed],
      rule guards_then [OF guards_time], rule guards_note, elim exE conjE, goal_cases)
  case (1 fin w' bdy w1 _ w2 _ w3 _ w4 _ w5 _ w6 _ w7)
  show ?case
  proof
    show "record_post c ev h n p prev raw w fin w' env"
      using 1 assms by (intro record_postI [of w1 w2 w3 w4 w5 w6 w7])
        (simp_all add: record_ok_def accepted_def, blast)
    have "obs w7 = obs w" using 1 by metis
    then have "wk_ordinal w7 = wk_ordinal w" "snd (obs w7) = snd (obs w)" by (simp_all add: obs_def)
    then show "0 < wk_ordinal w \<longrightarrow> obs w' = visit c n p raw env (wk_ordinal w - 1, snd (obs w))"
      using 1 obs_note [of w7 n p c raw env] by simp
  qed
qed

lemma guards_count:
  "guards (count_signed_record opts n p w) s Q \<Longrightarrow> guards w s Q"
  by (simp add: guards_def count_signed_record_def frame_ok_def upd_log_def upd_report_def clean_def)

lemma wk_count_record [simp]:
  "wk_sealed_at (count_signed_record opts n p w) = wk_sealed_at w" "wk_signer_ok (count_signed_record opts n p w) = wk_signer_ok w"
  "wk_ordinal (count_signed_record opts n p w) = Suc (wk_ordinal w)" "snd (obs (count_signed_record opts n p w)) = snd (obs w)"
  by (simp_all add: count_signed_record_def upd_log_def upd_report_def obs_def)

lemma guards_after_finalized:
  "guards w (after_finalized opts n ordinal finalized_at w) (\<lambda>_ w'. w' = w \<and> finalized_at = None)"
  by (auto simp: after_finalized_def split: option.splits)

lemma guards_record_step:
  "guards w (record_step c ev opts h n p prev finalized_at raw w)
     (\<lambda>fin w'. finalized_at = None \<and> (\<exists>env. record_post c ev h n p prev raw w fin w' env \<and>
        obs w' = visit c n p raw env (obs w)))"
proof -
  let ?v = "ed25519_verify c (sh_public_key h) (signed_data c NS_RECORD (raw_envelope raw)) (raw_signature raw)"
  have inner: "guards w1
      (case ?v of Ok _ \<Rightarrow>
          (case envelope_decode (raw_envelope raw) of
            Ok env \<Rightarrow> signed_record c ev opts h n p prev raw env w1
          | Err _ \<Rightarrow> then_step (decode_error opts loc w1) (\<lambda>_ w. Ok (w, Some None)) | Panic \<Rightarrow> Panic)
        | Err fail \<Rightarrow> then_step (violation_step opts (signature_finding h raw loc fail) w1)
            (\<lambda>_ w. Ok (w, Some None)) | Panic \<Rightarrow> Panic)
      (\<lambda>fin w'. \<exists>env. record_post c ev h n p prev raw w1 fin w' env \<and>
        (0 < wk_ordinal w1 \<longrightarrow> obs w' = visit c n p raw env (wk_ordinal w1 - 1, snd (obs w1))))" for w1 loc
  proof (cases ?v)
    case (Ok u)
    show ?thesis
    proof (cases "envelope_decode (raw_envelope raw)")
      case d: (Ok env)
      show ?thesis unfolding Ok d result.case
        by (rule guards_weaken [OF guards_signed_record]) (use Ok d in auto)
    qed (simp_all add: Ok decode_error_def)
  qed simp_all
  show ?thesis
    unfolding record_step_def Let_def
    by (rule guards_count [of opts n p], rule guards_weaken [OF guards_then [OF guards_after_finalized inner]])
      (auto simp: record_post_def)
qed

section \<open>The records of a segment\<close>

text \<open>The records from an offset to the end of the file, in order, each one linked to the hash before
  it; a \<^verbatim>\<open>segment.finalized\<close> record is the last one.\<close>

inductive chain_of ::
  "('p, 's) crypto \<Rightarrow> signed_header \<Rightarrow> u16 \<Rightarrow> bytes \<Rightarrow> nat \<Rightarrow> nat \<Rightarrow> bytes \<Rightarrow> (raw_record \<times> envelope) list
    \<Rightarrow> bytes \<Rightarrow> bool" for c h n content where
  chain_end: "read_frame content offset = FrameEnd \<Longrightarrow> chain_of c h n content offset p prev [] prev"
| chain_step: "read_frame content offset = FrameRecord raw \<Longrightarrow> record_ok c h n p prev raw env \<Longrightarrow>
    (en_event env = EVENT_FINALIZED \<longrightarrow> rest = []) \<Longrightarrow>
    chain_of c h n content (offset + raw_total_len raw) (Suc p) (record_hash c (raw_envelope raw)) rest final \<Longrightarrow>
    chain_of c h n content offset p prev ((raw, env) # rest) final"

inductive_cases chain_of_ConsE: "chain_of c h n content offset p prev ((raw, env) # rest) final"
inductive_cases chain_of_NilE: "chain_of c h n content offset p prev [] final"

definition all_accepted ::
  "('p, 's) crypto \<Rightarrow> evaluated \<Rightarrow> signed_header \<Rightarrow> u16 \<Rightarrow> nat \<Rightarrow> (raw_record \<times> envelope) list \<Rightarrow> bool" where
  "all_accepted c ev h n p recs \<longleftrightarrow> list_all (\<lambda>(i, raw, env). accepted c ev h n i raw) (enumerate p recs)"

text \<open>Nothing follows a \<^verbatim>\<open>log.sealed\<close> record: whether the log was sealed before some records and
  after them.\<close>

definition sealed_by :: "bool \<Rightarrow> (raw_record \<times> envelope) list \<Rightarrow> bool \<Rightarrow> bool" where
  "sealed_by before recs after \<longleftrightarrow>
     (before \<longrightarrow> recs = [] \<and> after) \<and>
     (\<forall>r \<in> set (butlast recs). en_event (snd r) \<noteq> EVENT_SEALED) \<and>
     (recs \<noteq> [] \<and> en_event (snd (last recs)) = EVENT_SEALED \<longrightarrow> after)"

lemma sealed_by_append:
  assumes "sealed_by a xs b" "sealed_by b ys c"
  shows "sealed_by a (xs @ ys) c"
  using assms by (cases xs rule: rev_cases; cases ys rule: rev_cases)
    (auto simp: sealed_by_def butlast_append)

lemma framing_dirty: "vo_attested opts = None \<Longrightarrow> \<not> clean (framing_problem opts n p o' k w)"
  by (simp add: framing_problem_def after_head_def)

definition loop_post ::
  "('p, 's) crypto \<Rightarrow> evaluated \<Rightarrow> signed_header \<Rightarrow> u16 \<Rightarrow> bytes \<Rightarrow> nat \<Rightarrow> nat \<Rightarrow> bytes \<Rightarrow> walk
    \<Rightarrow> (raw_record \<times> envelope) list \<Rightarrow> bytes \<Rightarrow> walk \<Rightarrow> bool" where
  "loop_post c ev h n content offset p prev w recs final w' \<longleftrightarrow>
     chain_of c h n content offset p prev recs final \<and>
     (ev_has_pins ev \<and> wk_signer_ok w \<longrightarrow> all_accepted c ev h n p recs) \<and>
     sealed_by (wk_sealed_at w \<noteq> None) recs (wk_sealed_at w' \<noteq> None) \<and>
     obs w' = visit_all c n p recs (obs w) \<and> (recs = [] \<longrightarrow> w' = w)"

lemma loop_post_Cons:
  assumes "read_frame content offset = FrameRecord raw" "record_post c ev h n p prev raw w fin w1 env"
    and "loop_post c ev h n content (offset + raw_total_len raw) (p + 1) (record_hash c (raw_envelope raw)) w1 recs final w'"
    and "frame_ok w w1" "fin \<noteq> None \<longrightarrow> recs = []" "obs w1 = visit c n p raw env (obs w)"
  shows "loop_post c ev h n content offset p prev w ((raw, env) # recs) final w'"
proof -
  have "sealed_by (wk_sealed_at w \<noteq> None) [(raw, env)] (wk_sealed_at w1 \<noteq> None)"
    using assms(2) by (auto simp: sealed_by_def record_post_def)
  then have "sealed_by (wk_sealed_at w \<noteq> None) ([(raw, env)] @ recs) (wk_sealed_at w' \<noteq> None)"
    by (rule sealed_by_append) (use assms(3) in \<open>simp add: loop_post_def\<close>)
  then show ?thesis
    using assms by (auto simp: loop_post_def record_post_def all_accepted_def frame_ok_def intro: chain_step)
qed

lemma then_step_Ok:
  "then_step s f = Ok (w', x) \<Longrightarrow>
     \<exists>w1 y. s = Ok (w1, y) \<and> (case y of None \<Rightarrow> w1 = w' \<and> x = None | Some z \<Rightarrow> f z w1 = Ok (w', x))"
  by (auto simp: then_step_def result_elims split: option.splits)

lemma guards_then_loop:
  assumes "guards w s Q"
    and keep: "\<And>y w1 w' x. f y w1 = Ok (w', x) \<Longrightarrow> clean w' \<Longrightarrow> clean w1"
    and step: "\<And>y w1. frame_ok w w1 \<Longrightarrow> Q y w1 \<Longrightarrow> guards w1 (f y w1) (R y w1)"
  shows "guards w (then_step s f) (\<lambda>z w'. \<exists>y w1. frame_ok w w1 \<and> frame_ok w1 w' \<and> Q y w1 \<and> R y w1 z w')"
  unfolding guards_def
proof (intro allI impI)
  fix w' x assume r: "then_step s f = Ok (w', x)" "clean w'"
  then obtain r1 where s1: "s = Ok r1"
    and f: "(case snd r1 of None \<Rightarrow> Ok (fst r1, None) | Some y \<Rightarrow> f y (fst r1)) = Ok (w', x)"
    by (auto simp: then_step_def result_elims case_prod_unfold)
  have "clean (fst r1)" using f r(2) keep by (auto split: option.splits)
  note a = guardsD [OF assms(1) _ this, of "snd r1"]
  then obtain y where y: "snd r1 = Some y" "Q y (fst r1)" "clean w" "frame_ok w (fst r1)" using s1 by auto
  have "f y (fst r1) = Ok (w', x)" using f y(1) by simp
  from guardsD [OF step [OF y(4,2)] this r(2)] y
  show "clean w \<and> frame_ok w w' \<and> (\<exists>z. x = Some z \<and>
      (\<exists>y w1. frame_ok w w1 \<and> frame_ok w1 w' \<and> Q y w1 \<and> R y w1 z w'))"
    using frame_ok_trans by blast
qed

lemma loop_keeps:
  "record_loop c ev opts h n content offset p prev finalized_at w = Ok (w', x) \<Longrightarrow> clean w' \<Longrightarrow> clean w"
proof (induction c ev opts h n content offset p prev finalized_at w rule: record_loop.induct)
  case (1 c ev opts h n content offset p prev finalized_at w)
  show ?case
  proof (cases "wk_stopped w")
    case True
    then show ?thesis using "1.prems" by (subst (asm) record_loop.simps) simp
  next
    case False
    show ?thesis
    proof (cases "read_frame content offset")
      case (FrameRecord raw)
      have "then_step (record_step c ev opts h n p prev finalized_at raw w) (\<lambda>fin w1.
          record_loop c ev opts h n content (offset + raw_total_len raw) (p + 1)
            (record_hash c (raw_envelope raw)) fin w1) = Ok (w', x)"
        using "1.prems"(1) False FrameRecord by (subst (asm) record_loop.simps) simp
      from then_step_Ok [OF this] obtain w1 y where
        s1: "record_step c ev opts h n p prev finalized_at raw w = Ok (w1, y)"
        and f: "case y of None \<Rightarrow> w1 = w' \<and> x = None | Some fin \<Rightarrow>
          record_loop c ev opts h n content (offset + raw_total_len raw) (p + 1)
            (record_hash c (raw_envelope raw)) fin w1 = Ok (w', x)"
        by blast
      have "clean w1"
      proof (cases y)
        case (Some fin)
        then show ?thesis using "1.IH" [OF False FrameRecord, of fin w1] f "1.prems"(2) by simp
      qed (use f "1.prems"(2) in simp)
      then show ?thesis using guardsD(1) [OF guards_record_step s1] by blast
    qed (use "1.prems" False in \<open>subst (asm) record_loop.simps, auto simp: framing_problem_def split: if_splits\<close>)+
  qed
qed

lemma guards_loop:
  "vo_attested opts = None \<Longrightarrow> \<not> wk_stopped w \<Longrightarrow>
   guards w (record_loop c ev opts h n content offset p prev finalized_at w)
     (\<lambda>res w'. \<exists>final fin recs. res = (final, p + length recs, fin) \<and> (finalized_at \<noteq> None \<longrightarrow> recs = []) \<and>
        loop_post c ev h n content offset p prev w recs final w')"
proof (induction c ev opts h n content offset p prev finalized_at w rule: record_loop.induct)
  case (1 c ev opts h n content offset p prev finalized_at w)
  show ?case
  proof (cases "read_frame content offset")
    case FrameEnd
    then show ?thesis
      by (subst record_loop.simps)
        (use "1.prems" in \<open>auto simp: loop_post_def all_accepted_def sealed_by_def intro!: exI [of _ "[]"] chain_end\<close>)
  next
    case (FrameRecord raw)
    have "guards w (then_step (record_step c ev opts h n p prev finalized_at raw w) (\<lambda>fin w1.
        record_loop c ev opts h n content (offset + raw_total_len raw) (p + 1)
          (record_hash c (raw_envelope raw)) fin w1))
        (\<lambda>res w'. \<exists>final fin recs. res = (final, p + length recs, fin) \<and> (finalized_at \<noteq> None \<longrightarrow> recs = []) \<and>
          loop_post c ev h n content offset p prev w recs final w')"
    proof (rule guards_weaken [OF guards_then_loop [OF guards_record_step, where R = "\<lambda>fin w1 res w'.
        \<exists>final fin' recs. res = (final, p + 1 + length recs, fin') \<and> (fin \<noteq> None \<longrightarrow> recs = []) \<and>
          loop_post c ev h n content (offset + raw_total_len raw) (p + 1)
            (record_hash c (raw_envelope raw)) w1 recs final w'"]], goal_cases)
      case (1 y w1 w' x)
      then show ?case by (rule loop_keeps)
    next
      case (2 y w1)
      have "\<not> wk_stopped w1" using 2(1) "1.prems"(2) by (simp add: frame_ok_def)
      then show ?case using "1.IH" [OF "1.prems"(2) FrameRecord, of w1 y] "1.prems"(1) by blast
    next
      case (3 res w')
      then obtain fin w1 env final fin' recs where f: "frame_ok w w1" "finalized_at = None"
        "record_post c ev h n p prev raw w fin w1 env" "obs w1 = visit c n p raw env (obs w)"
        "res = (final, p + 1 + length recs, fin')" "fin \<noteq> None \<longrightarrow> recs = []"
        "loop_post c ev h n content (offset + raw_total_len raw) (p + 1) (record_hash c (raw_envelope raw)) w1 recs final w'"
        by blast
      have "loop_post c ev h n content offset p prev w ((raw, env) # recs) final w'"
        by (rule loop_post_Cons [OF FrameRecord f(3,7,1,6,4)])
      then show ?case using f(2,5) by (intro exI [of _ final] exI [of _ fin'] exI [of _ "(raw, env) # recs"]) simp
    qed
    then show ?thesis
      by (subst record_loop.simps) (use "1.prems" FrameRecord in simp)
  next
    case (FrameTooLarge o' len)
    then show ?thesis
      by (subst record_loop.simps) (use "1.prems" framing_dirty [OF "1.prems"(1)] in \<open>simp add: guards_def\<close>)
  next
    case (FrameTorn o')
    then show ?thesis
      by (subst record_loop.simps) (use "1.prems" framing_dirty [OF "1.prems"(1)] in \<open>simp add: guards_def\<close>)
  qed
qed

section \<open>Segments\<close>

definition keeps :: "walk \<Rightarrow> 'a step \<Rightarrow> bool" where
  "keeps w s \<longleftrightarrow> (\<forall>w' x. s = Ok (w', x) \<longrightarrow> clean w' \<longrightarrow> clean w)"

lemma keeps_then: "keeps w s \<Longrightarrow> (\<And>y w1. keeps w1 (f y w1)) \<Longrightarrow> keeps w (then_step s f)"
  unfolding keeps_def by (fastforce dest!: then_step_Ok split: option.splits)

lemma guards_keeps: "guards w s Q \<Longrightarrow> keeps w s"
  by (auto simp: guards_def keeps_def)

lemma keeps_value [simp]: "keeps w (Ok (w', x)) \<longleftrightarrow> (clean w' \<longrightarrow> clean w)"
  by (simp add: keeps_def)

lemma keeps_Panic [simp]: "keeps w Panic"
  by (simp add: keeps_def)

lemma wk_warn [simp]: "wk_last_segment_had_records (warn k i w) = wk_last_segment_had_records w"
    "wk_trusted_sig (warn k i w) = wk_trusted_sig w"
  by (simp_all add: warn_def upd_report_def)

lemma guards_empty_last: "guards w (empty_last_segment opts n w)
    (\<lambda>_ w'. wk_last_segment_had_records w' = wk_last_segment_had_records w \<and> obs w' = obs w \<and>
       wk_trusted_sig w' = wk_trusted_sig w)"
  by (auto simp: empty_last_segment_def Let_def guards_def frame_ok_def warn_def upd_log_def upd_report_def
      clean_def obs_def signed_violation_def violation_nostop_def split: option.splits if_splits)

lemma guards_segment_end:
  "guards w (segment_end opts n is_last p finalized_at w) (\<lambda>_ w'. wk_last_segment_had_records w' = (0 < p) \<and> obs w' = obs w \<and> wk_trusted_sig w' = wk_trusted_sig w)"
proof -
  let ?w1 = "w\<lparr>wk_last_segment_had_records := (0 < p)\<rparr>"
  let ?s = "if p = 0 \<and> 0 < n \<and> is_last then empty_last_segment opts n ?w1 else Ok (?w1, Some ())"
  have "guards ?w1 ?s (\<lambda>_ w'. wk_last_segment_had_records w' = (0 < p) \<and> obs w' = obs w \<and> wk_trusted_sig w' = wk_trusted_sig w)"
    using guards_empty_last [of ?w1 opts n] by (cases "p = 0 \<and> 0 < n \<and> is_last") auto
  then have "guards w ?s (\<lambda>_ w'. wk_last_segment_had_records w' = (0 < p) \<and> obs w' = obs w \<and> wk_trusted_sig w' = wk_trusted_sig w)"
    by (rule guards_from) simp_all
  moreover have "guards v (Ok (if finalized_at \<noteq> None \<and> is_last
      then warn ''RolledOverWithoutSuccessor'' (segment_text n) (v\<lparr>wk_ended_in_finalized := True\<rparr>) else v, Some ()))
      (\<lambda>_ w'. wk_last_segment_had_records w' = wk_last_segment_had_records v \<and> obs w' = obs v \<and> wk_trusted_sig w' = wk_trusted_sig v)" for v
    by (cases "finalized_at \<noteq> None \<and> is_last") simp_all
  ultimately show ?thesis
    unfolding segment_end_def Let_def by (rule guards_weaken [OF guards_then]) auto
qed

text \<open>Segment 0 decides who the signer is.\<close>

lemma enter_segment0_clean:
  assumes "enter_segment0 ev opts n h w = Ok (w', x)" "clean w'"
  shows "clean w \<and> x = Some () \<and> wk_stopped w' = wk_stopped w \<and> wk_sealed_at w' = wk_sealed_at w \<and>
    wk_trusted_sig w' = wk_trusted_sig w \<and> (\<exists>hs. obs w' = track hs (obs w)) \<and>
    (if n = 0 then wk_seg0 w' = Some h \<and> wk_signer_ok w' = ev_has_pins ev \<and>
       (\<forall>i. vo_expect_log_id opts = Some i \<longrightarrow> sh_log_id h = i)
     else w' = w)"
proof (cases "n = 0")
  case True
  let ?w1 = "upd_log (\<lambda>l. l\<lparr>sl_log_id := Some (sh_log_id h), sl_key_id := Some (sh_key_id h)\<rparr>)
    (w\<lparr>wk_seg0 := Some h\<rparr>)"
  from then_step_Ok [OF assms(1) [unfolded enter_segment0_def, simplified True, simplified]]
  obtain w2 y where t: "segment0_trust ev opts h ?w1 = Ok (w2, y)"
    and e: "case y of None \<Rightarrow> w2 = w' \<and> x = None
      | Some z \<Rightarrow> (Ok (note_statement_heads ev w2, Some ()) :: unit step) = Ok (w', x)"
    by blast
  have cl: "clean w2" using e assms(2) by (auto simp: note_statement_heads_def split: option.splits)
  have *: "y = Some () \<and> w2 = (upd_report (\<lambda>r. r\<lparr>sr_signer := Some (signer_of ev h)\<rparr>) ?w1)\<lparr>wk_signer_ok := ev_has_pins ev\<rparr> \<and>
      (\<forall>i. vo_expect_log_id opts = Some i \<longrightarrow> sh_log_id h = i)"
    using t cl violation_dirty
    by (auto simp: segment0_trust_def Let_def then_step_def violation_step_def result_elims
        dest: violation_dirtyD split: option.splits if_splits prod.splits)
  then have y: "y = Some ()" "obs w2 = obs w" and w': "w' = note_statement_heads ev w2"
    using e by simp_all
  have "\<exists>hs. obs w' = track hs (obs w)" using obs_note_heads [of ev w2] y(2) w' by auto
  moreover from * have "clean w \<and> x = Some () \<and> wk_stopped w' = wk_stopped w \<and> wk_sealed_at w' = wk_sealed_at w \<and>
      wk_trusted_sig w' = wk_trusted_sig w \<and> wk_seg0 w' = Some h \<and> wk_signer_ok w' = ev_has_pins ev \<and>
      (\<forall>i. vo_expect_log_id opts = Some i \<longrightarrow> sh_log_id h = i)"
    using e cl by (auto simp: note_statement_heads_def upd_report_def upd_log_def clean_def)
  ultimately show ?thesis using True by simp
next
  case False
  then have "w' = w" "x = Some ()" using assms by (simp_all add: enter_segment0_def)
  then show ?thesis using False assms(2) track_Nil by metis
qed

text \<open>What the header rules H1 to H12 say, after a segment 0 with header \<open>h0\<close>.\<close>

definition header_ok ::
  "('p, 's) crypto \<Rightarrow> signed_header \<Rightarrow> u16 \<Rightarrow> bytes \<Rightarrow> bytes \<Rightarrow> signed_header \<Rightarrow> bool" where
  "header_ok c h0 n prev content h \<longleftrightarrow>
     HEADER_LEN \<le> length content \<and> h = from_bytes_unchecked (take HEADER_LEN content) \<and>
     take 4 content = FORMAT_MAGIC \<and> sh_version h = FORMAT_VERSION_SIGNED \<and> sh_reserved h = 0 \<and>
     alg_from_code (sh_sig_alg h) \<noteq> None \<and>
     u32_at content 124 = crc32 c (take HEADER_HASHED_LEN content) \<and>
     is_strong c (ed25519_key (sh_public_key h)) \<and>
     fingerprint_of c (ed25519_key (sh_public_key h)) = sh_key_id h \<and>
     sh_sig_alg h = sh_sig_alg h0 \<and> sh_log_id h = sh_log_id h0 \<and> sh_key_id h = sh_key_id h0 \<and>
     sh_public_key h = sh_public_key h0 \<and>
     sh_segment_index h = n \<and> sh_prev_final h = prev"

lemma u32_at_take: "i + 4 \<le> k \<Longrightarrow> u32_at (take k b) i = u32_at b i"
  by (simp add: u32_at_def slice_def drop_take min_def)

lemma u16_at_take: "i + 2 \<le> k \<Longrightarrow> u16_at (take k b) i = u16_at b i"
  by (simp add: u16_at_def slice_def drop_take min_def)

lemma header_bytes_long: "HEADER_LEN \<le> length content \<Longrightarrow> header_bytes content = take HEADER_LEN content"
  by (simp add: header_bytes_def)

lemma check_header_Ok:
  assumes "check_header c seg0 n (header_bytes content) (min HEADER_LEN (length content)) (Some prev) = Ok h"
    and "n = 0 \<Longrightarrow> prev = replicate 32 0"
  shows "HEADER_LEN \<le> length content" "header_ok c (if n = 0 then h else case seg0 of Some h0 \<Rightarrow> h0 | None \<Rightarrow> h) n prev content h"
proof -
  let ?hb = "header_bytes content"
  have len: "HEADER_LEN \<le> length content"
    using assms(1) by (auto simp: check_header_def Let_def split: if_splits)
  then show "HEADER_LEN \<le> length content" .
  have hb: "?hb = take 128 content" "\<not> length content < 128"
    using header_bytes_long [OF len] len by (simp_all add: HEADER_LEN_def)
  have c: "take 4 (take 128 content) = FORMAT_MAGIC" "u16_at (take 128 content) 4 = FORMAT_VERSION_SIGNED"
    "alg_from_code (u16_at (take 128 content) 8) \<noteq> None"
    "u32_at (take 128 content) 124 = crc32 c (take 124 (take 128 content))"
    "h = from_bytes_unchecked (take 128 content)" "sh_reserved h = 0"
    "is_strong c (ed25519_key (sh_public_key h))" "fingerprint_of c (ed25519_key (sh_public_key h)) = sh_key_id h"
    and same: "(case seg0 of None \<Rightarrow> Ok () | Some s0 \<Rightarrow> if 0 < n then same_signer n s0 h else Ok ()) = Ok ()"
    and place: "header_place n (Some prev) h = Ok ()"
    using assms(1) unfolding check_header_def Let_def hb HEADER_LEN_def HEADER_HASHED_LEN_def
    by (auto simp: result_elims split: if_splits)
  have "sh_segment_index h = n" "sh_prev_final h = prev"
    using place assms(2) by (auto simp: header_place_def split: if_splits)
  moreover have "0 < n \<Longrightarrow> seg0 = Some h0 \<Longrightarrow> sh_sig_alg h = sh_sig_alg h0 \<and> sh_log_id h = sh_log_id h0 \<and>
      sh_key_id h = sh_key_id h0 \<and> sh_public_key h = sh_public_key h0" for h0
    using same by (auto simp: same_signer_def Let_def split: if_splits)
  moreover have "take 4 content = FORMAT_MAGIC" "u32_at content 124 = crc32 c (take 124 content)"
    using c(1,4) by (simp_all add: u32_at_take)
  ultimately show "header_ok c (if n = 0 then h else case seg0 of Some h0 \<Rightarrow> h0 | None \<Rightarrow> h) n prev content h"
    using c len by (auto simp: header_ok_def HEADER_LEN_def HEADER_HASHED_LEN_def from_bytes_unchecked_def
        word_neq_0_conv split: option.splits)
qed

lemma segment_keeps: "keeps w (walk_segment c ev opts d n prev_final is_last w)"
proof (cases "regular_file d n")
  case None
  then show ?thesis by (simp add: walk_segment_def)
next
  case (Some content)
  let ?r = "check_header c (wk_seg0 w) n (header_bytes content) (min HEADER_LEN (length content)) prev_final"
  show ?thesis
  proof (cases ?r)
    case (Ok h)
    have enter: "keeps w (enter_segment0 ev opts n h w)"
      using enter_segment0_clean by (fastforce simp: keeps_def)
    have loop: "keeps w1 (record_loop c ev opts h n content HEADER_LEN 0 pv None w1)" for w1 pv
      using loop_keeps by (simp add: keeps_def) blast
    have fin: "keeps w1 ((\<lambda>(prev, p, finalized_at) w. then_step (segment_end opts n is_last p finalized_at w)
        (\<lambda>_ w. Ok (w, Some prev))) res w1)" for w1 res
      by (cases res) (auto intro!: keeps_then guards_keeps [OF guards_segment_end])
    show ?thesis
      unfolding walk_segment_def Some option.case Let_def Ok result.case
      by (intro keeps_then enter loop fin)
  qed (simp_all add: walk_segment_def Some)
qed

definition segment_post ::
  "('p, 's) crypto \<Rightarrow> evaluated \<Rightarrow> node_dir \<Rightarrow> signed_header \<Rightarrow> u16 \<Rightarrow> bytes \<Rightarrow> walk
    \<Rightarrow> (raw_record \<times> envelope) list \<Rightarrow> bytes \<Rightarrow> walk \<Rightarrow> bool" where
  "segment_post c ev d h0 n prev w recs final w' \<longleftrightarrow>
     (\<exists>content h. regular_file d n = Some content \<and> header_ok c h0 n prev content h \<and>
        chain_of c h n content HEADER_LEN 0 (chain_start c content) recs final) \<and>
     (ev_has_pins ev \<longrightarrow> all_accepted c ev h0 n 0 recs) \<and>
     sealed_by (wk_sealed_at w \<noteq> None) recs (wk_sealed_at w' \<noteq> None) \<and>
     wk_last_segment_had_records w' = (recs \<noteq> []) \<and>
     (\<exists>hs. obs w' = visit_all c n 0 recs (track hs (obs w))) \<and>
     wk_seg0 w' = Some h0 \<and> wk_signer_ok w' = ev_has_pins ev \<and> \<not> wk_stopped w' \<and>
     (wk_trusted_sig w' \<longrightarrow> wk_trusted_sig w \<or> ev_has_pins ev \<and> recs \<noteq> [])"

lemma all_accepted_cong:
  "sh_key_id h = sh_key_id h0 \<Longrightarrow> sh_log_id h = sh_log_id h0 \<Longrightarrow>
   all_accepted c ev h n p recs = all_accepted c ev h0 n p recs"
  by (simp add: all_accepted_def accepted_def)

lemma chain_start_take: "chain_start c (take HEADER_LEN content) = chain_start c content"
  by (simp add: chain_start_def HEADER_LEN_def HEADER_HASHED_LEN_def)

lemma segment_clean:
  assumes r: "walk_segment c ev opts d n (Some prev) is_last w = Ok (w', x)" and "clean w'"
    and "\<not> wk_stopped w" "vo_attested opts = None" "n = 0 \<longrightarrow> prev = replicate 32 0"
    and later: "n \<noteq> 0 \<longrightarrow> wk_seg0 w = Some h1 \<and> wk_signer_ok w = ev_has_pins ev"
  shows "\<exists>h0 recs final. x = Some final \<and> segment_post c ev d h0 n prev w recs final w' \<and>
    (n \<noteq> 0 \<longrightarrow> h0 = h1) \<and> (n = 0 \<longrightarrow> (\<forall>i. vo_expect_log_id opts = Some i \<longrightarrow> sh_log_id h0 = i))"
proof -
  obtain content where content: "regular_file d n = Some content"
    using r assms(2) by (cases "regular_file d n") (auto simp: walk_segment_def)
  let ?hb = "header_bytes content"
  obtain h where h: "check_header c (wk_seg0 w) n ?hb (min HEADER_LEN (length content)) (Some prev) = Ok h"
    using r assms(2) by (auto simp: walk_segment_def content Let_def split: result.splits)
  define h0 where "h0 = (if n = 0 then h else case wk_seg0 w of Some h0 \<Rightarrow> h0 | None \<Rightarrow> h)"
  have hd: "HEADER_LEN \<le> length content" "header_ok c h0 n prev content h"
    using check_header_Ok [OF h] assms(5) by (simp_all add: h0_def)
  have step: "then_step (enter_segment0 ev opts n h w) (\<lambda>_ w.
      then_step (record_loop c ev opts h n content HEADER_LEN 0 (chain_start c ?hb) None w)
        (\<lambda>(prev, p, finalized_at) w. then_step (segment_end opts n is_last p finalized_at w) (\<lambda>_ w.
          Ok (w, Some prev)))) = Ok (w', x)"
    using r by (simp add: walk_segment_def content Let_def h)
  from then_step_Ok [OF this] obtain w1 y1 where e: "enter_segment0 ev opts n h w = Ok (w1, y1)"
    and s1: "case y1 of None \<Rightarrow> w1 = w' \<and> x = None | Some z \<Rightarrow>
      then_step (record_loop c ev opts h n content HEADER_LEN 0 (chain_start c ?hb) None w1)
        (\<lambda>(prev, p, finalized_at) w. then_step (segment_end opts n is_last p finalized_at w) (\<lambda>_ w.
          Ok (w, Some prev))) = Ok (w', x)" by blast
  let ?close = "\<lambda>(prev, p, finalized_at) w. then_step (segment_end opts n is_last p finalized_at w) (\<lambda>_ w.
          Ok (w, Some prev))"
  have ends: "guards v (?close res v) (\<lambda>y v'. y = fst res \<and> wk_last_segment_had_records v' = (0 < fst (snd res)) \<and> obs v' = obs v \<and>
      wk_trusted_sig v' = wk_trusted_sig v)" for res v
  proof -
    obtain a b c' where res: "res = (a, b, c')" by (cases res)
    have "guards u (Ok (u, Some a)) (\<lambda>y v'. y = a \<and> v' = u)" for u by simp
    from guards_weaken [OF guards_then [OF guards_segment_end this]] show ?thesis unfolding res by auto
  qed
  have cl1: "clean w1"
  proof (cases y1)
    case (Some z)
    have "keeps w1 (then_step (record_loop c ev opts h n content HEADER_LEN 0 (chain_start c ?hb) None w1) ?close)"
      by (rule keeps_then) (use loop_keeps in \<open>simp add: keeps_def, blast\<close>, rule guards_keeps [OF ends])
    then show ?thesis using s1 Some assms(2) by (simp add: keeps_def)
  qed (use s1 assms(2) in simp)
  note en = enter_segment0_clean [OF e cl1]
  have st: "wk_seg0 w1 = Some h0" "wk_signer_ok w1 = ev_has_pins ev" "\<not> wk_stopped w1"
    using en later assms(3) by (auto simp: h0_def split: if_splits)
  have s2: "then_step (record_loop c ev opts h n content HEADER_LEN 0 (chain_start c ?hb) None w1) ?close = Ok (w', x)"
    using s1 en by simp
  note g = guardsD [OF guards_then [OF guards_loop [OF assms(4) st(3)] ends] s2 assms(2)]
  from g(3) obtain final fin recs w2 where f: "x = Some final" "frame_ok w1 w2" "frame_ok w2 w'"
    "loop_post c ev h n content HEADER_LEN 0 (chain_start c ?hb) w1 recs final w2"
    "wk_last_segment_had_records w' = (0 < length recs)" "obs w' = obs w2"
    "wk_trusted_sig w' = wk_trusted_sig w2"
    by auto
  have seen: "\<exists>hs. obs w' = visit_all c n 0 recs (track hs (obs w))"
    using en f(4,6) by (auto simp: loop_post_def)
  have "sealed_by (wk_sealed_at w \<noteq> None) recs (wk_sealed_at w' \<noteq> None)"
    using f(3,4) en by (auto simp: loop_post_def sealed_by_def frame_ok_def)
  moreover have "ev_has_pins ev \<longrightarrow> all_accepted c ev h0 n 0 recs"
  proof -
    have "sh_key_id h = sh_key_id h0" "sh_log_id h = sh_log_id h0" using hd(2) unfolding header_ok_def by blast+
    then show ?thesis using f(4) st(2) all_accepted_cong [of h h0 c] by (simp add: loop_post_def)
  qed
  moreover have "chain_of c h n content HEADER_LEN 0 (chain_start c content) recs final"
    using f(4) by (simp add: loop_post_def header_bytes_long [OF hd(1)] chain_start_take)
  moreover have "wk_seg0 w' = Some h0" "wk_signer_ok w' = ev_has_pins ev" "\<not> wk_stopped w'"
    "wk_trusted_sig w' \<longrightarrow> wk_trusted_sig w \<or> ev_has_pins ev \<and> recs \<noteq> []"
    using f(2,3,4,7) st en by (auto simp: frame_ok_def loop_post_def)
  ultimately have "segment_post c ev d h0 n prev w recs final w'"
    unfolding segment_post_def using content hd(2) f(5) seen by auto
  moreover have "n \<noteq> 0 \<longrightarrow> h0 = h1" using later by (auto simp: h0_def)
  moreover have "n = 0 \<longrightarrow> (\<forall>i. vo_expect_log_id opts = Some i \<longrightarrow> sh_log_id h0 = i)"
    using en by (simp add: h0_def)
  ultimately show ?thesis using f(1) by blast
qed

section \<open>The whole log\<close>

text \<open>The segments from an index on, each header after the last hash of the segment before it.\<close>

inductive segments_of ::
  "('p, 's) crypto \<Rightarrow> evaluated \<Rightarrow> node_dir \<Rightarrow> signed_header \<Rightarrow> u16 \<Rightarrow> bytes \<Rightarrow> u16 list
    \<Rightarrow> (raw_record \<times> envelope) list list \<Rightarrow> bool" for c ev d h0 where
  no_segment: "segments_of c ev d h0 n prev [] []"
| next_segment: "regular_file d n = Some content \<Longrightarrow> header_ok c h0 n prev content h \<Longrightarrow>
    chain_of c h n content HEADER_LEN 0 (chain_start c content) recs final \<Longrightarrow>
    (ev_has_pins ev \<longrightarrow> all_accepted c ev h0 n 0 recs) \<Longrightarrow> (recs = [] \<longrightarrow> ns = []) \<Longrightarrow>
    segments_of c ev d h0 (saturating_succ n) final ns rest \<Longrightarrow>
    segments_of c ev d h0 n prev (n # ns) (recs # rest)"

lemma saturating_succ_pos: "saturating_succ n \<noteq> 0"
proof (cases "unat n = 2 ^ 16 - 1")
  case False
  then have "unat n \<noteq> 65535" by simp
  moreover have "unat n < 65536" by (rule unat_u16_less)
  ultimately have "unat n + 1 < 65536" by linarith
  then have "unat (n + 1) = unat n + 1" by (simp add: unat_word_ariths)
  then show ?thesis using False by (auto simp: saturating_succ_def)
qed (auto simp: saturating_succ_def)

definition inspect :: "u16 \<Rightarrow> walk \<Rightarrow> walk" where
  "inspect n = upd_log (\<lambda>l. l\<lparr>sl_segments_inspected := sl_segments_inspected l + 1,
     sl_last_segment_index := Some n\<rparr>)"

lemma run_segments_Cons:
  assumes "run_segments c ev opts d (n # ns) expected prev_final w = Ok w'" "\<not> wk_stopped w"
  obtains w1 where "check_succession opts expected n prev_final w = Ok (w1, None)" "w1 = w'"
  | w1 pf w2 prev where "check_succession opts expected n prev_final w = Ok (w1, Some pf)"
    "walk_segment c ev opts d n pf (ns = []) (inspect n w1) = Ok (w2, prev)"
    "run_segments c ev opts d ns (saturating_succ n) prev w2 = Ok w'"
proof -
  obtain w1 pf where s: "check_succession opts expected n prev_final w = Ok (w1, pf)"
    using assms by (auto simp: bind_res_Ok_iff)
  show thesis
  proof (cases pf)
    case None
    then show thesis using that(1) [of w1] s assms by simp
  next
    case (Some p)
    then have "bind_res (walk_segment c ev opts d n p (ns = []) (inspect n w1))
        (\<lambda>(w, prev). run_segments c ev opts d ns (saturating_succ n) prev w) = Ok w'"
      using s assms by (simp add: inspect_def)
    then show thesis using that(2) [of w1 p] s Some by (auto simp: bind_res_Ok_iff)
  qed
qed

lemma segment_keepsD:
  assumes "walk_segment c ev opts d n pf is_last (inspect n w) = Ok (w', x)" "clean w'"
  shows "clean w"
proof -
  have "clean (inspect n w)" using segment_keeps assms unfolding keeps_def by blast
  then show ?thesis by (simp add: inspect_def)
qed

lemma guards_succession:
  "guards w (check_succession opts expected n prev_final w) (\<lambda>pf w'. w' = w \<and> n = expected \<and>
     pf = prev_final \<and> (n \<noteq> 0 \<longrightarrow> wk_last_segment_had_records w))"
  by (auto simp: check_succession_def word_neq_0_conv)

lemma run_keeps:
  "run_segments c ev opts d ns expected prev_final w = Ok w' \<Longrightarrow> clean w' \<Longrightarrow> clean w"
proof (induction ns arbitrary: expected prev_final w)
  case (Cons n ns)
  show ?case
  proof (cases "wk_stopped w")
    case False
    show ?thesis
    proof (rule run_segments_Cons [OF Cons.prems(1) False])
      fix w1 assume "check_succession opts expected n prev_final w = Ok (w1, None)" "w1 = w'"
      then show "clean w" using guardsD(1) [OF guards_succession] Cons.prems(2) by blast
    next
      fix w1 pf w2 prev assume s: "check_succession opts expected n prev_final w = Ok (w1, Some pf)"
        and "walk_segment c ev opts d n pf (ns = []) (inspect n w1) = Ok (w2, prev)"
        "run_segments c ev opts d ns (saturating_succ n) prev w2 = Ok w'"
      then have "clean w1" using Cons.IH Cons.prems(2) segment_keepsD by blast
      then show "clean w" using guardsD(1) [OF guards_succession s] by blast
    qed
  qed (use Cons.prems in simp)
qed (auto split: if_splits)

text \<open>One segment of the loop.\<close>

lemma run_step:
  assumes "run_segments c ev opts d (n # ns) expected (Some prev) w = Ok w'" "clean w'"
    and "\<not> wk_stopped w" "vo_attested opts = None" "expected = 0 \<longrightarrow> prev = replicate 32 0"
    and "expected \<noteq> 0 \<longrightarrow> wk_seg0 w = Some h1 \<and> wk_signer_ok w = ev_has_pins ev"
  shows "\<exists>h0 recs final w2. n = expected \<and> segment_post c ev d h0 n prev w recs final w2 \<and>
    (n \<noteq> 0 \<longrightarrow> h0 = h1 \<and> wk_last_segment_had_records w) \<and>
    (n = 0 \<longrightarrow> (\<forall>i. vo_expect_log_id opts = Some i \<longrightarrow> sh_log_id h0 = i)) \<and>
    run_segments c ev opts d ns (saturating_succ n) (Some final) w2 = Ok w'"
proof (rule run_segments_Cons [OF assms(1,3)])
  fix w1 assume s: "check_succession opts expected n (Some prev) w = Ok (w1, None)" and "w1 = w'"
  then have "clean w1" using assms(2) by simp
  from guardsD(3) [OF guards_succession s this] show ?thesis by simp
next
  fix w1 pf w2 final assume s: "check_succession opts expected n (Some prev) w = Ok (w1, Some pf)"
    and seg1: "walk_segment c ev opts d n pf (ns = []) (inspect n w1) = Ok (w2, final)"
    and rest: "run_segments c ev opts d ns (saturating_succ n) final w2 = Ok w'"
  have cl2: "clean w2" using run_keeps [OF rest assms(2)] .
  then have "clean w1" using segment_keepsD [OF seg1] by blast
  note g = guardsD [OF guards_succession s this]
  then have w1: "w1 = w" "n = expected" "n \<noteq> 0 \<longrightarrow> wk_last_segment_had_records w" and pf: "pf = Some prev" by auto
  have u: "wk_stopped (inspect n w) = wk_stopped w" "wk_seg0 (inspect n w) = wk_seg0 w"
    "wk_signer_ok (inspect n w) = wk_signer_ok w" "wk_sealed_at (inspect n w) = wk_sealed_at w"
    "wk_trusted_sig (inspect n w) = wk_trusted_sig w" "obs (inspect n w) = obs w"
    by (simp_all add: inspect_def) (simp_all add: upd_log_def upd_report_def)
  have seg: "walk_segment c ev opts d n (Some prev) (ns = []) (inspect n w) = Ok (w2, final)"
    using seg1 w1(1) pf by simp
  have "\<exists>h0 recs f. final = Some f \<and> segment_post c ev d h0 n prev (inspect n w) recs f w2 \<and>
      (n \<noteq> 0 \<longrightarrow> h0 = h1) \<and> (n = 0 \<longrightarrow> (\<forall>i. vo_expect_log_id opts = Some i \<longrightarrow> sh_log_id h0 = i))"
    using assms(3-6) w1(2) u by (intro segment_clean [OF seg cl2]) auto
  then obtain h0 recs f where h0: "final = Some f" "segment_post c ev d h0 n prev (inspect n w) recs f w2"
    "n \<noteq> 0 \<longrightarrow> h0 = h1" "n = 0 \<longrightarrow> (\<forall>i. vo_expect_log_id opts = Some i \<longrightarrow> sh_log_id h0 = i)"
    by blast
  have "segment_post c ev d h0 n prev w recs f w2"
    using h0(2) unfolding segment_post_def u .
  moreover have "run_segments c ev opts d ns (saturating_succ n) (Some f) w2 = Ok w'"
    using rest h0(1) by (simp only:)
  ultimately show ?thesis using w1(2,3) h0(3,4)
    by (intro exI [of _ h0] exI [of _ recs] exI [of _ f] exI [of _ w2] conjI) simp_all
qed

lemma run_rest:
  assumes "run_segments c ev opts d ns expected (Some prev) w = Ok w'" "clean w'"
    and "\<not> wk_stopped w" "vo_attested opts = None" "expected \<noteq> 0"
    and "wk_seg0 w = Some h0" "wk_signer_ok w = ev_has_pins ev"
  shows "\<exists>recss. segments_of c ev d h0 expected prev ns recss \<and>
    sealed_by (wk_sealed_at w \<noteq> None) (concat recss) (wk_sealed_at w' \<noteq> None) \<and>
    (ns \<noteq> [] \<longrightarrow> wk_last_segment_had_records w) \<and> (wk_trusted_sig w' \<longrightarrow> wk_trusted_sig w \<or> ev_has_pins ev \<and> concat recss \<noteq> []) \<and>
    wk_seg0 w' = Some h0 \<and> visit_log c ns recss (obs w) (obs w')"
  using assms
proof (induction ns arbitrary: expected prev w)
  case Nil
  then show ?case by (intro exI [of _ "[]"]) (auto simp: sealed_by_def intro: no_segment split: if_splits)
next
  case (Cons n ns)
  from run_step [OF Cons.prems(1-4), of h0] obtain recs final w2 where n: "n = expected" "wk_last_segment_had_records w"
    and p: "segment_post c ev d h0 n prev w recs final w2"
    and r: "run_segments c ev opts d ns (saturating_succ n) (Some final) w2 = Ok w'"
    using Cons.prems(5-7) by auto
  have w2: "\<not> wk_stopped w2" "wk_seg0 w2 = Some h0" "wk_signer_ok w2 = ev_has_pins ev"
    using p by (auto simp: segment_post_def)
  from Cons.IH [OF r Cons.prems(2) w2(1) Cons.prems(4) saturating_succ_pos w2(2,3)]
  obtain recss where rs: "segments_of c ev d h0 (saturating_succ n) final ns recss"
    "sealed_by (wk_sealed_at w2 \<noteq> None) (concat recss) (wk_sealed_at w' \<noteq> None)"
    "ns \<noteq> [] \<longrightarrow> wk_last_segment_had_records w2" "wk_trusted_sig w' \<longrightarrow> wk_trusted_sig w2 \<or> ev_has_pins ev \<and> concat recss \<noteq> []"
    "wk_seg0 w' = Some h0" "visit_log c ns recss (obs w2) (obs w')"
    by blast
  have "visit_log c (n # ns) (recs # recss) (obs w) (obs w')"
    using p rs(6) by (auto simp: segment_post_def)
  moreover have "segments_of c ev d h0 n prev (n # ns) (recs # recss)"
    using p rs(1,3) by (auto simp: segment_post_def intro: next_segment)
  moreover have "sealed_by (wk_sealed_at w \<noteq> None) (concat (recs # recss)) (wk_sealed_at w' \<noteq> None)"
    using p rs(2) by (auto simp: segment_post_def intro: sealed_by_append)
  ultimately show ?case using n rs p by (intro exI [of _ "recs # recss"]) (auto simp: segment_post_def)
qed

section \<open>The checks after the walk\<close>

text \<open>What comes before and after the walk touches only the report.\<close>

definition only_adds :: "walk \<Rightarrow> walk \<Rightarrow> bool" where
  "only_adds w w' \<longleftrightarrow> (clean w' \<longrightarrow> clean w) \<and> wk_seg0 w' = wk_seg0 w \<and> wk_trusted_sig w' = wk_trusted_sig w \<and>
     wk_stopped w' = wk_stopped w \<and> wk_sealed_at w' = wk_sealed_at w \<and> obs w' = obs w"

lemma only_adds_refl [simp]: "only_adds w w"
  by (simp add: only_adds_def)

lemma only_adds_trans: "only_adds w w1 \<Longrightarrow> only_adds w1 w' \<Longrightarrow> only_adds w w'"
  by (auto simp: only_adds_def)

lemma only_adds_steps [simp]:
  "only_adds w (violation_nostop f w)" "only_adds w (warn k i w)"
  by (simp_all add: only_adds_def) (simp_all add: violation_nostop_def warn_def upd_report_def)

lemma only_adds_fold: "(\<And>x w. only_adds w (f x w)) \<Longrightarrow> only_adds w (fold f xs w)"
proof (induction xs arbitrary: w)
  case (Cons x xs)
  then show ?case using only_adds_trans by fastforce
qed simp

lemma only_adds_position: "only_adds w (fst (position_check lh t w))"
  by (auto simp: position_check_def split: option.splits)

lemma only_adds_statement_heads: "only_adds w (check_statement_heads ev w)"
  unfolding check_statement_heads_def
  by (auto simp: check_statement_head_def Let_def intro!: only_adds_fold)

lemma only_adds_attested: "only_adds w (check_attested opts w)"
proof (cases "\<exists>a h. vo_attested opts = Some a \<and> wk_seg0 w = Some h")
  case True
  then obtain a h where ah: "vo_attested opts = Some a" "wk_seg0 w = Some h" by blast
  obtain w1 ok where p: "position_check (cv_head a) None w = (w1, ok)" by fastforce
  then have "only_adds w w1" using only_adds_position by (metis fst_conv)
  then have "only_adds w (if ok then w1\<lparr>wk_attested_anchor := Some (cv_head a)\<rparr> else w1)"
    by (auto simp: only_adds_def clean_def)
  then show ?thesis by (simp add: check_attested_def ah p)
qed (auto simp: check_attested_def split: option.splits)

lemma only_adds_checkpoint:
  assumes "check_checkpoint c ev h pc (w, a) = Ok (w', a')"
  shows "only_adds w w'"
proof -
  have add: "only_adds w (upd_report (\<lambda>r. r\<lparr>sr_checkpoints := sr_checkpoints r @ [i]\<rparr>) v)" if "only_adds w v" for v i
    using that by (simp add: only_adds_def) (simp add: clean_def upd_report_def)
  show ?thesis
    using assms only_adds_position [of w "cv_head (fst pc)" "cv_observed_at (fst pc)"]
    by (auto simp: check_checkpoint_def Let_def result_elims case_prod_unfold intro!: add split: if_splits)
qed

lemma only_adds_checkpoint_fold:
  "fold_res (check_checkpoint c ev h) pcs (w, b) = Ok (w', a) \<Longrightarrow> only_adds w w'"
proof (induction pcs arbitrary: w b)
  case (Cons pc pcs)
  then obtain w1 b1 where "check_checkpoint c ev h pc (w, b) = Ok (w1, b1)"
    "fold_res (check_checkpoint c ev h) pcs (w1, b1) = Ok (w', a)"
    by (auto simp: bind_res_Ok_iff)
  then show ?case using Cons.IH only_adds_checkpoint only_adds_trans by blast
qed simp

lemma only_adds_checkpoints:
  "check_checkpoints c ev checkpoints w = Ok (w', a) \<Longrightarrow> only_adds w w'"
  using only_adds_checkpoint_fold by (auto simp: check_checkpoints_def split: option.splits)

text \<open>At the start nothing has been seen.\<close>

definition unseen :: "obs \<Rightarrow> bool" where
  "unseen o1 \<longleftrightarrow> fst o1 = 0 \<and> (\<forall>pos x. bt_get (fst (snd o1)) pos \<noteq> Some (Some x)) \<and>
     snd (snd o1) = (None, None, None)"

lemma unseen_heads:
  assumes "\<forall>pos x. bt_get m pos \<noteq> Some (Some x)"
  shows "bt_get (fold (\<lambda>lh. bt_insert (pos_of lh) None) heads m) pos \<noteq> Some (Some x)"
  using assms by (induction heads arbitrary: m) (auto simp: bt_get_insert_any, metis surj_pair)

lemma start_walk_state:
  assumes "w = start_walk log_dir ev opts segs cps"
  shows "\<not> wk_stopped w" "\<not> wk_trusted_sig w" "wk_sealed_at w = None" "unseen (obs w)"
proof -
  define w1 where "w1 = fold (warn ''NearMissSegmentName'') (snd segs)
    (upd_log (\<lambda>l. l\<lparr>sl_first_segment_index := Some (hd (fst segs))\<rparr>) (walk_new log_dir))"
  define m where "m = fold (\<lambda>lh. bt_insert (pos_of lh) None)
    (map cv_head cps @ (case vo_attested opts of None \<Rightarrow> [] | Some a \<Rightarrow> [cv_head a])) (wk_interesting w1)"
  have "only_adds (upd_log (\<lambda>l. l\<lparr>sl_first_segment_index := Some (hd (fst segs))\<rparr>) (walk_new log_dir)) w1"
    unfolding w1_def by (rule only_adds_fold) simp
  then have w1: "\<not> wk_stopped w1" "\<not> wk_trusted_sig w1" "wk_sealed_at w1 = None" "obs w1 = (0, [], None, None, None)"
    by (simp_all add: only_adds_def)
      (simp_all add: obs_def walk_new_def upd_log_def upd_report_def empty_report_def empty_summary_def)
  have "only_adds (w1\<lparr>wk_interesting := m\<rparr>) w"
    unfolding assms start_walk_def Let_def case_prod_unfold w1_def [symmetric] m_def [symmetric]
    by (intro only_adds_trans [OF only_adds_fold only_adds_fold]) simp_all
  moreover have "obs (w1\<lparr>wk_interesting := m\<rparr>) = (0, m, None, None, None)" "wk_interesting w1 = []"
    using w1(4) by (simp_all add: obs_def)
  moreover have "bt_get m pos \<noteq> Some (Some x)" for pos x
    unfolding m_def \<open>wk_interesting w1 = []\<close> by (rule unseen_heads) simp
  ultimately show "\<not> wk_stopped w" "\<not> wk_trusted_sig w" "wk_sealed_at w = None" "unseen (obs w)"
    using w1(1-3) by (simp_all add: only_adds_def unseen_def)
qed

lemma finish_Verified:
  assumes "sr_verdict (finish_walk a w) = Verified"
  shows "clean w" "wk_trusted_sig w"
  using assms by (auto simp: finish_walk_def Let_def clean_def split: if_splits)

abbreviation parse_checkpoints ::
  "supplied_checkpoint list \<Rightarrow> ((checkpoint_v2 \<times> supplied_checkpoint) list, signed_verify_error) result" where
  "parse_checkpoints \<equiv> map_res (\<lambda>s. bind_res (map_err (\<lambda>_. CheckpointUnusable ''CheckpointFormat'')
     (checkpoint_v2_parse (sp_bytes s))) (\<lambda>cp. Ok (cp, s)))"

text \<open>A report without violations: the segments are the whole listing, in order from segment 0.\<close>

lemma verify_log_clean:
  assumes r: "verify_signed_log c log_dir d ev opts = Ok r" and v: "sr_verdict r = Verified"
    and att: "vo_attested opts = None"
  shows "\<exists>h0 recss. segments_of c ev d h0 0 (replicate 32 0) (fst (list_segments d)) recss \<and> ev_has_pins ev \<and>
    fst (list_segments d) \<noteq> [] \<and> concat recss \<noteq> [] \<and>
    (\<forall>r \<in> set (butlast (concat recss)). en_event (snd r) \<noteq> EVENT_SEALED) \<and>
    (\<forall>i. vo_expect_log_id opts = Some i \<longrightarrow> sh_log_id h0 = i) \<and>
    (\<exists>o1 cps w w2 a. unseen o1 \<and> visit_log c (fst (list_segments d)) recss o1 (obs w) \<and>
       wk_seg0 w = Some h0 \<and> clean w2 \<and>
       parse_checkpoints (vo_checkpoints opts) = Ok cps \<and> check_checkpoints c ev cps w = Ok (w2, a) \<and>
       sl_final_record_hash (sr_log r) = sl_final_record_hash (sr_log (wk_report w)) \<and>
       sl_head (sr_log r) = sl_head (sr_log (wk_report w)))"
proof -
  let ?segs = "fst (list_segments d)"
  from r obtain cps w w2 anchored where ne: "?segs \<noteq> []"
    and run: "run_segments c ev opts d ?segs 0 (Some (replicate 32 0))
      (start_walk log_dir ev opts (list_segments d) (map fst cps)) = Ok w"
    and cp: "check_checkpoints c ev cps w = Ok (w2, anchored)"
    and parsed: "parse_checkpoints (vo_checkpoints opts) = Ok cps"
    and fin: "r = finish_walk anchored (check_attested opts (check_statement_heads ev w2))"
    by (auto simp: verify_signed_log_def Let_def bind_res_Ok_iff split: if_splits)
  have "clean (check_attested opts (check_statement_heads ev w2))"
    "wk_trusted_sig (check_attested opts (check_statement_heads ev w2))"
    using finish_Verified v unfolding fin by blast+
  moreover have rest2: "only_adds w2 (check_attested opts (check_statement_heads ev w2))"
    using only_adds_statement_heads only_adds_attested only_adds_trans by metis
  ultimately have w2: "clean w2" "wk_trusted_sig w2" by (auto simp: only_adds_def)
  then have w: "clean w" "wk_trusted_sig w" and o2: "obs w2 = obs w"
    using only_adds_checkpoints [OF cp] by (auto simp: only_adds_def)
  have r_seen: "sl_final_record_hash (sr_log r) = sl_final_record_hash (sr_log (wk_report w))"
    "sl_head (sr_log r) = sl_head (sr_log (wk_report w))"
    using rest2 o2 unfolding fin by (auto simp: finish_walk_def Let_def only_adds_def obs_def)
  let ?w0 = "start_walk log_dir ev opts (list_segments d) (map fst cps)"
  note w0 = start_walk_state [of ?w0, OF refl]
  obtain n ns where segs: "?segs = n # ns" using ne by (cases ?segs) auto
  from run_step [OF run [unfolded segs] w(1) w0(1) att, of undefined]
  obtain h0 recs final w1 where n: "n = 0" and p: "segment_post c ev d h0 0 (replicate 32 0) ?w0 recs final w1"
    and i: "\<forall>i. vo_expect_log_id opts = Some i \<longrightarrow> sh_log_id h0 = i"
    and rest: "run_segments c ev opts d ns (saturating_succ 0) (Some final) w1 = Ok w"
    by auto
  have w1: "\<not> wk_stopped w1" "wk_seg0 w1 = Some h0" "wk_signer_ok w1 = ev_has_pins ev"
    using p by (auto simp: segment_post_def)
  from run_rest [OF rest w(1) w1(1) att saturating_succ_pos w1(2,3)] obtain recss where
    rs: "segments_of c ev d h0 (saturating_succ 0) final ns recss"
      "sealed_by (wk_sealed_at w1 \<noteq> None) (concat recss) (wk_sealed_at w \<noteq> None)"
      "ns \<noteq> [] \<longrightarrow> wk_last_segment_had_records w1" "wk_trusted_sig w \<longrightarrow> wk_trusted_sig w1 \<or> ev_has_pins ev \<and> concat recss \<noteq> []"
      "wk_seg0 w = Some h0" "visit_log c ns recss (obs w1) (obs w)"
    by blast
  have "segments_of c ev d h0 0 (replicate 32 0) ?segs (recs # recss)"
    unfolding segs n using p rs(1,3) by (auto simp: segment_post_def intro: next_segment)
  moreover have "sealed_by False (concat (recs # recss)) (wk_sealed_at w \<noteq> None)"
    using p rs(2) w0(3) by (auto simp: segment_post_def intro: sealed_by_append)
  moreover have "ev_has_pins ev" "concat (recs # recss) \<noteq> []" using p rs(4) w(2) w0(2) by (auto simp: segment_post_def)
  moreover have "visit_log c ?segs (recs # recss) (obs ?w0) (obs w)"
    unfolding segs using p n rs(6) by (auto simp: segment_post_def)
  ultimately show ?thesis using ne i w0(4) rs(5) w2(1) parsed cp r_seen unfolding sealed_by_def by blast
qed

end
