(* ===== verification/Signed_Chain.thy ===== *)
theory Signed_Chain
  imports Signed_Verify_Sound
begin

text \<open>
  The hash chain of a signed log. What is hashed are the headers of the segments that hold records and
  the envelopes of the records, in the order of the log; each of them names the hash of the one before
  it. Two chains that end in the same hash are equal, or they hold a collision.
\<close>

section \<open>Chains of messages\<close>

fun linked_from :: "('m \<Rightarrow> 'h) \<Rightarrow> ('m \<Rightarrow> 'h) \<Rightarrow> 'h \<Rightarrow> 'm list \<Rightarrow> bool" where
  "linked_from hash prior h [] \<longleftrightarrow> True"
| "linked_from hash prior h (m # ms) \<longleftrightarrow> prior m = h \<and> linked_from hash prior (hash m) ms"

lemma linked_from_append:
  "linked_from hash prior h (xs @ ys) \<longleftrightarrow>
     linked_from hash prior h xs \<and> linked_from hash prior (if xs = [] then h else hash (last xs)) ys"
  by (induction xs arbitrary: h) auto

definition collision :: "('m \<Rightarrow> 'h) \<Rightarrow> 'm list \<Rightarrow> 'm list \<Rightarrow> bool" where
  "collision hash xs ys \<longleftrightarrow> (\<exists>p \<in> set xs. \<exists>q \<in> set ys. p \<noteq> q \<and> hash p = hash q)"

text \<open>Only the first message of a chain is marked as a start; a chain is then known by its last hash.\<close>

lemma linked_unique:
  assumes "linked_from hash prior h xs" "linked_from hash prior h' ys"
    and "xs \<noteq> []" "ys \<noteq> []" "hash (last xs) = hash (last ys)"
    and "\<forall>i < length xs. first (xs ! i) \<longleftrightarrow> i = 0" "\<forall>i < length ys. first (ys ! i) \<longleftrightarrow> i = 0"
    and "\<not> collision hash xs ys"
  shows "xs = ys"
  using assms
proof (induction xs arbitrary: ys rule: rev_induct)
  case (snoc m xs)
  obtain m' zs where ys: "ys = zs @ [m']" using snoc.prems(4) by (cases ys rule: rev_cases) auto
  have m: "m' = m" using snoc.prems(5,8) by (auto simp: ys collision_def)
  have marks: "first m \<longleftrightarrow> xs = []" "first m \<longleftrightarrow> zs = []"
    using snoc.prems(6) [rule_format, of "length xs"] snoc.prems(7) [rule_format, of "length zs"]
    by (simp_all add: ys m)
  show ?case
  proof (cases "xs = []")
    case True
    then show ?thesis using marks m ys by simp
  next
    case False
    then have zs: "zs \<noteq> []" using marks by simp
    have "\<forall>i < length xs. first (xs ! i) \<longleftrightarrow> i = 0" "\<forall>i < length zs. first (zs ! i) \<longleftrightarrow> i = 0"
      using snoc.prems(6,7) unfolding ys by (metis length_append less_add_eq_less nth_append trans_less_add1)+
    moreover have "hash (last xs) = hash (last zs)"
      using snoc.prems(1,2) False zs by (simp add: ys m linked_from_append)
    moreover have "\<not> collision hash xs zs" using snoc.prems(8) by (auto simp: ys collision_def)
    ultimately have "xs = zs"
      using snoc.prems(1,2) False zs by (intro snoc.IH) (simp_all add: ys linked_from_append)
    then show ?thesis using ys m by simp
  qed
qed simp

section \<open>The messages of a signed log\<close>

text \<open>The frames of a segment file up to the first that is no record.\<close>

function frame_records :: "bytes \<Rightarrow> nat \<Rightarrow> raw_record list" where
  "frame_records content offset =
     (case read_frame content offset of
        FrameRecord raw \<Rightarrow> raw # frame_records content (offset + raw_total_len raw)
      | _ \<Rightarrow> [])"
  by pat_completeness auto
termination
  by (relation "measure (\<lambda>(content, offset). length content - offset)") (auto dest: read_frame_progress)

declare frame_records.simps [simp del]

definition header_message :: "bytes \<Rightarrow> bytes" where
  "header_message content = TAG_HEADER @ [0] @ take HEADER_HASHED_LEN content"

definition record_message :: "raw_record \<Rightarrow> bytes" where
  "record_message raw = TAG_RECORD @ [0] @ raw_envelope raw"

definition segment_messages :: "node_dir \<Rightarrow> u16 \<Rightarrow> bytes list" where
  "segment_messages d n =
     (case regular_file d n of
        None \<Rightarrow> []
      | Some content \<Rightarrow>
          (case frame_records content HEADER_LEN of
             [] \<Rightarrow> []
           | raws \<Rightarrow> header_message content # map record_message raws))"

definition log_messages :: "node_dir \<Rightarrow> bytes list" where
  "log_messages d = concat (map (segment_messages d) (fst (list_segments d)))"

text \<open>What a message says of the one before it, and whether it is the header of segment 0.\<close>

definition is_header :: "bytes \<Rightarrow> bool" where
  "is_header m \<longleftrightarrow> take 26 m = TAG_HEADER @ [0]"

definition prior_hash :: "bytes \<Rightarrow> bytes" where
  "prior_hash m =
     (if is_header m then sh_prev_final (from_bytes_unchecked (drop 26 m))
      else (case envelope_decode (drop 26 m) of Ok env \<Rightarrow> en_prev_hash env | _ \<Rightarrow> []))"

definition is_first :: "bytes \<Rightarrow> bool" where
  "is_first m \<longleftrightarrow> is_header m \<and> sh_segment_index (from_bytes_unchecked (drop 26 m)) = 0"

lemma length_tags: "length TAG_HEADER = 25" "length TAG_RECORD = 25" "TAG_HEADER \<noteq> TAG_RECORD"
  by (simp_all add: TAG_HEADER_def TAG_RECORD_def ascii_def)

lemma message_parts [simp]:
  "is_header (header_message content)" "\<not> is_header (record_message raw)"
  "drop 26 (header_message content) = take HEADER_HASHED_LEN content"
  "drop 26 (record_message raw) = raw_envelope raw"
  using length_tags by (simp_all add: is_header_def header_message_def record_message_def)

lemma message_hash:
  "sha256 c (header_message content) = chain_start c content"
  "sha256 c (record_message raw) = record_hash c (raw_envelope raw)"
  by (simp_all add: header_message_def record_message_def chain_start_def record_hash_def th_def)

lemma header_message_fields:
  assumes "header_ok c h0 n prev content h"
  shows "prior_hash (header_message content) = prev" "is_first (header_message content) \<longleftrightarrow> n = 0"
proof -
  have "slice (take HEADER_HASHED_LEN content) 60 32 = slice (take HEADER_LEN content) 60 32"
    by (simp add: slice_def drop_take HEADER_LEN_def HEADER_HASHED_LEN_def min_def)
  moreover have "u16_at (take HEADER_HASHED_LEN content) 6 = u16_at (take HEADER_LEN content) 6"
    by (simp add: u16_at_take HEADER_LEN_def HEADER_HASHED_LEN_def)
  moreover have "h = from_bytes_unchecked (take HEADER_LEN content)" "sh_segment_index h = n" "sh_prev_final h = prev"
    using assms unfolding header_ok_def by blast+
  ultimately show "prior_hash (header_message content) = prev" "is_first (header_message content) \<longleftrightarrow> n = 0"
    by (auto simp: prior_hash_def is_first_def from_bytes_unchecked_def)
qed

lemma record_message_fields:
  assumes "record_ok c h n p prev raw env"
  shows "prior_hash (record_message raw) = prev" "\<not> is_first (record_message raw)"
  using assms by (simp_all add: prior_hash_def is_first_def record_ok_def in_chain_def)

lemma chain_messages:
  assumes "chain_of c h n content offset p prev recs final"
  shows "frame_records content offset = map fst recs \<and>
    linked_from (sha256 c) prior_hash prev (map (\<lambda>r. record_message (fst r)) recs) \<and>
    final = (if recs = [] then prev else sha256 c (record_message (fst (last recs)))) \<and>
    (\<forall>m \<in> set (map (\<lambda>r. record_message (fst r)) recs). \<not> is_first m)"
  using assms
proof induction
  case (chain_end offset p prev)
  then show ?case by (subst frame_records.simps) simp
next
  case (chain_step offset raw p prev env rest final)
  then show ?case
    by (subst frame_records.simps) (auto simp: message_hash record_message_fields)
qed

lemma segment_messages_ok:
  assumes "regular_file d n = Some content" "header_ok c h0 n prev content h"
    and "chain_of c h n content HEADER_LEN 0 (chain_start c content) recs final"
  shows "segment_messages d n = (if recs = [] then [] else header_message content # map (\<lambda>r. record_message (fst r)) recs)"
    and "linked_from (sha256 c) prior_hash prev (segment_messages d n)"
    and "recs \<noteq> [] \<Longrightarrow> final = sha256 c (last (segment_messages d n))"
    and "i < length (segment_messages d n) \<Longrightarrow> is_first (segment_messages d n ! i) \<longleftrightarrow> n = 0 \<and> i = 0"
proof -
  note ch = chain_messages [OF assms(3)]
  show m: "segment_messages d n = (if recs = [] then [] else header_message content # map (\<lambda>r. record_message (fst r)) recs)"
    using ch assms(1) by (cases recs) (simp_all add: segment_messages_def)
  show "linked_from (sha256 c) prior_hash prev (segment_messages d n)"
    using ch header_message_fields [OF assms(2)] by (simp add: m message_hash)
  show "recs \<noteq> [] \<Longrightarrow> final = sha256 c (last (segment_messages d n))"
    using ch by (simp add: m last_map)
  show "i < length (segment_messages d n) \<Longrightarrow> is_first (segment_messages d n ! i) \<longleftrightarrow> n = 0 \<and> i = 0"
    using ch header_message_fields [OF assms(2)] by (cases i) (auto simp: m)
qed

text \<open>The segments from an index on are one chain; the header of segment 0 is its only start.\<close>

lemma segments_linked:
  assumes "segments_of c ev d h0 n prev ns recss"
  shows "linked_from (sha256 c) prior_hash prev (concat (map (segment_messages d) ns))"
    and "\<forall>i < length (concat (map (segment_messages d) ns)).
      is_first (concat (map (segment_messages d) ns) ! i) \<longleftrightarrow> n = 0 \<and> i = 0"
    and "concat recss \<noteq> [] \<Longrightarrow>
      last (concat (map (segment_messages d) ns)) = record_message (fst (last (concat recss)))"
    and "concat (map (segment_messages d) ns) = [] \<longleftrightarrow> concat recss = []"
  using assms
proof (induction)
  case (next_segment n content prev h recs final ns rest)
  note s = segment_messages_ok [OF next_segment.hyps(1-3)]
  { case 1
    show ?case
    proof (cases "recs = []")
      case True
      then have "ns = []" using next_segment.hyps(5) by simp
      then show ?thesis using s(2) by simp
    next
      case False
      then have "segment_messages d n \<noteq> []" using s(1) by simp
      then show ?thesis using s(2,3) False next_segment.IH(1) by (simp add: linked_from_append)
    qed
  next
    case 2
    show ?case
    proof (intro allI impI)
      fix i assume i: "i < length (concat (map (segment_messages d) (n # ns)))"
      show "is_first (concat (map (segment_messages d) (n # ns)) ! i) \<longleftrightarrow> n = 0 \<and> i = 0"
      proof (cases "i < length (segment_messages d n)")
        case True
        then show ?thesis using s(4) by (simp add: nth_append)
      next
        case False
        moreover have "recs \<noteq> []" using False i next_segment.hyps(5) s(1) by auto
        ultimately show ?thesis
          using next_segment.IH(2) [rule_format, of "i - length (segment_messages d n)"] i saturating_succ_pos [of n] s(1)
          by (auto simp: nth_append)
      qed
    qed
  next
    case 3
    show ?case
    proof (cases "concat rest = []")
      case True
      then have "concat (map (segment_messages d) ns) = []" "recs \<noteq> []" using next_segment.IH(4) 3 by simp_all
      then show ?thesis using s(1) True by (simp add: last_map)
    next
      case False
      then have "concat (map (segment_messages d) ns) \<noteq> []" using next_segment.IH(4) by simp
      then show ?thesis using next_segment.IH(3) [OF False] False by simp
    qed
  next
    case 4
    show ?case using s(1) next_segment.IH(4) by simp
  }
qed simp_all

end
