(* ===== verification/Trust_Properties.thy ===== *)
theory Trust_Properties
  imports Trust_Eval Signed_Example "HOL-Library.Multiset"
begin

text \<open>
  What \<^verbatim>\<open>TrustContext::evaluate\<close> and \<^verbatim>\<open>Evaluated::accept\<close> guarantee, and the one way in which the
  result depends on the order of the inputs. The code identifies a statement with its SHA-256; the
  hypotheses \<open>transitions_identified\<close> and \<open>revocations_identified\<close> state that no collision is among
  the inputs (one statement may be loaded from several files).
\<close>

lemma accept_Ok:
  assumes "accept ev k ns obj = Ok e"
  shows "e \<in> set (entries_of ev k)" and "scope_contains (te_scope e) ns"
    and "bt_get (ev_retired ev) k = Some r \<Longrightarrow> retired_allows r obj = Ok True"
    and "bt_get (ev_revoked ev) k = Some cp \<Longrightarrow> cut_allows cp obj = Ok True"
  using assms
  by (auto simp: accept_def Let_def result_elims find_Some_iff split: option.splits if_splits)

definition follows_path ::
  "('p, 's) crypto \<Rightarrow> key_transition list \<Rightarrow> (key_transition \<Rightarrow> bool) \<Rightarrow> fingerprint list \<Rightarrow> bool" where
  "follows_path c ts follow path \<longleftrightarrow>
     list_all (\<lambda>(a, b). list_ex (\<lambda>t. tr_old_key_id t = a \<and> fingerprint_of c (tr_new_key t) = b \<and> follow t) ts)
       (zip path (tl path))"

lemma follow_of_source: "follow_of c ctx ev (t\<lparr>tr_source := s\<rparr>) = follow_of c ctx ev t"
  by (simp add: follow_of_def may_follow_def split: option.split)

lemma follows_path_snoc:
  "xs \<noteq> [] \<Longrightarrow> follows_path c ts follow (xs @ [y]) \<longleftrightarrow> follows_path c ts follow xs \<and>
     list_ex (\<lambda>t. tr_old_key_id t = last xs \<and> fingerprint_of c (tr_new_key t) = y \<and> follow t) ts"
proof (induction xs)
  case (Cons x xs)
  then show ?case by (cases xs) (auto simp: follows_path_def)
qed simp

lemma trusted_via_path:
  "trusted_via c pins ts follow k e \<Longrightarrow>
   (\<exists>p \<in> set pins. hd (te_trust_path e) = pin_key_id p \<and> te_principal e = pin_principal p \<and>
      te_scope e = pin_scope p) \<and>
   te_trust_path e \<noteq> [] \<and> last (te_trust_path e) = k \<and> follows_path c ts follow (te_trust_path e) \<and>
   (2 \<le> length (te_trust_path e) \<longrightarrow> scope_contains (te_scope e) NS_TRANSITION)"
proof (induction rule: trusted_via.induct)
  case (via_pin p)
  then show ?case by (auto simp: pin_entry_def follows_path_def)
next
  case (via_transition t e)
  then show ?case
    by (auto simp: successor_entry_def follows_path_snoc list_ex_iff)
qed

section \<open>A concrete trust context\<close>

definition ex_trust_key :: "u8 \<Rightarrow> public_key" where "ex_trust_key b = ed25519_key (replicate 32 b)"
definition ex_key_id :: "u8 \<Rightarrow> fingerprint" where "ex_key_id b = fingerprint_of ex_crypto (ex_trust_key b)"

definition ex_head :: log_head where
  "ex_head = \<lparr>hd_log_id = replicate 16 1, hd_segment = 0, hd_record_id = 4, hd_record_count = 5,
     hd_record_hash = replicate 32 9\<rparr>"

definition ex_transition :: key_transition where
  "ex_transition = \<lparr>tr_sha256 = replicate 32 3, tr_old_key_id = ex_key_id 7, tr_old_key = ex_trust_key 7,
     tr_new_key = ex_trust_key 8, tr_final_heads = [ex_head], tr_final_releases = [],
     tr_issued_at = ascii ''2026-01-01T00:00:00Z'', tr_source = Operator (ascii ''t'')\<rparr>"

definition ex_revocation :: "u8 \<Rightarrow> key_revocation" where
  "ex_revocation revoker = \<lparr>rv_sha256 = replicate 32 revoker, rv_revoked = ex_key_id 7, rv_revoker = ex_key_id revoker,
     rv_trusted_heads = [ex_head], rv_trusted_releases = [], rv_trusted_successors = [ex_key_id 8],
     rv_issued_at = ascii ''2026-02-01T00:00:00Z'', rv_source = Operator (ascii ''r'')\<rparr>"

definition ex_pin :: "u8 \<Rightarrow> scope \<Rightarrow> trust_pin" where
  "ex_pin b s = \<lparr>pin_key_id = ex_key_id b, pin_key = Some (ex_trust_key b), pin_principal = ascii ''alice'',
     pin_auto_principal = False, pin_scope = s\<rparr>"

definition ex_context :: "trust_pin list \<Rightarrow> key_revocation list \<Rightarrow> trust_context" where
  "ex_context pins rs = \<lparr>tc_pins = pins, tc_transitions = [ex_transition], tc_revocations = rs,
     tc_warnings = [], tc_statements_seen = 0\<rparr>"

definition ex_accept ::
  "trust_pin list \<Rightarrow> key_revocation list \<Rightarrow> fingerprint \<Rightarrow> bytes \<Rightarrow> trust_object \<Rightarrow> bool" where
  "ex_accept pins rs k ns obj =
     (case evaluate ex_crypto (ex_context pins rs) of
        Ok ev \<Rightarrow> (case accept ev k ns obj of Ok _ \<Rightarrow> True | _ \<Rightarrow> False) | _ \<Rightarrow> False)"

lemma ex_key_id [simp]: "ex_key_id b = replicate 32 b"
  by (simp add: ex_key_id_def ex_trust_key_def fingerprint_of_def ed25519_key_def key_blob_def put_string_def
      ex_hash_def Let_def)

lemma ex_fingerprint [simp]: "fingerprint_of ex_crypto (ex_trust_key b) = replicate 32 b"
  unfolding ex_key_id_def [symmetric] by simp

lemma ex_id_less [simp]: "replicate 32 a < (replicate 32 b :: bytes) \<longleftrightarrow> a < b"
  by (auto simp: numeral_eq_Suc)

lemma default_scopes [simp]:
  "scope_contains SCOPE_DEFAULT NS_RECORD" "scope_contains SCOPE_DEFAULT NS_TRANSITION"
  "scope_contains SCOPE_DEFAULT NS_REVOCATION"
  by code_simp+

lemma revocation_scopes [simp]:
  "\<not> scope_contains SCOPE_REVOCATION_ONLY NS_RECORD" "\<not> scope_contains SCOPE_REVOCATION_ONLY NS_TRANSITION"
  "scope_contains SCOPE_REVOCATION_ONLY NS_REVOCATION"
  by code_simp+

definition SCOPE_HANDOVER :: scope where "SCOPE_HANDOVER = 0b0010000"

lemma handover_scopes [simp]:
  "\<not> scope_contains SCOPE_HANDOVER NS_RECORD" "scope_contains SCOPE_HANDOVER NS_TRANSITION"
  by code_simp+

lemmas ex_eval = base_entries_def add_base_def push_at_def get_list_def group_transitions_def
  add_transition_def ex_transition_def ex_pin_def ex_context_def ex_revocation_def pin_entry_def
  extend_entries_def extend_loop.simps extend_pass_def extend_one_def by_old_list_def add_source_def
  equivocating_def evaluate_def honour_def has_authority_def cuts_def cut_for_def retain_all_def
  earliest_issued_def may_follow_def retire_def pinned_keys_def accept_def entries_of_def
  retired_allows_def cut_allows_def heads_allow_def head_check_def covers_def pos_le_def ex_head_def
  list_ex_iff insort_insert_key_def Let_def

lemma ex_accept_iff:
  "ex_accept pins rs k ns obj \<longleftrightarrow>
   (\<exists>ev e. evaluate ex_crypto (ex_context pins rs) = Ok ev \<and> accept ev k ns obj = Ok e)"
  by (auto simp: ex_accept_def split: result.splits)

definition ex_record :: "u64 \<Rightarrow> trust_object" where
  "ex_record n = ORecord (replicate 16 1) 0 n (replicate 32 9)"

definition ex_pins :: "trust_pin list" where
  "ex_pins = [ex_pin 7 SCOPE_DEFAULT, ex_pin 9 SCOPE_REVOCATION_ONLY]"

lemma ex_accepts:
  "ex_accept [ex_pin 7 SCOPE_DEFAULT] [] (ex_key_id 8) NS_RECORD (ex_record 7)"
  "ex_accept ex_pins [ex_revocation 9] (ex_key_id 7) NS_RECORD (ex_record 3)"
  by (simp_all add: ex_accept_def ex_record_def ex_pins_def ex_eval)

lemma ex_honoured: "honoured ex_pins (principals_of ex_crypto (ex_context ex_pins rs)) (ex_revocation 9)"
  by (simp add: ex_pins_def honoured_def principals_of_def ex_eval)

lemma ex_context_simps [simp]:
  "tc_pins (ex_context pins rs) = pins" "tc_revocations (ex_context pins rs) = rs"
  "tc_transitions (ex_context pins rs) = [ex_transition]"
  by (simp_all add: ex_context_def)

section \<open>Properties\<close>

text \<open>C31. An accepted signature is one of a key that a pin leads to: the path the entry records
  starts at a pinned key with the entry's principal and scope, ends at the signer, and every step of
  it is one of the given transitions that may be followed; the namespace is in the pin's scope.\<close>

theorem accepted_signatures_are_rooted_in_pins:
  assumes "evaluate c ctx = Ok ev" and "accept ev k ns obj = Ok e"
  shows "(\<exists>p \<in> set (tc_pins ctx). hd (te_trust_path e) = pin_key_id p \<and>
      te_principal e = pin_principal p \<and> te_scope e = pin_scope p \<and> scope_contains (pin_scope p) ns) \<and>
    te_trust_path e \<noteq> [] \<and> last (te_trust_path e) = k \<and>
    follows_path c (tc_transitions ctx) (follow_of c ctx ev) (te_trust_path e)"
proof -
  have "trusted_via c (tc_pins ctx) (tc_transitions ctx) (follow_of c ctx ev) k e"
    using evaluate_Ok [OF assms(1)] extend_sound accept_Ok(1) [OF assms(2)]
    by (metis entries_of_get_list)
  from trusted_via_path [OF this] show ?thesis using accept_Ok(2) [OF assms(2)] by auto
qed

theorem accepted_signatures_are_rooted_in_pins_witness:
  "\<exists>ev e. evaluate ex_crypto (ex_context [ex_pin 7 SCOPE_DEFAULT] []) = Ok ev \<and>
     accept ev (ex_key_id 8) NS_RECORD (ex_record 7) = Ok e \<and>
     hd (te_trust_path e) = ex_key_id 7 \<and> last (te_trust_path e) = ex_key_id 8"
proof -
  obtain ev e where ev: "evaluate ex_crypto (ex_context [ex_pin 7 SCOPE_DEFAULT] []) = Ok ev"
      and e: "accept ev (ex_key_id 8) NS_RECORD (ex_record 7) = Ok e"
    using ex_accepts(1) ex_accept_iff by blast
  show ?thesis
    using accepted_signatures_are_rooted_in_pins [OF ev e] ev e
    by (auto simp: ex_pin_def)
qed

text \<open>C32. The evaluation is exact: if different transitions have different hashes and no two pins give one principal different scopes, a key is
  trusted for a principal with a scope exactly when a pin and transitions that may be followed
  derive it. The order of pins and transitions does not matter then.\<close>

theorem evaluation_derives_exactly_the_trusted_keys:
  assumes "evaluate c ctx = Ok ev" and "transitions_identified (tc_transitions ctx)"
    and "one_scope (tc_pins ctx)"
  shows "(\<exists>e \<in> set (entries_of ev k). te_principal e = p \<and> te_scope e = s) \<longleftrightarrow>
    (\<exists>e. trusted_via c (tc_pins ctx) (tc_transitions ctx) (follow_of c ctx ev) k e \<and>
       te_principal e = p \<and> te_scope e = s)"
proof -
  have ev: "ev_entries ev = extend_entries c (base_entries (tc_pins ctx))
      (group_transitions (tc_transitions ctx)) (follow_of c ctx ev)"
    using evaluate_Ok [OF assms(1)] by blast
  have "\<exists>x \<in> set (entries_of ev k). te_principal x = te_principal e \<and> te_scope x = te_scope e"
    if "trusted_via c (tc_pins ctx) (tc_transitions ctx) (follow_of c ctx ev) k e" for e
    unfolding entries_of_get_list ev by (rule extend_complete [OF assms(2,3) that follow_of_source])
  moreover have "trusted_via c (tc_pins ctx) (tc_transitions ctx) (follow_of c ctx ev) k e" if "e \<in> set (entries_of ev k)" for e
    using that unfolding entries_of_get_list ev by (rule extend_sound)
  ultimately show ?thesis by metis
qed

theorem evaluation_derives_exactly_the_trusted_keys_witness:
  "\<exists>ev. evaluate ex_crypto (ex_context [ex_pin 7 SCOPE_DEFAULT] []) = Ok ev \<and>
     (\<exists>e \<in> set (entries_of ev (ex_key_id 7)). te_principal e = ascii ''alice'' \<and> te_scope e = SCOPE_DEFAULT)"
proof -
  obtain ev where ev: "evaluate ex_crypto (ex_context [ex_pin 7 SCOPE_DEFAULT] []) = Ok ev"
    using ex_accepts(1) ex_accept_iff by blast
  have "trusted_via ex_crypto (tc_pins (ex_context [ex_pin 7 SCOPE_DEFAULT] []))
      (tc_transitions (ex_context [ex_pin 7 SCOPE_DEFAULT] []))
      (follow_of ex_crypto (ex_context [ex_pin 7 SCOPE_DEFAULT] []) ev)
      (pin_key_id (ex_pin 7 SCOPE_DEFAULT)) (pin_entry (ex_pin 7 SCOPE_DEFAULT))"
    by (rule via_pin) simp
  then show ?thesis
    using evaluation_derives_exactly_the_trusted_keys [OF ev, of "ex_key_id 7" "ascii ''alice''" SCOPE_DEFAULT] ev
    by (auto simp: ex_pin_def pin_entry_def one_scope_def transitions_identified_def)
qed

text \<open>What a revocation leaves of the revoked key.\<close>

definition left_by :: "key_revocation \<Rightarrow> trust_object \<Rightarrow> bool" where
  "left_by r obj =
     (case obj of
        ORecord log_id segment record_id record_hash \<Rightarrow>
          list_ex (\<lambda>h. hd_log_id h = log_id \<and> covers h segment record_id \<and>
            ((hd_segment h, hd_record_id h) = (segment, record_id) \<longrightarrow> hd_record_hash h = record_hash))
            (rv_trusted_heads r)
      | OCheckpoint log_id segment record_id \<Rightarrow>
          list_ex (\<lambda>h. hd_log_id h = log_id \<and> covers h segment record_id) (rv_trusted_heads r)
      | ORelease sha \<Rightarrow> sha \<in> set (rv_trusted_releases r)
      | OTransition new_key_id \<Rightarrow> new_key_id \<in> set (rv_trusted_successors r)
      | OWitness \<Rightarrow> False)"

lemma cut_allows_left_by:
  assumes "cut_allows cp obj = Ok True"
    and "set (cp_heads cp) \<subseteq> set (rv_trusted_heads r)"
    and "set (cp_releases cp) \<subseteq> set (rv_trusted_releases r)"
    and "set (cp_successors cp) \<subseteq> set (rv_trusted_successors r)"
  shows "left_by r obj"
  using assms
  by (cases obj)
    (auto simp: cut_allows_def heads_allow_def head_check_def left_by_def list_ex_iff find_Some_iff
      subset_iff split: option.splits result.splits if_splits)

lemma cut_for_subset:
  assumes "r \<in> set rs"
  shows "set (cp_heads (cut_for all_r [(k, rs)] k)) \<subseteq> set (rv_trusted_heads r)"
    and "set (cp_releases (cut_for all_r [(k, rs)] k)) \<subseteq> set (rv_trusted_releases r)"
    and "set (cp_successors (cut_for all_r [(k, rs)] k)) \<subseteq> set (rv_trusted_successors r)"
proof -
  obtain r0 rs' where rs: "rs = r0 # rs'" "r = r0 \<or> r \<in> set rs'" using assms by (cases rs) auto
  then show "set (cp_heads (cut_for all_r [(k, rs)] k)) \<subseteq> set (rv_trusted_heads r)"
    "set (cp_releases (cut_for all_r [(k, rs)] k)) \<subseteq> set (rv_trusted_releases r)"
    "set (cp_successors (cut_for all_r [(k, rs)] k)) \<subseteq> set (rv_trusted_successors r)"
    by (auto simp: cut_for_def get_list_def set_retain_all)
qed

lemma left_by_source: "left_by (r\<lparr>rv_source := s\<rparr>) obj = left_by r obj"
  by (simp add: left_by_def split: trust_object.split)

text \<open>C33. If different revocations have different hashes, then after an honoured revocation the revoked
  key is accepted only for what that revocation lists: several authority revocations leave what all of them list. A revocation is
  honoured when its signer is directly pinned with the revocation scope for a principal of the
  revoked key.\<close>

theorem revoked_keys_keep_only_the_cut_points:
  assumes "evaluate c ctx = Ok ev" and "revocations_identified (tc_revocations ctx)"
    and "r \<in> set (tc_revocations ctx)" and "honoured (tc_pins ctx) (principals_of c ctx) r"
    and "accept ev (rv_revoked r) ns obj = Ok e"
  shows "left_by r obj"
proof (rule evaluate_cut [OF assms(1-3) refl disjI2 [OF assms(4)]])
  fix rs
  assume rep: "\<And>r'. r' \<in> set (tc_revocations ctx) \<Longrightarrow> rv_revoked r' = rv_revoked r \<Longrightarrow>
        honoured (tc_pins ctx) (principals_of c ctx) r' \<Longrightarrow> \<exists>s \<in> set rs. s = r'\<lparr>rv_source := rv_source s\<rparr>"
    and cut: "bt_get (ev_revoked ev) (rv_revoked r) = Some (cut_for (tc_revocations ctx) [(rv_revoked r, rs)] (rv_revoked r))"
  obtain s where s: "s \<in> set rs" "s = r\<lparr>rv_source := rv_source s\<rparr>" using rep [OF assms(3) refl assms(4)] by blast
  have "left_by s obj"
    by (rule cut_allows_left_by [OF accept_Ok(4) [OF assms(5) cut]]) (rule cut_for_subset [OF s(1)])+
  then have "left_by (r\<lparr>rv_source := rv_source s\<rparr>) obj" using s(2) by simp
  then show ?thesis by (simp only: left_by_source)
qed

theorem revoked_keys_keep_only_the_cut_points_witness:
  "\<exists>ev e. evaluate ex_crypto (ex_context ex_pins [ex_revocation 9]) = Ok ev \<and>
     accept ev (ex_key_id 7) NS_RECORD (ex_record 3) = Ok e \<and> left_by (ex_revocation 9) (ex_record 3)"
proof -
  obtain ev e where ev: "evaluate ex_crypto (ex_context ex_pins [ex_revocation 9]) = Ok ev"
      and e: "accept ev (ex_key_id 7) NS_RECORD (ex_record 3) = Ok e"
    using ex_accepts(2) ex_accept_iff by blast
  then show ?thesis
    using revoked_keys_keep_only_the_cut_points [OF ev, of "ex_revocation 9" NS_RECORD "ex_record 3" e]
      ex_honoured
    by (auto simp: ex_revocation_def revocations_identified_def)
qed

text \<open>A key that has revoked itself, with no revocation by an authority, is accepted for
  nothing any more, in no namespace.\<close>

theorem self_revoked_keys_are_accepted_for_nothing:
  assumes "evaluate c ctx = Ok ev" and "revocations_identified (tc_revocations ctx)"
    and "r \<in> set (tc_revocations ctx)" and "rv_revoker r = rv_revoked r"
    and "\<forall>r' \<in> set (tc_revocations ctx). rv_revoked r' = rv_revoked r \<longrightarrow>
      \<not> honoured (tc_pins ctx) (principals_of c ctx) r'"
  shows "accept ev (rv_revoked r) ns obj \<noteq> Ok e"
proof (rule evaluate_cut [OF assms(1-3) refl disjI1 [OF assms(4)]])
  fix rs
  assume rs: "\<And>s. s \<in> set rs \<Longrightarrow> s \<in> set (tc_revocations ctx) \<and> rv_revoked s = rv_revoked r \<and>
        honoured (tc_pins ctx) (principals_of c ctx) s"
    and cut: "bt_get (ev_revoked ev) (rv_revoked r) = Some (cut_for (tc_revocations ctx) [(rv_revoked r, rs)] (rv_revoked r))"
  have none: "rs = []" using assms(5) rs by (cases rs) auto
  have "cut_allows (cut_for (tc_revocations ctx) [(rv_revoked r, [])] (rv_revoked r)) obj \<noteq> Ok True"
    by (cases obj) (auto simp: cut_for_def get_list_def cut_allows_def heads_allow_def head_check_def)
  then show "accept ev (rv_revoked r) ns obj \<noteq> Ok e" using accept_Ok(4) [OF _ cut] unfolding none by blast
qed

theorem self_revoked_keys_are_accepted_for_nothing_witness:
  "\<exists>ev. evaluate ex_crypto (ex_context ex_pins [ex_revocation 7]) = Ok ev \<and>
     (\<forall>e. accept ev (ex_key_id 7) NS_RECORD (ex_record 3) \<noteq> Ok e)"
proof -
  obtain ev where ev: "evaluate ex_crypto (ex_context ex_pins [ex_revocation 7]) = Ok ev"
    by (simp add: ex_pins_def ex_eval)
  show ?thesis
    using self_revoked_keys_are_accepted_for_nothing [OF ev, of "ex_revocation 7" NS_RECORD "ex_record 3"] ev
    by (auto simp: ex_revocation_def honoured_def revocations_identified_def)
qed

text \<open>Two pins of one key and principal, and one transition of that key.\<close>

definition two_pins :: "trust_pin \<Rightarrow> trust_pin \<Rightarrow> key_transition \<Rightarrow> trust_context" where
  "two_pins p q t = \<lparr>tc_pins = [p, q], tc_transitions = [t], tc_revocations = [], tc_warnings = [],
     tc_statements_seen = 1\<rparr>"

lemma evaluate_two_pins:
  assumes pins: "pin_key_id q = pin_key_id p" "pin_principal q = pin_principal p" "pin_scope q \<noteq> pin_scope p"
    and scope: "scope_contains (pin_scope p) NS_TRANSITION"
    and t: "tr_old_key_id t = pin_key_id p" "fingerprint_of c (tr_new_key t) \<noteq> pin_key_id p"
  shows "\<exists>ev. evaluate c (two_pins p q t) = Ok ev \<and>
    (\<forall>ns obj. (\<exists>e. accept ev (fingerprint_of c (tr_new_key t)) ns obj = Ok e) \<longleftrightarrow> scope_contains (pin_scope p) ns)"
proof -
  let ?k = "pin_key_id p" and ?n = "fingerprint_of c (tr_new_key t)" and ?b = "base_entries [p, q]"
    and ?m = "group_transitions [t]" and ?s = "successor_entry (fingerprint_of c (tr_new_key t)) (pin_entry p)"
  have "pin_entry q \<noteq> pin_entry p" using pins by (auto simp: pin_entry_def)
  then have b: "get_list ?b ?k = [pin_entry p, pin_entry q]" "get_list ?b ?n = []"
    using pins t(2) by (simp_all add: base_entries_def add_base_def get_list_push) (simp_all add: get_list_def)
  have m: "?m = [(?k, [t])]"
    using t(1) by (simp add: group_transitions_def add_transition_def push_at_def get_list_def)
  then have eq: "\<not> equivocating ?m k" for k by (simp add: equivocating_def get_list_def)
  let ?es = "push_at ?n ?s ?b"
  have es: "get_list ?es ?n = [?s]" "get_list ?es ?k = [pin_entry p, pin_entry q]"
    using b t(2) by (simp_all add: get_list_push)
  have same: "te_principal (pin_entry q) = te_principal (pin_entry p)" "te_principal ?s = te_principal (pin_entry p)"
    "te_scope (pin_entry r) = pin_scope r" for r
    using pins(2) by (simp_all add: pin_entry_def successor_entry_def)
  have one: "add_source ?n (pin_entry p) (?b, False) = (?es, True)"
    using b(2) by (simp add: add_source_def successor_entry_def)
  have no: "add_source ?n e (?es, x) = (?es, x)" if "te_principal e = te_principal (pin_entry p)" for e x
    using that es(1) same(2) by (simp add: add_source_def)
  have "extend_pass c ?m follow ?b = (?es, True)" "extend_pass c ?m follow ?es = (?es, False)" if "follow t" for follow
    using that b(1) es(2) one no same scope by (simp_all add: extend_pass_def m by_old_list_def extend_one_def)
  then have ext: "extend_entries c ?b ?m follow = ?es" if "follow t" for follow
    using that by (simp add: extend_entries_def extend_loop.simps [of c ?m follow ?b] extend_loop.simps [of c ?m follow ?es])
  have f: "may_follow c ?m [] t" using eq by (simp add: may_follow_def)
  define st0 where "st0 = \<lparr>rs_revoked_any = [], rs_authority_cuts = [], rs_warnings = []\<rparr>"
  define ev where "ev = retire c ?m (may_follow c ?m []) ?es (?k, [t])
    \<lparr>ev_has_pins = True, ev_entries = ?es, ev_keys = pinned_keys [p, q], ev_retired = [], ev_revoked = [],
     ev_equivocations = [], ev_warnings = []\<rparr>"
  have "evaluate c (two_pins p q t) = Ok ev"
    using ext [of "may_follow c ?m []"] f by (simp add: evaluate_def two_pins_def Let_def cuts_def ev_def m)
  moreover have "entries_of ev ?n = [?s]" "bt_get (ev_retired ev) ?n = None" "bt_get (ev_revoked ev) ?n = None"
    using es(1) t(2) eq by (auto simp: ev_def retire_def Let_def entries_of_def get_list_def bt_get_insert_any split: option.splits)
  then have "(\<exists>e. accept ev ?n ns obj = Ok e) \<longleftrightarrow> scope_contains (pin_scope p) ns" for ns obj
    by (simp add: accept_def successor_entry_def pin_entry_def)
  ultimately show ?thesis by blast
qed

text \<open>C34. The order of the pins matters: given two pins of one key and principal with different scopes
  that both allow transitions, and a transition of that key, the successor key is accepted in exactly
  the namespaces of the pin that comes first, whichever of the two that is, because \<^verbatim>\<open>extend\<close> adds one
  entry for a principal.\<close>

theorem trust_depends_on_the_order_of_pins:
  assumes "pin_key_id q = pin_key_id p" "pin_principal q = pin_principal p" "pin_scope q \<noteq> pin_scope p"
    and "scope_contains (pin_scope p) NS_TRANSITION" "scope_contains (pin_scope q) NS_TRANSITION"
    and "tr_old_key_id t = pin_key_id p" "fingerprint_of c (tr_new_key t) \<noteq> pin_key_id p"
  shows "\<exists>ev ev'. evaluate c (two_pins p q t) = Ok ev \<and> evaluate c (two_pins q p t) = Ok ev' \<and>
    (\<forall>ns obj. (\<exists>e. accept ev (fingerprint_of c (tr_new_key t)) ns obj = Ok e) \<longleftrightarrow> scope_contains (pin_scope p) ns) \<and>
    (\<forall>ns obj. (\<exists>e. accept ev' (fingerprint_of c (tr_new_key t)) ns obj = Ok e) \<longleftrightarrow> scope_contains (pin_scope q) ns)"
  using evaluate_two_pins [OF assms(1-4) assms(6-7)] evaluate_two_pins [of p q t c] assms by metis

theorem trust_depends_on_the_order_of_pins_witness:
  "\<exists>ev ev' e. evaluate ex_crypto (two_pins (ex_pin 7 SCOPE_DEFAULT) (ex_pin 7 SCOPE_HANDOVER) ex_transition) = Ok ev \<and>
     evaluate ex_crypto (two_pins (ex_pin 7 SCOPE_HANDOVER) (ex_pin 7 SCOPE_DEFAULT) ex_transition) = Ok ev' \<and>
     accept ev (ex_key_id 8) NS_RECORD (ex_record 7) = Ok e \<and>
     accept ev' (ex_key_id 8) NS_RECORD (ex_record 7) \<noteq> Ok e"
proof -
  have "SCOPE_HANDOVER \<noteq> SCOPE_DEFAULT" by (simp add: SCOPE_HANDOVER_def SCOPE_DEFAULT_def)
  then show ?thesis
    using trust_depends_on_the_order_of_pins [of "ex_pin 7 SCOPE_HANDOVER" "ex_pin 7 SCOPE_DEFAULT" ex_transition ex_crypto]
    by (simp add: ex_pin_def ex_transition_def) (metis default_scopes(1) handover_scopes(1))
qed

text \<open>C40. Succession ends: after at most as many passes as there are pairs of a successor key and a principal
  that are not trusted yet, a further pass adds nothing, and the result is what the passes have added.\<close>

theorem extension_ends:
  "\<exists>k \<le> card (successors c m \<times> snd ` trusted_pairs base - trusted_pairs base).
     extend_entries c base m follow = ((\<lambda>es. fst (extend_pass c m follow es)) ^^ k) base \<and>
     extend_pass c m follow (extend_entries c base m follow) = (extend_entries c base m follow, False)"
  unfolding extend_entries_def
proof (induction c m follow base rule: extend_loop.induct)
  case (1 c m follow es)
  let ?M = "\<lambda>es. successors c m \<times> snd ` trusted_pairs es - trusted_pairs es" and ?f = "\<lambda>es. fst (extend_pass c m follow es)"
  obtain es' added where p: "extend_pass c m follow es = (es', added)" by fastforce
  show ?case
  proof (cases added)
    case False
    then have "es' = es" using fold_extend_one_unchanged [of c follow "by_old_list m" "(es, False)"] p by (simp add: extend_pass_def)
    then show ?thesis using p False by (subst extend_loop.simps, subst (2) extend_loop.simps) (auto simp: extend_loop.simps [of c m follow es])
  next
    case True
    then have loop: "extend_loop c m follow es = extend_loop c m follow es'" using p by (simp add: extend_loop.simps [of c m follow es])
    obtain k where k: "k \<le> card (?M es')" "extend_loop c m follow es' = (?f ^^ k) es'"
      "extend_pass c m follow (extend_loop c m follow es') = (extend_loop c m follow es', False)"
      using 1 [OF p [symmetric] refl True] by blast
    have g: "grows (successors c m) (es, False) (es', True)" using grows_extend_pass [of c m es follow] p True by simp
    then have "?M es' \<subset> ?M es" unfolding grows_def by auto
    moreover have "finite (?M es)"
      by (intro finite_Diff finite_cartesian_product) (simp_all add: successors_def finite_trusted_pairs)
    ultimately have "card (?M es') < card (?M es)" by (rule psubset_card_mono [rotated])
    moreover have "(?f ^^ Suc k) es = (?f ^^ k) es'" using p by (simp only: funpow_Suc_right comp_apply) simp
    ultimately show ?thesis using k loop by (intro exI [of _ "Suc k"]) simp
  qed
qed

end
