(* ===== verification/Signed_Verify_Complete.thy ===== *)
theory Signed_Verify_Complete
  imports Signed_Verify_Sound Trust_Properties
begin

text \<open>
  Logs that follow the rules verify: the converse of Signed_Verify_Sound. On a log whose records all
  hold what \<open>record_ok\<close> says, with times that do not fall back by more than the slack and nothing
  after \<^verbatim>\<open>log.sealed\<close>, every check of the walk lets it go on.
\<close>

lemma then_step_value [simp]: "then_step (Ok (w, Some y)) f = f y w"
  by (simp add: then_step_def)

lemma check_step_ok: "\<not> bad \<Longrightarrow> check_step opts bad f w = Ok (w, Some ())"
  by (simp add: check_step_def)

section \<open>One record\<close>

definition next_time :: "int option \<Rightarrow> envelope \<Rightarrow> int option" where
  "next_time t env = (case parse_rfc3339_millis (en_ts_wall env) of None \<Rightarrow> t | Some ms \<Rightarrow> Some ms)"

definition time_ok :: "int option \<Rightarrow> envelope \<Rightarrow> bool" where
  "time_ok t env \<longleftrightarrow>
     (case (parse_rfc3339_millis (en_ts_wall env), t) of
        (Some ms, Some prior) \<Rightarrow> prior - ms \<le> MAX_TS_DRIFT_MS | _ \<Rightarrow> True)"

text \<open>The state that decides how the walk goes on.\<close>

definition walks :: "walk \<Rightarrow> walk \<Rightarrow> bool" where
  "walks w w' \<longleftrightarrow> sr_violations (wk_report w') = sr_violations (wk_report w) \<and> wk_stopped w' = wk_stopped w \<and>
     wk_seg0 w' = wk_seg0 w \<and> wk_signer_ok w' = wk_signer_ok w"

lemma walks_refl [simp]: "walks w w"
  by (simp add: walks_def)

lemma walks_trans: "walks w w1 \<Longrightarrow> walks w1 w' \<Longrightarrow> walks w w'"
  by (simp add: walks_def)

definition after_record ::
  "('p, 's) crypto \<Rightarrow> u16 \<Rightarrow> nat \<Rightarrow> raw_record \<Rightarrow> envelope \<Rightarrow> walk \<Rightarrow> walk \<Rightarrow> bool" where
  "after_record c n p raw env w w' \<longleftrightarrow> walks w w' \<and> wk_trusted_sig w' \<and> obs w' = visit c n p raw env (obs w) \<and>
     wk_sealed_at w' = (if en_event env = EVENT_SEALED then Some (n, p) else None) \<and>
     wk_last_ts_ms w' = next_time (wk_last_ts_ms w) env"

lemma check_body_ok:
  assumes "body_checked c raw env bdy"
  shows "check_body c opts n p loc raw env w =
    Ok (if raw_body raw = None then upd_log (\<lambda>l. l\<lparr>sl_elided_records := sl_elided_records l @ [(n, p)]\<rparr>) w
        else w, Some bdy)"
  using assms by (auto simp: check_body_def body_checked_def split: option.splits)

lemma check_structure_ok:
  assumes "structure_ok p raw env bdy"
  shows "check_structure opts p loc raw env bdy w =
    Ok (w, Some (if en_event env = EVENT_FINALIZED then Some (p, raw_offset raw) else None))"
proof -
  have "\<not> (is_structural (en_event env) \<and> raw_body raw = None)"
    "en_event env = EVENT_FINALIZED \<Longrightarrow> \<not> (case bdy of None \<Rightarrow> False | Some b \<Rightarrow> \<not> rollover_ok b p env)"
    using assms by (auto simp: structure_ok_def split: option.splits)
  then show ?thesis by (simp add: check_structure_def check_step_ok)
qed

lemma check_time_ok:
  assumes "time_ok (wk_last_ts_ms w) env"
  shows "check_time opts loc env w = Ok (w\<lparr>wk_last_ts_ms := next_time (wk_last_ts_ms w) env\<rparr>, Some ())"
  using assms by (auto simp: check_time_def time_ok_def next_time_def Let_def check_step_ok split: option.splits)

lemma record_step_ok:
  assumes rec: "record_ok c h n p prev raw env" and acc: "accepted c ev h n p raw"
    and st: "ev_has_pins ev" "wk_signer_ok w" "wk_sealed_at w = None" "time_ok (wk_last_ts_ms w) env"
  shows "\<exists>w'. record_step c ev opts h n p prev None raw w =
      Ok (w', Some (if en_event env = EVENT_FINALIZED then Some (p, raw_offset raw) else None)) \<and>
    after_record c n p raw env w w'"
proof -
  obtain bdy e where b: "body_checked c raw env bdy" "structure_ok p raw env bdy"
    and e: "accept ev (sh_key_id h) NS_RECORD (ORecord (sh_log_id h) n (of_nat p) (record_hash c (raw_envelope raw))) = Ok e"
    and r: "ed25519_verify c (sh_public_key h) (signed_data c NS_RECORD (raw_envelope raw)) (raw_signature raw) = Ok ()"
      "envelope_decode (raw_envelope raw) = Ok env" "en_key_id env = sh_key_id h" "en_sig_alg env = sh_sig_alg h"
      "in_chain n p prev env"
    using rec acc by (auto simp: record_ok_def accepted_def)
  define w0 where "w0 = count_signed_record opts n p w"
  define w1 where "w1 = (if raw_body raw = None
    then upd_log (\<lambda>l. l\<lparr>sl_elided_records := sl_elided_records l @ [(n, p)]\<rparr>) w0 else w0)"
  define w2 where "w2 = w1\<lparr>wk_trusted_sig := True\<rparr>"
  define w3 where "w3 = (if en_event env = EVENT_SEALED then w2\<lparr>wk_sealed_at := Some (n, p)\<rparr> else w2)"
  define w4 where "w4 = w3\<lparr>wk_last_ts_ms := next_time (wk_last_ts_ms w) env\<rparr>"
  have f: "wk_signer_ok w1 = wk_signer_ok w" "wk_sealed_at w1 = wk_sealed_at w" "wk_last_ts_ms w1 = wk_last_ts_ms w"
    "sr_violations (wk_report w1) = sr_violations (wk_report w)" "wk_stopped w1 = wk_stopped w" "wk_seg0 w1 = wk_seg0 w"
    by (simp_all add: w1_def w0_def count_signed_record_def upd_log_def upd_report_def)
  have keys: "check_key_and_alg opts h loc env w1 = Ok (w1, Some ())" for loc
    using r(3,4) by (simp add: check_key_and_alg_def check_step_ok)
  have chain: "check_chain opts n p prev loc env w1 = Ok (w1, Some ())" for loc
    using r(5) by (simp add: check_chain_def check_step_ok)
  have trust: "check_trust ev opts h n p loc (record_hash c (raw_envelope raw)) w1 = Ok (w2, Some ())" for loc
    using st(1,2) e f by (simp add: check_trust_def w2_def)
  have sealed: "check_sealed opts n p loc env w2 = Ok (w3, Some ())" for loc
    using st(3) f by (simp add: check_sealed_def w2_def w3_def)
  have time: "check_time opts loc env w3 = Ok (w4, Some ())" for loc
  proof -
    have "wk_last_ts_ms w3 = wk_last_ts_ms w" using f by (simp add: w3_def w2_def)
    then show ?thesis using check_time_ok [of w3] st(4) by (simp add: w4_def)
  qed
  have "record_step c ev opts h n p prev None raw w =
      Ok (note_record n p (wk_ordinal w0) (record_hash c (raw_envelope raw)) env w4,
        Some (if en_event env = EVENT_FINALIZED then Some (p, raw_offset raw) else None))"
    using r(1,2) keys chain trust sealed time
    by (simp add: record_step_def after_finalized_def w0_def [symmetric] signed_record_def Let_def
        check_body_ok [OF b(1)] w1_def [symmetric] check_structure_ok [OF b(2)])
  moreover have "after_record c n p raw env w (note_record n p (wk_ordinal w0) (record_hash c (raw_envelope raw)) env w4)"
  proof -
    have "obs w4 = obs w0" by (simp add: w4_def w3_def w2_def w1_def)
    then have "wk_ordinal w4 = Suc (wk_ordinal w)" "snd (obs w4) = snd (obs w)"
      by (auto simp: w0_def obs_def prod_eq_iff count_signed_record_def upd_log_def upd_report_def)
    then have "obs (note_record n p (wk_ordinal w0) (record_hash c (raw_envelope raw)) env w4) = visit c n p raw env (obs w)"
      using obs_note [of w4 n p c raw env] by (simp add: w0_def)
    then show ?thesis
      using st f by (simp add: after_record_def)
        (simp add: walks_def note_record_def upd_log_def upd_report_def w4_def w3_def w2_def)
  qed
  ultimately show ?thesis by blast
qed

section \<open>The records of a segment\<close>

fun times_ok :: "int option \<Rightarrow> (raw_record \<times> envelope) list \<Rightarrow> bool" where
  "times_ok t [] \<longleftrightarrow> True"
| "times_ok t ((raw, env) # recs) \<longleftrightarrow> time_ok t env \<and> times_ok (next_time t env) recs"

definition last_time :: "int option \<Rightarrow> (raw_record \<times> envelope) list \<Rightarrow> int option" where
  "last_time t recs = fold (\<lambda>r t. next_time t (snd r)) recs t"

lemma times_ok_append: "times_ok t (xs @ ys) \<longleftrightarrow> times_ok t xs \<and> times_ok (last_time t xs) ys"
  by (induction t xs rule: times_ok.induct) (auto simp: last_time_def)

lemma last_time_append: "last_time t (xs @ ys) = last_time (last_time t xs) ys"
  by (simp add: last_time_def)

text \<open>No record of a list but its last one seals the log.\<close>

definition open_log :: "(raw_record \<times> envelope) list \<Rightarrow> bool" where
  "open_log recs \<longleftrightarrow> (\<forall>r \<in> set (butlast recs). en_event (snd r) \<noteq> EVENT_SEALED)"

definition seals :: "(raw_record \<times> envelope) list \<Rightarrow> bool" where
  "seals recs \<longleftrightarrow> recs \<noteq> [] \<and> en_event (snd (last recs)) = EVENT_SEALED"

lemma open_log_append:
  "open_log (xs @ ys) \<longleftrightarrow> (if ys = [] then open_log xs else open_log xs \<and> \<not> seals xs \<and> open_log ys)"
  by (cases xs rule: rev_cases) (auto simp: open_log_def seals_def butlast_append)

definition after_records ::
  "('p, 's) crypto \<Rightarrow> u16 \<Rightarrow> nat \<Rightarrow> (raw_record \<times> envelope) list \<Rightarrow> walk \<Rightarrow> walk \<Rightarrow> bool" where
  "after_records c n p recs w w' \<longleftrightarrow> walks w w' \<and> obs w' = visit_all c n p recs (obs w) \<and> (wk_trusted_sig w' \<longleftrightarrow> wk_trusted_sig w \<or> recs \<noteq> []) \<and>
     (wk_sealed_at w' = None \<longleftrightarrow> wk_sealed_at w = None \<and> \<not> seals recs) \<and>
     wk_last_ts_ms w' = last_time (wk_last_ts_ms w) recs"

lemma after_records_Nil [simp]: "after_records c n p [] w w"
  by (simp add: after_records_def seals_def last_time_def)

lemma record_loop_ok:
  assumes "chain_of c h n content offset p prev recs final"
    and "all_accepted c ev h n p recs" "ev_has_pins ev" "wk_signer_ok w" "\<not> wk_stopped w"
    and "recs \<noteq> [] \<longrightarrow> wk_sealed_at w = None" "open_log recs" "times_ok (wk_last_ts_ms w) recs"
    and "recs \<noteq> [] \<longrightarrow> finalized_at = None"
  shows "\<exists>w' fin. record_loop c ev opts h n content offset p prev finalized_at w =
      Ok (w', Some (final, p + length recs, fin)) \<and> after_records c n p recs w w'"
  using assms
proof (induction arbitrary: w finalized_at)
  case (chain_end offset p prev)
  then show ?case by (subst record_loop.simps) simp
next
  case (chain_step offset raw p prev env rest final)
  let ?fin = "if en_event env = EVENT_FINALIZED then Some (p, raw_offset raw) else None"
  have a: "accepted c ev h n p raw" "all_accepted c ev h n (Suc p) rest"
    using chain_step.prems(1) by (simp_all add: all_accepted_def)
  have t: "time_ok (wk_last_ts_ms w) env" "times_ok (next_time (wk_last_ts_ms w) env) rest"
    using chain_step.prems(7) by simp_all
  obtain w1 where w1: "record_step c ev opts h n p prev None raw w = Ok (w1, Some ?fin)"
    "after_record c n p raw env w w1"
    using record_step_ok [OF chain_step.hyps(2) a(1) chain_step.prems(2,3) _ t(1)] chain_step.prems(5) by blast
  have o: "rest \<noteq> [] \<longrightarrow> en_event env \<noteq> EVENT_SEALED" "open_log rest"
    using chain_step.prems(6) open_log_append [of "[(raw, env)]" rest]
    by (cases "rest = []"; simp add: seals_def open_log_def)+
  obtain w' fin where r: "record_loop c ev opts h n content (offset + raw_total_len raw) (Suc p)
      (record_hash c (raw_envelope raw)) ?fin w1 = Ok (w', Some (final, Suc p + length rest, fin))"
    "after_records c n (Suc p) rest w1 w'"
    using chain_step.IH [OF a(2) chain_step.prems(2), of w1 ?fin] w1(2) chain_step.prems(3,4) o t(2) chain_step.hyps(3)
    by (auto simp: after_record_def walks_def)
  have "record_loop c ev opts h n content offset p prev finalized_at w = Ok (w', Some (final, p + length ((raw, env) # rest), fin))"
    using r(1) w1(1) chain_step.hyps(1) chain_step.prems(4,8) by (subst record_loop.simps) simp
  moreover have "after_records c n p ((raw, env) # rest) w w'"
    using r(2) w1(2) chain_step.prems(5) o(1)
    by (auto simp: after_records_def after_record_def last_time_def seals_def intro: walks_trans split: if_splits)
  ultimately show ?case by blast
qed

section \<open>Segments\<close>

lemma check_header_accepts:
  assumes ok: "header_ok c h0 n prev content h" and "n = 0 \<Longrightarrow> prev = replicate 32 0"
    and "n \<noteq> 0 \<Longrightarrow> seg0 = Some h0"
  shows "check_header c seg0 n (header_bytes content) (min HEADER_LEN (length content)) (Some prev) = Ok h"
proof -
  have len: "HEADER_LEN \<le> length content" using ok by (simp add: header_ok_def)
  then have hb: "header_bytes content = take 128 content" "\<not> length content < 128" "min 128 (length content) = 128"
    using header_bytes_long [OF len] by (simp_all add: HEADER_LEN_def)
  have f: "take 4 (take 128 content) = FORMAT_MAGIC" "u16_at (take 128 content) 4 = FORMAT_VERSION_SIGNED"
    "alg_from_code (u16_at (take 128 content) 8) \<noteq> None"
    "u32_at (take 128 content) 124 = crc32 c (take 124 (take 128 content))"
    "from_bytes_unchecked (take 128 content) = h" "sh_reserved h = 0"
    "is_strong c (ed25519_key (sh_public_key h))" "fingerprint_of c (ed25519_key (sh_public_key h)) = sh_key_id h"
    using ok by (auto simp: header_ok_def HEADER_LEN_def HEADER_HASHED_LEN_def u32_at_take from_bytes_unchecked_def)
  have "(case seg0 of None \<Rightarrow> Ok () | Some s0 \<Rightarrow> if 0 < n then same_signer n s0 h else Ok ()) = Ok ()"
    using ok assms(3) by (auto simp: header_ok_def same_signer_def word_neq_0_conv split: option.splits)
  moreover have "header_place n (Some prev) h = Ok ()"
    using ok assms(2) by (auto simp: header_ok_def header_place_def)
  ultimately show ?thesis
    using f by (simp add: check_header_def Let_def hb HEADER_LEN_def HEADER_HASHED_LEN_def)
qed

lemma header_ok_identity:
  assumes "header_ok c h0 n prev content h"
  shows "sh_sig_alg h0 = sh_sig_alg h" "sh_log_id h0 = sh_log_id h" "sh_key_id h0 = sh_key_id h"
    "sh_public_key h0 = sh_public_key h"
  using assms unfolding header_ok_def by metis+

definition signs_records :: "evaluated \<Rightarrow> signed_header \<Rightarrow> bool" where
  "signs_records ev h \<longleftrightarrow> list_ex (\<lambda>e. scope_contains (te_scope e) NS_RECORD) (entries_of ev (sh_key_id h))"

lemma accepted_signs: "accepted c ev h n p raw \<Longrightarrow> signs_records ev h"
  by (auto simp: accepted_def signs_records_def list_ex_iff dest: accept_Ok(1,2))

lemma enter_segment0_ok:
  assumes "n = 0 \<Longrightarrow> signs_records ev h \<and> (\<forall>i. vo_expect_log_id opts = Some i \<longrightarrow> i = sh_log_id h)" "ev_has_pins ev"
    and "n \<noteq> 0 \<Longrightarrow> wk_signer_ok w"
  shows "\<exists>w'. enter_segment0 ev opts n h w = Ok (w', Some ()) \<and>
    sr_violations (wk_report w') = sr_violations (wk_report w) \<and> wk_stopped w' = wk_stopped w \<and>
    wk_seg0 w' = (if n = 0 then Some h else wk_seg0 w) \<and> wk_signer_ok w' \<and> wk_sealed_at w' = wk_sealed_at w \<and>
    wk_trusted_sig w' = wk_trusted_sig w \<and> wk_last_ts_ms w' = wk_last_ts_ms w \<and>
    (\<exists>hs. obs w' = track hs (obs w))"
proof (cases "n = 0")
  case True
  have "(case vo_expect_log_id opts of None \<Rightarrow> None
      | Some expect \<Rightarrow> if expect \<noteq> sh_log_id h then Some expect else None) = None"
    using assms(1) True by (simp split: option.splits)
  then have e: "enter_segment0 ev opts n h w = Ok (note_statement_heads ev
      (upd_report (\<lambda>r. r\<lparr>sr_signer := Some (signer_of ev h)\<rparr>)
        (upd_log (\<lambda>l. l\<lparr>sl_log_id := Some (sh_log_id h), sl_key_id := Some (sh_key_id h)\<rparr>)
          (w\<lparr>wk_seg0 := Some h\<rparr>))\<lparr>wk_signer_ok := True\<rparr>), Some ())"
    using assms True by (simp add: enter_segment0_def segment0_trust_def signs_records_def Let_def)
  show ?thesis
    unfolding e using True obs_note_heads
    by (simp add: note_statement_heads_def upd_log_def upd_report_def) (force simp: obs_def track_def)
next
  case False
  then show ?thesis using assms(3) by (simp add: enter_segment0_def) (rule exI [of _ "[]"], simp)
qed

definition after_segment ::
  "('p, 's) crypto \<Rightarrow> u16 \<Rightarrow> signed_header \<Rightarrow> (raw_record \<times> envelope) list \<Rightarrow> walk \<Rightarrow> walk \<Rightarrow> bool" where
  "after_segment c n h0 recs w w' \<longleftrightarrow> (\<exists>hs. obs w' = visit_all c n 0 recs (track hs (obs w))) \<and>
     sr_violations (wk_report w') = sr_violations (wk_report w) \<and>
     \<not> wk_stopped w' \<and> wk_seg0 w' = Some h0 \<and> wk_signer_ok w' \<and>
     (wk_trusted_sig w' \<longleftrightarrow> wk_trusted_sig w \<or> recs \<noteq> []) \<and> (wk_sealed_at w' = None \<longleftrightarrow> \<not> seals recs) \<and>
     wk_last_ts_ms w' = last_time (wk_last_ts_ms w) recs \<and> wk_last_segment_had_records w' = (recs \<noteq> [])"

lemma segment_end_ok:
  assumes "p = 0 \<longrightarrow> wk_sealed_at w = None"
  shows "\<exists>w'. segment_end opts n is_last p fin w = Ok (w', Some ()) \<and> walks w w' \<and>
    wk_trusted_sig w' = wk_trusted_sig w \<and> wk_sealed_at w' = wk_sealed_at w \<and>
    wk_last_ts_ms w' = wk_last_ts_ms w \<and> wk_last_segment_had_records w' = (0 < p) \<and> obs w' = obs w"
  using assms
  by (auto simp: segment_end_def empty_last_segment_def Let_def walks_def warn_def upd_log_def upd_report_def obs_def)

lemma walk_segment_ok:
  assumes content: "regular_file d n = Some content" and hd: "header_ok c h0 n prev content h"
    and chain: "chain_of c h n content HEADER_LEN 0 (chain_start c content) recs final"
    and acc: "all_accepted c ev h0 n 0 recs" "ev_has_pins ev" "open_log recs" "times_ok (wk_last_ts_ms w) recs"
    and first: "n = 0 \<Longrightarrow> prev = replicate 32 0 \<and> h0 = h \<and> signs_records ev h \<and>
      (\<forall>i. vo_expect_log_id opts = Some i \<longrightarrow> i = sh_log_id h)"
    and later: "n \<noteq> 0 \<Longrightarrow> wk_seg0 w = Some h0 \<and> wk_signer_ok w"
    and st: "\<not> wk_stopped w" "wk_sealed_at w = None"
  shows "\<exists>w'. walk_segment c ev opts d n (Some prev) is_last w = Ok (w', Some final) \<and> after_segment c n h0 recs w w'"
proof -
  let ?hb = "header_bytes content"
  have "HEADER_LEN \<le> length content" using hd by (simp add: header_ok_def)
  then have start: "chain_start c ?hb = chain_start c content" by (simp add: header_bytes_long chain_start_take)
  have h: "check_header c (wk_seg0 w) n ?hb (min HEADER_LEN (length content)) (Some prev) = Ok h"
    using first later by (intro check_header_accepts [OF hd]) auto
  obtain w1 where w1: "enter_segment0 ev opts n h w = Ok (w1, Some ())"
    "sr_violations (wk_report w1) = sr_violations (wk_report w)" "\<not> wk_stopped w1"
    "wk_seg0 w1 = (if n = 0 then Some h else wk_seg0 w)" "wk_signer_ok w1" "wk_sealed_at w1 = None"
    "wk_trusted_sig w1 = wk_trusted_sig w" "wk_last_ts_ms w1 = wk_last_ts_ms w" "\<exists>hs. obs w1 = track hs (obs w)"
    using enter_segment0_ok [of n ev h opts w] first later acc(2) st by auto
  have same: "all_accepted c ev h n 0 recs"
  proof -
    have "sh_key_id h = sh_key_id h0" "sh_log_id h = sh_log_id h0" using header_ok_identity [OF hd] by simp_all
    then show ?thesis using acc(1) all_accepted_cong by blast
  qed
  have "\<exists>w2 fin. record_loop c ev opts h n content HEADER_LEN 0 (chain_start c content) None w1 =
      Ok (w2, Some (final, 0 + length recs, fin)) \<and> after_records c n 0 recs w1 w2"
    by (rule record_loop_ok [OF chain same acc(2) w1(5,3)]) (use acc(3,4) w1(6,8) in simp_all)
  then obtain w2 fin where w2: "record_loop c ev opts h n content HEADER_LEN 0 (chain_start c content) None w1 =
      Ok (w2, Some (final, length recs, fin))" "after_records c n 0 recs w1 w2" by auto
  obtain w3 where w3: "segment_end opts n is_last (length recs) fin w2 = Ok (w3, Some ())" "walks w2 w3"
    "wk_trusted_sig w3 = wk_trusted_sig w2" "wk_sealed_at w3 = wk_sealed_at w2" "wk_last_ts_ms w3 = wk_last_ts_ms w2"
    "wk_last_segment_had_records w3 = (0 < length recs)" "obs w3 = obs w2"
    using segment_end_ok [of "length recs" w2 opts n is_last fin] w2(2) w1(6)
    by (auto simp: after_records_def seals_def)
  have "walk_segment c ev opts d n (Some prev) is_last w = Ok (w3, Some final)"
    by (simp add: walk_segment_def content Let_def h w1(1) start w2(1) w3(1))
  moreover have "after_segment c n h0 recs w w3"
    using w1(2-) w2(2) w3(2-) first later unfolding after_segment_def after_records_def walks_def by auto
  ultimately show ?thesis by blast
qed

section \<open>The whole log\<close>

fun well_sealed :: "(raw_record \<times> envelope) list list \<Rightarrow> bool" where
  "well_sealed [] \<longleftrightarrow> True"
| "well_sealed (recs # rest) \<longleftrightarrow> open_log recs \<and> (seals recs \<longrightarrow> rest = []) \<and> well_sealed rest"

lemma header_ok_cong:
  "sh_sig_alg h0 = sh_sig_alg h1 \<Longrightarrow> sh_log_id h0 = sh_log_id h1 \<Longrightarrow> sh_key_id h0 = sh_key_id h1 \<Longrightarrow>
   sh_public_key h0 = sh_public_key h1 \<Longrightarrow> header_ok c h0 n prev content h = header_ok c h1 n prev content h"
  by (simp add: header_ok_def)

lemma segments_of_cong:
  assumes "segments_of c ev d h0 n prev ns recss"
    and same: "sh_sig_alg h0 = sh_sig_alg h1" "sh_log_id h0 = sh_log_id h1" "sh_key_id h0 = sh_key_id h1"
      "sh_public_key h0 = sh_public_key h1"
  shows "segments_of c ev d h1 n prev ns recss"
  using assms(1)
proof induction
  case (next_segment n content prev h recs final ns rest)
  have "header_ok c h1 n prev content h"
    using next_segment.hyps(2) header_ok_cong [OF same, of c n prev content h] by simp
  moreover have "ev_has_pins ev \<longrightarrow> all_accepted c ev h1 n 0 recs"
    using next_segment.hyps(4) all_accepted_cong [OF same(3,2), of c ev n 0 recs] by simp
  ultimately show ?case
    using next_segment.hyps(1,3,5) next_segment.IH by (intro segments_of.next_segment)
qed (rule no_segment)

lemma inspect_fields [simp]:
  "wk_seg0 (inspect n w) = wk_seg0 w" "wk_signer_ok (inspect n w) = wk_signer_ok w"
  "wk_last_ts_ms (inspect n w) = wk_last_ts_ms w" "wk_stopped (inspect n w) = wk_stopped w"
  "wk_sealed_at (inspect n w) = wk_sealed_at w" "wk_trusted_sig (inspect n w) = wk_trusted_sig w"
  "sr_violations (wk_report (inspect n w)) = sr_violations (wk_report w)" "obs (inspect n w) = obs w"
  by (simp_all add: inspect_def) (simp_all add: upd_log_def upd_report_def)

lemma run_segments_step:
  assumes "\<not> wk_stopped w" "n \<noteq> 0 \<longrightarrow> wk_last_segment_had_records w"
    and "walk_segment c ev opts d n prev_final (ns = []) (inspect n w) = Ok (w1, Some final)"
  shows "run_segments c ev opts d (n # ns) n prev_final w =
    run_segments c ev opts d ns (saturating_succ n) (Some final) w1"
  using assms unfolding inspect_def by (auto simp: check_succession_def word_neq_0_conv)

lemma run_rest_ok:
  assumes "segments_of c ev d h0 n prev ns recss" "ev_has_pins ev" "well_sealed recss" "n \<noteq> 0"
    and "times_ok (wk_last_ts_ms w) (concat recss)"
    and "wk_seg0 w = Some h0" "wk_signer_ok w" "\<not> wk_stopped w"
    and "ns \<noteq> [] \<longrightarrow> wk_last_segment_had_records w \<and> wk_sealed_at w = None"
  shows "\<exists>w'. run_segments c ev opts d ns n (Some prev) w = Ok w' \<and>
    sr_violations (wk_report w') = sr_violations (wk_report w) \<and>
    (wk_trusted_sig w' \<longleftrightarrow> wk_trusted_sig w \<or> concat recss \<noteq> []) \<and> wk_seg0 w' = Some h0 \<and>
    visit_log c ns recss (obs w) (obs w')"
  using assms
proof (induction arbitrary: w)
  case (next_segment n content prev h recs final ns rest)
  have acc: "all_accepted c ev h0 n 0 recs" using next_segment.hyps(4) next_segment.prems(1) by blast
  have t: "times_ok (wk_last_ts_ms w) recs" "times_ok (last_time (wk_last_ts_ms w) recs) (concat rest)"
    using next_segment.prems(4) by (simp_all add: times_ok_append)
  have sealed: "open_log recs" "seals recs \<longrightarrow> rest = []" "well_sealed rest" using next_segment.prems(2) by simp_all
  obtain w1 where w1: "walk_segment c ev opts d n (Some prev) (ns = []) (inspect n w) = Ok (w1, Some final)"
    "after_segment c n h0 recs (inspect n w) w1"
    using walk_segment_ok [OF next_segment.hyps(1-3) acc next_segment.prems(1) sealed(1), of "inspect n w" opts "ns = []"]
      t(1) next_segment.prems(3,5-8) by auto
  have more: "ns \<noteq> [] \<longrightarrow> recs \<noteq> [] \<and> rest \<noteq> []"
    using next_segment.hyps(5,6) by (auto elim: segments_of.cases)
  have run: "run_segments c ev opts d (n # ns) n (Some prev) w = run_segments c ev opts d ns (saturating_succ n) (Some final) w1"
    by (rule run_segments_step [OF _ _ w1(1)]) (use next_segment.prems(7,8) in auto)
  have "wk_last_ts_ms w1 = last_time (wk_last_ts_ms w) recs" using w1(2) by (simp add: after_segment_def)
  then have "\<exists>w'. run_segments c ev opts d ns (saturating_succ n) (Some final) w1 = Ok w' \<and>
      sr_violations (wk_report w') = sr_violations (wk_report w1) \<and>
      (wk_trusted_sig w' \<longleftrightarrow> wk_trusted_sig w1 \<or> concat rest \<noteq> []) \<and> wk_seg0 w' = Some h0 \<and>
      visit_log c ns rest (obs w1) (obs w')"
    using w1(2) t(2) sealed more saturating_succ_pos
    by (intro next_segment.IH next_segment.prems(1)) (auto simp: after_segment_def)
  then show ?case using w1(2) unfolding run by (auto simp: after_segment_def)
qed simp

text \<open>What is assumed of the trust context besides that it accepts the records: no key of it signed
  two successions, and no statement names a head of the log's key.\<close>

definition quiet :: "evaluated \<Rightarrow> signed_header \<Rightarrow> bool" where
  "quiet ev h \<longleftrightarrow> ev_has_pins ev \<and> ev_equivocations ev = [] \<and> eval_statement_heads ev (sh_key_id h) = []"

lemma warnings_clean [simp]:
  "sr_violations (wk_report (warn k i w)) = sr_violations (wk_report w)" "wk_last_ts_ms (warn k i w) = wk_last_ts_ms w"
  "sr_violations (wk_report (fold (\<lambda>x. warn k (f x)) xs w)) = sr_violations (wk_report w)"
  "wk_last_ts_ms (fold (\<lambda>x. warn k (f x)) xs w) = wk_last_ts_ms w"
  by (simp_all add: warn_def upd_report_def) (induction xs arbitrary: w; simp add: warn_def upd_report_def)+

lemma start_walk_clean:
  assumes "ev_equivocations ev = []"
  shows "sr_violations (wk_report (start_walk log_dir ev opts segs cps)) = []"
    "wk_last_ts_ms (start_walk log_dir ev opts segs cps) = None"
  using warnings_clean(3,4) [of "''NearMissSegmentName''" "\<lambda>x. x" "snd segs"] assms
  by (simp_all add: start_walk_def Let_def case_prod_unfold walk_new_def upd_log_def upd_report_def empty_report_def)

lemma run_log_ok:
  assumes segs: "segments_of c ev d h0 0 (replicate 32 0) (fst (list_segments d)) recss"
    and "concat recss \<noteq> []" "well_sealed recss" "times_ok None (concat recss)" "quiet ev h0"
    and opts: "\<forall>i. vo_expect_log_id opts = Some i \<longrightarrow> i = sh_log_id h0"
  shows "\<exists>w h. run_segments c ev opts d (fst (list_segments d)) 0 (Some (replicate 32 0))
      (start_walk log_dir ev opts (list_segments d) cps) = Ok w \<and>
    sr_violations (wk_report w) = [] \<and> wk_trusted_sig w \<and> wk_seg0 w = Some h \<and> sh_key_id h = sh_key_id h0 \<and>
    sh_log_id h = sh_log_id h0 \<and> sh_sig_alg h = sh_sig_alg h0 \<and>
    log_format d = Some FORMAT_VERSION_SIGNED \<and> fst (list_segments d) \<noteq> [] \<and>
    visit_log c (fst (list_segments d)) recss
      (obs (start_walk log_dir ev opts (list_segments d) cps)) (obs w)"
proof -
  let ?segs = "fst (list_segments d)"
  from segs assms(2) obtain content h recs final ns rest where
    s: "?segs = 0 # ns" "recss = recs # rest" "regular_file d 0 = Some content"
      "header_ok c h0 0 (replicate 32 0) content h"
      "chain_of c h 0 content HEADER_LEN 0 (chain_start c content) recs final"
      "ev_has_pins ev \<longrightarrow> all_accepted c ev h0 0 0 recs" "recs = [] \<longrightarrow> ns = []"
      "segments_of c ev d h0 (saturating_succ 0) final ns rest"
    by (cases rule: segments_of.cases) auto
  have same: "sh_sig_alg h0 = sh_sig_alg h" "sh_log_id h0 = sh_log_id h" "sh_key_id h0 = sh_key_id h"
    "sh_public_key h0 = sh_public_key h"
    using header_ok_identity [OF s(4)] by simp_all
  have pins: "ev_has_pins ev" and acc: "all_accepted c ev h 0 0 recs"
    using assms(5) s(6) all_accepted_cong [OF same(3,2), of c ev 0 0 recs] by (auto simp: quiet_def)
  have hd: "header_ok c h 0 (replicate 32 0) content h" using s(4) header_ok_cong [OF same] by blast
  have recs: "recs \<noteq> []" using assms(2) s(2,7,8) by (auto elim: segments_of.cases)
  then have sign: "signs_records ev h"
    using acc accepted_signs by (cases recs) (auto simp: all_accepted_def)
  let ?w0 = "start_walk log_dir ev opts (list_segments d) cps"
  note w0 = start_walk_state [of ?w0 log_dir ev opts "list_segments d" cps, OF refl]
  have clean0: "sr_violations (wk_report ?w0) = []" "wk_last_ts_ms ?w0 = None"
    using start_walk_clean assms(5) by (simp_all add: quiet_def)
  have t: "times_ok None recs" "times_ok (last_time None recs) (concat rest)"
    using assms(4) s(2) by (simp_all add: times_ok_append)
  have sealed: "open_log recs" "seals recs \<longrightarrow> rest = []" "well_sealed rest" using assms(3) s(2) by simp_all
  obtain w1 where w1: "walk_segment c ev opts d 0 (Some (replicate 32 0)) (ns = []) (inspect 0 ?w0) = Ok (w1, Some final)"
    "after_segment c 0 h recs (inspect 0 ?w0) w1"
    using walk_segment_ok [OF s(3) hd s(5) acc pins sealed(1), of "inspect 0 ?w0" opts "ns = []"]
      t(1) w0 clean0 sign opts same(2) by auto
  have run: "run_segments c ev opts d (0 # ns) 0 (Some (replicate 32 0)) ?w0 =
      run_segments c ev opts d ns (saturating_succ 0) (Some final) w1"
    by (rule run_segments_step [OF _ _ w1(1)]) (use w0 in auto)
  have "ns \<noteq> [] \<longrightarrow> rest \<noteq> []" using s(8) by (auto elim: segments_of.cases)
  then have "\<exists>w'. run_segments c ev opts d ns (saturating_succ 0) (Some final) w1 = Ok w' \<and>
      sr_violations (wk_report w') = sr_violations (wk_report w1) \<and>
      (wk_trusted_sig w' \<longleftrightarrow> wk_trusted_sig w1 \<or> concat rest \<noteq> []) \<and> wk_seg0 w' = Some h \<and>
      visit_log c ns rest (obs w1) (obs w')"
    using w1(2) t(2) sealed recs saturating_succ_pos clean0(2)
    by (intro run_rest_ok [OF segments_of_cong [OF s(8) same]] pins) (auto simp: after_segment_def)
  then obtain w where r: "run_segments c ev opts d ns (saturating_succ 0) (Some final) w1 = Ok w"
    "sr_violations (wk_report w) = sr_violations (wk_report w1)" "wk_trusted_sig w \<longleftrightarrow> wk_trusted_sig w1 \<or> concat rest \<noteq> []"
    "wk_seg0 w = Some h" "visit_log c ns rest (obs w1) (obs w)" by blast
  obtain hs where "obs w1 = visit_all c 0 0 recs (track hs (obs ?w0))"
    using w1(2) by (auto simp: after_segment_def)
  then have "visit_log c ns rest (visit_all c 0 0 recs (track hs (obs ?w0))) (obs w)" using r(5) by simp
  then have "visit_log c ?segs recss (obs ?w0) (obs w)" unfolding s(1,2) visit_log.simps by blast
  moreover have "run_segments c ev opts d ?segs 0 (Some (replicate 32 0)) ?w0 = Ok w"
    unfolding s(1) run by (rule r(1))
  moreover have "sr_violations (wk_report w) = []" "wk_trusted_sig w"
    using r(2,3) w1(2) clean0(1) recs by (simp_all add: after_segment_def)
  ultimately have w: "run_segments c ev opts d ?segs 0 (Some (replicate 32 0)) ?w0 = Ok w"
    "sr_violations (wk_report w) = []" "wk_trusted_sig w" "wk_seg0 w = Some h"
    "visit_log c ?segs recss (obs ?w0) (obs w)"
    using r(4) by blast+
  have "log_format d = Some FORMAT_VERSION_SIGNED"
  proof -
    have "HEADER_LEN \<le> length content" "take 4 content = FORMAT_MAGIC" "u16_at content 4 = FORMAT_VERSION_SIGNED"
      using hd by (auto simp: header_ok_def from_bytes_unchecked_def u16_at_take HEADER_LEN_def)
    then show ?thesis using s(1,3) by (simp add: log_format_def Let_def HEADER_LEN_def)
  qed
  then show ?thesis using w same s(1) by auto
qed

end
