(* ===== verification/Signed_Codec.thy ===== *)
theory Signed_Codec
  imports Signed_Format
begin

text \<open>
  The codecs of format \<^verbatim>\<open>0x0002\<close> invert each other: headers, envelopes, bodies and frames. The frame
  reader interprets the locale \<open>framing\<close>, so that cut and concatenated frames behave as in format
  \<^verbatim>\<open>0x0001\<close>.
\<close>

lemmas signed_consts = HEADER_LEN_def HEADER_HASHED_LEN_def MAX_ENVELOPE_LEN_def SIG_LEN_def LOG_ID_LEN_def

section \<open>Headers\<close>

definition signed_header_wf :: "signed_header \<Rightarrow> bool" where
  "signed_header_wf h \<longleftrightarrow> length (sh_log_id h) = 16 \<and> length (sh_key_id h) = 32 \<and>
     length (sh_prev_final h) = 32 \<and> length (sh_public_key h) = 32"

lemma length_signed_header_hashed [simp]: "signed_header_wf h \<Longrightarrow> length (signed_header_hashed h) = 124"
  by (simp add: signed_header_hashed_def signed_header_wf_def)

lemma length_signed_header [simp]: "signed_header_wf h \<Longrightarrow> length (signed_header_to_bytes c h) = 128"
  by (simp add: signed_header_to_bytes_def)

lemma signed_header_read:
  fixes c :: "('p, 's) crypto"
  assumes "signed_header_wf h"
  defines "b \<equiv> signed_header_to_bytes c h"
  shows "from_bytes_unchecked b = h" "take 4 b = FORMAT_MAGIC" "take 124 b = signed_header_hashed h"
    "u32_at b 124 = crc32 c (signed_header_hashed h)"
proof -
  have s: "slice b 4 2 = le_bytes 2 (unat (sh_version h))" "slice b 6 2 = le_bytes 2 (unat (sh_segment_index h))"
    "slice b 8 2 = le_bytes 2 (unat (sh_sig_alg h))" "slice b 10 2 = le_bytes 2 (unat (sh_reserved h))"
    "slice b 12 16 = sh_log_id h" "slice b 28 32 = sh_key_id h" "slice b 60 32 = sh_prev_final h"
    "slice b 92 32 = sh_public_key h"
    using assms(1)
    unfolding b_def signed_header_to_bytes_def signed_header_hashed_def slice_def signed_header_wf_def
    by simp_all
  show "from_bytes_unchecked b = h"
    by (cases h) (use s in \<open>simp add: from_bytes_unchecked_def u16_at_le [OF s(1)] u16_at_le [OF s(2)]
      u16_at_le [OF s(3)] u16_at_le [OF s(4)]\<close>)
  show "take 4 b = FORMAT_MAGIC"
    by (simp add: b_def signed_header_to_bytes_def signed_header_hashed_def)
  show t: "take 124 b = signed_header_hashed h"
    using assms(1) by (simp add: b_def signed_header_to_bytes_def)
  have "slice b 124 4 = le_bytes 4 (unat (crc32 c (signed_header_hashed h)))"
    using assms(1) by (simp add: b_def signed_header_to_bytes_def slice_def)
  then show "u32_at b 124 = crc32 c (signed_header_hashed h)" by (rule u32_at_le)
qed

lemma signed_header_exact:
  assumes "length b = 128" "take 4 b = FORMAT_MAGIC" "u32_at b 124 = crc32 c (take 124 b)"
  shows "signed_header_to_bytes c (from_bytes_unchecked b) = b" "signed_header_wf (from_bytes_unchecked b)"
proof -
  show "signed_header_wf (from_bytes_unchecked b)"
    using assms(1) by (simp add: signed_header_wf_def from_bytes_unchecked_def)
  have "take 124 b = slice b 0 124" by (simp add: slice_def)
  also have "\<dots> = slice b 0 4 @ slice b 4 2 @ slice b 6 2 @ slice b 8 2 @ slice b 10 2 @ slice b 12 16
      @ slice b 28 32 @ slice b 60 32 @ slice b 92 32"
    using slice_add [of b 0 4 120] slice_add [of b 4 2 118] slice_add [of b 6 2 116] slice_add [of b 8 2 114]
      slice_add [of b 10 2 112] slice_add [of b 12 16 96] slice_add [of b 28 32 64] slice_add [of b 60 32 32]
    by simp
  finally have h: "signed_header_hashed (from_bytes_unchecked b) = take 124 b"
    using assms(1,2) by (simp add: signed_header_hashed_def from_bytes_unchecked_def le_u16_at slice_def)
  have "b = take 124 b @ slice b 124 4"
    using assms(1) append_take_drop_id [of 124 b] by (simp add: slice_def)
  then show "signed_header_to_bytes c (from_bytes_unchecked b) = b"
    using le_u32_at [of 124 b] assms unfolding signed_header_to_bytes_def h by simp
qed

section \<open>Frames\<close>

type_synonym signed_record = "bytes \<times> bytes \<times> bytes option"

definition sframe :: "signed_record \<Rightarrow> bytes" where
  "sframe = (\<lambda>(env, sig, bdy). frame env sig bdy)"

definition sframe_valid :: "signed_record \<Rightarrow> bool" where
  "sframe_valid = (\<lambda>(env, sig, bdy). length env \<le> MAX_ENVELOPE_LEN \<and> length sig = SIG_LEN \<and>
     (case bdy of None \<Rightarrow> True | Some b \<Rightarrow> b \<noteq> [] \<and> length b < 2 ^ 32))"

definition raw_parts :: "raw_record \<Rightarrow> signed_record" where
  "raw_parts r = (raw_envelope r, raw_signature r, raw_body r)"

definition sframe_read :: "bytes \<Rightarrow> nat \<Rightarrow> signed_record option" where
  "sframe_read content off =
     (case read_frame content off of FrameRecord r \<Rightarrow> Some (raw_parts r) | _ \<Rightarrow> None)"

definition body_bytes :: "bytes option \<Rightarrow> bytes" where
  "body_bytes bdy = (case bdy of None \<Rightarrow> [] | Some b \<Rightarrow> b)"

lemma sframe_eq:
  assumes "sframe_valid (env, sig, bdy)"
  shows "sframe (env, sig, bdy) = le_bytes 4 (length env) @ env @ sig @ le_bytes 4 (length (body_bytes bdy))
    @ body_bytes bdy @ le_bytes 4 (length env)"
    "length (sframe (env, sig, bdy)) = length env + length (body_bytes bdy) + 76"
    "length env \<le> 4096" "length (body_bytes bdy) < 4294967296" "length sig = 64"
  using assms
  by (auto simp: sframe_def sframe_valid_def frame_def body_bytes_def signed_consts Let_def split: option.splits)

lemma u32_at_len: "slice b i 4 = le_bytes 4 n \<Longrightarrow> n < 4294967296 \<Longrightarrow> unat (u32_at b i) = n"
  by (simp add: u32_at_def le_val_le_bytes unat_of_nat)

lemma read_frame_sframe:
  assumes v: "sframe_valid (env, sig, bdy)" and off: "off \<le> length content"
    and d: "drop off content = sframe (env, sig, bdy) @ rest"
  shows "read_frame content off = FrameRecord
    \<lparr>raw_offset = off, raw_envelope = env, raw_signature = sig, raw_body = bdy,
     raw_total_len = length (sframe (env, sig, bdy))\<rparr>"
proof -
  let ?B = "body_bytes bdy"
  note e = sframe_eq [OF v]
  have d0: "drop off content = le_bytes 4 (length env) @ env @ sig @ le_bytes 4 (length ?B) @ ?B
      @ le_bytes 4 (length env) @ rest" using d e(1) by simp
  note d1 = drop_after [OF d0] and d2 = drop_after [OF drop_after [OF d0]]
    and d3 = drop_after [OF drop_after [OF drop_after [OF d0]]]
    and d4 = drop_after [OF drop_after [OF drop_after [OF drop_after [OF d0]]]]
    and d5 = drop_after [OF drop_after [OF drop_after [OF drop_after [OF drop_after [OF d0]]]]]
  have l0: "unat (u32_at content off) = length env"
    using slice_at [OF d0] e by (intro u32_at_len) simp_all
  have s1: "slice content (off + 4) (length env) = env" using slice_at [OF d1] by simp
  have s2: "slice content (off + 4 + length env) 64 = sig" using slice_at [OF d2] e by simp
  have l3: "unat (u32_at content (off + 4 + length env + 64)) = length ?B"
    using slice_at [OF d3] e by (intro u32_at_len) simp_all
  have s4: "slice content (off + (4 + length env + 64 + 4)) (length ?B) = ?B"
    using slice_at [OF d4] e by (simp add: add.assoc)
  have l5: "unat (u32_at content (off + (4 + length env + 64 + 4) + length ?B)) = length env"
  proof (rule u32_at_len)
    have at: "off + (4 + length env + 64 + 4) + length ?B = off + length (le_bytes 4 (length env)) + length env
        + length sig + length (le_bytes 4 (length ?B)) + length ?B" using e(5) by simp
    show "slice content (off + (4 + length env + 64 + 4) + length ?B) 4 = le_bytes 4 (length env)"
      unfolding at by (rule slice_at [OF d5]) simp
  qed (use e in simp)
  have len: "length content - off = length env + length ?B + 76 + length rest"
    using drop_length_bound [OF d off] e(2) by simp
  have same: "u32_at content (off + (4 + length env + 64 + 4) + length ?B) = u32_at content off"
    unfolding word_unat_eq_iff l0 l5 ..
  have bdy: "(if 0 < length ?B then Some ?B else None) = bdy"
    using v by (auto simp: sframe_valid_def body_bytes_def split: option.splits)
  show ?thesis
    unfolding read_frame_def Let_def signed_consts l0 s1 s2 l3 s4 same bdy len
    using e by simp
qed

lemma read_frame_cut:
  assumes v: "sframe_valid r" and off: "off < length content"
    and d: "drop off content = take k (sframe r)" and k: "k < length (sframe r)"
  shows "read_frame content off = FrameTorn off"
proof -
  obtain env sig bdy where r: "r = (env, sig, bdy)" by (cases r)
  let ?B = "body_bytes bdy"
  note e = sframe_eq [OF v [unfolded r]]
  have len: "length content - off = k" using arg_cong [OF d, of length] k by simp
  have f: "sframe r = le_bytes 4 (length env) @ env @ sig @ le_bytes 4 (length ?B) @ ?B @ le_bytes 4 (length env)"
    using e(1) r by simp
  have l0: "unat (u32_at content off) = length env" if "4 \<le> k"
  proof (rule u32_at_len)
    have "slice content off 4 = take 4 (sframe r)" using d that by (simp add: slice_def min_absorb2)
    then show "slice content off 4 = le_bytes 4 (length env)" by (simp add: f)
  qed (use e in simp)
  have l3: "unat (u32_at content (off + 4 + length env + 64)) = length ?B" if "72 + length env + 4 \<le> k"
  proof (rule u32_at_len)
    have "drop (off + 4 + length env + 64) content = drop (4 + length env + 64) (drop off content)"
      by (simp add: add.commute add.left_commute)
    also have "\<dots> = drop (4 + length env + 64) (take k (sframe r))" using d by simp
    also have "\<dots> = take (k - (68 + length env)) (drop (68 + length env) (sframe r))"
      by (simp add: drop_take)
    also have "drop (68 + length env) (sframe r) = le_bytes 4 (length ?B) @ ?B @ le_bytes 4 (length env)"
      using e(5) by (simp add: f)
    finally show "slice content (off + 4 + length env + 64) 4 = le_bytes 4 (length ?B)"
      using that by (simp add: slice_def min_absorb1)
  qed (use e in simp)
  have k': "k < length env + length ?B + 76" "0 < k" using k e(2) len off r by simp_all
  show ?thesis
  proof (cases "4 \<le> k")
    case True
    then show ?thesis
      unfolding read_frame_def Let_def signed_consts len l0 [OF True]
      using k' l3 e(3) by (simp add: add.commute add.left_commute)
  qed (use k' len in \<open>simp add: read_frame_def Let_def\<close>)
qed

lemma read_frame_Record:
  assumes "read_frame content off = FrameRecord raw"
  shows "off < length content" "raw_offset raw = off" "sframe_valid (raw_parts raw)"
    "drop off content = sframe (raw_parts raw) @ drop (off + raw_total_len raw) content"
    "raw_total_len raw = length (sframe (raw_parts raw))"
    "off + raw_total_len raw \<le> length content"
proof -
  define n where "n = unat (u32_at content off)"
  define m where "m = unat (u32_at content (off + 4 + n + 64))"
  from assms have c: "off < length content" "n \<le> 4096" "n + m + 76 \<le> length content - off"
    "u32_at content (off + (4 + n + 64 + 4) + m) = u32_at content off"
    and raw: "raw = \<lparr>raw_offset = off, raw_envelope = slice content (off + 4) n,
      raw_signature = slice content (off + 4 + n) 64,
      raw_body = (if 0 < m then Some (slice content (off + (4 + n + 64 + 4)) m) else None),
      raw_total_len = 4 + n + 64 + 4 + m + 4\<rparr>"
    unfolding read_frame_def Let_def signed_consts n_def m_def by (auto split: if_splits)
  let ?env = "slice content (off + 4) n" and ?sig = "slice content (off + 4 + n) 64"
    and ?B = "slice content (off + (4 + n + 64 + 4)) m"
  show off: "off < length content" "raw_offset raw = off" using c raw by simp_all
  have m32: "m < 4294967296" by (simp add: m_def)
  have B: "body_bytes (raw_body raw) = ?B" by (simp add: raw body_bytes_def slice_def)
  show v: "sframe_valid (raw_parts raw)"
  proof -
    have "length ?env = n" "length ?sig = 64" "length ?B = m" using c by simp_all
    moreover have "0 < m \<Longrightarrow> ?B \<noteq> []" using \<open>length ?B = m\<close> by (metis length_greater_0_conv)
    ultimately show ?thesis using c(2) m32
      by (simp add: raw raw_parts_def sframe_valid_def signed_consts del: length_slice)
  qed
  have parts: "raw_parts raw = (?env, ?sig, raw_body raw)" by (simp add: raw raw_parts_def)
  note e = sframe_eq [OF v [unfolded parts], folded parts, unfolded B]
  have lens: "length ?env = n" "length ?B = m" using c by simp_all
  have o1: "off + (4 + n + 64 + 4) = off + 4 + n + 64 + 4"
    and o2: "4 + n + 64 + 4 + m + 4 = 4 + (n + (64 + (4 + (m + 4))))" by simp_all
  have "slice content off (4 + n + 64 + 4 + m + 4) = slice content off 4 @ ?env @ ?sig @
      slice content (off + 4 + n + 64) 4 @ ?B @ slice content (off + (4 + n + 64 + 4) + m) 4"
    unfolding o1 o2 by (simp only: slice_add)
  also have "slice content off 4 = le_bytes 4 n" using le_u32_at [of off content] c by (simp add: n_def)
  also have "slice content (off + 4 + n + 64) 4 = le_bytes 4 m"
    using le_u32_at [of "off + 4 + n + 64" content] c by (simp add: m_def)
  also have "slice content (off + (4 + n + 64 + 4) + m) 4 = le_bytes 4 n"
    using le_u32_at [of "off + (4 + n + 64 + 4) + m" content] c by (simp add: n_def)
  finally have sl: "slice content off (raw_total_len raw) = sframe (raw_parts raw)"
    unfolding e(1) lens by (simp add: raw)
  have tot: "raw_total_len raw = n + m + 76" by (simp add: raw)
  show le: "off + raw_total_len raw \<le> length content" using c tot by simp
  show "raw_total_len raw = length (sframe (raw_parts raw))" using sl le by (metis add_diff_cancel_left'
    length_slice min.absorb1 diff_le_mono)
  show "drop off content = sframe (raw_parts raw) @ drop (off + raw_total_len raw) content"
    using slice_drop_append [OF le] sl by simp
qed

interpretation sframes: framing sframe sframe_valid sframe_read
proof
  show "sframe r \<noteq> []" if "sframe_valid r" for r
    using sframe_eq(2) [of "fst r" "fst (snd r)" "snd (snd r)"] that by auto
  show "sframe_read content off = Some r"
    if "sframe_valid r" "off \<le> length content" "drop off content = sframe r @ rest" for r off content rest
    using that read_frame_sframe [of "fst r" "fst (snd r)" "snd (snd r)" off content rest]
    by (simp add: sframe_read_def raw_parts_def)
  show "sframe_read content off = None"
    if "sframe_valid r" "off < length content" "drop off content = take k (sframe r)" "k < length (sframe r)"
    for r off content k
    using read_frame_cut [OF that] by (simp add: sframe_read_def)
  show "sframe_valid r \<and> (\<exists>rest. drop off content = sframe r @ rest)"
    if "off < length content" and rd: "sframe_read content off = Some r" for r off content
  proof -
    obtain raw where "read_frame content off = FrameRecord raw" "r = raw_parts raw"
      using rd by (auto simp: sframe_read_def split: frame_result.splits)
    then show ?thesis using read_frame_Record(3,4) by blast
  qed
qed

section \<open>Envelopes and bodies\<close>

definition env_value :: "envelope \<Rightarrow> cbor_value" where
  "env_value e = VMap
     [(VUint 1, VUint (en_record_id e)), (VUint 2, VBytes (en_prev_hash e)), (VUint 3, VText (en_ts_wall e)),
      (VUint 4, VUint (en_ts_mono_delta e)), (VUint 5, VBytes (en_session_id e)), (VUint 7, VText (en_event e)),
      (VUint 9, VBytes (en_key_id e)), (VUint 10, VUint (ucast (en_schema_version e))),
      (VUint 11, VUint (ucast (en_segment_index e))), (VUint 12, VUint (ucast (en_sig_alg e))),
      (VUint 13, VBytes (en_body_hash e))]"

text \<open>What the types of an envelope and the decoder's schema require.\<close>

definition env_wf :: "envelope \<Rightarrow> bool" where
  "env_wf e \<longleftrightarrow> length (en_prev_hash e) = 32 \<and> length (en_session_id e) = 16 \<and> length (en_key_id e) = 32 \<and>
     length (en_body_hash e) = 32 \<and> small (en_ts_wall e) \<and> valid_utf8 (en_ts_wall e) \<and> event_ok (en_event e)"

lemma event_ok_ascii: "event_ok s \<Longrightarrow> valid_utf8 s \<and> length s \<le> 128"
proof -
  assume "event_ok s"
  then have l: "length s \<le> 128" and b: "\<forall>b \<in> set s. b \<le> 0x7e" by (auto simp: event_ok_def list_all_iff)
  have "\<forall>b \<in> set s. b < 0x80" using b by (auto simp: word_le_nat_alt word_less_nat_alt)
  then show ?thesis using l valid_utf8_ascii by blast
qed

lemma u16_in_u64: "unat (ucast (b :: u16) :: u64) = unat b"
proof -
  have "unat b < 2 ^ 64" by (rule less_trans [OF unat_u16_less]) simp
  then show ?thesis by (simp add: unsigned_ucast_eq take_bit_eq_mod)
qed

lemma u16_u64_u16 [simp]: "ucast (ucast (b :: u16) :: u64) = b" "\<not> 65535 < (ucast (b :: u16) :: u64)"
proof -
  have "unat b \<le> 65535" using unat_u16_less [of b] by linarith
  then show "\<not> 65535 < (ucast (b :: u16) :: u64)" by (simp add: word_less_nat_alt u16_in_u64)
  show "ucast (ucast (b :: u16) :: u64) = b"
    unfolding word_unat_eq_iff unsigned_ucast_eq [of "ucast b :: u64"] u16_in_u64
    using unat_u16_less [of b] by (simp add: take_bit_eq_mod)
qed

lemma envelope_encode_eq: "envelope_encode e = enc (env_value e)"
proof -
  have sort: "canonical_sort [([1], a), ([2], b), ([3], c), ([4], d), ([5], f), ([7], g), ([9], h),
      ([10], i), ([11], j), ([12], k), ([13], l)] = [([1], a), ([2], b), ([3], c), ([4], d), ([5], f),
      ([7], g), ([9], h), ([10], i), ([11], j), ([12], k), ([13], l)]" for a b c d f g h i j k l
    unfolding canonical_sort_def by (rule sort_key_id) simp
  show ?thesis by (simp add: envelope_encode_def map_int_keys_def small_uint sort env_value_def)
qed

lemma env_value_wfv: "env_wf e \<Longrightarrow> wfv 0 (env_value e)"
  using event_ok_ascii [of "en_event e"]
  by (simp add: env_value_def env_wf_def small_uint key_order_canonical_def small_def MAX_CBOR_DEPTH_def)

lemma envelope_round_trip_bytes:
  assumes "env_wf e" "length (envelope_encode e) < 2 ^ 63"
  shows "envelope_decode (envelope_encode e) = Ok e"
proof -
  have "decode (envelope_encode e) = Ok (env_value e)"
    using assms env_value_wfv by (simp add: envelope_encode_eq decode_enc)
  moreover have "\<not> 255 < (ucast (en_schema_version e) :: u64)" by (simp only: not_less u8_u64_u8)
  moreover have "\<not> (14 :: u64) \<le> 1" by (simp add: word_le_nat_alt)
  ultimately show ?thesis using assms(1)
    by (simp add: envelope_decode_def int_map_def env_value_def envelope_key_def get_uint_def
        get_text_def get_small_def fixed_bytes_def env_wf_def layout_consts)
qed

lemma env_encode_inject:
  assumes "env_wf e" "env_wf e'" "envelope_encode e = envelope_encode e'" "length (envelope_encode e) < 2 ^ 63"
  shows "e = e'"
proof -
  have "envelope_decode (envelope_encode e) = Ok e" by (rule envelope_round_trip_bytes [OF assms(1,4)])
  moreover have "envelope_decode (envelope_encode e) = Ok e'"
    unfolding assms(3) by (rule envelope_round_trip_bytes [OF assms(2) assms(4) [unfolded assms(3)]])
  ultimately show ?thesis by simp
qed

definition body_value :: "bytes \<Rightarrow> (bytes, payload_value) btree \<Rightarrow> bytes \<Rightarrow> cbor_value" where
  "body_value actor payload nonce =
     VMap [(VUint 6, VText actor), (VUint 8, to_value (PMap payload)), (VUint 14, VBytes nonce)]"

definition body_wf :: "bytes \<Rightarrow> (bytes, payload_value) btree \<Rightarrow> bytes \<Rightarrow> bool" where
  "body_wf actor payload nonce \<longleftrightarrow> small actor \<and> valid_utf8 actor \<and> pv_wf 1 (PMap payload) \<and> length nonce = 32"

lemma encode_body_eq:
  assumes "body_wf actor payload nonce"
  shows "encode_body actor payload nonce = Some (enc (body_value actor payload nonce))"
proof -
  have p: "encode_payload_map payload = Some (enc (to_value (PMap payload)))"
    using assms pv_encode_enc [of 1 "PMap payload"] by (simp only: encode_payload_map_eq body_wf_def)
  have sort: "canonical_sort [([6], a), ([8], b), ([14], c)] = [([6], a), ([8], b), ([14], c)]" for a b c
    unfolding canonical_sort_def by (rule sort_key_id) simp
  show ?thesis
    by (simp add: encode_body_def p map_int_keys_def small_uint sort body_value_def del: to_value.simps)
qed

lemma body_value_wfv:
  assumes "body_wf actor payload nonce"
  shows "wfv 0 (body_value actor payload nonce)"
proof -
  have "wfv 1 (to_value (PMap payload))"
    using assms by (intro pv_wf_wfv) (simp only: body_wf_def)
  then show ?thesis using assms
    by (simp add: body_value_def small_uint key_order_canonical_def body_wf_def small_def
        MAX_CBOR_DEPTH_def del: to_value.simps)
qed

lemma body_round_trip_bytes:
  assumes "body_wf actor payload nonce" "encode_body actor payload nonce = Some b" "length b < 2 ^ 63"
  shows "body_decode b = Ok \<lparr>bd_actor = actor, bd_payload = to_value (PMap payload), bd_nonce = nonce\<rparr>"
proof -
  have "decode b = Ok (body_value actor payload nonce)"
    using assms body_value_wfv [OF assms(1)] encode_body_eq [OF assms(1)] decode_enc by auto
  moreover have "\<not> list_ex (\<lambda>(k, _). \<not> is_text k)
      (sort_key (\<lambda>(k, v). (length (enc k), enc k)) (map (\<lambda>(k, v). (VText k, to_value v)) payload))"
    by (auto simp: list_ex_iff is_text_def)
  ultimately show ?thesis using assms(1)
    by (simp add: body_decode_def int_map_def body_value_def body_key_def fixed_bytes_def body_wf_def)
qed

end
