(* ===== verification/Statement_Codec.thy ===== *)
theory Statement_Codec
  imports Trust_Load Signed_Codec
begin

text \<open>
  The documents of key statements read back: the members of a JSON object, heads, and whole
  statements, from the key holders' signatures to the verifier's loading of the files.
\<close>

section \<open>Members of an object\<close>

lemma ascii_inject [simp]: "ascii s = ascii t \<longleftrightarrow> s = t"
proof -
  have "inj (of_char :: char \<Rightarrow> u8)"
  proof (rule injI)
    fix x y :: char assume "(of_char x :: u8) = of_char y"
    then have "unat (of_nat (of_char x) :: u8) = unat (of_nat (of_char y) :: u8)"
      by (simp only: of_nat_of_char)
    then show "x = y" by (simp add: unat_of_nat)
  qed
  then show ?thesis by (simp add: ascii_def inj_map_eq_map)
qed

abbreviation members :: "(string \<times> json) list \<Rightarrow> (bytes, json) btree" where
  "members \<equiv> map (\<lambda>(k, v). (ascii k, v))"

lemma fold_insert_sorted:
  "sorted_wrt (<) (map (\<lambda>(k, v). ascii k) items) \<Longrightarrow>
   \<forall>l \<in> fst ` set m. \<forall>k \<in> fst ` set items. l < ascii k \<Longrightarrow>
   fold (\<lambda>(k, v). bt_insert (ascii k) v) items m = m @ members items"
proof (induction items arbitrary: m)
  case (Cons kv items)
  obtain k v where kv: "kv = (k, v)" by (cases kv)
  have "bt_insert (ascii k) v m = m @ [(ascii k, v)]"
    using Cons.prems(2) kv by (intro bt_insert_last) auto
  moreover have "fold (\<lambda>(k, v). bt_insert (ascii k) v) items (m @ [(ascii k, v)]) =
      (m @ [(ascii k, v)]) @ members items"
    using Cons.prems kv by (intro Cons.IH) auto
  ultimately show ?case using kv by simp
qed simp

lemma json_object_sorted:
  "sorted_wrt (<) (map (\<lambda>(k, v). ascii k) items) \<Longrightarrow> json_object items = JObject (members items)"
  by (simp add: json_object_def fold_insert_sorted)

lemma json_get_members: "json_get (JObject (members items)) (ascii k) = map_of items k"
  by (induction items) (auto simp: json_get_def)

lemmas field_defs = int_field_def string_field_def hex_field_def array_field_def json_get_members
  as_str_def as_u64_def as_array_def

lemma json_ok_members:
  assumes "sorted_wrt (<) (map (\<lambda>(k, v). ascii k) items)"
    and "list_all (\<lambda>(k, v). list_all (\<lambda>b. b < 128) (ascii k) \<and> json_ok l v) items"
  shows "json_ok (Suc l) (JObject (members items))"
  using assms by (simp add: bt_wf_def comp_def case_prod_unfold list_all_length)

lemma valid_utf8_hex [simp]: "valid_utf8 (hex b)"
  using hex_chars(1) by (intro valid_utf8_ascii) auto

lemma hex_array_read:
  assumes "list_all (\<lambda>h. length h = 32) hs"
  shows "map_res (\<lambda>x. ok_or () (Option.bind (as_str x) (unhex_lower 32))) (map (\<lambda>h. JString (hex h)) hs) = Ok hs"
  using assms by (induction hs) (simp_all add: as_str_def unhex_lower_hex)

section \<open>Heads\<close>

definition head_ok :: "log_head \<Rightarrow> bool" where
  "head_ok h \<longleftrightarrow> length (hd_log_id h) = 16 \<and> length (hd_record_hash h) = 32 \<and>
     hd_record_id h \<le> MAX_SAFE_INT \<and> hd_record_count h \<le> MAX_SAFE_INT"

lemma head_to_json_members:
  "head_to_json h = JObject (members
     [(''log_id'', JString (hex (hd_log_id h))), (''record_count'', JInt (hd_record_count h)),
      (''record_hash'', JString (hex (hd_record_hash h))), (''record_id'', JInt (hd_record_id h)),
      (''segment'', JInt (ucast (hd_segment h)))])"
  unfolding head_to_json_def by (rule json_object_sorted) (simp add: ascii_def)

lemma u16_as_u64: "unat (ucast (b :: u16) :: u64) < 2 ^ 16"
  using unsigned_less [of b] by (simp add: u16_in_u64)

lemma ucast_ucast_u16: "ucast (ucast (b :: u16) :: u64) = b"
  by transfer (simp add: take_bit_eq_mod)

lemma head_round_trip:
  assumes "head_ok h"
  shows "head_from_json (head_to_json h) = Ok h"
proof -
  have seg: "unat (ucast (hd_segment h) :: u64) < 2 ^ 16" "ucast (ucast (hd_segment h) :: u64) = hd_segment h"
    by (rule u16_as_u64, rule ucast_ucast_u16)
  show ?thesis
    using assms seg
    unfolding head_from_json_def head_to_json_members
    by (simp add: field_defs as_object_def head_ok_def unhex_lower_hex del: list.map)
qed

lemma head_json_ok:
  assumes "head_ok h"
  shows "json_ok (Suc l) (head_to_json h)"
proof -
  have "unat (ucast (hd_segment h) :: u64) < 2 ^ 16"
    by (rule u16_as_u64)
  then have "(ucast (hd_segment h) :: u64) \<le> MAX_SAFE_INT"
    by (simp add: MAX_SAFE_INT_def word_le_nat_alt)
  then show ?thesis
    using assms unfolding head_to_json_members
    by (intro json_ok_members) (simp_all add: ascii_def head_ok_def)
qed

lemma heads_read:
  assumes "list_all head_ok hs"
  shows "map_res head_from_json (map head_to_json hs) = Ok hs"
  using assms by (induction hs) (simp_all add: head_round_trip)

lemma heads_json_ok: "list_all head_ok hs \<Longrightarrow> json_ok (Suc (Suc l)) (JArray (map head_to_json hs))"
  by (induction hs) (simp_all add: head_json_ok)

lemma hex_array_json_ok: "json_ok (Suc l) (hex_array hs)"
  by (simp add: hex_array_def list_all_iff)

section \<open>Statements\<close>

definition signer_ok :: "signer \<Rightarrow> bool" where
  "signer_ok sg \<longleftrightarrow> length (pk_bytes (sg_public_key sg)) = 32 \<and>
     (\<forall>ns m sig. sg_sign sg ns m = Ok sig \<longrightarrow> length sig = 64)"

lemma public_key_eq: "ed25519_key (pk_bytes k) = k"
  by (cases k; cases "pk_alg k") (simp add: ed25519_key_def)

text \<open>What a checked signature is worth: the armored text names the signer and verifies.\<close>

lemma detached_verifies:
  assumes "sign_detached c sg ns m = Ok s" "signer_ok sg" "base64_ok c" "length ns \<le> 1024"
  shows "verify_detached_by c s ns m (fingerprint_of c (sg_public_key sg)) = Ok (sg_public_key sg)"
    and "length s \<le> MAX_SIG_FILE"
proof -
  obtain sig where sig: "sg_sign sg ns m = Ok sig" "s = armor c (sg_public_key sg) ns sig"
    "ed25519_verify c (pk_bytes (sg_public_key sg)) (signed_data c ns m) sig = Ok ()"
    using assms(1) by (auto simp: sign_detached_def sign_checked_def result_elims)
  have len: "length sig = 64" "length (pk_bytes (sg_public_key sg)) = 32"
    using assms(2) sig(1) unfolding signer_ok_def by blast+
  have d: "dearmor c s = Ok (blob (sg_public_key sg) ns sig)"
    unfolding sig(2) by (rule dearmor_armor [OF assms(3) len(2,1) assms(4)])
  then show "length s \<le> MAX_SIG_FILE" by (auto simp: dearmor_def split: if_splits)
  have "parse_blob (blob (sg_public_key sg) ns sig) ns = Ok \<lparr>ss_key = sg_public_key sg, ss_signature = sig\<rparr>"
    using len assms(4) by (intro parse_blob_blob) simp_all
  then show "verify_detached_by c s ns m (fingerprint_of c (sg_public_key sg)) = Ok (sg_public_key sg)"
    using d sig(3) by (simp add: verify_detached_by_def parse_armored_def)
qed

definition files_of :: "dir \<Rightarrow> filesystem" where
  "files_of d = map (\<lambda>(n, b). (n, RegularFile b)) d"

lemma files_of_get [simp]: "map_of (files_of d) n = map_option RegularFile (dir_get d n)"
  by (simp add: files_of_def map_of_map_snd)

lemma statement_files:
  fixes name :: bytes
  shows "dir_get (statement_write s name d) (name @ ascii ''.json'') = Some (sst_json s)"
    and "dir_get (statement_write s name d) ((name @ ascii ''.json'') @ ascii ''.sig'') = Some (sst_sig s)"
    and "sst_accept_sig s = Some a \<Longrightarrow>
      dir_get (statement_write s name d) ((name @ ascii ''.json'') @ ascii ''.accept.sig'') = Some a"
proof -
  have e: "(name @ ascii ''.json'') @ ascii ''.sig'' = name @ ascii ''.json.sig''"
    "(name @ ascii ''.json'') @ ascii ''.accept.sig'' = name @ ascii ''.json.accept.sig''"
    by (simp_all add: ascii_def)
  show "dir_get (statement_write s name d) (name @ ascii ''.json'') = Some (sst_json s)"
    "dir_get (statement_write s name d) ((name @ ascii ''.json'') @ ascii ''.sig'') = Some (sst_sig s)"
    "sst_accept_sig s = Some a \<Longrightarrow>
      dir_get (statement_write s name d) ((name @ ascii ''.json'') @ ascii ''.accept.sig'') = Some a"
    unfolding e by (simp_all add: statement_write_def Let_def dir_get_put split: option.splits)
qed

text \<open>Strings a statement may carry.\<close>

definition reason_ok :: "bytes option \<Rightarrow> bool" where
  "reason_ok r = (case r of None \<Rightarrow> True | Some s \<Rightarrow> valid_utf8 s \<and> check_string s = Ok ())"

definition issued_ok :: "bytes \<Rightarrow> bool" where
  "issued_ok t \<longleftrightarrow> valid_utf8 t \<and> parse_rfc3339_millis t \<noteq> None"

lemma valid_utf8_openssh:
  assumes "base64_ok c"
  shows "valid_utf8 (to_openssh c k [])"
proof (rule valid_utf8_ascii, rule ballI)
  fix b assume "b \<in> set (to_openssh c k [])"
  moreover have "\<forall>x \<in> set (base64_encode c (key_blob k)). x < 128"
    using assms base64_char by (auto simp: base64_ok_def list_all_iff)
  ultimately show "b < 0x80"
    by (cases "pk_alg k") (auto simp: to_openssh_def ascii_def)
qed

lemma valid_utf8_literal [simp]: "list_all (\<lambda>b. b < 128) (ascii s) \<Longrightarrow> valid_utf8 (ascii s)"
  by (intro valid_utf8_ascii) (auto simp: list_all_iff)

lemma parse_doc_written:
  assumes "json_ok l v" "length (to_canonical v) \<le> MAX_STATEMENT_BYTES"
  shows "parse_doc (to_canonical v) l = Ok v"
  using assms by (simp add: parse_doc_def parse_canonical_written)

abbreviation transition_members ::
  "('p, 's) crypto \<Rightarrow> public_key \<Rightarrow> public_key \<Rightarrow> log_head list \<Rightarrow> bytes list \<Rightarrow> bytes \<Rightarrow> bytes option
    \<Rightarrow> (string \<times> json) list" where
  "transition_members c old new heads rels issued_at reason \<equiv>
     [(''final_heads'', JArray (map head_to_json heads)), (''final_releases'', hex_array rels),
      (''format'', JString TRANSITION_FORMAT), (''issued_at'', JString issued_at),
      (''new_key_id'', JString (hex (fingerprint_of c new))),
      (''new_public_key'', JString (to_openssh c new [])),
      (''old_key_id'', JString (hex (fingerprint_of c old)))] @ reason_member reason"

lemma transition_doc_members:
  "transition_doc c old new heads rels issued_at reason =
     JObject (members (transition_members c old new heads rels issued_at reason))"
  unfolding transition_doc_def
  by (rule json_object_sorted) (simp add: ascii_def reason_member_def split: option.splits)

lemma transition_json_ok:
  assumes "base64_ok c" "list_all head_ok heads" "issued_ok issued_at" "reason_ok reason"
  shows "json_ok 3 (transition_doc c old new heads rels issued_at reason)"
proof -
  have "json_ok (Suc (Suc (Suc 0))) (JObject (members (transition_members c old new heads rels issued_at reason)))"
  proof (rule json_ok_members)
    show "sorted_wrt (<) (map (\<lambda>(k, v). ascii k) (transition_members c old new heads rels issued_at reason))"
      by (simp add: ascii_def reason_member_def split: option.splits)
    show "list_all (\<lambda>(k, v). list_all (\<lambda>b. b < 128) (ascii k) \<and> json_ok (Suc (Suc 0)) v)
        (transition_members c old new heads rels issued_at reason)"
      using assms heads_json_ok [of heads 0] hex_array_json_ok valid_utf8_openssh
      by (simp add: reason_member_def reason_ok_def issued_ok_def TRANSITION_FORMAT_def
          valid_utf8_ascii ascii_def split: option.splits)
  qed
  then show ?thesis by (simp only: transition_doc_members numeral_3_eq_3)
qed

lemma check_members_of:
  "set (map fst items) \<subseteq> set allowed \<Longrightarrow> check_members (JObject (members items)) allowed = Ok ()"
  by (auto simp: check_members_def as_object_def list_all_iff)

lemma reason_read:
  assumes "reason_ok reason" "map_of items ''reason'' = map_option JString reason"
  shows "check_reason (JObject (members items)) = Ok reason"
  using assms by (cases reason) (simp_all add: check_reason_def json_get_members reason_ok_def)

lemma transition_loads:
  assumes made: "transition c old new heads rels issued_at reason = Ok s"
    and signers: "signer_ok old" "signer_ok new" "is_strong c (sg_public_key new)"
    and env: "base64_ok c" "base64_nonempty c" "\<forall>x. length (sha256 c x) = 32"
    and fields: "list_all head_ok heads" "list_all (\<lambda>h. length h = 32) rels" "issued_ok issued_at" "reason_ok reason"
    and small: "length (sst_json s) \<le> MAX_STATEMENT_BYTES"
  shows "load_statement c (files_of (statement_write s name d)) (name @ ascii ''.json'') src =
    Ok (StTransition \<lparr>tr_sha256 = sha256 c (sst_json s),
      tr_old_key_id = fingerprint_of c (sg_public_key old), tr_old_key = sg_public_key old,
      tr_new_key = sg_public_key new, tr_final_heads = heads, tr_final_releases = rels,
      tr_issued_at = issued_at, tr_source = src\<rparr>)"
proof -
  let ?old = "sg_public_key old" and ?new = "sg_public_key new"
  let ?doc = "transition_doc c ?old ?new heads rels issued_at reason"
  let ?items = "transition_members c ?old ?new heads rels issued_at reason"
  obtain acc where s: "sst_json s = to_canonical ?doc" "sst_accept_sig s = Some acc"
    "sign_detached c old NS_TRANSITION (sst_json s) = Ok (sst_sig s)"
    "sign_detached c new NS_TRANSITION_ACCEPT (sst_json s) = Ok acc"
    using made by (auto simp: transition_def Let_def result_elims accept_transition_def transition_json_def)
  have ns: "length NS_TRANSITION \<le> 1024" "length NS_TRANSITION_ACCEPT \<le> 1024"
    by (simp_all add: namespace_defs ascii_def)
  note sig = detached_verifies [OF s(3) signers(1) env(1) ns(1)]
  note acc = detached_verifies [OF s(4) signers(2) env(1) ns(2)]
  have doc: "parse_doc (sst_json s) 3 = Ok ?doc"
    using parse_doc_written transition_json_ok fields env(1) small unfolding s(1) by blast
  have lens: "length (fingerprint_of c k) = 32" for k using env(3) by (simp add: fingerprint_of_def)
  have look: "json_get ?doc (ascii k) = map_of ?items k" for k
    unfolding transition_doc_members by (rule json_get_members)
  have reason: "check_reason ?doc = Ok reason"
    unfolding transition_doc_members
    using fields(4) by (rule reason_read) (simp add: reason_member_def split: option.splits)
  have members: "check_members ?doc [''final_heads'', ''final_releases'', ''format'', ''issued_at'',
       ''new_key_id'', ''new_public_key'', ''old_key_id'', ''reason''] = Ok ()"
    unfolding transition_doc_members
    by (rule check_members_of) (auto simp: reason_member_def)
  have key: "key_parse c (to_openssh c ?new []) = Ok ?new"
    using signers(2) by (intro key_parse_openssh env) (simp add: signer_ok_def)
  have heads: "head_list ?doc ''final_heads'' = Ok heads"
    by (simp add: head_list_def array_field_def look as_array_def heads_read fields)
  have rels: "hex_list ?doc ''final_releases'' = Ok rels"
    by (simp add: hex_list_def array_field_def look as_array_def hex_array_def hex_array_read fields)
  have time: "check_timestamp ?doc ''issued_at'' = Ok issued_at"
    using fields(3) by (auto simp: check_timestamp_def string_field_def look as_str_def issued_ok_def)
  have ids: "hex_field 32 ?doc ''old_key_id'' = Ok (fingerprint_of c ?old)"
    "hex_field 32 ?doc ''new_key_id'' = Ok (fingerprint_of c ?new)"
    by (simp_all add: hex_field_def string_field_def look as_str_def unhex_lower_hex lens)
  have str: "string_field ?doc ''new_public_key'' = Ok (to_openssh c ?new [])"
    "string_field ?doc ''format'' = Ok TRANSITION_FORMAT"
    by (simp_all add: string_field_def look as_str_def)
  let ?fs = "files_of (statement_write s name d)" and ?path = "name @ ascii ''.json''"
  have files: "read_limited ?fs ?path MAX_STATEMENT_BYTES = Ok (sst_json s)"
    "read_limited ?fs (?path @ ascii ''.sig'') MAX_SIG_FILE = Ok (sst_sig s)"
    "read_limited ?fs (?path @ ascii ''.accept.sig'') MAX_SIG_FILE = Ok acc"
    using statement_files(1,2) [of s name d] statement_files(3) [OF s(2), of name d] sig(2) acc(2) small
    by (simp_all only: read_limited_def files_of_get) (simp_all add: not_less)
  have alg: "strength (pk_alg ?new) = strength (pk_alg ?old)"
    by (cases "pk_alg ?old"; cases "pk_alg ?new") simp
  have "load_transition c ?fs ?path src (sst_json s) ?doc (sst_sig s) =
    Ok \<lparr>tr_sha256 = sha256 c (sst_json s), tr_old_key_id = fingerprint_of c ?old, tr_old_key = ?old,
      tr_new_key = ?new, tr_final_heads = heads, tr_final_releases = rels,
      tr_issued_at = issued_at, tr_source = src\<rparr>"
    unfolding load_transition_def
    using signers(3) alg
    by (simp add: members ids str key heads rels time reason files sig(1) acc(1) del: append_assoc)
  then show ?thesis
    unfolding load_statement_def by (simp add: files doc str del: append_assoc)
qed

definition cuts_ok :: "statement_cuts \<Rightarrow> bool" where
  "cuts_ok cu \<longleftrightarrow> list_all head_ok (sc_trusted_heads cu) \<and>
     list_all (\<lambda>h. length h = 32) (sc_trusted_releases cu) \<and>
     list_all (\<lambda>h. length h = 32) (sc_trusted_successors cu)"

text \<open>The cut points that a revocation document carries: none in a self-revocation.\<close>

definition effective_cuts :: "('p, 's) crypto \<Rightarrow> public_key \<Rightarrow> fingerprint \<Rightarrow> statement_cuts \<Rightarrow> statement_cuts" where
  "effective_cuts c revoker revoked cuts = (if fingerprint_of c revoker = revoked then no_cuts else cuts)"

abbreviation revocation_items ::
  "('p, 's) crypto \<Rightarrow> public_key \<Rightarrow> fingerprint \<Rightarrow> statement_cuts \<Rightarrow> bytes \<Rightarrow> (string \<times> json) list" where
  "revocation_items c revoker revoked cu issued_at \<equiv>
     [(''revoked_key_id'', JString (hex revoked)),
      (''revoker_key_id'', JString (hex (fingerprint_of c revoker))),
      (''trusted_heads'', JArray (map head_to_json (sc_trusted_heads cu))),
      (''trusted_releases'', hex_array (sc_trusted_releases cu)),
      (''trusted_successors'', hex_array (sc_trusted_successors cu))]"

abbreviation revocation_members ::
  "('p, 's) crypto \<Rightarrow> public_key \<Rightarrow> fingerprint \<Rightarrow> statement_cuts \<Rightarrow> bytes \<Rightarrow> bytes option \<Rightarrow> (string \<times> json) list" where
  "revocation_members c revoker revoked cu issued_at reason \<equiv>
     [(''format'', JString REVOCATION_FORMAT), (''issued_at'', JString issued_at)] @ reason_member reason
     @ revocation_items c revoker revoked cu issued_at"

lemma revocation_doc_members:
  "revocation_doc c revoker revoked cuts issued_at reason =
     JObject (members (revocation_members c revoker revoked (effective_cuts c revoker revoked cuts) issued_at reason))"
  unfolding revocation_doc_def effective_cuts_def [symmetric] Let_def
  by (cases reason) (simp_all add: json_object_def reason_member_def ascii_def)

lemma revocation_json_ok:
  assumes "cuts_ok cuts" "issued_ok issued_at" "reason_ok reason"
  shows "json_ok 3 (revocation_doc c revoker revoked cuts issued_at reason)"
proof -
  let ?cu = "effective_cuts c revoker revoked cuts"
  let ?items = "revocation_members c revoker revoked ?cu issued_at reason"
  have cu: "list_all head_ok (sc_trusted_heads ?cu)"
    using assms(1) by (simp add: effective_cuts_def no_cuts_def cuts_ok_def)
  have "json_ok (Suc (Suc (Suc 0))) (JObject (members ?items))"
  proof (rule json_ok_members)
    show "sorted_wrt (<) (map (\<lambda>(k, v). ascii k) ?items)"
      by (simp add: ascii_def reason_member_def split: option.splits)
    show "list_all (\<lambda>(k, v). list_all (\<lambda>b. b < 128) (ascii k) \<and> json_ok (Suc (Suc 0)) v) ?items"
      using assms cu heads_json_ok [of "sc_trusted_heads ?cu" 0] hex_array_json_ok
      by (simp add: reason_member_def reason_ok_def issued_ok_def REVOCATION_FORMAT_def
          valid_utf8_ascii ascii_def split: option.splits)
  qed
  then show ?thesis by (simp only: revocation_doc_members numeral_3_eq_3)
qed

lemma revocation_loads:
  assumes made: "revocation c revoker revoked cuts issued_at reason = Ok s"
    and signers: "signer_ok revoker" "length revoked = 32"
    and env: "base64_ok c" "\<forall>x. length (sha256 c x) = 32"
    and fields: "cuts_ok cuts" "issued_ok issued_at" "reason_ok reason"
    and small: "length (sst_json s) \<le> MAX_STATEMENT_BYTES"
  shows "load_statement c (files_of (statement_write s name d)) (name @ ascii ''.json'') src =
    (let cu = effective_cuts c (sg_public_key revoker) revoked cuts in
     Ok (StRevocation \<lparr>rv_sha256 = sha256 c (sst_json s), rv_revoked = revoked,
      rv_revoker = fingerprint_of c (sg_public_key revoker), rv_trusted_heads = sc_trusted_heads cu,
      rv_trusted_releases = sc_trusted_releases cu, rv_trusted_successors = sc_trusted_successors cu,
      rv_issued_at = issued_at, rv_source = src\<rparr>))"
proof -
  let ?key = "sg_public_key revoker"
  let ?cu = "effective_cuts c ?key revoked cuts"
  let ?doc = "revocation_doc c ?key revoked cuts issued_at reason"
  let ?items = "revocation_members c ?key revoked ?cu issued_at reason"
  have s: "sst_json s = to_canonical ?doc" "sign_detached c revoker NS_REVOCATION (sst_json s) = Ok (sst_sig s)"
    using made by (auto simp: revocation_def Let_def result_elims revocation_json_def)
  have ns: "length NS_REVOCATION \<le> 1024" by (simp add: namespace_defs ascii_def)
  note sig = detached_verifies [OF s(2) signers(1) env(1) ns]
  have cu: "list_all head_ok (sc_trusted_heads ?cu)" "list_all (\<lambda>h. length h = 32) (sc_trusted_releases ?cu)"
    "list_all (\<lambda>h. length h = 32) (sc_trusted_successors ?cu)"
    using fields(1) by (simp_all add: effective_cuts_def no_cuts_def cuts_ok_def)
  have doc: "parse_doc (sst_json s) 3 = Ok ?doc"
    using parse_doc_written revocation_json_ok fields small unfolding s(1) by blast
  have lens: "length (fingerprint_of c k) = 32" for k using env(2) by (simp add: fingerprint_of_def)
  have look: "json_get ?doc (ascii k) = map_of ?items k" for k
    unfolding revocation_doc_members by (rule json_get_members)
  have reason: "check_reason ?doc = Ok reason"
    unfolding revocation_doc_members
    using fields(3) by (rule reason_read) (simp add: reason_member_def split: option.splits)
  have members: "check_members ?doc [''format'', ''issued_at'', ''reason'', ''revoked_key_id'',
       ''revoker_key_id'', ''trusted_heads'', ''trusted_releases'', ''trusted_successors''] = Ok ()"
    unfolding revocation_doc_members by (rule check_members_of) (auto simp: reason_member_def)
  have look': "json_get ?doc (ascii ''revoked_key_id'') = Some (JString (hex revoked))"
    "json_get ?doc (ascii ''revoker_key_id'') = Some (JString (hex (fingerprint_of c ?key)))"
    "json_get ?doc (ascii ''trusted_heads'') = Some (JArray (map head_to_json (sc_trusted_heads ?cu)))"
    "json_get ?doc (ascii ''trusted_releases'') = Some (hex_array (sc_trusted_releases ?cu))"
    "json_get ?doc (ascii ''trusted_successors'') = Some (hex_array (sc_trusted_successors ?cu))"
    unfolding look by (cases reason; simp add: reason_member_def)+
  have heads: "head_list ?doc ''trusted_heads'' = Ok (sc_trusted_heads ?cu)"
    by (simp add: head_list_def array_field_def look' as_array_def heads_read cu)
  have lists: "hex_list ?doc ''trusted_releases'' = Ok (sc_trusted_releases ?cu)"
    "hex_list ?doc ''trusted_successors'' = Ok (sc_trusted_successors ?cu)"
    by (simp_all add: hex_list_def array_field_def look' as_array_def hex_array_def hex_array_read cu)
  have time: "check_timestamp ?doc ''issued_at'' = Ok issued_at"
    using fields(2) by (auto simp: check_timestamp_def string_field_def look as_str_def issued_ok_def)
  have ids: "hex_field 32 ?doc ''revoked_key_id'' = Ok revoked"
    "hex_field 32 ?doc ''revoker_key_id'' = Ok (fingerprint_of c ?key)"
    by (simp_all add: hex_field_def string_field_def look' as_str_def unhex_lower_hex lens signers)
  have format: "string_field ?doc ''format'' = Ok REVOCATION_FORMAT"
    by (simp add: string_field_def look as_str_def)
  let ?fs = "files_of (statement_write s name d)" and ?path = "name @ ascii ''.json''"
  have files: "read_limited ?fs ?path MAX_STATEMENT_BYTES = Ok (sst_json s)"
    "read_limited ?fs (?path @ ascii ''.sig'') MAX_SIG_FILE = Ok (sst_sig s)"
    using statement_files(1,2) [of s name d] sig(2) small
    by (simp_all only: read_limited_def files_of_get) (simp_all add: not_less)
  have other: "REVOCATION_FORMAT \<noteq> TRANSITION_FORMAT"
    by (simp add: REVOCATION_FORMAT_def TRANSITION_FORMAT_def)
  show ?thesis
    unfolding load_statement_def load_revocation_def Let_def
    by (simp add: files doc format members ids heads lists time reason sig(1) other del: append_assoc)
qed

end
