(* ===== verification/Signed_Checkpoint_Properties.thy ===== *)
theory Signed_Checkpoint_Properties
  imports Signed_Checkpoint Statement_Codec
begin

text \<open>
  Checkpoints and witness statements have one text each, which the strict parsers accept and nothing
  else; and a reported equivocation is a pair of checkpoints that one key has signed.
\<close>

section \<open>Documents with a fixed set of members\<close>

lemma get_members_ascii: "bt_get (members items) (ascii k) = map_of items k"
  using json_get_members [of items k] by (simp add: json_get_def)

lemma get_not_member: "k \<notin> ascii ` fst ` set items \<Longrightarrow> bt_get (members items) k = None"
  by (force simp: map_of_eq_None_iff)

text \<open>An object whose members are among the allowed ones is known by what it has for each of these.\<close>

lemma document_unique:
  assumes "json_ok l doc" "check_members doc allowed = Ok ()"
    and "sorted_wrt (<) (map (\<lambda>(k, v). ascii k) items)" "fst ` set items \<subseteq> set allowed"
    and get: "\<And>k. k \<in> set allowed \<Longrightarrow> json_get doc (ascii k) = map_of items k"
  shows "doc = json_object items"
proof -
  obtain m where m: "doc = JObject m" "\<forall>k \<in> fst ` set m. k \<in> ascii ` set allowed"
    using assms(2)
    by (cases doc) (fastforce simp: check_members_def as_object_def list_all_iff split: if_splits)+
  obtain l' where "l = Suc l'" using assms(1) m(1) by (cases l) simp_all
  then have wf: "bt_wf m" using assms(1) m(1) by simp
  have wf': "bt_wf (members items)" using assms(3) by (simp add: bt_wf_def comp_def case_prod_unfold)
  have "bt_get m k = bt_get (members items) k" for k
  proof (cases "k \<in> ascii ` set allowed")
    case True
    then show ?thesis using get m(1) by (auto simp: get_members_ascii json_get_def)
  next
    case False
    then have "bt_get m k = None" using m(2) by (auto simp: map_of_eq_None_iff)
    moreover have "bt_get (members items) k = None" using False assms(4) by (intro get_not_member) blast
    ultimately show ?thesis by simp
  qed
  then have "m = members items" using bt.entries_ext [OF wf wf'] by blast
  then show ?thesis using m(1) assms(3) by (simp add: json_object_sorted)
qed

lemma as_Some: "as_str v = Some s \<longleftrightarrow> v = JString s" "as_u64 v = Some n \<longleftrightarrow> v = JInt n"
  by (cases v; simp add: as_str_def as_u64_def)+

lemma string_field_Ok: "string_field v k = Ok s \<longleftrightarrow> json_get v (ascii k) = Some (JString s)"
  by (auto simp: string_field_def result_elims bind_eq_Some_conv as_Some)

lemma int_field_Ok: "int_field v k = Ok n \<longleftrightarrow> json_get v (ascii k) = Some (JInt n)"
  by (auto simp: int_field_def result_elims bind_eq_Some_conv as_Some)

lemma hex_field_Ok:
  "hex_field n v k = Ok b \<longleftrightarrow> json_get v (ascii k) = Some (JString (hex b)) \<and> length b = n"
  by (auto simp: hex_field_def result_elims string_field_Ok unhex_lower_iff)

lemma timestamp_field_Ok:
  "check_timestamp v k = Ok t \<longleftrightarrow> json_get v (ascii k) = Some (JString t) \<and> parse_rfc3339_millis t \<noteq> None"
  by (auto simp: check_timestamp_def result_elims string_field_Ok)

lemmas fields_Ok = string_field_Ok int_field_Ok hex_field_Ok timestamp_field_Ok

section \<open>Checkpoints\<close>

definition checkpoint_ok :: "checkpoint_v2 \<Rightarrow> bool" where
  "checkpoint_ok cp \<longleftrightarrow> length (cv_key_id cp) = 32 \<and> head_ok (cv_head cp) \<and> hd_record_count (cv_head cp) \<noteq> 0 \<and>
     valid_utf8 (cv_head_ts_wall cp) \<and> (\<exists>t. cv_observed_at cp = Some t \<and> issued_ok t)"

abbreviation checkpoint_members :: "checkpoint_v2 \<Rightarrow> bytes \<Rightarrow> (string \<times> json) list" where
  "checkpoint_members cp t \<equiv>
     [(''alg'', JString (json_name (cv_alg cp))), (''format'', JString CHECKPOINT_V2_FORMAT),
      (''head_ts_wall'', JString (cv_head_ts_wall cp)), (''key_id'', JString (hex (cv_key_id cp))),
      (''log_id'', JString (hex (hd_log_id (cv_head cp)))), (''observed_at'', JString t),
      (''record_count'', JInt (hd_record_count (cv_head cp))),
      (''record_hash'', JString (hex (hd_record_hash (cv_head cp)))),
      (''record_id'', JInt (hd_record_id (cv_head cp))), (''segment'', JInt (ucast (hd_segment (cv_head cp))))]"

lemma checkpoint_json_members:
  assumes "cv_observed_at cp = Some t"
  shows "checkpoint_to_json cp True = json_object (checkpoint_members cp t)"
  using assms by (simp add: checkpoint_to_json_def json_object_def ascii_def)

lemma checkpoint_members_sorted: "sorted_wrt (<) (map (\<lambda>(k, v). ascii k) (checkpoint_members cp t))"
  by (simp add: ascii_def)

lemma checkpoint_json_ok:
  assumes "checkpoint_ok cp"
  shows "json_ok 1 (checkpoint_to_json cp True)"
proof -
  obtain t where t: "cv_observed_at cp = Some t" "issued_ok t" using assms by (auto simp: checkpoint_ok_def)
  have "(ucast (hd_segment (cv_head cp)) :: u64) \<le> MAX_SAFE_INT"
    using u16_as_u64 [of "hd_segment (cv_head cp)"] by (simp add: MAX_SAFE_INT_def word_le_nat_alt)
  moreover have "valid_utf8 (json_name (cv_alg cp))" by (cases "cv_alg cp") (simp add: ascii_def valid_utf8_ascii)
  ultimately have "json_ok (Suc 0) (JObject (members (checkpoint_members cp t)))"
    using assms t(2) checkpoint_members_sorted
    by (intro json_ok_members) (simp_all add: checkpoint_ok_def head_ok_def issued_ok_def CHECKPOINT_V2_FORMAT_def ascii_def
        valid_utf8_ascii)
  then show ?thesis
    by (simp only: checkpoint_json_members [OF t(1)] json_object_sorted [OF checkpoint_members_sorted] One_nat_def)
qed

lemma checkpoint_read_back:
  assumes "checkpoint_ok cp"
  shows "checkpoint_from_json (checkpoint_to_json cp True) True = Ok cp"
proof -
  obtain t ms where t: "cv_observed_at cp = Some t" "parse_rfc3339_millis t = Some ms"
    using assms by (auto simp: checkpoint_ok_def issued_ok_def)
  have seg: "unat (ucast (hd_segment (cv_head cp)) :: u64) < 2 ^ 16"
    "ucast (ucast (hd_segment (cv_head cp)) :: u64) = hd_segment (cv_head cp)"
    by (rule u16_as_u64, rule ucast_ucast_u16)
  have "alg_from_json_name (json_name (cv_alg cp)) = Some (cv_alg cp)"
    by (cases "cv_alg cp") (simp add: alg_from_json_name_def)
  then show ?thesis
    using assms t seg
    unfolding checkpoint_json_members [OF t(1)] json_object_sorted [OF checkpoint_members_sorted]
    by (simp add: checkpoint_from_json_def check_members_of check_timestamp_def field_defs checkpoint_ok_def head_ok_def
        unhex_lower_hex del: list.map)
qed

lemma checkpoint_from_json_exact:
  assumes "json_ok l doc" "string_field doc ''format'' = Ok CHECKPOINT_V2_FORMAT" "checkpoint_from_json doc True = Ok cp"
  shows "doc = checkpoint_to_json cp True"
proof -
  let ?names = "[''alg'', ''head_ts_wall'', ''key_id'', ''log_id'', ''record_count'', ''record_hash'', ''record_id'',
      ''segment'', ''format'', ''observed_at'']"
  obtain t seg alg where f: "check_members doc ?names = Ok ()" "cv_observed_at cp = Some t"
    "json_get doc (ascii ''alg'') = Some (JString alg)" "alg_from_json_name alg = Some (cv_alg cp)"
    "json_get doc (ascii ''format'') = Some (JString CHECKPOINT_V2_FORMAT)"
    "json_get doc (ascii ''head_ts_wall'') = Some (JString (cv_head_ts_wall cp))"
    "json_get doc (ascii ''key_id'') = Some (JString (hex (cv_key_id cp)))"
    "json_get doc (ascii ''log_id'') = Some (JString (hex (hd_log_id (cv_head cp))))"
    "json_get doc (ascii ''observed_at'') = Some (JString t)"
    "json_get doc (ascii ''record_count'') = Some (JInt (hd_record_count (cv_head cp)))"
    "json_get doc (ascii ''record_hash'') = Some (JString (hex (hd_record_hash (cv_head cp))))"
    "json_get doc (ascii ''record_id'') = Some (JInt (hd_record_id (cv_head cp)))"
    "json_get doc (ascii ''segment'') = Some (JInt seg)" "unat seg < 2 ^ 16" "hd_segment (cv_head cp) = ucast seg"
    using assms(2,3) by (auto simp: checkpoint_from_json_def result_elims fields_Ok split: if_splits)
  have seg: "ucast (ucast seg :: u16) = seg"
    using f(14) by (intro word_unat_eq_iff [THEN iffD2]) (simp add: u16_in_u64, simp add: unsigned_ucast_eq take_bit_eq_mod)
  have alg: "alg = json_name (cv_alg cp)"
    using f(4) by (cases "cv_alg cp") (auto simp: alg_from_json_name_def split: if_splits)
  have "doc = json_object (checkpoint_members cp t)"
    by (rule document_unique [OF assms(1) f(1) checkpoint_members_sorted])
      (use f(3,5-) seg alg in auto)
  then show ?thesis using checkpoint_json_members [OF f(2)] by simp
qed

lemma json_ok_get: "json_ok l doc \<Longrightarrow> json_get doc k = Some v \<Longrightarrow> \<exists>l'. json_ok l' v"
  by (cases doc; cases l) (auto simp: json_get_def list_all_iff dest!: map_of_SomeD)

lemma checkpoint_from_json_ok:
  assumes "json_ok l doc" "checkpoint_from_json doc True = Ok cp"
  shows "checkpoint_ok cp"
proof -
  have s: "json_get doc k = Some (JString s) \<Longrightarrow> valid_utf8 s" for k s
    using json_ok_get [OF assms(1)] by fastforce
  have i: "json_get doc k = Some (JInt n) \<Longrightarrow> n \<le> MAX_SAFE_INT" for k n
    using json_ok_get [OF assms(1)] by fastforce
  show ?thesis
    using assms(2) by (auto simp: checkpoint_from_json_def result_elims fields_Ok checkpoint_ok_def head_ok_def
        issued_ok_def s i split: if_splits)
qed

lemma drop_err_Ok [simp]: "drop_err r = Ok x \<longleftrightarrow> r = Ok x"
  by (cases r) auto

lemma checkpoint_parse_iff:
  "checkpoint_v2_parse b = Ok cp \<longleftrightarrow>
     b = checkpoint_to_bytes cp \<and> checkpoint_ok cp \<and> length b \<le> 64 * 1024"
proof (intro iffI conjI)
  assume p: "checkpoint_v2_parse b = Ok cp"
  then obtain doc where doc: "parse_canonical b 1 = Ok doc" "checkpoint_from_json doc True = Ok cp"
    "Option.bind (json_get doc (ascii ''format'')) as_str = Some CHECKPOINT_V2_FORMAT"
    by (auto simp: checkpoint_v2_parse_def bind_res_Ok_iff split: if_splits)
  have "string_field doc ''format'' = Ok CHECKPOINT_V2_FORMAT" using doc(3) by (simp add: string_field_def)
  then have "doc = checkpoint_to_json cp True"
    using parse_canonical_Ok [OF doc(1)] doc(2) checkpoint_from_json_exact by blast
  then show "b = checkpoint_to_bytes cp"
    using parse_canonical_Ok [OF doc(1)] by (simp add: checkpoint_to_bytes_def)
  show "checkpoint_ok cp" using parse_canonical_Ok [OF doc(1)] doc(2) checkpoint_from_json_ok by blast
  show "length b \<le> 64 * 1024" using p by (auto simp: checkpoint_v2_parse_def split: if_splits)
next
  assume a: "b = checkpoint_to_bytes cp \<and> checkpoint_ok cp \<and> length b \<le> 64 * 1024"
  then have "length (to_canonical (checkpoint_to_json cp True)) \<le> 64 * 1024"
    unfolding checkpoint_to_bytes_def by blast
  moreover obtain t where t: "cv_observed_at cp = Some t" using a by (auto simp: checkpoint_ok_def)
  moreover have "json_get (checkpoint_to_json cp True) (ascii ''format'') = Some (JString CHECKPOINT_V2_FORMAT)"
    unfolding checkpoint_json_members [OF t] json_object_sorted [OF checkpoint_members_sorted] json_get_members by simp
  ultimately show "checkpoint_v2_parse b = Ok cp"
    using a checkpoint_json_ok [of cp] checkpoint_read_back [of cp]
    by (simp add: checkpoint_v2_parse_def checkpoint_to_bytes_def parse_canonical_written as_str_def)
qed

section \<open>Witness statements\<close>

definition witness_ok :: "witness_cosignature \<Rightarrow> bool" where
  "witness_ok w \<longleftrightarrow> length (wc_checkpoint_sha256 w) = 32 \<and> issued_ok (wc_observed_at w) \<and>
     length (wc_witness_key_id w) = 32"

abbreviation witness_members :: "witness_cosignature \<Rightarrow> (string \<times> json) list" where
  "witness_members w \<equiv>
     [(''checkpoint_sha256'', JString (hex (wc_checkpoint_sha256 w))), (''format'', JString WITNESS_FORMAT),
      (''observed_at'', JString (wc_observed_at w)), (''witness_key_id'', JString (hex (wc_witness_key_id w)))]"

lemma witness_members_sorted: "sorted_wrt (<) (map (\<lambda>(k, v). ascii k) (witness_members w))"
  by (simp add: ascii_def)

lemma witness_json_ok: "witness_ok w \<Longrightarrow> json_ok 1 (witness_doc w)"
  unfolding witness_doc_def json_object_sorted [OF witness_members_sorted] One_nat_def
  by (intro json_ok_members) (simp_all add: witness_ok_def issued_ok_def WITNESS_FORMAT_def ascii_def valid_utf8_ascii)

text \<open>What the parser reads from a document, as one condition on its members.\<close>

definition witness_read :: "json \<Rightarrow> witness_cosignature \<Rightarrow> bool" where
  "witness_read doc w \<longleftrightarrow>
     check_members doc [''checkpoint_sha256'', ''format'', ''observed_at'', ''witness_key_id''] = Ok () \<and>
     json_get doc (ascii ''checkpoint_sha256'') = Some (JString (hex (wc_checkpoint_sha256 w))) \<and>
     json_get doc (ascii ''format'') = Some (JString WITNESS_FORMAT) \<and>
     json_get doc (ascii ''observed_at'') = Some (JString (wc_observed_at w)) \<and>
     json_get doc (ascii ''witness_key_id'') = Some (JString (hex (wc_witness_key_id w))) \<and>
     length (wc_checkpoint_sha256 w) = 32 \<and> length (wc_witness_key_id w) = 32 \<and>
     parse_rfc3339_millis (wc_observed_at w) \<noteq> None"

lemma witness_parse_Ok:
  "witness_parse b = Ok w \<longleftrightarrow> length b \<le> 64 * 1024 \<and> (\<exists>doc. parse_canonical b 1 = Ok doc \<and> witness_read doc w)"
  by (cases "64 * 1024 < length b"; cases w)
    (simp_all add: witness_parse_def witness_read_def bind_res_Ok_iff fields_Ok,
     force simp: fields_Ok bind_res_Ok_iff split: if_splits)

lemma witness_parse_iff:
  "witness_parse b = Ok w \<longleftrightarrow> b = witness_to_bytes w \<and> witness_ok w \<and> length b \<le> 64 * 1024"
proof (intro iffI conjI)
  assume "witness_parse b = Ok w"
  then obtain doc where doc: "parse_canonical b 1 = Ok doc" "witness_read doc w" and l: "length b \<le> 64 * 1024"
    by (auto simp: witness_parse_Ok)
  note ok = parse_canonical_Ok [OF doc(1)]
  have r: "check_members doc [''checkpoint_sha256'', ''format'', ''observed_at'', ''witness_key_id''] = Ok ()"
    "k \<in> set [''checkpoint_sha256'', ''format'', ''observed_at'', ''witness_key_id''] \<Longrightarrow>
      json_get doc (ascii k) = map_of (witness_members w) k" for k
    using doc(2) unfolding witness_read_def by auto
  have "doc = witness_doc w"
    unfolding witness_doc_def using ok by (intro document_unique [OF _ r(1) witness_members_sorted _ r(2)]) auto
  then show "b = witness_to_bytes w" using ok by (simp add: witness_to_bytes_def)
  have "json_get doc (ascii ''observed_at'') = Some (JString (wc_observed_at w))" using doc(2) by (simp add: witness_read_def)
  then have "valid_utf8 (wc_observed_at w)" using ok json_ok_get [of 1 doc] by fastforce
  then show "witness_ok w" using doc(2) by (simp add: witness_ok_def issued_ok_def witness_read_def)
next
  assume a: "b = witness_to_bytes w \<and> witness_ok w \<and> length b \<le> 64 * 1024"
  have get: "json_get (witness_doc w) (ascii k) = map_of (witness_members w) k" for k
    unfolding witness_doc_def json_object_sorted [OF witness_members_sorted] by (rule json_get_members)
  have "check_members (witness_doc w) [''checkpoint_sha256'', ''format'', ''observed_at'', ''witness_key_id''] = Ok ()"
    unfolding witness_doc_def json_object_sorted [OF witness_members_sorted] by (rule check_members_of) simp
  then have "witness_read (witness_doc w) w" using a unfolding witness_read_def get by (auto simp: witness_ok_def issued_ok_def)
  then show "witness_parse b = Ok w"
    using a parse_canonical_written [OF witness_json_ok [of w]] by (auto simp: witness_parse_Ok witness_to_bytes_def)
qed (auto simp: witness_parse_Ok)

section \<open>Properties\<close>

text \<open>C38. A checkpoint and a witness statement have one text each: the parsers accept exactly the
  canonical JSON that the writers produce for the values within bounds, up to 64 KiB, and return that
  value. A signature over the text is thus a signature over the value.\<close>

theorem checkpoint_documents_are_exact:
  "(checkpoint_v2_parse b = Ok cp \<longleftrightarrow> b = checkpoint_to_bytes cp \<and> checkpoint_ok cp \<and> length b \<le> 64 * 1024) \<and>
   (witness_parse b = Ok w \<longleftrightarrow> b = witness_to_bytes w \<and> witness_ok w \<and> length b \<le> 64 * 1024)"
  by (intro conjI checkpoint_parse_iff witness_parse_iff)

definition signed_checkpoint :: "('p, 's) crypto \<Rightarrow> checkpoint_v2 \<Rightarrow> bytes \<Rightarrow> bytes \<Rightarrow> bool" where
  "signed_checkpoint c cp b sig \<longleftrightarrow> b = checkpoint_to_bytes cp \<and> checkpoint_ok cp \<and> length b \<le> 64 * 1024 \<and>
     (\<exists>key. verify_detached_by c sig NS_CHECKPOINT b (cv_key_id cp) = Ok key)"

lemma compare_Equivocation:
  "compare_parsed ca cb = Equivocation k h hb \<longleftrightarrow>
     cv_key_id ca = k \<and> cv_key_id cb = k \<and> cv_head ca = h \<and> hd_record_hash (cv_head cb) = hb \<and>
     hd_log_id (cv_head cb) = hd_log_id h \<and> hd_segment (cv_head cb) = hd_segment h \<and>
     hd_record_id (cv_head cb) = hd_record_id h \<and>
     (hb, hd_record_count (cv_head cb)) \<noteq> (hd_record_hash h, hd_record_count h)"
  by (auto simp: compare_parsed_def Let_def)

text \<open>C39. Two checkpoint files are reported as an equivocation of a key exactly when they are the texts
  of two checkpoints of that key which name the same record of the same log with different contents,
  and the key has signed both.\<close>

theorem equivocation_is_proved_by_signatures:
  "compare_checkpoints c a a_sig b b_sig = Ok (Equivocation k h hb) \<longleftrightarrow>
     (\<exists>ca cb. signed_checkpoint c ca a a_sig \<and> signed_checkpoint c cb b b_sig \<and>
        cv_key_id ca = k \<and> cv_key_id cb = k \<and> cv_head ca = h \<and> hd_record_hash (cv_head cb) = hb \<and>
        hd_log_id (cv_head cb) = hd_log_id h \<and> hd_segment (cv_head cb) = hd_segment h \<and>
        hd_record_id (cv_head cb) = hd_record_id h \<and>
        (hb, hd_record_count (cv_head cb)) \<noteq> (hd_record_hash h, hd_record_count h))"
proof -
  have "compare_checkpoints c a a_sig b b_sig = Ok (Equivocation k h hb) \<longleftrightarrow>
      (\<exists>ca cb. (checkpoint_v2_parse a = Ok ca \<and> (\<exists>key. verify_detached_by c a_sig NS_CHECKPOINT a (cv_key_id ca) = Ok key)) \<and>
        (checkpoint_v2_parse b = Ok cb \<and> (\<exists>key. verify_detached_by c b_sig NS_CHECKPOINT b (cv_key_id cb) = Ok key)) \<and>
        compare_parsed ca cb = Equivocation k h hb)"
    by (auto simp: compare_checkpoints_def bind_res_Ok_iff)
  then show ?thesis
    unfolding checkpoint_parse_iff compare_Equivocation signed_checkpoint_def by blast
qed

end
