(* ===== verification/Signed_Verify_Checkpoints.thy ===== *)
theory Signed_Verify_Checkpoints
  imports Signed_Verify_Complete Signed_Checkpoint_Properties
begin

text \<open>
  Supplied checkpoints: what the walk has found at the positions they name, and when each of them is
  confirmed. Both directions are shown, for the soundness and for the completeness of the verifier.
\<close>

section \<open>Positions the walk has met\<close>

definition recorded_at ::
  "('p, 's) crypto \<Rightarrow> u16 list \<Rightarrow> (raw_record \<times> envelope) list list \<Rightarrow> u16 \<times> nat \<Rightarrow> bytes \<Rightarrow> nat \<Rightarrow> bool" where
  "recorded_at c ns recss pos hash ordinal \<longleftrightarrow>
     (\<exists>i j. i < length recss \<and> j < length (recss ! i) \<and> pos = (ns ! i, j) \<and>
        hash = record_hash c (raw_envelope (fst (recss ! i ! j))) \<and>
        ordinal = length (concat (take i recss)) + j + 1)"

abbreviation met :: "obs \<Rightarrow> u16 \<times> nat \<Rightarrow> bytes \<times> nat \<Rightarrow> bool" where
  "met o1 pos x \<equiv> bt_get (fst (snd o1)) pos = Some (Some x)"

lemma visit_fields:
  "fst (visit c n p raw env o1) = fst o1 + 1"
  "met (visit c n p raw env o1) pos x \<Longrightarrow>
     met o1 pos x \<or> pos = (n, p) \<and> x = (record_hash c (raw_envelope raw), fst o1 + 1)"
  by (auto simp: visit_def Let_def case_prod_unfold bt_get_insert_any split: if_splits)

lemma visit_all_met:
  "fst (visit_all c n p recs o1) = fst o1 + length recs \<and>
   (met (visit_all c n p recs o1) pos x \<longrightarrow> met o1 pos x \<or>
     (\<exists>j < length recs. pos = (n, p + j) \<and>
        x = (record_hash c (raw_envelope (fst (recs ! j))), fst o1 + j + 1)))"
proof (induction recs arbitrary: p o1)
  case (Cons r recs)
  obtain raw env where r: "r = (raw, env)" by (cases r)
  show ?case
  proof (intro conjI impI)
    show "fst (visit_all c n p (r # recs) o1) = fst o1 + length (r # recs)"
      using Cons.IH by (simp add: r visit_fields(1))
    assume "met (visit_all c n p (r # recs) o1) pos x"
    then consider "met (visit c n p raw env o1) pos x"
      | j where "j < length recs" "pos = (n, p + 1 + j)"
        "x = (record_hash c (raw_envelope (fst (recs ! j))), fst o1 + 1 + j + 1)"
      using Cons.IH [of "p + 1" "visit c n p raw env o1"] by (auto simp: r visit_fields(1))
    then show "met o1 pos x \<or> (\<exists>j < length (r # recs). pos = (n, p + j) \<and>
        x = (record_hash c (raw_envelope (fst ((r # recs) ! j))), fst o1 + j + 1))"
    proof cases
      case 1
      then show ?thesis using visit_fields(2) [OF 1] by (auto simp: r)
    next
      case (2 j)
      then show ?thesis by (intro disjI2 exI [of _ "Suc j"]) simp
    qed
  qed
qed simp

lemma track_fields: "fst (track hs o1) = fst o1" "met (track hs o1) pos x \<Longrightarrow> met o1 pos x"
proof -
  show "fst (track hs o1) = fst o1" by (simp add: track_def case_prod_unfold)
  have "bt_get (fold (\<lambda>hd. note_position (pos_of hd)) hs m) pos = Some (Some x) \<Longrightarrow> bt_get m pos = Some (Some x)" for m
    by (induction hs arbitrary: m) (fastforce simp: note_position_def bt_get_insert_any split: if_splits)+
  then show "met (track hs o1) pos x \<Longrightarrow> met o1 pos x" by (simp add: track_def case_prod_unfold)
qed

lemma visit_log_met:
  assumes "visit_log c ns recss o1 o2" "met o2 pos (hash, k)"
  shows "met o1 pos (hash, k) \<or> (\<exists>ordinal. recorded_at c ns recss pos hash ordinal \<and> k = fst o1 + ordinal)"
  using assms
proof (induction c ns recss o1 o2 rule: visit_log.induct)
  case (1 c n ns recs recss o1 o2)
  then obtain hs where v: "visit_log c ns recss (visit_all c n 0 recs (track hs o1)) o2" by auto
  let ?o = "visit_all c n 0 recs (track hs o1)"
  note all = visit_all_met [of c n 0 recs "track hs o1" pos "(hash, k)"]
  from "1.IH" [OF v "1.prems"(2)] show ?case
  proof
    assume "met ?o pos (hash, k)"
    then consider "met (track hs o1) pos (hash, k)"
      | j where "j < length recs" "pos = (n, j)" "hash = record_hash c (raw_envelope (fst (recs ! j)))"
        "k = fst o1 + j + 1"
      using all track_fields(1) by auto
    then show ?thesis
    proof cases
      case (2 j)
      then have "recorded_at c (n # ns) (recs # recss) pos hash (j + 1)"
        unfolding recorded_at_def by (intro exI [of _ 0] exI [of _ j]) simp
      then show ?thesis using 2 by auto
    qed (use track_fields(2) in blast)
  next
    assume "\<exists>ordinal. recorded_at c ns recss pos hash ordinal \<and> k = fst ?o + ordinal"
    then obtain i j where ij: "i < length recss" "j < length (recss ! i)" "pos = (ns ! i, j)"
      "hash = record_hash c (raw_envelope (fst (recss ! i ! j)))"
      "k = fst ?o + (length (concat (take i recss)) + j + 1)" by (auto simp: recorded_at_def)
    then have "recorded_at c (n # ns) (recs # recss) pos hash (length recs + (length (concat (take i recss)) + j + 1))"
      unfolding recorded_at_def by (intro exI [of _ "Suc i"] exI [of _ j]) simp
    moreover have "k = fst o1 + (length recs + (length (concat (take i recss)) + j + 1))"
      using all track_fields(1) ij(5) by simp
    ultimately show ?thesis by blast
  qed
qed auto

text \<open>Conversely, a position that is tracked is found when the walk passes it, and no other record
  replaces it.\<close>

abbreviation tracked :: "obs \<Rightarrow> u16 \<times> nat \<Rightarrow> bool" where
  "tracked o1 pos \<equiv> bt_get (fst (snd o1)) pos \<noteq> None"

lemma visit_tracked:
  "tracked o1 pos \<Longrightarrow> tracked (visit c n p raw env o1) pos"
  "pos \<noteq> (n, p) \<Longrightarrow> met o1 pos x \<Longrightarrow> met (visit c n p raw env o1) pos x"
  "tracked o1 (n, p) \<Longrightarrow> met (visit c n p raw env o1) (n, p) (record_hash c (raw_envelope raw), fst o1 + 1)"
  by (auto simp: visit_def Let_def case_prod_unfold bt_get_insert_any split: if_splits)

lemma visit_all_tracked:
  "tracked o1 pos \<Longrightarrow> tracked (visit_all c n p recs o1) pos"
  "(\<forall>j < length recs. pos \<noteq> (n, p + j)) \<Longrightarrow> met o1 pos x \<Longrightarrow> met (visit_all c n p recs o1) pos x"
  "j < length recs \<Longrightarrow> tracked o1 (n, p + j) \<Longrightarrow>
   met (visit_all c n p recs o1) (n, p + j) (record_hash c (raw_envelope (fst (recs ! j))), fst o1 + j + 1)"
proof (induction recs arbitrary: p o1 j pos x)
  case (Cons r recs)
  obtain raw env where r: "r = (raw, env)" by (cases r)
  { case 1
    then show ?case unfolding r visit_all.simps by (intro Cons.IH(1) visit_tracked(1))
  next
    case 2
    have "pos \<noteq> (n, p)" "\<forall>j < length recs. pos \<noteq> (n, p + 1 + j)"
      using 2(1) [rule_format, of 0] 2(1) [rule_format, of "Suc _"] by auto
    then show ?case unfolding r visit_all.simps using 2(2) by (intro Cons.IH(2) visit_tracked(2)) auto
  next
    case 3
    show ?case
    proof (cases j)
      case 0
      have "\<forall>j < length recs. (n, p) \<noteq> (n, p + 1 + j)" by simp
      then show ?thesis using 3(2) 0 Cons.IH(2) [of "(n, p)" "p + 1"] visit_tracked(3) [of o1 n p c raw env] by (simp add: r)
    next
      case (Suc i)
      then show ?thesis
        using 3 Cons.IH(3) [of i "visit c n p raw env o1" "p + 1"] visit_tracked(1) [of o1 "(n, p + j)" c n p raw env]
        by (simp add: r visit_fields(1))
    qed
  }
qed simp_all

lemma track_tracked: "tracked o1 pos \<Longrightarrow> tracked (track hs o1) pos" "met o1 pos x \<Longrightarrow> met (track hs o1) pos x"
proof -
  have "bt_get m pos = Some y \<Longrightarrow> bt_get (fold (\<lambda>hd. note_position (pos_of hd)) hs m) pos = Some y" for m y
  proof (induction hs arbitrary: m)
    case (Cons h hs)
    have "bt_get (note_position (pos_of h) m) pos = Some y"
      using Cons.prems by (auto simp: note_position_def bt_get_insert_any)
    then show ?case using Cons.IH by simp
  qed simp
  then show "tracked o1 pos \<Longrightarrow> tracked (track hs o1) pos" "met o1 pos x \<Longrightarrow> met (track hs o1) pos x"
    by (auto simp: track_def case_prod_unfold)
qed

lemma visit_log_keeps:
  "visit_log c ns recss o1 o2 \<Longrightarrow> fst pos \<notin> set ns \<Longrightarrow> met o1 pos x \<Longrightarrow> met o2 pos x"
proof (induction c ns recss o1 o2 rule: visit_log.induct)
  case (1 c n ns recs recss o1 o2)
  then obtain hs where v: "visit_log c ns recss (visit_all c n 0 recs (track hs o1)) o2" by auto
  have "met (visit_all c n 0 recs (track hs o1)) pos x"
    using "1.prems"(2,3) by (intro visit_all_tracked(2) track_tracked) auto
  then show ?case using "1.IH" [OF v] "1.prems"(2) by simp
qed auto

lemma visit_log_finds:
  assumes "visit_log c ns recss o1 o2" "distinct ns" "tracked o1 pos" "recorded_at c ns recss pos hash ordinal"
  shows "met o2 pos (hash, fst o1 + ordinal)"
  using assms
proof (induction c ns recss o1 o2 arbitrary: ordinal rule: visit_log.induct)
  case (1 c n ns recs recss o1 o2)
  then obtain hs where v: "visit_log c ns recss (visit_all c n 0 recs (track hs o1)) o2" by auto
  let ?o = "visit_all c n 0 recs (track hs o1)"
  have t: "tracked (track hs o1) pos" using "1.prems"(3) track_tracked(1) by blast
  have f: "fst ?o = fst o1 + length recs" using visit_all_met [of c n 0 recs "track hs o1"] track_fields(1) by simp
  obtain i j where ij: "i < Suc (length recss)" "j < length ((recs # recss) ! i)" "pos = ((n # ns) ! i, j)"
    "hash = record_hash c (raw_envelope (fst ((recs # recss) ! i ! j)))"
    "ordinal = length (concat (take i (recs # recss))) + j + 1"
    using "1.prems"(4) unfolding recorded_at_def by auto
  show ?case
  proof (cases i)
    case 0
    then have "met ?o pos (hash, fst o1 + ordinal)"
      using visit_all_tracked(3) [of j recs "track hs o1" n 0 c] t ij track_fields(1) by simp
    then show ?thesis using visit_log_keeps [OF v] "1.prems"(2) ij(3) 0 by simp
  next
    case (Suc i')
    then have "recorded_at c ns recss pos hash (length (concat (take i' recss)) + j + 1)"
      using ij unfolding recorded_at_def by auto
    moreover have "tracked ?o pos" by (rule visit_all_tracked(1) [OF t])
    ultimately have "met o2 pos (hash, fst ?o + (length (concat (take i' recss)) + j + 1))"
      using "1.prems"(2) by (intro "1.IH" [OF v]) simp_all
    then show ?thesis using ij(5) Suc f by (simp add: add.assoc)
  qed
qed (auto simp: recorded_at_def)

abbreviation final_of :: "obs \<Rightarrow> bytes option" where
  "final_of o1 \<equiv> fst (snd (snd (snd o1)))"

lemma visit_all_final:
  "recs \<noteq> [] \<Longrightarrow> final_of (visit_all c n p recs o1) = Some (record_hash c (raw_envelope (fst (last recs))))"
  by (induction c n p recs o1 rule: visit_all.induct) (auto simp: visit_def Let_def case_prod_unfold split: if_splits)

lemma visit_log_final:
  assumes "visit_log c ns recss o1 o2"
  shows "final_of o2 = (if concat recss = [] then final_of o1
    else Some (record_hash c (raw_envelope (fst (last (concat recss))))))"
  using assms
proof (induction c ns recss o1 o2 rule: visit_log.induct)
  case (1 c n ns recs recss o1 o2)
  then obtain hs where v: "visit_log c ns recss (visit_all c n 0 recs (track hs o1)) o2" by auto
  have "final_of (track hs o1) = final_of o1" by (simp add: track_def case_prod_unfold)
  then show ?case
    using "1.IH" [OF v] visit_all_final [of recs c n 0 "track hs o1"] by (cases "recs = []") auto
qed auto

section \<open>Checkpoints\<close>

lemma position_check_clean:
  assumes "position_check lh t w = (w', ok)" "clean w'" "clean w"
  shows "found_at w (pos_of lh) = Some (hd_record_hash lh, unat (hd_record_count lh))"
  using assms by (auto simp: position_check_def clean_def violation_nostop_def upd_report_def split: option.splits if_splits)

definition checkpoint_holds ::
  "('p, 's) crypto \<Rightarrow> evaluated \<Rightarrow> signed_header \<Rightarrow> walk \<Rightarrow> checkpoint_v2 \<Rightarrow> supplied_checkpoint \<Rightarrow> bool" where
  "checkpoint_holds c ev h w cp s \<longleftrightarrow>
     cv_key_id cp = sh_key_id h \<and> alg_code (cv_alg cp) = sh_sig_alg h \<and> hd_log_id (cv_head cp) = sh_log_id h \<and>
     found_at w (pos_of (cv_head cp)) = Some (hd_record_hash (cv_head cp), unat (hd_record_count (cv_head cp))) \<and>
     (\<forall>sig. sp_sig s = Some sig \<longrightarrow> verify_detached_by c sig NS_CHECKPOINT (sp_bytes s) (cv_key_id cp) \<in> range Ok \<and>
        (ev_has_pins ev \<longrightarrow> accept ev (cv_key_id cp) NS_CHECKPOINT (OCheckpoint (hd_log_id (cv_head cp))
          (hd_segment (cv_head cp)) (hd_record_id (cv_head cp))) \<in> range Ok)) \<and>
     (\<forall>ws \<in> set (sp_witnesses s). check_witness c ev (sp_bytes s) ws \<in> range Ok)"

lemma map_res_range: "map_res f xs \<in> range Ok \<longleftrightarrow> (\<forall>x \<in> set xs. f x \<in> range Ok)"
proof (induction xs)
  case (Cons x xs)
  have "map_res f (x # xs) \<in> range Ok \<longleftrightarrow> f x \<in> range Ok \<and> map_res f xs \<in> range Ok"
    by (cases "f x"; cases "map_res f xs") (auto simp: image_iff)
  then show ?case using Cons.IH by simp
qed simp

lemma checkpoint_clean:
  assumes "check_checkpoint c ev h (cp, s) (w, a) = Ok (w', a')" "clean w'"
  shows "checkpoint_holds c ev h w cp s"
proof -
  have cw: "clean w" using only_adds_checkpoint [OF assms(1)] assms(2) by (simp add: only_adds_def)
  have up: "clean (upd_report (\<lambda>r. r\<lparr>sr_checkpoints := ks r\<rparr>) v) = clean v" for ks v
    by (simp add: clean_def upd_report_def)
  obtain w1 ok where pc: "position_check (cv_head cp) (cv_observed_at cp) w = (w1, ok)" by fastforce
  have "map_res (check_witness c ev (sp_bytes s)) (sp_witnesses s) \<in> range Ok"
    using assms(1) by (auto simp: check_checkpoint_def Let_def result_elims)
  then show ?thesis
    using assms position_check_clean [OF pc _ cw] unfolding map_res_range
    by (auto simp: checkpoint_holds_def check_checkpoint_def checkpoint_signed_def pc Let_def result_elims up
        split: option.splits if_splits)
qed

lemma checkpoints_clean:
  assumes "fold_res (check_checkpoint c ev h) pcs (w, a) = Ok (w', a')" "clean w'" "(cp, s) \<in> set pcs"
  shows "checkpoint_holds c ev h w cp s"
  using assms
proof (induction pcs arbitrary: w a)
  case (Cons pc pcs)
  obtain w1 a1 where s1: "check_checkpoint c ev h pc (w, a) = Ok (w1, a1)"
    and rest: "fold_res (check_checkpoint c ev h) pcs (w1, a1) = Ok (w', a')"
    using Cons.prems(1) by (auto simp: bind_res_Ok_iff)
  have o: "obs w1 = obs w" and cl: "clean w1"
    using only_adds_checkpoint [OF s1] only_adds_checkpoint_fold [OF rest] Cons.prems(2)
    by (simp_all add: only_adds_def)
  show ?case
  proof (cases "(cp, s) = pc")
    case True
    then show ?thesis using checkpoint_clean s1 cl by blast
  next
    case False
    then have "checkpoint_holds c ev h w1 cp s" using Cons.IH [OF rest Cons.prems(2)] Cons.prems(3) by auto
    moreover have "found_at w1 pos = found_at w pos" for pos using o by (simp add: obs_def found_at_def)
    then have "checkpoint_holds c ev h w1 cp s = checkpoint_holds c ev h w cp s" by (simp add: checkpoint_holds_def)
    ultimately show ?thesis by simp
  qed
qed simp

lemma checkpoint_accepted:
  assumes "checkpoint_holds c ev h w cp s"
  shows "\<exists>w' a'. check_checkpoint c ev h (cp, s) (w, a) = Ok (w', a') \<and> walks w w' \<and> obs w' = obs w \<and>
    wk_trusted_sig w' = wk_trusted_sig w"
proof -
  obtain ws where ws: "map_res (check_witness c ev (sp_bytes s)) (sp_witnesses s) = Ok ws"
    using assms map_res_range [of "check_witness c ev (sp_bytes s)" "sp_witnesses s"]
    unfolding checkpoint_holds_def by blast
  have sig: "\<exists>b. checkpoint_signed c ev cp s = Ok b"
    using assms by (auto simp: checkpoint_holds_def checkpoint_signed_def image_iff split: option.splits) blast+
  have "position_check (cv_head cp) t w = (w, True)" for t
    using assms by (simp add: position_check_def checkpoint_holds_def)
  then show ?thesis
    using assms sig ws
    by (auto simp: check_checkpoint_def checkpoint_holds_def Let_def walks_def upd_report_def obs_def)
qed

lemma checkpoints_accepted:
  assumes "\<forall>(cp, s) \<in> set pcs. checkpoint_holds c ev h w cp s"
  shows "\<exists>w' a'. fold_res (check_checkpoint c ev h) pcs (w, a) = Ok (w', a') \<and> walks w w' \<and> obs w' = obs w \<and>
    wk_trusted_sig w' = wk_trusted_sig w"
  using assms
proof (induction pcs arbitrary: w a)
  case (Cons pc pcs)
  obtain cp s where pc: "pc = (cp, s)" by (cases pc)
  obtain w1 a1 where s1: "check_checkpoint c ev h pc (w, a) = Ok (w1, a1)" "walks w w1" "obs w1 = obs w"
      "wk_trusted_sig w1 = wk_trusted_sig w"
    using checkpoint_accepted [of c ev h w cp s a] Cons.prems by (auto simp: pc)
  have "found_at w1 pos = found_at w pos" for pos using s1(3) by (simp add: obs_def found_at_def)
  then have "\<forall>(cp, s) \<in> set pcs. checkpoint_holds c ev h w1 cp s"
    using Cons.prems by (auto simp: checkpoint_holds_def)
  from Cons.IH [OF this, of a1] obtain w' a' where
    "fold_res (check_checkpoint c ev h) pcs (w1, a1) = Ok (w', a')" "walks w1 w'" "obs w' = obs w1"
    "wk_trusted_sig w' = wk_trusted_sig w1" by blast
  then show ?case using s1 walks_trans by (auto simp del: split_paired_Ex intro!: exI)
qed simp

section \<open>Checkpoints of a log\<close>

text \<open>A supplied checkpoint fits a log: it names the log and its key, and a record of the log by
  position, hash and number; its signature, if there is one, is good and the trust context accepts the
  key for checkpoints, and so are its witnesses.\<close>

definition checkpoint_in_log ::
  "('p, 's) crypto \<Rightarrow> evaluated \<Rightarrow> signed_header \<Rightarrow> u16 list \<Rightarrow> (raw_record \<times> envelope) list list
    \<Rightarrow> supplied_checkpoint \<Rightarrow> bool" where
  "checkpoint_in_log c ev h0 ns recss s \<longleftrightarrow>
     (\<exists>cp. checkpoint_v2_parse (sp_bytes s) = Ok cp \<and> cv_key_id cp = sh_key_id h0 \<and> alg_code (cv_alg cp) = sh_sig_alg h0 \<and>
        hd_log_id (cv_head cp) = sh_log_id h0 \<and>
        recorded_at c ns recss (pos_of (cv_head cp)) (hd_record_hash (cv_head cp)) (unat (hd_record_count (cv_head cp))) \<and>
        (\<forall>sig. sp_sig s = Some sig \<longrightarrow>
          verify_detached_by c sig NS_CHECKPOINT (sp_bytes s) (cv_key_id cp) \<in> range Ok \<and>
          accept ev (cv_key_id cp) NS_CHECKPOINT (OCheckpoint (hd_log_id (cv_head cp))
            (hd_segment (cv_head cp)) (hd_record_id (cv_head cp))) \<in> range Ok) \<and>
        (\<forall>ws \<in> set (sp_witnesses s). check_witness c ev (sp_bytes s) ws \<in> range Ok))"

lemma map_res_all:
  "map_res f xs = Ok ys \<Longrightarrow> x \<in> set xs \<Longrightarrow> \<exists>y \<in> set ys. f x = Ok y"
  by (induction xs arbitrary: ys) (auto simp: bind_res_Ok_iff)

lemma map_res_origin:
  "map_res f xs = Ok ys \<Longrightarrow> y \<in> set ys \<Longrightarrow> \<exists>x \<in> set xs. f x = Ok y"
  by (induction xs arbitrary: ys) (auto simp: bind_res_Ok_iff)

lemma start_walk_tracks:
  assumes "cp \<in> set cps"
  shows "tracked (obs (start_walk log_dir ev opts segs cps)) (pos_of (cv_head cp))"
proof -
  have fold: "lh \<in> set heads \<or> bt_get m (pos_of lh) \<noteq> None \<Longrightarrow>
      bt_get (fold (\<lambda>lh. bt_insert (pos_of lh) None) heads m) (pos_of lh) \<noteq> None" for lh heads m
    by (induction heads arbitrary: m) (auto simp: bt_get_insert_any)
  define w1 where "w1 = fold (warn ''NearMissSegmentName'') (snd segs)
    (upd_log (\<lambda>l. l\<lparr>sl_first_segment_index := Some (hd (fst segs))\<rparr>) (walk_new log_dir))"
  define m where "m = fold (\<lambda>lh. bt_insert (pos_of lh) None)
    (map cv_head cps @ (case vo_attested opts of None \<Rightarrow> [] | Some a \<Rightarrow> [cv_head a])) (wk_interesting w1)"
  have "only_adds (w1\<lparr>wk_interesting := m\<rparr>) (start_walk log_dir ev opts segs cps)"
    unfolding start_walk_def Let_def case_prod_unfold w1_def [symmetric] m_def [symmetric]
    by (intro only_adds_trans [OF only_adds_fold only_adds_fold]) simp_all
  then have "obs (start_walk log_dir ev opts segs cps) = obs (w1\<lparr>wk_interesting := m\<rparr>)" by (simp add: only_adds_def)
  moreover have "bt_get m (pos_of (cv_head cp)) \<noteq> None"
    unfolding m_def using assms by (intro fold) simp
  ultimately show ?thesis by (simp add: obs_def)
qed

lemma segments_distinct:
  assumes "segments_of c ev d h0 n prev ns recss" "\<forall>m \<in> set ns. unat m < 10000"
  shows "distinct ns \<and> (\<forall>m \<in> set ns. n \<le> m)"
  using assms
proof induction
  case (next_segment n content prev h recs final ns rest)
  have "unat n < 10000" using next_segment.prems by simp
  then have "saturating_succ n = n + 1" "n < n + 1" "n \<noteq> 65535"
    by (auto simp: saturating_succ_def word_less_nat_alt unat_word_ariths)
  then show ?case using next_segment.IH next_segment.prems by (auto simp: order.strict_implies_order)
qed simp

lemma listing_small: "m \<in> set (fst (list_segments d)) \<Longrightarrow> unat m < 10000"
  by (auto simp: list_segments_def List.map_filter_def segment_index_iff split: if_splits)

lemma verify_with_checkpoints:
  assumes segs: "segments_of c ev d h0 0 (replicate 32 0) (fst (list_segments d)) recss"
    and "concat recss \<noteq> []" "well_sealed recss" "times_ok None (concat recss)" "quiet ev h0"
    and opts: "vo_attested opts = None" "\<forall>i. vo_expect_log_id opts = Some i \<longrightarrow> i = sh_log_id h0"
      "\<forall>s \<in> set (vo_checkpoints opts). checkpoint_in_log c ev h0 (fst (list_segments d)) recss s"
  shows "\<exists>r. verify_signed_log c log_dir d ev opts = Ok r \<and> sr_verdict r = Verified"
proof -
  let ?ns = "fst (list_segments d)"
  have "\<exists>cps. parse_checkpoints (vo_checkpoints opts) = Ok cps"
    using opts(3) map_res_range [of "\<lambda>s. bind_res (map_err (\<lambda>_. CheckpointUnusable ''CheckpointFormat'')
        (checkpoint_v2_parse (sp_bytes s))) (\<lambda>cp. Ok (cp, s))" "vo_checkpoints opts"]
    by (fastforce simp: checkpoint_in_log_def image_iff)
  then obtain cps where cps: "parse_checkpoints (vo_checkpoints opts) = Ok cps" by blast
  from run_log_ok [OF assms(1-5) opts(2), of log_dir "map fst cps"] obtain w h where
    w: "run_segments c ev opts d ?ns 0 (Some (replicate 32 0))
        (start_walk log_dir ev opts (list_segments d) (map fst cps)) = Ok w"
      "sr_violations (wk_report w) = []" "wk_trusted_sig w" "wk_seg0 w = Some h" "sh_key_id h = sh_key_id h0"
      "sh_log_id h = sh_log_id h0" "sh_sig_alg h = sh_sig_alg h0"
      "log_format d = Some FORMAT_VERSION_SIGNED" "?ns \<noteq> []"
      "visit_log c ?ns recss (obs (start_walk log_dir ev opts (list_segments d) (map fst cps))) (obs w)"
    by blast
  have start: "fst (obs (start_walk log_dir ev opts (list_segments d) (map fst cps))) = 0"
    using start_walk_state(4) by (simp add: unseen_def)
  have dis: "distinct ?ns" using segments_distinct [OF segs] listing_small by blast
  have "checkpoint_holds c ev h w cp s" if mem: "(cp, s) \<in> set cps" for cp s
  proof -
    have s: "s \<in> set (vo_checkpoints opts)" "checkpoint_v2_parse (sp_bytes s) = Ok cp"
      using map_res_origin [OF cps mem] by (auto simp: result_elims)
    then have in_log: "recorded_at c ?ns recss (pos_of (cv_head cp)) (hd_record_hash (cv_head cp))
        (unat (hd_record_count (cv_head cp)))"
      using opts(3) by (auto simp: checkpoint_in_log_def)
    have "tracked (obs (start_walk log_dir ev opts (list_segments d) (map fst cps))) (pos_of (cv_head cp))"
      using mem by (intro start_walk_tracks) force
    from visit_log_finds [OF w(10) dis this in_log]
    have "found_at w (pos_of (cv_head cp)) = Some (hd_record_hash (cv_head cp), unat (hd_record_count (cv_head cp)))"
      using start by (simp add: obs_def found_at_def)
    then show ?thesis using s opts(3) w(5-7) by (auto simp: checkpoint_in_log_def checkpoint_holds_def)
  qed
  then obtain w2 a where w2: "check_checkpoints c ev cps w = Ok (w2, a)" "walks w w2" "wk_trusted_sig w2 = wk_trusted_sig w"
    using checkpoints_accepted [of cps c ev h w False] by (auto simp: check_checkpoints_def w(4))
  have "walk_statement_heads ev w2 = []"
    using assms(5) w(4,5) w2(2) by (simp add: walk_statement_heads_def quiet_def walks_def)
  then have "check_statement_heads ev w2 = w2" "check_attested opts w2 = w2"
    using opts(1) by (simp_all add: check_statement_heads_def check_attested_def)
  then have "verify_signed_log c log_dir d ev opts = Ok (finish_walk a w2)"
    using w(1,8,9) w2(1) cps by (simp add: verify_signed_log_def Let_def FORMAT_VERSION_SIGNED_def)
  moreover have "sr_verdict (finish_walk a w2) = Verified"
    using w(2,3) w2(2,3) by (simp add: finish_walk_def Let_def walks_def)
  ultimately show ?thesis by blast
qed

end
