(* ===== verification/Trust_Load_Properties.thy ===== *)
theory Trust_Load_Properties
  imports Statement_Codec Trust_Properties "HOL-Library.Sublist"
begin

text \<open>
  What loading guarantees: every statement in a trust context is signed by the keys it names, a bad
  statement in a bundle is never more than a warning, and what the builders write is loaded as it
  was meant.
\<close>

section \<open>Signed statements\<close>

definition signed_by :: "('p, 's) crypto \<Rightarrow> public_key \<Rightarrow> bytes \<Rightarrow> bytes \<Rightarrow> bool" where
  "signed_by c k ns b \<longleftrightarrow> (\<exists>sig. ed25519_verify c (pk_bytes k) (signed_data c ns b) sig = Ok ())"

lemma detached_signed:
  "verify_detached_by c sig ns b fp = Ok k \<Longrightarrow> fingerprint_of c k = fp \<and> signed_by c k ns b"
  by (auto simp: verify_detached_by_def result_elims signed_by_def split: if_splits)

text \<open>The bytes of the document are exactly the canonical text of what was read from it.\<close>

definition genuine_transition :: "('p, 's) crypto \<Rightarrow> key_transition \<Rightarrow> bool" where
  "genuine_transition c t \<longleftrightarrow> (\<exists>doc k.
     (let b = to_canonical doc in
      tr_sha256 t = sha256 c b \<and>
      head_list doc ''final_heads'' = Ok (tr_final_heads t) \<and>
      hex_list doc ''final_releases'' = Ok (tr_final_releases t) \<and>
      fingerprint_of c (tr_old_key t) = tr_old_key_id t \<and> signed_by c (tr_old_key t) NS_TRANSITION b \<and>
      is_strong c (tr_new_key t) \<and> fingerprint_of c k = fingerprint_of c (tr_new_key t) \<and>
      signed_by c k NS_TRANSITION_ACCEPT b))"

definition genuine_revocation :: "('p, 's) crypto \<Rightarrow> key_revocation \<Rightarrow> bool" where
  "genuine_revocation c r \<longleftrightarrow> (\<exists>doc k.
     (let b = to_canonical doc in
      rv_sha256 r = sha256 c b \<and>
      hex_field 32 doc ''revoked_key_id'' = Ok (rv_revoked r) \<and>
      head_list doc ''trusted_heads'' = Ok (rv_trusted_heads r) \<and>
      hex_list doc ''trusted_releases'' = Ok (rv_trusted_releases r) \<and>
      hex_list doc ''trusted_successors'' = Ok (rv_trusted_successors r) \<and>
      fingerprint_of c k = rv_revoker r \<and> signed_by c k NS_REVOCATION b))"

definition genuine_context :: "('p, 's) crypto \<Rightarrow> trust_context \<Rightarrow> bool" where
  "genuine_context c ctx \<longleftrightarrow>
     list_all (genuine_transition c) (tc_transitions ctx) \<and>
     list_all (genuine_revocation c) (tc_revocations ctx)"

primrec genuine_statement :: "('p, 's) crypto \<Rightarrow> statement \<Rightarrow> bool" where
  "genuine_statement c (StTransition t) \<longleftrightarrow> genuine_transition c t"
| "genuine_statement c (StRevocation r) \<longleftrightarrow> genuine_revocation c r"

lemma parse_doc_Ok: "parse_doc b l = Ok doc \<Longrightarrow> b = to_canonical doc"
  by (auto simp: parse_doc_def result_elims dest: parse_canonical_Ok split: if_splits)

lemma load_transition_genuine:
  assumes "load_transition c fs path source b doc sig = Ok t" "b = to_canonical doc"
  shows "genuine_transition c t"
  using assms
  by (auto simp: load_transition_def result_elims genuine_transition_def Let_def
      intro!: exI [of _ doc] dest!: detached_signed split: if_splits)

lemma load_revocation_genuine:
  assumes "load_revocation c source b doc sig = Ok r" "b = to_canonical doc"
  shows "genuine_revocation c r"
  using assms
  by (auto simp: load_revocation_def result_elims genuine_revocation_def Let_def
      intro!: exI [of _ doc] dest!: detached_signed split: if_splits)

lemma load_statement_genuine: "load_statement c fs path source = Ok st \<Longrightarrow> genuine_statement c st"
  by (auto simp: load_statement_def result_elims dest!: parse_doc_Ok
      intro: load_transition_genuine load_revocation_genuine split: if_splits)

section \<open>No panics\<close>

named_theorems no_panic

lemma map_err_Panic [simp]: "map_err f r = Panic \<longleftrightarrow> r = Panic"
  by (cases r) auto

lemma ok_or_Panic [simp]: "ok_or e x \<noteq> Panic"
  by (cases x) auto

lemma map_res_Panic: "map_res f xs = Panic \<Longrightarrow> \<exists>x \<in> set xs. f x = Panic"
  by (induction xs) (auto simp: bind_res_Panic_iff)

lemma field_no_panic [no_panic]:
  "string_field v key \<noteq> Panic" "int_field v key \<noteq> Panic" "hex_field n v key \<noteq> Panic"
  "array_field v key \<noteq> Panic"
  by (simp_all add: string_field_def int_field_def hex_field_def array_field_def bind_res_Panic_iff)

lemma list_no_panic [no_panic]: "hex_list v key \<noteq> Panic" "head_list v key \<noteq> Panic"
  by (auto simp: hex_list_def head_list_def bind_res_Panic_iff no_panic head_from_json_def
      dest!: map_res_Panic split: if_splits)

lemma check_no_panic [no_panic]:
  "check_reason v \<noteq> Panic" "check_timestamp v key \<noteq> Panic" "check_members v ks \<noteq> Panic"
  by (auto simp: check_reason_def check_timestamp_def check_members_def check_string_def
      bind_res_Panic_iff no_panic split: option.splits json.splits if_splits)

lemma verify_no_panic [no_panic]: "verify_detached_by c sig ns b fp \<noteq> Panic"
  by (auto simp: verify_detached_by_def parse_armored_def dearmor_def parse_blob_def ed25519_verify_def
      bind_res_Panic_iff Let_def split: option.splits prod.splits if_splits)

lemma key_parse_no_panic [no_panic]: "key_parse c t \<noteq> Panic"
  by (auto simp: key_parse_def parse_pem_def from_key_blob_def bind_res_Panic_iff Let_def
      split: option.splits list.splits prod.splits if_splits)

lemma read_no_panic [no_panic]: "read_limited fs p n \<noteq> Panic"
  by (auto simp: read_limited_def split: option.splits fs_node.splits)

lemma load_no_panic [no_panic]: "load_statement c fs path source \<noteq> Panic"
proof -
  have "load_transition c fs path source b doc sig \<noteq> Panic" for b doc sig
    by (auto simp: load_transition_def bind_res_Panic_iff no_panic split: if_splits)
  moreover have "load_revocation c source b doc sig \<noteq> Panic" for b doc sig
    by (auto simp: load_revocation_def bind_res_Panic_iff no_panic split: if_splits)
  moreover have "parse_doc b l \<noteq> Panic" for b l
    by (simp add: parse_doc_def parse_canonical_no_panic)
  ultimately show ?thesis
    by (auto simp: load_statement_def bind_res_Panic_iff no_panic split: if_splits)
qed

section \<open>Loading into a context\<close>

text \<open>What one step of loading does to the context, whatever its result.\<close>

definition loads :: "('p, 's) crypto \<Rightarrow> bool \<Rightarrow> trust_context \<Rightarrow> trust_context \<times> (unit, trust_error) result \<Rightarrow> bool" where
  "loads c operator ctx res \<longleftrightarrow>
     (genuine_context c ctx \<longrightarrow> genuine_context c (fst res)) \<and>
     tc_pins (fst res) = tc_pins ctx \<and>
     prefix (tc_transitions ctx) (tc_transitions (fst res)) \<and>
     prefix (tc_revocations ctx) (tc_revocations (fst res)) \<and>
     snd res \<noteq> Panic \<and> (\<not> operator \<longrightarrow> snd res = Ok ())"

lemma loads_step: "loads c operator ctx (add_statement_file c fs path operator ctx)"
proof -
  define src where "src = (if operator then Operator path else Bundle path)"
  show ?thesis
  proof (cases "load_statement c fs path src")
    case (Ok st)
    then have "genuine_statement c st" by (rule load_statement_genuine)
    then show ?thesis using Ok
      by (cases st) (simp_all add: loads_def add_statement_file_def Let_def genuine_context_def
          src_def [symmetric])
  next
    case Panic
    then show ?thesis by (simp add: load_no_panic)
  qed (simp add: loads_def add_statement_file_def Let_def genuine_context_def src_def [symmetric])
qed

lemma loads_trans:
  assumes "loads c operator ctx (ctx', Ok ())" "loads c operator ctx' res"
  shows "loads c operator ctx res"
  using assms by (auto simp: loads_def intro: prefix_order.trans)

lemma loads_files: "loads c operator ctx (add_statement_files c fs operator files ctx)"
proof (induction files arbitrary: ctx)
  case (Cons f files)
  obtain ctx' r where step: "add_statement_file c fs f operator ctx = (ctx', r)" by fastforce
  then have l: "loads c operator ctx (ctx', r)" using loads_step by metis
  show ?case
  proof (cases r)
    case (Ok u)
    then show ?thesis using loads_trans [of c operator ctx ctx'] l Cons.IH step by simp
  qed (use l step in simp_all)
qed (simp add: loads_def)

text \<open>C36. Loading the statements of a directory keeps the context genuine: the old and the new key
  of every transition, and the revoker of every revocation, signed exactly the document it was read
  from, each in its own namespace. Loading never changes the pins, never drops a statement and never
  panics, and for a bundle it never fails either: what does not verify is left out.\<close>

theorem loaded_statements_are_genuine:
  assumes "add_statements c fs d operator ctx = (ctx', r)"
  shows "(genuine_context c ctx \<longrightarrow> genuine_context c ctx') \<and> tc_pins ctx' = tc_pins ctx \<and>
    prefix (tc_transitions ctx) (tc_transitions ctx') \<and>
    prefix (tc_revocations ctx) (tc_revocations ctx') \<and>
    r \<noteq> Panic \<and> (\<not> operator \<longrightarrow> r = (if map_of fs d = Some Directory then Ok () else Err (TrustIo d)))"
proof (cases "read_dir fs d")
  case None
  then have "map_of fs d \<noteq> Some Directory" by (auto simp: read_dir_def split: if_splits)
  then show ?thesis using assms None by (auto simp: add_statements_def)
next
  case (Some names)
  then have "map_of fs d = Some Directory" by (auto simp: read_dir_def split: if_splits)
  moreover have "loads c operator ctx (ctx', r)"
    using assms Some loads_files by (metis (no_types, lifting) add_statements_def option.simps(5))
  ultimately show ?thesis by (simp add: loads_def)
qed

text \<open>A bundle with one unreadable statement, next to a file that is none.\<close>

definition ex_bundle :: filesystem where
  "ex_bundle = [(ascii ''keys'', Directory), (ascii ''keys/a.json'', RegularFile [1, 2]),
     (ascii ''keys/notes'', RegularFile [])]"

theorem loaded_statements_are_genuine_witness:
  "snd (add_statements ex_crypto ex_bundle (ascii ''keys'') False trust_new) = Ok () \<and>
   genuine_context ex_crypto (fst (add_statements ex_crypto ex_bundle (ascii ''keys'') False trust_new)) \<and>
   snd (add_statements ex_crypto ex_bundle (ascii ''notes'') False trust_new) = Err (TrustIo (ascii ''notes''))"
proof -
  have "genuine_context ex_crypto trust_new" by (simp add: genuine_context_def trust_new_def)
  moreover have "map_of ex_bundle (ascii ''keys'') = Some Directory" "map_of ex_bundle (ascii ''notes'') = None"
    by (simp_all add: ex_bundle_def)
  ultimately show ?thesis
    using loaded_statements_are_genuine [of ex_crypto ex_bundle _ False trust_new, OF prod.collapse [symmetric]]
    by auto
qed

section \<open>From the signers to the verifier\<close>

text \<open>C37. Key statements make the round trip: the files that \<^verbatim>\<open>transition\<close> and \<^verbatim>\<open>revocation\<close> build
  and \<^verbatim>\<open>write\<close> puts into a directory are loaded as the transition or the revocation that was meant,
  with the same keys, heads, releases, successors and time; in a self-revocation the cut points are
  left out.\<close>

theorem key_statements_round_trip:
  assumes env: "base64_ok c" "base64_nonempty c" "\<forall>x. length (sha256 c x) = 32"
    and signers: "signer_ok old" "signer_ok new" "is_strong c (sg_public_key new)" "length revoked = 32"
    and fields: "list_all head_ok heads" "list_all (\<lambda>h. length h = 32) rels" "cuts_ok points"
      "issued_ok issued_at" "reason_ok reason"
    and made: "transition c old new heads rels issued_at reason = Ok s"
      "revocation c old revoked points issued_at reason = Ok s'"
    and small: "length (sst_json s) \<le> MAX_STATEMENT_BYTES" "length (sst_json s') \<le> MAX_STATEMENT_BYTES"
  shows "load_statement c (files_of (statement_write s name d)) (name @ ascii ''.json'') src =
      Ok (StTransition \<lparr>tr_sha256 = sha256 c (sst_json s),
        tr_old_key_id = fingerprint_of c (sg_public_key old), tr_old_key = sg_public_key old,
        tr_new_key = sg_public_key new, tr_final_heads = heads, tr_final_releases = rels,
        tr_issued_at = issued_at, tr_source = src\<rparr>) \<and>
    load_statement c (files_of (statement_write s' name d)) (name @ ascii ''.json'') src =
      (let cu = effective_cuts c (sg_public_key old) revoked points in
       Ok (StRevocation \<lparr>rv_sha256 = sha256 c (sst_json s'), rv_revoked = revoked,
        rv_revoker = fingerprint_of c (sg_public_key old), rv_trusted_heads = sc_trusted_heads cu,
        rv_trusted_releases = sc_trusted_releases cu, rv_trusted_successors = sc_trusted_successors cu,
        rv_issued_at = issued_at, rv_source = src\<rparr>))"
  using transition_loads [OF made(1) signers(1-3) env fields(1,2,4,5) small(1)]
    revocation_loads [OF made(2) signers(1,4) env(1,3) fields(3-5) small(2)] by (rule conjI)

text \<open>How long a document is, at most.\<close>

lemma length_chars: "length (chars s) \<le> length s"
proof (induction "length s" arbitrary: s rule: less_induct)
  case less
  show ?case
  proof (cases s)
    case (Cons b r)
    then have IH: "length (chars t) \<le> length t" if "length t \<le> length r" for t
      using that less by simp
    show ?thesis unfolding Cons chars.simps
      using IH [of r] IH [of "tl r"] IH [of "tl (tl r)"] IH [of "tl (tl (tl r))"]
      by (cases r; cases "tl r"; cases "tl (tl r)") auto
  qed simp
qed

lemma length_json_char: "length (json_char c) \<le> 6"
  by (simp add: json_char_def lower_hex4_def encode_char_def)

lemma length_write_string: "length (write_string s) \<le> 6 * length s + 2"
proof -
  have "length (concat (map json_char cs)) \<le> 6 * length cs" for cs
    using length_json_char by (induction cs) (auto intro: add_mono)
  from this [of "chars s"] length_chars [of s] show ?thesis by (simp add: write_string_def)
qed

lemma length_written_object:
  "length (written (JObject m)) \<le> 2 + sum_list (map (\<lambda>(k, v). 6 * length k + 4 + length (written v)) m)"
proof -
  let ?rest = "\<lambda>m :: (bytes \<times> json) list. concat (map (\<lambda>(k, b). 44 # member_bytes k b)
    (map (\<lambda>(k, v). (k, written v)) m))"
  have m: "length (member_bytes k b) \<le> 6 * length k + 3 + length b" for k b
    using length_write_string [of k] by (simp add: member_bytes_def)
  have rest: "length (?rest m) \<le> sum_list (map (\<lambda>(k, v). 6 * length k + 4 + length (written v)) m)" for m
  proof (induction m)
    case (Cons kv m)
    obtain k v where "kv = (k, v)" by (cases kv)
    then show ?case using Cons m [of k "written v"] by simp
  qed simp
  show ?thesis
  proof (cases m)
    case (Cons kv m')
    obtain k v where kv: "kv = (k, v)" by (cases kv)
    have "length (written (JObject m)) = length (member_bytes k (written v)) + length (?rest m') + 2"
      using written_object [of k v m'] Cons kv by (simp del: write_value.simps)
    then show ?thesis using m [of k "written v"] rest [of m'] Cons kv by simp
  qed (simp add: write_items_None)
qed

text \<open>An instance: the example keys 7 and 8, a transition from one to the other, and a revocation.\<close>

definition ex_signer_of :: "u8 \<Rightarrow> signer" where
  "ex_signer_of b = \<lparr>sg_public_key = ex_trust_key b,
     sg_sign = \<lambda>ns m. Ok (ex_signature (replicate 32 b) (signed_data ex_crypto ns m))\<rparr>"

lemma ex_signer_of_signs:
  "b \<noteq> 0 \<Longrightarrow> sign_checked ex_crypto (ex_signer_of b) ns m =
     Ok (ex_signature (replicate 32 b) (signed_data ex_crypto ns m))"
  by (simp add: sign_checked_def ex_signer_of_def ex_trust_key_def ed25519_key_def ex_verify)

lemma ex_signer_of_ok: "signer_ok (ex_signer_of b)"
  by (auto simp: signer_ok_def ex_signer_of_def ex_trust_key_def ed25519_key_def)

definition ex_issued :: bytes where "ex_issued = ts_text 2024 2 29 12 0 0 0"

lemma ex_issued_ok: "issued_ok ex_issued"
  unfolding issued_ok_def ex_issued_def
  by (auto simp: ts_valid_def parse_rfc3339_ts_text intro!: valid_utf8_ascii dest: ts_text_ascii)


lemma length_ex_openssh: "length (to_openssh ex_crypto (ex_trust_key b) []) = 114"
  by (simp add: to_openssh_def ex_trust_key_def ed25519_key_def key_blob_def ascii_def)

lemma length_ex_issued: "length ex_issued = 24"
  by (simp add: ex_issued_def ts_valid_def)

lemma small_documents:
  "length (transition_json ex_crypto (ex_trust_key 7) (ex_trust_key 8) [] [] ex_issued None) \<le> MAX_STATEMENT_BYTES"
  "length (revocation_json ex_crypto (ex_trust_key 7) (replicate 32 9) no_cuts ex_issued None) \<le> MAX_STATEMENT_BYTES"
proof -
  note w = length_write_string [of TRANSITION_FORMAT] length_write_string [of REVOCATION_FORMAT]
    length_write_string [of ex_issued] length_write_string [of "hex (replicate 32 7)"]
    length_write_string [of "hex (replicate 32 8)"] length_write_string [of "hex (replicate 32 9)"]
    length_write_string [of "to_openssh ex_crypto (ex_trust_key 8) []"]
  have l: "length TRANSITION_FORMAT \<le> 40" "length REVOCATION_FORMAT \<le> 40"
    by (simp_all add: TRANSITION_FORMAT_def REVOCATION_FORMAT_def ascii_def)
  note o = length_written_object [of "members (transition_members ex_crypto (ex_trust_key 7) (ex_trust_key 8) [] [] ex_issued None)"]
    length_written_object [of "members (revocation_members ex_crypto (ex_trust_key 7) (replicate 32 9)
      (effective_cuts ex_crypto (ex_trust_key 7) (replicate 32 9) no_cuts) ex_issued None)"]
  show "length (transition_json ex_crypto (ex_trust_key 7) (ex_trust_key 8) [] [] ex_issued None) \<le> MAX_STATEMENT_BYTES"
    using o(1) w l length_ex_openssh [of 8] length_ex_issued
    unfolding transition_json_def to_canonical_def transition_doc_members
    by (simp add: reason_member_def hex_array_def write_items_None ascii_def MAX_STATEMENT_BYTES_def)
  show "length (revocation_json ex_crypto (ex_trust_key 7) (replicate 32 9) no_cuts ex_issued None) \<le> MAX_STATEMENT_BYTES"
    using o(2) w l length_ex_issued
    unfolding revocation_json_def to_canonical_def revocation_doc_members
    by (simp add: reason_member_def hex_array_def write_items_None ascii_def MAX_STATEMENT_BYTES_def
        effective_cuts_def no_cuts_def)
qed

theorem key_statements_round_trip_witness:
  "\<exists>s s'. transition ex_crypto (ex_signer_of 7) (ex_signer_of 8) [] [] ex_issued None = Ok s \<and>
     revocation ex_crypto (ex_signer_of 7) (replicate 32 9) no_cuts ex_issued None = Ok s' \<and>
     (\<exists>t. load_statement ex_crypto (files_of (statement_write s [97] [])) ([97] @ ascii ''.json'') (Operator [])
        = Ok (StTransition t) \<and> tr_old_key t = ex_trust_key 7 \<and> tr_new_key t = ex_trust_key 8) \<and>
     (\<exists>r. load_statement ex_crypto (files_of (statement_write s' [97] [])) ([97] @ ascii ''.json'') (Operator [])
        = Ok (StRevocation r) \<and> rv_revoked r = replicate 32 9 \<and> rv_trusted_heads r = [])"
proof -
  have pk: "sg_public_key (ex_signer_of b) = ex_trust_key b" for b by (simp add: ex_signer_of_def)
  obtain s where s: "transition ex_crypto (ex_signer_of 7) (ex_signer_of 8) [] [] ex_issued None = Ok s"
    "sst_json s = transition_json ex_crypto (ex_trust_key 7) (ex_trust_key 8) [] [] ex_issued None"
    by (simp add: transition_def sign_detached_def accept_transition_def ex_signer_of_signs pk Let_def)
  obtain s' where s': "revocation ex_crypto (ex_signer_of 7) (replicate 32 9) no_cuts ex_issued None = Ok s'"
    "sst_json s' = revocation_json ex_crypto (ex_trust_key 7) (replicate 32 9) no_cuts ex_issued None"
    by (simp add: revocation_def sign_detached_def ex_signer_of_signs pk Let_def)
  have small: "length (sst_json s) \<le> MAX_STATEMENT_BYTES" "length (sst_json s') \<le> MAX_STATEMENT_BYTES"
    unfolding s(2) s'(2) by (rule small_documents)+
  have env: "base64_nonempty ex_crypto" "\<forall>x. length (sha256 ex_crypto x) = 32"
    "is_strong ex_crypto (sg_public_key (ex_signer_of 8))" "cuts_ok no_cuts" "reason_ok None"
    by (simp_all add: base64_nonempty_def hex_def pk ex_trust_key_def ed25519_key_def is_strong_def
        key_is_strong_def decode_canonical_def ex_crypto_def cuts_ok_def no_cuts_def reason_ok_def)
  have "length (replicate 32 (9 :: u8)) = 32" by simp
  note rt = key_statements_round_trip [OF ex_base64_ok env(1,2) ex_signer_of_ok ex_signer_of_ok env(3) this
      _ _ env(4) ex_issued_ok env(5) s(1) s'(1) small, of "[97]" "[]" "Operator []"]
  then show ?thesis
    using s(1) s'(1) by (auto simp: pk Let_def effective_cuts_def no_cuts_def)
qed

end
