(* ===== verification/Signed_Verify_Properties.thy ===== *)
theory Signed_Verify_Properties
  imports Signed_Chain Signed_Verify_Checkpoints Trust_Load_Properties
begin

text \<open>
  What a verdict of the signed verifier is worth: a Verified log is one chain of records that follow
  the rules and that trusted keys signed, it holds every record a supplied checkpoint names, and its
  last hash stands for its whole history. Conversely, a log that follows the rules verifies.
\<close>

section \<open>Verified logs\<close>

text \<open>What the rules ask of the whole log: the segments are the files of the directory, from segment 0
  on without a gap; each header is whole, names the log's key and the last hash before it; each
  record has a good signature of that key, in its place in the chain, and was accepted by the trust
  context; and no record but the last one seals the log.\<close>

definition genuine_log ::
  "('p, 's) crypto \<Rightarrow> evaluated \<Rightarrow> node_dir \<Rightarrow> signed_header \<Rightarrow> (raw_record \<times> envelope) list list \<Rightarrow> bool" where
  "genuine_log c ev d h0 recss \<longleftrightarrow>
     segments_of c ev d h0 0 (replicate 32 0) (fst (list_segments d)) recss \<and> concat recss \<noteq> [] \<and>
     ev_has_pins ev \<and> open_log (concat recss)"

lemma verified_log_facts:
  assumes "signed_verify_with_options c log_dir d ctx opts = Ok r" "sr_verdict r = Verified"
    and "vo_attested opts = None"
  shows "\<exists>ev h0 recss. evaluate c ctx = Ok ev \<and> genuine_log c ev d h0 recss \<and>
    (\<forall>i. vo_expect_log_id opts = Some i \<longrightarrow> sh_log_id h0 = i) \<and>
    (\<forall>s \<in> set (vo_checkpoints opts). checkpoint_in_log c ev h0 (fst (list_segments d)) recss s) \<and>
    sl_final_record_hash (sr_log r) = Some (record_hash c (raw_envelope (fst (last (concat recss)))))"
proof -
  obtain ev where ev: "evaluate c ctx = Ok ev" "verify_signed_log c log_dir d ev opts = Ok r"
    using assms(1) by (auto simp: signed_verify_with_options_def result_elims)
  let ?ns = "fst (list_segments d)"
  from verify_log_clean [OF ev(2) assms(2,3)] obtain h0 recss o1 cps w w2 a where
    f: "segments_of c ev d h0 0 (replicate 32 0) ?ns recss" "ev_has_pins ev" "concat recss \<noteq> []"
      "\<forall>r \<in> set (butlast (concat recss)). en_event (snd r) \<noteq> EVENT_SEALED"
      "\<forall>i. vo_expect_log_id opts = Some i \<longrightarrow> sh_log_id h0 = i"
    and seen: "unseen o1" "visit_log c ?ns recss o1 (obs w)" "wk_seg0 w = Some h0" "clean w2"
    and cps: "parse_checkpoints (vo_checkpoints opts) = Ok cps" "check_checkpoints c ev cps w = Ok (w2, a)"
    and final: "sl_final_record_hash (sr_log r) = sl_final_record_hash (sr_log (wk_report w))"
    by blast
  have start: "\<not> met o1 pos x" "fst o1 = 0" for pos x using seen(1) unfolding unseen_def by blast+
  have "checkpoint_in_log c ev h0 ?ns recss s" if s: "s \<in> set (vo_checkpoints opts)" for s
  proof -
    obtain cp where cp: "(cp, s) \<in> set cps" "checkpoint_v2_parse (sp_bytes s) = Ok cp"
      using map_res_all [OF cps(1) s] by (auto simp: result_elims)
    have fold: "fold_res (check_checkpoint c ev h0) cps (w, False) = Ok (w2, a)"
      using cps(2) seen(3) by (simp add: check_checkpoints_def)
    have k: "checkpoint_holds c ev h0 w cp s" by (rule checkpoints_clean [OF fold seen(4) cp(1)])
    then have "met (obs w) (pos_of (cv_head cp)) (hd_record_hash (cv_head cp), unat (hd_record_count (cv_head cp)))"
      by (auto simp: checkpoint_holds_def found_at_def obs_def split: option.splits)
    from visit_log_met [OF seen(2) this] have
      "recorded_at c ?ns recss (pos_of (cv_head cp)) (hd_record_hash (cv_head cp)) (unat (hd_record_count (cv_head cp)))"
      using start by auto
    then show ?thesis using k cp(2) f(2) unfolding checkpoint_in_log_def checkpoint_holds_def by blast
  qed
  moreover have "sl_final_record_hash (sr_log r) = Some (record_hash c (raw_envelope (fst (last (concat recss)))))"
    using visit_log_final [OF seen(2)] f(3) final by (auto simp: obs_def)
  ultimately show ?thesis using ev(1) f unfolding genuine_log_def open_log_def by blast
qed

section \<open>A concrete log\<close>

text \<open>One segment with one record, signed by key 7, which is pinned; and a checkpoint of it.\<close>

definition ex_log_header :: signed_header where
  "ex_log_header = \<lparr>sh_version = FORMAT_VERSION_SIGNED, sh_segment_index = 0, sh_sig_alg = 1, sh_reserved = 0,
     sh_log_id = replicate 16 1, sh_key_id = replicate 32 7, sh_prev_final = replicate 32 0,
     sh_public_key = replicate 32 7\<rparr>"

definition ex_envelope :: envelope where
  "ex_envelope = \<lparr>en_record_id = 0, en_prev_hash = replicate 32 7, en_ts_wall = ascii ''2026-01-01T00:00:00.000Z'',
     en_ts_mono_delta = 0, en_session_id = replicate 16 2, en_event = ascii ''login'', en_key_id = replicate 32 7,
     en_schema_version = 1, en_segment_index = 0, en_sig_alg = 1, en_body_hash = replicate 32 5\<rparr>"

definition ex_frame :: "bytes \<times> bytes \<times> bytes option" where
  "ex_frame = (envelope_encode ex_envelope, ex_signature (replicate 32 7)
     (signed_data ex_crypto NS_RECORD (envelope_encode ex_envelope)), None)"

definition ex_log_file :: bytes where
  "ex_log_file = signed_header_to_bytes ex_crypto ex_log_header @ sframe ex_frame"

definition ex_log :: node_dir where
  "ex_log = [(segment_path 0, Some ex_log_file)]"

definition ex_raw :: raw_record where
  "ex_raw = \<lparr>raw_offset = 128, raw_envelope = fst ex_frame, raw_signature = fst (snd ex_frame), raw_body = None,
     raw_total_len = length (sframe ex_frame)\<rparr>"

definition ex_pinned :: trust_context where
  "ex_pinned = \<lparr>tc_pins = [ex_pin 7 SCOPE_DEFAULT], tc_transitions = [], tc_revocations = [], tc_warnings = [],
     tc_statements_seen = 0\<rparr>"

lemma ex_evaluated:
  "\<exists>ev. evaluate ex_crypto ex_pinned = Ok ev \<and> quiet ev ex_log_header \<and>
     accept ev (replicate 32 7) ns obj \<in> (if scope_contains SCOPE_DEFAULT ns then range Ok else UNIV)"
  by (auto simp: ex_pinned_def quiet_def ex_eval ex_log_header_def eval_statement_heads_def)

lemma ex_log_header_wf: "signed_header_wf ex_log_header"
  by (simp add: signed_header_wf_def ex_log_header_def)

lemma ex_chain_start: "chain_start ex_crypto ex_log_file = replicate 32 7"
proof -
  have "take 124 ex_log_file = signed_header_hashed ex_log_header"
    using signed_header_read(3) [OF ex_log_header_wf, of ex_crypto] ex_log_header_wf
    by (simp add: ex_log_file_def signed_header_to_bytes_def)
  then have "chain_start ex_crypto ex_log_file = ex_hash 32 (TAG_HEADER @ [0] @ signed_header_hashed ex_log_header)"
    by (simp add: chain_start_def th_def HEADER_HASHED_LEN_def)
  also have "\<dots> = rev (replicate 32 7)"
    by (simp add: ex_hash_def signed_header_hashed_def ex_log_header_def)
  finally show ?thesis by simp
qed

lemma ex_envelope_small: "length (envelope_encode ex_envelope) \<le> 4096"
  by code_simp

lemma ex_frame_valid: "sframe_valid ex_frame"
  using ex_envelope_small by (simp add: sframe_valid_def ex_frame_def signed_consts)

lemma ex_envelope_read: "envelope_decode (envelope_encode ex_envelope) = Ok ex_envelope"
proof (rule envelope_round_trip_bytes)
  have "valid_utf8 (ascii ''2026-01-01T00:00:00.000Z'')" "event_ok (ascii ''login'')" by code_simp+
  then show "env_wf ex_envelope" by (simp add: env_wf_def ex_envelope_def small_def ascii_def)
qed (use ex_envelope_small in simp)

lemma ex_frames:
  "read_frame ex_log_file HEADER_LEN = FrameRecord ex_raw"
  "read_frame ex_log_file (HEADER_LEN + raw_total_len ex_raw) = FrameEnd"
proof -
  have l: "length ex_log_file = 128 + length (sframe ex_frame)" "drop 128 ex_log_file = sframe ex_frame"
    using ex_log_header_wf by (simp_all add: ex_log_file_def)
  show "read_frame ex_log_file HEADER_LEN = FrameRecord ex_raw"
    using read_frame_sframe [of "fst ex_frame" "fst (snd ex_frame)" "snd (snd ex_frame)" 128 ex_log_file "[]"] ex_frame_valid l
    by (simp add: ex_raw_def HEADER_LEN_def) (simp add: ex_frame_def)
  show "read_frame ex_log_file (HEADER_LEN + raw_total_len ex_raw) = FrameEnd"
    using l by (simp add: read_frame_def ex_raw_def HEADER_LEN_def)
qed

lemma ex_record_ok: "record_ok ex_crypto ex_log_header 0 0 (replicate 32 7) ex_raw ex_envelope"
proof -
  have "(replicate 32 7 :: bytes) \<noteq> replicate 32 0" by simp
  then have "ed25519_verify ex_crypto (replicate 32 7) d (ex_signature (replicate 32 7) d) = Ok ()" for d
    by (intro ex_verify) simp_all
  moreover have "\<not> is_structural (ascii ''login'')" "ascii ''login'' \<noteq> EVENT_FINALIZED" by code_simp+
  ultimately show ?thesis using ex_envelope_read
    by (simp add: record_ok_def body_checked_def structure_ok_def ex_raw_def ex_frame_def ex_log_header_def)
      (simp add: ex_envelope_def in_chain_def)
qed

lemma ex_header_ok: "header_ok ex_crypto ex_log_header 0 (replicate 32 0) ex_log_file ex_log_header"
proof -
  note r = signed_header_read [OF ex_log_header_wf, of ex_crypto]
  have b: "take 128 ex_log_file = signed_header_to_bytes ex_crypto ex_log_header"
    using ex_log_header_wf by (simp add: ex_log_file_def)
  have "take 124 ex_log_file = signed_header_hashed ex_log_header"
    "take 4 ex_log_file = FORMAT_MAGIC"
    using r(2,3) ex_log_header_wf by (simp_all add: ex_log_file_def)
  moreover have "u32_at ex_log_file 124 = u32_at (take 128 ex_log_file) 124" by (simp add: u32_at_take)
  moreover have "is_strong ex_crypto (ed25519_key (replicate 32 7))"
    by (simp add: is_strong_def key_is_strong_def ed25519_key_def decode_canonical_def ex_crypto_def)
  moreover have "fingerprint_of ex_crypto (ed25519_key (replicate 32 7)) = replicate 32 7"
    using ex_fingerprint [of 7] by (simp add: ex_trust_key_def)
  moreover have "128 \<le> length ex_log_file" using ex_log_header_wf by (simp add: ex_log_file_def)
  moreover have "alg_from_code (sh_sig_alg ex_log_header) \<noteq> None" "sh_version ex_log_header = FORMAT_VERSION_SIGNED"
    "sh_reserved ex_log_header = 0" "sh_segment_index ex_log_header = 0" "sh_prev_final ex_log_header = replicate 32 0"
    "sh_key_id ex_log_header = replicate 32 7" "sh_public_key ex_log_header = replicate 32 7"
    by (simp_all add: ex_log_header_def alg_from_code_def)
  ultimately show ?thesis
    using r b by (simp add: header_ok_def HEADER_LEN_def HEADER_HASHED_LEN_def)
qed

lemma ex_segments:
  assumes "accept ev (replicate 32 7) NS_RECORD (ORecord (replicate 16 1) 0 0 (record_hash ex_crypto (raw_envelope ex_raw))) = Ok e"
  shows "segments_of ex_crypto ev ex_log ex_log_header 0 (replicate 32 0) (fst (list_segments ex_log))
    [[(ex_raw, ex_envelope)]]"
proof -
  have names: "fst (list_segments ex_log) = [0]"
    by (simp add: list_segments_def ex_log_def List.map_filter_def signed_listing)
  have "chain_of ex_crypto ex_log_header 0 ex_log_file HEADER_LEN 0 (chain_start ex_crypto ex_log_file)
      [(ex_raw, ex_envelope)] (record_hash ex_crypto (raw_envelope ex_raw))"
    using ex_frames ex_record_ok by (auto simp: ex_chain_start intro!: chain_of.intros)
  moreover have "all_accepted ex_crypto ev ex_log_header 0 0 [(ex_raw, ex_envelope)]"
    using assms by (auto simp: all_accepted_def accepted_def ex_log_header_def)
  moreover have "regular_file ex_log 0 = Some ex_log_file" by (simp add: ex_log_def)
  ultimately show ?thesis
    unfolding names using ex_header_ok by (auto intro!: segments_of.intros)
qed

lemma ex_well_formed: "well_sealed [[(ex_raw, ex_envelope)]]" "times_ok None [(ex_raw, ex_envelope)]"
  by (simp_all add: seals_def open_log_def time_ok_def ex_envelope_def EVENT_SEALED_def split: option.splits)

definition ex_checkpoint :: checkpoint_v2 where
  "ex_checkpoint = \<lparr>cv_alg = Ed25519, cv_key_id = replicate 32 7,
     cv_head = \<lparr>hd_log_id = replicate 16 1, hd_segment = 0, hd_record_id = 0, hd_record_count = 1,
       hd_record_hash = record_hash ex_crypto (raw_envelope ex_raw)\<rparr>,
     cv_head_ts_wall = [], cv_observed_at = Some ex_issued\<rparr>"

definition ex_supplied :: supplied_checkpoint where
  "ex_supplied = \<lparr>sp_bytes = checkpoint_to_bytes ex_checkpoint, sp_sig = None, sp_witnesses = []\<rparr>"

lemma checkpoint_small:
  assumes "checkpoint_ok cp" "length (cv_head_ts_wall cp) \<le> 1000" "\<forall>t. cv_observed_at cp = Some t \<longrightarrow> length t \<le> 1000"
  shows "length (checkpoint_to_bytes cp) \<le> 64 * 1024"
proof -
  obtain t where t: "cv_observed_at cp = Some t" using assms(1) by (auto simp: checkpoint_ok_def)
  have l: "length (cv_key_id cp) = 32" "length (hd_log_id (cv_head cp)) = 16" "length (hd_record_hash (cv_head cp)) = 32"
    "length CHECKPOINT_V2_FORMAT = 27" "length (json_name (cv_alg cp)) = 7"
    using assms(1) by (cases "cv_alg cp"; simp add: checkpoint_ok_def head_ok_def CHECKPOINT_V2_FORMAT_def ascii_def)+
  have d: "length (dec_digits (unat n)) \<le> 20" for n :: u64
    by (rule length_dec_digits_le [OF less_trans [OF unat_u64_less]]) simp_all
  note w = length_write_string [of "cv_head_ts_wall cp"] length_write_string [of t]
    length_write_string [of "hex (cv_key_id cp)"] length_write_string [of "hex (hd_log_id (cv_head cp))"]
    length_write_string [of "hex (hd_record_hash (cv_head cp))"] length_write_string [of CHECKPOINT_V2_FORMAT]
    length_write_string [of "json_name (cv_alg cp)"]
  show ?thesis
    using length_written_object [of "members (checkpoint_members cp t)"] w l assms(2,3) t
      d [of "hd_record_count (cv_head cp)"] d [of "hd_record_id (cv_head cp)"] d [of "ucast (hd_segment (cv_head cp))"]
    unfolding checkpoint_to_bytes_def to_canonical_def checkpoint_json_members [OF t]
      json_object_sorted [OF checkpoint_members_sorted]
    by (simp add: ascii_def)
qed

lemma ex_checkpoint_read: "checkpoint_v2_parse (checkpoint_to_bytes ex_checkpoint) = Ok ex_checkpoint"
proof -
  have "checkpoint_ok ex_checkpoint"
    using ex_issued_ok by (simp add: checkpoint_ok_def ex_checkpoint_def head_ok_def record_hash_def th_def MAX_SAFE_INT_def
        word_le_nat_alt)
  moreover from this have "length (checkpoint_to_bytes ex_checkpoint) \<le> 64 * 1024"
    by (rule checkpoint_small) (simp_all add: ex_checkpoint_def length_ex_issued)
  ultimately show ?thesis by (simp add: checkpoint_parse_iff)
qed

lemma ex_checkpoint_in_log: "checkpoint_in_log ex_crypto ev ex_log_header [0] [[(ex_raw, ex_envelope)]] ex_supplied"
proof -
  have "recorded_at ex_crypto [0] [[(ex_raw, ex_envelope)]] (pos_of (cv_head ex_checkpoint))
      (hd_record_hash (cv_head ex_checkpoint)) (unat (hd_record_count (cv_head ex_checkpoint)))"
    unfolding recorded_at_def by (intro exI [of _ 0]) (simp add: ex_checkpoint_def pos_of_def)
  then show ?thesis
    unfolding checkpoint_in_log_def
    by (intro exI [of _ ex_checkpoint])
      (simp add: ex_supplied_def ex_checkpoint_read, simp add: ex_checkpoint_def ex_log_header_def)
qed

lemma ex_genuine:
  "\<exists>ev. evaluate ex_crypto ex_pinned = Ok ev \<and> quiet ev ex_log_header \<and>
     genuine_log ex_crypto ev ex_log ex_log_header [[(ex_raw, ex_envelope)]]"
proof -
  obtain ev where ev: "evaluate ex_crypto ex_pinned = Ok ev" "quiet ev ex_log_header"
    "accept ev (replicate 32 7) NS_RECORD (ORecord (replicate 16 1) 0 0 (record_hash ex_crypto (raw_envelope ex_raw)))
      \<in> (if scope_contains SCOPE_DEFAULT NS_RECORD then range Ok else UNIV)"
    using ex_evaluated by blast
  moreover have "scope_contains SCOPE_DEFAULT NS_RECORD" by code_simp
  ultimately show ?thesis
    using ex_segments by (auto simp: genuine_log_def quiet_def open_log_def)
qed

lemma ex_listing: "fst (list_segments ex_log) = [0]"
  by (simp add: list_segments_def ex_log_def List.map_filter_def signed_listing)

lemma ex_verifies:
  "\<exists>r. signed_verify_with_options ex_crypto [] ex_log ex_pinned
     (signed_default_options\<lparr>vo_checkpoints := [ex_supplied]\<rparr>) = Ok r \<and> sr_verdict r = Verified"
proof -
  obtain ev where ev: "evaluate ex_crypto ex_pinned = Ok ev" "quiet ev ex_log_header"
    "genuine_log ex_crypto ev ex_log ex_log_header [[(ex_raw, ex_envelope)]]" using ex_genuine by blast
  then have "\<exists>r. verify_signed_log ex_crypto [] ex_log ev (signed_default_options\<lparr>vo_checkpoints := [ex_supplied]\<rparr>) = Ok r \<and>
      sr_verdict r = Verified"
    by (intro verify_with_checkpoints)
      (use ex_well_formed ex_checkpoint_in_log ex_listing in \<open>auto simp: signed_default_options_def genuine_log_def\<close>)
  then show ?thesis using ev(1) by (simp add: signed_verify_with_options_def)
qed

section \<open>Properties\<close>

text \<open>C8. A log that follows the rules verifies. If the segments of the directory form one chain of
  records that the pinned key signed and may sign, with times that fall back by no more than the slack
  and nothing after \<^verbatim>\<open>log.sealed\<close>, and every supplied checkpoint fits the log, then the verdict is
  Verified: the verifier raises no false alarm.\<close>

theorem rule_abiding_log_verifies:
  assumes "evaluate c ctx = Ok ev" "quiet ev h0" "genuine_log c ev d h0 recss"
    and "well_sealed recss" "times_ok None (concat recss)"
    and "vo_attested opts = None" "\<forall>i. vo_expect_log_id opts = Some i \<longrightarrow> i = sh_log_id h0"
    and "\<forall>s \<in> set (vo_checkpoints opts). checkpoint_in_log c ev h0 (fst (list_segments d)) recss s"
  shows "\<exists>r. signed_verify_with_options c log_dir d ctx opts = Ok r \<and> sr_verdict r = Verified"
  using assms verify_with_checkpoints [of c ev d h0 recss opts log_dir]
  by (auto simp: signed_verify_with_options_def genuine_log_def)

theorem rule_abiding_log_verifies_witness:
  "\<exists>r. signed_verify_with_options ex_crypto [] ex_log ex_pinned
     (signed_default_options\<lparr>vo_checkpoints := [ex_supplied]\<rparr>) = Ok r \<and> sr_verdict r = Verified"
proof -
  obtain ev where "evaluate ex_crypto ex_pinned = Ok ev" "quiet ev ex_log_header"
    "genuine_log ex_crypto ev ex_log ex_log_header [[(ex_raw, ex_envelope)]]" using ex_genuine by blast
  then show ?thesis
    by (rule rule_abiding_log_verifies)
      (use ex_well_formed ex_checkpoint_in_log ex_listing in \<open>simp_all add: signed_default_options_def\<close>)
qed

text \<open>C4. What Verified means: the files of the directory are one chain of records from segment 0 on;
  every header is whole and names the log and its key, every record was signed by that key, in its
  place in the chain, and the trust context accepts the key for it; nothing follows a record that seals
  the log. The report names the hash of the last record.\<close>

theorem verified_signed_log_is_genuine:
  assumes "signed_verify_with_options c log_dir d ctx opts = Ok r" "sr_verdict r = Verified"
    and "vo_attested opts = None"
  shows "\<exists>ev h0 recss. evaluate c ctx = Ok ev \<and> genuine_log c ev d h0 recss \<and>
    (\<forall>i. vo_expect_log_id opts = Some i \<longrightarrow> sh_log_id h0 = i) \<and>
    sl_final_record_hash (sr_log r) = Some (record_hash c (raw_envelope (fst (last (concat recss)))))"
  using verified_log_facts [OF assms] by blast

theorem verified_signed_log_is_genuine_witness:
  "\<exists>ev h0 recss. evaluate ex_crypto ex_pinned = Ok ev \<and> genuine_log ex_crypto ev ex_log h0 recss"
proof -
  obtain r where r: "signed_verify_with_options ex_crypto [] ex_log ex_pinned
      (signed_default_options\<lparr>vo_checkpoints := [ex_supplied]\<rparr>) = Ok r" "sr_verdict r = Verified"
    using ex_verifies by blast
  show ?thesis using verified_signed_log_is_genuine [OF r] by (auto simp: signed_default_options_def)
qed

text \<open>C9. Truncation and rewriting are caught by checkpoints: if the verdict is Verified, every supplied
  checkpoint names a record of this log by its position, its hash and its number, so no record up to it
  is missing or replaced; its signature and those of its witnesses are good and come from keys the
  trust context accepts for that purpose.\<close>

theorem verified_log_holds_its_checkpoints:
  assumes "signed_verify_with_options c log_dir d ctx opts = Ok r" "sr_verdict r = Verified"
    and "vo_attested opts = None"
  shows "\<exists>ev h0 recss. evaluate c ctx = Ok ev \<and> genuine_log c ev d h0 recss \<and>
    (\<forall>s \<in> set (vo_checkpoints opts). checkpoint_in_log c ev h0 (fst (list_segments d)) recss s)"
  using verified_log_facts [OF assms] by blast

theorem verified_log_holds_its_checkpoints_witness:
  "\<exists>ev h0 recss. evaluate ex_crypto ex_pinned = Ok ev \<and> genuine_log ex_crypto ev ex_log h0 recss \<and>
     checkpoint_in_log ex_crypto ev h0 (fst (list_segments ex_log)) recss ex_supplied"
proof -
  obtain r where r: "signed_verify_with_options ex_crypto [] ex_log ex_pinned
      (signed_default_options\<lparr>vo_checkpoints := [ex_supplied]\<rparr>) = Ok r" "sr_verdict r = Verified"
    using ex_verifies by blast
  show ?thesis using verified_log_holds_its_checkpoints [OF r] by (auto simp: signed_default_options_def)
qed

text \<open>C11. The last hash stands for the whole log: of two verified logs whose reports name the same final
  record hash, either all that is hashed is equal (every header of a segment with records and every
  envelope, in order), or the two logs contain a collision of SHA-256.\<close>

theorem same_final_hash_same_history:
  assumes "signed_verify_with_options c log_dir d ctx opts = Ok r" "sr_verdict r = Verified" "vo_attested opts = None"
    and "signed_verify_with_options c log_dir' d' ctx' opts' = Ok r'" "sr_verdict r' = Verified" "vo_attested opts' = None"
    and "sl_final_record_hash (sr_log r) = sl_final_record_hash (sr_log r')"
  shows "log_messages d = log_messages d' \<or> collision (sha256 c) (log_messages d) (log_messages d')"
proof -
  have chain: "linked_from (sha256 c) prior_hash (replicate 32 0) (log_messages dd) \<and>
      (\<forall>i < length (log_messages dd). is_first (log_messages dd ! i) \<longleftrightarrow> i = 0) \<and> log_messages dd \<noteq> [] \<and>
      sl_final_record_hash (sr_log rr) = Some (sha256 c (last (log_messages dd)))"
    if v: "signed_verify_with_options c ld dd cx oo = Ok rr" "sr_verdict rr = Verified" "vo_attested oo = None" for ld dd cx oo rr
  proof -
    obtain ev h0 recss where g: "genuine_log c ev dd h0 recss"
      "sl_final_record_hash (sr_log rr) = Some (record_hash c (raw_envelope (fst (last (concat recss)))))"
      using verified_log_facts [OF v] by blast
    then have s: "segments_of c ev dd h0 0 (replicate 32 0) (fst (list_segments dd)) recss" "concat recss \<noteq> []"
      by (simp_all add: genuine_log_def)
    show ?thesis
      unfolding log_messages_def
      using segments_linked [OF s(1)] s(2) g(2) by (simp add: message_hash)
  qed
  show ?thesis
    using chain [OF assms(1-3)] chain [OF assms(4-6)] assms(7)
      linked_unique [of "sha256 c" prior_hash "replicate 32 0" "log_messages d" "replicate 32 0" "log_messages d'" is_first]
    by force
qed

theorem same_final_hash_same_history_witness:
  "\<exists>r. signed_verify_with_options ex_crypto [] ex_log ex_pinned
     (signed_default_options\<lparr>vo_checkpoints := [ex_supplied]\<rparr>) = Ok r \<and> sr_verdict r = Verified \<and>
     (log_messages ex_log = log_messages ex_log \<or> collision (sha256 ex_crypto) (log_messages ex_log) (log_messages ex_log))"
proof -
  obtain r where r: "signed_verify_with_options ex_crypto [] ex_log ex_pinned
      (signed_default_options\<lparr>vo_checkpoints := [ex_supplied]\<rparr>) = Ok r" "sr_verdict r = Verified"
    using ex_verifies by blast
  have a: "vo_attested (signed_default_options\<lparr>vo_checkpoints := [ex_supplied]\<rparr>) = None"
    by (simp add: signed_default_options_def)
  show ?thesis
    using same_final_hash_same_history [OF r a r a refl] r by blast
qed

end
