(* ===== verification/Signed_Writer.thy ===== *)
theory Signed_Writer
  imports Writer Signed_Format "HOL-Library.AList" "HOL-Library.Stream"
begin

text \<open>
  The writer of signed logs (\<^verbatim>\<open>signed/writer.rs\<close>): its state, the operations \<^verbatim>\<open>append\<close>, \<^verbatim>\<open>seal\<close> and
  \<^verbatim>\<open>rollover\<close>, the scan of the last segment, and opening. As in \<open>Writer\<close>, an operation maps the writer
  and the directory to both after it and a result; what was written before an error stays written.
  The log id and the nonces are random: a nonce source is the stream of what it will yield. \<^verbatim>\<open>flush\<close>
  and \<^verbatim>\<open>full_sync\<close> change nothing here. The configuration, the recovery report and \<^verbatim>\<open>RecordInput\<close> are
  those of format \<^verbatim>\<open>0x0001\<close>.
\<close>

section \<open>State\<close>

text \<open>The constructors of \<^verbatim>\<open>RecoveryFailure\<close> and \<^verbatim>\<open>WriterError\<close> this writer uses.\<close>

datatype signed_recovery_failure =
    SRecHeaderCorrupt u16 header_parse_error
  | SRecChainBreak u16 u64 nat
  | SRecKeyIdMismatch u16 bytes bytes
  | SRecSignatureInvalid u16 u64 nat
  | SRecLogIdMismatch u16

datatype signed_writer_error =
    SWIo
  | SWInvalidInput
  | SWRecovery signed_recovery_failure
  | SWFormatMismatch u16
  | SWSealed
  | SWSign sign_error

text \<open>\<^verbatim>\<open>Seg\<close>: the position of the file handle is \<open>sgm_bytes_written\<close>.\<close>

record signed_seg =
  sgm_index :: u16
  sgm_bytes_written :: nat
  sgm_last_hash :: bytes
  sgm_next_record_id :: u64

record signed_writer =
  sw_signer :: signer
  sw_session_id :: bytes
  sw_config :: writer_config
  sw_log_id :: bytes
  sw_current :: signed_seg
  sw_last_ts :: "(bytes \<times> u64) option"
  sw_sealed :: bool
  sw_recovery :: recovery_report
  sw_nonces :: "bytes stream"

type_synonym 'a sw_step = "(signed_writer \<times> node_dir) \<times> ('a, signed_writer_error) result"

definition sw_then :: "'a sw_step \<Rightarrow> ('a \<Rightarrow> signed_writer \<times> node_dir \<Rightarrow> 'b sw_step) \<Rightarrow> 'b sw_step" where
  "sw_then s f = (case s of (wd, Ok x) \<Rightarrow> f x wd | (wd, Err e) \<Rightarrow> (wd, Err e) | (wd, Panic) \<Rightarrow> (wd, Panic))"

section \<open>Files\<close>

definition node_put :: "u16 \<Rightarrow> bytes \<Rightarrow> node_dir \<Rightarrow> node_dir" where
  "node_put i content d = AList.update (segment_path i) (Some content) d"

text \<open>\<^verbatim>\<open>write_all\<close> on an open handle.\<close>

definition node_write :: "u16 \<Rightarrow> nat \<Rightarrow> bytes \<Rightarrow> node_dir \<Rightarrow> node_dir" where
  "node_write i pos data d =
     (case regular_file d i of None \<Rightarrow> d | Some content \<Rightarrow> node_put i (write_at pos data content) d)"

text \<open>\<^verbatim>\<open>create_new\<close> refuses any name that is taken.\<close>

definition signed_create_segment ::
  "('p, 's) crypto \<Rightarrow> u16 \<Rightarrow> bytes \<Rightarrow> public_key \<Rightarrow> bytes \<Rightarrow> node_dir
    \<Rightarrow> node_dir \<times> (signed_seg, signed_writer_error) result" where
  "signed_create_segment c idx log_id pk prev_final d =
     (let header = signed_header_to_bytes c (signed_header_new c idx log_id pk prev_final) in
      if map_of d (segment_path idx) \<noteq> None then (d, Err SWIo)
      else (node_put idx header d,
        Ok \<lparr>sgm_index = idx, sgm_bytes_written = HEADER_LEN, sgm_last_hash = chain_start c header,
            sgm_next_record_id = 0\<rparr>))"

section \<open>Records\<close>

definition bump_ms :: "bytes \<Rightarrow> u64 \<Rightarrow> bytes \<times> u64" where
  "bump_ms ts ms =
     (rfc3339_from_millis (unwrap_or 0 (parse_rfc3339_millis ts) + 1), saturating_add1 ms)"

definition signed_validate :: "record_input \<Rightarrow> (unit, signed_writer_error) result" where
  "signed_validate input =
     (let e = in_event input in
      if parse_rfc3339_millis (in_ts_wall input) = None then Err SWInvalidInput
      else if e = [] \<or> 128 < length e \<or> \<not> list_all (\<lambda>b. 0x21 \<le> b \<and> b \<le> 0x7e) e then Err SWInvalidInput
      else Ok ())"

text \<open>The payload is a \<^verbatim>\<open>BTreeMap\<close>: its entries are in the order of the keys.\<close>

definition finalize_input :: "bytes \<Rightarrow> u64 \<Rightarrow> u64 \<Rightarrow> bytes \<Rightarrow> record_input" where
  "finalize_input ts delta records final_hash =
     \<lparr>in_ts_wall = ts, in_ts_mono_delta = delta, in_actor = ascii ''system:audit'',
      in_event = EVENT_FINALIZED,
      in_payload = [(ascii ''final_hash'', PBytes final_hash), (ascii ''records'', PUint records)],
      in_schema_version = 1\<rparr>"

definition sealing_input :: "bytes \<Rightarrow> u64 \<Rightarrow> record_input" where
  "sealing_input ts delta =
     \<lparr>in_ts_wall = ts, in_ts_mono_delta = delta, in_actor = ascii ''system:audit'', in_event = EVENT_SEALED,
      in_payload = [], in_schema_version = 1\<rparr>"

definition make_envelope ::
  "('p, 's) crypto \<Rightarrow> signed_writer \<Rightarrow> record_input \<Rightarrow> u64 \<Rightarrow> bytes \<Rightarrow> envelope" where
  "make_envelope c sw input record_id bh =
     (let pk = sg_public_key (sw_signer sw) in
      \<lparr>en_record_id = record_id, en_prev_hash = sgm_last_hash (sw_current sw), en_ts_wall = in_ts_wall input,
       en_ts_mono_delta = in_ts_mono_delta input, en_session_id = sw_session_id sw, en_event = in_event input,
       en_key_id = fingerprint_of c pk, en_schema_version = in_schema_version input,
       en_segment_index = sgm_index (sw_current sw), en_sig_alg = alg_code (pk_alg pk), en_body_hash = bh\<rparr>)"

definition signed_framed_len :: "('p, 's) crypto \<Rightarrow> signed_writer \<Rightarrow> record_input \<Rightarrow> bytes \<Rightarrow> nat" where
  "signed_framed_len c sw input bdy =
     4 + length (envelope_encode (make_envelope c sw input (- 1) (replicate 32 0))) + 64 + 4 + length bdy + 4"

definition next_nonce :: "signed_writer \<Rightarrow> bytes \<times> signed_writer" where
  "next_nonce sw = (shd (sw_nonces sw), sw\<lparr>sw_nonces := stl (sw_nonces sw)\<rparr>)"

definition signed_write_record ::
  "('p, 's) crypto \<Rightarrow> record_input \<Rightarrow> bytes \<Rightarrow> signed_writer \<times> node_dir \<Rightarrow> u64 sw_step" where
  "signed_write_record c input bdy wd =
     (let (sw, d) = wd; seg = sw_current sw; id = sgm_next_record_id seg;
          env = envelope_encode (make_envelope c sw input id (body_hash c bdy))
      in if MAX_ENVELOPE_LEN < length env then (wd, Err SWInvalidInput)
         else
           (case sign_checked c (sw_signer sw) NS_RECORD env of
              Err e \<Rightarrow> (wd, Err (SWSign e))
            | Panic \<Rightarrow> (wd, Panic)
            | Ok sig \<Rightarrow>
                let framed = frame env sig (Some bdy) in
                ((sw\<lparr>sw_current := seg\<lparr>sgm_bytes_written := sgm_bytes_written seg + length framed,
                       sgm_last_hash := record_hash c env, sgm_next_record_id := id + 1\<rparr>,
                     sw_last_ts := Some (in_ts_wall input, in_ts_mono_delta input)\<rparr>,
                  node_write (sgm_index seg) (sgm_bytes_written seg) framed d), Ok id)))"

text \<open>A nonce, the body with it, and the record.\<close>

definition write_with_nonce ::
  "('p, 's) crypto \<Rightarrow> record_input \<Rightarrow> signed_writer \<times> node_dir \<Rightarrow> u64 sw_step" where
  "write_with_nonce c input wd =
     (let (sw, d) = wd; (nonce, sw) = next_nonce sw in
      case encode_body (in_actor input) (in_payload input) nonce of
        None \<Rightarrow> ((sw, d), Panic)
      | Some bdy \<Rightarrow> signed_write_record c input bdy (sw, d))"

section \<open>Operations\<close>

definition signed_rollover :: "('p, 's) crypto \<Rightarrow> signed_writer \<times> node_dir \<Rightarrow> unit sw_step" where
  "signed_rollover c wd =
     (let sw = fst wd in
      case sw_last_ts sw of
        None \<Rightarrow> (wd, Err SWInvalidInput)
      | Some (ts, delta) \<Rightarrow>
          let (ts, delta) = bump_ms ts delta;
              fin = finalize_input ts delta (sgm_next_record_id (sw_current sw)) (sgm_last_hash (sw_current sw))
          in sw_then (write_with_nonce c fin wd) (\<lambda>_ (sw, d).
               let i = sgm_index (sw_current sw) in
               if unat i = 2 ^ 16 - 1 then ((sw, d), Err SWInvalidInput)
               else
                 (case signed_create_segment c (i + 1) (sw_log_id sw) (sg_public_key (sw_signer sw))
                     (sgm_last_hash (sw_current sw)) d of
                    (d, Ok seg) \<Rightarrow> ((sw\<lparr>sw_current := seg\<rparr>, d), Ok ())
                  | (d, Err e) \<Rightarrow> ((sw, d), Err e)
                  | (d, Panic) \<Rightarrow> ((sw, d), Panic))))"

text \<open>The condition of the rollover; \<open>None\<close> where encoding the payload panics.\<close>

definition signed_needs_rollover :: "('p, 's) crypto \<Rightarrow> signed_writer \<Rightarrow> record_input \<Rightarrow> bool option" where
  "signed_needs_rollover c sw input =
     (if cfg_finalize_on_rollover (sw_config sw) \<and> 0 < sgm_next_record_id (sw_current sw)
      then map_option (\<lambda>sized.
          cfg_segment_size_bytes (sw_config sw) <
            sgm_bytes_written (sw_current sw) + signed_framed_len c sw input sized
            + signed_framed_len c sw
                (finalize_input (in_ts_wall input) (in_ts_mono_delta input) (- 1) (replicate 32 0))
                (replicate 160 0))
        (encode_body (in_actor input) (in_payload input) (replicate 32 0))
      else Some False)"

definition signed_append ::
  "('p, 's) crypto \<Rightarrow> record_input \<Rightarrow> signed_writer \<times> node_dir \<Rightarrow> u64 sw_step" where
  "signed_append c input wd =
     (if sw_sealed (fst wd) then (wd, Err SWSealed)
      else
        sw_then (wd, signed_validate input) (\<lambda>_ wd.
          if in_event input = EVENT_FINALIZED \<or> in_event input = EVENT_SEALED then (wd, Err SWInvalidInput)
          else
            sw_then
              (case signed_needs_rollover c (fst wd) input of
                 None \<Rightarrow> (wd, Panic)
               | Some True \<Rightarrow> signed_rollover c wd
               | Some False \<Rightarrow> (wd, Ok ()))
              (\<lambda>_. write_with_nonce c input)))"

definition signed_seal :: "('p, 's) crypto \<Rightarrow> signed_writer \<times> node_dir \<Rightarrow> u64 sw_step" where
  "signed_seal c wd =
     (if sw_sealed (fst wd) then (wd, Err SWSealed)
      else
        case sw_last_ts (fst wd) of
          None \<Rightarrow> (wd, Err SWInvalidInput)
        | Some (ts, delta) \<Rightarrow>
            let (ts, delta) = bump_ms ts delta in
            sw_then (write_with_nonce c (sealing_input ts delta) wd) (\<lambda>id (sw, d).
              ((sw\<lparr>sw_sealed := True\<rparr>, d), Ok id)))"

section \<open>Reading an existing log\<close>

definition signed_read_header ::
  "('p, 's) crypto \<Rightarrow> node_dir \<Rightarrow> u16 \<Rightarrow> (signed_header \<times> bytes, signed_writer_error) result" where
  "signed_read_header c d idx =
     (case regular_file d idx of
        None \<Rightarrow> Err SWIo
      | Some content \<Rightarrow>
          let b = take HEADER_LEN content; h = from_bytes_unchecked b;
              stored = u32_at b 124; computed = crc32 c (take 124 b)
          in if length b < HEADER_LEN then Err (SWRecovery (SRecHeaderCorrupt idx (TooShort (length b))))
             else if take 4 b \<noteq> FORMAT_MAGIC
             then Err (SWRecovery (SRecHeaderCorrupt idx (BadMagic (take 4 b))))
             else if sh_version h \<noteq> FORMAT_VERSION_SIGNED then Err (SWFormatMismatch (sh_version h))
             else if stored \<noteq> computed
             then Err (SWRecovery (SRecHeaderCorrupt idx (CrcMismatch computed stored)))
             else if sh_reserved h \<noteq> 0 \<or> sh_segment_index h \<noteq> idx then Err (SWRecovery (SRecChainBreak idx 0 0))
             else Ok (h, b))"

definition check_header_key ::
  "('p, 's) crypto \<Rightarrow> signed_header \<Rightarrow> public_key \<Rightarrow> u16 \<Rightarrow> (unit, signed_writer_error) result" where
  "check_header_key c h pk idx =
     (if sh_key_id h \<noteq> fingerprint_of c pk \<or> sh_public_key h \<noteq> pk_bytes pk \<or> sh_sig_alg h \<noteq> alg_code (pk_alg pk)
      then Err (SWRecovery (SRecKeyIdMismatch idx (hex (sh_key_id h)) (hex (fingerprint_of c pk))))
      else Ok ())"

record signed_scan =
  ssc_records :: u64
  ssc_end :: nat
  ssc_truncated :: nat
  ssc_last_hash :: bytes
  ssc_last :: "(raw_record \<times> envelope) option"

text \<open>The loop of \<^verbatim>\<open>scan_segment\<close> over the frames; a torn tail ends it.\<close>

function signed_scan_loop ::
  "('p, 's) crypto \<Rightarrow> u16 \<Rightarrow> bytes \<Rightarrow> signed_scan \<Rightarrow> (signed_scan, signed_writer_error) result" where
  "signed_scan_loop c idx content s =
     (case read_frame content (ssc_end s) of
        FrameEnd \<Rightarrow> Ok s
      | FrameTorn o' \<Rightarrow> Ok (s\<lparr>ssc_truncated := length content - ssc_end s\<rparr>)
      | FrameTooLarge o' n \<Rightarrow> Ok (s\<lparr>ssc_truncated := length content - ssc_end s\<rparr>)
      | FrameRecord raw \<Rightarrow>
          (case envelope_decode (raw_envelope raw) of
             Panic \<Rightarrow> Panic
           | Err _ \<Rightarrow> Err (SWRecovery (SRecSignatureInvalid idx (ssc_records s) (raw_offset raw)))
           | Ok env \<Rightarrow>
               if en_prev_hash env \<noteq> ssc_last_hash s \<or> en_record_id env \<noteq> ssc_records s \<or> en_segment_index env \<noteq> idx
               then Err (SWRecovery (SRecChainBreak idx (ssc_records s) (raw_offset raw)))
               else signed_scan_loop c idx content
                 \<lparr>ssc_records = ssc_records s + 1, ssc_end = ssc_end s + raw_total_len raw,
                  ssc_truncated = ssc_truncated s, ssc_last_hash = record_hash c (raw_envelope raw),
                  ssc_last = Some (raw, env)\<rparr>))"
  by pat_completeness auto
termination
  by (relation "measure (\<lambda>(c, idx, content, s). length content - ssc_end s)") (auto dest: read_frame_progress)

declare signed_scan_loop.simps [simp del]

text \<open>The check of the last complete record.\<close>

definition check_last_record ::
  "('p, 's) crypto \<Rightarrow> u16 \<Rightarrow> public_key \<Rightarrow> signed_scan \<Rightarrow> (unit, signed_writer_error) result" where
  "check_last_record c idx pk s =
     (case ssc_last s of
        None \<Rightarrow> Ok ()
      | Some (raw, env) \<Rightarrow>
          if ed25519_verify c (pk_bytes pk) (signed_data c NS_RECORD (raw_envelope raw)) (raw_signature raw) \<noteq> Ok ()
             \<or> (case raw_body raw of None \<Rightarrow> False | Some b \<Rightarrow> body_hash c b \<noteq> en_body_hash env)
          then Err (SWRecovery (SRecSignatureInvalid idx (en_record_id env) (raw_offset raw)))
          else Ok ())"

definition scan_last_event :: "signed_scan \<Rightarrow> bytes option" where
  "scan_last_event s = map_option (\<lambda>(raw, env). en_event env) (ssc_last s)"

definition scan_last_ts :: "signed_scan \<Rightarrow> (bytes \<times> u64) option" where
  "scan_last_ts s = map_option (\<lambda>(raw, env). (en_ts_wall env, en_ts_mono_delta env)) (ssc_last s)"

text \<open>With \<open>repair\<close>, a torn tail is cut off, before the last record is checked.\<close>

definition scan_segment ::
  "('p, 's) crypto \<Rightarrow> u16 \<Rightarrow> signed_header \<Rightarrow> public_key \<Rightarrow> bool \<Rightarrow> node_dir
    \<Rightarrow> node_dir \<times> (signed_scan, signed_writer_error) result" where
  "scan_segment c idx h0 pk repair d =
     (case signed_read_header c d idx of
        Err e \<Rightarrow> (d, Err e)
      | Panic \<Rightarrow> (d, Panic)
      | Ok (h, hb) \<Rightarrow>
          (case check_header_key c h pk idx of
             Err e \<Rightarrow> (d, Err e)
           | Panic \<Rightarrow> (d, Panic)
           | Ok _ \<Rightarrow>
               if sh_log_id h \<noteq> sh_log_id h0 then (d, Err (SWRecovery (SRecLogIdMismatch idx)))
               else
                 case regular_file d idx of
                   None \<Rightarrow> (d, Err SWIo)
                 | Some content \<Rightarrow>
                     (case signed_scan_loop c idx content
                         \<lparr>ssc_records = 0, ssc_end = HEADER_LEN, ssc_truncated = 0,
                          ssc_last_hash = chain_start c hb, ssc_last = None\<rparr> of
                        Err e \<Rightarrow> (d, Err e)
                      | Panic \<Rightarrow> (d, Panic)
                      | Ok s \<Rightarrow>
                          (if repair \<and> 0 < ssc_truncated s then node_put idx (take (ssc_end s) content) d else d,
                           bind_res (check_last_record c idx pk s) (\<lambda>_. Ok s)))))"

section \<open>Opening\<close>

definition fresh_report :: "bytes \<Rightarrow> recovery_report" where
  "fresh_report last_hash =
     \<lparr>rep_action = Fresh, rep_current_segment_index = 0, rep_last_record_id = None,
      rep_records_in_current_segment = 0, rep_truncated_bytes = 0, rep_segments_scanned = 0,
      rep_last_hmac = last_hash\<rparr>"

definition open_fresh ::
  "('p, 's) crypto \<Rightarrow> signer \<Rightarrow> bytes \<Rightarrow> writer_config \<Rightarrow> bytes \<Rightarrow> bytes stream \<Rightarrow> node_dir
    \<Rightarrow> node_dir \<times> (signed_writer, signed_writer_error) result" where
  "open_fresh c sg session_id cfg fresh_log_id nonces d =
     (case signed_create_segment c 0 fresh_log_id (sg_public_key sg) (replicate 32 0) d of
        (d, Ok current) \<Rightarrow>
          (d, Ok \<lparr>sw_signer = sg, sw_session_id = session_id, sw_config = cfg, sw_log_id = fresh_log_id,
            sw_current = current, sw_last_ts = None, sw_sealed = False,
            sw_recovery = fresh_report (sgm_last_hash current), sw_nonces = nonces\<rparr>)
      | (d, Err e) \<Rightarrow> (d, Err e)
      | (d, Panic) \<Rightarrow> (d, Panic))"

text \<open>The segment to go on with after the scan of the latest one.\<close>

definition resume_segment ::
  "('p, 's) crypto \<Rightarrow> public_key \<Rightarrow> bytes \<Rightarrow> u16 \<Rightarrow> signed_scan \<Rightarrow> node_dir
    \<Rightarrow> node_dir \<times> (signed_seg \<times> recovery_action, signed_writer_error) result" where
  "resume_segment c pk log_id latest s d =
     (if scan_last_event s = Some EVENT_FINALIZED then
        (if unat latest = 2 ^ 16 - 1 then (d, Err SWInvalidInput)
         else
           (case signed_create_segment c (latest + 1) log_id pk (ssc_last_hash s) d of
              (d, Ok seg) \<Rightarrow> (d, Ok (seg, OpenedNextAfterFinalized))
            | (d, Err e) \<Rightarrow> (d, Err e)
            | (d, Panic) \<Rightarrow> (d, Panic)))
      else
        (d, Ok (\<lparr>sgm_index = latest, sgm_bytes_written = ssc_end s, sgm_last_hash = ssc_last_hash s,
               sgm_next_record_id = ssc_records s\<rparr>,
             if 0 < ssc_truncated s then Repaired else Resumed)))"

text \<open>The time anchor: that of the last record, or of the segment before when the last has none.\<close>

definition resume_time ::
  "('p, 's) crypto \<Rightarrow> signed_header \<Rightarrow> public_key \<Rightarrow> u16 \<Rightarrow> signed_scan \<Rightarrow> node_dir
    \<Rightarrow> ((bytes \<times> u64) option, signed_writer_error) result" where
  "resume_time c h0 pk latest s d =
     (if ssc_records s = 0 \<and> 0 < latest then
        bind_res (snd (scan_segment c (latest - 1) h0 pk False d)) (\<lambda>prev.
          if scan_last_event prev = Some EVENT_SEALED then Err SWSealed else Ok (scan_last_ts prev))
      else Ok (scan_last_ts s))"

definition open_existing ::
  "('p, 's) crypto \<Rightarrow> signer \<Rightarrow> bytes \<Rightarrow> writer_config \<Rightarrow> bytes stream \<Rightarrow> u16 list \<Rightarrow> node_dir
    \<Rightarrow> node_dir \<times> (signed_writer, signed_writer_error) result" where
  "open_existing c sg session_id cfg nonces segments d =
     (let pk = sg_public_key sg; first = hd segments; latest = last segments in
      case bind_res (signed_read_header c d first) (\<lambda>(h0, _).
             bind_res (check_header_key c h0 pk first) (\<lambda>_. Ok h0)) of
        Err e \<Rightarrow> (d, Err e)
      | Panic \<Rightarrow> (d, Panic)
      | Ok h0 \<Rightarrow>
          (case scan_segment c latest h0 pk True d of
             (d, Err e) \<Rightarrow> (d, Err e)
           | (d, Panic) \<Rightarrow> (d, Panic)
           | (d, Ok s) \<Rightarrow>
               (case resume_time c h0 pk latest s d of
                  Err e \<Rightarrow> (d, Err e)
                | Panic \<Rightarrow> (d, Panic)
                | Ok last_ts \<Rightarrow>
                    if scan_last_event s = Some EVENT_SEALED then (d, Err SWSealed)
                    else
                      (case resume_segment c pk (sh_log_id h0) latest s d of
                         (d, Err e) \<Rightarrow> (d, Err e)
                       | (d, Panic) \<Rightarrow> (d, Panic)
                       | (d, Ok (current, action)) \<Rightarrow>
                           (d, Ok \<lparr>sw_signer = sg, sw_session_id = session_id, sw_config = cfg,
                             sw_log_id = sh_log_id h0, sw_current = current, sw_last_ts = last_ts,
                             sw_sealed = False,
                             sw_recovery = \<lparr>rep_action = action,
                               rep_current_segment_index = sgm_index current,
                               rep_last_record_id = (if ssc_records s = 0 then None else Some (ssc_records s - 1)),
                               rep_records_in_current_segment = sgm_next_record_id current,
                               rep_truncated_bytes = ssc_truncated s, rep_segments_scanned = 1,
                               rep_last_hmac = sgm_last_hash current\<rparr>,
                             sw_nonces = nonces\<rparr>)))))"

definition open_inner ::
  "('p, 's) crypto \<Rightarrow> signer \<Rightarrow> bytes \<Rightarrow> writer_config \<Rightarrow> bytes \<Rightarrow> bytes stream \<Rightarrow> node_dir
    \<Rightarrow> node_dir \<times> (signed_writer, signed_writer_error) result" where
  "open_inner c sg session_id cfg fresh_log_id nonces d =
     (let segments = fst (list_segments d) in
      if segments = [] then open_fresh c sg session_id cfg fresh_log_id nonces d
      else
        case log_format d of
          None \<Rightarrow> (d, Panic)
        | Some v \<Rightarrow>
            if v \<noteq> FORMAT_VERSION_SIGNED then (d, Err (SWFormatMismatch v))
            else open_existing c sg session_id cfg nonces segments d)"

definition create_with_log_id ::
  "('p, 's) crypto \<Rightarrow> signer \<Rightarrow> bytes \<Rightarrow> writer_config \<Rightarrow> bytes \<Rightarrow> bytes stream \<Rightarrow> node_dir
    \<Rightarrow> node_dir \<times> (signed_writer, signed_writer_error) result" where
  "create_with_log_id c sg session_id cfg log_id nonces d =
     (if log_format d \<noteq> None then (d, Err SWInvalidInput)
      else open_inner c sg session_id cfg log_id nonces d)"

end
