(* ===== verification/Signed_Log.thy ===== *)
theory Signed_Log
  imports Signed_Writer Signed_Verify_Complete Signed_Codec
begin

text \<open>
  The abstract signed log: a list of segments, each a list of records (envelope, signature, body). The
  files it stands for, when it is a chain under a key, and that such files follow the rules of the
  verifier.
\<close>

type_synonym srec = "envelope \<times> bytes \<times> bytes"

definition srec_frame :: "srec \<Rightarrow> bytes" where
  "srec_frame = (\<lambda>(env, sig, bdy). frame (envelope_encode env) sig (Some bdy))"

definition srec_hash :: "('p, 's) crypto \<Rightarrow> srec \<Rightarrow> bytes" where
  "srec_hash c r = record_hash c (envelope_encode (fst r))"

text \<open>The hash after some records that follow the hash \<open>prev\<close>.\<close>

definition hash_after :: "('p, 's) crypto \<Rightarrow> bytes \<Rightarrow> srec list \<Rightarrow> bytes" where
  "hash_after c prev recs = (if recs = [] then prev else srec_hash c (last recs))"

definition srec_ok ::
  "('p, 's) crypto \<Rightarrow> public_key \<Rightarrow> nat \<Rightarrow> nat \<Rightarrow> bytes \<Rightarrow> srec \<Rightarrow> bool" where
  "srec_ok c pk n p prev r \<longleftrightarrow>
     (case r of (env, sig, bdy) \<Rightarrow>
        env_wf env \<and> length (envelope_encode env) \<le> MAX_ENVELOPE_LEN \<and> length sig = SIG_LEN \<and>
        bdy \<noteq> [] \<and> length bdy < 2 ^ 32 \<and>
        ed25519_verify c (pk_bytes pk) (signed_data c NS_RECORD (envelope_encode env)) sig = Ok () \<and>
        en_key_id env = fingerprint_of c pk \<and> en_sig_alg env = alg_code (pk_alg pk) \<and>
        in_chain (of_nat n) p prev env \<and> en_body_hash env = body_hash c bdy \<and>
        (\<exists>b. body_decode bdy = Ok b \<and> (en_event env = EVENT_FINALIZED \<longrightarrow> rollover_ok b p env)))"

text \<open>Records from position \<open>p\<close> of segment \<open>n\<close> on.\<close>

fun srecs_ok :: "('p, 's) crypto \<Rightarrow> public_key \<Rightarrow> nat \<Rightarrow> nat \<Rightarrow> bytes \<Rightarrow> srec list \<Rightarrow> bool" where
  "srecs_ok c pk n p prev [] \<longleftrightarrow> True"
| "srecs_ok c pk n p prev (r # rs) \<longleftrightarrow> srec_ok c pk n p prev r \<and>
     (en_event (fst r) = EVENT_FINALIZED \<longrightarrow> rs = []) \<and> srecs_ok c pk n (Suc p) (srec_hash c r) rs"

definition closed_by :: "srec list \<Rightarrow> bytes \<Rightarrow> bool" where
  "closed_by recs event \<longleftrightarrow> recs \<noteq> [] \<and> en_event (fst (last recs)) = event"

lemma srecs_ok_snoc:
  "srecs_ok c pk n p prev (rs @ [r]) \<longleftrightarrow> srecs_ok c pk n p prev rs \<and> \<not> closed_by rs EVENT_FINALIZED \<and>
     srec_ok c pk n (p + length rs) (hash_after c prev rs) r"
proof (induction rs arbitrary: p prev)
  case (Cons x rs)
  then show ?case by (cases rs) (auto simp: closed_by_def hash_after_def)
qed (simp add: closed_by_def hash_after_def)

lemma srecs_ok_take: "srecs_ok c pk n p prev rs \<Longrightarrow> srecs_ok c pk n p prev (take j rs)"
proof (induction rs arbitrary: j p prev)
  case (Cons r rs)
  then show ?case by (cases j) auto
qed simp

lemma srec_ok_frame:
  assumes "srec_ok c pk n p prev (env, sig, bdy)"
  shows "sframe_valid (envelope_encode env, sig, Some bdy)"
    and "srec_frame (env, sig, bdy) = sframe (envelope_encode env, sig, Some bdy)"
    and "envelope_decode (envelope_encode env) = Ok env"
  using assms by (simp_all add: srec_ok_def sframe_valid_def srec_frame_def sframe_def
      envelope_round_trip_bytes MAX_ENVELOPE_LEN_def)

section \<open>The frames of a segment\<close>

definition raw_of :: "nat \<Rightarrow> srec \<Rightarrow> raw_record" where
  "raw_of off r = (case r of (env, sig, bdy) \<Rightarrow>
     \<lparr>raw_offset = off, raw_envelope = envelope_encode env, raw_signature = sig, raw_body = Some bdy,
      raw_total_len = length (srec_frame r)\<rparr>)"

fun raws_of :: "nat \<Rightarrow> srec list \<Rightarrow> (raw_record \<times> envelope) list" where
  "raws_of off [] = []"
| "raws_of off (r # rs) = (raw_of off r, fst r) # raws_of (off + length (srec_frame r)) rs"

lemma raws_of_map: "map snd (raws_of off rs) = map fst rs" "length (raws_of off rs) = length rs" "raws_of off rs = [] \<longleftrightarrow> rs = []"
  by (induction off rs rule: raws_of.induct) auto

lemma raws_of_events: "set (map (\<lambda>r. en_event (snd r)) (raws_of off rs)) = set (map (\<lambda>r. en_event (fst r)) rs)"
  by (induction off rs rule: raws_of.induct) auto

lemma raws_of_append: "raws_of off (xs @ ys) = raws_of off xs @ raws_of (off + length (concat (map srec_frame xs))) ys"
  by (induction off xs rule: raws_of.induct) (auto simp: add.assoc)

lemma raw_of_total: "srec_ok c pk n p prev r \<Longrightarrow> raw_total_len (raw_of off r) = length (srec_frame r)"
  by (simp add: raw_of_def case_prod_unfold)

lemma srec_frame_read:
  assumes "srec_ok c pk n p prev r" "off \<le> length content" "drop off content = srec_frame r @ rest"
  shows "read_frame content off = FrameRecord (raw_of off r)"
proof -
  obtain env sig bdy where r: "r = (env, sig, bdy)" by (cases r)
  show ?thesis
    using read_frame_sframe [OF srec_ok_frame(1) assms(2), of c pk n p prev env sig bdy rest] assms(1,3)
      srec_ok_frame(2) [of c pk n p prev env sig bdy]
    by (simp add: r raw_of_def)
qed

text \<open>The header a segment of the log has.\<close>

abbreviation key_header :: "('p, 's) crypto \<Rightarrow> public_key \<Rightarrow> bytes \<Rightarrow> nat \<Rightarrow> bytes \<Rightarrow> signed_header" where
  "key_header c pk lid n prev \<equiv> signed_header_new c (of_nat n) lid pk prev"

lemma srec_record_ok:
  assumes "srec_ok c pk n p prev r"
  shows "record_ok c (key_header c pk lid m q) (of_nat n) p prev (raw_of off r) (fst r)"
proof -
  obtain env sig bdy where r: "r = (env, sig, bdy)" by (cases r)
  note d = srec_ok_frame(3) [OF assms [unfolded r]]
  obtain b where "body_decode bdy = Ok b" "en_event env = EVENT_FINALIZED \<longrightarrow> rollover_ok b p env"
    using assms by (auto simp: srec_ok_def r)
  then show ?thesis
    using assms d
    by (auto simp: record_ok_def srec_ok_def r raw_of_def signed_header_new_def body_checked_def structure_ok_def)
qed

lemma srecs_chain:
  assumes "srecs_ok c pk n p prev recs" "off \<le> length content" "drop off content = concat (map srec_frame recs)"
  shows "chain_of c (key_header c pk lid m q) (of_nat n) content off p prev (raws_of off recs) (hash_after c prev recs)"
  using assms
proof (induction recs arbitrary: p prev off)
  case Nil
  then have "read_frame content off = FrameEnd" by (simp add: read_frame_def)
  then show ?case by (simp add: hash_after_def chain_of.chain_end)
next
  case (Cons r rs)
  have ok: "srec_ok c pk n p prev r" "srecs_ok c pk n (Suc p) (srec_hash c r) rs" using Cons.prems(1) by simp_all
  have d: "drop off content = srec_frame r @ concat (map srec_frame rs)" using Cons.prems(3) by simp
  have o: "off + length (srec_frame r) \<le> length content"
    using arg_cong [OF d, of length] Cons.prems(2) by simp
  have d': "drop (off + length (srec_frame r)) content = concat (map srec_frame rs)"
    using d by (metis append_eq_conv_conj drop_drop add.commute)
  have "record_hash c (raw_envelope (raw_of off r)) = srec_hash c r"
    by (simp add: raw_of_def srec_hash_def case_prod_unfold)
  moreover have "hash_after c (srec_hash c r) rs = hash_after c prev (r # rs)" by (simp add: hash_after_def)
  ultimately show ?case
    using Cons.IH [OF ok(2) o d'] srec_frame_read [OF ok(1) Cons.prems(2) d] srec_record_ok [OF ok(1)] Cons.prems(1)
      raws_of_map(3)
    by (auto simp: raw_of_total [OF ok(1)] intro!: chain_of.chain_step)
qed

section \<open>The files of a log\<close>

definition header_bytes_of :: "('p, 's) crypto \<Rightarrow> public_key \<Rightarrow> bytes \<Rightarrow> nat \<Rightarrow> bytes \<Rightarrow> bytes" where
  "header_bytes_of c pk lid n prev = signed_header_to_bytes c (key_header c pk lid n prev)"

definition sseg_start :: "('p, 's) crypto \<Rightarrow> public_key \<Rightarrow> bytes \<Rightarrow> nat \<Rightarrow> bytes \<Rightarrow> bytes" where
  "sseg_start c pk lid n prev = chain_start c (header_bytes_of c pk lid n prev)"

text \<open>The hash before segment \<open>n\<close>, and its file.\<close>

fun prev_of :: "('p, 's) crypto \<Rightarrow> public_key \<Rightarrow> bytes \<Rightarrow> srec list list \<Rightarrow> nat \<Rightarrow> bytes" where
  "prev_of c pk lid segs 0 = replicate 32 0"
| "prev_of c pk lid segs (Suc n) = hash_after c (sseg_start c pk lid n (prev_of c pk lid segs n)) (segs ! n)"

definition start_of :: "('p, 's) crypto \<Rightarrow> public_key \<Rightarrow> bytes \<Rightarrow> srec list list \<Rightarrow> nat \<Rightarrow> bytes" where
  "start_of c pk lid segs n = sseg_start c pk lid n (prev_of c pk lid segs n)"

definition signed_file :: "('p, 's) crypto \<Rightarrow> public_key \<Rightarrow> bytes \<Rightarrow> srec list list \<Rightarrow> nat \<Rightarrow> bytes" where
  "signed_file c pk lid segs n =
     header_bytes_of c pk lid n (prev_of c pk lid segs n) @ concat (map srec_frame (segs ! n))"

definition signed_files :: "('p, 's) crypto \<Rightarrow> public_key \<Rightarrow> bytes \<Rightarrow> srec list list \<Rightarrow> node_dir \<Rightarrow> bool" where
  "signed_files c pk lid segs d \<longleftrightarrow> distinct (map fst d) \<and> length segs \<le> 10000 \<and>
     fst (list_segments d) = map of_nat [0..<length segs] \<and>
     (\<forall>n < length segs. regular_file d (of_nat n) = Some (signed_file c pk lid segs n))"

definition key_good :: "('p, 's) crypto \<Rightarrow> public_key \<Rightarrow> bytes \<Rightarrow> bool" where
  "key_good c pk lid \<longleftrightarrow> is_strong c pk \<and> length (pk_bytes pk) = 32 \<and> length lid = 16 \<and> (\<forall>x. length (sha256 c x) = 32)"

definition signed_log_ok :: "('p, 's) crypto \<Rightarrow> public_key \<Rightarrow> bytes \<Rightarrow> srec list list \<Rightarrow> bool" where
  "signed_log_ok c pk lid segs \<longleftrightarrow>
     (\<forall>n < length segs. srecs_ok c pk n 0 (start_of c pk lid segs n) (segs ! n)) \<and>
     (\<forall>n. Suc n < length segs \<longrightarrow> segs ! n \<noteq> [])"

text \<open>Nothing but the last record seals the log, and a sealed segment is the last one.\<close>

definition seals_last :: "srec list list \<Rightarrow> bool" where
  "seals_last segs \<longleftrightarrow> (\<forall>n < length segs. \<forall>r \<in> set (butlast (segs ! n)). en_event (fst r) \<noteq> EVENT_SEALED) \<and>
     (\<forall>n. Suc n < length segs \<longrightarrow> \<not> closed_by (segs ! n) EVENT_SEALED)"

lemma length_hashes:
  assumes "key_good c pk lid"
  shows "length (fingerprint_of c pk) = 32" "length (srec_hash c r) = 32" "length (body_hash c b) = 32"
    "length (sseg_start c pk lid n prev) = 32" "length (prev_of c pk lid segs n) = 32"
    "length prev = 32 \<Longrightarrow> length (hash_after c prev recs) = 32"
proof -
  show h: "length (fingerprint_of c pk) = 32" "length (srec_hash c r) = 32" "length (body_hash c b) = 32"
    "length (sseg_start c pk lid n prev) = 32" for n prev r
    using assms by (simp_all add: key_good_def fingerprint_of_def srec_hash_def record_hash_def body_hash_def th_def
        sseg_start_def chain_start_def)
  show a: "length prev = 32 \<Longrightarrow> length (hash_after c prev recs) = 32" for prev recs
    by (simp add: hash_after_def h)
  show "length (prev_of c pk lid segs n) = 32" by (induction n) (simp_all add: a h)
qed

lemma key_header_wf: "key_good c pk lid \<Longrightarrow> length prev = 32 \<Longrightarrow> signed_header_wf (key_header c pk lid n prev)"
  using length_hashes(1) by (simp add: signed_header_wf_def signed_header_new_def key_good_def)

lemma length_header_bytes: "key_good c pk lid \<Longrightarrow> length prev = 32 \<Longrightarrow> length (header_bytes_of c pk lid n prev) = HEADER_LEN"
  using key_header_wf [of c pk lid prev n] by (simp add: header_bytes_of_def HEADER_LEN_def)

lemma signed_file_parts:
  assumes "key_good c pk lid"
  shows "take HEADER_LEN (signed_file c pk lid segs n) = header_bytes_of c pk lid n (prev_of c pk lid segs n)"
    "drop HEADER_LEN (signed_file c pk lid segs n) = concat (map srec_frame (segs ! n))"
    "HEADER_LEN \<le> length (signed_file c pk lid segs n)"
  using length_header_bytes [OF assms length_hashes(5) [OF assms], of n segs n]
  by (simp_all add: signed_file_def)

text \<open>What the readers find in a file that starts with the header of segment \<open>n\<close>.\<close>

lemma header_read:
  assumes "key_good c pk lid" "length prev = 32" "n < 65536" "take HEADER_LEN content = header_bytes_of c pk lid n prev"
    "HEADER_LEN \<le> length content"
  shows "from_bytes_unchecked (take HEADER_LEN content) = key_header c pk lid n prev" "take 4 content = FORMAT_MAGIC"
    "u32_at content 124 = crc32 c (take HEADER_HASHED_LEN content)" "chain_start c content = sseg_start c pk lid n prev"
proof -
  note r = signed_header_read [OF key_header_wf [OF assms(1,2)], where c = c, folded header_bytes_of_def]
  show "from_bytes_unchecked (take HEADER_LEN content) = key_header c pk lid n prev" using r assms(4) by simp
  have t: "take k (take HEADER_LEN content) = take k content" if "k \<le> 128" for k
    using that by (simp add: HEADER_LEN_def min_absorb1)
  show "take 4 content = FORMAT_MAGIC" using t [of 4] r(2) assms(4) by simp
  have "u32_at content 124 = u32_at (take HEADER_LEN content) 124" by (simp add: u32_at_take HEADER_LEN_def)
  then show "u32_at content 124 = crc32 c (take HEADER_HASHED_LEN content)"
    using r(3,4) t [of 124] assms(4) by (simp add: HEADER_HASHED_LEN_def)
  show "chain_start c content = sseg_start c pk lid n prev"
    using t [of 124] assms(4) by (simp add: chain_start_def sseg_start_def HEADER_HASHED_LEN_def)
qed

lemma file_header_ok:
  assumes "key_good c pk lid" "n < length segs" "length segs \<le> 10000"
  shows "header_ok c (key_header c pk lid 0 (replicate 32 0)) (of_nat n) (prev_of c pk lid segs n)
    (signed_file c pk lid segs n) (key_header c pk lid n (prev_of c pk lid segs n))"
proof -
  note p = signed_file_parts [OF assms(1), of segs n]
  have "n < 65536" using assms(2,3) by simp
  note r = header_read [OF assms(1) length_hashes(5) [OF assms(1)] this p(1,3)]
  have "alg_from_code (alg_code (pk_alg pk)) \<noteq> None" by (cases "pk_alg pk") (simp add: alg_from_code_def)
  moreover have "ed25519_key (pk_bytes pk) = pk" by (cases pk; cases "pk_alg pk") (simp add: ed25519_key_def)
  ultimately show ?thesis using r p(3) assms(1)
    by (simp add: header_ok_def signed_header_new_def key_good_def)
qed

lemma of_nat_u16:
  "n < 65536 \<Longrightarrow> unat (of_nat n :: u16) = n" "n < 65535 \<Longrightarrow> saturating_succ (of_nat n) = of_nat (Suc n)"
proof -
  show u: "n < 65536 \<Longrightarrow> unat (of_nat n :: u16) = n" for n by (simp add: unat_of_nat)
  assume "n < 65535"
  then have "unat (of_nat n :: u16) \<noteq> 65535" using u [of n] by simp
  then show "saturating_succ (of_nat n) = of_nat (Suc n)" unfolding saturating_succ_def by simp
qed

definition log_recs :: "srec list list \<Rightarrow> nat \<Rightarrow> (raw_record \<times> envelope) list list" where
  "log_recs segs n = map (raws_of HEADER_LEN) (drop n segs)"

lemma files_segments:
  assumes key: "key_good c pk lid" and files: "signed_files c pk lid segs d" and ok: "signed_log_ok c pk lid segs"
    and acc: "\<And>n recs. n < length segs \<Longrightarrow>
      all_accepted c ev (key_header c pk lid 0 (replicate 32 0)) (of_nat n) 0 (raws_of HEADER_LEN (segs ! n))"
  shows "n \<le> length segs \<Longrightarrow>
    segments_of c ev d (key_header c pk lid 0 (replicate 32 0)) (of_nat n) (prev_of c pk lid segs n)
      (map of_nat [n..<length segs]) (log_recs segs n)"
proof (induction "length segs - n" arbitrary: n)
  case 0
  then show ?case by (simp add: log_recs_def segments_of.no_segment)
next
  case (Suc k)
  then have n: "n < length segs" by simp
  have len: "length segs \<le> 10000" "regular_file d (of_nat n) = Some (signed_file c pk lid segs n)"
    using files n by (simp_all add: signed_files_def)
  note p = signed_file_parts [OF key, of segs n]
  have small: "n < 65536" "n < 65535" using n len(1) by simp_all
  have recs: "srecs_ok c pk n 0 (start_of c pk lid segs n) (segs ! n)" using ok n by (simp add: signed_log_ok_def)
  have chain: "chain_of c (key_header c pk lid n (prev_of c pk lid segs n)) (of_nat n) (signed_file c pk lid segs n)
      HEADER_LEN 0 (chain_start c (signed_file c pk lid segs n)) (raws_of HEADER_LEN (segs ! n)) (prev_of c pk lid segs (Suc n))"
    using srecs_chain [OF recs p(3,2), where lid = lid and m = n and q = "prev_of c pk lid segs n"] header_read(4) [OF key length_hashes(5) [OF key] small(1) p(1,3)]
    by (simp add: start_of_def)
  have "segs ! n = [] \<longrightarrow> [Suc n..<length segs] = []" using ok n by (auto simp: signed_log_ok_def)
  moreover have "segments_of c ev d (key_header c pk lid 0 (replicate 32 0)) (saturating_succ (of_nat n))
      (prev_of c pk lid segs (Suc n)) (map of_nat [Suc n..<length segs]) (log_recs segs (Suc n))"
    using Suc.hyps(1) [of "Suc n"] Suc.hyps(2) n of_nat_u16(2) [OF small(2)] by simp
  moreover have "log_recs segs n = raws_of HEADER_LEN (segs ! n) # log_recs segs (Suc n)"
    using n by (simp add: log_recs_def Cons_nth_drop_Suc [symmetric])
  ultimately show ?case
    using len(2) file_header_ok [OF key n len(1)] chain acc [OF n] raws_of_map(3) n
    by (simp add: upt_conv_Cons segments_of.next_segment)
qed

end
