(* ===== verification/Signed_Writer_Refines.thy ===== *)
theory Signed_Writer_Refines
  imports Signed_Log Statement_Codec Finalize
begin

text \<open>
  The signed writer refines the abstract log: \<open>sw_base\<close> relates the writer and its directory to a log,
  a written record is the abstract append of one record, and \<^verbatim>\<open>append\<close>, \<^verbatim>\<open>seal\<close> and \<^verbatim>\<open>rollover\<close> are
  built from that step and the opening of a new segment.
\<close>

section \<open>The invariant\<close>

definition log_last :: "srec list list \<Rightarrow> (bytes \<times> u64) option" where
  "log_last segs = (if concat segs = [] then None
     else Some (en_ts_wall (fst (last (concat segs))), en_ts_mono_delta (fst (last (concat segs)))))"

definition seg_at :: "('p, 's) crypto \<Rightarrow> public_key \<Rightarrow> bytes \<Rightarrow> srec list list \<Rightarrow> signed_seg" where
  "seg_at c pk lid segs =
     \<lparr>sgm_index = of_nat (length segs - 1),
      sgm_bytes_written = length (signed_file c pk lid segs (length segs - 1)),
      sgm_last_hash = prev_of c pk lid segs (length segs),
      sgm_next_record_id = of_nat (length (last segs))\<rparr>"

abbreviation writer_key :: "signed_writer \<Rightarrow> public_key" where
  "writer_key sw \<equiv> sg_public_key (sw_signer sw)"

text \<open>Every segment but the last ends in the record that closes it; no record but the last seals.\<close>

definition rolled :: "srec list list \<Rightarrow> bool" where
  "rolled segs \<longleftrightarrow> segs \<noteq> [] \<and> (\<forall>recs \<in> set (butlast segs). closed_by recs EVENT_FINALIZED) \<and>
     (\<forall>r \<in> set (butlast (concat segs)). en_event (fst r) \<noteq> EVENT_SEALED)"

definition sw_base :: "('p, 's) crypto \<Rightarrow> srec list list \<Rightarrow> signed_writer \<times> node_dir \<Rightarrow> bool" where
  "sw_base c segs wd \<longleftrightarrow>
     (let (sw, d) = wd; pk = writer_key sw; lid = sw_log_id sw in
      key_good c pk lid \<and> signer_ok (sw_signer sw) \<and> length (sw_session_id sw) = 16 \<and>
      (\<forall>x \<in> sset (sw_nonces sw). length x = 32) \<and>
      signed_files c pk lid segs d \<and> (\<forall>n < length segs. srecs_ok c pk n 0 (start_of c pk lid segs n) (segs ! n)) \<and>
      rolled segs \<and> sw_current sw = seg_at c pk lid segs \<and> sw_last_ts sw = log_last segs)"

text \<open>Between two operations the last segment is open, and the log is sealed only if the writer knows.\<close>

definition sw_at :: "('p, 's) crypto \<Rightarrow> srec list list \<Rightarrow> signed_writer \<times> node_dir \<Rightarrow> bool" where
  "sw_at c segs wd \<longleftrightarrow> sw_base c segs wd \<and> \<not> closed_by (last segs) EVENT_FINALIZED \<and>
     (closed_by (last segs) EVENT_SEALED \<longrightarrow> sw_sealed (fst wd))"

lemma events_differ: "EVENT_FINALIZED \<noteq> EVENT_SEALED"
  by (simp add: EVENT_FINALIZED_def EVENT_SEALED_def)

section \<open>Directories\<close>

lemma map_fst_update: "map fst (AList.update k v d) = (if k \<in> fst ` set d then map fst d else map fst d @ [k])"
  by (induction d) auto

lemma listing_keys: "fst (list_segments d) = sort (List.map_filter (\<lambda>name. if valid_utf8 name then segment_index name else None) (map fst d))"
  by (simp add: list_segments_def List.map_filter_def filter_map comp_def case_prod_unfold)

lemma in_listing: "(of_nat n :: u16) \<in> set (fst (list_segments d)) \<longleftrightarrow> segment_path (of_nat n) \<in> fst ` set d" if "n < 10000"
proof -
  have u: "unat (of_nat n :: u16) = n" using that by (simp add: unat_of_nat)
  show ?thesis
  proof
    assume "(of_nat n :: u16) \<in> set (fst (list_segments d))"
    then obtain name where "name \<in> fst ` set d" "segment_index name = Some (of_nat n)"
      unfolding listing_keys List.map_filter_def by (fastforce split: if_splits)
    then show "segment_path (of_nat n) \<in> fst ` set d" by (simp add: segment_index_iff)
  next
    assume "segment_path (of_nat n) \<in> fst ` set d"
    then show "(of_nat n :: u16) \<in> set (fst (list_segments d))"
      using u that by (force simp: listing_keys List.map_filter_def signed_listing split: if_splits)
  qed
qed

lemma regular_put: "regular_file (node_put i content d) j = (if j = i then Some content else regular_file d j)"
proof -
  have "segment_path j = segment_path i \<longleftrightarrow> j = i" using segment_path_inject by blast
  then show ?thesis by (auto simp: node_put_def update_conv')
qed

lemma listing_put_old:
  assumes "regular_file d i \<noteq> None"
  shows "fst (list_segments (node_put i content d)) = fst (list_segments d)"
proof -
  have "map_of d (segment_path i) \<noteq> None" using assms by (cases "map_of d (segment_path i)") simp_all
  then have "segment_path i \<in> fst ` set d" by (simp only: map_of_eq_None_iff not_not)
  then show ?thesis by (simp add: listing_keys node_put_def map_fst_update)
qed

lemma listing_put_new:
  assumes "fst (list_segments d) = map of_nat [0..<n]" "n < 10000"
  shows "map_of d (segment_path (of_nat n)) = None"
    "fst (list_segments (node_put (of_nat n) content d)) = map of_nat [0..<Suc n]"
proof -
  have u: "unat (of_nat m :: u16) = m" if "m < 65536" for m using that by (simp add: unat_of_nat)
  have "(of_nat n :: u16) \<notin> set (fst (list_segments d))"
  proof
    assume "(of_nat n :: u16) \<in> set (fst (list_segments d))"
    then obtain m where "m < n" "(of_nat n :: u16) = of_nat m" using assms(1) by auto
    then show False using u [of n] u [of m] assms(2) by simp
  qed
  then have k: "segment_path (of_nat n) \<notin> fst ` set d" using in_listing [OF assms(2)] by blast
  then show "map_of d (segment_path (of_nat n)) = None" by (simp add: map_of_eq_None_iff)
  have "fst (list_segments (node_put (of_nat n) content d)) = sort (List.map_filter
      (\<lambda>name. if valid_utf8 name then segment_index name else None) (map fst d) @ [of_nat n])"
    using k u [of n] assms(2)
    by (simp add: listing_keys node_put_def map_fst_update List.map_filter_def signed_listing)
  also have "\<dots> = insort (of_nat n) (fst (list_segments d))"
    unfolding listing_keys by (simp add: sort_conv_fold)
  also have "\<dots> = fst (list_segments d) @ [of_nat n]"
  proof (rule sorted_insort_is_snoc)
    show "sorted (fst (list_segments d))" by (simp add: list_segments_def)
    show "\<forall>x \<in> set (fst (list_segments d)). x \<le> of_nat n"
      using assms u by (auto simp: word_le_nat_alt)
  qed
  finally show "fst (list_segments (node_put (of_nat n) content d)) = map of_nat [0..<Suc n]" using assms(1) by simp
qed

section \<open>The steps of the abstract log\<close>

definition add_rec :: "srec list list \<Rightarrow> srec \<Rightarrow> srec list list" where
  "add_rec segs r = butlast segs @ [last segs @ [r]]"

lemma prev_of_cong:
  "(\<And>m. m < n \<Longrightarrow> segs ! m = segs' ! m) \<Longrightarrow> prev_of c pk lid segs n = prev_of c pk lid segs' n"
  by (induction n) simp_all

lemma file_cong:
  assumes "\<And>m. m \<le> n \<Longrightarrow> segs ! m = segs' ! m"
  shows "signed_file c pk lid segs n = signed_file c pk lid segs' n" "start_of c pk lid segs n = start_of c pk lid segs' n"
  using assms prev_of_cong [of n segs segs' c pk lid] by (simp_all add: signed_file_def start_of_def)

lemma add_rec_nth:
  assumes "segs \<noteq> []"
  shows "length (add_rec segs r) = length segs" "last (add_rec segs r) = last segs @ [r]"
    "Suc m < length segs \<Longrightarrow> add_rec segs r ! m = segs ! m"
    "add_rec segs r ! (length segs - 1) = last segs @ [r]" "concat (add_rec segs r) = concat segs @ [r]"
proof -
  obtain xs x where s: "segs = xs @ [x]" using assms by (cases segs rule: rev_cases) auto
  show "length (add_rec segs r) = length segs" "last (add_rec segs r) = last segs @ [r]"
    "Suc m < length segs \<Longrightarrow> add_rec segs r ! m = segs ! m"
    "add_rec segs r ! (length segs - 1) = last segs @ [r]" "concat (add_rec segs r) = concat segs @ [r]"
    by (simp_all add: s add_rec_def nth_append)
qed

lemma add_rec_file:
  assumes "segs \<noteq> []"
  shows "Suc n < length segs \<Longrightarrow> signed_file c pk lid (add_rec segs r) n = signed_file c pk lid segs n"
    "Suc n < length segs \<Longrightarrow> start_of c pk lid (add_rec segs r) n = start_of c pk lid segs n"
    "signed_file c pk lid (add_rec segs r) (length segs - 1) = signed_file c pk lid segs (length segs - 1) @ srec_frame r"
    "start_of c pk lid (add_rec segs r) (length segs - 1) = start_of c pk lid segs (length segs - 1)"
    "prev_of c pk lid (add_rec segs r) (length segs) = srec_hash c r"
proof -
  note a = add_rec_nth [OF assms]
  have p: "prev_of c pk lid (add_rec segs r) (length segs - 1) = prev_of c pk lid segs (length segs - 1)"
    by (rule prev_of_cong) (use a(3) in auto)
  show "Suc n < length segs \<Longrightarrow> signed_file c pk lid (add_rec segs r) n = signed_file c pk lid segs n"
    "Suc n < length segs \<Longrightarrow> start_of c pk lid (add_rec segs r) n = start_of c pk lid segs n"
    by (rule file_cong; use a(3) in auto)+
  have l: "segs ! (length segs - 1) = last segs" using assms by (simp add: last_conv_nth)
  show "signed_file c pk lid (add_rec segs r) (length segs - 1) = signed_file c pk lid segs (length segs - 1) @ srec_frame r"
    using p a(4) l by (simp add: signed_file_def)
  show "start_of c pk lid (add_rec segs r) (length segs - 1) = start_of c pk lid segs (length segs - 1)"
    using p by (simp add: start_of_def)
  obtain k where k: "length segs = Suc k" using assms by (cases segs) auto
  show "prev_of c pk lid (add_rec segs r) (length segs) = srec_hash c r"
    using a(4) by (simp add: k hash_after_def)
qed

lemma prev_of_length:
  assumes "segs \<noteq> []"
  shows "prev_of c pk lid segs (length segs) = hash_after c (start_of c pk lid segs (length segs - 1)) (last segs)"
proof -
  obtain k where "length segs = Suc k" using assms by (cases segs) auto
  moreover have "segs ! (length segs - 1) = last segs" using assms by (simp add: last_conv_nth)
  ultimately show ?thesis by (simp add: start_of_def)
qed

lemma rolled_unsealed:
  assumes "rolled segs" "\<not> closed_by (last segs) EVENT_SEALED" "r \<in> set (concat segs)"
  shows "en_event (fst r) \<noteq> EVENT_SEALED"
proof -
  obtain xs x where s: "segs = xs @ [x]" using assms(1) by (cases segs rule: rev_cases) (auto simp: rolled_def butlast_append)
  show ?thesis
  proof (cases "concat segs" rule: rev_cases)
    case (snoc ys y)
    then have "r \<in> set ys \<or> r = y" using assms(3) by auto
    moreover have "en_event (fst r) \<noteq> EVENT_SEALED" if "r \<in> set ys" using that assms(1) snoc by (simp add: rolled_def)
    moreover have "en_event (fst y) \<noteq> EVENT_SEALED"
    proof (cases "x = []")
      case False
      then have "y = last x" using snoc by (simp add: s) (metis last_append last_snoc)
      then show ?thesis using assms(2) False by (simp add: s closed_by_def)
    next
      case True
      then have "concat xs = ys @ [y]" using snoc s by simp
      then obtain zs z where z: "xs = zs @ [z]" by (cases xs rule: rev_cases) auto
      then have "closed_by z EVENT_FINALIZED" using assms(1) by (simp add: rolled_def s butlast_append)
      moreover from this have "y = last z" using \<open>concat xs = ys @ [y]\<close> z by (simp add: closed_by_def) (metis last_append last_snoc)
      ultimately show ?thesis using events_differ by (simp add: closed_by_def)
    qed
    ultimately show ?thesis by blast
  next
    case Nil
    then show ?thesis using assms(3) by (simp only: list.set empty_iff)
  qed
qed

lemma rolled_add:
  assumes "rolled segs" "\<not> closed_by (last segs) EVENT_SEALED"
  shows "rolled (add_rec segs r)"
proof -
  have ne: "segs \<noteq> []" using assms(1) by (simp add: rolled_def)
  have "butlast (add_rec segs r) = butlast segs" by (simp add: add_rec_def)
  then show ?thesis
    using assms(1) rolled_unsealed [OF assms] add_rec_nth(5) [OF ne] by (simp add: rolled_def) (simp add: add_rec_def)
qed

lemma of_nat_u16_inject: "n < 65536 \<Longrightarrow> m < 65536 \<Longrightarrow> (of_nat n :: u16) = of_nat m \<longleftrightarrow> n = m"
  using of_nat_u16(1) by metis

lemma signed_files_add:
  assumes "signed_files c pk lid segs d" "segs \<noteq> []"
  shows "signed_files c pk lid (add_rec segs r)
    (node_put (of_nat (length segs - 1)) (signed_file c pk lid (add_rec segs r) (length segs - 1)) d)"
proof -
  let ?L = "length segs - 1"
  have f: "distinct (map fst d)" "length segs \<le> 10000" "fst (list_segments d) = map of_nat [0..<length segs]"
    "n < length segs \<Longrightarrow> regular_file d (of_nat n) = Some (signed_file c pk lid segs n)" for n
    using assms(1) by (simp_all add: signed_files_def)
  have L: "?L < length segs" using assms(2) by simp
  have "regular_file d (of_nat ?L) \<noteq> None" using f(4) [OF L] by simp
  moreover have "(of_nat n :: u16) = of_nat ?L \<longleftrightarrow> n = ?L" if "n < length segs" for n
    using that L f(2) by (intro of_nat_u16_inject) simp_all
  moreover have "regular_file (node_put (of_nat ?L) (signed_file c pk lid (add_rec segs r) ?L) d) (of_nat n) =
      Some (signed_file c pk lid (add_rec segs r) n)" if "n < length segs" for n
  proof (cases "n = ?L")
    case False
    then have "Suc n < length segs" using that by simp
    then show ?thesis using f(4) [OF that] calculation(2) [OF that] False add_rec_file(1) [OF assms(2), of n c pk lid r] by (simp add: regular_put)
  qed (simp add: regular_put)
  moreover have "distinct (map fst (node_put i content d))" for i content using f(1) by (simp add: node_put_def distinct_update)
  ultimately show ?thesis
    using f(2,3) add_rec_nth(1) [OF assms(2)] listing_put_old unfolding signed_files_def by simp
qed

section \<open>Writing a record\<close>

lemma envelope_longer: "length (en_ts_wall e) \<le> length (envelope_encode e)"
proof -
  have "length (en_ts_wall e) \<le> length (tstr (en_ts_wall e))" by (simp add: tstr_def)
  moreover have "length (tstr (en_ts_wall e)) \<le> length (enc (env_value e))"
    by (simp add: env_value_def tstr_def emit_map_def)
  ultimately show ?thesis by (simp add: envelope_encode_eq)
qed

lemma frames_longer: "length recs \<le> length (concat (map srec_frame recs))"
proof (induction recs)
  case (Cons r recs)
  have "1 \<le> length (srec_frame r)" by (simp add: srec_frame_def frame_def case_prod_unfold Let_def)
  then have "1 + length recs \<le> length (srec_frame r) + length (concat (map srec_frame recs))"
    using Cons.IH by (rule add_mono)
  then show ?case by simp
qed simp

lemma last_records_few:
  assumes "sw_base c segs (sw, d)" "sgm_bytes_written (sw_current sw) < 2 ^ 63"
  shows "length (last segs) < 2 ^ 63" "unat (of_nat (length (last segs)) :: u64) = length (last segs)"
proof -
  have ne: "segs \<noteq> []" using assms(1) by (simp add: sw_base_def Let_def rolled_def)
  have "sgm_bytes_written (sw_current sw) = length (signed_file c (writer_key sw) (sw_log_id sw) segs (length segs - 1))"
    using assms(1) by (simp add: sw_base_def Let_def seg_at_def)
  moreover have "segs ! (length segs - 1) = last segs" using ne by (simp add: last_conv_nth)
  ultimately show l: "length (last segs) < 2 ^ 63"
    using assms(2) frames_longer [of "last segs"] by (simp add: signed_file_def)
  then show "unat (of_nat (length (last segs)) :: u64) = length (last segs)" by (simp add: unat_of_nat)
qed

lemma sw_base_parts:
  assumes "sw_base c segs (sw, d)"
  shows "key_good c (writer_key sw) (sw_log_id sw)" "signer_ok (sw_signer sw)" "length (sw_session_id sw) = 16"
    "\<forall>x \<in> sset (sw_nonces sw). length x = 32" "signed_files c (writer_key sw) (sw_log_id sw) segs d"
    "n < length segs \<Longrightarrow> srecs_ok c (writer_key sw) n 0 (start_of c (writer_key sw) (sw_log_id sw) segs n) (segs ! n)"
    "rolled segs" "sw_current sw = seg_at c (writer_key sw) (sw_log_id sw) segs" "sw_last_ts sw = log_last segs" "segs \<noteq> []"
  using assms by (simp_all add: sw_base_def Let_def rolled_def)

lemma sw_base_add:
  assumes "sw_base c segs (sw, d)" "\<not> closed_by (last segs) EVENT_FINALIZED" "\<not> closed_by (last segs) EVENT_SEALED"
    and "srec_ok c (writer_key sw) (length segs - 1) (length (last segs))
      (prev_of c (writer_key sw) (sw_log_id sw) segs (length segs)) r"
    and "sw_signer sw' = sw_signer sw" "sw_log_id sw' = sw_log_id sw" "sw_session_id sw' = sw_session_id sw"
      "sw_nonces sw' = sw_nonces sw" "sw_last_ts sw' = Some (en_ts_wall (fst r), en_ts_mono_delta (fst r))"
      "sw_current sw' = \<lparr>sgm_index = of_nat (length segs - 1),
         sgm_bytes_written = length (signed_file c (writer_key sw) (sw_log_id sw) segs (length segs - 1)) + length (srec_frame r),
         sgm_last_hash = srec_hash c r, sgm_next_record_id = of_nat (length (last segs)) + 1\<rparr>"
    and "d' = node_put (of_nat (length segs - 1))
      (signed_file c (writer_key sw) (sw_log_id sw) segs (length segs - 1) @ srec_frame r) d"
  shows "sw_base c (add_rec segs r) (sw', d')"
proof -
  let ?pk = "writer_key sw" and ?lid = "sw_log_id sw" and ?L = "length segs - 1"
  note b = sw_base_parts [OF assms(1)] and a = add_rec_nth [OF sw_base_parts(10) [OF assms(1)]]
    and f = add_rec_file(1-2) [OF sw_base_parts(10) [OF assms(1)], of _ c ?pk ?lid r]
      add_rec_file(3-5) [OF sw_base_parts(10) [OF assms(1)], of c ?pk ?lid r]
  have L: "segs ! ?L = last segs" "?L < length segs" using b(10) by (simp_all add: last_conv_nth)
  have "srecs_ok c ?pk n 0 (start_of c ?pk ?lid (add_rec segs r) n) (add_rec segs r ! n)" if "n < length segs" for n
  proof (cases "n = ?L")
    case True
    have "srecs_ok c ?pk ?L 0 (start_of c ?pk ?lid segs ?L) (last segs @ [r])"
      unfolding srecs_ok_snoc using b(6) [OF L(2)] L assms(2,4) prev_of_length [OF b(10), of c ?pk ?lid] by simp
    then show ?thesis using True f(4) a(4) by simp
  next
    case False
    then have "Suc n < length segs" using that by simp
    then show ?thesis using b(6) [OF that] f(2) a(3) by simp
  qed
  moreover have "signed_files c ?pk ?lid (add_rec segs r) d'"
    unfolding assms(11) using signed_files_add [OF b(5,10), of r] f(3) by simp
  moreover have "seg_at c ?pk ?lid (add_rec segs r) = sw_current sw'"
    using a f(3,5) assms(10) by (simp add: seg_at_def add.commute)
  moreover have "log_last (add_rec segs r) = sw_last_ts sw'" using a(5) assms(9) by (simp add: log_last_def)
  ultimately show ?thesis
    unfolding sw_base_def Let_def prod.case assms(5-8)
    using b(1-4) rolled_add [OF b(7) assms(3)] a(1) by simp
qed

text \<open>The record as it is written: its envelope, for its body.\<close>

abbreviation next_envelope :: "('p, 's) crypto \<Rightarrow> signed_writer \<Rightarrow> record_input \<Rightarrow> bytes \<Rightarrow> envelope" where
  "next_envelope c sw input bdy \<equiv>
     make_envelope c sw input (sgm_next_record_id (sw_current sw)) (body_hash c bdy)"

lemma next_envelope_ok:
  assumes base: "sw_base c segs (sw, d)" "sgm_bytes_written (sw_current sw) < 2 ^ 63"
    and "valid_utf8 (in_ts_wall input)" "event_ok (in_event input)"
    and "bdy \<noteq> []" "length bdy < 2 ^ 32" "body_decode bdy = Ok b"
    and "in_event input = EVENT_FINALIZED \<Longrightarrow> rollover_ok b (length (last segs)) (next_envelope c sw input bdy)"
    and "length (envelope_encode (next_envelope c sw input bdy)) \<le> MAX_ENVELOPE_LEN"
    and "sign_checked c (sw_signer sw) NS_RECORD (envelope_encode (next_envelope c sw input bdy)) = Ok sig"
  shows "srec_ok c (writer_key sw) (length segs - 1) (length (last segs))
    (prev_of c (writer_key sw) (sw_log_id sw) segs (length segs)) (next_envelope c sw input bdy, sig, bdy)"
proof -
  let ?e = "next_envelope c sw input bdy"
  note b = sw_base_parts [OF base(1)] and few = last_records_few [OF base]
  note h = length_hashes [OF b(1)]
  have cur: "sgm_index (sw_current sw) = of_nat (length segs - 1)" "sgm_next_record_id (sw_current sw) = of_nat (length (last segs))"
    "sgm_last_hash (sw_current sw) = prev_of c (writer_key sw) (sw_log_id sw) segs (length segs)"
    using b(8) by (simp_all add: seg_at_def)
  have "length (in_ts_wall input) \<le> 4096"
    using envelope_longer [of ?e] assms(9) by (simp add: make_envelope_def Let_def MAX_ENVELOPE_LEN_def)
  then have "env_wf ?e"
    using b(3) h assms(3,4) cur(3) by (simp add: env_wf_def make_envelope_def Let_def small_def)
  moreover have "length sig = SIG_LEN"
    "ed25519_verify c (pk_bytes (writer_key sw)) (signed_data c NS_RECORD (envelope_encode ?e)) sig = Ok ()"
    using assms(10) b(2) by (auto simp: sign_checked_def result_elims signer_ok_def SIG_LEN_def)
  moreover have "in_chain (of_nat (length segs - 1)) (length (last segs))
      (prev_of c (writer_key sw) (sw_log_id sw) segs (length segs)) ?e"
    using cur few(2) by (simp add: in_chain_def make_envelope_def Let_def)
  moreover have "en_key_id ?e = fingerprint_of c (writer_key sw)" "en_sig_alg ?e = alg_code (pk_alg (writer_key sw))"
    "en_body_hash ?e = body_hash c bdy" "en_event ?e = in_event input"
    by (simp_all add: make_envelope_def Let_def)
  ultimately show ?thesis using assms(5-9) by (simp add: srec_ok_def)
qed

lemma write_record_step:
  assumes base: "sw_base c segs (sw, d)" "sgm_bytes_written (sw_current sw) < 2 ^ 63"
    and opened: "\<not> closed_by (last segs) EVENT_FINALIZED" "\<not> closed_by (last segs) EVENT_SEALED"
    and input: "valid_utf8 (in_ts_wall input)" "event_ok (in_event input)"
      "bdy \<noteq> []" "length bdy < 2 ^ 32" "body_decode bdy = Ok b"
      "in_event input = EVENT_FINALIZED \<Longrightarrow> rollover_ok b (length (last segs)) (next_envelope c sw input bdy)"
    and run: "signed_write_record c input bdy (sw, d) = (wd', res)"
  shows "(wd' = (sw, d) \<and> (\<forall>id. res \<noteq> Ok id)) \<or>
    (\<exists>sig. res = Ok (of_nat (length (last segs))) \<and>
      sw_base c (add_rec segs (next_envelope c sw input bdy, sig, bdy)) wd' \<and> sw_sealed (fst wd') = sw_sealed sw)"
proof -
  let ?e = "next_envelope c sw input bdy" and ?L = "length segs - 1"
  note b = sw_base_parts [OF base(1)]
  have cur: "sgm_next_record_id (sw_current sw) = of_nat (length (last segs))" "sgm_index (sw_current sw) = of_nat ?L"
    "sgm_bytes_written (sw_current sw) = length (signed_file c (writer_key sw) (sw_log_id sw) segs ?L)"
    using b(8) by (simp_all add: seg_at_def)
  have L: "?L < length segs" using b(10) by simp
  have content: "regular_file d (of_nat ?L) = Some (signed_file c (writer_key sw) (sw_log_id sw) segs ?L)"
    using b(5) L by (simp only: signed_files_def)
  show ?thesis
  proof (cases "MAX_ENVELOPE_LEN < length (envelope_encode ?e) \<or>
      (\<forall>sig. sign_checked c (sw_signer sw) NS_RECORD (envelope_encode ?e) \<noteq> Ok sig)")
    case True
    then have "wd' = (sw, d) \<and> (\<forall>id. res \<noteq> Ok id)"
      using run by (auto simp: signed_write_record_def Let_def split: if_splits result.splits)
    then show ?thesis ..
  next
    case False
    then obtain sig where sig: "sign_checked c (sw_signer sw) NS_RECORD (envelope_encode ?e) = Ok sig"
      and len: "length (envelope_encode ?e) \<le> MAX_ENVELOPE_LEN" by auto
    let ?r = "(?e, sig, bdy)"
    have fr: "srec_frame ?r = frame (envelope_encode ?e) sig (Some bdy)" by (simp add: srec_frame_def)
    obtain sw' d' where wd: "wd' = (sw', d')" by (cases wd')
    have run': "res = Ok (of_nat (length (last segs)))"
      "sw' = sw\<lparr>sw_current := (sw_current sw)\<lparr>sgm_bytes_written := sgm_bytes_written (sw_current sw) + length (srec_frame ?r),
          sgm_last_hash := srec_hash c ?r, sgm_next_record_id := sgm_next_record_id (sw_current sw) + 1\<rparr>,
        sw_last_ts := Some (in_ts_wall input, in_ts_mono_delta input)\<rparr>"
      "d' = node_write (of_nat ?L) (sgm_bytes_written (sw_current sw)) (srec_frame ?r) d"
      using run sig len cur(1,2) unfolding wd fr
      by (auto simp: signed_write_record_def Let_def srec_hash_def)
    have "d' = node_put (of_nat ?L) (signed_file c (writer_key sw) (sw_log_id sw) segs ?L @ srec_frame ?r) d"
      unfolding run'(3) node_write_def content by (simp add: cur(3) write_at_def)
    then have "sw_base c (add_rec segs ?r) (sw', d')"
      using run'(2) cur next_envelope_ok [OF base input len sig]
      by (intro sw_base_add [OF base(1) opened]) (simp_all add: make_envelope_def Let_def)
    moreover have "sw_sealed sw' = sw_sealed sw" using run'(2) by simp
    ultimately show ?thesis using run'(1) wd by auto
  qed
qed

section \<open>Inputs\<close>

text \<open>What the types of a \<^verbatim>\<open>RecordInput\<close> ensure, with a payload that nests no deeper than the decoder's
  limit of 16 (which the writer does not enforce: it writes deeper payloads, which no decoder reads)
  and a body that the length field can hold.\<close>

definition sinput_ok :: "record_input \<Rightarrow> bool" where
  "sinput_ok input \<longleftrightarrow> valid_utf8 (in_ts_wall input) \<and>
     (\<forall>nonce. length nonce = 32 \<longrightarrow> body_wf (in_actor input) (in_payload input) nonce \<and>
        (\<forall>b. encode_body (in_actor input) (in_payload input) nonce = Some b \<longrightarrow> length b < 2 ^ 32))"

text \<open>The record says what the input says.\<close>

definition records_input :: "record_input \<Rightarrow> srec \<Rightarrow> bool" where
  "records_input input r \<longleftrightarrow>
     (case r of (env, sig, bdy) \<Rightarrow>
        en_ts_wall env = in_ts_wall input \<and> en_ts_mono_delta env = in_ts_mono_delta input \<and>
        en_event env = in_event input \<and> en_schema_version env = in_schema_version input \<and>
        (\<exists>nonce. body_decode bdy = Ok \<lparr>bd_actor = in_actor input,
           bd_payload = to_value (PMap (in_payload input)), bd_nonce = nonce\<rparr>))"

lemma sw_base_nonces:
  "sw_base c segs (sw, d) \<Longrightarrow> \<forall>x \<in> sset ns. length x = 32 \<Longrightarrow> sw_base c segs (sw\<lparr>sw_nonces := ns\<rparr>, d)"
  by (simp add: sw_base_def Let_def)

lemma write_with_nonce_step:
  assumes base: "sw_base c segs (sw, d)" "sgm_bytes_written (sw_current sw) < 2 ^ 63"
    and opened: "\<not> closed_by (last segs) EVENT_FINALIZED" "\<not> closed_by (last segs) EVENT_SEALED"
    and input: "sinput_ok input" "event_ok (in_event input)"
      "\<And>b bh. in_event input = EVENT_FINALIZED \<Longrightarrow> bd_payload b = to_value (PMap (in_payload input)) \<Longrightarrow>
        rollover_ok b (length (last segs)) (make_envelope c sw input (of_nat (length (last segs))) bh)"
    and run: "write_with_nonce c input (sw, d) = (wd', res)"
  shows "sw_sealed (fst wd') = sw_sealed sw \<and>
    ((sw_base c segs wd' \<and> (\<forall>id. res \<noteq> Ok id)) \<or>
     (\<exists>r. res = Ok (of_nat (length (last segs))) \<and> records_input input r \<and> sw_base c (add_rec segs r) wd'))"
proof -
  let ?nonce = "shd (sw_nonces sw)" and ?sw = "sw\<lparr>sw_nonces := stl (sw_nonces sw)\<rparr>"
  note b = sw_base_parts [OF base(1)]
  have n: "length ?nonce = 32" "\<forall>x \<in> sset (stl (sw_nonces sw)). length x = 32"
    using b(4) shd_sset [of "sw_nonces sw"] stl_sset [of _ "sw_nonces sw"] by blast+
  have base': "sw_base c segs (?sw, d)" "sgm_bytes_written (sw_current ?sw) < 2 ^ 63"
    using sw_base_nonces [OF base(1) n(2)] base(2) by simp_all
  have wf: "body_wf (in_actor input) (in_payload input) ?nonce" using input(1) n(1) by (simp add: sinput_ok_def)
  obtain bdy where bdy: "encode_body (in_actor input) (in_payload input) ?nonce = Some bdy"
    using encode_body_eq [OF wf] by blast
  have len: "length bdy < 2 ^ 32" using input(1) n(1) bdy by (auto simp: sinput_ok_def)
  then have dec: "body_decode bdy = Ok \<lparr>bd_actor = in_actor input, bd_payload = to_value (PMap (in_payload input)),
      bd_nonce = ?nonce\<rparr>"
    by (intro body_round_trip_bytes [OF wf bdy]) simp
  have ne: "bdy \<noteq> []" using encode_body_eq [OF wf] bdy enc_nonempty by auto
  have cur: "sgm_next_record_id (sw_current sw) = of_nat (length (last segs))" using b(8) by (simp add: seg_at_def)
  have env: "make_envelope c ?sw = make_envelope c sw" by (intro ext) (simp add: make_envelope_def)
  have run': "signed_write_record c input bdy (?sw, d) = (wd', res)"
    using run bdy by (simp add: write_with_nonce_def next_nonce_def)
  have "valid_utf8 (in_ts_wall input)" using input(1) by (simp add: sinput_ok_def)
  from write_record_step [OF base' opened this input(2) ne len dec _ run']
  have "(wd' = (?sw, d) \<and> (\<forall>id. res \<noteq> Ok id)) \<or>
    (\<exists>sig. res = Ok (of_nat (length (last segs))) \<and>
      sw_base c (add_rec segs (next_envelope c ?sw input bdy, sig, bdy)) wd' \<and> sw_sealed (fst wd') = sw_sealed ?sw)"
    using input(3) by (simp add: env cur)
  then show ?thesis
  proof
    assume "wd' = (?sw, d) \<and> (\<forall>id. res \<noteq> Ok id)"
    then show ?thesis using base'(1) by simp
  next
    assume "\<exists>sig. res = Ok (of_nat (length (last segs))) \<and>
      sw_base c (add_rec segs (next_envelope c ?sw input bdy, sig, bdy)) wd' \<and> sw_sealed (fst wd') = sw_sealed ?sw"
    then obtain sig where s: "res = Ok (of_nat (length (last segs)))"
      "sw_base c (add_rec segs (next_envelope c ?sw input bdy, sig, bdy)) wd'" "sw_sealed (fst wd') = sw_sealed ?sw" by blast
    have "records_input input (next_envelope c ?sw input bdy, sig, bdy)"
      using dec by (simp add: records_input_def make_envelope_def Let_def)
    then show ?thesis using s by auto
  qed
qed

section \<open>The records the writer makes\<close>

lemma fmt_int_ascii: "b \<in> set (fmt_int w n) \<Longrightarrow> b < 128"
proof -
  have "b < 128" if "b \<in> set (pad_dec w' m)" for w' m
    using set_pad_dec [OF that] by (auto simp: word_less_nat_alt unat_digit_char)
  then show "b \<in> set (fmt_int w n) \<Longrightarrow> b < 128" by (auto simp: fmt_int_def split: if_splits)
qed

lemma rfc3339_utf8: "valid_utf8 (rfc3339_from_millis ms)"
  by (rule valid_utf8_ascii) (auto simp: rfc3339_from_millis_def Let_def case_prod_unfold dest: fmt_int_ascii)

lemma system_body_length:
  assumes "encode_payload_map payload = Some p" "length p \<le> 100" "length nonce = 32"
    and "encode_body (ascii ''system:audit'') payload nonce = Some b"
  shows "length b < 2 ^ 32"
proof -
  let ?a = "tstr (ascii ''system:audit'')"
  have sort: "canonical_sort [([6], x), ([8], y), ([14], z)] = [([6], x), ([8], y), ([14], z)]" for x y z
    unfolding canonical_sort_def by (rule sort_key_id) simp
  have "b = emit_map [([6], ?a), ([8], p), ([14], bstr nonce)]"
    using assms(1,4) by (simp add: encode_body_def map_int_keys_def small_uint sort)
  then have b: "length b = length (head 5 3) + (length ?a + length p + length (bstr nonce) + 3)" by (simp add: emit_map_length)
  have "length ?a \<le> 21" using length_tstr_le [of "ascii ''system:audit''"] by (simp add: ascii_def)
  moreover have "length (bstr nonce) \<le> 41" using length_bstr_le [of nonce] assms(3) by simp
  ultimately show ?thesis using b assms(2) length_head_le [of 5 3] by simp
qed

lemma finalize_sinput_ok:
  assumes "length hash = 32" "valid_utf8 ts"
  shows "sinput_ok (finalize_input ts delta n hash)" "event_ok (in_event (finalize_input ts delta n hash))"
proof -
  have wf: "body_wf (ascii ''system:audit'') [(ascii ''final_hash'', PBytes hash), (ascii ''records'', PUint n)] nonce"
    if "length nonce = 32" for nonce
    using finalize_payload_wf [OF assms(1), of n] that unfolding body_wf_def by (simp add: small_def ascii_def del: pv_wf.simps)
  obtain q where q: "encode_payload_map [(ascii ''final_hash'', PBytes hash), (ascii ''records'', PUint n)] = Some q"
    using finalize_payload_wf [OF assms(1), of n] pv_encode_enc unfolding encode_payload_map_eq by blast
  show "sinput_ok (finalize_input ts delta n hash)"
    using wf system_body_length [OF q finalize_payload_length [OF assms(1) q]] assms(2)
    unfolding sinput_ok_def by (simp add: finalize_input_def)
  show "event_ok (in_event (finalize_input ts delta n hash))"
    by (simp add: finalize_input_def event_ok_def EVENT_FINALIZED_def ascii_def)
qed

lemma sealing_sinput_ok:
  assumes "valid_utf8 ts"
  shows "sinput_ok (sealing_input ts delta)" "event_ok (in_event (sealing_input ts delta))"
proof -
  have wf: "body_wf (ascii ''system:audit'') [] nonce" if "length nonce = 32" for nonce
    using that by (simp add: body_wf_def small_def ascii_def MAX_CBOR_DEPTH_def)
  have q: "encode_payload_map [] = Some (head 5 0)"
    by (simp add: encode_payload_map_def map_text_keys_def emit_map_def canonical_sort_def)
  have "length (head 5 0) \<le> 100" using length_head_le [of 5 0] by simp
  then show "sinput_ok (sealing_input ts delta)"
    using wf system_body_length [OF q] assms unfolding sinput_ok_def by (simp add: sealing_input_def)
  show "event_ok (in_event (sealing_input ts delta))"
    by (simp add: sealing_input_def event_ok_def EVENT_SEALED_def ascii_def)
qed

lemma finalize_rollover_ok:
  assumes "bd_payload b = to_value (PMap (in_payload (finalize_input ts delta n (en_prev_hash env))))" "unat n = p"
  shows "rollover_ok b p env"
proof -
  have "length (enc (VText (ascii ''records''))) < length (enc (VText (ascii ''final_hash'')))"
    by (simp add: tstr_def length_head head_width_def ascii_def)
  then have "bd_payload b = VMap [(VText (ascii ''records''), VUint n), (VText (ascii ''final_hash''), VBytes (en_prev_hash env))]"
    using assms(1) by (simp add: finalize_input_def less_le_not_le del: enc.simps)
  then show ?thesis using assms(2) by (simp add: rollover_ok_def payload_get_def ascii_def)
qed

section \<open>Opening a new segment\<close>

lemma new_segment_file:
  assumes "segs \<noteq> []"
  shows "n < length segs \<Longrightarrow> signed_file c pk lid (segs @ [[]]) n = signed_file c pk lid segs n"
    "n < length segs \<Longrightarrow> start_of c pk lid (segs @ [[]]) n = start_of c pk lid segs n"
    "prev_of c pk lid (segs @ [[]]) (length segs) = prev_of c pk lid segs (length segs)"
    "signed_file c pk lid (segs @ [[]]) (length segs) = header_bytes_of c pk lid (length segs) (prev_of c pk lid segs (length segs))"
proof -
  have nth: "m < length segs \<Longrightarrow> (segs @ [[]]) ! m = segs ! m" for m by (simp add: nth_append)
  show "n < length segs \<Longrightarrow> signed_file c pk lid (segs @ [[]]) n = signed_file c pk lid segs n"
    "n < length segs \<Longrightarrow> start_of c pk lid (segs @ [[]]) n = start_of c pk lid segs n"
    by (rule file_cong; use nth in simp)+
  show p: "prev_of c pk lid (segs @ [[]]) (length segs) = prev_of c pk lid segs (length segs)"
    by (rule prev_of_cong) (use nth in simp)
  then show "signed_file c pk lid (segs @ [[]]) (length segs) = header_bytes_of c pk lid (length segs) (prev_of c pk lid segs (length segs))"
    by (simp add: signed_file_def)
qed

lemma signed_files_new:
  assumes "signed_files c pk lid segs d" "segs \<noteq> []" "length segs < 10000"
  shows "signed_files c pk lid (segs @ [[]])
    (node_put (of_nat (length segs)) (header_bytes_of c pk lid (length segs) (prev_of c pk lid segs (length segs))) d)"
    "map_of d (segment_path (of_nat (length segs))) = None"
proof -
  have f: "distinct (map fst d)" "fst (list_segments d) = map of_nat [0..<length segs]"
    "n < length segs \<Longrightarrow> regular_file d (of_nat n) = Some (signed_file c pk lid segs n)" for n
    using assms(1) by (simp_all add: signed_files_def)
  note l = listing_put_new [OF f(2) assms(3)]
  show "map_of d (segment_path (of_nat (length segs))) = None" by (rule l(1))
  note nf = new_segment_file(1) [OF assms(2), of _ c pk lid] new_segment_file(4) [OF assms(2), of c pk lid]
  let ?d = "node_put (of_nat (length segs)) (header_bytes_of c pk lid (length segs) (prev_of c pk lid segs (length segs))) d"
  have "regular_file ?d (of_nat n) = Some (signed_file c pk lid (segs @ [[]]) n)" if "n < Suc (length segs)" for n
  proof (cases "n = length segs")
    case False
    then have n: "n < length segs" using that by simp
    then have "(of_nat n :: u16) \<noteq> of_nat (length segs)" using of_nat_u16_inject [of n "length segs"] assms(3) by simp
    then show ?thesis using f(3) [OF n] nf(1) [OF n] by (simp add: regular_put)
  qed (simp add: regular_put nf)
  moreover have "distinct (map fst ?d)" using f(1) by (simp add: node_put_def distinct_update)
  ultimately show "signed_files c pk lid (segs @ [[]]) ?d"
    using l(2) assms(3) unfolding signed_files_def by simp
qed

lemma sw_base_new_segment:
  assumes base: "sw_base c segs (sw, d)" and "closed_by (last segs) EVENT_FINALIZED" "length segs < 10000"
  shows "\<exists>seg d'. signed_create_segment c (of_nat (length segs)) (sw_log_id sw) (writer_key sw)
      (prev_of c (writer_key sw) (sw_log_id sw) segs (length segs)) d = (d', Ok seg) \<and>
    sw_base c (segs @ [[]]) (sw\<lparr>sw_current := seg\<rparr>, d') \<and> sgm_bytes_written seg = HEADER_LEN"
proof -
  let ?pk = "writer_key sw" and ?lid = "sw_log_id sw"
  let ?prev = "prev_of c ?pk ?lid segs (length segs)"
  note b = sw_base_parts [OF base] and l = length_hashes [OF sw_base_parts(1) [OF base]]
  note f = signed_files_new [OF b(5,10) assms(3)]
    and n = new_segment_file(1-2) [OF b(10), of _ c ?pk ?lid] new_segment_file(3-4) [OF b(10), of c ?pk ?lid]
  let ?h = "header_bytes_of c ?pk ?lid (length segs) ?prev"
  let ?seg = "\<lparr>sgm_index = of_nat (length segs), sgm_bytes_written = HEADER_LEN, sgm_last_hash = chain_start c ?h,
      sgm_next_record_id = 0\<rparr>"
  have "signed_create_segment c (of_nat (length segs)) ?lid ?pk ?prev d = (node_put (of_nat (length segs)) ?h d, Ok ?seg)"
    using f(2) by (simp add: signed_create_segment_def Let_def header_bytes_of_def)
  moreover have "seg_at c ?pk ?lid (segs @ [[]]) = ?seg"
    using n(3,4) length_header_bytes [OF b(1) l(5)] by (simp add: seg_at_def hash_after_def sseg_start_def)
  moreover have "rolled (segs @ [[]])"
    using b(7) assms(2) by (cases segs rule: rev_cases) (auto simp: rolled_def butlast_append)
  moreover have "srecs_ok c ?pk m 0 (start_of c ?pk ?lid (segs @ [[]]) m) ((segs @ [[]]) ! m)" if "m < Suc (length segs)" for m
    using that b(6) n(2) by (cases "m = length segs") (simp_all add: nth_append)
  moreover have "log_last (segs @ [[]]) = log_last segs" by (simp add: log_last_def)
  ultimately show ?thesis
    using b(1-4,9) f(1) by (simp add: sw_base_def Let_def)
qed

section \<open>Operations\<close>

text \<open>The time of a record the writer adds on its own: one millisecond after the last one.\<close>

definition next_ms :: "srec list list \<Rightarrow> srec \<Rightarrow> bool" where
  "next_ms segs r \<longleftrightarrow> (\<exists>ts delta. log_last segs = Some (ts, delta) \<and>
     (en_ts_wall (fst r), en_ts_mono_delta (fst r)) = bump_ms ts delta)"

definition rolls :: "srec list list \<Rightarrow> srec list list \<Rightarrow> bool" where
  "rolls segs segs' \<longleftrightarrow> (\<exists>f. en_event (fst f) = EVENT_FINALIZED \<and> next_ms segs f \<and> segs' = add_rec segs f @ [[]])"

abbreviation finalizing :: "signed_writer \<Rightarrow> bytes \<times> u64 \<Rightarrow> record_input" where
  "finalizing sw tm \<equiv> finalize_input (fst (bump_ms (fst tm) (snd tm))) (snd (bump_ms (fst tm) (snd tm)))
     (sgm_next_record_id (sw_current sw)) (sgm_last_hash (sw_current sw))"

lemma rollover_step:
  assumes base: "sw_base c segs (sw, d)" "sgm_bytes_written (sw_current sw) < 2 ^ 63"
    and opened: "\<not> closed_by (last segs) EVENT_FINALIZED" "\<not> closed_by (last segs) EVENT_SEALED"
    and "length segs < 10000" and run: "signed_rollover c (sw, d) = (wd', res)"
  shows "sw_sealed (fst wd') = sw_sealed sw \<and>
    (sw_base c segs wd' \<and> (\<forall>u. res \<noteq> Ok u) \<and>
       (\<forall>tm id. sw_last_ts sw = Some tm \<longrightarrow> snd (write_with_nonce c (finalizing sw tm) (sw, d)) \<noteq> Ok id) \<or>
     res = Ok () \<and> (\<exists>segs'. rolls segs segs' \<and> sw_base c segs' wd' \<and> sgm_bytes_written (sw_current (fst wd')) = HEADER_LEN))"
proof -
  note b = sw_base_parts [OF base(1)] and few = last_records_few [OF base]
  have cur: "sgm_next_record_id (sw_current sw) = of_nat (length (last segs))"
    "sgm_last_hash (sw_current sw) = prev_of c (writer_key sw) (sw_log_id sw) segs (length segs)"
    using b(8) by (simp_all add: seg_at_def)
  show ?thesis
  proof (cases "sw_last_ts sw")
    case None
    then show ?thesis using run base(1) by (auto simp: signed_rollover_def)
  next
    case (Some tm)
    obtain ts delta where bump: "bump_ms (fst tm) (snd tm) = (ts, delta)" by (metis surj_pair)
    let ?fin = "finalize_input ts delta (sgm_next_record_id (sw_current sw)) (sgm_last_hash (sw_current sw))"
    have utf: "valid_utf8 ts" using bump rfc3339_utf8 by (auto simp: bump_ms_def)
    have h32: "length (sgm_last_hash (sw_current sw)) = 32" using cur(2) length_hashes(5) [OF b(1)] by simp
    obtain wd1 res1 where w: "write_with_nonce c ?fin (sw, d) = (wd1, res1)" by (metis surj_pair)
    have ro: "rollover_ok b (length (last segs)) (make_envelope c sw ?fin (of_nat (length (last segs))) bh)"
      if "bd_payload b = to_value (PMap (in_payload ?fin))" for b bh
      by (rule finalize_rollover_ok) (use that few(2) cur in \<open>simp_all add: make_envelope_def Let_def\<close>)
    note step = write_with_nonce_step [OF base opened finalize_sinput_ok [OF h32 utf] ro w]
    have run': "sw_then (wd1, res1) (\<lambda>_ (sw, d).
        let i = sgm_index (sw_current sw) in
        if unat i = 2 ^ 16 - 1 then ((sw, d), Err SWInvalidInput)
        else (case signed_create_segment c (i + 1) (sw_log_id sw) (writer_key sw) (sgm_last_hash (sw_current sw)) d of
            (d, Ok seg) \<Rightarrow> ((sw\<lparr>sw_current := seg\<rparr>, d), Ok ())
          | (d, Err e) \<Rightarrow> ((sw, d), Err e) | (d, Panic) \<Rightarrow> ((sw, d), Panic))) = (wd', res)"
      using run Some bump w by (simp add: signed_rollover_def case_prod_unfold Let_def)
    from step have step': "sw_sealed (fst wd1) = sw_sealed sw" "(sw_base c segs wd1 \<and> (\<forall>id. res1 \<noteq> Ok id)) \<or>
        (\<exists>r. res1 = Ok (of_nat (length (last segs))) \<and> records_input ?fin r \<and> sw_base c (add_rec segs r) wd1)"
      by blast+
    from step'(2) show ?thesis
    proof
      assume no: "sw_base c segs wd1 \<and> (\<forall>id. res1 \<noteq> Ok id)"
      then have "wd' = wd1 \<and> (\<forall>u. res \<noteq> Ok u)" using run' by (cases res1) (auto simp: sw_then_def)
      moreover have "snd (write_with_nonce c (finalizing sw tm') (sw, d)) \<noteq> Ok id" if "sw_last_ts sw = Some tm'" for tm' id
        using that Some bump w no by simp
      ultimately show ?thesis using no step'(1) by simp
    next
      assume "\<exists>r. res1 = Ok (of_nat (length (last segs))) \<and> records_input ?fin r \<and> sw_base c (add_rec segs r) wd1"
      then obtain r where r: "res1 = Ok (of_nat (length (last segs)))" "records_input ?fin r" "sw_base c (add_rec segs r) wd1" by blast
      obtain sw1 d1 where wd1: "wd1 = (sw1, d1)" by (cases wd1)
      note b1 = sw_base_parts [OF r(3) [unfolded wd1]] and a = add_rec_nth [OF b(10)]
      have event: "en_event (fst r) = EVENT_FINALIZED" using r(2) by (auto simp: records_input_def finalize_input_def)
      then have "closed_by (last (add_rec segs r)) EVENT_FINALIZED" by (simp add: closed_by_def a)
      from sw_base_new_segment [OF r(3) [unfolded wd1] this] a(1) assms(5) obtain seg d' where
        n: "signed_create_segment c (of_nat (length segs)) (sw_log_id sw1) (writer_key sw1)
            (prev_of c (writer_key sw1) (sw_log_id sw1) (add_rec segs r) (length (add_rec segs r))) d1 = (d', Ok seg)"
          "sw_base c (add_rec segs r @ [[]]) (sw1\<lparr>sw_current := seg\<rparr>, d')" "sgm_bytes_written seg = HEADER_LEN" by auto
      have L: "length segs - 1 < 65535" "0 < length segs" using assms(5) b(10) by simp_all
      have cur1: "sgm_index (sw_current sw1) = of_nat (length segs - 1)"
        "sgm_last_hash (sw_current sw1) = prev_of c (writer_key sw1) (sw_log_id sw1) (add_rec segs r) (length (add_rec segs r))"
        using b1(8) a(1) by (simp_all add: seg_at_def)
      have i: "unat (of_nat (length segs - 1) :: u16) \<noteq> 2 ^ 16 - 1" "of_nat (length segs - 1) + (1 :: u16) = of_nat (length segs)"
        using of_nat_u16(1) [of "length segs - 1"] L by (cases "length segs"; simp)+
      have "wd' = (sw1\<lparr>sw_current := seg\<rparr>, d') \<and> res = Ok ()"
        using run' n(1) i(1) unfolding r(1) wd1 sw_then_def prod.case result.case cur1 Let_def i(2) by simp
      moreover have "next_ms segs r"
        using r(2) Some bump b(9) unfolding next_ms_def
        by (intro exI [of _ "fst tm"] exI [of _ "snd tm"]) (auto simp: records_input_def finalize_input_def)
      then have "rolls segs (add_rec segs r @ [[]])" using event by (auto simp: rolls_def simp del: split_paired_Ex)
      ultimately show ?thesis using n(2,3) step'(1) wd1 by auto
    qed
  qed
qed

text \<open>What an append may do to the log: nothing, a rollover, a record, or both.\<close>

lemma append_step:
  assumes inv: "sw_at c segs (sw, d)" and "sgm_bytes_written (sw_current sw) < 2 ^ 63" "length segs < 10000" "sinput_ok input"
    and run: "signed_append c input (sw, d) = (wd', res)"
  shows "\<exists>segs1 segs'. (segs1 = segs \<or> rolls segs segs1) \<and> sw_at c segs' wd' \<and> sw_sealed (fst wd') = sw_sealed sw \<and>
    (case res of
       Ok k \<Rightarrow> k = of_nat (length (last segs1)) \<and> (\<exists>r. records_input input r \<and> segs' = add_rec segs1 r)
     | _ \<Rightarrow> segs' = segs1)"
proof -
  show ?thesis
  proof (cases "sw_sealed sw \<or> signed_validate input \<noteq> Ok () \<or> in_event input = EVENT_FINALIZED \<or> in_event input = EVENT_SEALED")
    case True
    then have n: "wd' = (sw, d)" "res \<noteq> Ok k" for k
      using run by (auto simp: signed_append_def sw_then_def split: if_splits result.splits)
    show ?thesis
      using n(1) inv by (intro exI [of _ segs]) (use n(2) in \<open>auto split: result.splits\<close>)
  next
    case False
    then have f: "\<not> sw_sealed sw" "signed_validate input = Ok ()" "in_event input \<noteq> EVENT_FINALIZED" "in_event input \<noteq> EVENT_SEALED"
      by simp_all
    then have opened: "\<not> closed_by (last segs) EVENT_FINALIZED" "\<not> closed_by (last segs) EVENT_SEALED" and base: "sw_base c segs (sw, d)"
      using inv by (auto simp: sw_at_def)
    have event: "event_ok (in_event input)"
      using f(2) by (auto simp: signed_validate_def event_ok_def Let_def split: if_splits)
    obtain wd1 res1 where roll: "(case signed_needs_rollover c sw input of None \<Rightarrow> ((sw, d), Panic)
        | Some True \<Rightarrow> signed_rollover c (sw, d) | Some False \<Rightarrow> ((sw, d), Ok ())) = (wd1, res1)" by (metis surj_pair)
    have run': "sw_then (wd1, res1) (\<lambda>_. write_with_nonce c input) = (wd', res)"
      using run f roll by (simp add: signed_append_def sw_then_def)
    have "sw_sealed (fst wd1) = sw_sealed sw \<and> (sw_base c segs wd1 \<and> (\<forall>u. res1 \<noteq> Ok u) \<or>
      res1 = Ok () \<and> (\<exists>segs1. (segs1 = segs \<or> rolls segs segs1) \<and> sw_base c segs1 wd1 \<and>
        sgm_bytes_written (sw_current (fst wd1)) < 2 ^ 63))"
    proof (cases "signed_needs_rollover c sw input")
      case None
      then show ?thesis using roll base by auto
    next
      case (Some roll')
      then show ?thesis
      proof (cases roll')
        case True
        then have "signed_rollover c (sw, d) = (wd1, res1)" using roll Some by simp
        from rollover_step [OF base assms(2) opened assms(3) this] show ?thesis by (auto simp: HEADER_LEN_def)
      next
        case False
        then show ?thesis using roll Some base assms(2) by auto
      qed
    qed
    then consider "sw_sealed (fst wd1) = sw_sealed sw" "sw_base c segs wd1" "\<forall>u. res1 \<noteq> Ok u"
      | segs1 where "sw_sealed (fst wd1) = sw_sealed sw" "res1 = Ok ()" "segs1 = segs \<or> rolls segs segs1" "sw_base c segs1 wd1"
        "sgm_bytes_written (sw_current (fst wd1)) < 2 ^ 63" by blast
    then show ?thesis
    proof cases
      case 1
      then have "wd' = wd1" "\<And>id. res \<noteq> Ok id" using run' by (cases res1; auto simp: sw_then_def)+
      then show ?thesis using 1(1,2) opened by (intro exI [of _ segs]) (auto simp: sw_at_def split: result.splits)
    next
      case (2 segs1)
      obtain sw1 d1 where wd1: "wd1 = (sw1, d1)" by (cases wd1)
      have o1: "\<not> closed_by (last segs1) EVENT_FINALIZED" "\<not> closed_by (last segs1) EVENT_SEALED"
        using 2(3) opened by (auto simp: rolls_def closed_by_def)
      have w: "write_with_nonce c input (sw1, d1) = (wd', res)" using run' 2(2) wd1 by (simp add: sw_then_def)
      have "\<And>b bh. in_event input = EVENT_FINALIZED \<Longrightarrow> bd_payload b = to_value (PMap (in_payload input)) \<Longrightarrow>
          rollover_ok b (length (last segs1)) (make_envelope c sw1 input (of_nat (length (last segs1))) bh)" using f(3) by simp
      from write_with_nonce_step [OF 2(4) [unfolded wd1] _ o1 assms(4) event this w] 2(5) wd1
      have s: "sw_sealed (fst wd') = sw_sealed sw1" "(sw_base c segs1 wd' \<and> (\<forall>id. res \<noteq> Ok id)) \<or>
        (\<exists>r. res = Ok (of_nat (length (last segs1))) \<and> records_input input r \<and> sw_base c (add_rec segs1 r) wd')" by auto
      from s(2) show ?thesis
      proof
        assume "sw_base c segs1 wd' \<and> (\<forall>id. res \<noteq> Ok id)"
        then show ?thesis using o1 2(1,3) s(1) wd1 by (intro exI [of _ segs1]) (auto simp: sw_at_def split: result.splits)
      next
        assume "\<exists>r. res = Ok (of_nat (length (last segs1))) \<and> records_input input r \<and> sw_base c (add_rec segs1 r) wd'"
        then obtain r where r: "res = Ok (of_nat (length (last segs1)))" "records_input input r" "sw_base c (add_rec segs1 r) wd'" by blast
        have "en_event (fst r) = in_event input" using r(2) by (auto simp: records_input_def)
        then have "sw_at c (add_rec segs1 r) wd'"
          using r(3) f(3,4) by (simp add: sw_at_def add_rec_def closed_by_def)
        then show ?thesis using r(1,2) 2(1,3) s(1) wd1
          by (intro exI [of _ segs1] exI [of _ "add_rec segs1 r"]) (auto simp del: split_paired_Ex)
      qed
    qed
  qed
qed

lemma seal_step:
  assumes inv: "sw_at c segs (sw, d)" and "sgm_bytes_written (sw_current sw) < 2 ^ 63"
    and run: "signed_seal c (sw, d) = (wd', res)"
  shows "\<exists>segs'. sw_at c segs' wd' \<and>
    (case res of
       Ok k \<Rightarrow> k = of_nat (length (last segs)) \<and> sw_sealed (fst wd') \<and>
         (\<exists>r. en_event (fst r) = EVENT_SEALED \<and> next_ms segs r \<and> segs' = add_rec segs r)
     | _ \<Rightarrow> segs' = segs \<and> sw_sealed (fst wd') = sw_sealed sw)"
proof (cases "sw_sealed sw \<or> sw_last_ts sw = None")
  case True
  then have "wd' = (sw, d)" "\<And>id. res \<noteq> Ok id" using run by (auto simp: signed_seal_def split: if_splits)
  then show ?thesis using inv by (intro exI [of _ segs]) (auto split: result.splits)
next
  case False
  then obtain tm where tm: "\<not> sw_sealed sw" "sw_last_ts sw = Some tm" by auto
  then have opened: "\<not> closed_by (last segs) EVENT_FINALIZED" "\<not> closed_by (last segs) EVENT_SEALED" and base: "sw_base c segs (sw, d)"
    using inv by (auto simp: sw_at_def)
  obtain ts delta where bump: "bump_ms (fst tm) (snd tm) = (ts, delta)" by (metis surj_pair)
  have utf: "valid_utf8 ts" using bump rfc3339_utf8 by (auto simp: bump_ms_def)
  let ?in = "sealing_input ts delta"
  obtain wd1 res1 where w: "write_with_nonce c ?in (sw, d) = (wd1, res1)" by (metis surj_pair)
  have run': "sw_then (wd1, res1) (\<lambda>id (sw, d). ((sw\<lparr>sw_sealed := True\<rparr>, d), Ok id)) = (wd', res)"
    using run tm bump w by (simp add: signed_seal_def case_prod_unfold)
  have "\<And>b bh. in_event ?in = EVENT_FINALIZED \<Longrightarrow> bd_payload b = to_value (PMap (in_payload ?in)) \<Longrightarrow>
      rollover_ok b (length (last segs)) (make_envelope c sw ?in (of_nat (length (last segs))) bh)"
    using events_differ by (simp add: sealing_input_def)
  from write_with_nonce_step [OF base assms(2) opened sealing_sinput_ok [OF utf] this w]
  have s: "sw_sealed (fst wd1) = sw_sealed sw" "(sw_base c segs wd1 \<and> (\<forall>id. res1 \<noteq> Ok id)) \<or>
    (\<exists>r. res1 = Ok (of_nat (length (last segs))) \<and> records_input ?in r \<and> sw_base c (add_rec segs r) wd1)" by auto
  from s(2) show ?thesis
  proof
    assume no: "sw_base c segs wd1 \<and> (\<forall>id. res1 \<noteq> Ok id)"
    then have "wd' = wd1" "\<And>id. res \<noteq> Ok id" using run' by (cases res1; auto simp: sw_then_def)+
    then show ?thesis using no opened s(1) by (intro exI [of _ segs]) (auto simp: sw_at_def split: result.splits)
  next
    assume "\<exists>r. res1 = Ok (of_nat (length (last segs))) \<and> records_input ?in r \<and> sw_base c (add_rec segs r) wd1"
    then obtain r where r: "res1 = Ok (of_nat (length (last segs)))" "records_input ?in r" "sw_base c (add_rec segs r) wd1" by blast
    obtain sw1 d1 where wd1: "wd1 = (sw1, d1)" by (cases wd1)
    have event: "en_event (fst r) = EVENT_SEALED" using r(2) by (auto simp: records_input_def sealing_input_def)
    have stamp: "next_ms segs r"
      using r(2) tm(2) bump sw_base_parts(9) [OF base] unfolding next_ms_def
      by (intro exI [of _ "fst tm"] exI [of _ "snd tm"]) (auto simp: records_input_def sealing_input_def)
    have wd': "wd' = (sw1\<lparr>sw_sealed := True\<rparr>, d1)" "res = Ok (of_nat (length (last segs)))"
      using run' r(1) wd1 by (auto simp: sw_then_def)
    have "sw_base c (add_rec segs r) wd'" using r(3) wd1 wd'(1) by (simp add: sw_base_def Let_def)
    then have "sw_at c (add_rec segs r) wd'"
      using event events_differ wd'(1) by (simp add: sw_at_def add_rec_def closed_by_def)
    then show ?thesis using wd' event stamp
      by (intro exI [of _ "add_rec segs r"]) (auto simp del: split_paired_Ex)
  qed
qed

end
