(* ===== verification/Signed_Reopen.thy ===== *)
theory Signed_Reopen
  imports Signed_Writer_Refines
begin

text \<open>
  Opening a signed log after a crash. Whatever byte after the header the last file was cut at, opening
  keeps the whole records, drops the rest, and resumes as the writer of that log; a sealed log is
  refused.
\<close>

section \<open>Cut files\<close>

definition frame_parts :: "srec \<Rightarrow> signed_record" where
  "frame_parts = (\<lambda>(env, sig, bdy). (envelope_encode env, sig, Some bdy))"

lemma srec_frame_parts: "srec_frame r = sframe (frame_parts r)"
  by (cases r) (simp add: srec_frame_def sframe_def frame_parts_def)

lemma srec_ok_parts: "srec_ok c pk n p prev r \<Longrightarrow> sframe_valid (frame_parts r)"
  by (cases r) (simp add: frame_parts_def srec_ok_frame(1))

lemma srecs_ok_parts: "srecs_ok c pk n p prev recs \<Longrightarrow> list_all sframe_valid (map frame_parts recs)"
  by (induction recs arbitrary: p prev) (auto simp: srec_ok_parts)

definition torn_frame :: "bytes \<Rightarrow> bool" where
  "torn_frame t \<longleftrightarrow> t = [] \<or> (\<exists>r k. sframe_valid r \<and> t = take k (sframe r) \<and> 0 < k \<and> k < length (sframe r))"

lemma frames_cut:
  assumes "srecs_ok c pk n p prev recs"
  shows "\<exists>j t. j \<le> length recs \<and> take m (concat (map srec_frame recs)) = concat (map srec_frame (take j recs)) @ t \<and>
    torn_frame t"
proof -
  have e: "concat (map srec_frame rs) = concat (map sframe (map frame_parts rs))" for rs
    by (simp add: srec_frame_parts [abs_def] comp_def)
  note v = srecs_ok_parts [OF assms]
  obtain j t where jt: "j \<le> length recs" "take m (concat (map srec_frame recs)) = concat (map srec_frame (take j recs)) @ t"
    "t = [] \<or> (j < length recs \<and> (\<exists>k. t = take k (sframe (map frame_parts recs ! j)) \<and> 0 < k \<and>
      k < length (sframe (map frame_parts recs ! j))))"
    using sframes.frames_take [OF v, of m] unfolding e by (auto simp: take_map)
  have "torn_frame t"
  proof (cases "t = []")
    case False
    then have "j < length recs" using jt(3) by blast
    then have "sframe_valid (map frame_parts recs ! j)" using v by (simp add: list_all_length)
    then show ?thesis using jt(3) False unfolding torn_frame_def by blast
  qed (simp add: torn_frame_def)
  then show ?thesis using jt(1,2) by blast
qed

lemma read_torn:
  assumes "torn_frame t" "off \<le> length content" "drop off content = t"
  shows "t = [] \<Longrightarrow> read_frame content off = FrameEnd" "t \<noteq> [] \<Longrightarrow> read_frame content off = FrameTorn off"
proof -
  show "t = [] \<Longrightarrow> read_frame content off = FrameEnd" using assms(2,3) by (simp add: read_frame_def)
  assume "t \<noteq> []"
  then obtain r k where "sframe_valid r" "drop off content = take k (sframe r)" "k < length (sframe r)"
    using assms(1,3) by (auto simp: torn_frame_def)
  moreover have "off < length content" using assms(3) \<open>t \<noteq> []\<close> by (cases "off < length content") simp_all
  ultimately show "read_frame content off = FrameTorn off" using read_frame_cut by blast
qed

section \<open>The scan\<close>

lemma scan_loop_log:
  assumes "srecs_ok c pk n p (ssc_last_hash s) recs" "ssc_records s = of_nat p" "ssc_end s \<le> length content"
    and "drop (ssc_end s) content = concat (map srec_frame recs) @ t" "torn_frame t" "ssc_truncated s = 0"
  shows "\<exists>off. signed_scan_loop c (of_nat n) content s =
    Ok \<lparr>ssc_records = of_nat (p + length recs), ssc_end = ssc_end s + length (concat (map srec_frame recs)),
        ssc_truncated = length t, ssc_last_hash = hash_after c (ssc_last_hash s) recs,
        ssc_last = (if recs = [] then ssc_last s else Some (raw_of off (last recs), fst (last recs)))\<rparr>"
  using assms
proof (induction recs arbitrary: p s)
  case Nil
  have l: "length t = length content - ssc_end s" using arg_cong [OF Nil.prems(4), of length] by simp
  have d: "drop (ssc_end s) content = t" using Nil.prems(4) by simp
  note r = read_torn [OF Nil.prems(5,3) d]
  show ?case
    using r l Nil.prems(2,6) by (subst signed_scan_loop.simps) (cases "t = []"; cases s; simp add: hash_after_def)
next
  case (Cons r rs)
  have ok: "srec_ok c pk n p (ssc_last_hash s) r" "srecs_ok c pk n (Suc p) (srec_hash c r) rs" using Cons.prems(1) by simp_all
  obtain env sig bdy where r: "r = (env, sig, bdy)" by (cases r)
  have d: "drop (ssc_end s) content = srec_frame r @ (concat (map srec_frame rs) @ t)" using Cons.prems(4) by simp
  note rd = srec_frame_read [OF ok(1) Cons.prems(3) d]
  let ?s = "\<lparr>ssc_records = ssc_records s + 1, ssc_end = ssc_end s + raw_total_len (raw_of (ssc_end s) r),
      ssc_truncated = ssc_truncated s, ssc_last_hash = record_hash c (raw_envelope (raw_of (ssc_end s) r)),
      ssc_last = Some (raw_of (ssc_end s) r, env)\<rparr>"
  have h: "record_hash c (raw_envelope (raw_of (ssc_end s) r)) = srec_hash c r" "raw_total_len (raw_of (ssc_end s) r) = length (srec_frame r)"
    "raw_envelope (raw_of (ssc_end s) r) = envelope_encode env"
    by (simp_all add: raw_of_def srec_hash_def r)
  have dec: "envelope_decode (envelope_encode env) = Ok env" using srec_ok_frame(3) ok(1) r by blast
  have chain: "en_prev_hash env = ssc_last_hash s" "en_segment_index env = of_nat n" "unat (en_record_id env) = p"
    using ok(1) r by (simp_all add: srec_ok_def in_chain_def)
  then have "en_record_id env = ssc_records s" using Cons.prems(2) by (auto simp flip: chain(3))
  then have step: "signed_scan_loop c (of_nat n) content s = signed_scan_loop c (of_nat n) content ?s"
    using rd dec chain h by (subst signed_scan_loop.simps) simp
  have "drop (ssc_end s + length (srec_frame r)) content = drop (length (srec_frame r)) (drop (ssc_end s) content)"
    by (simp add: add.commute)
  also have "\<dots> = concat (map srec_frame rs) @ t" unfolding d by simp
  finally have "drop (ssc_end s + length (srec_frame r)) content = concat (map srec_frame rs) @ t" .
  moreover have "ssc_end s + length (srec_frame r) \<le> length content"
    using arg_cong [OF d, of length] Cons.prems(3) by simp
  ultimately have e: "ssc_end ?s \<le> length content" "drop (ssc_end ?s) content = concat (map srec_frame rs) @ t"
    by (simp_all add: h(2))
  obtain off where "signed_scan_loop c (of_nat n) content ?s =
    Ok \<lparr>ssc_records = of_nat (Suc p + length rs), ssc_end = ssc_end ?s + length (concat (map srec_frame rs)),
        ssc_truncated = length t, ssc_last_hash = hash_after c (ssc_last_hash ?s) rs,
        ssc_last = (if rs = [] then ssc_last ?s else Some (raw_of off (last rs), fst (last rs)))\<rparr>"
    using Cons.IH [of "Suc p" ?s] ok(2) Cons.prems(2,5,6) e h by auto
  then show ?case
    unfolding step using h r
    by (intro exI [of _ "if rs = [] then ssc_end s else off"]) (simp add: hash_after_def)
qed

lemma srecs_ok_last:
  assumes "srecs_ok c pk n p prev recs" "recs \<noteq> []"
  shows "\<exists>q prev'. srec_ok c pk n q prev' (last recs)"
  using assms srecs_ok_snoc [of c pk n p prev "butlast recs" "last recs"] by auto

lemma read_log_header:
  assumes key: "key_good c pk lid" "length prev = 32" "n < 65536"
    and content: "regular_file d (of_nat n) = Some content" "HEADER_LEN \<le> length content"
      "take HEADER_LEN content = header_bytes_of c pk lid n prev"
  shows "signed_read_header c d (of_nat n) = Ok (key_header c pk lid n prev, take HEADER_LEN content)"
proof -
  note r = header_read [OF key content(3,2)]
  have u: "u32_at (take HEADER_LEN content) 124 = u32_at content 124" by (simp add: u32_at_take HEADER_LEN_def)
  have t: "take 4 (take HEADER_LEN content) = take 4 content" "take 124 (take HEADER_LEN content) = take 124 content"
    by (simp_all add: HEADER_LEN_def)
  show ?thesis
    using r content(1,2) u t
    by (simp add: signed_read_header_def Let_def signed_header_new_def HEADER_HASHED_LEN_def min_absorb2)
qed

text \<open>A scan of a file that starts with the header of its segment and continues with some records.\<close>

lemma scan_segment_log:
  assumes key: "key_good c pk lid" "length prev = 32" "n < 65536"
    and content: "regular_file d (of_nat n) = Some content" "HEADER_LEN \<le> length content"
      "take HEADER_LEN content = header_bytes_of c pk lid n prev" "drop HEADER_LEN content = concat (map srec_frame recs) @ t"
    and recs: "srecs_ok c pk n 0 (sseg_start c pk lid n prev) recs" "torn_frame t" and h0: "sh_log_id h0 = lid"
  shows "\<exists>s off. scan_segment c (of_nat n) h0 pk repair d =
      (if repair \<and> t \<noteq> [] then node_put (of_nat n) (header_bytes_of c pk lid n prev @ concat (map srec_frame recs)) d else d,
       Ok s) \<and>
    s = \<lparr>ssc_records = of_nat (length recs), ssc_end = HEADER_LEN + length (concat (map srec_frame recs)),
        ssc_truncated = length t, ssc_last_hash = hash_after c (sseg_start c pk lid n prev) recs,
        ssc_last = (if recs = [] then None else Some (raw_of off (last recs), fst (last recs)))\<rparr>"
proof -
  note r = header_read [OF key content(3,2)]
  let ?h = "key_header c pk lid n prev"
  have hd: "signed_read_header c d (of_nat n) = Ok (?h, take HEADER_LEN content)"
    by (rule read_log_header [OF key content(1-3)])
  have key_ok: "check_header_key c ?h pk (of_nat n) = Ok ()" by (simp add: check_header_key_def signed_header_new_def)
  have lid: "sh_log_id ?h = sh_log_id h0" using h0 by (simp add: signed_header_new_def)
  have start: "chain_start c (take HEADER_LEN content) = sseg_start c pk lid n prev"
    using r(4) chain_start_take [of c content] by simp
  let ?s = "\<lparr>ssc_records = 0, ssc_end = HEADER_LEN, ssc_truncated = 0,
      ssc_last_hash = sseg_start c pk lid n prev, ssc_last = None\<rparr>"
  obtain off where loop: "signed_scan_loop c (of_nat n) content ?s =
      Ok \<lparr>ssc_records = of_nat (length recs), ssc_end = HEADER_LEN + length (concat (map srec_frame recs)),
        ssc_truncated = length t, ssc_last_hash = hash_after c (sseg_start c pk lid n prev) recs,
        ssc_last = (if recs = [] then None else Some (raw_of off (last recs), fst (last recs)))\<rparr>"
    using scan_loop_log [of c pk n 0 ?s recs content t] recs content unfolding signed_scan.simps by auto
  have "take (HEADER_LEN + k) content = take HEADER_LEN content @ take k (drop HEADER_LEN content)" for k
    by (simp add: take_add)
  then have cut: "take (HEADER_LEN + length (concat (map srec_frame recs))) content =
      header_bytes_of c pk lid n prev @ concat (map srec_frame recs)" using content(3,4) by simp
  define s where "s = \<lparr>ssc_records = of_nat (length recs), ssc_end = HEADER_LEN + length (concat (map srec_frame recs)),
      ssc_truncated = length t, ssc_last_hash = hash_after c (sseg_start c pk lid n prev) recs,
      ssc_last = (if recs = [] then None else Some (raw_of off (last recs), fst (last recs)))\<rparr>"
  have last: "check_last_record c (of_nat n) pk s = Ok ()"
  proof (cases "recs = []")
    case False
    obtain q prev' where l: "srec_ok c pk n q prev' (last recs)" using srecs_ok_last [OF recs(1) False] by blast
    obtain env sig bdy where "last recs = (env, sig, bdy)" by (cases "last recs")
    then show ?thesis using l False by (simp add: check_last_record_def raw_of_def srec_ok_def s_def)
  qed (simp add: check_last_record_def s_def)
  have "scan_segment c (of_nat n) h0 pk repair d =
      (if repair \<and> 0 < ssc_truncated s then node_put (of_nat n) (take (ssc_end s) content) d else d, Ok s)"
    using loop last lid by (simp add: scan_segment_def hd key_ok start content(1) s_def [symmetric])
  then show ?thesis by (intro exI [of _ s] exI [of _ off]) (simp add: s_def cut del: take_append)
qed

section \<open>Logs cut in the last segment\<close>

definition cut_log :: "nat \<Rightarrow> srec list list \<Rightarrow> srec list list" where
  "cut_log j segs = butlast segs @ [take j (last segs)]"

lemma cut_log_nth:
  assumes "segs \<noteq> []"
  shows "length (cut_log j segs) = length segs" "last (cut_log j segs) = take j (last segs)"
    "Suc m < length segs \<Longrightarrow> cut_log j segs ! m = segs ! m"
    "cut_log j segs ! (length segs - 1) = take j (last segs)" "cut_log j segs \<noteq> []" "butlast (cut_log j segs) = butlast segs"
proof -
  obtain xs x where "segs = xs @ [x]" using assms by (cases segs rule: rev_cases) auto
  then show "length (cut_log j segs) = length segs" "last (cut_log j segs) = take j (last segs)"
    "Suc m < length segs \<Longrightarrow> cut_log j segs ! m = segs ! m"
    "cut_log j segs ! (length segs - 1) = take j (last segs)" "cut_log j segs \<noteq> []" "butlast (cut_log j segs) = butlast segs"
    by (simp_all add: cut_log_def nth_append)
qed

lemma cut_log_file:
  assumes "segs \<noteq> []"
  shows "n < length segs \<Longrightarrow> prev_of c pk lid (cut_log j segs) n = prev_of c pk lid segs n"
    "n < length segs \<Longrightarrow> start_of c pk lid (cut_log j segs) n = start_of c pk lid segs n"
    "Suc n < length segs \<Longrightarrow> signed_file c pk lid (cut_log j segs) n = signed_file c pk lid segs n"
    "signed_file c pk lid (cut_log j segs) (length segs - 1) =
      header_bytes_of c pk lid (length segs - 1) (prev_of c pk lid segs (length segs - 1)) @ concat (map srec_frame (take j (last segs)))"
proof -
  note a = cut_log_nth [OF assms]
  have p: "prev_of c pk lid (cut_log j segs) n = prev_of c pk lid segs n" if "n < length segs" for n
    by (rule prev_of_cong) (use a(3) that in auto)
  show "n < length segs \<Longrightarrow> prev_of c pk lid (cut_log j segs) n = prev_of c pk lid segs n" by (rule p)
  then show "n < length segs \<Longrightarrow> start_of c pk lid (cut_log j segs) n = start_of c pk lid segs n" by (simp add: start_of_def)
  show "Suc n < length segs \<Longrightarrow> signed_file c pk lid (cut_log j segs) n = signed_file c pk lid segs n"
    by (rule file_cong(1)) (use a(3) in auto)
  have "length segs - 1 < length segs" using assms by simp
  from p [OF this] show "signed_file c pk lid (cut_log j segs) (length segs - 1) =
      header_bytes_of c pk lid (length segs - 1) (prev_of c pk lid segs (length segs - 1)) @ concat (map srec_frame (take j (last segs)))"
    using a(4) by (simp add: signed_file_def)
qed

lemma cut_log_rolled: "rolled segs \<Longrightarrow> rolled (cut_log j segs)"
proof -
  assume r: "rolled segs"
  then obtain xs x where s: "segs = xs @ [x]" by (cases segs rule: rev_cases) (auto simp: rolled_def)
  have "concat segs = concat (cut_log j segs) @ drop j x" by (simp add: s cut_log_def)
  then have "set (butlast (concat (cut_log j segs))) \<subseteq> set (butlast (concat segs))"
    by (cases "drop j x = []") (auto simp: butlast_append dest: in_set_butlastD)
  then show ?thesis using r s by (auto simp: rolled_def cut_log_def)
qed

lemma cut_log_chain:
  assumes "segs \<noteq> []" "\<And>n. n < length segs \<Longrightarrow> srecs_ok c pk n 0 (start_of c pk lid segs n) (segs ! n)" "n < length segs"
  shows "srecs_ok c pk n 0 (start_of c pk lid (cut_log j segs) n) (cut_log j segs ! n)"
proof (cases "n = length segs - 1")
  case True
  have "segs ! (length segs - 1) = last segs" using assms(1) by (simp add: last_conv_nth)
  then show ?thesis
    using assms(2) [OF assms(3)] cut_log_nth(4) [OF assms(1)] cut_log_file(2) [OF assms(1,3)] srecs_ok_take True by metis
next
  case False
  then have "Suc n < length segs" using assms(3) by simp
  then show ?thesis
    using assms(2) [OF assms(3)] cut_log_nth(3) [OF assms(1)] cut_log_file(2) [OF assms(1,3), of c pk lid j] by simp
qed

lemma cut_log_files:
  assumes "signed_files c pk lid segs d" "segs \<noteq> []" "distinct (map fst d')" "fst (list_segments d') = fst (list_segments d)"
    and "\<And>n. Suc n < length segs \<Longrightarrow> regular_file d' (of_nat n) = regular_file d (of_nat n)"
    and "regular_file d' (of_nat (length segs - 1)) = Some (signed_file c pk lid (cut_log j segs) (length segs - 1))"
  shows "signed_files c pk lid (cut_log j segs) d'"
proof -
  have "regular_file d' (of_nat n) = Some (signed_file c pk lid (cut_log j segs) n)" if n: "n < length segs" for n
  proof (cases "n = length segs - 1")
    case False
    then have "Suc n < length segs" using n by simp
    then show ?thesis using assms(1) n assms(5) cut_log_file(3) [OF assms(2), of n c pk lid j] by (simp add: signed_files_def)
  qed (use assms(6) in simp)
  then show ?thesis using assms(1,3,4) cut_log_nth(1) [OF assms(2)] by (simp add: signed_files_def)
qed

lemma node_put_again: "node_put i a (node_put i b d) = node_put i a d"
  by (simp add: node_put_def)

section \<open>Opening\<close>

definition crash_cut ::
  "('p, 's) crypto \<Rightarrow> public_key \<Rightarrow> bytes \<Rightarrow> srec list list \<Rightarrow> nat \<Rightarrow> node_dir \<Rightarrow> node_dir" where
  "crash_cut c pk lid segs m d =
     node_put (of_nat (length segs - 1)) (take m (signed_file c pk lid segs (length segs - 1))) d"

lemma log_last_cut:
  assumes "rolled segs" "\<And>n. n < length segs \<Longrightarrow> srecs_ok c pk n 0 (start_of c pk lid segs n) (segs ! n)"
  shows "log_last (cut_log j segs) =
    (if take j (last segs) \<noteq> [] then Some (en_ts_wall (fst (last (take j (last segs)))), en_ts_mono_delta (fst (last (take j (last segs)))))
     else if length segs = 1 then None
     else Some (en_ts_wall (fst (last (segs ! (length segs - 2)))), en_ts_mono_delta (fst (last (segs ! (length segs - 2))))))"
proof -
  obtain xs x where s: "segs = xs @ [x]" using assms(1) by (cases segs rule: rev_cases) (auto simp: rolled_def)
  show ?thesis
  proof (cases "take j x = []")
    case False
    then have "concat (cut_log j segs) \<noteq> []" "last (concat (cut_log j segs)) = last (take j x)"
      by (auto simp: s cut_log_def)
    then show ?thesis using False by (simp add: log_last_def s)
  next
    case True
    then have c: "concat (cut_log j segs) = concat xs" by (simp add: s cut_log_def)
    show ?thesis
    proof (cases xs rule: rev_cases)
      case Nil
      then show ?thesis using True c by (simp add: log_last_def s)
    next
      case (snoc ys y)
      then have "y \<noteq> []" using assms(1) by (auto simp: rolled_def s closed_by_def butlast_append)
      moreover from this have "last (concat xs) = last y" "concat xs \<noteq> []" using snoc by auto
      ultimately show ?thesis using True c snoc by (simp add: log_last_def s nth_append)
    qed
  qed
qed

text \<open>The first file and the listing of a cut log are those of a signed log.\<close>

lemma cut_dir:
  assumes key: "key_good c pk lid" and files: "signed_files c pk lid segs d" "segs \<noteq> []" and m: "HEADER_LEN \<le> m"
  defines "d1 \<equiv> crash_cut c pk lid segs m d"
  shows "distinct (map fst d1)" "fst (list_segments d1) = map of_nat [0..<length segs]"
    "Suc n < length segs \<Longrightarrow> regular_file d1 (of_nat n) = Some (signed_file c pk lid segs n)"
    "regular_file d1 (of_nat (length segs - 1)) = Some (take m (signed_file c pk lid segs (length segs - 1)))"
    "n < length segs \<Longrightarrow> \<exists>content. regular_file d1 (of_nat n) = Some content \<and> HEADER_LEN \<le> length content \<and>
      take HEADER_LEN content = header_bytes_of c pk lid n (prev_of c pk lid segs n)"
    "log_format d1 = Some FORMAT_VERSION_SIGNED"
proof -
  let ?L = "length segs - 1"
  have L: "?L < length segs" "length segs \<le> 10000" using files by (simp_all add: signed_files_def)
  have old: "regular_file d (of_nat n) = Some (signed_file c pk lid segs n)" if "n < length segs" for n
    using files(1) that by (simp add: signed_files_def)
  show "distinct (map fst d1)" using files(1) by (simp add: d1_def crash_cut_def node_put_def distinct_update signed_files_def)
  show listing: "fst (list_segments d1) = map of_nat [0..<length segs]"
    using files(1) old [OF L(1)] listing_put_old [of d "of_nat ?L"] by (simp add: d1_def crash_cut_def signed_files_def)
  show last: "regular_file d1 (of_nat ?L) = Some (take m (signed_file c pk lid segs ?L))"
    by (simp add: d1_def crash_cut_def regular_put)
  show others: "regular_file d1 (of_nat n) = Some (signed_file c pk lid segs n)" if "Suc n < length segs" for n
  proof -
    have "(of_nat n :: u16) \<noteq> of_nat ?L" using of_nat_u16_inject [of n ?L] that L by simp
    then show ?thesis using old [of n] that by (simp add: d1_def crash_cut_def regular_put)
  qed
  show each: "\<exists>content. regular_file d1 (of_nat n) = Some content \<and> HEADER_LEN \<le> length content \<and>
      take HEADER_LEN content = header_bytes_of c pk lid n (prev_of c pk lid segs n)" if n: "n < length segs" for n
  proof (cases "n = ?L")
    case True
    then show ?thesis using last signed_file_parts [OF key, of segs ?L] m by (simp add: min_def)
  next
    case False
    then show ?thesis using others [of n] n signed_file_parts [OF key, of segs n] by simp
  qed
  obtain content where co: "regular_file d1 0 = Some content" "HEADER_LEN \<le> length content"
    "take HEADER_LEN content = header_bytes_of c pk lid 0 (prev_of c pk lid segs 0)"
    using each [of 0] files(2) by auto
  note r = header_read [OF key length_hashes(5) [OF key] _ co(3,2)]
  have "u16_at content 4 = u16_at (take HEADER_LEN content) 4" by (simp add: u16_at_take HEADER_LEN_def)
  also have "\<dots> = FORMAT_VERSION_SIGNED" using r(1) by (simp add: from_bytes_unchecked_def signed_header_new_def)
  finally show "log_format d1 = Some FORMAT_VERSION_SIGNED"
    using listing co(1,2) r(2) files(2) by (simp add: log_format_def HEADER_LEN_def hd_map)
qed

lemma resume_time_log:
  assumes key: "key_good c pk lid" and rolled: "rolled segs"
    and chain: "\<And>n. n < length segs \<Longrightarrow> srecs_ok c pk n 0 (start_of c pk lid segs n) (segs ! n)"
    and files: "signed_files c pk lid (cut_log j segs) d" and j: "j \<le> length (last segs)" "length (last segs) < 2 ^ 64"
    and s: "ssc_records s = of_nat j" "ssc_last s = (if take j (last segs) = [] then None
        else Some (raw_of off (last (take j (last segs))), fst (last (take j (last segs)))))"
    and h0: "sh_log_id h0 = lid"
  shows "resume_time c h0 pk (of_nat (length segs - 1)) s d = Ok (log_last (cut_log j segs))"
proof -
  have ne: "segs \<noteq> []" using rolled by (simp add: rolled_def)
  have len: "length segs \<le> 10000" using files cut_log_nth(1) [OF ne] by (simp add: signed_files_def)
  have zero: "ssc_records s = 0 \<longleftrightarrow> j = 0"
  proof -
    have "unat (of_nat j :: u64) = j" using j by (simp add: unat_of_nat)
    then show ?thesis using s(1) by auto
  qed
  have pos: "(0 :: u16) < of_nat (length segs - 1) \<longleftrightarrow> 1 < length segs"
    using of_nat_u16(1) [of "length segs - 1"] len by (auto simp: word_less_nat_alt)
  show ?thesis
  proof (cases "j = 0 \<and> 1 < length segs")
    case False
    have t: "take j (last segs) = [] \<Longrightarrow> j = 0 \<or> last segs = []" by simp
    have "take j (last segs) = [] \<longrightarrow> length segs = 1"
      using False t j ne by (cases segs) auto
    then show ?thesis
      using False zero pos s(2) log_last_cut [OF rolled chain, of j] by (auto simp: resume_time_def scan_last_ts_def)
  next
    case True
    let ?n = "length segs - 2"
    have n: "?n < length segs" "Suc ?n < length segs" "?n < 65536" using True len by auto
    have w: "of_nat (length segs - 1) - (1 :: u16) = of_nat ?n" using True by (simp add: of_nat_diff)
    have "segs ! ?n \<in> set (butlast segs)" using n by (simp add: nth_butlast [symmetric] del: nth_butlast)
    then have closed: "closed_by (segs ! ?n) EVENT_FINALIZED" using rolled by (simp add: rolled_def)
    have f: "regular_file d (of_nat ?n) = Some (signed_file c pk lid segs ?n)"
      using files n(1) cut_log_nth(1) [OF ne] cut_log_file(3) [OF ne n(2), of c pk lid j] by (simp add: signed_files_def)
    note p = signed_file_parts [OF key, of segs ?n]
    obtain prev off' where prev: "scan_segment c (of_nat ?n) h0 pk False d = (d, Ok prev)"
      "ssc_last prev = (if segs ! ?n = [] then None else Some (raw_of off' (last (segs ! ?n)), fst (last (segs ! ?n))))"
      using scan_segment_log [OF key length_hashes(5) [OF key] n(3) f p(3,1), of "segs ! ?n" "[]" h0 False]
        p(2) chain [OF n(1)] h0 by (auto simp: start_of_def torn_frame_def)
    then show ?thesis
      using True zero pos w closed events_differ log_last_cut [OF rolled chain, of j]
      by (simp add: resume_time_def scan_last_event_def scan_last_ts_def closed_by_def)
  qed
qed

lemma open_cut:
  assumes key: "key_good c (sg_public_key sg) lid" and sg: "signer_ok sg" and sid: "length sid = 16"
    and nonces: "\<forall>x \<in> sset nonces. length x = 32"
    and files: "signed_files c (sg_public_key sg) lid segs d" and rolled: "rolled segs"
    and chain: "\<And>n. n < length segs \<Longrightarrow> srecs_ok c (sg_public_key sg) n 0 (start_of c (sg_public_key sg) lid segs n) (segs ! n)"
    and m: "HEADER_LEN \<le> m" and few: "length (last segs) < 2 ^ 64"
    and run: "open_inner c sg sid cfg fresh nonces (crash_cut c (sg_public_key sg) lid segs m d) = (d', res)"
  shows "\<exists>j t. j \<le> length (last segs) \<and>
    take m (signed_file c (sg_public_key sg) lid segs (length segs - 1)) =
      signed_file c (sg_public_key sg) lid (cut_log j segs) (length segs - 1) @ t \<and> torn_frame t \<and>
    (if closed_by (take j (last segs)) EVENT_SEALED then res = Err SWSealed
     else if closed_by (take j (last segs)) EVENT_FINALIZED then
       length segs < 10000 \<longrightarrow> (\<exists>sw. res = Ok sw \<and> sw_at c (cut_log j segs @ [[]]) (sw, d') \<and> sw_signer sw = sg \<and>
         sw_log_id sw = lid \<and> \<not> sw_sealed sw \<and> rep_action (sw_recovery sw) = OpenedNextAfterFinalized \<and>
         rep_truncated_bytes (sw_recovery sw) = length t)
     else \<exists>sw. res = Ok sw \<and> sw_at c (cut_log j segs) (sw, d') \<and> sw_signer sw = sg \<and> sw_log_id sw = lid \<and>
       \<not> sw_sealed sw \<and> rep_action (sw_recovery sw) = (if t = [] then Resumed else Repaired) \<and>
       rep_truncated_bytes (sw_recovery sw) = length t)"
proof -
  let ?pk = "sg_public_key sg" and ?L = "length segs - 1"
  let ?d1 = "crash_cut c ?pk lid segs m d"
  have ne: "segs \<noteq> []" using rolled by (simp add: rolled_def)
  then have L: "?L < length segs" "segs ! ?L = last segs" by (simp_all add: last_conv_nth)
  have len: "length segs \<le> 10000" using files by (simp add: signed_files_def)
  then have len: "length segs \<le> 10000" "?L < 65536" by linarith+
  note dir = cut_dir [OF key files ne m]
  note p = signed_file_parts [OF key, of segs ?L]
  have start: "start_of c ?pk lid segs ?L = sseg_start c ?pk lid ?L (prev_of c ?pk lid segs ?L)" by (simp add: start_of_def)
  obtain j t where jt: "j \<le> length (last segs)"
    "take (m - HEADER_LEN) (concat (map srec_frame (last segs))) = concat (map srec_frame (take j (last segs))) @ t" "torn_frame t"
    using frames_cut [OF chain [OF L(1)]] L(2) by metis
  let ?segs = "cut_log j segs"
  have lh: "length (header_bytes_of c ?pk lid ?L (prev_of c ?pk lid segs ?L)) = HEADER_LEN"
    by (rule length_header_bytes [OF key length_hashes(5) [OF key]])
  have cut: "take m (signed_file c ?pk lid segs ?L) = signed_file c ?pk lid ?segs ?L @ t"
    using jt(2) m lh L(2) cut_log_file(4) [OF ne, of c ?pk lid j] by (simp add: signed_file_def)
  have f4: "signed_file c ?pk lid ?segs ?L =
      header_bytes_of c ?pk lid ?L (prev_of c ?pk lid segs ?L) @ concat (map srec_frame (take j (last segs)))"
    by (rule cut_log_file(4) [OF ne])
  have content: "regular_file ?d1 (of_nat ?L) = Some (signed_file c ?pk lid ?segs ?L @ t)" using dir(4) cut by simp
  have parts: "HEADER_LEN \<le> length (signed_file c ?pk lid ?segs ?L @ t)"
    "take HEADER_LEN (signed_file c ?pk lid ?segs ?L @ t) = header_bytes_of c ?pk lid ?L (prev_of c ?pk lid segs ?L)"
    "drop HEADER_LEN (signed_file c ?pk lid ?segs ?L @ t) = concat (map srec_frame (take j (last segs))) @ t"
    using f4 lh by simp_all
  have ok: "srecs_ok c ?pk ?L 0 (sseg_start c ?pk lid ?L (prev_of c ?pk lid segs ?L)) (take j (last segs))"
    using srecs_ok_take [OF chain [OF L(1)], of j] L(2) start by simp
  obtain h0 hb where h0: "signed_read_header c ?d1 0 = Ok (h0, hb)" "h0 = key_header c ?pk lid 0 (prev_of c ?pk lid segs 0)"
  proof -
    obtain co where co: "regular_file ?d1 (of_nat 0) = Some co" "HEADER_LEN \<le> length co"
      "take HEADER_LEN co = header_bytes_of c ?pk lid 0 (prev_of c ?pk lid segs 0)"
      using dir(5) [of 0] ne by auto
    then show ?thesis
      using read_log_header [OF key length_hashes(5) [OF key] _ co] that by simp
  qed
  have h0': "sh_log_id h0 = lid" "check_header_key c h0 ?pk 0 = Ok ()"
    by (simp_all add: h0(2) signed_header_new_def check_header_key_def)
  define d2 where "d2 = (if t \<noteq> [] then node_put (of_nat ?L) (signed_file c ?pk lid ?segs ?L) ?d1 else ?d1)"
  obtain s off where scan: "scan_segment c (of_nat ?L) h0 ?pk True ?d1 = (d2, Ok s)"
    "s = \<lparr>ssc_records = of_nat (length (take j (last segs))),
        ssc_end = HEADER_LEN + length (concat (map srec_frame (take j (last segs)))), ssc_truncated = length t,
        ssc_last_hash = hash_after c (sseg_start c ?pk lid ?L (prev_of c ?pk lid segs ?L)) (take j (last segs)),
        ssc_last = (if take j (last segs) = [] then None
          else Some (raw_of off (last (take j (last segs))), fst (last (take j (last segs)))))\<rparr>"
    using scan_segment_log [OF key length_hashes(5) [OF key] len(2) content parts ok jt(3) h0'(1), of True]
    unfolding d2_def f4 by auto
  have files2: "signed_files c ?pk lid ?segs d2"
  proof (rule cut_log_files [OF files ne])
    show "distinct (map fst d2)" using dir(1) by (simp add: d2_def node_put_def distinct_update)
    have "fst (list_segments ?d1) = fst (list_segments d)" using dir(2) files by (simp add: signed_files_def)
    moreover have "fst (list_segments d2) = fst (list_segments ?d1)"
      using content by (simp add: d2_def listing_put_old)
    ultimately show "fst (list_segments d2) = fst (list_segments d)" by simp
    show "regular_file d2 (of_nat n) = regular_file d (of_nat n)" if "Suc n < length segs" for n
    proof -
      have "(of_nat n :: u16) \<noteq> of_nat ?L" using of_nat_u16_inject [of n ?L] that len by simp
      then show ?thesis using that dir(3) files by (simp add: d2_def regular_put signed_files_def)
    qed
    show "regular_file d2 (of_nat ?L) = Some (signed_file c ?pk lid ?segs ?L)"
      using content by (simp add: d2_def regular_put)
  qed
  have time: "resume_time c h0 ?pk (of_nat ?L) s d2 = Ok (log_last ?segs)"
    by (rule resume_time_log [OF key rolled chain files2 jt(1) few _ _ h0'(1), where off = off]) (use jt(1) in \<open>simp_all add: scan(2)\<close>)
  have hdl: "hd (fst (list_segments ?d1)) = 0" "last (fst (list_segments ?d1)) = of_nat ?L" "fst (list_segments ?d1) \<noteq> []"
    using dir(2) ne by (simp_all add: hd_map last_map)
  have run': "open_existing c sg sid cfg nonces (fst (list_segments ?d1)) ?d1 = (d', res)"
    using run hdl(3) dir(6) by (simp add: open_inner_def Let_def)
  have event: "scan_last_event s = Some e \<longleftrightarrow> closed_by (take j (last segs)) e" for e
    by (simp add: scan(2) scan_last_event_def closed_by_def)
  have at: "seg_at c ?pk lid ?segs = \<lparr>sgm_index = of_nat ?L, sgm_bytes_written = ssc_end s, sgm_last_hash = ssc_last_hash s,
      sgm_next_record_id = ssc_records s\<rparr>"
    using prev_of_length [OF cut_log_nth(5) [OF ne], of c ?pk lid j] cut_log_nth(1,2) [OF ne] f4 lh
      cut_log_file(2) [OF ne L(1), of c ?pk lid j] start
    by (simp add: seg_at_def scan(2))
  have base: "sw_base c ?segs (sw, d2)"
    if "sw_signer sw = sg" "sw_session_id sw = sid" "sw_log_id sw = lid" "sw_current sw = seg_at c ?pk lid ?segs"
      "sw_last_ts sw = log_last ?segs" "sw_nonces sw = nonces" for sw
    unfolding sw_base_def Let_def prod.case that
    using key sg sid nonces files2 cut_log_chain [OF ne chain] cut_log_nth(1) [OF ne] cut_log_rolled [OF rolled] by simp
  have "(if closed_by (take j (last segs)) EVENT_SEALED then res = Err SWSealed
     else if closed_by (take j (last segs)) EVENT_FINALIZED then
       length segs < 10000 \<longrightarrow> (\<exists>sw. res = Ok sw \<and> sw_at c (?segs @ [[]]) (sw, d') \<and> sw_signer sw = sg \<and>
         sw_log_id sw = lid \<and> \<not> sw_sealed sw \<and> rep_action (sw_recovery sw) = OpenedNextAfterFinalized \<and>
         rep_truncated_bytes (sw_recovery sw) = length t)
     else \<exists>sw. res = Ok sw \<and> sw_at c ?segs (sw, d') \<and> sw_signer sw = sg \<and> sw_log_id sw = lid \<and>
       \<not> sw_sealed sw \<and> rep_action (sw_recovery sw) = (if t = [] then Resumed else Repaired) \<and>
       rep_truncated_bytes (sw_recovery sw) = length t)"
  proof (cases "closed_by (take j (last segs)) EVENT_SEALED")
    case True
    then show ?thesis
      using run' scan(1) time event [of EVENT_SEALED] by (simp add: open_existing_def Let_def hdl h0(1) h0'(2))
  next
    case unsealed: False
    show ?thesis
    proof (cases "closed_by (take j (last segs)) EVENT_FINALIZED")
      case False
      define action where "action = (if t = [] then Resumed else Repaired)"
      have seg: "resume_segment c ?pk (sh_log_id h0) (of_nat ?L) s d2 = (d2, Ok (seg_at c ?pk lid ?segs, action))"
        using False event [of EVENT_FINALIZED] unfolding resume_segment_def at action_def by (simp add: scan(2))
      obtain sw where sw: "res = Ok sw" "d' = d2" "sw_signer sw = sg" "sw_session_id sw = sid" "sw_log_id sw = lid"
        "sw_current sw = seg_at c ?pk lid ?segs" "sw_last_ts sw = log_last ?segs" "sw_nonces sw = nonces" "\<not> sw_sealed sw"
        "rep_action (sw_recovery sw) = action" "rep_truncated_bytes (sw_recovery sw) = ssc_truncated s"
        using run' scan(1) time event [of EVENT_SEALED] unsealed seg
        by (auto simp: open_existing_def Let_def hdl h0(1) h0' split: if_splits)
      have "sw_at c ?segs (sw, d')"
        using base [OF sw(3-8)] unsealed False cut_log_nth(2) [OF ne] sw(2) by (simp add: sw_at_def)
      then show ?thesis using sw unsealed False by (simp add: action_def scan(2))
    next
      case True
      have "\<exists>sw. res = Ok sw \<and> sw_at c (?segs @ [[]]) (sw, d') \<and> sw_signer sw = sg \<and>
         sw_log_id sw = lid \<and> \<not> sw_sealed sw \<and> rep_action (sw_recovery sw) = OpenedNextAfterFinalized \<and>
         rep_truncated_bytes (sw_recovery sw) = length t" if small: "length segs < 10000"
      proof -
        define w where "w cur rp = \<lparr>sw_signer = sg, sw_session_id = sid, sw_config = cfg, sw_log_id = lid,
            sw_current = cur, sw_last_ts = log_last ?segs, sw_sealed = False, sw_recovery = rp, sw_nonces = nonces\<rparr>" for cur rp
        have b: "sw_base c ?segs (w (seg_at c ?pk lid ?segs) rp, d2)" for rp by (rule base) (simp_all add: w_def)
        have closed: "closed_by (last ?segs) EVENT_FINALIZED" using True cut_log_nth(2) [OF ne] by simp
        have "length ?segs < 10000" using small cut_log_nth(1) [OF ne] by simp
        note new = sw_base_new_segment [OF b closed this]
        have hash: "ssc_last_hash s = prev_of c ?pk lid ?segs (length ?segs)"
          using at cut_log_nth(1) [OF ne] by (simp add: seg_at_def)
        have i: "unat (of_nat ?L :: u16) \<noteq> 2 ^ 16 - 1" "of_nat ?L + (1 :: u16) = of_nat (length ?segs)"
          using of_nat_u16(1) [OF len(2)] small ne cut_log_nth(1) [OF ne, of j] by (cases "length segs"; simp)+
        obtain seg d3 where seg: "signed_create_segment c (of_nat (length ?segs)) lid ?pk (ssc_last_hash s) d2 = (d3, Ok seg)"
          using new [of undefined] by (auto simp: w_def hash)
        then have at3: "sw_base c (?segs @ [[]]) (w seg rp, d3)" for rp
          using new [of rp] by (auto simp: w_def hash)
        have rs: "resume_segment c ?pk (sh_log_id h0) (of_nat ?L) s d2 = (d3, Ok (seg, OpenedNextAfterFinalized))"
          using True event [of EVENT_FINALIZED] i seg unfolding resume_segment_def h0'(1) by simp
        obtain rp where "res = Ok (w seg rp)" "d' = d3" "rep_action rp = OpenedNextAfterFinalized"
          "rep_truncated_bytes rp = ssc_truncated s"
          using run' scan(1) time event [of EVENT_SEALED] unsealed rs
          by (auto simp: open_existing_def Let_def hdl h0(1) h0' w_def split: if_splits)
        moreover have "sw_at c (?segs @ [[]]) (w seg rp, d3)" using at3 by (simp add: sw_at_def closed_by_def)
        ultimately show ?thesis by (simp add: w_def scan(2))
      qed
      then show ?thesis using True unsealed by simp
    qed
  qed
  then show ?thesis using jt(1,3) cut by blast
qed

end
