(* ===== verification/Signed_System.thy ===== *)
theory Signed_System
  imports Signed_Reopen Signed_Verify_Properties
begin

text \<open>
  The life of a signed log: a first open in a directory without segments, appends and seals, and
  crashes, after which the last file is cut anywhere or the newest file is missing, each followed by
  another open. Every reachable directory holds the files of a log, so it verifies.
\<close>

section \<open>Times\<close>

definition srec_ms :: "srec \<Rightarrow> int option" where
  "srec_ms r = parse_rfc3339_millis (en_ts_wall (fst r))"

text \<open>The times of a log are what the verifier accepts, and each can be read.\<close>

definition log_timed :: "srec list \<Rightarrow> bool" where
  "log_timed recs \<longleftrightarrow> times_ok None (raws_of 0 recs) \<and> (\<forall>r \<in> set recs. srec_ms r \<noteq> None)"

lemma times_ok_cong: "map snd xs = map snd ys \<Longrightarrow> times_ok t xs = times_ok t ys"
proof (induction xs arbitrary: ys t)
  case (Cons x xs)
  then obtain y ys' where "ys = y # ys'" by (cases ys) auto
  then show ?case using Cons by (cases x; cases y) auto
qed simp

lemma last_time_snoc: "last_time t (raws_of n (recs @ [r])) =
    (case srec_ms r of None \<Rightarrow> last_time t (raws_of n recs) | Some ms \<Rightarrow> Some ms)"
  by (simp add: raws_of_append last_time_def next_time_def srec_ms_def split: option.split)

lemma log_timed_snoc:
  assumes "log_timed recs" "srec_ms r = Some ms"
    and "\<And>a. recs \<noteq> [] \<Longrightarrow> srec_ms (last recs) = Some a \<Longrightarrow> a - ms \<le> MAX_TS_DRIFT_MS"
  shows "log_timed (recs @ [r])"
proof -
  have "last_time None (raws_of 0 recs) = (if recs = [] then None else srec_ms (last recs))"
  proof (cases recs rule: rev_cases)
    case (snoc ys y)
    then show ?thesis using assms(1) last_time_snoc [of None 0 ys y] by (auto simp: log_timed_def split: option.splits)
  qed (simp add: last_time_def)
  then have "time_ok (last_time None (raws_of 0 recs)) (fst r)"
    using assms(2,3) by (auto simp: time_ok_def srec_ms_def split: option.splits)
  then show ?thesis using assms(1,2) by (auto simp: log_timed_def raws_of_append times_ok_append raw_of_def)
qed

lemma log_timed_prefix: "log_timed (xs @ ys) \<Longrightarrow> log_timed xs"
  by (auto simp: log_timed_def raws_of_append times_ok_append)

text \<open>The end of the year 9999, after which a time cannot be written in the format.\<close>

definition TIME_END :: int where "TIME_END = 253402300799999"

text \<open>A clock that does not fall back: the new time is later than the last one, or earlier by less than
  the slack of the verifier.\<close>

definition clock_ok :: "signed_writer \<Rightarrow> int \<Rightarrow> bool" where
  "clock_ok sw ms \<longleftrightarrow> (\<forall>ts delta a. sw_last_ts sw = Some (ts, delta) \<and> parse_rfc3339_millis ts = Some a \<longrightarrow>
     - 62135596800000 \<le> a \<and> a < TIME_END \<and> a + 1 - ms \<le> MAX_TS_DRIFT_MS)"

lemma next_ms_time:
  assumes "next_ms segs r" "log_timed (concat segs)" "sw_last_ts sw = log_last segs" "clock_ok sw ms"
  obtains a where "srec_ms (last (concat segs)) = Some a" "srec_ms r = Some (a + 1)" "concat segs \<noteq> []"
    "a + 1 - ms \<le> MAX_TS_DRIFT_MS"
proof -
  have ne: "concat segs \<noteq> []"
    and b: "(en_ts_wall (fst r), en_ts_mono_delta (fst r)) =
      bump_ms (en_ts_wall (fst (last (concat segs)))) (en_ts_mono_delta (fst (last (concat segs))))"
    and l: "sw_last_ts sw = Some (en_ts_wall (fst (last (concat segs))), en_ts_mono_delta (fst (last (concat segs))))"
    using assms(1,3) by (auto simp: next_ms_def log_last_def split: if_splits)
  have "last (concat segs) \<in> set (concat segs)" using ne by (rule last_in_set)
  then obtain a where a: "srec_ms (last (concat segs)) = Some a"
    using assms(2) unfolding log_timed_def by blast
  then have bounds: "- 62135596800000 \<le> a + 1" "a + 1 < 253402300800000" "a + 1 - ms \<le> MAX_TS_DRIFT_MS"
    using assms(4) l by (auto simp: clock_ok_def srec_ms_def TIME_END_def)
  have "en_ts_wall (fst r) = rfc3339_from_millis (a + 1)"
    using b a by (simp add: bump_ms_def srec_ms_def unwrap_or_def)
  then have "srec_ms r = Some (a + 1)"
    using rfc3339_round_trip_range [OF bounds(1,2)] by (auto simp: srec_ms_def)
  then show ?thesis using that a ne bounds(3) by blast
qed

section \<open>The first open\<close>

lemma open_fresh_at:
  assumes key: "key_good c (sg_public_key sg) fresh" and sg: "signer_ok sg" and sid: "length sid = 16"
    and nonces: "\<forall>x \<in> sset nonces. length x = 32"
    and d0: "distinct (map fst d0)" "fst (list_segments d0) = []"
  shows "\<exists>sw d. open_inner c sg sid cfg fresh nonces d0 = (d, Ok sw) \<and> sw_at c [[]] (sw, d) \<and> sw_signer sw = sg \<and>
    \<not> sw_sealed sw \<and> sw_log_id sw = fresh \<and> sw_last_ts sw = None"
proof -
  let ?pk = "sg_public_key sg"
  let ?h = "header_bytes_of c ?pk fresh 0 (replicate 32 0)"
  let ?seg = "\<lparr>sgm_index = 0, sgm_bytes_written = HEADER_LEN, sgm_last_hash = chain_start c ?h, sgm_next_record_id = 0\<rparr>"
  let ?sw = "\<lparr>sw_signer = sg, sw_session_id = sid, sw_config = cfg, sw_log_id = fresh, sw_current = ?seg, sw_last_ts = None,
      sw_sealed = False, sw_recovery = fresh_report (chain_start c ?h), sw_nonces = nonces\<rparr>"
  have none: "fst (list_segments d0) = map of_nat [0..<0]" using d0(2) by simp
  note new = listing_put_new [OF none, simplified]
  have run: "open_inner c sg sid cfg fresh nonces d0 = (node_put 0 ?h d0, Ok ?sw)"
    using d0(2) new(1) by (simp add: open_inner_def open_fresh_def signed_create_segment_def Let_def header_bytes_of_def)
  have lh: "length ?h = HEADER_LEN" by (rule length_header_bytes [OF key]) simp
  have content: "signed_file c ?pk fresh [[]] 0 = ?h" by (simp add: signed_file_def)
  have "signed_files c ?pk fresh [[]] (node_put 0 ?h d0)"
    using d0(1) new(2) content by (simp add: signed_files_def regular_put) (simp add: node_put_def distinct_update)
  moreover have "?seg = seg_at c ?pk fresh [[]]"
    using lh content by (simp add: seg_at_def hash_after_def sseg_start_def)
  ultimately have "sw_base c [[]] (?sw, node_put 0 ?h d0)"
    using key sg sid nonces by (simp add: sw_base_def Let_def rolled_def log_last_def)
  then have "sw_at c [[]] (?sw, node_put 0 ?h d0)" by (simp add: sw_at_def closed_by_def)
  then show ?thesis using run by (intro exI [of _ ?sw] exI [of _ "node_put 0 ?h d0"]) simp
qed

section \<open>A lost file\<close>

lemma mset_map_filter_remove:
  "distinct names \<Longrightarrow> k \<in> set names \<Longrightarrow> f k = Some i \<Longrightarrow>
   mset (List.map_filter f names) = add_mset i (mset (List.map_filter f (filter (\<lambda>x. k \<noteq> x) names)))"
proof (induction names)
  case (Cons x names)
  show ?case
  proof (cases "x = k")
    case True
    then have "filter (\<lambda>x. k \<noteq> x) names = names" using Cons.prems(1) by (auto simp: filter_id_conv)
    then show ?thesis using True Cons.prems(3) by (simp add: List.map_filter_simps)
  next
    case False
    then show ?thesis using Cons by (simp add: List.map_filter_simps split: option.split)
  qed
qed simp

lemma listing_delete:
  assumes "distinct (map fst d)" "fst (list_segments d) = map of_nat [0..<Suc n]" "n < 10000"
  shows "fst (list_segments (AList.delete (segment_path (of_nat n)) d)) = map of_nat [0..<n]"
proof -
  let ?f = "\<lambda>name. if valid_utf8 name then segment_index name else None" and ?k = "segment_path (of_nat n)"
  have u: "unat (of_nat m :: u16) = m" if "m < 65536" for m using that by (simp add: unat_of_nat)
  have "(of_nat n :: u16) \<in> set (fst (list_segments d))" using assms(2) by simp
  then have "?k \<in> fst ` set d" by (simp only: in_listing [OF assms(3)])
  then have k: "?k \<in> set (map fst d)" by simp
  have f: "?f ?k = Some (of_nat n)" using u [of n] assms(3) by (simp add: signed_listing)
  have "mset (fst (list_segments d)) = mset (List.map_filter ?f (map fst d))" by (simp add: listing_keys)
  then have "mset (List.map_filter ?f (map fst d)) = mset (map of_nat [0..<Suc n])" using assms(2) by simp
  moreover have "mset (map of_nat [0..<Suc n] :: u16 list) = add_mset (of_nat n) (mset (map of_nat [0..<n]))" by simp
  ultimately have "mset (List.map_filter ?f (filter (\<lambda>x. ?k \<noteq> x) (map fst d))) = mset (map of_nat [0..<n] :: u16 list)"
    using mset_map_filter_remove [OF assms(1) k, of ?f, OF f] by simp
  moreover have "sorted (map of_nat [0..<n] :: u16 list)"
    unfolding sorted_map
  proof (rule sorted_wrt_mono_rel [OF _ sorted_wrt_upt])
    fix x y assume "x \<in> set [0..<n]" "y \<in> set [0..<n]" "x < y"
    then have "x < 65536" "y < 65536" "x \<le> y" using assms(3) by auto
    then show "(of_nat x :: u16) \<le> of_nat y" by (simp only: word_le_nat_alt u)
  qed
  ultimately have "sort (List.map_filter ?f (filter (\<lambda>x. ?k \<noteq> x) (map fst d))) = map of_nat [0..<n]"
    by (intro properties_for_sort) simp_all
  moreover have "map fst (AList.delete ?k d) = filter (\<lambda>x. ?k \<noteq> x) (map fst d)"
    by (simp add: AList.delete_eq filter_map comp_def case_prod_unfold)
  ultimately show ?thesis by (simp only: listing_keys)
qed

lemma lost_file:
  assumes files: "signed_files c pk lid segs d" and "2 \<le> length segs"
  shows "signed_files c pk lid (butlast segs) (AList.delete (segment_path (of_nat (length segs - 1))) d)"
proof -
  obtain n where n: "length segs = Suc (Suc n)" using assms(2) by (metis Suc_le_D numeral_2_eq_2 not_less_eq_eq Suc_1)
  let ?d = "AList.delete (segment_path (of_nat (Suc n))) d"
  have len: "Suc n < 10000" using files n by (simp add: signed_files_def)
  have keep: "regular_file ?d (of_nat m) = regular_file d (of_nat m)" if "m < Suc n" for m
  proof -
    have "segment_path (of_nat m) \<noteq> segment_path (of_nat (Suc n))"
      using segment_path_inject of_nat_u16_inject [of m "Suc n"] that len by simp
    then show ?thesis by (simp add: delete_conv')
  qed
  have "signed_file c pk lid (butlast segs) m = signed_file c pk lid segs m" if "m < Suc n" for m
    by (rule file_cong(1)) (use that n in \<open>simp add: nth_butlast\<close>)
  moreover have "regular_file d (of_nat m) = Some (signed_file c pk lid segs m)" if "m < Suc n" for m
    using files that n by (simp add: signed_files_def)
  moreover have "fst (list_segments ?d) = map of_nat [0..<Suc n]"
    by (rule listing_delete) (use files n len in \<open>simp_all add: signed_files_def\<close>)
  moreover have "distinct (map fst ?d)"
    using files by (simp add: signed_files_def AList.delete_eq distinct_map_filter case_prod_unfold)
  ultimately show ?thesis using n len keep by (simp add: signed_files_def)
qed

section \<open>Crashes\<close>

text \<open>The file of segment \<open>i\<close> is cut, anywhere.\<close>

definition torn :: "u16 \<Rightarrow> node_dir \<Rightarrow> node_dir \<Rightarrow> bool" where
  "torn i d d1 \<longleftrightarrow> (\<exists>content m. regular_file d i = Some content \<and> length content < 2 ^ 63 \<and>
     d1 = node_put i (take m content) d)"

text \<open>A crash while segment \<open>i\<close> was the current one: its file is cut, or it did not reach the disk and the
  one before is cut.\<close>

definition after_crash :: "u16 \<Rightarrow> node_dir \<Rightarrow> node_dir \<Rightarrow> bool" where
  "after_crash i d d1 \<longleftrightarrow> torn i d d1 \<or> (0 < i \<and> torn (i - 1) (AList.delete (segment_path i) d) d1)"

text \<open>A file cut within its header is refused.\<close>

lemma short_file_refused:
  assumes "fst (list_segments d) \<noteq> []" "regular_file d (last (fst (list_segments d))) = Some content"
    and "length content < HEADER_LEN"
  shows "open_inner c sg sid cfg fresh nonces d \<noteq> (d', Ok sw)"
proof -
  have "signed_read_header c d (last (fst (list_segments d))) =
      Err (SWRecovery (SRecHeaderCorrupt (last (fst (list_segments d))) (TooShort (length content))))"
    using assms(2,3) by (simp add: signed_read_header_def Let_def)
  then have "scan_segment c (last (fst (list_segments d))) h0 pk True d =
      (d, Err (SWRecovery (SRecHeaderCorrupt (last (fst (list_segments d))) (TooShort (length content)))))" for h0 pk
    by (simp add: scan_segment_def)
  then show ?thesis
    using assms(1) by (auto simp: open_inner_def open_existing_def Let_def split: option.splits result.splits)
qed

text \<open>A reopened log is a part of the log before the crash.\<close>

lemma reopen_torn:
  assumes key: "key_good c (sg_public_key sg) lid" and sg: "signer_ok sg" and sid: "length sid = 16"
    and nonces: "\<forall>x \<in> sset nonces. length x = 32"
    and files: "signed_files c (sg_public_key sg) lid segs d" and rolled: "rolled segs"
    and chain: "\<And>n. n < length segs \<Longrightarrow> srecs_ok c (sg_public_key sg) n 0 (start_of c (sg_public_key sg) lid segs n) (segs ! n)"
    and torn: "torn (of_nat (length segs - 1)) d d1" and few: "length segs < 10000"
    and run: "open_inner c sg sid cfg fresh nonces d1 = (d', Ok sw)"
  shows "\<exists>segs' rest. concat segs = concat segs' @ rest \<and> sw_at c segs' (sw, d') \<and> sw_signer sw = sg \<and> sw_log_id sw = lid"
proof -
  let ?pk = "sg_public_key sg" and ?L = "length segs - 1"
  have ne: "segs \<noteq> []" using rolled by (simp add: rolled_def)
  then have L: "?L < length segs" "segs ! ?L = last segs" by (simp_all add: last_conv_nth)
  have content: "regular_file d (of_nat ?L) = Some (signed_file c ?pk lid segs ?L)"
    using files L(1) by (simp only: signed_files_def)
  then obtain m where m: "d1 = crash_cut c ?pk lid segs m d" "length (signed_file c ?pk lid segs ?L) < 2 ^ 63"
    using torn by (auto simp: torn_def crash_cut_def)
  have small: "length (last segs) < 2 ^ 64"
    using m(2) frames_longer [of "last segs"] L(2) by (simp add: signed_file_def)
  have "HEADER_LEN \<le> m"
  proof (rule ccontr)
    assume short: "\<not> HEADER_LEN \<le> m"
    have "fst (list_segments d1) = map of_nat [0..<length segs]"
      using listing_put_old content files by (simp add: m(1) crash_cut_def signed_files_def)
    moreover from this have "last (fst (list_segments d1)) = of_nat ?L" using ne by (simp add: last_map)
    moreover have "regular_file d1 (of_nat ?L) = Some (take m (signed_file c ?pk lid segs ?L))"
      by (simp add: m(1) crash_cut_def regular_put)
    ultimately have "open_inner c sg sid cfg fresh nonces d1 \<noteq> (d', Ok sw)"
      using short ne by (intro short_file_refused [where content = "take m (signed_file c ?pk lid segs ?L)"]) simp_all
    then show False using run by simp
  qed
  from open_cut [OF key sg sid nonces files rolled chain this small run [unfolded m(1)]]
  obtain j where j: "sw_at c (cut_log j segs @ [[]]) (sw, d') \<or> sw_at c (cut_log j segs) (sw, d')" "sw_signer sw = sg" "sw_log_id sw = lid"
    using few by (auto split: if_splits)
  have "concat segs = concat (cut_log j segs) @ drop j (last segs)"
    using ne by (cases segs rule: rev_cases) (simp_all add: cut_log_def)
  moreover have "concat (cut_log j segs @ [[]]) = concat (cut_log j segs)" by simp
  ultimately show ?thesis using j by metis
qed

section \<open>Reachable states\<close>

inductive signed_reach :: "('p, 's) crypto \<Rightarrow> signed_writer \<times> node_dir \<Rightarrow> bool" for c where
  opened: "distinct (map fst d0) \<Longrightarrow> fst (list_segments d0) = [] \<Longrightarrow> key_good c (sg_public_key sg) fresh \<Longrightarrow>
    signer_ok sg \<Longrightarrow> length sid = 16 \<Longrightarrow> (\<forall>x \<in> sset nonces. length x = 32) \<Longrightarrow>
    open_inner c sg sid cfg fresh nonces d0 = (d, Ok sw) \<Longrightarrow> signed_reach c (sw, d)"
| appended: "signed_reach c (sw, d) \<Longrightarrow> unat (sgm_index (sw_current sw)) < 9999 \<Longrightarrow>
    sgm_bytes_written (sw_current sw) < 2 ^ 63 \<Longrightarrow> sinput_ok input \<Longrightarrow>
    (\<And>ms. parse_rfc3339_millis (in_ts_wall input) = Some ms \<Longrightarrow> clock_ok sw ms) \<Longrightarrow>
    signed_append c input (sw, d) = (wd', res) \<Longrightarrow> signed_reach c wd'"
| sealed: "signed_reach c (sw, d) \<Longrightarrow> sgm_bytes_written (sw_current sw) < 2 ^ 63 \<Longrightarrow> clock_ok sw ms \<Longrightarrow>
    signed_seal c (sw, d) = (wd', res) \<Longrightarrow> signed_reach c wd'"
| reopened: "signed_reach c (sw, d) \<Longrightarrow> unat (sgm_index (sw_current sw)) < 9999 \<Longrightarrow>
    after_crash (sgm_index (sw_current sw)) d d1 \<Longrightarrow> length sid = 16 \<Longrightarrow> (\<forall>x \<in> sset nonces. length x = 32) \<Longrightarrow>
    open_inner c (sw_signer sw) sid cfg fresh nonces d1 = (d', Ok sw') \<Longrightarrow> signed_reach c (sw', d')"

definition holds_log :: "('p, 's) crypto \<Rightarrow> signed_writer \<times> node_dir \<Rightarrow> bool" where
  "holds_log c wd \<longleftrightarrow> (\<exists>segs. sw_at c segs wd \<and> log_timed (concat segs))"

lemma sw_index:
  assumes "sw_base c segs (sw, d)"
  shows "sgm_index (sw_current sw) = of_nat (length segs - 1)" "unat (sgm_index (sw_current sw)) = length segs - 1"
proof -
  note b = sw_base_parts [OF assms]
  show "sgm_index (sw_current sw) = of_nat (length segs - 1)" using b(8) by (simp add: seg_at_def)
  moreover have "length segs \<le> 10000" using b(5) by (simp add: signed_files_def)
  then have "length segs - 1 < 65536" by linarith
  ultimately show "unat (sgm_index (sw_current sw)) = length segs - 1" by (simp only: of_nat_u16)
qed

lemma append_holds_log:
  assumes "holds_log c (sw, d)" "unat (sgm_index (sw_current sw)) < 9999" "sgm_bytes_written (sw_current sw) < 2 ^ 63"
    and "sinput_ok input" "\<And>ms. parse_rfc3339_millis (in_ts_wall input) = Some ms \<Longrightarrow> clock_ok sw ms"
    and run: "signed_append c input (sw, d) = (wd', res)"
  shows "holds_log c wd'"
proof (cases "parse_rfc3339_millis (in_ts_wall input)")
  case None
  then have "wd' = (sw, d)"
    using run by (auto simp: signed_append_def sw_then_def signed_validate_def Let_def split: if_splits)
  then show ?thesis using assms(1) by simp
next
  case (Some ms)
  then have clock: "clock_ok sw ms" by (rule assms(5))
  obtain segs where segs: "sw_at c segs (sw, d)" "log_timed (concat segs)" using assms(1) by (auto simp: holds_log_def)
  then have base: "sw_base c segs (sw, d)" by (simp add: sw_at_def)
  have "length segs < 10000" using assms(2) sw_index(2) [OF base] by simp
  from append_step [OF segs(1) assms(3) this assms(4) run]
  obtain segs1 segs' where s: "segs1 = segs \<or> rolls segs segs1" "sw_at c segs' wd'"
    "segs' = segs1 \<or> (\<exists>r. records_input input r \<and> segs' = add_rec segs1 r)"
    by (cases res) (auto simp del: split_paired_Ex)
  have ne: "segs \<noteq> []" "segs1 \<noteq> []" using s(1) sw_base_parts(10) [OF base] by (auto simp: rolls_def)
  have one: "log_timed (concat segs1) \<and> (\<forall>a. concat segs1 \<noteq> [] \<and> srec_ms (last (concat segs1)) = Some a \<longrightarrow> a - ms \<le> MAX_TS_DRIFT_MS)"
    using s(1)
  proof
    assume "segs1 = segs"
    then show ?thesis
      using segs(2) clock sw_base_parts(9) [OF base] by (force simp: clock_ok_def log_last_def srec_ms_def)
  next
    assume "rolls segs segs1"
    then obtain f where f: "next_ms segs f" "segs1 = add_rec segs f @ [[]]" by (auto simp: rolls_def)
    obtain a where a: "srec_ms (last (concat segs)) = Some a" "srec_ms f = Some (a + 1)" "a + 1 - ms \<le> MAX_TS_DRIFT_MS"
      using next_ms_time [OF f(1) segs(2) sw_base_parts(9) [OF base] clock] by blast
    have "concat segs1 = concat segs @ [f]" using f(2) add_rec_nth(5) [OF ne(1)] by simp
    then show ?thesis
      using log_timed_snoc [OF segs(2) a(2)] a by (simp add: MAX_TS_DRIFT_MS_def)
  qed
  from s(3) have "log_timed (concat segs')"
  proof
    assume "\<exists>r. records_input input r \<and> segs' = add_rec segs1 r"
    then obtain r where r: "records_input input r" "segs' = add_rec segs1 r" by blast
    then have "srec_ms r = Some ms" using Some by (auto simp: records_input_def srec_ms_def)
    then show ?thesis using log_timed_snoc [of "concat segs1" r ms] one add_rec_nth(5) [OF ne(2), of r] r(2) by simp
  qed (use one in simp)
  then show ?thesis using s(2) by (auto simp: holds_log_def)
qed

lemma seal_holds_log:
  assumes "holds_log c (sw, d)" "sgm_bytes_written (sw_current sw) < 2 ^ 63" "clock_ok sw ms"
    and run: "signed_seal c (sw, d) = (wd', res)"
  shows "holds_log c wd'"
proof -
  obtain segs where segs: "sw_at c segs (sw, d)" "log_timed (concat segs)" using assms(1) by (auto simp: holds_log_def)
  then have base: "sw_base c segs (sw, d)" by (simp add: sw_at_def)
  from seal_step [OF segs(1) assms(2) run]
  obtain segs' where s: "sw_at c segs' wd'" "segs' = segs \<or> (\<exists>r. next_ms segs r \<and> segs' = add_rec segs r)"
    by (cases res) (auto simp del: split_paired_Ex)
  from s(2) have "log_timed (concat segs')"
  proof
    assume "\<exists>r. next_ms segs r \<and> segs' = add_rec segs r"
    then obtain r where r: "next_ms segs r" "segs' = add_rec segs r" by blast
    obtain a where a: "srec_ms (last (concat segs)) = Some a" "srec_ms r = Some (a + 1)"
      using next_ms_time [OF r(1) segs(2) sw_base_parts(9) [OF base] assms(3)] by blast
    then show ?thesis
      using log_timed_snoc [OF segs(2) a(2)] r(2) add_rec_nth(5) [OF sw_base_parts(10) [OF base], of r]
      by (simp add: MAX_TS_DRIFT_MS_def)
  qed (use segs(2) in simp)
  then show ?thesis using s(1) by (auto simp: holds_log_def)
qed

lemma reopen_holds_log:
  assumes inv: "holds_log c (sw, d)" and "unat (sgm_index (sw_current sw)) < 9999"
    and crash: "after_crash (sgm_index (sw_current sw)) d d1" and sid: "length sid = 16"
    and nonces: "\<forall>x \<in> sset nonces. length x = 32"
    and run: "open_inner c (sw_signer sw) sid cfg fresh nonces d1 = (d', Ok sw')"
  shows "holds_log c (sw', d')"
proof -
  obtain segs where segs: "sw_at c segs (sw, d)" "log_timed (concat segs)" using inv by (auto simp: holds_log_def)
  then have base: "sw_base c segs (sw, d)" by (simp add: sw_at_def)
  note b = sw_base_parts [OF base] and i = sw_index [OF base]
  let ?pk = "writer_key sw" and ?lid = "sw_log_id sw"
  have few: "length segs < 10000" using assms(2) i(2) by simp
  have whole: "holds_log c (sw', d')" if "concat segs = concat segs0 @ rest0" "concat segs0 = concat segs' @ rest" "sw_at c segs' (sw', d')" for segs0 rest0 segs' rest
    using segs(2) that log_timed_prefix [of "concat segs'" "rest @ rest0"] by (auto simp: holds_log_def)
  from crash show ?thesis unfolding after_crash_def
  proof
    assume "torn (sgm_index (sw_current sw)) d d1"
    then have "torn (of_nat (length segs - 1)) d d1" using i(1) by simp
    from reopen_torn [OF b(1,2) sid nonces b(5,7,6) this few run] show ?thesis using whole [of segs "[]"] by auto
  next
    assume lost: "0 < sgm_index (sw_current sw) \<and>
      torn (sgm_index (sw_current sw) - 1) (AList.delete (segment_path (sgm_index (sw_current sw))) d) d1"
    then have "0 < length segs - 1" using i(2) by (simp add: word_less_nat_alt)
    then have two: "2 \<le> length segs" by simp
    obtain xs x where s: "segs = xs @ [x]" using b(10) by (cases segs rule: rev_cases) auto
    have xs: "xs \<noteq> []" using two s by auto
    have "signed_files c ?pk ?lid (butlast segs) (AList.delete (segment_path (of_nat (length segs - 1))) d)"
      by (rule lost_file [OF b(5) two])
    then have files: "signed_files c ?pk ?lid xs (AList.delete (segment_path (of_nat (length segs - 1))) d)" using s by simp
    have chain: "srecs_ok c ?pk n 0 (start_of c ?pk ?lid xs n) (xs ! n)" if n: "n < length xs" for n
    proof -
      have "start_of c ?pk ?lid xs n = start_of c ?pk ?lid segs n"
        by (rule file_cong(2)) (use n in \<open>simp add: s nth_append\<close>)
      then show ?thesis using b(6) [of n] n by (simp add: s nth_append)
    qed
    have "butlast (concat segs) = concat xs @ butlast x \<or> x = []" by (auto simp: s butlast_append)
    then have "set (butlast (concat xs)) \<subseteq> set (butlast (concat segs))"
      by (auto simp: s dest: in_set_butlastD)
    then have rolled: "rolled xs"
      using b(7) xs by (auto simp: rolled_def s dest: in_set_butlastD)
    have "(of_nat (length segs - 1) :: u16) - 1 = of_nat (length xs - 1)" using s xs by (cases xs) simp_all
    then have "torn (of_nat (length xs - 1)) (AList.delete (segment_path (of_nat (length segs - 1))) d) d1"
      using lost i(1) by simp
    from reopen_torn [OF b(1,2) sid nonces files rolled chain this _ run] few s
    obtain segs' rest where "concat xs = concat segs' @ rest" "sw_at c segs' (sw', d')" by auto
    then show ?thesis using whole [of xs x] s by simp
  qed
qed

lemma reach_holds_log: "signed_reach c wd \<Longrightarrow> holds_log c wd"
proof (induction rule: signed_reach.induct)
  case (opened d0 sg fresh sid nonces cfg d sw)
  then have "sw_at c [[]] (sw, d)" using open_fresh_at [OF opened.hyps(3-6,1,2), of cfg] by auto
  then show ?case by (auto simp: holds_log_def log_timed_def intro!: exI [of _ "[[]]"])
qed (blast intro: append_holds_log seal_holds_log reopen_holds_log)+

section \<open>Verification\<close>

lemma raws_events: "map (\<lambda>r. en_event (snd r)) (raws_of off recs) = map (\<lambda>r. en_event (fst r)) recs"
  using arg_cong [OF raws_of_map(1) [of off recs], of "map en_event"] by (simp add: comp_def)

lemma open_log_events:
  "open_log recs \<longleftrightarrow> EVENT_SEALED \<notin> set (butlast (map (\<lambda>r. en_event (snd r)) recs))"
  "seals recs \<longleftrightarrow> recs \<noteq> [] \<and> last (map (\<lambda>r. en_event (snd r)) recs) = EVENT_SEALED"
  by (force simp: open_log_def map_butlast [symmetric], auto simp: seals_def last_map)

lemma well_sealed_all:
  "well_sealed recss \<longleftrightarrow> (\<forall>recs \<in> set recss. open_log recs) \<and> (\<forall>recs \<in> set (butlast recss). \<not> seals recs)"
  by (induction recss) auto

lemma rolled_opens:
  assumes "rolled segs"
  shows "well_sealed (log_recs segs 0)" "open_log (concat (log_recs segs 0))"
proof -
  have events: "map (\<lambda>r. en_event (snd r)) (concat (log_recs segs 0)) = map (\<lambda>r. en_event (fst r)) (concat segs)"
    by (simp add: log_recs_def map_concat comp_def raws_events)
  have un: "EVENT_SEALED \<notin> set (butlast (map (\<lambda>r. en_event (fst r)) (concat segs)))"
    using assms by (auto simp: rolled_def map_butlast [symmetric])
  then show "open_log (concat (log_recs segs 0))" unfolding open_log_events events .
  have "open_log (raws_of HEADER_LEN recs)" if recs: "recs \<in> set segs" for recs
  proof -
    obtain xs ys where s: "segs = xs @ recs # ys" using recs by (auto simp: in_set_conv_decomp)
    have "set (butlast recs) \<subseteq> set (butlast (concat segs))"
      by (cases "concat ys = []") (auto simp: s butlast_append dest: in_set_butlastD)
    then have "\<forall>r \<in> set (butlast recs). en_event (fst r) \<noteq> EVENT_SEALED" using assms by (auto simp: rolled_def)
    then show ?thesis by (auto simp: open_log_events raws_events map_butlast [symmetric])
  qed
  moreover have "\<not> seals (raws_of HEADER_LEN recs)" if "recs \<in> set (butlast segs)" for recs
  proof -
    have "closed_by recs EVENT_FINALIZED" using that assms by (simp add: rolled_def)
    then show ?thesis
      using events_differ by (auto simp: open_log_events raws_events closed_by_def last_map raws_of_map)
  qed
  ultimately show "well_sealed (log_recs segs 0)"
    by (auto simp: well_sealed_all log_recs_def map_butlast [symmetric])
qed

lemma log_timed_recs: "log_timed (concat segs) \<Longrightarrow> times_ok None (concat (log_recs segs 0))"
  using times_ok_cong [of "raws_of 0 (concat segs)" "concat (log_recs segs 0)" None]
  by (simp add: log_timed_def log_recs_def map_concat comp_def raws_of_map)

lemma sw_at_genuine:
  assumes "sw_at c segs (sw, d)" "concat segs \<noteq> []"
  defines "h0 \<equiv> key_header c (writer_key sw) (sw_log_id sw) 0 (replicate 32 0)"
  assumes "ev_has_pins ev"
    and "\<And>n p h. \<exists>e. accept ev (fingerprint_of c (writer_key sw)) NS_RECORD (ORecord (sw_log_id sw) n p h) = Ok e"
  shows "genuine_log c ev d h0 (log_recs segs 0)"
proof -
  have base: "sw_base c segs (sw, d)" using assms(1) by (simp add: sw_at_def)
  note b = sw_base_parts [OF base]
  have "segs ! n \<noteq> []" if "Suc n < length segs" for n
  proof -
    have "segs ! n \<in> set (butlast segs)" using that by (simp add: nth_butlast [symmetric] del: nth_butlast)
    then show ?thesis using b(7) by (auto simp: rolled_def closed_by_def)
  qed
  then have ok: "signed_log_ok c (writer_key sw) (sw_log_id sw) segs" using b(6) by (simp add: signed_log_ok_def)
  have "all_accepted c ev h0 n p recs" for n p recs
    using assms(5) by (simp add: all_accepted_def accepted_def list_all_iff h0_def signed_header_new_def case_prod_unfold)
  then have "segments_of c ev d h0 0 (replicate 32 0) (map of_nat [0..<length segs]) (log_recs segs 0)"
    using files_segments [OF b(1,5) ok, of ev 0] by (simp add: h0_def)
  moreover have "map of_nat [0..<length segs] = fst (list_segments d)" using b(5) by (simp add: signed_files_def)
  moreover have "concat (log_recs segs 0) \<noteq> []" using assms(2) by (auto simp: log_recs_def raws_of_map)
  ultimately show ?thesis using assms(4) rolled_opens(2) [OF b(7)] by (simp add: genuine_log_def)
qed

lemma holds_log_verifies:
  assumes "holds_log c (sw, d)" "sw_last_ts sw \<noteq> None"
    and ev: "evaluate c ctx = Ok ev" "quiet ev (key_header c (writer_key sw) (sw_log_id sw) 0 (replicate 32 0))"
      "\<And>n p h. \<exists>e. accept ev (fingerprint_of c (writer_key sw)) NS_RECORD (ORecord (sw_log_id sw) n p h) = Ok e"
    and opts: "vo_attested opts = None" "vo_checkpoints opts = []"
      "\<And>i. vo_expect_log_id opts = Some i \<Longrightarrow> i = sw_log_id sw"
  shows "\<exists>r. signed_verify_with_options c log_dir d ctx opts = Ok r \<and> sr_verdict r = Verified"
proof -
  obtain segs where segs: "sw_at c segs (sw, d)" "log_timed (concat segs)" using assms(1) by (auto simp: holds_log_def)
  then have b: "rolled segs" "sw_last_ts sw = log_last segs" using sw_base_parts(7,9) by (auto simp: sw_at_def)
  then have "concat segs \<noteq> []" using assms(2) by (auto simp: log_last_def split: if_splits)
  note g = sw_at_genuine [OF segs(1) this _ ev(3)]
  have "ev_has_pins ev" using ev(2) by (simp add: quiet_def)
  from verify_with_checkpoints [of c ev d _ "log_recs segs 0" opts log_dir] g [OF this] rolled_opens(1) [OF b(1)]
    log_timed_recs [OF segs(2)] ev(2) opts
  have "\<exists>r. verify_signed_log c log_dir d ev opts = Ok r \<and> sr_verdict r = Verified"
    by (fastforce simp: genuine_log_def signed_header_new_def)
  then show ?thesis using ev(1) by (simp add: signed_verify_with_options_def)
qed

end
