(* ===== verification/Signed_Progress.thy ===== *)
theory Signed_Progress
  imports Signed_System
begin

text \<open>
  The signed writer makes progress: with a signer that signs, every input that passes the checks is
  recorded, and the limit on the length of an envelope is never in the way.
\<close>

lemma length_uint_cbor: "length (uint_cbor n) \<le> 9"
  using length_head_le by (simp add: uint_cbor_def)

lemma envelope_length:
  assumes "length (en_prev_hash e) = 32" "length (en_session_id e) = 16" "length (en_key_id e) = 32"
    "length (en_body_hash e) = 32" "length (en_event e) \<le> 128"
  shows "length (envelope_encode e) \<le> 600 + length (en_ts_wall e)"
proof -
  have bs: "length (bstr (en_prev_hash e)) \<le> 41" "length (bstr (en_session_id e)) \<le> 25" "length (bstr (en_key_id e)) \<le> 41"
    "length (bstr (en_body_hash e)) \<le> 41" "length (tstr (en_event e)) \<le> 137" "length (tstr (en_ts_wall e)) \<le> 9 + length (en_ts_wall e)"
    using length_bstr_le [of "en_prev_hash e"] length_bstr_le [of "en_session_id e"] length_bstr_le [of "en_key_id e"]
      length_bstr_le [of "en_body_hash e"] length_tstr_le [of "en_event e"] length_tstr_le [of "en_ts_wall e"] assms by simp_all
  note u = length_uint_cbor
  show ?thesis
    using bs length_head_le [of 5 11] u [of 1] u [of 2] u [of 3] u [of 4] u [of 5] u [of 7] u [of 9] u [of 10] u [of 11] u [of 12] u [of 13]
      u [of "en_record_id e"] u [of "en_ts_mono_delta e"] u [of "ucast (en_schema_version e)"] u [of "ucast (en_segment_index e)"]
      u [of "ucast (en_sig_alg e)"]
    by (simp add: envelope_encode_eq env_value_def emit_map_length)
qed

text \<open>A signer whose signatures the writer's check lets pass.\<close>

definition signs :: "('p, 's) crypto \<Rightarrow> signer \<Rightarrow> bool" where
  "signs c sg \<longleftrightarrow> (\<forall>m. \<exists>sig. sign_checked c sg NS_RECORD m = Ok sig)"

lemma write_with_nonce_ok:
  assumes base: "sw_base c segs (sw, d)" and sg: "signs c (sw_signer sw)" and input: "sinput_ok input" "event_ok (in_event input)"
    and ts: "length (in_ts_wall input) \<le> 100"
  shows "\<exists>wd' id. write_with_nonce c input (sw, d) = (wd', Ok id)"
proof -
  let ?sw = "sw\<lparr>sw_nonces := stl (sw_nonces sw)\<rparr>"
  note b = sw_base_parts [OF base] and h = length_hashes [OF sw_base_parts(1) [OF base]]
  have "length (shd (sw_nonces sw)) = 32" using b(4) shd_sset [of "sw_nonces sw"] by blast
  then have "body_wf (in_actor input) (in_payload input) (shd (sw_nonces sw))" using input(1) by (simp add: sinput_ok_def)
  then obtain bdy where bdy: "encode_body (in_actor input) (in_payload input) (shd (sw_nonces sw)) = Some bdy"
    using encode_body_eq by blast
  let ?e = "next_envelope c ?sw input bdy"
  have "length (sgm_last_hash (sw_current sw)) = 32" using b(8) h by (simp add: seg_at_def)
  then have "length (envelope_encode ?e) \<le> 600 + length (in_ts_wall input)"
    using envelope_length [of ?e] b(3) h event_ok_ascii [OF input(2)] by (simp add: make_envelope_def Let_def)
  then have "\<not> MAX_ENVELOPE_LEN < length (envelope_encode ?e)" using ts by (simp add: MAX_ENVELOPE_LEN_def)
  moreover obtain sig where "sign_checked c (sw_signer sw) NS_RECORD (envelope_encode ?e) = Ok sig"
    using sg unfolding signs_def by blast
  ultimately show ?thesis
    using bdy by (simp add: write_with_nonce_def next_nonce_def signed_write_record_def Let_def)
qed

text \<open>No operation changes the signer.\<close>

lemma write_signer: "write_with_nonce c input (sw, d) = (wd', res) \<Longrightarrow> sw_signer (fst wd') = sw_signer sw"
  by (auto simp: write_with_nonce_def next_nonce_def signed_write_record_def Let_def split: option.splits if_splits result.splits)

lemma rollover_signer:
  assumes "signed_rollover c (sw, d) = (wd', res)"
  shows "sw_signer (fst wd') = sw_signer sw"
proof (cases "sw_last_ts sw")
  case (Some tm)
  obtain wd1 res1 where w: "write_with_nonce c (finalizing sw tm) (sw, d) = (wd1, res1)" by (metis surj_pair)
  have "sw_signer (fst wd1) = sw_signer sw" by (rule write_signer [OF w])
  then show ?thesis
    using assms Some w
    by (auto simp: signed_rollover_def case_prod_unfold Let_def sw_then_def split: result.splits if_splits)
qed (use assms in \<open>auto simp: signed_rollover_def\<close>)

lemma append_signer:
  assumes "signed_append c input (sw, d) = (wd', res)"
  shows "sw_signer (fst wd') = sw_signer sw"
proof (cases "sw_sealed sw \<or> signed_validate input \<noteq> Ok () \<or> in_event input = EVENT_FINALIZED \<or> in_event input = EVENT_SEALED")
  case True
  then show ?thesis using assms by (auto simp: signed_append_def sw_then_def split: if_splits result.splits)
next
  case False
  obtain sw1 d1 res1 where r: "(case signed_needs_rollover c sw input of None \<Rightarrow> ((sw, d), Panic)
      | Some True \<Rightarrow> signed_rollover c (sw, d) | Some False \<Rightarrow> ((sw, d), Ok ())) = ((sw1, d1), res1)" by (metis surj_pair)
  then have "sw_signer sw1 = sw_signer sw"
    using rollover_signer by (fastforce split: option.splits bool.splits)
  moreover have "sw_then ((sw1, d1), res1) (\<lambda>_. write_with_nonce c input) = (wd', res)"
    using assms False r by (simp add: signed_append_def sw_then_def)
  ultimately show ?thesis using write_signer by (fastforce simp: sw_then_def split: result.splits)
qed

lemma bumped_length:
  assumes "parse_rfc3339_millis ts = Some a" "- 62135596800000 \<le> a" "a < TIME_END"
  shows "length (fst (bump_ms ts delta)) = 24"
  using rfc3339_round_trip_range [of "a + 1"] assms length_ts_text
  by (fastforce simp: bump_ms_def unwrap_or_def TIME_END_def)

lemma last_time_known:
  assumes "log_timed (concat segs)" "log_last segs = Some tm"
  obtains a where "parse_rfc3339_millis (fst tm) = Some a"
proof -
  have "concat segs \<noteq> []" "fst tm = en_ts_wall (fst (last (concat segs)))"
    using assms(2) by (auto simp: log_last_def split: if_splits)
  moreover from this(1) have "last (concat segs) \<in> set (concat segs)" by (rule last_in_set)
  ultimately show ?thesis using assms(1) that unfolding log_timed_def srec_ms_def by fastforce
qed

lemma rollover_succeeds:
  assumes base: "sw_base c segs (sw, d)" "sgm_bytes_written (sw_current sw) < 2 ^ 63"
    and opened: "\<not> closed_by (last segs) EVENT_FINALIZED" "\<not> closed_by (last segs) EVENT_SEALED" and "length segs < 10000"
    and sg: "signs c (sw_signer sw)" and times: "log_timed (concat segs)" "clock_ok sw ms" and more: "0 < sgm_next_record_id (sw_current sw)"
  shows "\<exists>sw' d' segs'. signed_rollover c (sw, d) = ((sw', d'), Ok ()) \<and> sw_base c segs' (sw', d') \<and>
    sgm_bytes_written (sw_current sw') = HEADER_LEN"
proof -
  note b = sw_base_parts [OF base(1)]
  have "last segs \<noteq> []" using more b(8) by (auto simp: seg_at_def)
  then have "concat segs \<noteq> []" using b(10) by (cases segs rule: rev_cases) auto
  then obtain tm where tm: "sw_last_ts sw = Some tm" using b(9) by (simp add: log_last_def)
  then have "log_last segs = Some tm" using b(9) by simp
  then obtain a where a: "parse_rfc3339_millis (fst tm) = Some a" by (rule last_time_known [OF times(1)])
  then have "- 62135596800000 \<le> a" "a < TIME_END" using times(2) tm unfolding clock_ok_def by (metis prod.collapse)+
  from bumped_length [OF a this] have ts: "length (fst (bump_ms (fst tm) (snd tm))) \<le> 100" by simp
  have "length (sgm_last_hash (sw_current sw)) = 32" using b(8) length_hashes(5) [OF b(1)] by (simp add: seg_at_def)
  moreover have "valid_utf8 (fst (bump_ms (fst tm) (snd tm)))" using rfc3339_utf8 by (simp add: bump_ms_def)
  ultimately have "sinput_ok (finalizing sw tm)" "event_ok (in_event (finalizing sw tm))" using finalize_sinput_ok by blast+
  from write_with_nonce_ok [OF base(1) sg this] ts
  obtain wd1 id where w: "write_with_nonce c (finalizing sw tm) (sw, d) = (wd1, Ok id)" by (auto simp: finalize_input_def)
  obtain wd' res where run: "signed_rollover c (sw, d) = (wd', res)" by (metis surj_pair)
  from rollover_step [OF base opened assms(5) run] w tm show ?thesis using run by (cases wd') auto
qed

lemma append_ok:
  assumes inv: "sw_at c segs (sw, d)" and times: "log_timed (concat segs)" "clock_ok sw ms"
    and room: "sgm_bytes_written (sw_current sw) < 2 ^ 63" "length segs < 10000" and sg: "signs c (sw_signer sw)"
    and "\<not> sw_sealed sw" "sinput_ok input" "signed_validate input = Ok ()"
      "in_event input \<noteq> EVENT_FINALIZED" "in_event input \<noteq> EVENT_SEALED"
  shows "\<exists>wd' id. signed_append c input (sw, d) = (wd', Ok id)"
proof -
  have base: "sw_base c segs (sw, d)" and opened: "\<not> closed_by (last segs) EVENT_FINALIZED" "\<not> closed_by (last segs) EVENT_SEALED"
    using inv assms(7) by (auto simp: sw_at_def)
  have event: "event_ok (in_event input)" and ts: "length (in_ts_wall input) \<le> 100"
    using assms(9) by (auto simp: signed_validate_def event_ok_def Let_def parse_rfc3339_millis_def rfc3339_shape_def split: if_splits)
  have "body_wf (in_actor input) (in_payload input) (replicate 32 0)" using assms(8) by (simp add: sinput_ok_def)
  then obtain sized where sized: "encode_body (in_actor input) (in_payload input) (replicate 32 0) = Some sized"
    using encode_body_eq by blast
  have "\<exists>sw1 d1 segs1. (case signed_needs_rollover c sw input of None \<Rightarrow> ((sw, d), Panic)
      | Some True \<Rightarrow> signed_rollover c (sw, d) | Some False \<Rightarrow> ((sw, d), Ok ())) = ((sw1, d1), Ok ()) \<and>
    sw_base c segs1 (sw1, d1) \<and> sw_signer sw1 = sw_signer sw"
  proof (cases "signed_needs_rollover c sw input")
    case None
    then show ?thesis using sized by (simp add: signed_needs_rollover_def split: if_splits)
  next
    case (Some roll)
    show ?thesis
    proof (cases roll)
      case True
      then have "0 < sgm_next_record_id (sw_current sw)" using Some by (auto simp: signed_needs_rollover_def split: if_splits)
      then show ?thesis
        using rollover_succeeds [OF base room(1) opened room(2) sg times] Some True rollover_signer by fastforce
    qed (use Some base in auto)
  qed
  then obtain sw1 d1 segs1 where r: "(case signed_needs_rollover c sw input of None \<Rightarrow> ((sw, d), Panic)
      | Some True \<Rightarrow> signed_rollover c (sw, d) | Some False \<Rightarrow> ((sw, d), Ok ())) = ((sw1, d1), Ok ())"
    "sw_base c segs1 (sw1, d1)" "sw_signer sw1 = sw_signer sw" by blast
  then have "signed_append c input (sw, d) = write_with_nonce c input (sw1, d1)"
    using assms(7,9-11) by (simp add: signed_append_def sw_then_def)
  then show ?thesis using write_with_nonce_ok [OF r(2) _ assms(8) event ts] sg r(3) by simp
qed

end
