(* ===== verification/Signed_Writer_Properties.thy ===== *)
theory Signed_Writer_Properties
  imports Signed_Progress
begin

text \<open>
  What the signed writer promises: whatever happened to it, its directory verifies; an append is one
  step of the abstract log and does not fail for want of room in the envelope; opening after a crash
  keeps the whole records; and a sealed log stays closed.
\<close>

section \<open>Whole files\<close>

lemma srecs_ok_nth:
  "srecs_ok c pk n p prev recs \<Longrightarrow> i < length recs \<Longrightarrow> \<exists>q prev'. srec_ok c pk n q prev' (recs ! i)"
proof (induction recs arbitrary: i p prev)
  case (Cons r rs)
  then show ?case by (cases i) auto
qed simp

lemma torn_frame_whole:
  assumes "torn_frame (concat (map srec_frame recs))" "srec_ok c pk n p prev (hd recs)"
  shows "recs = []"
proof (cases recs)
  case (Cons r rs)
  let ?t = "concat (map srec_frame recs)"
  have "read_frame ?t 0 = FrameRecord (raw_of 0 r)"
    by (rule srec_frame_read [where rest = "concat (map srec_frame rs)"]) (use assms(2) Cons in simp_all)
  moreover have "read_frame ?t 0 = FrameEnd \<or> read_frame ?t 0 = FrameTorn 0"
    using read_torn [OF assms(1) le0 drop_0] by blast
  ultimately show ?thesis by auto
qed simp

text \<open>Opening the directory of a log that is not cut, with a record at its end that seals it.\<close>

lemma open_sealed:
  assumes inv: "sw_at c segs (sw, d)" and closed: "closed_by (last segs) EVENT_SEALED" and few: "length (last segs) < 2 ^ 64"
    and sid: "length sid = 16" and nonces: "\<forall>x \<in> sset nonces. length x = 32"
  shows "snd (open_inner c (sw_signer sw) sid cfg fresh nonces d) = Err SWSealed"
proof -
  have base: "sw_base c segs (sw, d)" using inv by (simp add: sw_at_def)
  note b = sw_base_parts [OF base]
  let ?pk = "writer_key sw" and ?lid = "sw_log_id sw" and ?L = "length segs - 1"
  let ?m = "length (signed_file c ?pk ?lid segs ?L)"
  have L: "?L < length segs" "segs ! ?L = last segs" using b(10) by (simp_all add: last_conv_nth)
  have "regular_file d (of_nat ?L) = Some (signed_file c ?pk ?lid segs ?L)" using b(5) L(1) by (simp only: signed_files_def)
  then have "map_of d (segment_path (of_nat ?L)) = Some (Some (signed_file c ?pk ?lid segs ?L))"
    by (cases "map_of d (segment_path (of_nat ?L))") simp_all
  then have whole: "crash_cut c ?pk ?lid segs ?m d = d" by (simp add: crash_cut_def node_put_def update_triv)
  obtain d' res where run: "open_inner c (sw_signer sw) sid cfg fresh nonces d = (d', res)" by (metis surj_pair)
  then have cut: "open_inner c (sw_signer sw) sid cfg fresh nonces (crash_cut c ?pk ?lid segs ?m d) = (d', res)"
    by (simp only: whole)
  have header: "HEADER_LEN \<le> ?m" by (rule signed_file_parts(3) [OF b(1)])
  from open_cut [OF b(1,2) sid nonces b(5,7,6) header few cut]
  obtain j t where j: "j \<le> length (last segs)" "signed_file c ?pk ?lid segs ?L = signed_file c ?pk ?lid (cut_log j segs) ?L @ t"
    "torn_frame t" "closed_by (take j (last segs)) EVENT_SEALED \<longrightarrow> res = Err SWSealed"
    by auto
  have "concat (map srec_frame (last segs)) = concat (map srec_frame (take j (last segs))) @ t"
    using j(2) [unfolded cut_log_file(4) [OF b(10)]] L(2) by (simp add: signed_file_def)
  moreover have "concat (map srec_frame (last segs)) =
      concat (map srec_frame (take j (last segs))) @ concat (map srec_frame (drop j (last segs)))"
    by (metis append_take_drop_id concat_append map_append)
  ultimately have t: "t = concat (map srec_frame (drop j (last segs)))" by simp
  have "drop j (last segs) = []"
  proof (rule ccontr)
    assume more: "drop j (last segs) \<noteq> []"
    then have "j < length (last segs)" "hd (drop j (last segs)) = last segs ! j" by (simp_all add: hd_drop_conv_nth)
    then obtain q prev' where "srec_ok c ?pk ?L q prev' (hd (drop j (last segs)))"
      using srecs_ok_nth [OF b(6) [OF L(1)], of j] L(2) by auto
    then show False using torn_frame_whole j(3) t more by blast
  qed
  then show ?thesis using j(4) closed run by simp
qed

section \<open>The limit of segment indices\<close>

text \<open>Segment indices are 16 bits wide, but a file of a segment from 10000 on is not listed, so nothing in
  it is read again, neither by the verifier nor when the log is opened.\<close>

lemma signed_segment_10000_unlisted:
  assumes "10000 \<le> unat i"
  shows "fst (list_segments (node_put i content d)) = fst (list_segments d)"
proof -
  have "segment_index (segment_path i) = None"
  proof (rule ccontr)
    assume "segment_index (segment_path i) \<noteq> None"
    then obtain j where "unat j < 10000" "segment_path i = segment_path j" by (auto simp: segment_index_iff)
    then show False using assms segment_path_inject by auto
  qed
  then show ?thesis by (simp add: listing_keys node_put_def map_fst_update List.map_filter_def)
qed

section \<open>A concrete log\<close>

definition ex_new_input :: record_input where
  "ex_new_input = (sealing_input ex_issued 0)\<lparr>in_event := ascii ''login''\<rparr>"

lemma ex_new_input_ok: "sinput_ok ex_new_input" "signed_validate ex_new_input = Ok ()"
  "in_event ex_new_input \<noteq> EVENT_FINALIZED" "in_event ex_new_input \<noteq> EVENT_SEALED"
  "\<exists>ms. parse_rfc3339_millis (in_ts_wall ex_new_input) = Some ms"
proof -
  have t: "valid_utf8 ex_issued" "parse_rfc3339_millis ex_issued \<noteq> None" using ex_issued_ok by (simp_all add: issued_ok_def)
  from sealing_sinput_ok(1) [OF t(1), of 0] show "sinput_ok ex_new_input" by (simp add: sinput_ok_def ex_new_input_def)
  show "\<exists>ms. parse_rfc3339_millis (in_ts_wall ex_new_input) = Some ms"
    using t(2) by (simp add: ex_new_input_def sealing_input_def)
  show "signed_validate ex_new_input = Ok ()"
    using t(2) by (simp add: signed_validate_def ex_new_input_def sealing_input_def) (auto simp: ascii_def Let_def)
qed (simp_all add: ex_new_input_def sealing_input_def EVENT_FINALIZED_def EVENT_SEALED_def ascii_def)

lemma ex_writer_key: "key_good ex_crypto ex_public (replicate 16 1)" "signer_ok ex_signer" "signs ex_crypto ex_signer"
  "sg_public_key ex_signer = ex_public" "fingerprint_of ex_crypto ex_public = replicate 32 7"
proof -
  show pk: "sg_public_key ex_signer = ex_public" by (simp add: ex_signer_def)
  show "key_good ex_crypto ex_public (replicate 16 1)"
    by (simp add: key_good_def ex_public_def is_strong_def key_is_strong_def ed25519_key_def decode_canonical_def)
      (simp add: ex_crypto_def)
  show "signer_ok ex_signer" by (auto simp: signer_ok_def ex_signer_def ex_public_def ed25519_key_def)
  show "signs ex_crypto ex_signer" by (simp add: signs_def ex_signer_signs)
  show "fingerprint_of ex_crypto ex_public = replicate 32 7"
    using ex_fingerprint [of 7] by (simp add: ex_trust_key_def ex_public_def)
qed

lemma ex_opened:
  "\<exists>sw d. signed_reach ex_crypto (sw, d) \<and> sw_at ex_crypto [[]] (sw, d) \<and> sw_signer sw = ex_signer \<and> \<not> sw_sealed sw \<and>
     sw_last_ts sw = None \<and> sgm_bytes_written (sw_current sw) = HEADER_LEN \<and> unat (sgm_index (sw_current sw)) = 0"
proof -
  note k = ex_writer_key(1) [folded ex_writer_key(4)]
  have nonces: "\<forall>x \<in> sset (sconst (replicate 32 3 :: bytes)). length x = 32" by simp
  have d0: "distinct (map fst ([] :: node_dir))" "fst (list_segments []) = []" by (simp_all add: list_segments_def List.map_filter_simps)
  have sid: "length (replicate 16 2 :: bytes) = 16" by simp
  obtain sw d where run: "open_inner ex_crypto ex_signer (replicate 16 2) default_config (replicate 16 1) (sconst (replicate 32 3)) [] = (d, Ok sw)"
    and at: "sw_at ex_crypto [[]] (sw, d)" "sw_signer sw = ex_signer" "\<not> sw_sealed sw" "sw_last_ts sw = None"
    using open_fresh_at [OF k ex_writer_key(2) sid nonces d0, of default_config] by blast
  have base: "sw_base ex_crypto [[]] (sw, d)" using at(1) by (simp add: sw_at_def)
  have "signed_file ex_crypto ex_public (sw_log_id sw) [[]] 0 = header_bytes_of ex_crypto ex_public (sw_log_id sw) 0 (replicate 32 0)"
    by (simp add: signed_file_def)
  moreover have "key_good ex_crypto ex_public (sw_log_id sw)" using sw_base_parts(1) [OF base] at(2) ex_writer_key(4) by simp
  ultimately have "sgm_bytes_written (sw_current sw) = HEADER_LEN" "unat (sgm_index (sw_current sw)) = 0"
    using sw_base_parts(8) [OF base] at(2) ex_writer_key(4) by (simp_all add: seg_at_def length_header_bytes)
  then show ?thesis using at signed_reach.opened [OF d0 k ex_writer_key(2) sid nonces run] by blast
qed

lemma srec_frame_small: "srec_ok c pk n p prev r \<Longrightarrow> length (srec_frame r) < 2 ^ 62"
  by (cases r) (auto simp: srec_ok_def srec_frame_def frame_def Let_def SIG_LEN_def MAX_ENVELOPE_LEN_def)

lemma ex_written:
  "\<exists>sw d. signed_reach ex_crypto (sw, d) \<and> sw_last_ts sw = Some (ex_issued, 0) \<and> sw_signer sw = ex_signer \<and> \<not> sw_sealed sw \<and>
     sgm_bytes_written (sw_current sw) < 2 ^ 63"
proof -
  obtain sw d where o: "signed_reach ex_crypto (sw, d)" "sw_at ex_crypto [[]] (sw, d)" "sw_signer sw = ex_signer" "\<not> sw_sealed sw"
    "sw_last_ts sw = None" "sgm_bytes_written (sw_current sw) = HEADER_LEN" "unat (sgm_index (sw_current sw)) = 0"
    using ex_opened by blast
  have clock: "clock_ok sw ms" for ms using o(5) by (simp add: clock_ok_def)
  have room: "sgm_bytes_written (sw_current sw) < 2 ^ 63" using o(6) by (simp add: HEADER_LEN_def)
  have timed: "log_timed (concat [[]])" by (simp add: log_timed_def)
  obtain sw' d' id where run: "signed_append ex_crypto ex_new_input (sw, d) = ((sw', d'), Ok id)"
    using append_ok [OF o(2) timed clock room _ _ o(4) ex_new_input_ok(1-4)] ex_writer_key(3) o(3) by auto
  from append_step [OF o(2) room _ ex_new_input_ok(1) run]
  obtain segs1 r where s: "sw_at ex_crypto (add_rec segs1 r) (sw', d')" "segs1 = [[]] \<or> rolls [[]] segs1" "sw_sealed sw' = sw_sealed sw"
    "records_input ex_new_input r"
    by (auto simp del: split_paired_Ex)
  have "segs1 = [[]]" using s(2) by (auto simp: rolls_def next_ms_def log_last_def)
  then have segs: "add_rec segs1 r = [[r]]" by (simp add: add_rec_def)
  have base: "sw_base ex_crypto [[r]] (sw', d')" using s(1) segs by (simp add: sw_at_def)
  note b = sw_base_parts [OF base]
  have "sw_last_ts sw' = Some (ex_issued, 0)"
    using b(9) s(4) by (auto simp: log_last_def records_input_def ex_new_input_def sealing_input_def)
  moreover have "length (srec_frame r) < 2 ^ 62" using b(6) [of 0] srec_frame_small by fastforce
  then have "sgm_bytes_written (sw_current sw') < 2 ^ 63"
    using b(8) length_header_bytes [OF b(1), of "replicate 32 0" 0] by (simp add: seg_at_def signed_file_def HEADER_LEN_def)
  moreover have "signed_reach ex_crypto (sw', d')"
    by (rule signed_reach.appended [OF o(1) _ room ex_new_input_ok(1) clock run]) (simp add: o(7))
  moreover have "sw_signer sw' = ex_signer" using append_signer [OF run] o(3) by simp
  ultimately show ?thesis using s(3) o(4) by auto
qed

lemma ex_trusts:
  "\<exists>ev. evaluate ex_crypto ex_pinned = Ok ev \<and> quiet ev (key_header ex_crypto ex_public lid 0 (replicate 32 0)) \<and>
     (\<forall>n p h. \<exists>e. accept ev (fingerprint_of ex_crypto ex_public) NS_RECORD (ORecord lid n p h) = Ok e)"
proof -
  have "scope_contains SCOPE_DEFAULT NS_RECORD" by code_simp
  moreover have "sh_key_id (key_header ex_crypto ex_public lid 0 (replicate 32 0)) = replicate 32 7"
    by (simp add: signed_header_new_def ex_writer_key(5))
  ultimately show ?thesis
    by (auto simp: ex_pinned_def quiet_def ex_eval eval_statement_heads_def ex_writer_key(5))
qed

lemma ex_sealed:
  "\<exists>sw d sw' d' k. signed_reach ex_crypto (sw, d) \<and> sgm_bytes_written (sw_current sw) < 2 ^ 63 \<and>
     signed_seal ex_crypto (sw, d) = ((sw', d'), Ok k)"
proof -
  obtain sw d where w: "signed_reach ex_crypto (sw, d)" "sw_signer sw = ex_signer" "\<not> sw_sealed sw"
    "sw_last_ts sw = Some (ex_issued, 0)" "sgm_bytes_written (sw_current sw) < 2 ^ 63"
    using ex_written by blast
  obtain segs where base: "sw_base ex_crypto segs (sw, d)" using reach_holds_log [OF w(1)] by (auto simp: holds_log_def sw_at_def)
  let ?ts = "fst (bump_ms ex_issued 0)" and ?delta = "snd (bump_ms ex_issued 0)"
  obtain a where a: "parse_rfc3339_millis ex_issued = Some a" using ex_issued_ok by (auto simp: issued_ok_def)
  then have "- 62135596800000 \<le> a" "a < TIME_END"
    by (simp_all add: ex_issued_def parse_rfc3339_ts_text ts_valid_def TIME_END_def days_before_civil_def Let_def)
  from bumped_length [OF a this] have len: "length (in_ts_wall (sealing_input ?ts ?delta)) \<le> 100" by (simp add: sealing_input_def)
  have "valid_utf8 ?ts" by (simp add: bump_ms_def rfc3339_utf8)
  note input = sealing_sinput_ok [OF this, of ?delta]
  have "signs ex_crypto (sw_signer sw)" using ex_writer_key(3) w(2) by simp
  from write_with_nonce_ok [OF base this input len]
  obtain sw' d' id where "write_with_nonce ex_crypto (sealing_input ?ts ?delta) (sw, d) = ((sw', d'), Ok id)" by auto
  then have "signed_seal ex_crypto (sw, d) = ((sw'\<lparr>sw_sealed := True\<rparr>, d'), Ok id)"
    using w(3,4) by (simp add: signed_seal_def sw_then_def case_prod_unfold)
  then show ?thesis using w(1,5) by blast
qed

section \<open>Properties\<close>

text \<open>C2. Whatever the writer does, its directory verifies. In every state it reaches by opening a
  directory, by appends and seals (also those that fail halfway), and by crashes that cut the last
  file anywhere or lose the newest one, each followed by another open: as soon as the log has a
  record, and if the trust context accepts the writer's key (in every position, with no statement
  heads to check), the verdict is Verified. The clock may fall back by no more than the slack of the
  verifier, the inputs nest no deeper than the decoder's limit, and the appends and opens stay below
  segment 9999.\<close>

theorem reachable_signed_log_verifies:
  assumes "signed_reach c (sw, d)" "sw_last_ts sw \<noteq> None"
    and "evaluate c ctx = Ok ev" "quiet ev (key_header c (sg_public_key (sw_signer sw)) (sw_log_id sw) 0 (replicate 32 0))"
    and "\<forall>n p h. \<exists>e. accept ev (fingerprint_of c (sg_public_key (sw_signer sw))) NS_RECORD (ORecord (sw_log_id sw) n p h) = Ok e"
    and "vo_attested opts = None" "vo_checkpoints opts = []" "\<forall>i. vo_expect_log_id opts = Some i \<longrightarrow> i = sw_log_id sw"
  shows "\<exists>r. signed_verify_with_options c log_dir d ctx opts = Ok r \<and> sr_verdict r = Verified"
  using holds_log_verifies [OF reach_holds_log [OF assms(1)] assms(2-4) _ assms(6,7)] assms(5,8) by blast

theorem reachable_signed_log_verifies_witness:
  "\<exists>sw d r. signed_reach ex_crypto (sw, d) \<and> sw_last_ts sw \<noteq> None \<and>
     signed_verify_with_options ex_crypto [] d ex_pinned signed_default_options = Ok r \<and> sr_verdict r = Verified"
proof -
  obtain sw d where w: "signed_reach ex_crypto (sw, d)" "sw_last_ts sw \<noteq> None" "sw_signer sw = ex_signer"
    using ex_written by force
  obtain ev where ev: "evaluate ex_crypto ex_pinned = Ok ev" "quiet ev (key_header ex_crypto ex_public (sw_log_id sw) 0 (replicate 32 0))"
    "\<forall>n p h. \<exists>e. accept ev (fingerprint_of ex_crypto ex_public) NS_RECORD (ORecord (sw_log_id sw) n p h) = Ok e"
    using ex_trusts by blast
  have "\<exists>r. signed_verify_with_options ex_crypto [] d ex_pinned signed_default_options = Ok r \<and> sr_verdict r = Verified"
    by (rule reachable_signed_log_verifies [OF w(1,2) ev(1)])
      (use ev w(3) ex_writer_key(4) in \<open>simp_all add: signed_default_options_def\<close>)
  then show ?thesis using w(1,2) by blast
qed

text \<open>C16. What a reachable state looks like: the log id, the session id and the last hash have the
  widths their types give them; the segments of the directory are those up to the current one, without
  a gap; and the file handle stands at the end of the current file, which starts with a whole header.\<close>

theorem reachable_signed_state_well_typed:
  assumes "signed_reach c (sw, d)"
  shows "length (sw_log_id sw) = 16 \<and> length (sw_session_id sw) = 16 \<and> length (sgm_last_hash (sw_current sw)) = 32 \<and>
    fst (list_segments d) = map of_nat [0..<Suc (unat (sgm_index (sw_current sw)))] \<and>
    (\<exists>content. regular_file d (sgm_index (sw_current sw)) = Some content \<and> HEADER_LEN \<le> length content \<and>
       sgm_bytes_written (sw_current sw) = length content)"
proof -
  obtain segs where "sw_base c segs (sw, d)" using reach_holds_log [OF assms] by (auto simp: holds_log_def sw_at_def)
  note b = sw_base_parts [OF this] and i = sw_index [OF this]
  have n: "length segs - 1 < length segs" "Suc (length segs - 1) = length segs" using b(10) by simp_all
  then have "regular_file d (of_nat (length segs - 1)) = Some (signed_file c (writer_key sw) (sw_log_id sw) segs (length segs - 1))"
    using b(5) by (simp only: signed_files_def)
  moreover have "fst (list_segments d) = map of_nat [0..<Suc (unat (sgm_index (sw_current sw)))]"
    using b(5) unfolding i(2) n(2) by (simp add: signed_files_def)
  ultimately show ?thesis
    using b(1,3,8) length_hashes(5) [OF b(1)] signed_file_parts(3) [OF b(1)] i(1)
    by (simp add: key_good_def seg_at_def)
qed

theorem reachable_signed_state_well_typed_witness:
  "\<exists>sw d. signed_reach ex_crypto (sw, d) \<and> length (sgm_last_hash (sw_current sw)) = 32"
proof -
  obtain sw d where w: "signed_reach ex_crypto (sw, d)" using ex_written by blast
  show ?thesis using reachable_signed_state_well_typed [OF w] w by blast
qed

text \<open>C12. An append to a log of fewer than 10000 segments is one step of the abstract log, for an input
  within the decoder's limits. It leaves the log as it is, or closes the segment
  with a \<^verbatim>\<open>segment.finalized\<close> record, or does so and adds the record, or just adds it; the record
  carries the input, and its position in the segment is the result. On an error no record of the input
  was written, and the writer can go on.\<close>

theorem signed_append_is_one_log_step:
  assumes "sw_at c segs (sw, d)" "sgm_bytes_written (sw_current sw) < 2 ^ 63" "length segs < 10000" "sinput_ok input"
    and "signed_append c input (sw, d) = (wd', res)"
  shows "\<exists>segs1 segs'. (segs1 \<in> insert segs {s. rolls segs s}) \<and> sw_at c segs' wd' \<and> sw_sealed (fst wd') = sw_sealed sw \<and>
    (case res of
       Ok k \<Rightarrow> k = of_nat (length (last segs1)) \<and> (\<exists>r. records_input input r \<and> segs' = add_rec segs1 r)
     | _ \<Rightarrow> segs' = segs1)"
  using append_step [OF assms] by simp

theorem signed_append_is_one_log_step_witness:
  "\<exists>sw d wd' id segs1 r. sw_at ex_crypto [[]] (sw, d) \<and> signed_append ex_crypto ex_new_input (sw, d) = (wd', Ok id) \<and>
     records_input ex_new_input r \<and> sw_at ex_crypto (add_rec segs1 r) wd'"
proof -
  obtain sw d where o: "sw_at ex_crypto [[]] (sw, d)" "sw_signer sw = ex_signer" "\<not> sw_sealed sw"
    "sw_last_ts sw = None" "sgm_bytes_written (sw_current sw) = HEADER_LEN"
    using ex_opened by blast
  have clock: "clock_ok sw ms" for ms using o(4) by (simp add: clock_ok_def)
  have room: "sgm_bytes_written (sw_current sw) < 2 ^ 63" using o(5) by (simp add: HEADER_LEN_def)
  have timed: "log_timed (concat [[]])" by (simp add: log_timed_def)
  obtain wd' id where run: "signed_append ex_crypto ex_new_input (sw, d) = (wd', Ok id)"
    using append_ok [OF o(1) timed clock room _ _ o(3) ex_new_input_ok(1-4)] ex_writer_key(3) o(2) by auto
  have "\<exists>segs1 r. records_input ex_new_input r \<and> sw_at ex_crypto (add_rec segs1 r) wd'"
    using signed_append_is_one_log_step [OF o(1) room _ ex_new_input_ok(1) run] by (auto simp del: split_paired_Ex)
  then show ?thesis using o(1) run by blast
qed

text \<open>C6. A crash costs no whole record. Whatever byte after the header the last file was cut at, opening
  keeps exactly the records that are whole in it: it goes on behind the last of them, having removed
  the torn rest, or starts the next segment if the last of them finalizes its segment, and reports
  which; if the last of them seals the log, it refuses.\<close>

theorem signed_crash_recovery_keeps_whole_records:
  assumes "sw_at c segs (sw, d)" "HEADER_LEN \<le> m" "length (last segs) < 2 ^ 64" "length segs < 10000"
    and "length sid = 16" "\<forall>x \<in> sset nonces. length x = 32"
    and "open_inner c (sw_signer sw) sid cfg fresh nonces
      (crash_cut c (sg_public_key (sw_signer sw)) (sw_log_id sw) segs m d) = (d', res)"
  shows "\<exists>j t. j \<le> length (last segs) \<and>
    take m (signed_file c (sg_public_key (sw_signer sw)) (sw_log_id sw) segs (length segs - 1)) =
      signed_file c (sg_public_key (sw_signer sw)) (sw_log_id sw) (cut_log j segs) (length segs - 1) @ t \<and> torn_frame t \<and>
    (if closed_by (take j (last segs)) EVENT_SEALED then res = Err SWSealed
     else \<exists>sw'. res = Ok sw' \<and> sw_log_id sw' = sw_log_id sw \<and> rep_truncated_bytes (sw_recovery sw') = length t \<and>
       (if closed_by (take j (last segs)) EVENT_FINALIZED
        then sw_at c (cut_log j segs @ [[]]) (sw', d') \<and> rep_action (sw_recovery sw') = OpenedNextAfterFinalized
        else sw_at c (cut_log j segs) (sw', d') \<and> rep_action (sw_recovery sw') = (if t = [] then Resumed else Repaired)))"
proof -
  have "sw_base c segs (sw, d)" using assms(1) by (simp add: sw_at_def)
  note b = sw_base_parts [OF this]
  obtain j t where jt: "j \<le> length (last segs)" "torn_frame t"
    "take m (signed_file c (writer_key sw) (sw_log_id sw) segs (length segs - 1)) =
      signed_file c (writer_key sw) (sw_log_id sw) (cut_log j segs) (length segs - 1) @ t"
    and res: "if closed_by (take j (last segs)) EVENT_SEALED then res = Err SWSealed
     else \<exists>sw'. res = Ok sw' \<and> sw_log_id sw' = sw_log_id sw \<and> rep_truncated_bytes (sw_recovery sw') = length t \<and>
       (if closed_by (take j (last segs)) EVENT_FINALIZED
        then sw_at c (cut_log j segs @ [[]]) (sw', d') \<and> rep_action (sw_recovery sw') = OpenedNextAfterFinalized
        else sw_at c (cut_log j segs) (sw', d') \<and> rep_action (sw_recovery sw') = (if t = [] then Resumed else Repaired))"
  proof -
    obtain j t where jt: "j \<le> length (last segs)"
      "take m (signed_file c (writer_key sw) (sw_log_id sw) segs (length segs - 1)) =
        signed_file c (writer_key sw) (sw_log_id sw) (cut_log j segs) (length segs - 1) @ t" "torn_frame t"
      and r: "if closed_by (take j (last segs)) EVENT_SEALED then res = Err SWSealed
       else if closed_by (take j (last segs)) EVENT_FINALIZED then
         length segs < 10000 \<longrightarrow> (\<exists>sw'. res = Ok sw' \<and> sw_at c (cut_log j segs @ [[]]) (sw', d') \<and> sw_signer sw' = sw_signer sw \<and>
           sw_log_id sw' = sw_log_id sw \<and> \<not> sw_sealed sw' \<and> rep_action (sw_recovery sw') = OpenedNextAfterFinalized \<and>
           rep_truncated_bytes (sw_recovery sw') = length t)
       else \<exists>sw'. res = Ok sw' \<and> sw_at c (cut_log j segs) (sw', d') \<and> sw_signer sw' = sw_signer sw \<and>
         sw_log_id sw' = sw_log_id sw \<and> \<not> sw_sealed sw' \<and> rep_action (sw_recovery sw') = (if t = [] then Resumed else Repaired) \<and>
         rep_truncated_bytes (sw_recovery sw') = length t"
      using open_cut [OF b(1,2) assms(5,6) b(5,7,6) assms(2,3,7)] by blast
    show ?thesis
      by (rule that [OF jt(1,3,2)]) (use r assms(4) in \<open>auto split: if_splits\<close>)
  qed
  show ?thesis using jt res by blast
qed

theorem signed_crash_recovery_keeps_whole_records_witness:
  "\<exists>sw d res d' j. sw_at ex_crypto [[]] (sw, d) \<and>
     open_inner ex_crypto (sw_signer sw) (replicate 16 4) default_config [] (sconst (replicate 32 5))
       (crash_cut ex_crypto (sg_public_key (sw_signer sw)) (sw_log_id sw) [[]] 200 d) = (d', Ok res) \<and>
     sw_at ex_crypto (cut_log j [[]]) (res, d')"
proof -
  obtain sw d where o: "sw_at ex_crypto [[]] (sw, d)" using ex_opened by blast
  obtain d' res where run: "open_inner ex_crypto (sw_signer sw) (replicate 16 4) default_config [] (sconst (replicate 32 5))
       (crash_cut ex_crypto (sg_public_key (sw_signer sw)) (sw_log_id sw) [[]] 200 d) = (d', res)" by (metis surj_pair)
  have "HEADER_LEN \<le> 200" by (simp add: HEADER_LEN_def)
  from signed_crash_recovery_keeps_whole_records [OF o this _ _ _ _ run]
  obtain j sw' where "res = Ok sw'" "sw_at ex_crypto (cut_log j [[]]) (sw', d')"
    by (auto simp: closed_by_def)
  then show ?thesis using o run by blast
qed

text \<open>C15. Appending does not fail on a good input (one that passes the checks, is within the decoder's
  limits and does not fall back in time by more than the slack): while the segment index and the file have room, a
  writer that is not sealed and whose signer signs records every input that passes its checks, rolling
  over first where it must; the limit on the length of an envelope is never reached, and the writer's
  time anchor is that of the input.\<close>

theorem signed_appends_succeed:
  assumes "signed_reach c (sw, d)" "\<not> sw_sealed sw" "signs c (sw_signer sw)"
    and "unat (sgm_index (sw_current sw)) < 9999" "sgm_bytes_written (sw_current sw) < 2 ^ 63"
    and "sinput_ok input" "signed_validate input = Ok ()" "in_event input \<notin> {EVENT_FINALIZED, EVENT_SEALED}"
    and "parse_rfc3339_millis (in_ts_wall input) = Some ms" "clock_ok sw ms"
  shows "\<exists>sw' d' id. signed_append c input (sw, d) = ((sw', d'), Ok id) \<and> signed_reach c (sw', d') \<and>
    sw_last_ts sw' = Some (in_ts_wall input, in_ts_mono_delta input)"
proof -
  obtain segs where segs: "sw_at c segs (sw, d)" "log_timed (concat segs)"
    using reach_holds_log [OF assms(1)] by (auto simp: holds_log_def)
  then have base: "sw_base c segs (sw, d)" by (simp add: sw_at_def)
  have few: "length segs < 10000" using assms(4) sw_index(2) [OF base] by simp
  obtain sw' d' id where run: "signed_append c input (sw, d) = ((sw', d'), Ok id)"
    using append_ok [OF segs assms(10,5) few assms(3,2,6,7)] assms(8) by auto
  from append_step [OF segs(1) assms(5) few assms(6) run]
  obtain segs1 r where s: "sw_at c (add_rec segs1 r) (sw', d')" "segs1 = segs \<or> rolls segs segs1" "records_input input r"
    by (auto simp del: split_paired_Ex)
  have "segs1 \<noteq> []" using s(2) sw_base_parts(10) [OF base] by (auto simp: rolls_def)
  then have "log_last (add_rec segs1 r) = Some (in_ts_wall input, in_ts_mono_delta input)"
    using add_rec_nth(5) [of segs1 r] s(3) by (auto simp: log_last_def records_input_def)
  then have "sw_last_ts sw' = Some (in_ts_wall input, in_ts_mono_delta input)"
    using s(1) by (simp add: sw_at_def sw_base_def Let_def)
  moreover have "signed_reach c (sw', d')"
    by (rule signed_reach.appended [OF assms(1,4,5,6) _ run]) (use assms(9,10) in simp)
  ultimately show ?thesis using run by blast
qed

theorem signed_appends_succeed_witness:
  "\<exists>sw d sw' d' id. signed_reach ex_crypto (sw, d) \<and> signed_append ex_crypto ex_new_input (sw, d) = ((sw', d'), Ok id) \<and>
     signed_reach ex_crypto (sw', d')"
proof -
  obtain sw d where o: "signed_reach ex_crypto (sw, d)" "sw_signer sw = ex_signer" "\<not> sw_sealed sw"
    "sw_last_ts sw = None" "sgm_bytes_written (sw_current sw) = HEADER_LEN" "unat (sgm_index (sw_current sw)) = 0"
    using ex_opened by blast
  obtain ms where ms: "parse_rfc3339_millis (in_ts_wall ex_new_input) = Some ms" using ex_new_input_ok(5) by blast
  have "\<exists>sw' d' id. signed_append ex_crypto ex_new_input (sw, d) = ((sw', d'), Ok id) \<and> signed_reach ex_crypto (sw', d') \<and>
      sw_last_ts sw' = Some (in_ts_wall ex_new_input, in_ts_mono_delta ex_new_input)"
    by (rule signed_appends_succeed [OF o(1,3) _ _ _ ex_new_input_ok(1,2) _ ms])
      (use o ex_writer_key(3) ex_new_input_ok(3,4) in \<open>simp_all add: HEADER_LEN_def clock_ok_def\<close>)
  then show ?thesis using o(1) by blast
qed

text \<open>C14. A sealed log stays closed: after a seal that succeeded, the writer refuses every append and
  another seal without changing anything, and the log cannot be opened for writing again.\<close>

theorem sealed_log_stays_closed:
  assumes "signed_reach c (sw, d)" "sgm_bytes_written (sw_current sw) < 2 ^ 63"
    and "signed_seal c (sw, d) = ((sw', d'), Ok k)"
    and "length sid = 16" "\<forall>x \<in> sset nonces. length x = 32"
  shows "signed_append c input (sw', d') = ((sw', d'), Err SWSealed) \<and>
    signed_seal c (sw', d') = ((sw', d'), Err SWSealed) \<and>
    snd (open_inner c (sw_signer sw') sid cfg fresh nonces d') = Err SWSealed"
proof -
  obtain segs where segs: "sw_at c segs (sw, d)" using reach_holds_log [OF assms(1)] by (auto simp: holds_log_def)
  then have base: "sw_base c segs (sw, d)" by (simp add: sw_at_def)
  from seal_step [OF segs assms(2,3)]
  obtain r where s: "sw_at c (add_rec segs r) (sw', d')" "sw_sealed sw'" "en_event (fst r) = EVENT_SEALED"
    by (auto simp del: split_paired_Ex)
  have l: "last (add_rec segs r) = last segs @ [r]" by (rule add_rec_nth(2) [OF sw_base_parts(10) [OF base]])
  then have "closed_by (last (add_rec segs r)) EVENT_SEALED" "length (last (add_rec segs r)) < 2 ^ 64"
    using s(3) last_records_few(1) [OF base assms(2)] by (simp_all add: closed_by_def)
  from open_sealed [OF s(1) this assms(4,5)] show ?thesis
    using s(2) by (simp add: signed_append_def signed_seal_def)
qed

theorem sealed_log_stays_closed_witness:
  "\<exists>sw d sw' d' k. signed_reach ex_crypto (sw, d) \<and> signed_seal ex_crypto (sw, d) = ((sw', d'), Ok k) \<and>
     snd (open_inner ex_crypto (sw_signer sw') (replicate 16 4) default_config [] (sconst (replicate 32 5)) d') = Err SWSealed"
proof -
  obtain sw d sw' d' k where s: "signed_reach ex_crypto (sw, d)" "sgm_bytes_written (sw_current sw) < 2 ^ 63"
    "signed_seal ex_crypto (sw, d) = ((sw', d'), Ok k)"
    using ex_sealed by blast
  then show ?thesis
    using sealed_log_stays_closed [OF s, of "replicate 16 4" "sconst (replicate 32 5)"] by force
qed

end
