(* ===== verification/Spec2Isabelle.thy ===== *)
theory Spec2Isabelle
  imports Example_Log Verifier_Report Verifier_Detect Reader_Correct Recovery_Sound Codec_Properties
    Policy Signed_Properties Json_Codec Signed_Verify_Properties Signed_Writer_Properties
begin

text \<open>
  \<^bold>\<open>ogentic-audit: the tamper-evident log, modelled and verified.\<close>

  The program keeps an append-only audit log in a directory of segment files
  \<^verbatim>\<open>audit-NNNN.cbor\<close>. A segment is a header followed by framed records in canonical CBOR. In the
  \<^bold>\<open>HMAC mode\<close> (format 1) field 2 of a record is the tag of the record before it, and the record is
  followed by its own tag \<^verbatim>\<open>HMAC(key, previous tag || record)\<close>. In the \<^bold>\<open>signed mode\<close> (format 2)
  a record is an envelope that names the hash of the envelope before it and the hash of its body, an
  Ed25519 signature in the SSHSIG format, and the body; the verifier decides from pinned keys and
  signed key statements (transitions, revocations) whose signatures count. In both modes a writer
  appends and rolls over to a new segment, opening a directory repairs a torn tail, a verifier walks
  the directory and reports what does not fit, and checkpoints record a position that the log must
  still have later. The development models \<^verbatim>\<open>src/crates/ogentic-audit-core/src\<close> function by
  function and proves what the parts promise each other.

  \<^bold>\<open>Theories and the code they model: both modes.\<close>

  \<^item> Prelude, Text, Unicode_Text, Ordered_Map: machine words and byte strings, \<^verbatim>\<open>Result\<close> with a
    value for a panic, the parts of \<^verbatim>\<open>str\<close> and \<^verbatim>\<open>BTreeMap\<close> the code uses.
  \<^item> Cbor, Cbor_Codec: \<^verbatim>\<open>cbor.rs\<close>. The encoders (\<open>head\<close>, \<open>bstr\<close>, \<open>map_text_keys\<close>, ...) and the
    decoder (\<open>decode\<close>, \<open>decode_value\<close>, \<open>decode_argument\<close>); Cbor_Codec proves that the decoder accepts
    exactly the canonical encodings.
  \<^item> Payload, Timestamps: the payload values and the time arithmetic of \<^verbatim>\<open>writer.rs\<close>.
  \<^item> Log_Dir: a directory is a finite map from file names to bytes; \<open>segment_path\<close>,
    \<open>parse_segment_filename\<close>, \<open>list_segment_indices\<close>.
  \<^item> Policy: \<^verbatim>\<open>policy.rs\<close>, the policy attestation in the payload of a record.

  \<^bold>\<open>HMAC mode.\<close>

  \<^item> Key: \<^verbatim>\<open>key.rs\<close>. The \<^verbatim>\<open>KeyHandle\<close> trait is the record \<open>key_handle\<close>.
  \<^item> Segment, Framing: \<^verbatim>\<open>segment.rs\<close> and the frame readers. \<open>header_parse\<close>, \<open>header_to_bytes\<close>,
    \<open>frame_record\<close>; the locale \<open>framing\<close> states what a reader of frames must do at a whole frame, at
    the end and at a cut frame, and the readers of both modes interpret it.
  \<^item> Records, Record_Codec: the record map of \<^verbatim>\<open>writer.rs\<close> and the decoder of \<^verbatim>\<open>reader.rs\<close>.
  \<^item> Writer, Recovery: \<^verbatim>\<open>writer.rs\<close>. The state is the record \<open>writer\<close> with the directory passed
    explicitly; \<open>writer_append\<close>, \<open>rollover\<close>, \<open>append_framed\<close>; \<open>scan_records\<close>, \<open>with_config\<close>.
  \<^item> Reader: \<^verbatim>\<open>reader.rs\<close>. Checkpoint, Verifier: \<^verbatim>\<open>checkpoint.rs\<close>, \<^verbatim>\<open>verifier.rs\<close>;
    \<open>verify_with_options\<close> and everything it calls, report included.
  \<^item> Log_Spec: the abstract log, a list of segments of records, with the files it stands for
    (\<open>represents\<close>) and when it is a chain under a key (\<open>log_ok\<close>).
  \<^item> Writer_Refines, Finalize: every append is one step of the abstract log and keeps the invariant
    \<open>writer_at\<close>. Recovery_Correct, Recovery_Sound: opening after a crash keeps exactly the whole
    records, and opening any directory only ever shortens its last file. Verifier_Complete and
    Verifier_Sound: a directory verifies if, and only if, it is the files of one chain. Tamper: two
    verifying logs with the same head agree, up to a collision of the tag function.
    Verifier_Detect: what is reported for an altered, misplaced or torn record, a missing segment and
    a removed tail. Verifier_Report: the report is consistent. Reader_Correct: seeking and iterating
    give the records. Codec_Properties: the byte formats. System: the program as a step relation over
    opens, appends and crashes. Example_Log: concrete instances.

  \<^bold>\<open>Signed mode\<close> (\<^verbatim>\<open>signed/\<close>).

  \<^item> Signed_Base: \<^verbatim>\<open>mod.rs\<close>; the record \<open>crypto\<close> holds what other crates compute. Names:
    \<^verbatim>\<open>names.rs\<close>. Json, Json_Codec: \<^verbatim>\<open>json.rs\<close> and that parser and printer fit exactly.
  \<^item> Sshsig, Key_Text: \<^verbatim>\<open>keys.rs\<close>, \<^verbatim>\<open>ed25519.rs\<close>, \<^verbatim>\<open>sshsig.rs\<close>, \<^verbatim>\<open>signer.rs\<close>;
    Signed_Properties: their round trips and the separation of namespaces.
  \<^item> Statements, Statement_Codec: \<^verbatim>\<open>statements.rs\<close>. Trust, Trust_Eval, Trust_Load: \<^verbatim>\<open>trust.rs\<close>;
    \<open>evaluate\<close> computes from pins, transitions and revocations what \<open>accept\<close> says of a signature.
    Trust_Properties: who is trusted, and why; Trust_Load_Properties: what is loaded from files.
  \<^item> Signed_Format, Signed_Codec: \<^verbatim>\<open>format.rs\<close>, headers, envelopes, bodies and frames, and that
    they are read back. Signed_Checkpoint, Signed_Checkpoint_Properties: \<^verbatim>\<open>checkpoint.rs\<close>.
    Signed_Report: \<^verbatim>\<open>report.rs\<close>.
  \<^item> Signed_Verify: \<^verbatim>\<open>verify.rs\<close>. The state is the record \<open>walk\<close>; \<open>record_step\<close> is one record with
    the rules R1 to R11, \<open>walk_segment\<close> a segment with the rules H1 to H12, \<open>verify_signed_log\<close> the
    whole. Signed_Verify_Sound: a walk without violations has seen a chain (\<open>segments_of\<close>);
    Signed_Verify_Complete: a chain is walked without violations; Signed_Verify_Checkpoints: when
    checkpoints are found; Signed_Chain: the last hash stands for the history.
    Signed_Verify_Properties states what a verdict is worth.
  \<^item> Signed_Writer: \<^verbatim>\<open>writer.rs\<close>. \<open>signed_append\<close>, \<open>signed_seal\<close>, \<open>signed_rollover\<close>,
    \<open>scan_segment\<close>, \<open>open_inner\<close>; an operation maps the writer and the directory to both after it.
    Signed_Log: the abstract signed log and its files. Signed_Writer_Refines: the invariant \<open>sw_at\<close>
    between a writer, its directory and a log, and the operations as steps of the log.
    Signed_Reopen: opening a log whose last file was cut. Signed_System: the step relation
    \<open>signed_reach\<close> over opens, appends, seals and crashes. Signed_Progress: operations that succeed.
    Signed_Writer_Properties: the promises of the writer.
  \<^item> Signed_Example: an instance of the parameters on which the properties are instantiated.

  The properties are labelled C1, C2, ... in this theory and in the component theories.

  \<^bold>\<open>Bounds and termination.\<close> Loops are structural or well-founded recursions on the remaining
  bytes, files, digits or, in the evaluation of trust, on the pairs of key and principal that are not
  trusted yet; so they are total, except the reader's iterator, which is a
  \<open>partial_function\<close> in the option type and is proved to return on the files of a log. Lengths are
  natural numbers; fields that are written to disk are words of their width, and the casts that
  truncate are written out. Arithmetic is that of a release build on a 64-bit target: the additions
  that can wrap there are written out where they occur. The theorems on writers assume files of less
  than \<open>2 ^ 63\<close> bytes and segments up to index 9999, the last one that is listed.

  \<^bold>\<open>Parameters.\<close> CRC32, HMAC-SHA256, SHA-256, SHA-512, BLAKE3, base64, Unicode normalization and
  the operations of the curve are functions of other crates: they are arguments of the definitions,
  and the few laws relied on are hypotheses of the properties that need them. Random values (log ids,
  nonces) and the clock are inputs.

  \<^bold>\<open>Not modelled.\<close> Message texts and the report for people (\<^verbatim>\<open>render_human\<close>); release bundles
  (\<^verbatim>\<open>signed/release.rs\<close>), which check a tree of released files, with its links and its metadata,
  against an attestation: only their parts from the other modules are modelled; loading supplied checkpoints from disk; I/O failures other than a file that is absent or a
  name that is taken; durability of \<^verbatim>\<open>fsync\<close> (\<^verbatim>\<open>sync_compat.rs\<close>); zeroization; the command
  line, key storage, KMS and Python bindings, which wrap the core crate.
\<close>

section \<open>The log as a whole\<close>

text \<open>C1. Whatever sequence of opens, appends and crashes (the current file cut at any byte after
  its header) led to a directory, it holds exactly the files of one log, which the writer's state
  describes; and if its timestamps never fall back by more than the slack and it has no more
  segments than four digits number, the verifier accepts it, counts all its records, and reports
  the writer's last tag as the head. The inputs are well-formed: \<open>input_wf\<close> includes the decoder's
  limit on nesting, which the writer does not enforce.\<close>

theorem reachable_log_verifies:
  assumes "reach crc k (w, d)"
  shows "\<exists>segs. represents crc k segs d \<and> writer_at crc segs (w, d) \<and>
    (ts_list None (concat segs) \<and> length segs \<le> 10000 \<longrightarrow>
      (\<exists>r. verify crc k d = Ok r \<and> rpt_verdict r = Verified \<and>
        sum_records_inspected (rpt_log r) = length (concat segs) \<and>
        sum_final_hmac_hex (rpt_log r) = Some (hex (st_last_hmac (w_current w)))))"
proof -
  obtain segs where s: "writer_at crc segs (w, d)" "log_ok MAX_RECORD k segs" "w_key w = k"
    using reach_log [OF assms] by auto
  then have rep: "represents crc k segs d" and ne: "segs \<noteq> []" by (auto simp: writer_at_def)
  obtain n where n: "length segs = Suc n" using ne by (cases segs) auto
  have head: "st_last_hmac (w_current w) = log_pf k segs (length segs)"
    using s n last_nth [OF ne] by (simp add: writer_at_def seg_state_at_def Let_def)
  have cp: "checkpoint_from default_options k segs"
    by (simp add: checkpoint_from_def checkpoint_agrees_def default_options_def)
  have "\<exists>r. verify crc k d = Ok r \<and> rpt_verdict r = Verified \<and>
      sum_records_inspected (rpt_log r) = length (concat segs) \<and>
      sum_final_hmac_hex (rpt_log r) = Some (hex (st_last_hmac (w_current w)))"
    if "ts_list None (concat segs)" "length segs \<le> 10000"
    using verify_log [OF rep ne that(2) log_ok_mono [OF s(2) MAX_RECORD_u32] that(1) cp]
    unfolding head by (simp add: verify_def default_options_def) blast
  then show ?thesis using rep s(1) by blast
qed

theorem reachable_log_verifies_witness:
  "reach ex_crc ex_key (fst ex_wd, snd ex_wd) \<and>
   (\<exists>segs. represents ex_crc ex_key segs (snd ex_wd) \<and> writer_at ex_crc segs (fst ex_wd, snd ex_wd))"
proof -
  have "reach ex_crc ex_key (fst ex_wd, snd ex_wd)" using ex_wd_at(5) by simp
  then show ?thesis using reachable_log_verifies [of ex_crc ex_key "fst ex_wd" "snd ex_wd"] by blast
qed

text \<open>C3. If segment 0 is there, a report without a violation means that the records found in the
  directory form one chain from the genesis header: every tag is the key's tag of its payload, every record names the tag
  before it and the key, across all segments, and the reported head is the last tag. (Without segment 0
  the verifier starts from what the first header it finds names; see \<open>leading_segments_unprotected\<close>
  below.)\<close>

theorem verified_log_is_one_chain:
  assumes "verify_with_options crc k opts d = Ok r" "rpt_verdict r = Verified"
    and "dir_wf d" "seg_get d 0 \<noteq> None"
  shows "linked k (kh_sign k (genesis_body d)) (dir_records d) \<and>
    sum_final_hmac_hex (rpt_log r) = Some (hex (head_of (kh_sign k (genesis_body d)) (dir_records d)))"
proof -
  have "rpt_violation r = None" using verify_report_ok(1) [OF assms(1)] assms(2) by (auto simp: report_ok_def)
  then show ?thesis using verified_linked [OF assms(1) _ assms(3,4)] by blast
qed

lemma ex_dir: "dir_wf (snd ex_wd)" "seg_get (snd ex_wd) 0 \<noteq> None"
  using ex_represents by (simp_all add: represents_def)

theorem verified_log_is_one_chain_witness:
  "\<exists>r. verify_with_options ex_crc ex_key ex_opts (snd ex_wd) = Ok r \<and>
     linked ex_key (kh_sign ex_key (genesis_body (snd ex_wd))) (dir_records (snd ex_wd))"
  using ex_verified(1) verified_log_is_one_chain [OF _ _ ex_dir] by blast

text \<open>C10. Two directories that both hold segment 0, accepted under one key with the same head, hold the
  same genesis header and the same records, or two different messages among those the key signed in
  the two logs have the same tag.\<close>

theorem same_head_same_history:
  assumes "verify_with_options crc k opts d = Ok r" "rpt_verdict r = Verified" "dir_wf d" "seg_get d 0 \<noteq> None"
    and "verify_with_options crc k opts' d' = Ok r'" "rpt_verdict r' = Verified" "dir_wf d'" "seg_get d' 0 \<noteq> None"
    and "sum_final_hmac_hex (rpt_log r) = sum_final_hmac_hex (rpt_log r')"
  shows "(genesis_body d = genesis_body d' \<and> dir_records d = dir_records d') \<or>
    collides k (signed_messages d) (signed_messages d')"
proof -
  have "rpt_violation r = None" "rpt_violation r' = None"
    using verify_report_ok(1) [OF assms(1)] verify_report_ok(1) [OF assms(5)] assms(2,6)
    by (auto simp: report_ok_def)
  then show ?thesis using verified_same_head [OF assms(1) _ assms(3-5) _ assms(7-9)] by blast
qed

text \<open>The example log in two directories, one with a file more.\<close>

definition ex_copy :: dir where "ex_copy = dir_of ex_crc ex_key [[ex_item]]"
definition ex_copy_notes :: dir where "ex_copy_notes = (ascii ''notes'', [1, 2]) # ex_copy"

lemma notes_unlisted: "parse_segment_filename (ascii ''notes'') = None" "segment_path i \<noteq> ascii ''notes''"
  by (simp_all add: parse_segment_filename_def strip_prefix_def segment_path_def ascii_def)

lemma ex_copies: "represents ex_crc ex_key [[ex_item]] ex_copy" "represents ex_crc ex_key [[ex_item]] ex_copy_notes"
proof -
  show c: "represents ex_crc ex_key [[ex_item]] ex_copy" unfolding ex_copy_def by (rule dir_of_represents) simp
  have "ascii ''notes'' \<notin> fst ` set ex_copy" by (simp add: ex_copy_def dir_of_def notes_unlisted(2) [THEN not_sym])
  moreover have "seg_get ex_copy_notes i = seg_get ex_copy i" for i
    using notes_unlisted(2) [of i] by (simp add: ex_copy_notes_def seg_get_def)
  ultimately show "represents ex_crc ex_key [[ex_item]] ex_copy_notes"
    using c notes_unlisted(1) by (auto simp: represents_def dir_wf_def ex_copy_notes_def)
qed

lemma ex_copy_verified:
  assumes "represents ex_crc ex_key [[ex_item]] d"
  obtains r where "verify_with_options ex_crc ex_key default_options d = Ok r" "rpt_verdict r = Verified"
    "sum_final_hmac_hex (rpt_log r) = Some (hex (log_pf ex_key [[ex_item]] 1))" "dir_wf d" "seg_get d 0 \<noteq> None"
proof -
  have "checkpoint_from default_options ex_key [[ex_item]]"
    by (simp add: checkpoint_from_def checkpoint_agrees_def default_options_def)
  then obtain r where "verify_with_options ex_crc ex_key default_options d = Ok r" "rpt_verdict r = Verified"
    "sum_final_hmac_hex (rpt_log r) = Some (hex (log_pf ex_key [[ex_item]] (length [[ex_item]])))"
    using verify_log [OF assms _ _ ex_log_ok(2) ex_ts, of default_options] by (auto simp: default_options_def)
  then show thesis using that assms by (simp add: represents_def)
qed

theorem same_head_same_history_witness:
  "ex_copy \<noteq> ex_copy_notes \<and>
   ((genesis_body ex_copy = genesis_body ex_copy_notes \<and> dir_records ex_copy = dir_records ex_copy_notes) \<or>
    collides ex_key (signed_messages ex_copy) (signed_messages ex_copy_notes))"
proof -
  obtain r where r: "verify_with_options ex_crc ex_key default_options ex_copy = Ok r" "rpt_verdict r = Verified"
    "sum_final_hmac_hex (rpt_log r) = Some (hex (log_pf ex_key [[ex_item]] 1))" "dir_wf ex_copy" "seg_get ex_copy 0 \<noteq> None"
    using ex_copies(1) by (rule ex_copy_verified)
  obtain r' where r': "verify_with_options ex_crc ex_key default_options ex_copy_notes = Ok r'" "rpt_verdict r' = Verified"
    "sum_final_hmac_hex (rpt_log r') = Some (hex (log_pf ex_key [[ex_item]] 1))" "dir_wf ex_copy_notes" "seg_get ex_copy_notes 0 \<noteq> None"
    using ex_copies(2) by (rule ex_copy_verified)
  have "sum_final_hmac_hex (rpt_log r) = sum_final_hmac_hex (rpt_log r')" using r(3) r'(3) by simp
  then show ?thesis
    using same_head_same_history [OF r(1,2,4,5) r'(1,2,4,5)] by (simp add: ex_copy_notes_def)
qed

text \<open>C7. Two directories that both hold segment 0, accepted against the same checkpoint (even by options
  that differ otherwise), agree on the genesis header and on every record up to the checkpointed one, or two
  different signed messages have the same tag.\<close>

theorem checkpoint_pins_history:
  assumes "verify_with_options crc k opts d = Ok r" "rpt_verdict r = Verified" "dir_wf d" "seg_get d 0 \<noteq> None"
    and "verify_with_options crc k opts' d' = Ok r'" "rpt_verdict r' = Verified" "dir_wf d'" "seg_get d' 0 \<noteq> None"
    and "opt_checkpoint opts = Some cp" "opt_checkpoint opts' = Some cp"
  shows "(\<exists>i < length (dir_records d). snd (dir_records d ! i) = cp_hmac cp \<and>
      genesis_body d = genesis_body d' \<and> take (Suc i) (dir_records d) = take (Suc i) (dir_records d')) \<or>
    collides k (signed_messages d) (signed_messages d')"
proof -
  have "rpt_violation r = None" "rpt_violation r' = None"
    using verify_report_ok(1) [OF assms(1)] verify_report_ok(1) [OF assms(5)] assms(2,6)
    by (auto simp: report_ok_def)
  then show ?thesis
    using verified_same_checkpoint [OF assms(1) _ assms(3-5) _ assms(7-10)] by blast
qed

text \<open>The example log, and what it may grow to, against the checkpoint of its first record.\<close>

definition ex_grown :: dir where "ex_grown = dir_of ex_crc ex_key [[ex_item, ex_item]]"

lemma ex_grown_verified:
  "\<exists>r. verify_with_options ex_crc ex_key ex_opts ex_grown = Ok r \<and> rpt_verdict r = Verified"
  "dir_wf ex_grown" "seg_get ex_grown 0 \<noteq> None"
proof -
  have rep: "represents ex_crc ex_key [[ex_item, ex_item]] ex_grown" unfolding ex_grown_def by (rule dir_of_represents) simp
  then show "dir_wf ex_grown" "seg_get ex_grown 0 \<noteq> None" by (simp_all add: represents_def)
  have ok: "log_ok u32_max ex_key [[ex_item, ex_item]]" "ts_list None (concat [[ex_item, ex_item]])"
    using ex_log_ok(2) by (simp_all add: log_ok_def ts_step_def MAX_TS_DRIFT_MS_def)
  have "st_last_hmac (w_current (fst ex_wd)) = snd (seg_chain ex_key 0 (replicate 32 0) [ex_item] ! 0)"
    using ex_wd_at(1,3) by (simp add: writer_at_def seg_state_at_def Let_def seg_final_def seg_chain_def head_of_def)
  also have "\<dots> = snd (seg_chain ex_key 0 (replicate 32 0) [ex_item, ex_item] ! 0)" by (simp add: seg_chain_def Let_def)
  finally have "checkpoint_from ex_opts ex_key [[ex_item, ex_item]]"
    by (simp add: checkpoint_from_def checkpoint_agrees_def ex_opts_def ex_cp_def is_position_def less_Suc_eq numeral_2_eq_2)
  moreover have "cp_hit ex_opts [[ex_item, ex_item]] 0 1"
    by (simp add: cp_hit_def at_checkpoint_def ex_opts_def ex_cp_def is_position_def) (rule exI [of _ 0], simp)
  ultimately show "\<exists>r. verify_with_options ex_crc ex_key ex_opts ex_grown = Ok r \<and> rpt_verdict r = Verified"
    using verify_log [OF rep _ _ ok, of ex_opts] by (simp add: ex_opts_def ex_cp_def matches_key_def) blast
qed

theorem checkpoint_pins_history_witness:
  "(\<exists>i < length (dir_records (snd ex_wd)). snd (dir_records (snd ex_wd) ! i) = cp_hmac ex_cp \<and>
      genesis_body (snd ex_wd) = genesis_body ex_grown \<and>
      take (Suc i) (dir_records (snd ex_wd)) = take (Suc i) (dir_records ex_grown)) \<or>
   collides ex_key (signed_messages (snd ex_wd)) (signed_messages ex_grown)"
proof -
  obtain r where r: "verify_with_options ex_crc ex_key ex_opts (snd ex_wd) = Ok r" "rpt_verdict r = Verified"
    using ex_verified(1) by blast
  obtain r' where r': "verify_with_options ex_crc ex_key ex_opts ex_grown = Ok r'" "rpt_verdict r' = Verified"
    using ex_grown_verified(1) by blast
  have "opt_checkpoint ex_opts = Some ex_cp" by (simp add: ex_opts_def)
  from checkpoint_pins_history [OF r ex_dir r' ex_grown_verified(2,3) this this] show ?thesis .
qed

text \<open>C5. After a crash that leaves the current segment file cut at any byte from 80 on, opening the
  log truncates to whole records: the file is the file of a prefix of the segment's items followed
  by nothing or by a cut frame, which is what the report counts as truncated, and the writer resumes
  as the writer of that prefix (or of the next segment, if the prefix ends in a finalize record).\<close>

theorem crash_recovery_keeps_whole_records:
  assumes "represents crc k segs d" "segs \<noteq> []" "length segs \<le> 10000" "log_ok MAX_RECORD k segs"
    and "80 \<le> c" "length sid = 16" "n = length segs - 1"
  shows "\<exists>j t w d'. j \<le> length (last segs) \<and>
    take c (log_file crc k segs n) = log_file crc k (log_cut j segs) n @ t \<and>
    cut_frame (seg_chain k n (log_pf k segs n) (last segs)) j t \<and>
    with_config crc k sid cfg (seg_put (of_nat n) (take c (log_file crc k segs n)) d) = (d', Ok w) \<and>
    writer_at crc (if log_closed (log_cut j segs) then log_cut j segs @ [[]] else log_cut j segs) (w, d') \<and>
    rep_truncated_bytes (w_recovery w) = length t \<and>
    rep_action (w_recovery w) = (if log_closed (log_cut j segs) then OpenedNextAfterFinalized
       else if t = [] then Resumed else Repaired)"
  using with_config_cut [OF assms(1-6), folded assms(7), of cfg] by metis

theorem crash_recovery_keeps_whole_records_witness:
  "\<exists>j t w d'. j \<le> 1 \<and>
    take 100 (log_file ex_crc ex_key [[ex_item]] 0) = log_file ex_crc ex_key (log_cut j [[ex_item]]) 0 @ t \<and>
    with_config ex_crc ex_key ex_sid default_config
      (seg_put 0 (take 100 (log_file ex_crc ex_key [[ex_item]] 0)) (snd ex_wd)) = (d', Ok w) \<and>
    rep_truncated_bytes (w_recovery w) = length t"
proof -
  have "length ex_sid = 16" by (simp add: ex_sid_def)
  from crash_recovery_keeps_whole_records [OF ex_represents _ _ ex_log_ok(1) _ this, of 100 0 default_config]
  obtain j t w d' where "j \<le> length (last [[ex_item]])"
    "take 100 (log_file ex_crc ex_key [[ex_item]] 0) = log_file ex_crc ex_key (log_cut j [[ex_item]]) 0 @ t"
    "with_config ex_crc ex_key ex_sid default_config
      (seg_put (of_nat 0) (take 100 (log_file ex_crc ex_key [[ex_item]] 0)) (snd ex_wd)) = (d', Ok w)"
    "rep_truncated_bytes (w_recovery w) = length t"
    by auto
  then show ?thesis by (intro exI [of _ j] exI [of _ t] exI [of _ w] exI [of _ d']) simp
qed

text \<open>C13. Appending a well-formed input (within the decoder's limits, its item fitting a record) to a log is exactly one abstract step: the item is added to
  the current segment, or the segment is closed with a finalize record that carries the count and the
  last tag and the item starts the next segment; the returned id is the item's position. When the
  65536 segment indices are used up it fails, after the finalize record was written.\<close>

theorem append_is_one_log_step:
  assumes "writer_at crc segs (w, d)" "log_ok m (w_key w) segs" "1000 \<le> m"
    and "item_ok m (w_key w) (w_session_id w, inp)"
  shows "\<exists>w' d'. same_writer w w' \<and>
    ((\<exists>segs'. writer_append crc inp (w, d) = ((w', d'), Ok (of_nat (length (last segs') - 1))) \<and>
        log_step (w_key w) (w_session_id w, inp) segs segs' \<and> writer_at crc segs' (w', d') \<and>
        log_ok m (w_key w) segs')
     \<or> (length segs = 65536 \<and> writer_append crc inp (w, d) = ((w', d'), Err InvalidInput) \<and>
        (\<exists>f. closing_item (w_key w) (w_session_id w) segs = Some f \<and>
           writer_at crc (log_add f segs) (w', d'))))"
  using append_refines [of crc segs "(w, d)" m inp] assms by simp

theorem append_is_one_log_step_witness:
  "\<exists>w' d' segs'. writer_append ex_crc ex_input (fst ex_wd, snd ex_wd) =
      ((w', d'), Ok (of_nat (length (last segs') - 1))) \<and> writer_at ex_crc segs' (w', d')"
proof -
  have "writer_at ex_crc [[ex_item]] (fst ex_wd, snd ex_wd)" using ex_wd_at(1) by simp
  moreover have "log_ok MAX_RECORD (w_key (fst ex_wd)) [[ex_item]]" using ex_log_ok(1) ex_wd_at(3) by simp
  moreover have "(1000 :: nat) \<le> MAX_RECORD" by (simp add: MAX_RECORD_def)
  moreover have "item_ok MAX_RECORD (w_key (fst ex_wd)) (w_session_id (fst ex_wd), ex_input)"
    using ex_item_ok ex_wd_at(3,4) by (simp add: ex_item_def)
  ultimately have "\<exists>w' d'. same_writer (fst ex_wd) w' \<and>
    ((\<exists>segs'. writer_append ex_crc ex_input (fst ex_wd, snd ex_wd) = ((w', d'), Ok (of_nat (length (last segs') - 1))) \<and>
        log_step (w_key (fst ex_wd)) (w_session_id (fst ex_wd), ex_input) [[ex_item]] segs' \<and>
        writer_at ex_crc segs' (w', d') \<and> log_ok MAX_RECORD (w_key (fst ex_wd)) segs')
     \<or> (length [[ex_item]] = 65536 \<and> writer_append ex_crc ex_input (fst ex_wd, snd ex_wd) = ((w', d'), Err InvalidInput) \<and>
        (\<exists>f. closing_item (w_key (fst ex_wd)) (w_session_id (fst ex_wd)) [[ex_item]] = Some f \<and>
           writer_at ex_crc (log_add f [[ex_item]]) (w', d'))))"
    by (rule append_is_one_log_step)
  moreover have "length [[ex_item]] \<noteq> 65536" by simp
  ultimately show ?thesis by blast
qed

section \<open>What the verifier reports on a changed log\<close>

text \<open>C17. If the records before record \<open>i\<close> of segment \<open>n\<close> are those of a log and the record found there
  does not carry the key's tag of its payload (an altered record, or one forged without the key), the
  verifier reports an HMAC mismatch at exactly that segment, record and byte offset, whatever follows.\<close>

theorem altered_record_reported:
  assumes "represents crc k segs d" "n < length segs" "length segs \<le> 10000" "i \<le> length (segs ! n)"
    and "log_ok u32_max k segs" "ts_list None (concat segs)"
    and "length p \<le> u32_max" "length t = 32" "kh_sign k p \<noteq> t"
    and "d' = seg_put (of_nat n)
      (take (frame_offset k segs n i) (log_file crc k segs n) @ frame_record p t @ rest) d"
  shows "\<exists>r v. verify crc k d' = Ok r \<and> rpt_verdict r = HasViolation \<and> rpt_violation r = Some v \<and>
    v_kind v = KHmacMismatch \<and>
    v_location v = \<lparr>loc_segment_index = of_nat n, loc_record_id = Some (of_nat i),
      loc_byte_offset = frame_offset k segs n i\<rparr>"
proof -
  let ?v = "violation_at KHmacMismatch (of_nat n) (Some (of_nat i)) (frame_offset k segs n i)
      (EvHmacMismatch (hex (kh_sign k p)) (hex t) (length p) (frame_offset k segs n i + 4))"
  have v: "rec_valid u32_max (p, t)" using assms(7,8) by (simp add: rec_valid_def)
  have "\<exists>r. verify_with_options crc k default_options d' = Ok r \<and> reports r ?v"
  proof (rule verify_changed [OF assms(1-6) _ _ _ _ refl])
    show "changed_at crc k segs d n i (rec_frame (p, t) @ rest) d'"
      using assms(10) by (simp add: changed_at_def rec_frame_def)
    show "first_bad k default_options (of_nat n) h
        (take (frame_offset k segs n i) (log_file crc k segs n) @ rec_frame (p, t) @ rest) sw ?v"
      if "walk_at k segs n i sw" for h sw
      using first_bad_forged [OF v assms(9) walk_at_content [OF that]] that by (simp add: walk_at_def)
  qed (simp_all add: checkpoint_from_def checkpoint_agrees_def default_options_def)
  then show ?thesis unfolding verify_def reports_def by (auto simp: violation_at_def)
qed

theorem altered_record_reported_witness:
  "\<exists>r v. verify ex_crc ex_key (seg_put 0 (take (frame_offset ex_key ex_segs 0 1) (log_file ex_crc ex_key ex_segs 0)
        @ frame_record [] (replicate 32 9) @ []) ex_dir) = Ok r \<and> rpt_violation r = Some v \<and> v_kind v = KHmacMismatch \<and>
     loc_record_id (v_location v) = Some 1"
proof -
  have "kh_sign ex_key [] \<noteq> replicate 32 9" by (simp add: ex_key_def fit_def HMAC_LEN_def replicate_eq_replicate)
  from altered_record_reported [OF ex_dir_represents _ _ _ ex_segs_ok(1,2) _ _ this refl, of 0 1 "[]"]
  show ?thesis by (auto simp: ex_segs_def u32_max_def)
qed

text \<open>C18. A genuine record of the same key at a position where another tag precedes it (a record
  removed before it, a record replayed from elsewhere in this or another log) is reported as a chain
  break, with the record id it claims.\<close>

theorem misplaced_record_reported:
  assumes "represents crc k segs d" "n < length segs" "length segs \<le> 10000" "i \<le> length (segs ! n)"
    and "log_ok u32_max k segs" "ts_list None (concat segs)"
    and "item_ok u32_max k it" "length prev = 32" "p = item_payload k it prev rid"
    and "prev \<noteq> head_of (seg_start k n (log_pf k segs n)) (take i (seg_chain k n (log_pf k segs n) (segs ! n)))"
    and "d' = seg_put (of_nat n)
      (take (frame_offset k segs n i) (log_file crc k segs n) @ frame_record p (kh_sign k p) @ rest) d"
  shows "\<exists>r v. verify crc k d' = Ok r \<and> rpt_verdict r = HasViolation \<and> rpt_violation r = Some v \<and>
    v_kind v = KChainBreak \<and>
    v_location v = \<lparr>loc_segment_index = of_nat n, loc_record_id = Some rid,
      loc_byte_offset = frame_offset k segs n i\<rparr>"
proof -
  let ?head = "head_of (seg_start k n (log_pf k segs n)) (take i (seg_chain k n (log_pf k segs n) (segs ! n)))"
  let ?v = "chain_break (of_nat n) rid (frame_offset k segs n i) ?head prev"
  have "\<exists>r. verify_with_options crc k default_options d' = Ok r \<and> reports r ?v"
  proof (rule verify_changed [OF assms(1-6) _ _ _ _ refl])
    show "changed_at crc k segs d n i (rec_frame (p, kh_sign k p) @ rest) d'"
      using assms(11) by (simp add: changed_at_def rec_frame_def)
    show "first_bad k default_options (of_nat n) h
        (take (frame_offset k segs n i) (log_file crc k segs n) @ rec_frame (p, kh_sign k p) @ rest) sw ?v"
      if "walk_at k segs n i sw" for h sw
      using first_bad_misplaced [OF assms(7,8) _ assms(9) walk_at_content [OF that]] that assms(10)
      by (simp add: walk_at_def)
  qed (simp_all add: checkpoint_from_def checkpoint_agrees_def default_options_def)
  then show ?thesis unfolding verify_def reports_def by (auto simp: chain_break_def violation_at_def)
qed

theorem misplaced_record_reported_witness:
  "\<exists>r v. verify ex_crc ex_key (seg_put 0 (take (frame_offset ex_key ex_segs 0 1) (log_file ex_crc ex_key ex_segs 0)
        @ frame_record (item_payload ex_key ex_item (replicate 32 5) 7) (kh_sign ex_key (item_payload ex_key ex_item (replicate 32 5) 7))
        @ []) ex_dir) = Ok r \<and> rpt_violation r = Some v \<and> v_kind v = KChainBreak"
proof -
  have "kh_sign ex_key (item_payload ex_key ex_item (seg_start ex_key 0 (replicate 32 0)) 0) ! 1 = 2"
    by (subst ex_tag) simp_all
  then have "kh_sign ex_key (item_payload ex_key ex_item (seg_start ex_key 0 (replicate 32 0)) 0) ! 1 \<noteq> replicate 32 (5 :: u8) ! 1"
    by simp
  then have ne: "replicate 32 5 \<noteq> head_of (seg_start ex_key 0 (log_pf ex_key ex_segs 0))
      (take 1 (seg_chain ex_key 0 (log_pf ex_key ex_segs 0) (ex_segs ! 0)))"
    by (auto simp: ex_segs_def seg_chain_def Let_def head_of_def simp del: nth_replicate)
  have it: "item_ok u32_max ex_key ex_item" using ex_log_ok(2) by (simp add: log_ok_def)
  from misplaced_record_reported [OF ex_dir_represents _ _ _ ex_segs_ok(1,2) it _ refl ne refl, of 7 "[]"]
  show ?thesis by (auto simp: ex_segs_def)
qed

text \<open>C19. Deleting a middle segment is reported as a segment discontinuity at the segment after it,
  whenever the segment's last tag differs from the one before it.\<close>

theorem missing_segment_reported:
  assumes "represents crc k segs d" "0 < n" "Suc n < length segs" "length segs \<le> 10000"
    and "log_ok u32_max k segs" "ts_list None (concat segs)"
    and "log_pf k segs n \<noteq> log_pf k segs (Suc n)"
  shows "\<exists>r v. verify crc k (without_segment n d) = Ok r \<and> rpt_verdict r = HasViolation \<and>
    rpt_violation r = Some v \<and> v_kind v = KSegmentDiscontinuity \<and>
    v_location v = \<lparr>loc_segment_index = of_nat (Suc n), loc_record_id = None, loc_byte_offset = 40\<rparr>"
  using verify_without_segment [OF assms(1-6) _ _ _ assms(7), of default_options]
  by (fastforce simp: verify_def reports_def violation_at_def checkpoint_from_def checkpoint_agrees_def default_options_def)

theorem missing_segment_reported_witness:
  "\<exists>r v. verify ex_crc ex_key (without_segment 1 ex_dir) = Ok r \<and> rpt_violation r = Some v \<and> v_kind v = KSegmentDiscontinuity"
proof -
  have tag: "log_pf ex_key ex_segs (Suc 1) ! 0 = 0" "log_pf ex_key ex_segs 1 ! 0 = 1"
    by (simp_all add: ex_segs_def seg_final_def seg_chain_def Let_def head_of_def seg_start_def ex_tag)
  then have "log_pf ex_key ex_segs 1 \<noteq> log_pf ex_key ex_segs (Suc 1)" by (metis zero_neq_one)
  from missing_segment_reported [OF ex_dir_represents _ _ _ ex_segs_ok(1,2) this] show ?thesis
    by (auto simp: ex_segs_def)
qed

text \<open>A log that no longer holds the checkpointed position, though every record that is left is
  genuine, is reported as truncated at that position.\<close>

theorem removed_tail_reported:
  assumes "represents crc k segs d" "segs \<noteq> []" "length segs \<le> 10000"
    and "log_ok u32_max k segs" "ts_list None (concat segs)"
    and "opt_checkpoint opts = Some c" "matches_key c (kh_key_id k)"
    and "\<forall>n < length segs. \<forall>i < length (segs ! n). \<not> is_position c (of_nat n) (of_nat i)"
  shows "\<exists>r v. verify_with_options crc k opts d = Ok r \<and> rpt_verdict r = HasViolation \<and> rpt_violation r = Some v \<and>
    v_kind v = KCheckpointTruncated \<and> loc_segment_index (v_location v) = cp_segment c \<and>
    loc_record_id (v_location v) = Some (cp_record_id c)"
  using verify_truncated [OF assms(1-7)] assms(8) by (auto simp: reports_def)

theorem removed_tail_reported_witness:
  "\<exists>r v. verify_with_options ex_crc ex_key \<lparr>opt_forensic_mode = False, opt_checkpoint = Some (ex_cp\<lparr>cp_record_id := 5\<rparr>)\<rparr>
     ex_dir = Ok r \<and> rpt_violation r = Some v \<and> v_kind v = KCheckpointTruncated"
proof -
  have "\<forall>n < length ex_segs. \<forall>i < length (ex_segs ! n). \<not> is_position (ex_cp\<lparr>cp_record_id := 5\<rparr>) (of_nat n) (of_nat i)"
    by (auto simp: ex_segs_def is_position_def ex_cp_def less_Suc_eq numeral_3_eq_3)
  from removed_tail_reported [OF ex_dir_represents _ _ ex_segs_ok(1,2) _ _ this,
      of "\<lparr>opt_forensic_mode = False, opt_checkpoint = Some (ex_cp\<lparr>cp_record_id := 5\<rparr>)\<rparr>"]
  show ?thesis by (auto simp: ex_segs_def matches_key_def ex_cp_def)
qed

text \<open>A segment file that ends inside record \<open>i\<close> is reported as a torn record at that offset.\<close>

theorem cut_file_reported:
  assumes "represents crc k segs d" "n < length segs" "length segs \<le> 10000" "i < length (segs ! n)"
    and "log_ok u32_max k segs" "ts_list None (concat segs)"
    and "frame_offset k segs n i < c" "c < frame_offset k segs n (Suc i)"
  shows "\<exists>r v. verify crc k (seg_put (of_nat n) (take c (log_file crc k segs n)) d) = Ok r \<and>
    rpt_verdict r = HasViolation \<and> rpt_violation r = Some v \<and> v_kind v = KRecordCorrupt \<and>
    v_location v = \<lparr>loc_segment_index = of_nat n, loc_record_id = None,
      loc_byte_offset = frame_offset k segs n i\<rparr>"
proof -
  let ?ch = "seg_chain k n (log_pf k segs n) (segs ! n)" let ?off = "frame_offset k segs n i"
  let ?v = "violation_at KRecordCorrupt (of_nat n) None ?off (EvRecordCorrupt TornTailSub)"
  have i: "i < length ?ch" using assms(4) by (simp add: seg_chain_def)
  have "list_all (item_ok u32_max k) (segs ! n)" using assms(2,5) by (simp add: log_ok_def list_all_length)
  then have "list_all (rec_valid u32_max) ?ch" unfolding seg_chain_def by (rule chain_valid) simp
  then have v: "rec_valid u32_max (?ch ! i)" using i by (simp add: list_all_length)
  have nxt: "frame_offset k segs n (Suc i) = ?off + length (rec_frame (?ch ! i))"
    using i by (simp add: frame_offset_def take_Suc_conv_app_nth)
  have d: "drop ?off (log_file crc k segs n) = rec_frame (?ch ! i) @ frames (drop (Suc i) ?ch)"
    unfolding log_file_drop using i by (simp flip: Cons_nth_drop_Suc)
  have "take c (log_file crc k segs n) = take (?off + (c - ?off)) (log_file crc k segs n)" using assms(7) by simp
  also have "\<dots> = take ?off (log_file crc k segs n) @ take (c - ?off) (rec_frame (?ch ! i))"
    unfolding take_add d using assms(8) nxt by simp
  finally have c: "take c (log_file crc k segs n) = \<dots>" .
  have "\<exists>r. verify_with_options crc k default_options (seg_put (of_nat n) (take c (log_file crc k segs n)) d) = Ok r \<and> reports r ?v"
  proof (rule verify_changed [OF assms(1-3) _ assms(5,6) _ _ _ _ refl])
    show "changed_at crc k segs d n i (take (c - ?off) (rec_frame (?ch ! i)))
        (seg_put (of_nat n) (take c (log_file crc k segs n)) d)"
      unfolding changed_at_def c ..
    show "first_bad k default_options (of_nat n) h
        (take ?off (log_file crc k segs n) @ take (c - ?off) (rec_frame (?ch ! i))) sw ?v"
      if "walk_at k segs n i sw" for h sw
      using first_bad_torn [OF v _ _ walk_at_content [OF that]] that assms(7,8) nxt by (simp add: walk_at_def)
  qed (use assms(4) in \<open>simp_all add: checkpoint_from_def checkpoint_agrees_def default_options_def\<close>)
  then show ?thesis unfolding verify_def reports_def by (auto simp: violation_at_def)
qed

theorem cut_file_reported_witness:
  "\<exists>r v. verify ex_crc ex_key (seg_put 0 (take (frame_offset ex_key ex_segs 0 0 + 1) (log_file ex_crc ex_key ex_segs 0)) ex_dir) = Ok r \<and>
     rpt_violation r = Some v \<and> v_kind v = KRecordCorrupt"
proof -
  have it: "item_ok u32_max ex_key ex_item" using ex_log_ok(2) by (simp add: log_ok_def)
  have "rec_valid u32_max (item_payload ex_key ex_item prev 0, kh_sign ex_key (item_payload ex_key ex_item prev 0))"
    if "length prev = 32" for prev using item_payload_bound [OF it that] by (simp add: rec_valid_def)
  from length_rec_frame [OF this] have "frame_offset ex_key ex_segs 0 0 + 1 < frame_offset ex_key ex_segs 0 (Suc 0)"
    by (simp add: frame_offset_def ex_segs_def seg_chain_def Let_def)
  from cut_file_reported [OF ex_dir_represents _ _ _ ex_segs_ok(1,2) _ this] show ?thesis
    by (auto simp: ex_segs_def)
qed

text \<open>C20. Deleting the oldest segments of a log is not noticed without a checkpoint: the verifier takes
  the first segment it finds as the start of the chain and reports the rest as verified, with the
  same head as the whole log.\<close>

theorem leading_segments_unprotected:
  assumes "tail_of crc k segs s d" "s < length segs" "length segs \<le> 10000"
    and "log_ok u32_max k segs" "ts_list None (concat segs)"
  shows "\<exists>r. verify crc k d = Ok r \<and> rpt_verdict r = Verified \<and>
    sum_segments_inspected (rpt_log r) = length segs - s \<and>
    sum_final_hmac_hex (rpt_log r) = Some (hex (log_pf k segs (length segs)))"
  using verify_tail [OF assms] by metis

theorem leading_segments_unprotected_witness:
  "\<exists>r. verify ex_crc ex_key (without_segment 0 ex_dir) = Ok r \<and> rpt_verdict r = Verified \<and>
     sum_segments_inspected (rpt_log r) = 2"
proof -
  have "dir_wf (without_segment 0 ex_dir)" using ex_dir_represents dir_wf_without by (simp add: represents_def)
  moreover have "1 \<le> unat i \<longleftrightarrow> i \<noteq> 0" for i :: u16 by (simp add: unat_gt_0 Suc_le_eq)
  ultimately have "tail_of ex_crc ex_key ex_segs 1 (without_segment 0 ex_dir)"
    using ex_dir_represents by (simp add: tail_of_def without_segment_get represents_def)
  from leading_segments_unprotected [OF this _ _ ex_segs_ok(1,2)] show ?thesis by (auto simp: ex_segs_def)
qed

section \<open>Opening any directory\<close>

text \<open>Whatever the directory holds, an open that succeeds on existing segments changes no byte
  before the point where it resumes: the newest listed file is cut to a prefix that consists of its
  header and of whole records whose tags and links hold, the writer's head is the last of these tags,
  the report counts exactly the bytes cut off, and at most the file of the next segment is written.\<close>

theorem recovery_only_shortens:
  assumes "with_config crc k sid cfg d = (d', Ok w)" "dir_wf d" "list_segment_indices d \<noteq> []"
    and "si = last (list_segment_indices d)" "seg_get d si = Some content"
  shows "\<exists>content' recs start. content' = take 80 content @ frames recs \<and> content' = take (length content') content \<and>
    recovered_chain k start recs \<and> seg_get d' si = Some content' \<and>
    st_last_hmac (w_current w) = head_of start recs \<and>
    rep_truncated_bytes (w_recovery w) = length content - length content' \<and>
    (\<forall>j. j \<noteq> si \<and> j \<noteq> si + 1 \<longrightarrow> seg_get d' j = seg_get d j)"
  using with_config_sound [OF assms] by blast

theorem recovery_only_shortens_witness:
  "\<exists>w d' content content'. with_config ex_crc ex_key ex_sid default_config
      (seg_put 0 (take 100 (log_file ex_crc ex_key [[ex_item]] 0)) (snd ex_wd)) = (d', Ok w) \<and>
    seg_get d' 0 = Some content' \<and> content' = take (length content') content"
proof -
  let ?d = "seg_put 0 (take 100 (log_file ex_crc ex_key [[ex_item]] 0)) (snd ex_wd)"
  have sid: "length ex_sid = 16" by (simp add: ex_sid_def)
  have c: "[[ex_item]] \<noteq> []" "length [[ex_item]] \<le> 10000" "(80 :: nat) \<le> 100" by simp_all
  have z: "length [[ex_item]] - 1 = 0" by simp
  obtain w d' where "with_config ex_crc ex_key ex_sid default_config
      (seg_put (of_nat 0) (take 100 (log_file ex_crc ex_key [[ex_item]] 0)) (snd ex_wd)) = (d', Ok w)"
    by (rule with_config_cut [OF ex_represents c(1,2) ex_log_ok(1) c(3) sid, of default_config, unfolded z])
  then have w: "with_config ex_crc ex_key ex_sid default_config ?d = (d', Ok w)" by simp
  have wf: "dir_wf ?d" using ex_represents by (simp add: represents_def dir_wf_put)
  have "seg_get ?d i \<noteq> None \<longleftrightarrow> unat i < 1" for i
    using ex_represents by (auto simp: store.get_put represents_def)
  then have idx: "list_segment_indices ?d = [0]" using log_indices [OF wf, of 1] by simp
  then have si: "list_segment_indices ?d \<noteq> []" "0 = last (list_segment_indices ?d)" by simp_all
  from recovery_only_shortens [OF w wf si store.put_same] w show ?thesis by blast
qed

section \<open>Reading\<close>

text \<open>C21. The iterator returns all records of all segments in the order they were written, each with its
  segment, id, offset, payload and tag, and then ends; it never skips or repeats one.\<close>

theorem iterator_yields_log:
  assumes "represents crc k segs d" "log_ok u32_max k segs" "length segs < 65536" "segs \<noteq> []"
  shows "yields crc d reader_iter rs \<longleftrightarrow>
    rs = concat (map (\<lambda>n. map (log_record k segs n) [0..<length (segs ! n)]) [0..<length segs])"
  using reader_iter_log [OF assms] yields_unique by (auto simp: log_records_def)

theorem iterator_yields_log_witness:
  "yields ex_crc ex_dir reader_iter
     (concat (map (\<lambda>n. map (log_record ex_key ex_segs n) [0..<length (ex_segs ! n)]) [0..<length ex_segs]))"
  using iterator_yields_log [OF ex_dir_represents ex_segs_ok(1)] by (simp add: ex_segs_def)

text \<open>\<^verbatim>\<open>seek\<close> finds record \<open>i\<close> of segment \<open>n\<close> if it exists, and otherwise reports that there is none.\<close>

theorem seek_finds_record:
  assumes "represents crc k segs d" "n < length segs" "log_ok u32_max k segs" "length (segs ! n) < 2 ^ 64" "i < 2 ^ 64"
  shows "reader_seek crc d (of_nat n) (of_nat i) =
    (if i < length (segs ! n) then Ok (log_record k segs n i) else Err (NotFound (of_nat n) (of_nat i)))"
  using reader_seek_log [OF assms(1-4)] assms(5) by simp

theorem seek_finds_record_witness:
  "reader_seek ex_crc ex_dir 0 1 = Ok (log_record ex_key ex_segs 0 1) \<and> reader_seek ex_crc ex_dir 0 2 = Err (NotFound 0 2)"
  using seek_finds_record [OF ex_dir_represents _ ex_segs_ok(1), of 0 1]
    seek_finds_record [OF ex_dir_represents _ ex_segs_ok(1), of 0 2] by (simp add: ex_segs_def)

section \<open>Reports\<close>

text \<open>C22. Every report is consistent: the verdict is \<^verbatim>\<open>Verified\<close> exactly when there is no violation, no
  further violation is listed without a first one, outside forensic mode at most one is listed at all,
  and the kind \<^verbatim>\<open>TimestampInconsistency\<close> never occurs, nor any kind of the signed mode.\<close>

theorem report_is_consistent:
  assumes "verify_with_options crc k opts d = Ok r"
  shows "(rpt_verdict r = Verified \<longleftrightarrow> rpt_violation r = None) \<and> rpt_verdict r \<noteq> SelfConsistent \<and>
    (rpt_violation r = None \<longrightarrow> rpt_additional_violations r = []) \<and>
    (\<not> opt_forensic_mode opts \<longrightarrow> rpt_additional_violations r = []) \<and>
    (\<forall>v \<in> set_option (rpt_violation r) \<union> set (rpt_additional_violations r). v_kind v \<in> hmac_kinds)"
  using verify_report_ok [OF assms] by (auto simp: report_ok_def)

theorem report_is_consistent_witness:
  "\<exists>r. verify_with_options ex_crc ex_key default_options (snd ex_wd) = Ok r \<and> rpt_violation r = None \<and>
     rpt_additional_violations r = [] \<and> KTimestampInconsistency \<notin> hmac_kinds"
  using ex_verified(2) report_is_consistent by (fastforce simp: hmac_kinds_def)

section \<open>Limits of the format\<close>

text \<open>C23. A segment with an index of five digits is never listed: neither the writer's recovery nor the
  verifier sees that it exists.\<close>

theorem five_digit_segment_ignored:
  assumes "dir_wf d" "10000 \<le> unat i"
  shows "list_segment_indices (seg_put i c d) = list_segment_indices d"
proof -
  have "seg_get (seg_put i c d) j \<noteq> None \<and> unat j < 10000 \<longleftrightarrow> seg_get d j \<noteq> None \<and> unat j < 10000" for j
    using assms(2) by (auto simp: store.get_put)
  then have "set (list_segment_indices (seg_put i c d)) = set (list_segment_indices d)"
    using store.set_indices [OF assms(1)] store.set_indices [OF dir_wf_put [OF assms(1)]] by auto
  then show ?thesis
    using store.indices_sorted [OF assms(1)] store.indices_sorted [OF dir_wf_put [OF assms(1)], of i c]
      sorted_distinct_set_unique by (simp add: strict_sorted_iff) blast
qed

theorem five_digit_segment_ignored_witness:
  "list_segment_indices (seg_put 10000 [1] ex_dir) = list_segment_indices ex_dir"
  using ex_dir_represents by (intro five_digit_segment_ignored) (simp_all add: represents_def)

text \<open>C24. Opening a log of more than 10000 segments overwrites segment 10000 with an empty one: the newest
  listed segment is 9999, which is finalized, so the writer creates the next one and truncates the
  file that is there.\<close>

theorem segment_10000_overwritten:
  assumes "represents crc k segs d" "10000 < length segs" "log_ok MAX_RECORD k segs"
    and "segs ! 9999 \<noteq> []" "in_event (snd (last (segs ! 9999))) = SEGMENT_FINALIZED"
  shows "\<exists>w d'. with_config crc k sid cfg d = (d', Ok w) \<and>
    seg_get d 10000 = Some (log_file crc k segs 10000) \<and>
    seg_get d' 10000 = Some (header_to_bytes crc (header_next 10000 (kh_key_id k) (log_pf k segs 10000)))"
  by (rule reopen_large_log [OF assms])

text \<open>The example: ten thousand finalized segments and one with a record.\<close>

theorem segment_10000_overwritten_witness:
  "\<exists>w d'. with_config ex_crc ex_key ex_sid default_config (dir_of ex_crc ex_key ex_large) = (d', Ok w) \<and>
    seg_get d' 10000 = Some (header_to_bytes ex_crc (header_next 10000 (kh_key_id ex_key) (log_pf ex_key ex_large 10000)))"
proof -
  have "ex_large ! 9999 = [ex_closing]" by (simp add: ex_large_def nth_append)
  then show ?thesis
    using segment_10000_overwritten [OF dir_of_represents _ ex_large_ok, of ex_crc ex_sid default_config]
    by (simp add: ex_closing_def) (simp add: ex_large_def, blast)
qed

text \<open>C25. A record of more than 32 MiB, which the writer accepts, is taken for a torn tail by the recovery
  scan: it and everything after it is cut off, and the open succeeds.\<close>

theorem oversize_record_truncated:
  assumes "MAX_RECORD < length p" "length p \<le> u32_max" "length t = 32"
    and "drop (sc_bytes_written s) content = frame_record p t @ rest" "sc_bytes_written s \<le> length content"
  shows "scan_records k si content s =
    Ok (s\<lparr>sc_truncated_bytes := 40 + length p + length rest\<rparr>, take (sc_bytes_written s) content)"
proof -
  have v: "rec_valid u32_max (p, t)" using assms(2,3) by (simp add: rec_valid_def)
  have d: "drop (sc_bytes_written s) content = rec_frame (p, t) @ rest" using assms(4) by (simp add: rec_frame_def)
  note len = length_rec_frame [OF v, unfolded fst_conv] and b = drop_length_bound [OF d assms(5)]
  have "read_framed_record content (sc_bytes_written s) = Torn"
    using rec_frame_at(1) [OF v assms(5) d] assms(1) by (simp add: read_framed_record_def Let_def MAX_RECORD_def)
  moreover have "\<not> length content \<le> sc_bytes_written s" "length content - sc_bytes_written s = 40 + length p + length rest"
    using b len by linarith+
  ultimately show ?thesis by (subst scan_records.simps) simp
qed

theorem oversize_record_truncated_witness:
  "let p = replicate (MAX_RECORD + 1) 0; t = replicate 32 0
   in scan_records ex_key 0 (replicate 80 0 @ frame_record p t) (scan_start []) =
     Ok ((scan_start [])\<lparr>sc_truncated_bytes := 40 + length p\<rparr>, replicate 80 0)"
proof -
  let ?p = "replicate (MAX_RECORD + 1) 0 :: bytes" and ?t = "replicate 32 0 :: bytes"
  have "MAX_RECORD < length ?p" "length ?p \<le> u32_max" by (simp_all add: MAX_RECORD_def u32_max_def)
  from oversize_record_truncated [OF this, of ?t "scan_start []" "replicate 80 0 @ frame_record ?p ?t" "[]" ex_key 0]
  show ?thesis by (simp add: scan_start_def HEADER_TOTAL_LEN_def)
qed

end
